(* ===== verification/Prelude.thy ===== *)
theory Prelude
  imports Main "HOL-Library.Word" "HOL-Library.Monad_Syntax"
begin

text \<open>
  Shared vocabulary of the development.

  \<^item> Machine integers are words; \<open>usize\<close> values, which the code uses for lengths, counts and
    indices, are natural numbers.
  \<^item> A computation that may panic (a failed \<open>assert!\<close>, an out-of-range index, an \<open>unwrap\<close> of
    an error, an explicit \<open>panic!\<close>) returns an \<open>option\<close>: \<open>None\<close> is the panic. A Rust
    \<open>Result\<close> is a sum with the error on the left. Where both can happen the type is
    \<open>('e + 'a) option\<close>.
  \<^item> Randomness (\<open>thread_rng\<close>, \<open>G::sample\<close>, \<open>P::new_seed\<close>) is a sampler: a function from the
    generator's state to a drawn value and the next state. Theorems quantify over every sampler
    and every generator state, so they hold for every outcome of the random draws.
\<close>

named_theorems panic_simps \<open>equations that evaluate the panicking primitives of the source language\<close>

named_theorems alg_valid \<open>closure of the valid elements under the operations of a trait dictionary\<close>

type_synonym u8 = "8 word"
type_synonym u16 = "16 word"
type_synonym u32 = "32 word"
type_synonym u64 = "64 word"
type_synonym u128 = "128 word"

type_synonym ('r, 'a) sampler = "'r \<Rightarrow> 'a \<times> 'r"

section \<open>Panicking primitives\<close>

text \<open>\<open>assert!(b)\<close>, \<open>xs[i]\<close>, \<open>xs[i] = v\<close> and \<open>iter.next().expect(..)\<close>.\<close>

definition rust_assert :: "bool \<Rightarrow> unit option" where
  "rust_assert b = (if b then Some () else None)"

definition vec_get :: "'a list \<Rightarrow> nat \<Rightarrow> 'a option" where
  "vec_get xs i = (if i < length xs then Some (xs ! i) else None)"

definition vec_set :: "'a list \<Rightarrow> nat \<Rightarrow> 'a \<Rightarrow> 'a list option" where
  "vec_set xs i v = (if i < length xs then Some (xs[i := v]) else None)"

text \<open>\<open>Result::unwrap\<close>.\<close>

fun result_unwrap :: "'e + 'a \<Rightarrow> 'a option" where
  "result_unwrap (Inl e) = None"
| "result_unwrap (Inr x) = Some x"

text \<open>A slice \<open>xs[a..b]\<close>: out-of-range bounds panic.\<close>

definition vec_slice :: "'a list \<Rightarrow> nat \<Rightarrow> nat \<Rightarrow> 'a list option" where
  "vec_slice xs a b = (if a \<le> b \<and> b \<le> length xs then Some (take (b - a) (drop a xs)) else None)"

lemma rust_assert_simps [simp, panic_simps]:
  "rust_assert True = Some ()" "rust_assert False = None"
  by (simp_all add: rust_assert_def)

lemma rust_assert_eq_Some [simp]: "rust_assert b = Some u \<longleftrightarrow> b"
  by (simp add: rust_assert_def)

lemma rust_assert_eq_None [simp]: "rust_assert b = None \<longleftrightarrow> \<not> b"
  by (simp add: rust_assert_def)

lemma vec_get_eq [simp, panic_simps]: "i < length xs \<Longrightarrow> vec_get xs i = Some (xs ! i)"
  by (simp add: vec_get_def)

lemma vec_get_oob [simp, panic_simps]: "length xs \<le> i \<Longrightarrow> vec_get xs i = None"
  by (simp add: vec_get_def)

lemma vec_get_Some_iff: "vec_get xs i = Some v \<longleftrightarrow> i < length xs \<and> v = xs ! i"
  by (auto simp: vec_get_def)

lemma vec_set_eq [simp, panic_simps]: "i < length xs \<Longrightarrow> vec_set xs i v = Some (xs[i := v])"
  by (simp add: vec_set_def)

lemma vec_set_oob [simp, panic_simps]: "length xs \<le> i \<Longrightarrow> vec_set xs i v = None"
  by (simp add: vec_set_def)

lemma vec_set_Some_iff: "vec_set xs i v = Some ys \<longleftrightarrow> i < length xs \<and> ys = xs[i := v]"
  by (auto simp: vec_set_def)

text \<open>The decimal text of a number, as \<open>format!("{}", n)\<close> prints it.\<close>

fun nat_to_string :: "nat \<Rightarrow> string" where
  "nat_to_string n =
     (if n < 10 then [char_of (48 + n)] else nat_to_string (n div 10) @ [char_of (48 + n mod 10)])"

declare nat_to_string.simps [simp del]

section \<open>Iterators\<close>

text \<open>\<open>iter.map(f).collect()\<close> with a panicking or fallible \<open>f\<close>.\<close>

fun try_map :: "('a \<Rightarrow> 'b option) \<Rightarrow> 'a list \<Rightarrow> 'b list option" where
  "try_map f [] = Some []"
| "try_map f (x # xs) = do { y \<leftarrow> f x; ys \<leftarrow> try_map f xs; Some (y # ys) }"

text \<open>\<open>iter.map(f).collect::<Result<Vec<_>, _>>()\<close>: the first error wins.\<close>

fun collect_result :: "('a \<Rightarrow> 'e + 'b) \<Rightarrow> 'a list \<Rightarrow> 'e + 'b list" where
  "collect_result f [] = Inr []"
| "collect_result f (x # xs) =
     (case f x of Inl e \<Rightarrow> Inl e
      | Inr y \<Rightarrow> (case collect_result f xs of Inl e \<Rightarrow> Inl e | Inr ys \<Rightarrow> Inr (y # ys)))"

text \<open>A \<open>fold\<close> whose step may panic.\<close>

fun try_fold :: "('b \<Rightarrow> 'a \<Rightarrow> 'b option) \<Rightarrow> 'b \<Rightarrow> 'a list \<Rightarrow> 'b option" where
  "try_fold f acc [] = Some acc"
| "try_fold f acc (x # xs) = do { acc' \<leftarrow> f acc x; try_fold f acc' xs }"

text \<open>\<open>iter.reduce(f)\<close> followed by \<open>unwrap\<close>/\<open>expect\<close>: an empty iterator panics.\<close>

fun reduce_expect :: "('a \<Rightarrow> 'a \<Rightarrow> 'a option) \<Rightarrow> 'a list \<Rightarrow> 'a option" where
  "reduce_expect f [] = None"
| "reduce_expect f (x # xs) = try_fold f x xs"

text \<open>\<open>xs.iter_mut().zip(ys).for_each(|(x, y)| *x = f(x, y))\<close>: the elements of the longer
  side are left as they are.\<close>

fun zip_assign :: "('a \<Rightarrow> 'b \<Rightarrow> 'a) \<Rightarrow> 'a list \<Rightarrow> 'b list \<Rightarrow> 'a list" where
  "zip_assign f [] ys = []"
| "zip_assign f (x # xs) [] = x # xs"
| "zip_assign f (x # xs) (y # ys) = f x y # zip_assign f xs ys"

text \<open>The same with a panicking operation.\<close>

fun try_zip_assign :: "('a \<Rightarrow> 'b \<Rightarrow> 'a option) \<Rightarrow> 'a list \<Rightarrow> 'b list \<Rightarrow> 'a list option" where
  "try_zip_assign f [] ys = Some []"
| "try_zip_assign f (x # xs) [] = Some (x # xs)"
| "try_zip_assign f (x # xs) (y # ys) = do { z \<leftarrow> f x y; zs \<leftarrow> try_zip_assign f xs ys; Some (z # zs) }"

text \<open>\<open>slice.chunks(n)\<close>: consecutive pieces of \<open>n\<close> elements, the last one possibly shorter.\<close>

function vec_chunks :: "nat \<Rightarrow> 'a list \<Rightarrow> 'a list list" where
  "vec_chunks n xs = (if xs = [] \<or> n = 0 then [] else take n xs # vec_chunks n (drop n xs))"
  by pat_completeness auto
termination
  by (relation "measure (\<lambda>(n, xs). length xs)") auto

declare vec_chunks.simps [simp del]

text \<open>\<open>repeat_with(sample).take(n)\<close>.\<close>

fun repeat_with_take :: "('r, 'a) sampler \<Rightarrow> nat \<Rightarrow> 'r \<Rightarrow> 'a list \<times> 'r" where
  "repeat_with_take draw 0 r = ([], r)"
| "repeat_with_take draw (Suc n) r =
     (let (x, r1) = draw r; (xs, r2) = repeat_with_take draw n r1 in (x # xs, r2))"

text \<open>A sampler all of whose draws satisfy a predicate.\<close>

definition sampler_in :: "('a \<Rightarrow> bool) \<Rightarrow> ('r, 'a) sampler \<Rightarrow> bool" where
  "sampler_in P draw \<longleftrightarrow> (\<forall>r. P (fst (draw r)))"

lemma sampler_inD: "sampler_in P draw \<Longrightarrow> draw r = (x, r') \<Longrightarrow> P x"
  by (metis fst_conv sampler_in_def)

lemma sampler_in_True [simp]: "sampler_in (\<lambda>_. True) draw"
  by (simp add: sampler_in_def)

lemma length_repeat_with_take [simp]: "length (fst (repeat_with_take draw n r)) = n"
  by (induction n arbitrary: r) (simp_all add: Let_def case_prod_beta)

lemma repeat_with_take_length: "repeat_with_take draw n r = (xs, r') \<Longrightarrow> length xs = n"
  by (metis fst_conv length_repeat_with_take)

lemma repeat_with_take_in:
  "sampler_in P draw \<Longrightarrow> repeat_with_take draw n r = (xs, r') \<Longrightarrow> list_all P xs"
proof (induction n arbitrary: r xs)
  case 0
  then show ?case by simp
next
  case (Suc n)
  then show ?case
    by (auto simp: Let_def split: prod.splits dest: sampler_inD)
qed

lemma length_try_map: "try_map f xs = Some ys \<Longrightarrow> length ys = length xs"
  by (induction xs arbitrary: ys) (auto simp: bind_eq_Some_conv)

lemma try_map_Some [simp]: "try_map (\<lambda>x. Some (f x)) xs = Some (map f xs)"
  by (induction xs) auto

lemma try_map_Some_prod [simp]: "try_map (\<lambda>(x, y). Some (f x y)) xs = Some (map (\<lambda>(x, y). f x y) xs)"
  by (induction xs) auto

lemma try_map_eq_map: "(\<And>x. x \<in> set xs \<Longrightarrow> f x = Some (g x)) \<Longrightarrow> try_map f xs = Some (map g xs)"
  by (induction xs) auto

lemma try_map_cong [fundef_cong]:
  "xs = ys \<Longrightarrow> (\<And>x. x \<in> set ys \<Longrightarrow> f x = g x) \<Longrightarrow> try_map f xs = try_map g ys"
  by (induction xs arbitrary: ys) auto

lemma try_map_nth:
  "try_map f xs = Some ys \<Longrightarrow> i < length xs \<Longrightarrow> f (xs ! i) = Some (ys ! i)"
proof (induction xs arbitrary: ys i)
  case Nil
  then show ?case by simp
next
  case (Cons x xs)
  then show ?case by (cases i) (auto simp: bind_eq_Some_conv)
qed

lemma try_map_None_iff: "try_map f xs = None \<longleftrightarrow> (\<exists>x \<in> set xs. f x = None)"
  by (induction xs) (auto simp: bind_eq_None_conv)

lemma try_fold_eq_foldl:
  "(\<And>a x. I a \<Longrightarrow> x \<in> set xs \<Longrightarrow> f a x = Some (g a x) \<and> I (g a x)) \<Longrightarrow> I acc
   \<Longrightarrow> try_fold f acc xs = Some (foldl g acc xs)"
  by (induction xs arbitrary: acc) auto

lemma try_fold_append:
  "try_fold f acc (xs @ ys) = do { acc' \<leftarrow> try_fold f acc xs; try_fold f acc' ys }"
  by (induction xs arbitrary: acc) (auto split: option.splits bind_splits)

lemma collect_result_eq_map:
  "(\<And>x. x \<in> set xs \<Longrightarrow> f x = Inr (g x)) \<Longrightarrow> collect_result f xs = Inr (map g xs)"
  by (induction xs) auto

lemma collect_result_map:
  "(\<And>x. x \<in> set xs \<Longrightarrow> f (h x) = Inr x) \<Longrightarrow> collect_result f (map h xs) = Inr xs"
  by (induction xs) auto

lemma length_collect_result: "collect_result f xs = Inr ys \<Longrightarrow> length ys = length xs"
  by (induction xs arbitrary: ys) (auto split: sum.splits)

lemma length_zip_assign [simp]: "length (zip_assign f xs ys) = length xs"
  by (induction f xs ys rule: zip_assign.induct) auto

lemma zip_assign_eq_map2: "length xs \<le> length ys \<Longrightarrow> zip_assign f xs ys = map2 f xs ys"
  by (induction f xs ys rule: zip_assign.induct) auto

lemma zip_assign_append:
  "length xs = length ys \<Longrightarrow> zip_assign f (xs @ xs') (ys @ ys') = zip_assign f xs ys @ zip_assign f xs' ys'"
  by (induction xs ys rule: list_induct2) auto

lemma try_zip_assign_eq:
  "length xs = length ys \<Longrightarrow> (\<And>x y. x \<in> set xs \<Longrightarrow> y \<in> set ys \<Longrightarrow> f x y = Some (g x y)) \<Longrightarrow>
   try_zip_assign f xs ys = Some (map2 g xs ys)"
  by (induction xs ys rule: list_induct2) auto

lemma vec_chunks_Nil [simp]: "vec_chunks n [] = []"
  by (simp add: vec_chunks.simps)

lemma vec_chunks_step: "xs \<noteq> [] \<Longrightarrow> 0 < n \<Longrightarrow> vec_chunks n xs = take n xs # vec_chunks n (drop n xs)"
  by (subst vec_chunks.simps) simp

lemma concat_vec_chunks: "0 < n \<Longrightarrow> concat (vec_chunks n xs) = xs"
proof (induction n xs rule: vec_chunks.induct)
  case (1 n xs)
  then show ?case by (subst vec_chunks.simps) auto
qed

text \<open>Working chunk by chunk is working element by element.\<close>

lemma zip_assign_chunks:
  "0 < n \<Longrightarrow> length xs = length ys \<Longrightarrow>
   concat (zip_assign (zip_assign f) (vec_chunks n xs) (vec_chunks n ys)) = zip_assign f xs ys"
proof (induction n xs arbitrary: ys rule: vec_chunks.induct)
  case (1 n xs)
  show ?case
  proof (cases "xs = []")
    case False
    then have ys: "ys \<noteq> []" using "1.prems" by auto
    have "concat (zip_assign (zip_assign f) (vec_chunks n (drop n xs)) (vec_chunks n (drop n ys)))
        = zip_assign f (drop n xs) (drop n ys)"
      using 1 False by simp
    moreover have "zip_assign f (take n xs) (take n ys) @ zip_assign f (drop n xs) (drop n ys)
        = zip_assign f (take n xs @ drop n xs) (take n ys @ drop n ys)"
      using "1.prems" by (intro zip_assign_append[symmetric]) simp
    ultimately show ?thesis
      using False ys "1.prems" by (simp add: vec_chunks_step)
  qed simp
qed

text \<open>Chunking a concatenation of pieces of one size gives the pieces back.\<close>

lemma vec_chunks_concat:
  "0 < n \<Longrightarrow> list_all (\<lambda>c. length c = n) cs \<Longrightarrow> vec_chunks n (concat cs) = cs"
proof (induction cs)
  case Nil
  then show ?case by simp
next
  case (Cons c cs)
  then have "c @ concat cs \<noteq> []" by auto
  with Cons show ?case by (simp add: vec_chunks_step)
qed

section \<open>Decimal text\<close>

lemma nat_to_string_nonempty [simp]: "nat_to_string n \<noteq> []"
  by (subst nat_to_string.simps) simp

fun string_value :: "string \<Rightarrow> nat" where
  "string_value s = foldl (\<lambda>acc c. 10 * acc + (of_char c - 48)) 0 s"

lemma string_value_nat_to_string: "string_value (nat_to_string n) = n"
proof (induction n rule: nat_to_string.induct)
  case (1 n)
  show ?case
  proof (cases "n < 10")
    case True
    then show ?thesis by (subst nat_to_string.simps) (simp add: of_char_of)
  next
    case False
    then show ?thesis using 1 by (subst nat_to_string.simps) (simp add: of_char_of)
  qed
qed

lemma nat_to_string_inject [simp]: "nat_to_string m = nat_to_string n \<longleftrightarrow> m = n"
  by (metis string_value_nat_to_string)

section \<open>Lists\<close>

lemma map2_nth [simp]:
  "i < length xs \<Longrightarrow> i < length ys \<Longrightarrow> map2 f xs ys ! i = f (xs ! i) (ys ! i)"
  by simp

lemma map2_update_left:
  "length xs = length ys \<Longrightarrow> map2 f (xs[i := x]) ys = (map2 f xs ys)[i := f x (ys ! i)]"
proof (induction xs ys arbitrary: i rule: list_induct2)
  case (Cons x' xs y ys)
  then show ?case by (cases i) auto
qed simp

lemma map2_Cons_left: "length ys = Suc n \<Longrightarrow> map2 f (x # xs) ys = f x (hd ys) # map2 f xs (tl ys)"
  by (cases ys) auto

lemma list_all_nth: "list_all P xs \<Longrightarrow> i < length xs \<Longrightarrow> P (xs ! i)"
  by (simp add: list_all_length)

lemma list_all_zip:
  "(x, y) \<in> set (zip xs ys) \<Longrightarrow> list_all P xs \<Longrightarrow> list_all Q ys \<Longrightarrow> P x \<and> Q y"
  by (meson list_all_iff set_zip_leftD set_zip_rightD)

lemma list_all_update: "list_all P xs \<Longrightarrow> P v \<Longrightarrow> list_all P (xs[i := v])"
  by (auto simp: list_all_iff dest!: set_update_subset_insert[THEN subsetD])

lemma list_all_map2:
  "list_all P xs \<Longrightarrow> list_all Q ys \<Longrightarrow> (\<And>x y. P x \<Longrightarrow> Q y \<Longrightarrow> R (f x y)) \<Longrightarrow> list_all R (map2 f xs ys)"
  unfolding list_all_iff by (fastforce dest: set_zip_leftD set_zip_rightD)

lemma list_all_map_iff: "list_all P (map f xs) \<longleftrightarrow> list_all (\<lambda>x. P (f x)) xs"
  by (simp add: list_all_iff)

lemma list_all_map_intro: "list_all P xs \<Longrightarrow> (\<And>x. P x \<Longrightarrow> Q (f x)) \<Longrightarrow> list_all Q (map f xs)"
  by (auto simp: list_all_iff)

lemma list_all_replicate [simp]: "list_all P (replicate n x) \<longleftrightarrow> n = 0 \<or> P x"
  by (auto simp: list_all_iff)

lemma remdups_adj_all_same:
  "xs \<noteq> [] \<Longrightarrow> (\<And>x. x \<in> set xs \<Longrightarrow> x = c) \<Longrightarrow> remdups_adj xs = [c]"
  by (induction xs rule: remdups_adj.induct) auto

lemma remdups_adj_singleton_set: "remdups_adj xs = [c] \<Longrightarrow> set xs = {c}"
  by (metis empty_set list.simps(15) remdups_adj_set)

end
