(* ===== verification/Algebra.thy ===== *)
theory Algebra
  imports Prelude "HOL-Library.Multiset"
begin

text \<open>
  The traits of \<open>spectrum_primitives/src/algebra.rs\<close>. A trait is a record of its operations (the
  dictionary a generic function receives); an operation of an implementation that can panic on
  some operands is totalised only inside the dictionary, its own definition keeps the panic.

  The laws the traits promise ("must be associative and have an identity", "a *commutative*
  group", the \<open>check_*_laws!\<close> macros) are locales over a dictionary and a predicate \<open>valid\<close>,
  which singles out the values the implementing type can hold.
\<close>

section \<open>Dictionaries\<close>

text \<open>Trait \<open>Monoid\<close>: \<open>zero\<close> and \<open>+\<close>.\<close>

record 'g monoid_ops =
  m_zero :: 'g
  m_add :: "'g \<Rightarrow> 'g \<Rightarrow> 'g"

text \<open>Trait \<open>Group\<close>: \<open>-\<close> (binary and unary) and \<open>order\<close>.\<close>

record 'g group_ops = "'g monoid_ops" +
  g_sub :: "'g \<Rightarrow> 'g \<Rightarrow> 'g"
  g_neg :: "'g \<Rightarrow> 'g"
  g_order :: nat

text \<open>Trait \<open>Field\<close>: \<open>*\<close>, \<open>mul_invert\<close> (which panics on zero) and \<open>one\<close>.\<close>

record 'g field_ops = "'g group_ops" +
  f_mul :: "'g \<Rightarrow> 'g \<Rightarrow> 'g"
  f_inv :: "'g \<Rightarrow> 'g option"
  f_one :: 'g

text \<open>The bound \<open>G: Group + SpecialExponentMonoid\<close>: a group with \<open>pow\<close> by exponents of
  type \<open>'e\<close>.\<close>

record ('g, 'e) exp_ops = "'g group_ops" +
  e_pow :: "'g \<Rightarrow> 'e \<Rightarrow> 'g"

text \<open>\<open>iter.fold(G::zero(), Add::add)\<close>, which the code writes wherever it sums.\<close>

definition fold_add :: "('g, 'x) monoid_ops_scheme \<Rightarrow> 'g list \<Rightarrow> 'g" where
  "fold_add M xs = foldl (m_add M) (m_zero M) xs"

section \<open>Laws\<close>

locale comm_monoid_laws =
  fixes M :: "('g, 'x) monoid_ops_scheme" and valid :: "'g \<Rightarrow> bool"
  assumes zero_valid: "valid (m_zero M)"
    and add_valid: "valid a \<Longrightarrow> valid b \<Longrightarrow> valid (m_add M a b)"
    and add_assoc: "valid a \<Longrightarrow> valid b \<Longrightarrow> valid c \<Longrightarrow> m_add M (m_add M a b) c = m_add M a (m_add M b c)"
    and add_commute: "valid a \<Longrightarrow> valid b \<Longrightarrow> m_add M a b = m_add M b a"
    and add_zero: "valid a \<Longrightarrow> m_add M a (m_zero M) = a"
begin

lemma zero_add: "valid a \<Longrightarrow> m_add M (m_zero M) a = a"
  using add_commute add_zero zero_valid by metis

lemma add_left_commute:
  "valid a \<Longrightarrow> valid b \<Longrightarrow> valid c \<Longrightarrow> m_add M a (m_add M b c) = m_add M b (m_add M a c)"
  by (metis add_assoc add_commute)

lemma add_interchange:
  "valid a \<Longrightarrow> valid b \<Longrightarrow> valid c \<Longrightarrow> valid d \<Longrightarrow>
   m_add M (m_add M a b) (m_add M c d) = m_add M (m_add M a c) (m_add M b d)"
  by (metis add_assoc add_commute add_valid)

lemmas add_ac = add_assoc add_commute add_left_commute

lemmas monoid_simps = zero_valid add_valid add_zero zero_add

lemma foldl_add_valid: "valid a \<Longrightarrow> list_all valid xs \<Longrightarrow> valid (foldl (m_add M) a xs)"
  by (induction xs arbitrary: a) (auto simp: add_valid)

lemma fold_add_valid: "list_all valid xs \<Longrightarrow> valid (fold_add M xs)"
  by (simp add: fold_add_def foldl_add_valid zero_valid)

lemma fold_add_Nil: "fold_add M [] = m_zero M"
  by (simp add: fold_add_def)

lemma foldl_add_acc:
  "valid a \<Longrightarrow> list_all valid xs \<Longrightarrow> foldl (m_add M) a xs = m_add M a (fold_add M xs)"
proof (induction xs arbitrary: a)
  case Nil
  then show ?case by (simp add: fold_add_def add_zero)
next
  case (Cons x xs)
  have "foldl (m_add M) a (x # xs) = m_add M (m_add M a x) (fold_add M xs)"
    using Cons by (simp add: add_valid)
  also have "\<dots> = m_add M a (m_add M x (fold_add M xs))"
    using Cons.prems by (simp add: add_assoc fold_add_valid)
  also have "m_add M x (fold_add M xs) = fold_add M (x # xs)"
    using Cons by (simp add: fold_add_def zero_add)
  finally show ?case .
qed

lemma fold_add_Cons:
  "valid x \<Longrightarrow> list_all valid xs \<Longrightarrow> fold_add M (x # xs) = m_add M x (fold_add M xs)"
  using foldl_add_acc[of x xs] by (simp add: fold_add_def zero_add)

lemma fold_add_append:
  "list_all valid xs \<Longrightarrow> list_all valid ys \<Longrightarrow>
   fold_add M (xs @ ys) = m_add M (fold_add M xs) (fold_add M ys)"
  using foldl_add_acc[of "fold_add M xs" ys] by (simp add: fold_add_def foldl_add_valid zero_valid)

lemma fold_add_zeros: "fold_add M (replicate n (m_zero M)) = m_zero M"
  by (induction n) (simp_all add: fold_add_Nil fold_add_Cons zero_valid zero_add)

lemma fold_add_map2:
  "length xs = length ys \<Longrightarrow> list_all valid xs \<Longrightarrow> list_all valid ys \<Longrightarrow>
   fold_add M (map2 (m_add M) xs ys) = m_add M (fold_add M xs) (fold_add M ys)"
proof (induction xs ys rule: list_induct2)
  case Nil
  then show ?case by (simp add: fold_add_Nil add_zero zero_valid)
next
  case (Cons x xs y ys)
  have "list_all valid (map2 (m_add M) xs ys)"
    using Cons.prems by (auto intro: list_all_map2 add_valid)
  with Cons show ?case
    by (simp add: fold_add_Cons add_valid add_interchange fold_add_valid)
qed

lemma fold_add_pick:
  "i < length xs \<Longrightarrow> list_all valid xs \<Longrightarrow>
   fold_add M xs = m_add M (xs ! i) (fold_add M (take i xs @ drop (Suc i) xs))"
proof -
  assume i: "i < length xs" and v: "list_all valid xs"
  have parts: "list_all valid (take i xs)" "list_all valid (drop (Suc i) xs)" "valid (xs ! i)"
    using v i by (auto simp: list_all_iff dest: in_set_takeD in_set_dropD)
  have "fold_add M xs = fold_add M (take i xs @ xs ! i # drop (Suc i) xs)"
    using i by (simp add: id_take_nth_drop[symmetric])
  then show ?thesis
    using parts by (simp add: fold_add_append fold_add_Cons fold_add_valid add_left_commute)
qed

text \<open>Replacing a summand exchanges it for the new one.\<close>

lemma fold_add_swap:
  assumes i: "i < length xs" and v: "list_all valid xs" and c: "valid c"
  shows "m_add M (fold_add M (xs[i := c])) (xs ! i) = m_add M (fold_add M xs) c"
proof -
  let ?rest = "fold_add M (take i xs @ drop (Suc i) xs)"
  have xi: "valid (xs ! i)" using v i by (rule list_all_nth)
  have rest: "valid ?rest"
    using v by (intro fold_add_valid) (auto simp: list_all_iff dest: in_set_takeD in_set_dropD)
  have "fold_add M (xs[i := c]) = m_add M c ?rest" "fold_add M xs = m_add M (xs ! i) ?rest"
    using fold_add_pick[of i "xs[i := c]"] fold_add_pick[of i xs] i v c by (simp_all add: list_all_update)
  then show ?thesis using xi c rest by (simp add: add_ac add_valid)
qed

text \<open>Replacing one summand by its sum with \<open>c\<close> adds \<open>c\<close> to the total.\<close>

lemma fold_add_update:
  "i < length xs \<Longrightarrow> list_all valid xs \<Longrightarrow> valid c \<Longrightarrow>
   fold_add M (xs[i := m_add M (xs ! i) c]) = m_add M (fold_add M xs) c"
proof -
  assume i: "i < length xs" and v: "list_all valid xs" and c: "valid c"
  let ?rest = "fold_add M (take i xs @ drop (Suc i) xs)"
  have xi: "valid (xs ! i)" using v i by (rule list_all_nth)
  have rest: "valid ?rest"
    using v by (intro fold_add_valid) (auto simp: list_all_iff dest: in_set_takeD in_set_dropD)
  have "fold_add M (xs[i := m_add M (xs ! i) c]) = m_add M (m_add M (xs ! i) c) ?rest"
    using fold_add_pick[of i "xs[i := m_add M (xs ! i) c]"] i v c xi
    by (simp add: list_all_update add_valid)
  also have "\<dots> = m_add M (m_add M (xs ! i) ?rest) c"
    by (simp add: xi c rest add_ac add_valid)
  also have "m_add M (xs ! i) ?rest = fold_add M xs"
    using fold_add_pick[OF i v] by simp
  finally show ?thesis .
qed

end

context comm_monoid_laws
begin

text \<open>The order of the summands is irrelevant.\<close>

lemma fold_add_mset:
  assumes "mset xs = mset ys" "list_all valid xs"
  shows "fold_add M xs = fold_add M ys"
  using assms
proof (induction xs arbitrary: ys)
  case Nil
  then show ?case by simp
next
  case (Cons x xs)
  then obtain us vs where ys: "ys = us @ x # vs" by (metis in_set_conv_decomp list.set_intros(1) mset_eq_setD)
  then have "mset xs = mset (us @ vs)" using Cons.prems(1) by simp
  then have IH: "fold_add M xs = fold_add M (us @ vs)" using Cons by simp
  have v: "valid x" "list_all valid xs" "list_all valid us" "list_all valid vs"
    using Cons.prems ys mset_eq_setD[OF Cons.prems(1)] by (auto simp: list_all_iff)
  then show ?case
    using IH ys by (simp add: fold_add_Cons fold_add_append fold_add_valid add_left_commute)
qed

text \<open>The sum of a multiset of elements.\<close>

definition msum :: "'g multiset \<Rightarrow> 'g" where
  "msum X = fold_add M (SOME xs. mset xs = X)"

lemma msum_mset: "list_all valid xs \<Longrightarrow> msum (mset xs) = fold_add M xs"
proof -
  assume xs: "list_all valid xs"
  have "mset (SOME ys. mset ys = mset xs) = mset xs" by (rule someI[of _ xs]) simp
  then show ?thesis
    using xs fold_add_mset[of "SOME ys. mset ys = mset xs" xs] unfolding msum_def list_all_iff by (metis mset_eq_setD)
qed

lemma msum_empty [simp]: "msum {#} = m_zero M"
  using msum_mset[of "[]"] by (simp add: fold_add_Nil)

lemma msum_add_mset: "valid a \<Longrightarrow> (\<And>x. x \<in># X \<Longrightarrow> valid x) \<Longrightarrow> msum (add_mset a X) = m_add M (msum X) a"
proof -
  assume a: "valid a" and X: "\<And>x. x \<in># X \<Longrightarrow> valid x"
  obtain xs where xs: "X = mset xs" by (metis ex_mset)
  then have v: "list_all valid xs" using X by (simp add: list_all_iff)
  have "msum (add_mset a X) = fold_add M (a # xs)" using msum_mset[of "a # xs"] a v xs by simp
  then show ?thesis using a v xs by (simp add: fold_add_Cons msum_mset add_commute fold_add_valid)
qed

lemma msum_valid: "(\<And>x. x \<in># X \<Longrightarrow> valid x) \<Longrightarrow> valid (msum X)"
  by (induction X) (auto simp: zero_valid msum_add_mset add_valid)

lemma msum_union:
  "(\<And>x. x \<in># X \<Longrightarrow> valid x) \<Longrightarrow> (\<And>x. x \<in># Y \<Longrightarrow> valid x) \<Longrightarrow> msum (X + Y) = m_add M (msum X) (msum Y)"
proof (induction Y)
  case (add y Y)
  have v: "valid y" "valid (msum X)" "valid (msum Y)" using add.prems by (auto intro: msum_valid)
  have "msum (X + add_mset y Y) = m_add M (msum (X + Y)) y"
    using msum_add_mset[of y "X + Y"] add.prems by auto
  also have "\<dots> = m_add M (m_add M (msum X) (msum Y)) y" using add by simp
  also have "\<dots> = m_add M (msum X) (msum (add_mset y Y))"
    using v add_assoc msum_add_mset[of y Y] add.prems(2) by simp
  finally show ?case .
qed (simp add: add_zero msum_valid)

lemma msum_nested:
  "(\<And>x y. x \<in># X \<Longrightarrow> y \<in># F x \<Longrightarrow> valid y) \<Longrightarrow> msum (image_mset (\<lambda>x. msum (F x)) X) = msum (\<Sum>x\<in>#X. F x)"
proof (induction X)
  case (add x X)
  have X: "valid y" if "y \<in># (\<Sum>x\<in>#X. F x)" for y using that add.prems by auto
  have imgs: "valid z" if "z \<in># image_mset (\<lambda>x. msum (F x)) X" for z using that add.prems by (auto intro: msum_valid)
  have "msum (image_mset (\<lambda>x. msum (F x)) (add_mset x X)) = m_add M (msum (\<Sum>x\<in>#X. F x)) (msum (F x))"
  proof -
    have "valid (msum (F x))" using add.prems by (intro msum_valid) auto
    moreover have "msum (image_mset (\<lambda>x. msum (F x)) X) = msum (\<Sum>x\<in>#X. F x)" using add by auto
    ultimately show ?thesis
      using msum_add_mset[of "msum (F x)" "image_mset (\<lambda>x. msum (F x)) X"]
        imgs by simp
  qed
  also have "\<dots> = msum ((\<Sum>x\<in>#X. F x) + F x)" using X add.prems by (intro msum_union[symmetric]) auto
  finally show ?case by (simp add: add.commute)
qed simp

text \<open>Summing a matrix by rows or by columns.\<close>

lemma fold_add_exchange:
  assumes "\<And>x y. x \<in> set xs \<Longrightarrow> y \<in> set ys \<Longrightarrow> valid (f x y)"
  shows "fold_add M (map (\<lambda>x. fold_add M (map (f x) ys)) xs) = fold_add M (map (\<lambda>y. fold_add M (map (\<lambda>x. f x y) xs)) ys)"
  using assms
proof (induction xs)
  case Nil
  then show ?case by (simp add: fold_add_Nil map_replicate_const fold_add_zeros)
next
  case (Cons x xs)
  have v: "list_all valid (map (f x) ys)" "list_all valid (map (\<lambda>y. fold_add M (map (\<lambda>x. f x y) xs)) ys)"
    "list_all valid (map (\<lambda>x. fold_add M (map (f x) ys)) xs)"
    using Cons.prems by (auto simp: list_all_iff intro!: fold_add_valid)
  have "map (\<lambda>y. fold_add M (map (\<lambda>x. f x y) (x # xs))) ys
      = map2 (m_add M) (map (f x) ys) (map (\<lambda>y. fold_add M (map (\<lambda>x. f x y) xs)) ys)"
    using Cons.prems by (intro nth_equalityI) (auto simp: fold_add_Cons list_all_iff)
  then show ?case
    using Cons v by (simp add: fold_add_Cons fold_add_valid fold_add_map2)
qed

end

text \<open>Vectors of a fixed length with pointwise addition: the outputs of a group generator, and the
  channels of a server.\<close>

definition vec_monoid :: "('g, 'x) monoid_ops_scheme \<Rightarrow> nat \<Rightarrow> 'g list monoid_ops" where
  "vec_monoid M n = \<lparr> m_zero = replicate n (m_zero M), m_add = map2 (m_add M) \<rparr>"

definition vec_valid :: "('g \<Rightarrow> bool) \<Rightarrow> nat \<Rightarrow> 'g list \<Rightarrow> bool" where
  "vec_valid valid n v \<longleftrightarrow> length v = n \<and> list_all valid v"

lemma vec_monoid_sel [simp]:
  "m_zero (vec_monoid M n) = replicate n (m_zero M)" "m_add (vec_monoid M n) = map2 (m_add M)"
  by (simp_all add: vec_monoid_def)

lemma vec_valid_nth: "vec_valid valid n v \<Longrightarrow> i < n \<Longrightarrow> valid (v ! i)"
  by (simp add: vec_valid_def list_all_length)

lemma vec_valid_length: "vec_valid valid n v \<Longrightarrow> length v = n"
  by (simp add: vec_valid_def)

lemma vec_valid_update: "vec_valid valid n v \<Longrightarrow> valid x \<Longrightarrow> vec_valid valid n (v[i := x])"
  by (simp add: vec_valid_def list_all_update)

lemma vec_validI: "length v = n \<Longrightarrow> (\<And>i. i < n \<Longrightarrow> valid (v ! i)) \<Longrightarrow> vec_valid valid n v"
  by (auto simp: vec_valid_def list_all_length)

context comm_monoid_laws
begin

lemma vec_monoid_laws: "comm_monoid_laws (vec_monoid M n) (vec_valid valid n)"
proof unfold_locales
  fix a b c
  assume a: "vec_valid valid n a"
  show "m_add (vec_monoid M n) a (m_zero (vec_monoid M n)) = a"
    using a by (intro nth_equalityI) (auto simp: vec_valid_def add_zero list_all_length)
  assume b: "vec_valid valid n b"
  show "vec_valid valid n (m_add (vec_monoid M n) a b)"
    using a b by (auto simp: vec_valid_def list_all_length add_valid)
  show "m_add (vec_monoid M n) a b = m_add (vec_monoid M n) b a"
    using a b by (intro nth_equalityI) (auto simp: vec_valid_def add_commute list_all_length)
  assume c: "vec_valid valid n c"
  show "m_add (vec_monoid M n) (m_add (vec_monoid M n) a b) c
      = m_add (vec_monoid M n) a (m_add (vec_monoid M n) b c)"
    using a b c by (intro nth_equalityI) (auto simp: vec_valid_def add_assoc list_all_length)
qed (simp add: vec_valid_def zero_valid)

lemmas vec_fold_add_valid = comm_monoid_laws.fold_add_valid[OF vec_monoid_laws]
  and vec_fold_add_Cons = comm_monoid_laws.fold_add_Cons[OF vec_monoid_laws]
  and vec_foldl_add_acc = comm_monoid_laws.foldl_add_acc[OF vec_monoid_laws]
  and vec_zero_valid = comm_monoid_laws.zero_valid[OF vec_monoid_laws]
  and vec_add_zero = comm_monoid_laws.add_zero[OF vec_monoid_laws]
  and vec_zero_add = comm_monoid_laws.zero_add[OF vec_monoid_laws]

text \<open>A sum of vectors is the vector of the sums.\<close>

lemma fold_vec_nth:
  assumes "list_all (vec_valid valid n) vs" "j < n"
  shows "fold_add (vec_monoid M n) vs ! j = fold_add M (map (\<lambda>v. v ! j) vs)"
  using assms
proof (induction vs)
  case Nil
  then show ?case by (simp add: fold_add_def)
next
  case (Cons v vs)
  have "vec_valid valid n (fold_add (vec_monoid M n) vs)" using Cons.prems by (simp add: vec_fold_add_valid)
  moreover have "list_all valid (map (\<lambda>v. v ! j) vs)"
    using Cons.prems by (auto simp: list_all_iff vec_valid_nth)
  moreover have "valid (v ! j)" "length v = n"
    using Cons.prems by (auto simp: vec_valid_nth vec_valid_length)
  ultimately show ?case
    using Cons by (simp add: vec_fold_add_Cons fold_add_Cons vec_valid_length)
qed

lemma length_fold_vec:
  "list_all (vec_valid valid n) vs \<Longrightarrow> length (fold_add (vec_monoid M n) vs) = n"
  using vec_fold_add_valid vec_valid_length by blast

end

locale ab_group_laws = comm_monoid_laws M valid
  for M :: "('g, 'x) group_ops_scheme" and valid :: "'g \<Rightarrow> bool" +
  assumes sub_valid: "valid a \<Longrightarrow> valid b \<Longrightarrow> valid (g_sub M a b)"
    and sub_add_cancel: "valid a \<Longrightarrow> valid b \<Longrightarrow> m_add M (g_sub M a b) b = a"
    and add_neg: "valid a \<Longrightarrow> valid b \<Longrightarrow> m_add M b (g_neg M a) = g_sub M b a"
    and neg_sub: "valid a \<Longrightarrow> valid b \<Longrightarrow> g_sub M (g_neg M a) b = g_sub M (m_zero M) (m_add M a b)"
begin

lemma add_right_cancel:
  assumes "valid a" "valid b" "valid c" and eq: "m_add M a c = m_add M b c"
  shows "a = b"
proof -
  let ?n = "g_sub M (m_zero M) c"
  have n: "valid ?n" "m_add M c ?n = m_zero M"
    using assms sub_add_cancel[of "m_zero M" c] by (simp_all add: sub_valid zero_valid add_commute)
  have "m_add M (m_add M a c) ?n = m_add M (m_add M b c) ?n" by (simp add: eq)
  then show ?thesis using assms(1-3) n by (simp only: add_assoc add_zero)
qed

lemma add_left_cancel:
  "valid a \<Longrightarrow> valid b \<Longrightarrow> valid c \<Longrightarrow> m_add M c a = m_add M c b \<longleftrightarrow> a = b"
  using add_right_cancel[of a b c] by (auto simp: add_commute)

lemma add_sub_cancel: "valid a \<Longrightarrow> valid b \<Longrightarrow> g_sub M (m_add M a b) b = a"
  by (rule add_right_cancel[of _ _ b]) (simp_all add: sub_add_cancel add_valid sub_valid)

lemma sub_self: "valid a \<Longrightarrow> g_sub M a a = m_zero M"
  using add_sub_cancel[of "m_zero M" a] by (simp add: zero_add zero_valid)

lemma sub_zero: "valid a \<Longrightarrow> g_sub M a (m_zero M) = a"
  using add_sub_cancel[of a "m_zero M"] by (simp add: add_zero zero_valid)

lemma sub_eq_zero_iff: "valid a \<Longrightarrow> valid b \<Longrightarrow> g_sub M a b = m_zero M \<longleftrightarrow> a = b"
  by (metis sub_add_cancel sub_self zero_add)

lemma sub_eq_iff: "valid a \<Longrightarrow> valid b \<Longrightarrow> valid c \<Longrightarrow> g_sub M a b = c \<longleftrightarrow> a = m_add M c b"
  by (metis add_sub_cancel sub_add_cancel)

lemma eq_iff_add_zero: "valid a \<Longrightarrow> valid b \<Longrightarrow> m_add M a b = a \<longleftrightarrow> b = m_zero M"
  by (metis add_left_cancel add_zero zero_valid)

text \<open>Replacing one summand by its difference with \<open>c\<close>.\<close>

lemma fold_add_update_sub:
  assumes i: "i < length xs" and v: "list_all valid xs" and c: "valid c"
  shows "fold_add M (xs[i := g_sub M (xs ! i) c]) = g_sub M (fold_add M xs) c"
proof -
  have xi: "valid (xs ! i)" using v i by (rule list_all_nth)
  let ?ys = "xs[i := g_sub M (xs ! i) c]"
  have ys: "list_all valid ?ys" using v xi c by (simp add: list_all_update sub_valid)
  have "m_add M (fold_add M ?ys) c = fold_add M (?ys[i := m_add M (?ys ! i) c])"
    using fold_add_update[of i ?ys c] i ys c by simp
  also have "\<dots> = fold_add M xs" using i xi c by (simp add: sub_add_cancel)
  finally show ?thesis
    using add_sub_cancel[of "fold_add M ?ys" c] ys c by (simp add: fold_add_valid)
qed

end

text \<open>A type that negates by subtracting from zero.\<close>

lemma ab_group_laws_neg_sub:
  fixes M :: "('g, 'x) group_ops_scheme"
  assumes laws: "comm_monoid_laws M valid"
    and sub: "\<And>a b. valid a \<Longrightarrow> valid b \<Longrightarrow> valid (g_sub M a b) \<and> m_add M (g_sub M a b) b = a"
    and neg: "\<And>a. valid a \<Longrightarrow> g_neg M a = g_sub M (m_zero M) a"
  shows "ab_group_laws M valid"
proof (intro ab_group_laws.intro laws ab_group_laws_axioms.intro)
  note monoid = comm_monoid_laws.zero_valid[OF laws] comm_monoid_laws.add_valid[OF laws]
    comm_monoid_laws.add_zero[OF laws] comm_monoid_laws.zero_add[OF laws]
  note assoc = comm_monoid_laws.add_assoc[OF laws] and comm = comm_monoid_laws.add_commute[OF laws]
  fix a b
  assume a: "valid a" and b: "valid b"
  show "valid (g_sub M a b)" "m_add M (g_sub M a b) b = a" using sub a b by simp_all
  have inv: "m_add M a (g_sub M (m_zero M) a) = m_zero M" "valid (g_sub M (m_zero M) a)"
    using sub[OF monoid(1) a] comm[OF a] by simp_all
  have ba: "valid (g_sub M b a)" "m_add M (g_sub M b a) a = b" using sub[OF b a] by simp_all
  have "m_add M (m_add M (g_sub M b a) a) (g_sub M (m_zero M) a) = g_sub M b a"
    using assoc[OF ba(1) a inv(2)] inv(1) ba(1) by (simp add: monoid)
  then show "m_add M b (g_neg M a) = g_sub M b a" using ba(2) neg[OF a] by simp
  let ?x = "g_sub M (g_neg M a) b" and ?s = "m_add M a b"
  have s: "valid ?s" using monoid(2)[OF a b] .
  have x: "valid ?x" "m_add M ?x b = g_sub M (m_zero M) a" using sub[OF _ b] inv(2) neg[OF a] by auto
  have y: "valid (g_sub M (m_zero M) ?s)" "m_add M (g_sub M (m_zero M) ?s) ?s = m_zero M"
    using sub[OF monoid(1) s] by simp_all
  have "m_add M ?x ?s = m_zero M"
    using assoc[OF x(1) b a] x(2) comm[OF a b] comm[OF a inv(2)] inv(1) by simp
  moreover have "m_add M ?x (m_add M ?s (g_sub M (m_zero M) ?s)) = ?x"
    using x(1) y comm[OF s y(1)] by (simp add: monoid)
  ultimately show "?x = g_sub M (m_zero M) ?s"
    using assoc[OF x(1) s y(1)] y(1) by (simp add: monoid)
qed

text \<open>The laws depend on the operations only, not on the record that carries them.\<close>

lemma ab_group_laws_transfer:
  assumes laws: "ab_group_laws M valid"
    and ops: "m_zero M' = m_zero M" "m_add M' = m_add M" "g_sub M' = g_sub M" "g_neg M' = g_neg M"
  shows "ab_group_laws M' valid"
  using laws
  unfolding ab_group_laws_def ab_group_laws_axioms_def comm_monoid_laws_def ops .

locale comm_ring_laws = ab_group_laws M valid
  for M :: "('g, 'x) field_ops_scheme" and valid :: "'g \<Rightarrow> bool" +
  assumes mul_valid: "valid a \<Longrightarrow> valid b \<Longrightarrow> valid (f_mul M a b)"
    and one_valid: "valid (f_one M)"
    and mul_assoc: "valid a \<Longrightarrow> valid b \<Longrightarrow> valid c \<Longrightarrow> f_mul M (f_mul M a b) c = f_mul M a (f_mul M b c)"
    and mul_commute: "valid a \<Longrightarrow> valid b \<Longrightarrow> f_mul M a b = f_mul M b a"
    and mul_one: "valid a \<Longrightarrow> f_mul M a (f_one M) = a"
    and distrib: "valid a \<Longrightarrow> valid b \<Longrightarrow> valid c \<Longrightarrow>
      f_mul M a (m_add M b c) = m_add M (f_mul M a b) (f_mul M a c)"
begin

lemma distrib_right:
  "valid a \<Longrightarrow> valid b \<Longrightarrow> valid c \<Longrightarrow>
   f_mul M (m_add M a b) c = m_add M (f_mul M a c) (f_mul M b c)"
  by (simp add: mul_commute[of _ c] distrib add_valid)

lemma one_mul: "valid a \<Longrightarrow> f_mul M (f_one M) a = a"
  by (simp add: mul_commute one_valid mul_one)

lemma mul_zero: "valid a \<Longrightarrow> f_mul M a (m_zero M) = m_zero M"
proof -
  assume a: "valid a"
  have "m_add M (f_mul M a (m_zero M)) (f_mul M a (m_zero M)) = f_mul M a (m_zero M)"
    using a by (simp add: distrib[symmetric] zero_valid add_zero)
  then show ?thesis using a by (metis eq_iff_add_zero mul_valid zero_valid)
qed

lemma zero_mul: "valid a \<Longrightarrow> f_mul M (m_zero M) a = m_zero M"
  by (simp add: mul_commute zero_valid mul_zero)

lemma sub_mul:
  assumes "valid a" "valid b" "valid c"
  shows "f_mul M (g_sub M a b) c = g_sub M (f_mul M a c) (f_mul M b c)"
proof -
  have "m_add M (f_mul M (g_sub M a b) c) (f_mul M b c) = f_mul M a c"
    using assms by (simp add: distrib_right[symmetric] sub_valid sub_add_cancel)
  then show ?thesis
    using assms add_sub_cancel[of "f_mul M (g_sub M a b) c" "f_mul M b c"]
    by (simp add: mul_valid sub_valid)
qed

lemma mul_sub:
  "valid a \<Longrightarrow> valid b \<Longrightarrow> valid c \<Longrightarrow>
   f_mul M c (g_sub M a b) = g_sub M (f_mul M c a) (f_mul M c b)"
  by (simp add: mul_commute[of c] sub_mul sub_valid)

lemma fold_add_mul:
  "list_all valid xs \<Longrightarrow> valid c \<Longrightarrow>
   fold_add M (map (\<lambda>x. f_mul M x c) xs) = f_mul M (fold_add M xs) c"
proof (induction xs)
  case Nil
  then show ?case by (simp add: fold_add_Nil zero_mul)
next
  case (Cons x xs)
  then have "list_all valid (map (\<lambda>x. f_mul M x c) xs)" by (auto simp: list_all_iff mul_valid)
  with Cons show ?case by (simp add: fold_add_Cons mul_valid distrib_right fold_add_valid)
qed

end

text \<open>\<open>mul_invert\<close> panics exactly on zero and otherwise gives the inverse.\<close>

locale field_laws = comm_ring_laws M valid
  for M :: "('g, 'x) field_ops_scheme" and valid :: "'g \<Rightarrow> bool" +
  assumes inv_zero: "f_inv M (m_zero M) = None"
    and inv_nonzero: "valid a \<Longrightarrow> a \<noteq> m_zero M \<Longrightarrow>
      \<exists>b. f_inv M a = Some b \<and> valid b \<and> f_mul M a b = f_one M"
begin

lemma mul_eq_zero_iff:
  assumes a: "valid a" and b: "valid b"
  shows "f_mul M a b = m_zero M \<longleftrightarrow> a = m_zero M \<or> b = m_zero M"
proof
  assume zero: "f_mul M a b = m_zero M"
  show "a = m_zero M \<or> b = m_zero M"
  proof (rule disjCI)
    assume "b \<noteq> m_zero M"
    then obtain c where c: "valid c" "f_mul M b c = f_one M" using inv_nonzero b by blast
    have "f_mul M (f_mul M a b) c = a"
      using a b c by (simp add: mul_assoc mul_one)
    then show "a = m_zero M" using zero c(1) by (simp add: zero_mul)
  qed
next
  assume "a = m_zero M \<or> b = m_zero M"
  then show "f_mul M a b = m_zero M" using a b mul_zero zero_mul by auto
qed

end

text \<open>A group with exponents: the laws of \<open>check_monoid_custom_exponent!\<close>, and that the
  exponent \<open>one\<close> changes nothing.\<close>

locale exp_laws =
  G: ab_group_laws G validG + E: comm_ring_laws E validE
  for G :: "('g, 'e, 'x) exp_ops_scheme" and validG :: "'g \<Rightarrow> bool"
    and E :: "('e, 'y) field_ops_scheme" and validE :: "'e \<Rightarrow> bool" +
  assumes pow_valid: "validG g \<Longrightarrow> validE a \<Longrightarrow> validG (e_pow G g a)"
    and pow_add: "validG g \<Longrightarrow> validE a \<Longrightarrow> validE b \<Longrightarrow>
      e_pow G g (m_add E a b) = m_add G (e_pow G g a) (e_pow G g b)"
    and pow_mul: "validG g \<Longrightarrow> validE a \<Longrightarrow> validE b \<Longrightarrow>
      e_pow G g (f_mul E a b) = e_pow G (e_pow G g a) b"
    and pow_distrib: "validG g \<Longrightarrow> validG h \<Longrightarrow> validE a \<Longrightarrow>
      e_pow G (m_add G g h) a = m_add G (e_pow G g a) (e_pow G h a)"
    and pow_one: "validG g \<Longrightarrow> e_pow G g (f_one E) = g"
begin

lemma pow_zero: "validG g \<Longrightarrow> e_pow G g (m_zero E) = m_zero G"
  by (metis E.add_zero E.zero_valid G.eq_iff_add_zero pow_add pow_valid)

lemma pow_sub:
  assumes "validG g" "validE a" "validE b"
  shows "e_pow G g (g_sub E a b) = g_sub G (e_pow G g a) (e_pow G g b)"
proof -
  have "m_add G (e_pow G g (g_sub E a b)) (e_pow G g b) = e_pow G g a"
    using assms by (simp add: pow_add[symmetric] E.sub_valid E.sub_add_cancel)
  then show ?thesis
    using assms G.add_sub_cancel[of "e_pow G g (g_sub E a b)" "e_pow G g b"]
    by (simp add: pow_valid E.sub_valid)
qed

lemma fold_add_pow:
  "validG g \<Longrightarrow> list_all validE as \<Longrightarrow>
   fold_add G (map (e_pow G g) as) = e_pow G g (fold_add E as)"
proof (induction as)
  case Nil
  then show ?case by (simp add: G.fold_add_Nil E.fold_add_Nil pow_zero)
next
  case (Cons a as)
  then have "list_all validG (map (e_pow G g) as)" by (auto simp: list_all_iff pow_valid)
  with Cons show ?case
    by (simp add: G.fold_add_Cons E.fold_add_Cons pow_valid pow_add E.fold_add_valid)
qed

end

end
