(* ===== verification/Bytes.thy ===== *)
theory Bytes
  imports Algebra
begin

unbundle bit_operations_syntax

text \<open>
  \<open>spectrum_primitives/src/bytes.rs\<close>: byte strings. \<open>struct Bytes(Vec<u8>)\<close> is a list of bytes, so
  its conversions from and to \<open>Vec<u8>\<close> are the identity.

  \<open>^=\<close> has a fast path that works on chunks of 128 bytes above 100000 bytes; it computes the same
  as \<open>^\<close>. On strings of one length \<open>^\<close> is an abelian group of exponent two.
\<close>

type_synonym bytes = "u8 list"

definition bytes_empty :: "nat \<Rightarrow> bytes" where
  "bytes_empty len = replicate len 0"

text \<open>\<open>Bytes::random\<close>: the loop draws whole chunks while more than 4096 bytes are missing, then cuts
  the last chunk. \<open>fill\<close> is \<open>Rng::fill\<close>, which overwrites a slice in place.\<close>

function bytes_random_loop :: "(bytes \<Rightarrow> ('r, bytes) sampler) \<Rightarrow> nat \<Rightarrow> bytes \<Rightarrow> 'r \<Rightarrow> nat \<times> bytes \<times> 'r" where
  "bytes_random_loop fill len buf r =
     (if len > 4096
      then let (chunk, r') = fill (replicate 4096 0) r
           in bytes_random_loop fill (len - 4096) (buf @ chunk) r'
      else (len, buf, r))"
  by pat_completeness auto
termination
  by (relation "measure (\<lambda>(fill, len, buf, r). len)") auto

declare bytes_random_loop.simps [simp del]

definition bytes_random :: "(bytes \<Rightarrow> ('r, bytes) sampler) \<Rightarrow> nat \<Rightarrow> 'r \<Rightarrow> (bytes \<times> 'r) option" where
  "bytes_random fill len r =
     (let (len', buf, r1) = bytes_random_loop fill len [] r;
          (chunk, r2) = fill (replicate 4096 0) r1
      in do { piece \<leftarrow> vec_slice chunk 0 len'; Some (buf @ piece, r2) })"

definition bytes_len :: "bytes \<Rightarrow> nat" where
  "bytes_len b = length b"

definition bytes_is_empty :: "bytes \<Rightarrow> bool" where
  "bytes_is_empty b \<longleftrightarrow> bytes_len b = 0"

text \<open>The bitwise operators assert equal lengths.\<close>

definition bytes_bitor :: "bytes \<Rightarrow> bytes \<Rightarrow> bytes option" where
  "bytes_bitor a b = do { rust_assert (bytes_len a = bytes_len b); Some (map2 (OR) a b) }"

definition bytes_bitor_assign :: "bytes \<Rightarrow> bytes \<Rightarrow> bytes option" where
  "bytes_bitor_assign a b = do { rust_assert (bytes_len a = bytes_len b); Some (zip_assign (OR) a b) }"

definition bytes_bitxor :: "bytes \<Rightarrow> bytes \<Rightarrow> bytes option" where
  "bytes_bitxor a b = do { rust_assert (bytes_len a = bytes_len b); Some (map2 (XOR) a b) }"

definition bytes_bitxor_assign :: "bytes \<Rightarrow> bytes \<Rightarrow> bytes option" where
  "bytes_bitxor_assign a b =
     do { rust_assert (bytes_len a = bytes_len b);
          if bytes_len a > 100000
          then Some (concat (zip_assign (zip_assign (XOR)) (vec_chunks 128 a) (vec_chunks 128 b)))
          else Some (zip_assign (XOR) a b) }"

section \<open>Random strings have the requested length\<close>

definition fill_in_place :: "(bytes \<Rightarrow> ('r, bytes) sampler) \<Rightarrow> bool" where
  "fill_in_place fill \<longleftrightarrow> (\<forall>buf r. length (fst (fill buf r)) = length buf)"

lemma bytes_random_loop_spec:
  assumes "fill_in_place fill" and "bytes_random_loop fill len buf r = (len', buf', r')"
  shows "len' \<le> 4096 \<and> length buf' + len' = length buf + len"
  using assms
proof (induction fill len buf r rule: bytes_random_loop.induct)
  case (1 fill len buf r)
  show ?case
  proof (cases "len > 4096")
    case True
    obtain chunk r1 where f: "fill (replicate 4096 0) r = (chunk, r1)" by fastforce
    then have len: "length chunk = 4096"
      using "1.prems"(1) by (metis fill_in_place_def fst_conv length_replicate)
    have "bytes_random_loop fill (len - 4096) (buf @ chunk) r1 = (len', buf', r')"
      using "1.prems"(2) True f by (simp add: bytes_random_loop.simps[of fill len buf r])
    then have "len' \<le> 4096 \<and> length buf' + len' = length (buf @ chunk) + (len - 4096)"
      using "1.IH" True f "1.prems"(1) by (metis case_prod_conv)
    with True len show ?thesis by simp
  next
    case False
    with "1.prems"(2) show ?thesis by (simp add: bytes_random_loop.simps[of fill len buf r])
  qed
qed

section \<open>Exclusive or\<close>

lemma bytes_bitxor_eq: "length a = length b \<Longrightarrow> bytes_bitxor a b = Some (map2 (XOR) a b)"
  by (simp add: bytes_bitxor_def bytes_len_def)

text \<open>The chunked path and the plain path of \<open>^=\<close> agree with \<open>^\<close>.\<close>

lemma bytes_bitxor_assign_eq: "length a = length b \<Longrightarrow> bytes_bitxor_assign a b = Some (map2 (XOR) a b)"
  by (simp add: bytes_bitxor_assign_def bytes_len_def zip_assign_chunks zip_assign_eq_map2)

lemma length_bytes_bitxor: "bytes_bitxor a b = Some c \<Longrightarrow> length c = length a \<and> length b = length a"
  by (auto simp: bytes_bitxor_def bytes_len_def bind_eq_Some_conv)

lemma map2_xor_assoc:
  "length a = length b \<Longrightarrow> length b = length (c :: u8 list) \<Longrightarrow>
   map2 (XOR) (map2 (XOR) a b) c = map2 (XOR) a (map2 (XOR) b c)"
  by (rule nth_equalityI) (simp_all add: ac_simps)

lemma map2_xor_commute: "length a = length (b :: u8 list) \<Longrightarrow> map2 (XOR) a b = map2 (XOR) b a"
  by (rule nth_equalityI) (simp_all add: ac_simps)

lemma map2_xor_self: "map2 (XOR) a (a :: u8 list) = replicate (length a) 0"
  by (rule nth_equalityI) simp_all

lemma map2_xor_zero: "map2 (XOR) a (replicate (length a) 0) = (a :: u8 list)"
  by (rule nth_equalityI) simp_all

text \<open>What a distributed point function needs of the exclusive or of its messages: on the valid
  messages it never panics and is an abelian group in which every element is its own inverse.\<close>

locale xor_laws =
  fixes bitxor bitxor_assign :: "'o \<Rightarrow> 'o \<Rightarrow> 'o option" and null :: 'o and valid :: "'o \<Rightarrow> bool"
  assumes xor_total: "valid a \<Longrightarrow> valid b \<Longrightarrow> \<exists>c. bitxor a b = Some c \<and> valid c"
    and xor_assoc: "valid a \<Longrightarrow> valid b \<Longrightarrow> valid c \<Longrightarrow>
      bitxor a b = Some ab \<Longrightarrow> bitxor b c = Some bc \<Longrightarrow> bitxor ab c = bitxor a bc"
    and xor_commute: "valid a \<Longrightarrow> valid b \<Longrightarrow> bitxor a b = bitxor b a"
    and xor_self: "valid a \<Longrightarrow> bitxor a a = Some null"
    and xor_null: "valid a \<Longrightarrow> bitxor a null = Some a"
    and null_valid: "valid null"
    and xor_assign: "valid a \<Longrightarrow> valid b \<Longrightarrow> bitxor_assign a b = bitxor a b"
begin

definition xor :: "'o \<Rightarrow> 'o \<Rightarrow> 'o" where
  "xor a b = the (bitxor a b)"

lemma bitxor_eq: "valid a \<Longrightarrow> valid b \<Longrightarrow> bitxor a b = Some (xor a b)"
  using xor_total by (fastforce simp: xor_def)

lemma xor_valid: "valid a \<Longrightarrow> valid b \<Longrightarrow> valid (xor a b)"
  using xor_total by (fastforce simp: xor_def)

lemma xor_assoc': "valid a \<Longrightarrow> valid b \<Longrightarrow> valid c \<Longrightarrow> xor (xor a b) c = xor a (xor b c)"
proof -
  assume v: "valid a" "valid b" "valid c"
  then have "bitxor (xor a b) c = bitxor a (xor b c)" by (intro xor_assoc[of a b c]) (simp_all add: bitxor_eq)
  then show ?thesis unfolding xor_def[of "xor a b" c] xor_def[of a "xor b c"] by simp
qed

lemma xor_commute': "valid a \<Longrightarrow> valid b \<Longrightarrow> xor a b = xor b a"
  by (simp add: xor_def xor_commute)

lemma xor_self': "valid a \<Longrightarrow> xor a a = null"
  by (simp add: xor_def xor_self)

lemma xor_null': "valid a \<Longrightarrow> xor a null = a"
  by (simp add: xor_def xor_null)

lemma xor_null_left: "valid a \<Longrightarrow> xor null a = a"
  by (metis null_valid xor_commute' xor_null')

lemma xor_left_commute: "valid a \<Longrightarrow> valid b \<Longrightarrow> valid c \<Longrightarrow> xor a (xor b c) = xor b (xor a c)"
  by (metis xor_assoc' xor_commute')

lemma xor_cancel: "valid a \<Longrightarrow> valid b \<Longrightarrow> xor a (xor a b) = b"
  by (metis xor_assoc' xor_null_left xor_self')

lemmas xor_simps = bitxor_eq xor_valid xor_self' xor_null' xor_null_left xor_cancel null_valid

lemma xor_monoid: "comm_monoid_laws \<lparr> m_zero = null, m_add = xor \<rparr> valid"
  by unfold_locales (simp_all add: xor_valid xor_assoc' xor_null' null_valid, rule xor_commute')

lemmas xor_ac = xor_assoc' xor_commute' xor_left_commute

end

text \<open>The exclusive or of all strings of a list.\<close>

definition bytes_sum :: "nat \<Rightarrow> bytes list \<Rightarrow> bytes" where
  "bytes_sum n ms = foldl (\<lambda>acc m. map2 (XOR) acc m) (bytes_empty n) ms"

interpretation bytes_xor: xor_laws bytes_bitxor bytes_bitxor_assign "bytes_empty n" "\<lambda>b. length b = n" for n :: nat
proof unfold_locales
  fix a b c ab bc :: bytes
  assume a: "length a = n"
  show "bytes_bitxor a a = Some (bytes_empty n)"
    using a map2_xor_self[of a] by (simp add: bytes_bitxor_eq bytes_empty_def)
  show "bytes_bitxor a (bytes_empty n) = Some a"
    using a map2_xor_zero[of a] by (simp add: bytes_bitxor_eq bytes_empty_def)
  assume b: "length b = n"
  show "bytes_bitxor_assign a b = bytes_bitxor a b"
    using a b by (simp add: bytes_bitxor_assign_eq bytes_bitxor_eq)
  show "\<exists>c. bytes_bitxor a b = Some c \<and> length c = n" using a b by (simp add: bytes_bitxor_eq)
  show "bytes_bitxor a b = bytes_bitxor b a"
    using a b map2_xor_commute[of a b] by (simp add: bytes_bitxor_eq)
  assume c: "length c = n" and ab: "bytes_bitxor a b = Some ab" and bc: "bytes_bitxor b c = Some bc"
  show "bytes_bitxor ab c = bytes_bitxor a bc"
    using a b c ab bc map2_xor_assoc[of a b c] by (auto simp: bytes_bitxor_eq)
qed (simp add: bytes_empty_def)

lemma bytes_sum_eq:
  assumes "list_all (\<lambda>b. length b = n) ms"
  shows "fold_add \<lparr> m_zero = bytes_empty n, m_add = bytes_xor.xor \<rparr> ms = bytes_sum n ms"
proof -
  have "foldl bytes_xor.xor acc ms = foldl (\<lambda>acc m. map2 (XOR) acc m) acc ms" if "length acc = n" for acc
    using assms that
    by (induction ms arbitrary: acc) (simp_all add: bytes_xor.xor_def bytes_bitxor_eq)
  then show ?thesis by (simp add: fold_add_def bytes_sum_def bytes_empty_def)
qed

text \<open>A single string is its own sum.\<close>

lemma bytes_sum_single: "length m = n \<Longrightarrow> bytes_sum n [m] = m"
  using map2_xor_zero[of m] map2_xor_commute[of m "replicate n 0"] by (simp add: bytes_sum_def bytes_empty_def)

end
