(* ===== verification/IntMod.thy ===== *)
theory IntMod
  imports Algebra
begin

text \<open>
  \<open>spectrum_primitives/src/constructions/baby.rs\<close>: the integers modulo a constant \<open>N: u8\<close>, stored
  in a \<open>u8\<close>. The constant is the first argument of every operation. A remainder by zero, a \<open>u8\<close>
  subtraction below zero and a failed \<open>try_into().unwrap()\<close> panic.

  The type is a group for every \<open>N > 0\<close> and a commutative ring for every \<open>N > 1\<close>, on the
  canonical representatives \<open>inner < N\<close>; it is a field when every nonzero residue is coprime
  to \<open>N\<close>. Negation leaves the canonical representatives: \<open>-0\<close> is stored as \<open>N\<close>.
\<close>

datatype int_mod = IntMod (inner: u8)

section \<open>Operations\<close>

text \<open>\<open>u16\<close> to \<open>u8\<close>, \<open>try_into().unwrap()\<close>.\<close>

definition u16_to_u8 :: "u16 \<Rightarrow> u8 option" where
  "u16_to_u8 w = (if w \<le> 255 then Some (ucast w) else None)"

definition intmod_one :: int_mod where
  "intmod_one = IntMod 1"

definition intmod_zero :: int_mod where
  "intmod_zero = IntMod 0"

definition intmod_mul_invert :: "u8 \<Rightarrow> int_mod \<Rightarrow> int_mod option" where
  "intmod_mul_invert N a =
     (if inner a = 0 then None
      else map_option (\<lambda>i. IntMod (of_nat i))
        (find (\<lambda>i. (ucast (inner a) * ucast (of_nat i :: u8) :: u16) mod ucast N = 1) [0..<unat N]))"

definition intmod_order :: "u8 \<Rightarrow> nat" where
  "intmod_order N = unat N"

definition intmod_add :: "u8 \<Rightarrow> int_mod \<Rightarrow> int_mod \<Rightarrow> int_mod option" where
  "intmod_add N a b =
     (if N = 0 then None
      else map_option IntMod (u16_to_u8 ((ucast (inner a) + ucast (inner b)) mod ucast N)))"

definition intmod_neg :: "u8 \<Rightarrow> int_mod \<Rightarrow> int_mod option" where
  "intmod_neg N a = (if inner a \<le> N then Some (IntMod (N - inner a)) else None)"

definition intmod_sub :: "u8 \<Rightarrow> int_mod \<Rightarrow> int_mod \<Rightarrow> int_mod option" where
  "intmod_sub N a b = do { nb \<leftarrow> intmod_neg N b; intmod_add N a nb }"

definition intmod_add_assign :: "u8 \<Rightarrow> int_mod \<Rightarrow> int_mod \<Rightarrow> int_mod option" where
  "intmod_add_assign N a b = do { s \<leftarrow> intmod_add N a b; Some (IntMod (inner s)) }"

definition intmod_sum :: "u8 \<Rightarrow> int_mod list \<Rightarrow> int_mod option" where
  "intmod_sum N xs = try_fold (intmod_add_assign N) intmod_zero xs"

definition intmod_mul :: "u8 \<Rightarrow> int_mod \<Rightarrow> int_mod \<Rightarrow> int_mod option" where
  "intmod_mul N a b =
     (if N = 0 then None
      else map_option IntMod (u16_to_u8 ((ucast (inner a) * ucast (inner b)) mod ucast N)))"

text \<open>\<open>pow\<close> works on unbounded integers.\<close>

definition intmod_pow :: "u8 \<Rightarrow> int_mod \<Rightarrow> int_mod \<Rightarrow> int_mod option" where
  "intmod_pow N a e =
     (if intmod_order N = 0 then None
      else let v = (unat (inner a) * unat (inner e)) mod intmod_order N
           in if v \<le> 255 then Some (IntMod (of_nat v)) else None)"

definition intmod_try_from :: "u8 \<Rightarrow> u8 \<Rightarrow> unit + int_mod" where
  "intmod_try_from N v = (if unat v \<ge> intmod_order N then Inl () else Inr (IntMod v))"

text \<open>\<open>sample\<close> and \<open>sample_many_from_seed\<close>; \<open>gen_range\<close> (a uniform draw below its bound) and
  \<open>from_seed\<close> belong to the \<open>rand\<close> crate.\<close>

definition intmod_sample :: "(u8 \<Rightarrow> ('r, u8) sampler) \<Rightarrow> u8 \<Rightarrow> 'r \<Rightarrow> (int_mod \<times> 'r) option" where
  "intmod_sample gen_range N r =
     (let (v, r') = gen_range N r
      in case intmod_try_from N v of Inl _ \<Rightarrow> None | Inr x \<Rightarrow> Some (x, r'))"

definition intmod_sample_many_from_seed ::
    "('s \<Rightarrow> 'r) \<Rightarrow> (u8 \<Rightarrow> ('r, u8) sampler) \<Rightarrow> u8 \<Rightarrow> 's \<Rightarrow> nat \<Rightarrow> int_mod list option" where
  "intmod_sample_many_from_seed from_seed gen_range N seed n =
     try_map (\<lambda>v. case intmod_try_from N v of Inl _ \<Rightarrow> None | Inr x \<Rightarrow> Some x)
       (fst (repeat_with_take (gen_range N) n (from_seed seed)))"

text \<open>The trait dictionaries of the type.\<close>

definition intmod_field :: "u8 \<Rightarrow> int_mod field_ops" where
  "intmod_field N =
     \<lparr> m_zero = intmod_zero, m_add = (\<lambda>a b. the (intmod_add N a b)),
       g_sub = (\<lambda>a b. the (intmod_sub N a b)), g_neg = (\<lambda>a. the (intmod_neg N a)),
       g_order = intmod_order N,
       f_mul = (\<lambda>a b. the (intmod_mul N a b)), f_inv = intmod_mul_invert N, f_one = intmod_one \<rparr>"

definition intmod_exp :: "u8 \<Rightarrow> (int_mod, int_mod) exp_ops" where
  "intmod_exp N =
     \<lparr> m_zero = intmod_zero, m_add = (\<lambda>a b. the (intmod_add N a b)),
       g_sub = (\<lambda>a b. the (intmod_sub N a b)), g_neg = (\<lambda>a. the (intmod_neg N a)),
       g_order = intmod_order N, e_pow = (\<lambda>a e. the (intmod_pow N a e)) \<rparr>"

definition intmod_valid :: "u8 \<Rightarrow> int_mod \<Rightarrow> bool" where
  "intmod_valid N a \<longleftrightarrow> inner a < N"

section \<open>The operations on representatives\<close>

abbreviation repr :: "int_mod \<Rightarrow> nat" where
  "repr a \<equiv> unat (inner a)"

lemma repr_inject: "repr a = repr b \<longleftrightarrow> a = b"
  by (cases a; cases b) (simp add: word_unat_eq_iff)

lemma intmod_valid_iff: "intmod_valid N a \<longleftrightarrow> repr a < unat N"
  by (simp add: intmod_valid_def word_less_nat_alt)

lemma unat_u8_lt: "unat (w :: u8) < 256"
  using unsigned_less[of w, where ?'a = nat] by simp

lemma unat_ucast_u16: "unat (ucast (w :: u8) :: u16) = unat w"
  using unat_u8_lt[of w] by (simp add: unsigned_ucast_eq unsigned_take_bit_eq take_bit_nat_eq_self)

lemma unat_ucast_u8: "unat (ucast (w :: u16) :: u8) = unat w mod 256"
  by (simp add: unsigned_ucast_eq unsigned_take_bit_eq take_bit_eq_mod)

lemma repr_IntMod_of_nat: "v < 256 \<Longrightarrow> repr (IntMod (of_nat v)) = v"
  by (simp add: unat_of_nat)

lemma u16_to_u8_of_nat:
  "v < 256 \<Longrightarrow> u16_to_u8 (of_nat v) = Some (of_nat v)"
  by (simp add: u16_to_u8_def word_le_nat_alt unat_of_nat word_unat_eq_iff unat_ucast_u8)

lemma u16_arith:
  assumes "x < 65536" "0 < unat (N :: u8)"
  shows "(of_nat x :: u16) mod ucast N = of_nat (x mod unat N)"
proof -
  have "unat ((of_nat x :: u16) mod ucast N) = x mod unat N"
    using assms unat_u8_lt[of N] by (simp add: unat_mod unat_of_nat unat_ucast_u16)
  moreover have "unat (of_nat (x mod unat N) :: u16) = x mod unat N"
    using assms unat_u8_lt[of N] mod_less_divisor[OF assms(2), of x] by (simp add: unat_of_nat)
  ultimately show ?thesis by (metis word_unat_eq_iff)
qed

lemma mod_u8_lt: "0 < unat (N :: u8) \<Longrightarrow> x mod unat N < 256"
  using unat_u8_lt[of N] mod_less_divisor[of "unat N" x] by linarith

lemma intmod_add_eq:
  assumes "N \<noteq> 0"
  shows "intmod_add N a b = Some (IntMod (of_nat ((repr a + repr b) mod unat N)))"
proof -
  have N: "0 < unat N" using assms by (simp add: unat_gt_0)
  have "(ucast (inner a) + ucast (inner b) :: u16) = of_nat (repr a + repr b)"
    by simp
  then show ?thesis
    using assms N unat_u8_lt[of "inner a"] unat_u8_lt[of "inner b"]
    by (simp add: intmod_add_def u16_arith u16_to_u8_of_nat mod_u8_lt del: of_nat_add)
qed

lemma intmod_mul_eq:
  assumes "N \<noteq> 0"
  shows "intmod_mul N a b = Some (IntMod (of_nat ((repr a * repr b) mod unat N)))"
proof -
  have N: "0 < unat N" using assms by (simp add: unat_gt_0)
  have lt: "repr a * repr b < 65536"
  proof -
    have "repr a * repr b \<le> 255 * 255"
      using unat_u8_lt[of "inner a"] unat_u8_lt[of "inner b"] by (intro mult_le_mono) auto
    then show ?thesis by simp
  qed
  have "(ucast (inner a) * ucast (inner b) :: u16) = of_nat (repr a * repr b)"
    by simp
  then show ?thesis
    using assms N lt by (simp add: intmod_mul_def u16_arith u16_to_u8_of_nat mod_u8_lt del: of_nat_mult)
qed

lemma intmod_pow_eq:
  assumes "N \<noteq> 0"
  shows "intmod_pow N a e = Some (IntMod (of_nat ((repr a * repr e) mod unat N)))"
proof -
  have N: "0 < unat N" using assms by (simp add: unat_gt_0)
  have "(repr a * repr e) mod unat N \<le> 255" using mod_u8_lt[OF N, of "repr a * repr e"] by linarith
  with N show ?thesis by (simp add: intmod_pow_def intmod_order_def Let_def)
qed

lemma intmod_neg_eq: "inner a \<le> N \<Longrightarrow> intmod_neg N a = Some (IntMod (of_nat (unat N - repr a)))"
  by (simp add: intmod_neg_def unat_sub[symmetric])

text \<open>\<open>-0\<close> is the non-canonical \<open>N\<close>; every other negation is canonical.\<close>

lemma intmod_neg_repr: "inner a \<le> N \<Longrightarrow> repr (the (intmod_neg N a)) = unat N - repr a"
  by (simp add: intmod_neg_def unat_sub)

lemma repr_add: "N \<noteq> 0 \<Longrightarrow> repr (the (intmod_add N a b)) = (repr a + repr b) mod unat N"
  by (simp add: intmod_add_eq repr_IntMod_of_nat[simplified] mod_u8_lt unat_gt_0 del: of_nat_add)

lemma repr_mul: "N \<noteq> 0 \<Longrightarrow> repr (the (intmod_mul N a b)) = (repr a * repr b) mod unat N"
  by (simp add: intmod_mul_eq repr_IntMod_of_nat[simplified] mod_u8_lt unat_gt_0 del: of_nat_mult)

lemma repr_pow: "N \<noteq> 0 \<Longrightarrow> repr (the (intmod_pow N a b)) = (repr a * repr b) mod unat N"
  by (simp add: intmod_pow_eq repr_IntMod_of_nat[simplified] mod_u8_lt unat_gt_0 del: of_nat_mult)

lemma repr_sub:
  assumes "N \<noteq> 0" "inner b \<le> N"
  shows "repr (the (intmod_sub N a b)) = (repr a + (unat N - repr b)) mod unat N"
proof -
  have nb: "intmod_neg N b = Some (IntMod (N - inner b))" using assms by (simp add: intmod_neg_def)
  have "the (intmod_sub N a b) = the (intmod_add N a (IntMod (N - inner b)))"
    by (simp add: intmod_sub_def nb)
  then show ?thesis using assms by (simp add: repr_add unat_sub)
qed

lemmas repr_simps = repr_add repr_mul repr_pow repr_sub

section \<open>The laws\<close>

lemma intmod_valid_le: "intmod_valid N a \<Longrightarrow> inner a \<le> N"
  by (simp add: intmod_valid_def)

lemma intmod_field_sel [simp]:
  "m_zero (intmod_field N) = intmod_zero"
  "m_add (intmod_field N) a b = the (intmod_add N a b)"
  "g_sub (intmod_field N) a b = the (intmod_sub N a b)"
  "g_neg (intmod_field N) a = the (intmod_neg N a)"
  "f_mul (intmod_field N) a b = the (intmod_mul N a b)"
  "f_inv (intmod_field N) a = intmod_mul_invert N a"
  "f_one (intmod_field N) = intmod_one"
  by (simp_all add: intmod_field_def)

lemma intmod_exp_sel [simp]:
  "m_zero (intmod_exp N) = intmod_zero"
  "m_add (intmod_exp N) a b = the (intmod_add N a b)"
  "g_sub (intmod_exp N) a b = the (intmod_sub N a b)"
  "g_neg (intmod_exp N) a = the (intmod_neg N a)"
  "e_pow (intmod_exp N) a b = the (intmod_pow N a b)"
  by (simp_all add: intmod_exp_def)

lemma mod_sub_add_cancel:
  fixes a b n :: nat
  assumes "a < n" "b < n"
  shows "((a + (n - b)) mod n + b) mod n = a"
proof -
  have "((a + (n - b)) mod n + b) mod n = (a + (n - b) + b) mod n" by (simp add: mod_simps)
  also have "a + (n - b) + b = a + n" using assms by simp
  finally show ?thesis using assms by simp
qed

lemma mod_neg_sub:
  fixes a b n :: nat
  assumes "a < n" "b < n"
  shows "((n - a) + (n - b)) mod n = (0 + (n - (a + b) mod n)) mod n"
proof (cases "a + b < n")
  case True
  then have "(n - a) + (n - b) = (n - (a + b)) + n" using assms by simp
  then have "((n - a) + (n - b)) mod n = (n - (a + b)) mod n" by (simp only: mod_add_self2)
  then show ?thesis using True by simp
next
  case False
  then have "(a + b) mod n = a + b - n" using assms by (simp add: mod_if)
  then show ?thesis using False assms by simp
qed

lemma repr_zero_one [simp]: "repr intmod_zero = 0" "repr intmod_one = 1"
  by (simp_all add: intmod_zero_def intmod_one_def)

text \<open>The additive laws, for any dictionary with these operations.\<close>

lemma intmod_group_laws:
  assumes N: "N \<noteq> 0"
  shows "ab_group_laws (intmod_field N) (intmod_valid N)"
proof unfold_locales
  have pos: "0 < unat N" using N by (simp add: unat_gt_0)
  show "intmod_valid N (m_zero (intmod_field N))"
    using pos by (simp add: intmod_valid_iff)
  fix a b c
  show "intmod_valid N (m_add (intmod_field N) a b)"
    using N pos by (simp add: intmod_valid_iff repr_simps)
  show "m_add (intmod_field N) (m_add (intmod_field N) a b) c
      = m_add (intmod_field N) a (m_add (intmod_field N) b c)"
    using N by (simp add: repr_inject[symmetric] repr_simps mod_simps add.assoc)
  show "m_add (intmod_field N) a b = m_add (intmod_field N) b a"
    using N by (simp add: repr_inject[symmetric] repr_simps add.commute)
  assume a: "intmod_valid N a"
  then show "m_add (intmod_field N) a (m_zero (intmod_field N)) = a"
    using N by (simp add: repr_inject[symmetric] repr_simps intmod_valid_iff)
  assume b: "intmod_valid N b"
  note le = intmod_valid_le[OF a] intmod_valid_le[OF b]
  show "intmod_valid N (g_sub (intmod_field N) a b)"
    using N pos le by (simp add: intmod_valid_iff repr_simps)
  show "m_add (intmod_field N) (g_sub (intmod_field N) a b) b = a"
    using N le mod_sub_add_cancel[OF a[unfolded intmod_valid_iff] b[unfolded intmod_valid_iff]]
    by (simp add: repr_inject[symmetric] repr_simps)
  show "m_add (intmod_field N) b (g_neg (intmod_field N) a) = g_sub (intmod_field N) b a"
    using N le by (simp add: repr_inject[symmetric] repr_simps intmod_neg_repr)
  have "inner (the (intmod_add N a b)) \<le> N"
    using N pos by (simp add: word_le_nat_alt repr_simps less_imp_le)
  then show "g_sub (intmod_field N) (g_neg (intmod_field N) a) b
      = g_sub (intmod_field N) (m_zero (intmod_field N)) (m_add (intmod_field N) a b)"
    using N a b le mod_neg_sub[of "repr a" "unat N" "repr b"]
    by (simp add: repr_inject[symmetric] repr_simps intmod_neg_repr intmod_valid_iff)
qed

lemma intmod_ring_laws:
  assumes N: "1 < N"
  shows "comm_ring_laws (intmod_field N) (intmod_valid N)"
proof -
  have N0: "N \<noteq> 0" using N by auto
  have pos: "1 < unat N" using N by (simp add: word_less_nat_alt)
  show ?thesis
  proof (intro comm_ring_laws.intro intmod_group_laws[OF N0] comm_ring_laws_axioms.intro)
    fix a b c
    show "intmod_valid N (f_mul (intmod_field N) a b)"
      using N0 pos by (simp add: intmod_valid_iff repr_simps)
    show "intmod_valid N (f_one (intmod_field N))" using pos by (simp add: intmod_valid_iff)
    show "f_mul (intmod_field N) (f_mul (intmod_field N) a b) c
        = f_mul (intmod_field N) a (f_mul (intmod_field N) b c)"
      using N0 by (simp add: repr_inject[symmetric] repr_simps mod_simps mult.assoc)
    show "f_mul (intmod_field N) a b = f_mul (intmod_field N) b a"
      using N0 by (simp add: repr_inject[symmetric] repr_simps mult.commute)
    show "f_mul (intmod_field N) a (m_add (intmod_field N) b c)
        = m_add (intmod_field N) (f_mul (intmod_field N) a b) (f_mul (intmod_field N) a c)"
      using N0 by (simp add: repr_inject[symmetric] repr_simps mod_simps distrib_left)
    assume "intmod_valid N a"
    then show "f_mul (intmod_field N) a (f_one (intmod_field N)) = a"
      using N0 by (simp add: repr_inject[symmetric] repr_simps intmod_valid_iff)
  qed
qed

text \<open>The exponent dictionary shares the group operations.\<close>

lemma intmod_exp_laws:
  assumes N: "1 < N"
  shows "exp_laws (intmod_exp N) (intmod_valid N) (intmod_field N) (intmod_valid N)"
proof -
  have N0: "N \<noteq> 0" using N by auto
  have group: "ab_group_laws (intmod_exp N) (intmod_valid N)"
    by (rule ab_group_laws_transfer[OF intmod_group_laws[OF N0]])
      (simp_all add: intmod_exp_def intmod_field_def)
  show ?thesis
  proof (intro exp_laws.intro group intmod_ring_laws[OF N] exp_laws_axioms.intro)
    fix g h a b
    have pos: "0 < unat N" using N0 by (simp add: unat_gt_0)
    show "intmod_valid N (e_pow (intmod_exp N) g a)"
      using N0 pos by (simp add: intmod_valid_iff repr_simps)
    show "e_pow (intmod_exp N) g (m_add (intmod_field N) a b)
        = m_add (intmod_exp N) (e_pow (intmod_exp N) g a) (e_pow (intmod_exp N) g b)"
      using N0 by (simp add: repr_inject[symmetric] repr_simps mod_simps distrib_left)
    show "e_pow (intmod_exp N) g (f_mul (intmod_field N) a b)
        = e_pow (intmod_exp N) (e_pow (intmod_exp N) g a) b"
      using N0 by (simp add: repr_inject[symmetric] repr_simps mod_simps mult.assoc)
    show "e_pow (intmod_exp N) (m_add (intmod_exp N) g h) a
        = m_add (intmod_exp N) (e_pow (intmod_exp N) g a) (e_pow (intmod_exp N) h a)"
      using N0 by (simp add: repr_inject[symmetric] repr_simps mod_simps distrib_right)
    assume "intmod_valid N g"
    then show "e_pow (intmod_exp N) g (f_one (intmod_field N)) = g"
      using N0 by (simp add: repr_inject[symmetric] repr_simps intmod_valid_iff)
  qed
qed

section \<open>Inverses\<close>

text \<open>The search of \<open>mul_invert\<close> finds an inverse of every residue coprime to the modulus.\<close>

lemma mod_inverse_exists:
  fixes a n :: nat
  assumes "coprime a n" "1 < n"
  shows "\<exists>i < n. (a * i) mod n = 1"
proof -
  have "a \<noteq> 0" using assms by (cases "a = 0") simp_all
  then obtain x y where "a * x = n * y + gcd a n" using bezout_nat by blast
  then have "a * x = 1 + n * y" using assms by simp
  then have "(a * x) mod n = 1" using assms by (simp only: mod_mult_self2) simp
  then have "(a * (x mod n)) mod n = 1" by (simp add: mod_simps)
  moreover have "x mod n < n" using assms by simp
  ultimately show ?thesis by blast
qed

lemma intmod_inverse_test:
  fixes N :: u8
  assumes "i < unat N" "1 < N"
  shows "(ucast (inner a) * ucast (of_nat i :: u8) :: u16) mod ucast N = 1
    \<longleftrightarrow> (repr a * i) mod unat N = 1"
proof -
  have N: "0 < unat N" "1 < unat N" using assms by (auto simp: word_less_nat_alt)
  have i: "i < 256" using assms unat_u8_lt[of N] by simp
  have lt: "repr a * i < 65536"
  proof -
    have "repr a * i \<le> 255 * 255" using unat_u8_lt[of "inner a"] i by (intro mult_le_mono) auto
    then show ?thesis by simp
  qed
  have "(ucast (of_nat i :: u8) :: u16) = of_nat i"
    using i by (simp add: word_unat_eq_iff unat_ucast_u16 unat_of_nat)
  then have eq: "(ucast (inner a) * ucast (of_nat i :: u8) :: u16) = of_nat (repr a * i)" by simp
  have "unat (of_nat (repr a * i) mod ucast N :: u16) = (repr a * i) mod unat N"
    using lt N(1) mod_u8_lt[OF N(1), of "repr a * i"] by (simp add: u16_arith unat_of_nat del: of_nat_mult)
  then show ?thesis unfolding eq word_unat_eq_iff by simp
qed

lemma intmod_mul_invert_correct:
  assumes N: "1 < N" and a: "inner a \<noteq> 0" and co: "coprime (repr a) (unat N)"
  shows "\<exists>b. intmod_mul_invert N a = Some b \<and> intmod_valid N b \<and> intmod_mul N a b = Some intmod_one"
proof -
  let ?P = "\<lambda>i. (ucast (inner a) * ucast (of_nat i :: u8) :: u16) mod ucast N = 1"
  have N': "1 < unat N" "N \<noteq> 0" using N by (auto simp: word_less_nat_alt)
  obtain j where "j < unat N" "?P j"
    using mod_inverse_exists[OF co N'(1)] intmod_inverse_test[OF _ N] by blast
  then have "find ?P [0..<unat N] \<noteq> None" unfolding find_None_iff by auto
  then obtain i where i: "find ?P [0..<unat N] = Some i" by blast
  then have "i < unat N" "?P i" unfolding find_Some_iff by auto
  then have props: "i < unat N" "(repr a * i) mod unat N = 1"
    using intmod_inverse_test[OF _ N] by blast+
  have repr_i: "repr (IntMod (of_nat i)) = i"
    using props(1) unat_u8_lt[of N] by (intro repr_IntMod_of_nat) simp
  have "intmod_mul_invert N a = Some (IntMod (of_nat i))"
    using a i by (simp add: intmod_mul_invert_def)
  moreover have "intmod_valid N (IntMod (of_nat i))"
    using props repr_i by (simp add: intmod_valid_iff)
  moreover have "intmod_mul N a (IntMod (of_nat i)) = Some intmod_one"
    unfolding intmod_mul_eq[OF N'(2)] repr_i props(2) by (simp add: intmod_one_def)
  ultimately show ?thesis by blast
qed

lemma intmod_field_laws:
  assumes N: "1 < N" and prime: "\<And>a. 0 < a \<Longrightarrow> a < unat N \<Longrightarrow> coprime a (unat N)"
  shows "field_laws (intmod_field N) (intmod_valid N)"
proof (intro field_laws.intro intmod_ring_laws[OF N] field_laws_axioms.intro)
  show "f_inv (intmod_field N) (m_zero (intmod_field N)) = None"
    by (simp add: intmod_mul_invert_def intmod_zero_def)
  fix a
  assume a: "intmod_valid N a" "a \<noteq> m_zero (intmod_field N)"
  then have "inner a \<noteq> 0" by (cases a) (simp add: intmod_zero_def)
  moreover from this have "coprime (repr a) (unat N)"
    using a by (intro prime) (auto simp: intmod_valid_iff unat_gt_0)
  ultimately show "\<exists>b. f_inv (intmod_field N) a = Some b \<and> intmod_valid N b \<and>
      f_mul (intmod_field N) a b = f_one (intmod_field N)"
    using intmod_mul_invert_correct[OF N] by fastforce
qed

text \<open>\<open>IntsModP\<close>, the field with eleven elements the tests of the crate use.\<close>

lemma coprime_11: "0 < a \<Longrightarrow> a < unat (11 :: u8) \<Longrightarrow> coprime a (unat (11 :: u8))"
proof -
  assume a: "0 < a" "a < unat (11 :: u8)"
  have "list_all (\<lambda>a. coprime a (11 :: nat)) [1..<11]" by code_simp
  then show ?thesis using a by (auto simp: list_all_iff)
qed

text \<open>The reduction of a natural number. Every valid element is one, so a family of reductions
  ranges over all vectors and samplers of valid elements.\<close>

definition intmod_reduce :: "u8 \<Rightarrow> nat \<Rightarrow> int_mod" where
  "intmod_reduce N k = IntMod (of_nat (k mod unat N))"

lemma intmod_reduce_valid: "N \<noteq> 0 \<Longrightarrow> intmod_valid N (intmod_reduce N k)"
  using mod_u8_lt[of N k] by (simp add: intmod_valid_iff intmod_reduce_def unat_of_nat unat_gt_0)

lemma intmod_reduce_onto: "intmod_valid N a \<Longrightarrow> intmod_reduce N (repr a) = a"
  by (cases a) (simp add: intmod_valid_iff intmod_reduce_def)

interpretation ints_mod_p: field_laws "intmod_field 11" "intmod_valid 11"
  by (rule intmod_field_laws) (simp, rule coprime_11)

interpretation ints_mod_p_exp: exp_laws "intmod_exp 11" "intmod_valid 11" "intmod_field 11" "intmod_valid 11"
  by (rule intmod_exp_laws) simp

end
