(* ===== verification/Sharing.thy ===== *)
theory Sharing
  imports IntMod
begin

text \<open>
  \<open>spectrum_primitives/src/sharing.rs\<close>: linear secret sharing of group elements, of booleans and of
  vectors of shareable values. The trait \<open>Shareable\<close> is the dictionary \<open>share_ops\<close>; the locale
  \<open>shareable\<close> is its contract (\<open>check_shareable!\<close>): \<open>n\<close> shares, whose recovery is the value.
\<close>

record ('r, 'v, 's) share_ops =
  sh_share :: "'v \<Rightarrow> nat \<Rightarrow> 'r \<Rightarrow> ('s list \<times> 'r) option"
  sh_recover :: "'s list \<Rightarrow> 'v option"

section \<open>Group elements\<close>

definition group_share ::
    "('g, 'x) group_ops_scheme \<Rightarrow> ('r, 'g) sampler \<Rightarrow> 'g \<Rightarrow> nat \<Rightarrow> 'r \<Rightarrow> ('g list \<times> 'r) option" where
  "group_share G sample v n r =
     do { rust_assert (n \<ge> 2);
          let (vals, r') = repeat_with_take sample (n - 1) r;
          let sum = foldl (m_add G) (m_zero G) vals;
          Some (g_sub G v sum # vals, r') }"

definition group_recover :: "('g, 'x) group_ops_scheme \<Rightarrow> 'g list \<Rightarrow> 'g option" where
  "group_recover G shares =
     do { rust_assert (length shares \<ge> 2); Some (foldl (m_add G) (m_zero G) shares) }"

definition group_shareable ::
    "('g, 'x) group_ops_scheme \<Rightarrow> ('r, 'g) sampler \<Rightarrow> ('r, 'g, 'g) share_ops" where
  "group_shareable G sample = \<lparr> sh_share = group_share G sample, sh_recover = group_recover G \<rparr>"

section \<open>Transposition\<close>

text \<open>One row of the loop: \<open>transposed[idx].push(value)\<close> for every column.\<close>

fun push_row :: "'a list list \<Rightarrow> nat \<Rightarrow> 'a list \<Rightarrow> 'a list list option" where
  "push_row t idx [] = Some t"
| "push_row t idx (v # vs) =
     do { col \<leftarrow> vec_get t idx; t' \<leftarrow> vec_set t idx (col @ [v]); push_row t' (Suc idx) vs }"

definition vec_transpose :: "'a list list \<Rightarrow> 'a list list option" where
  "vec_transpose vec =
     (if vec = [] then Some vec
      else case remdups_adj (map length vec) of
        [inner_len] \<Rightarrow> try_fold (\<lambda>t row. push_row t 0 row) (replicate (max inner_len 1) []) vec
      | _ \<Rightarrow> None)"

section \<open>Vectors\<close>

fun share_all ::
    "('r, 'v, 's) share_ops \<Rightarrow> 'v list \<Rightarrow> nat \<Rightarrow> 'r \<Rightarrow> ('s list list \<times> 'r) option" where
  "share_all S [] n r = Some ([], r)"
| "share_all S (v # vs) n r =
     do { (x, r1) \<leftarrow> sh_share S v n r; (xs, r2) \<leftarrow> share_all S vs n r1; Some (x # xs, r2) }"

definition vec_share ::
    "('r, 'v, 's) share_ops \<Rightarrow> 'v list \<Rightarrow> nat \<Rightarrow> 'r \<Rightarrow> ('s list list \<times> 'r) option" where
  "vec_share S vs n r =
     do { rust_assert (n \<ge> 2);
          (rows, r') \<leftarrow> share_all S vs n r;
          shares \<leftarrow> vec_transpose rows;
          Some (shares, r') }"

definition vec_recover :: "('r, 'v, 's) share_ops \<Rightarrow> 's list list \<Rightarrow> 'v list option" where
  "vec_recover S shares = do { rows \<leftarrow> vec_transpose shares; try_map (sh_recover S) rows }"

section \<open>Booleans\<close>

definition bool_share :: "('r, bool) sampler \<Rightarrow> bool \<Rightarrow> nat \<Rightarrow> 'r \<Rightarrow> (bool list \<times> 'r) option" where
  "bool_share gen v n r =
     do { rust_assert (n \<ge> 2);
          let (shares, r') = repeat_with_take gen (n - 1) r;
          let parity = foldl (\<noteq>) False shares;
          Some (shares @ [parity \<noteq> v], r') }"

definition bool_recover :: "bool list \<Rightarrow> bool option" where
  "bool_recover shares = Some (foldl (\<noteq>) False shares)"

definition bool_shareable :: "('r, bool) sampler \<Rightarrow> ('r, bool, bool) share_ops" where
  "bool_shareable gen = \<lparr> sh_share = bool_share gen, sh_recover = bool_recover \<rparr>"

section \<open>Transposition is matrix transposition\<close>

definition rect :: "nat \<Rightarrow> nat \<Rightarrow> 'a list list \<Rightarrow> bool" where
  "rect m n t \<longleftrightarrow> length t = m \<and> (\<forall>row \<in> set t. length row = n)"

definition columns :: "nat \<Rightarrow> 'a list list \<Rightarrow> 'a list list" where
  "columns n t = map (\<lambda>j. map (\<lambda>row. row ! j) t) [0..<n]"

lemma push_row_eq:
  "length (pre @ mid) = idx + length vs \<Longrightarrow> length pre = idx \<Longrightarrow>
   push_row (pre @ mid) idx vs = Some (pre @ map2 (\<lambda>col v. col @ [v]) mid vs)"
proof (induction vs arbitrary: pre mid idx)
  case Nil
  then show ?case by simp
next
  case (Cons v vs)
  then obtain c mid' where mid: "mid = c # mid'" by (cases mid) auto
  have "push_row ((pre @ [c @ [v]]) @ mid') (Suc idx) vs
      = Some ((pre @ [c @ [v]]) @ map2 (\<lambda>col v. col @ [v]) mid' vs)"
    using Cons.prems mid by (intro Cons.IH) auto
  then show ?case using Cons.prems mid by (simp add: nth_append list_update_append)
qed

lemma push_row_columns:
  assumes "length row = n"
  shows "push_row (columns n t) 0 row = Some (columns n (t @ [row]))"
proof -
  have "push_row ([] @ columns n t) 0 row = Some ([] @ map2 (\<lambda>col v. col @ [v]) (columns n t) row)"
    using assms by (intro push_row_eq) (simp_all add: columns_def)
  moreover have "map2 (\<lambda>col v. col @ [v]) (columns n t) row = columns n (t @ [row])"
    using assms by (intro nth_equalityI) (simp_all add: columns_def)
  ultimately show ?thesis by simp
qed

lemma push_rows_columns:
  "(\<forall>row \<in> set rows. length row = n) \<Longrightarrow>
   try_fold (\<lambda>t row. push_row t 0 row) (columns n t) rows = Some (columns n (t @ rows))"
proof (induction rows arbitrary: t)
  case (Cons row rows)
  then show ?case using push_row_columns[of row n t] Cons.IH[of "t @ [row]"] by simp
qed simp

lemma vec_transpose_rect:
  assumes "rect m n t" "0 < m" "0 < n"
  shows "vec_transpose t = Some (columns n t)"
proof -
  have t: "t \<noteq> []" "map length t \<noteq> []" using assms by (auto simp: rect_def)
  have "remdups_adj (map length t) = [n]"
    using assms t by (intro remdups_adj_all_same) (auto simp: rect_def)
  moreover have "replicate (max n 1) [] = columns n ([] :: 'a list list)"
    using assms by (simp add: columns_def map_replicate_const)
  ultimately show ?thesis
    using t assms push_rows_columns[of t n "[]"] by (simp add: vec_transpose_def rect_def)
qed

text \<open>Rows of different lengths make it panic.\<close>

lemma vec_transpose_ragged:
  assumes "row1 \<in> set t" "row2 \<in> set t" "length row1 \<noteq> length row2"
  shows "vec_transpose t = None"
proof -
  have "remdups_adj (map length t) \<noteq> [c]" for c
  proof
    assume "remdups_adj (map length t) = [c]"
    then have "set (map length t) = {c}" by (rule remdups_adj_singleton_set)
    then show False using assms by (metis imageI set_map singletonD)
  qed
  moreover have "t \<noteq> []" using assms by auto
  ultimately show ?thesis by (auto simp: vec_transpose_def split: list.splits)
qed

lemma rect_columns: "rect m n t \<Longrightarrow> rect n m (columns n t)"
  by (auto simp: rect_def columns_def)

lemma columns_columns:
  assumes "rect m n t"
  shows "columns m (columns n t) = t"
  using assms by (intro nth_equalityI) (auto simp: rect_def columns_def)

section \<open>The contract\<close>

text \<open>The transposition is its own inverse on non-empty matrices, as
  \<open>test_transpose_self_inverse\<close> tests.\<close>

lemma vec_transpose_involution:
  assumes "rect m n t" "0 < m" "0 < n"
  shows "(vec_transpose t \<bind> vec_transpose) = Some t"
  using assms by (simp add: vec_transpose_rect[OF assms] vec_transpose_rect[OF rect_columns] columns_columns)

locale shareable =
  fixes S :: "('r, 'v, 's) share_ops" and valid :: "'v \<Rightarrow> bool" and valid_share :: "'s \<Rightarrow> bool"
  assumes share_spec: "valid v \<Longrightarrow> 2 \<le> n \<Longrightarrow>
      \<exists>shares r'. sh_share S v n r = Some (shares, r') \<and> length shares = n
        \<and> list_all valid_share shares \<and> sh_recover S shares = Some v"
    and share_too_few: "n < 2 \<Longrightarrow> sh_share S v n r = None"
begin

lemma share_all_spec:
  "list_all valid vs \<Longrightarrow> 2 \<le> n \<Longrightarrow>
   \<exists>rows r'. share_all S vs n r = Some (rows, r') \<and> rect (length vs) n rows
     \<and> list_all (list_all valid_share) rows \<and> try_map (sh_recover S) rows = Some vs"
proof (induction vs arbitrary: r)
  case Nil
  then show ?case by (simp add: rect_def)
next
  case (Cons v vs)
  obtain x r1 where x: "sh_share S v n r = Some (x, r1)" "length x = n"
      "list_all valid_share x" "sh_recover S x = Some v"
    using share_spec[of v n r] Cons.prems by auto
  obtain xs r2 where xs: "share_all S vs n r1 = Some (xs, r2)" "rect (length vs) n xs"
      "list_all (list_all valid_share) xs" "try_map (sh_recover S) xs = Some vs"
    using Cons.IH[of r1] Cons.prems by auto
  show ?case using x xs by (simp add: rect_def)
qed

text \<open>A vector with at least one element is shared into \<open>n\<close> vectors of its length, whose columns
  are sharings of its elements.\<close>

lemma vec_share_spec:
  assumes "list_all valid vs" "2 \<le> n" "vs \<noteq> []"
  shows "\<exists>shares r'. vec_share S vs n r = Some (shares, r') \<and> rect n (length vs) shares
     \<and> list_all (list_all valid_share) shares
     \<and> try_map (sh_recover S) (columns (length vs) shares) = Some vs
     \<and> vec_recover S shares = Some vs"
proof -
  obtain rows r' where rows: "share_all S vs n r = Some (rows, r')" "rect (length vs) n rows"
      "list_all (list_all valid_share) rows" "try_map (sh_recover S) rows = Some vs"
    using share_all_spec[OF assms(1,2)] by blast
  have pos: "0 < length vs" "0 < n" using assms by auto
  let ?shares = "columns n rows"
  have tr: "vec_transpose rows = Some ?shares" using vec_transpose_rect[OF rows(2) pos] .
  have cols: "columns (length vs) ?shares = rows" using rows(2) by (rule columns_columns)
  have rect: "rect n (length vs) ?shares" using rows(2) by (rule rect_columns)
  have "list_all (list_all valid_share) ?shares"
    using rows(2,3) by (auto simp: columns_def list_all_iff rect_def)
  moreover have "vec_transpose ?shares = Some rows"
    using vec_transpose_rect[OF rect pos(2,1)] cols by simp
  ultimately show ?thesis
    using rows tr cols rect assms(2) by (simp add: vec_share_def vec_recover_def)
qed

text \<open>The empty vector is shared into no shares at all, and comes cols.\<close>

lemma vec_share_empty: "2 \<le> n \<Longrightarrow> vec_share S [] n r = Some ([], r) \<and> vec_recover S [] = Some []"
  by (simp add: vec_share_def vec_recover_def vec_transpose_def)

lemma vec_share_recover:
  assumes "list_all valid vs" "2 \<le> n"
  shows "\<exists>shares r'. vec_share S vs n r = Some (shares, r') \<and> vec_recover S shares = Some vs"
  using vec_share_spec[OF assms, of r] vec_share_empty[OF assms(2), of r] by (cases "vs = []") blast+

lemma vec_share_too_few: "n < 2 \<Longrightarrow> vec_share S vs n r = None"
  by (simp add: vec_share_def)

end

section \<open>The contract holds for group elements and booleans\<close>

context ab_group_laws
begin

lemma group_share_spec:
  assumes "valid v" "2 \<le> n" and sample: "sampler_in valid sample"
  shows "\<exists>shares r'. group_share M sample v n r = Some (shares, r') \<and> length shares = n
    \<and> list_all valid shares \<and> fold_add M shares = v \<and> group_recover M shares = Some v"
proof -
  obtain vals r' where vals: "repeat_with_take sample (n - 1) r = (vals, r')" by fastforce
  then have lens: "length vals = n - 1" "list_all valid vals"
    using sample by (auto dest: repeat_with_take_length repeat_with_take_in)
  let ?shares = "g_sub M v (fold_add M vals) # vals"
  have valid: "list_all valid ?shares" using assms lens by (simp add: sub_valid fold_add_valid)
  have sum: "fold_add M ?shares = v"
    using assms lens by (simp add: fold_add_Cons sub_valid fold_add_valid sub_add_cancel)
  have "group_share M sample v n r = Some (?shares, r')"
    using assms vals by (simp add: group_share_def fold_add_def)
  moreover have "group_recover M ?shares = Some v"
    using sum lens assms by (simp add: group_recover_def fold_add_def)
  ultimately show ?thesis using valid sum lens assms by auto
qed

lemma group_shareable:
  "sampler_in valid sample \<Longrightarrow> shareable (group_shareable M sample) valid valid"
  using group_share_spec by unfold_locales (fastforce simp: group_shareable_def group_share_def)+

lemma group_recover_valid:
  "list_all valid xs \<Longrightarrow> group_recover M xs = Some v \<Longrightarrow> fold_add M xs = v"
  by (auto simp: group_recover_def fold_add_def bind_eq_Some_conv)

end

lemma foldl_neq_append: "foldl (\<noteq>) b (xs @ [c]) = (foldl (\<noteq>) b xs \<noteq> c)"
  by simp

lemma bool_share_spec:
  assumes "2 \<le> n"
  shows "\<exists>shares r'. bool_share gen v n r = Some (shares, r') \<and> length shares = n
    \<and> bool_recover shares = Some v"
proof -
  obtain vals r' where vals: "repeat_with_take gen (n - 1) r = (vals, r')" by fastforce
  then have "length vals = n - 1" by (rule repeat_with_take_length)
  then show ?thesis using assms vals by (auto simp: bool_share_def bool_recover_def)
qed

interpretation bool_shares: shareable "bool_shareable gen" "\<lambda>_. True" "\<lambda>_. True" for gen :: "('r, bool) sampler"
  using bool_share_spec by unfold_locales (fastforce simp: bool_shareable_def bool_share_def list_all_iff)+

text \<open>Additive sharing over the field of the crate's tests, for every sampler of field elements.\<close>

interpretation ints_mod_p_shares: shareable
  "group_shareable (intmod_field 11) (\<lambda>r. (intmod_reduce 11 (draw r), step r))" "intmod_valid 11" "intmod_valid 11"
  for draw :: "'r \<Rightarrow> nat" and step :: "'r \<Rightarrow> 'r"
  by (rule ints_mod_p.group_shareable) (simp add: sampler_in_def intmod_reduce_valid)

end
