(* ===== verification/Prg.thy ===== *)
theory Prg
  imports Bytes Sharing
begin

unbundle bit_operations_syntax

text \<open>
  Pseudorandom generators: the traits of \<open>spectrum_primitives/src/prg/definition.rs\<close> and
  \<open>prg/seed_homomorphic.rs\<close> as dictionaries, the AES generator of \<open>constructions/aes_prg.rs\<close> and
  the group generator of \<open>prg/group.rs\<close>.

  The block cipher (\<open>openssl::symm::encrypt\<close>) and the hash (\<open>blake3\<close>) are parameters. What the AES
  generator relies on is that AES-CTR with a 16-byte key returns as many bytes as it is given.

  The locale \<open>seed_homomorphic_prg\<close> is the contract of \<open>check_seed_homomorphic_prg!\<close>; the group
  generator satisfies it over every group with exponents.
\<close>

section \<open>Dictionaries\<close>

record ('r, 's, 'o) prg_ops =
  prg_new_seed :: "('r, 's) sampler"
  prg_output_size :: nat
  prg_eval :: "'s \<Rightarrow> 'o option"
  prg_null_output :: 'o

record ('r, 's, 'o) sh_prg_ops = "('r, 's, 'o) prg_ops" +
  prg_combine_seeds :: "'s list \<Rightarrow> 's"
  prg_combine_outputs :: "'o list \<Rightarrow> 'o"
  prg_null_seed :: 's

section \<open>AES in counter mode\<close>

definition SEED_SIZE :: nat where
  "SEED_SIZE = 16"

text \<open>\<open>struct AesPrg\<close>; its cipher is always \<open>aes_128_ctr\<close>.\<close>

record aes_prg =
  eval_size :: nat

text \<open>\<open>struct AesSeed\<close>, whose only constructor outside \<open>Default\<close> is \<open>try_from\<close>.\<close>

datatype aes_seed = AesSeed (seed_bytes: bytes)

definition aes_seed_try_from :: "bytes \<Rightarrow> unit + aes_seed" where
  "aes_seed_try_from other = (if length other \<noteq> SEED_SIZE then Inl () else Inr (AesSeed other))"

definition aes_seed_random :: "(bytes \<Rightarrow> ('r, bytes) sampler) \<Rightarrow> 'r \<Rightarrow> (aes_seed \<times> 'r) option" where
  "aes_seed_random fill_bytes r =
     (let (rand_seed_bytes, r') = fill_bytes (replicate SEED_SIZE 0) r
      in case aes_seed_try_from rand_seed_bytes of Inl _ \<Rightarrow> None | Inr s \<Rightarrow> Some (s, r'))"

definition aes_prg_new :: "nat \<Rightarrow> aes_prg option" where
  "aes_prg_new sz = do { rust_assert (SEED_SIZE \<le> sz); Some \<lparr> eval_size = sz \<rparr> }"

type_synonym 'e cipher = "bytes \<Rightarrow> bytes \<Rightarrow> bytes \<Rightarrow> 'e + bytes"

definition aes_prg_eval :: "'e cipher \<Rightarrow> aes_prg \<Rightarrow> aes_seed \<Rightarrow> bytes option" where
  "aes_prg_eval encrypt prg seed =
     (let iv = replicate 16 0; data = replicate (eval_size prg) 0
      in case encrypt (seed_bytes seed) iv data of
           Inl _ \<Rightarrow> None
         | Inr ciphertext \<Rightarrow> Some (take (eval_size prg) ciphertext))"

definition aes_prg_null_output :: "aes_prg \<Rightarrow> bytes" where
  "aes_prg_null_output prg = bytes_empty (eval_size prg)"

definition aes_prg_ops ::
    "'e cipher \<Rightarrow> (bytes \<Rightarrow> ('r, bytes) sampler) \<Rightarrow> aes_prg \<Rightarrow> ('r, aes_seed, bytes) prg_ops" where
  "aes_prg_ops encrypt fill_bytes prg =
     \<lparr> prg_new_seed = (\<lambda>r. the (aes_seed_random fill_bytes r)),
       prg_output_size = eval_size prg,
       prg_eval = aes_prg_eval encrypt prg,
       prg_null_output = aes_prg_null_output prg \<rparr>"

definition aes_seed_valid :: "aes_seed \<Rightarrow> bool" where
  "aes_seed_valid s \<longleftrightarrow> length (seed_bytes s) = SEED_SIZE"

text \<open>Counter mode is a stream cipher: a 16-byte key and nonce never fail and the ciphertext is as
  long as the plaintext.\<close>

definition ctr_mode :: "'e cipher \<Rightarrow> bool" where
  "ctr_mode encrypt \<longleftrightarrow>
     (\<forall>key iv data. length key = 16 \<longrightarrow> length iv = 16 \<longrightarrow>
        (\<exists>c. encrypt key iv data = Inr c \<and> length c = length data))"

lemma aes_seed_random_spec:
  "fill_in_place fill \<Longrightarrow> \<exists>s r'. aes_seed_random fill r = Some (s, r') \<and> aes_seed_valid s"
  by (cases "fill (replicate SEED_SIZE 0) r")
    (auto simp: aes_seed_random_def aes_seed_try_from_def aes_seed_valid_def fill_in_place_def,
      metis fst_conv length_replicate)

lemma aes_prg_new_size: "aes_prg_new sz = Some prg \<Longrightarrow> eval_size prg = sz \<and> SEED_SIZE \<le> sz"
  by (auto simp: aes_prg_new_def bind_eq_Some_conv)

lemma aes_prg_eval_spec:
  assumes "ctr_mode encrypt" "aes_seed_valid s"
  shows "\<exists>out. aes_prg_eval encrypt prg s = Some out \<and> length out = eval_size prg"
proof -
  let ?data = "replicate (eval_size prg) 0 :: bytes"
  obtain c where c: "encrypt (seed_bytes s) (replicate 16 0) ?data = Inr c" "length c = length ?data"
    using assms unfolding ctr_mode_def aes_seed_valid_def SEED_SIZE_def
    by (metis length_replicate)
  then show ?thesis by (simp add: aes_prg_eval_def)
qed

section \<open>Vectors of group elements\<close>

text \<open>\<open>struct ElementVector<G>(Vec<G>)\<close> is the list of its elements. Addition and \<open>^\<close> stop at the
  shorter operand; \<open>Monoid::zero\<close> always panics, so there is no dictionary entry for it.\<close>

definition ev_len :: "'g list \<Rightarrow> nat" where
  "ev_len v = length v"

definition ev_is_empty :: "'g list \<Rightarrow> bool" where
  "ev_is_empty v \<longleftrightarrow> v = []"

definition ev_add :: "('g, 'x) monoid_ops_scheme \<Rightarrow> 'g list \<Rightarrow> 'g list \<Rightarrow> 'g list" where
  "ev_add G v w = map2 (m_add G) v w"

definition ev_zero :: "'g list option" where
  "ev_zero = None"

definition ev_pow :: "('g, 'e, 'x) exp_ops_scheme \<Rightarrow> 'g list \<Rightarrow> 'e \<Rightarrow> 'g list" where
  "ev_pow G v e = map (\<lambda>x. e_pow G x e) v"

text \<open>\<open>hash_all\<close> feeds the encodings of the elements to the hasher one after the other. The
  hasher is a state with \<open>update\<close>, \<open>update_with_join\<close> (the parallel update) and \<open>finalize\<close>.\<close>

record 'h hasher_ops =
  h_new :: 'h
  h_update :: "'h \<Rightarrow> bytes \<Rightarrow> 'h"
  h_update_with_join :: "'h \<Rightarrow> bytes \<Rightarrow> 'h"
  h_finalize :: "'h \<Rightarrow> bytes"

definition ev_hash_all :: "'h hasher_ops \<Rightarrow> ('g \<Rightarrow> bytes) \<Rightarrow> 'g list \<Rightarrow> bytes" where
  "ev_hash_all H enc v =
     h_finalize H (foldl (\<lambda>h element. h_update H h (enc element)) (h_new H) v)"

definition ev_bitxor :: "('g, 'x) monoid_ops_scheme \<Rightarrow> 'g list \<Rightarrow> 'g list \<Rightarrow> 'g list" where
  "ev_bitxor G v w = map2 (m_add G) v w"

definition ev_bitxor_assign :: "('g, 'x) monoid_ops_scheme \<Rightarrow> 'g list \<Rightarrow> 'g list \<Rightarrow> 'g list" where
  "ev_bitxor_assign G v w = zip_assign (m_add G) v w"

text \<open>The two decodings. \<open>TryFrom<Bytes>\<close> asserts that all chunks were full; \<open>TryFrom<Vec<u8>>\<close>
  leaves that to the element type.\<close>

definition ev_try_from_bytes :: "(bytes \<Rightarrow> 'e + 'g) \<Rightarrow> bytes \<Rightarrow> (string + 'g list) option" where
  "ev_try_from_bytes dec b =
     (case collect_result dec (vec_chunks 32 b) of
        Inl _ \<Rightarrow> Some (Inl ''conversion from bytes failed'')
      | Inr vec \<Rightarrow> do { rust_assert (length vec * 32 = bytes_len b); Some (Inr vec) })"

definition ev_try_from_vec :: "(bytes \<Rightarrow> 'e + 'g) \<Rightarrow> bytes \<Rightarrow> string + 'g list" where
  "ev_try_from_vec dec b =
     (case collect_result dec (vec_chunks 32 b) of
        Inl _ \<Rightarrow> Inl ''conversion failed''
      | Inr vec \<Rightarrow> Inr vec)"

definition ev_to_bytes :: "('g \<Rightarrow> bytes) \<Rightarrow> 'g list \<Rightarrow> bytes option" where
  "ev_to_bytes enc v =
     try_fold (\<lambda>all_bytes element. do { b \<leftarrow> vec_slice (enc element) 0 32; Some (all_bytes @ b) }) [] v"

definition ev_to_vec :: "('g \<Rightarrow> bytes) \<Rightarrow> 'g list \<Rightarrow> bytes" where
  "ev_to_vec enc v = foldl (\<lambda>all_bytes element. all_bytes @ enc element) [] v"

section \<open>The group generator\<close>

record 'g group_prg =
  generators :: "'g list"

definition group_prg_new :: "'g list \<Rightarrow> 'g group_prg" where
  "group_prg_new gens = \<lparr> generators = gens \<rparr>"

definition group_prg_len :: "'g group_prg \<Rightarrow> nat" where
  "group_prg_len prg = length (generators prg)"

text \<open>\<open>from_seed\<close> and \<open>random\<close>; \<open>G::sample_many_from_seed\<close> may panic (it does for curve points).\<close>

definition group_prg_from_seed :: "('s \<Rightarrow> nat \<Rightarrow> 'g list option) \<Rightarrow> nat \<Rightarrow> 's \<Rightarrow> 'g group_prg option" where
  "group_prg_from_seed sample_many num_elements seed =
     do { elements \<leftarrow> sample_many seed num_elements; Some (group_prg_new elements) }"

definition group_prg_random :: "('r, 'g) sampler \<Rightarrow> nat \<Rightarrow> 'r \<Rightarrow> 'g group_prg \<times> 'r" where
  "group_prg_random sample num_elements r =
     (let (elements, r') = repeat_with_take sample num_elements r in (group_prg_new elements, r'))"

definition group_prg_eval :: "('g, 'e, 'x) exp_ops_scheme \<Rightarrow> 'g group_prg \<Rightarrow> 'e \<Rightarrow> 'g list" where
  "group_prg_eval G prg seed = map (\<lambda>g. e_pow G g seed) (generators prg)"

definition group_prg_null_output :: "('g, 'x) monoid_ops_scheme \<Rightarrow> 'g group_prg \<Rightarrow> 'g list" where
  "group_prg_null_output G prg = replicate (group_prg_len prg) (m_zero G)"

definition group_prg_combine_seeds :: "('e, 'y) monoid_ops_scheme \<Rightarrow> 'e list \<Rightarrow> 'e" where
  "group_prg_combine_seeds E seeds = foldl (m_add E) (m_zero E) seeds"

definition group_prg_combine_outputs ::
    "('g, 'x) monoid_ops_scheme \<Rightarrow> 'g group_prg \<Rightarrow> 'g list list \<Rightarrow> 'g list" where
  "group_prg_combine_outputs G prg outputs =
     foldl (\<lambda>combined output. zip_assign (m_add G) combined output) (group_prg_null_output G prg) outputs"

definition group_prg_ops ::
    "('g, 'e, 'x) exp_ops_scheme \<Rightarrow> ('e, 'y) monoid_ops_scheme \<Rightarrow> ('r, 'e) sampler \<Rightarrow> 'g group_prg
     \<Rightarrow> ('r, 'e, 'g list) sh_prg_ops" where
  "group_prg_ops G E sample prg =
     \<lparr> prg_new_seed = sample,
       prg_output_size = ev_len (generators prg),
       prg_eval = (\<lambda>seed. Some (group_prg_eval G prg seed)),
       prg_null_output = group_prg_null_output G prg,
       prg_combine_seeds = group_prg_combine_seeds E,
       prg_combine_outputs = group_prg_combine_outputs G prg,
       prg_null_seed = m_zero E \<rparr>"

section \<open>The contract of a seed-homomorphic generator\<close>

text \<open>\<open>Out\<close> is the monoid of outputs (of one length), \<open>F\<close> the ring of seeds, \<open>pow\<close> the exponentiation
  of an output by a seed.\<close>

locale seed_homomorphic_prg =
  out: comm_monoid_laws Out validO + seed: comm_ring_laws F validS
  for Out :: "'o monoid_ops" and validO :: "'o \<Rightarrow> bool"
    and F :: "('s, 'y) field_ops_scheme" and validS :: "'s \<Rightarrow> bool" +
  fixes P :: "('r, 's, 'o) sh_prg_ops" and pow :: "'o \<Rightarrow> 's \<Rightarrow> 'o" and expand :: "'s \<Rightarrow> 'o"
  assumes new_seed_valid: "sampler_in validS (prg_new_seed P)"
    and null_seed: "prg_null_seed P = m_zero F"
    and null_output: "prg_null_output P = m_zero Out"
    and eval_eq: "validS s \<Longrightarrow> prg_eval P s = Some (expand s)"
    and expand_valid: "validS s \<Longrightarrow> validO (expand s)"
    and combine_outputs: "list_all validO outs \<Longrightarrow> prg_combine_outputs P outs = fold_add Out outs"
    and combine_seeds: "list_all validS ss \<Longrightarrow> prg_combine_seeds P ss = fold_add F ss"
    and expand_zero: "expand (m_zero F) = m_zero Out"
    and expand_add: "validS s \<Longrightarrow> validS t \<Longrightarrow> expand (m_add F s t) = m_add Out (expand s) (expand t)"
    and pow_valid: "validO m \<Longrightarrow> validS s \<Longrightarrow> validO (pow m s)"
    and pow_zero: "validO m \<Longrightarrow> pow m (m_zero F) = m_zero Out"
    and pow_one: "validO m \<Longrightarrow> pow m (f_one F) = m"
    and pow_add: "validO m \<Longrightarrow> validS s \<Longrightarrow> validS t \<Longrightarrow>
      pow m (m_add F s t) = m_add Out (pow m s) (pow m t)"
begin

text \<open>\<open>G(x . y) = G(x) . G(y)\<close>, for any number of seeds.\<close>

lemma expand_fold: "list_all validS ss \<Longrightarrow> fold_add Out (map expand ss) = expand (fold_add F ss)"
proof (induction ss)
  case Nil
  then show ?case by (simp add: out.fold_add_Nil seed.fold_add_Nil expand_zero)
next
  case (Cons s ss)
  then have "list_all validO (map expand ss)" by (auto simp: list_all_iff expand_valid)
  with Cons show ?case
    by (simp add: out.fold_add_Cons seed.fold_add_Cons expand_valid expand_add seed.fold_add_valid)
qed

lemma pow_fold:
  "validO m \<Longrightarrow> list_all validS ss \<Longrightarrow> fold_add Out (map (pow m) ss) = pow m (fold_add F ss)"
proof (induction ss)
  case Nil
  then show ?case by (simp add: out.fold_add_Nil seed.fold_add_Nil pow_zero)
next
  case (Cons s ss)
  then have "list_all validO (map (pow m) ss)" by (auto simp: list_all_iff pow_valid)
  with Cons show ?case
    by (simp add: out.fold_add_Cons seed.fold_add_Cons pow_valid pow_add seed.fold_add_valid)
qed

lemma combine_pair: "validO a \<Longrightarrow> validO b \<Longrightarrow> prg_combine_outputs P [a, b] = m_add Out a b"
  by (simp add: combine_outputs out.fold_add_Cons out.fold_add_Nil out.add_zero)

lemma eval_combine_seeds:
  "list_all validS ss \<Longrightarrow>
   prg_eval P (prg_combine_seeds P ss) = Some (prg_combine_outputs P (map expand ss))"
  by (simp add: combine_seeds eval_eq seed.fold_add_valid combine_outputs expand_fold list_all_map_intro expand_valid)

end

section \<open>The group generator is seed-homomorphic\<close>

context comm_monoid_laws
begin

lemma group_prg_combine_outputs_eq:
  assumes "list_all (vec_valid valid (group_prg_len prg)) outs"
  shows "group_prg_combine_outputs M prg outs = fold_add (vec_monoid M (group_prg_len prg)) outs"
proof -
  have "foldl (zip_assign (m_add M)) acc outs = foldl (map2 (m_add M)) acc outs"
    if "length acc = group_prg_len prg" for acc
    using assms that
    by (induction outs arbitrary: acc) (auto simp: vec_valid_def zip_assign_eq_map2)
  then show ?thesis
    by (simp add: group_prg_combine_outputs_def group_prg_null_output_def fold_add_def)
qed

end

locale group_prg_setup = exp_laws G validG E validE
  for G :: "('g, 'e, 'x) exp_ops_scheme" and validG :: "'g \<Rightarrow> bool"
    and E :: "('e, 'y) field_ops_scheme" and validE :: "'e \<Rightarrow> bool" +
  fixes sample :: "('r, 'e) sampler" and prg :: "'g group_prg"
  assumes sample_valid: "sampler_in validE sample"
    and generators_valid: "list_all validG (generators prg)"
begin

lemma group_prg_seed_homomorphic:
  "seed_homomorphic_prg (vec_monoid G (group_prg_len prg)) (vec_valid validG (group_prg_len prg))
     E validE (group_prg_ops G E sample prg) (ev_pow G) (group_prg_eval G prg)"
proof (intro seed_homomorphic_prg.intro seed_homomorphic_prg_axioms.intro)
  let ?n = "group_prg_len prg" let ?Out = "vec_monoid G ?n" and ?v = "vec_valid validG ?n"
  show "comm_monoid_laws ?Out ?v" by (rule G.vec_monoid_laws)
  show "comm_ring_laws E validE" by (rule E.comm_ring_laws_axioms)
  fix s t m outs ss
  show "list_all ?v outs \<Longrightarrow> prg_combine_outputs (group_prg_ops G E sample prg) outs = fold_add ?Out outs"
    by (simp add: group_prg_ops_def G.group_prg_combine_outputs_eq)
  assume s: "validE s" 
  show "?v (group_prg_eval G prg s)"
    using s generators_valid
    by (auto simp: vec_valid_def group_prg_eval_def group_prg_len_def list_all_iff pow_valid)
  assume t: "validE t"
  show "group_prg_eval G prg (m_add E s t) = m_add ?Out (group_prg_eval G prg s) (group_prg_eval G prg t)"
    using s t generators_valid
    by (intro nth_equalityI) (auto simp: group_prg_eval_def  pow_add list_all_length)
  assume m: "?v m"
  show "ev_pow G m (m_add E s t) = m_add ?Out (ev_pow G m s) (ev_pow G m t)"
    using s t m by (intro nth_equalityI) (auto simp: ev_pow_def  vec_valid_def pow_add list_all_length)
next
  let ?n = "group_prg_len prg" let ?Out = "vec_monoid G ?n" and ?v = "vec_valid validG ?n"
  fix s m
  assume m: "?v m"
  show "ev_pow G m (m_zero E) = m_zero ?Out" "ev_pow G m (f_one E) = m"
    using m by (auto intro!: nth_equalityI simp: ev_pow_def vec_valid_def pow_zero pow_one list_all_length)
  assume "validE s"
  with m show "?v (ev_pow G m s)"
    by (auto simp: ev_pow_def vec_valid_def list_all_iff pow_valid)
next
  show "group_prg_eval G prg (m_zero E) = m_zero (vec_monoid G (group_prg_len prg))"
    using generators_valid
    by (auto intro!: nth_equalityI simp: group_prg_eval_def group_prg_len_def pow_zero list_all_length)
qed (simp_all add: group_prg_ops_def sample_valid group_prg_null_output_def group_prg_combine_seeds_def fold_add_def)

end

sublocale group_prg_setup \<subseteq> shprg: seed_homomorphic_prg
  "vec_monoid G (group_prg_len prg)" "vec_valid validG (group_prg_len prg)" E validE
  "group_prg_ops G E sample prg" "ev_pow G" "group_prg_eval G prg"
  by (rule group_prg_seed_homomorphic)

interpretation ints_mod_p_prg: group_prg_setup
  "intmod_exp 11" "intmod_valid 11" "intmod_field 11" "intmod_valid 11"
  "\<lambda>r. (intmod_reduce 11 (draw r), next r)" "group_prg_new (map (intmod_reduce 11) ks)"
  for draw :: "'r \<Rightarrow> nat" and step :: "'r \<Rightarrow> 'r" and ks :: "nat list"
  by unfold_locales (simp_all add: sampler_in_def intmod_reduce_valid group_prg_new_def list_all_iff)

section \<open>Generators whose outputs are combined by exclusive or\<close>

locale xor_prg = xor_laws bitxor bitxor_assign null valid
  for bitxor bitxor_assign :: "'o \<Rightarrow> 'o \<Rightarrow> 'o option" and null :: 'o and valid :: "'o \<Rightarrow> bool" +
  fixes P :: "('r, 's, 'o) prg_ops" and validS :: "'s \<Rightarrow> bool"
  assumes new_seed_valid: "sampler_in validS (prg_new_seed P)"
    and eval_valid: "validS s \<Longrightarrow> \<exists>out. prg_eval P s = Some out \<and> valid out"
    and null_output: "prg_null_output P = null"

locale aes_prg_setup =
  fixes encrypt :: "'e cipher" and fill_bytes :: "bytes \<Rightarrow> ('r, bytes) sampler"
  assumes ctr: "ctr_mode encrypt" and fill: "fill_in_place fill_bytes"
begin

lemma aes_xor_prg:
  "xor_prg bytes_bitxor bytes_bitxor_assign (bytes_empty (eval_size prg)) (\<lambda>b. length b = eval_size prg)
     (aes_prg_ops encrypt fill_bytes prg) aes_seed_valid"
proof (intro xor_prg.intro xor_prg_axioms.intro bytes_xor.xor_laws_axioms)
  show "sampler_in aes_seed_valid (prg_new_seed (aes_prg_ops encrypt fill_bytes prg))"
    unfolding sampler_in_def
  proof
    fix r
    obtain s r' where "aes_seed_random fill_bytes r = Some (s, r')" "aes_seed_valid s"
      using aes_seed_random_spec[OF fill] by blast
    then show "aes_seed_valid (fst (prg_new_seed (aes_prg_ops encrypt fill_bytes prg) r))"
      by (simp add: aes_prg_ops_def)
  qed
qed (simp_all add: aes_prg_ops_def aes_prg_null_output_def aes_prg_eval_spec[OF ctr])

end

sublocale aes_prg_setup \<subseteq> aes: xor_prg
  bytes_bitxor bytes_bitxor_assign "bytes_empty (eval_size prg)" "\<lambda>b. length b = eval_size prg"
  "aes_prg_ops encrypt fill_bytes prg" aes_seed_valid
  for prg
  by (rule aes_xor_prg)

text \<open>A stream cipher and a generator of random bytes that meet the hypotheses: the key stream is the
  key repeated, and filling a slice writes consecutive bytes.\<close>

definition repeating_key :: "unit cipher" where
  "repeating_key key iv data = Inr (map (\<lambda>i. key ! (i mod 16) XOR data ! i) [0..<length data])"

definition counting_fill :: "bytes \<Rightarrow> (nat, bytes) sampler" where
  "counting_fill buf r = (map (\<lambda>i. of_nat (r + i)) [0..<length buf], r + length buf)"

lemma repeating_key_ctr: "ctr_mode repeating_key"
  by (simp add: ctr_mode_def repeating_key_def)

lemma counting_fill_in_place: "fill_in_place counting_fill"
  by (simp add: fill_in_place_def counting_fill_def)

interpretation counting_aes: aes_prg_setup repeating_key counting_fill
  by unfold_locales (rule repeating_key_ctr, rule counting_fill_in_place)

end
