(* ===== verification/Dpf.thy ===== *)
theory Dpf
  imports Prg
begin

text \<open>
  Distributed point functions: the trait of \<open>spectrum_primitives/src/dpf/definition.rs\<close>, its
  contract (\<open>check_dpf!\<close>), and the insecure construction of \<open>dpf/insecure.rs\<close>.

  \<open>dpf_contract\<close> is what the tests check: evaluating all keys and combining the results gives the
  message at its index and the null message elsewhere. \<open>linear_dpf\<close> is what the servers rely on:
  the evaluations are vectors over a commutative monoid, combined by addition, so they may be
  accumulated over many clients before they are combined across servers.
\<close>

record ('r, 'k, 'm) dpf_ops =
  dpf_points :: nat
  dpf_keys :: nat
  dpf_null_message :: 'm
  dpf_msg_size :: nat
  dpf_gen :: "'m \<Rightarrow> nat \<Rightarrow> 'r \<Rightarrow> ('k list \<times> 'r) option"
  dpf_gen_empty :: "'r \<Rightarrow> ('k list \<times> 'r) option"
  dpf_eval :: "'k \<Rightarrow> 'm list option"
  dpf_combine :: "'m list list \<Rightarrow> 'm list option"

text \<open>Evaluate every key and combine, as the callers of the trait do.\<close>

definition dpf_run :: "('r, 'k, 'm, 'x) dpf_ops_scheme \<Rightarrow> 'k list \<Rightarrow> 'm list option" where
  "dpf_run D ks = do { parts \<leftarrow> try_map (dpf_eval D) ks; dpf_combine D parts }"

text \<open>The point function: \<open>e_idx * msg\<close>.\<close>

definition point_vec :: "('r, 'k, 'm, 'x) dpf_ops_scheme \<Rightarrow> nat \<Rightarrow> 'm \<Rightarrow> 'm list" where
  "point_vec D idx msg = (replicate (dpf_points D) (dpf_null_message D))[idx := msg]"

definition null_vec :: "('r, 'k, 'm, 'x) dpf_ops_scheme \<Rightarrow> 'm list" where
  "null_vec D = replicate (dpf_points D) (dpf_null_message D)"

locale dpf_contract =
  fixes D :: "('r, 'k, 'm, 'x) dpf_ops_scheme" and valid :: "'m \<Rightarrow> bool"
  assumes gen_correct: "valid msg \<Longrightarrow> idx < dpf_points D \<Longrightarrow>
      \<exists>ks r'. dpf_gen D msg idx r = Some (ks, r') \<and> length ks = dpf_keys D
        \<and> dpf_run D ks = Some (point_vec D idx msg)"
    and gen_empty_correct:
      "\<exists>ks r'. dpf_gen_empty D r = Some (ks, r') \<and> length ks = dpf_keys D
        \<and> dpf_run D ks = Some (null_vec D)"

section \<open>Linear point functions\<close>

locale linear_dpf = comm_monoid_laws M valid
  for M :: "'m monoid_ops" and valid :: "'m \<Rightarrow> bool" +
  fixes D :: "('r, 'k, 'm, 'x) dpf_ops_scheme" and validK :: "'k \<Rightarrow> bool" and out :: "'k \<Rightarrow> 'm list"
  assumes keys_pos: "0 < dpf_keys D"
    and null_message: "dpf_null_message D = m_zero M"
    and eval_eq: "validK k \<Longrightarrow> dpf_eval D k = Some (out k)"
    and out_valid: "validK k \<Longrightarrow> vec_valid valid (dpf_points D) (out k)"
    and combine_eq: "parts \<noteq> [] \<Longrightarrow> list_all (vec_valid valid (dpf_points D)) parts \<Longrightarrow>
      dpf_combine D parts = Some (fold_add (vec_monoid M (dpf_points D)) parts)"
    and gen_spec: "valid msg \<Longrightarrow> idx < dpf_points D \<Longrightarrow>
      \<exists>ks r'. dpf_gen D msg idx r = Some (ks, r') \<and> length ks = dpf_keys D \<and> list_all validK ks
        \<and> fold_add (vec_monoid M (dpf_points D)) (map out ks) = point_vec D idx msg"
    and gen_empty_spec:
      "\<exists>ks r'. dpf_gen_empty D r = Some (ks, r') \<and> length ks = dpf_keys D \<and> list_all validK ks
        \<and> fold_add (vec_monoid M (dpf_points D)) (map out ks) = null_vec D"
begin

abbreviation VM :: "'m list monoid_ops" where
  "VM \<equiv> vec_monoid M (dpf_points D)"

lemma outs_valid: "list_all validK ks \<Longrightarrow> list_all (vec_valid valid (dpf_points D)) (map out ks)"
  by (auto simp: list_all_iff out_valid)

lemma eval_all: "list_all validK ks \<Longrightarrow> try_map (dpf_eval D) ks = Some (map out ks)"
  by (rule try_map_eq_map) (auto simp: list_all_iff eval_eq)

lemma run_eq:
  "list_all validK ks \<Longrightarrow> ks \<noteq> [] \<Longrightarrow> dpf_run D ks = Some (fold_add VM (map out ks))"
  by (simp only: dpf_run_def eval_all bind.bind_lunit combine_eq[OF _ outs_valid] map_is_Nil_conv simp_thms)

lemma null_vec_eq: "null_vec D = m_zero VM"
  by (simp add: null_vec_def null_message)

lemma linear_dpf_contract: "dpf_contract D valid"
proof
  fix msg idx r
  assume "valid msg" "idx < dpf_points D"
  then obtain ks r' where "dpf_gen D msg idx r = Some (ks, r')" "length ks = dpf_keys D"
      "list_all validK ks" "fold_add VM (map out ks) = point_vec D idx msg"
    using gen_spec by blast
  then show "\<exists>ks r'. dpf_gen D msg idx r = Some (ks, r') \<and> length ks = dpf_keys D
      \<and> dpf_run D ks = Some (point_vec D idx msg)"
    using run_eq keys_pos by fastforce
next
  fix r
  obtain ks r' where "dpf_gen_empty D r = Some (ks, r')" "length ks = dpf_keys D"
      "list_all validK ks" "fold_add VM (map out ks) = null_vec D"
    using gen_empty_spec by blast
  then show "\<exists>ks r'. dpf_gen_empty D r = Some (ks, r') \<and> length ks = dpf_keys D
      \<and> dpf_run D ks = Some (null_vec D)"
    using run_eq keys_pos by fastforce
qed

end

sublocale linear_dpf \<subseteq> dpf_contract D valid
  by (rule linear_dpf_contract)

section \<open>The insecure construction\<close>

text \<open>\<open>struct Construction<M>\<close>; \<open>M::default()\<close> is the argument \<open>dflt\<close>. \<open>self.keys() - 1\<close>
  underflows (a panic) when there are no keys.\<close>

record insecure_dpf =
  in_points :: nat
  in_keys :: nat

definition insecure_new :: "nat \<Rightarrow> nat \<Rightarrow> insecure_dpf" where
  "insecure_new points keys = \<lparr> in_points = points, in_keys = keys \<rparr>"

definition insecure_gen :: "insecure_dpf \<Rightarrow> 'm \<Rightarrow> nat \<Rightarrow> ('m \<times> nat) option list option" where
  "insecure_gen D msg idx =
     do { rust_assert (idx \<le> in_points D);
          rust_assert (1 \<le> in_keys D);
          let keys = replicate (in_keys D - 1) None;
          Some (keys @ [Some (msg, idx)]) }"

definition insecure_gen_empty :: "insecure_dpf \<Rightarrow> ('m \<times> nat) option list" where
  "insecure_gen_empty D = replicate (in_keys D) None"

definition insecure_eval :: "'m \<Rightarrow> insecure_dpf \<Rightarrow> ('m \<times> nat) option \<Rightarrow> 'm list option" where
  "insecure_eval dflt D key =
     (let acc = replicate (in_points D) dflt
      in case key of None \<Rightarrow> Some acc | Some (msg, idx) \<Rightarrow> vec_set acc idx msg)"

definition insecure_combine :: "'m \<Rightarrow> 'm list list \<Rightarrow> 'm list option" where
  "insecure_combine dflt parts =
     reduce_expect (\<lambda>a b. Some (map2 (\<lambda>a b. if a \<noteq> dflt then a else b) a b)) parts"

definition insecure_dpf_ops :: "'m \<Rightarrow> insecure_dpf \<Rightarrow> ('r, ('m \<times> nat) option, 'm) dpf_ops" where
  "insecure_dpf_ops dflt D =
     \<lparr> dpf_points = in_points D, dpf_keys = in_keys D, dpf_null_message = dflt, dpf_msg_size = 1,
       dpf_gen = (\<lambda>msg idx r. map_option (\<lambda>ks. (ks, r)) (insecure_gen D msg idx)),
       dpf_gen_empty = (\<lambda>r. Some (insecure_gen_empty D, r)),
       dpf_eval = insecure_eval dflt D, dpf_combine = insecure_combine dflt \<rparr>"

lemma insecure_ops_sel [simp]:
  "dpf_points (insecure_dpf_ops dflt D) = in_points D" "dpf_keys (insecure_dpf_ops dflt D) = in_keys D"
  "dpf_null_message (insecure_dpf_ops dflt D) = dflt"
  "dpf_eval (insecure_dpf_ops dflt D) = insecure_eval dflt D"
  "dpf_combine (insecure_dpf_ops dflt D) = insecure_combine dflt"
  by (simp_all add: insecure_dpf_ops_def)

text \<open>Combining empty evaluations changes nothing, from either side.\<close>

abbreviation pick :: "'m \<Rightarrow> 'm list \<Rightarrow> 'm list \<Rightarrow> 'm list" where
  "pick dflt a b \<equiv> map2 (\<lambda>a b. if a \<noteq> dflt then a else b) a b"

lemma pick_null_left: "length v = n \<Longrightarrow> pick dflt (replicate n dflt) v = v"
  by (rule nth_equalityI) auto

lemma insecure_combine_nulls:
  "length v = n \<Longrightarrow> insecure_combine dflt (replicate k (replicate n dflt) @ [v]) = Some v"
proof -
  assume v: "length v = n"
  have *: "try_fold (\<lambda>a b. Some (pick dflt a b)) (replicate n dflt) (replicate k (replicate n dflt) @ [v]) = Some v"
    for k using v by (induction k) (simp_all add: pick_null_left)
  then show ?thesis using v by (cases k) (simp_all add: insecure_combine_def)
qed

lemma insecure_eval_all:
  "try_map (insecure_eval dflt D) (replicate k None @ ks)
   = map_option (\<lambda>vs. replicate k (replicate (in_points D) dflt) @ vs) (try_map (insecure_eval dflt D) ks)"
  by (induction k) (auto simp: insecure_eval_def option.map_comp comp_def option.map_ident split: bind_splits)

lemma insecure_contract:
  assumes keys: "0 < in_keys D"
  shows "dpf_contract (insecure_dpf_ops dflt D :: ('r, ('m \<times> nat) option, 'm) dpf_ops) (\<lambda>_. True)"
proof
  fix msg :: 'm and idx and r :: 'r
  assume idx: "idx < dpf_points (insecure_dpf_ops dflt D :: ('r, ('m \<times> nat) option, 'm) dpf_ops)"
  let ?ks = "replicate (in_keys D - 1) None @ [Some (msg, idx)]"
  have "dpf_gen (insecure_dpf_ops dflt D) msg idx r = Some (?ks, r)"
    using idx keys by (simp add: insecure_dpf_ops_def insecure_gen_def)
  moreover have "try_map (insecure_eval dflt D) ?ks
      = Some (replicate (in_keys D - 1) (replicate (in_points D) dflt) @ [(replicate (in_points D) dflt)[idx := msg]])"
    using idx by (simp add: insecure_eval_all) (simp add: insecure_eval_def)
  ultimately show "\<exists>ks r'. dpf_gen (insecure_dpf_ops dflt D) msg idx r = Some (ks, r')
      \<and> length ks = dpf_keys (insecure_dpf_ops dflt D :: ('r, ('m \<times> nat) option, 'm) dpf_ops)
      \<and> dpf_run (insecure_dpf_ops dflt D :: ('r, ('m \<times> nat) option, 'm) dpf_ops) ks
        = Some (point_vec (insecure_dpf_ops dflt D :: ('r, ('m \<times> nat) option, 'm) dpf_ops) idx msg)"
    using keys by (simp add: dpf_run_def point_vec_def insecure_combine_nulls)
next
  fix r :: 'r
  have ks: "insecure_gen_empty D = replicate (in_keys D - 1) None @ [None]"
    using keys by (cases "in_keys D") (simp_all add: insecure_gen_empty_def replicate_append_same)
  show "\<exists>ks r'. dpf_gen_empty (insecure_dpf_ops dflt D) r = Some (ks, r')
      \<and> length ks = dpf_keys (insecure_dpf_ops dflt D :: ('r, ('m \<times> nat) option, 'm) dpf_ops)
      \<and> dpf_run (insecure_dpf_ops dflt D :: ('r, ('m \<times> nat) option, 'm) dpf_ops) ks
        = Some (null_vec (insecure_dpf_ops dflt D :: ('r, ('m \<times> nat) option, 'm) dpf_ops))"
    using keys
    by (simp add: insecure_dpf_ops_def dpf_run_def null_vec_def ks insecure_eval_all insecure_combine_nulls)
      (simp add: insecure_eval_def insecure_combine_nulls)
qed

interpretation insecure: dpf_contract "insecure_dpf_ops dflt (insecure_new points (Suc keys))" "\<lambda>_. True"
  for dflt :: 'm and points keys :: nat
  by (rule insecure_contract) (simp add: insecure_new_def)

text \<open>The bound that \<open>gen\<close> asserts is off by one: it accepts \<open>idx = points\<close>, for which no server can
  evaluate its key.\<close>

lemma insecure_gen_past_end:
  assumes "0 < in_keys D"
  shows "\<exists>ks. insecure_gen D msg (in_points D) = Some ks \<and> try_map (insecure_eval dflt D) ks = None"
  using assms by (simp add: insecure_gen_def insecure_eval_all) (simp add: insecure_eval_def)

end
