(* ===== verification/Dpf_TwoKey.thy ===== *)
theory Dpf_TwoKey
  imports Dpf
begin

text \<open>
  \<open>spectrum_primitives/src/dpf/two_key.rs\<close>: a point function with two keys over any generator whose
  outputs have an exclusive or. The keys hold the same seeds and bits except at the index of the
  message; the message is masked by the two seeds there.

  The bit vector is drawn with \<open>thread_rng().gen()\<close>, the sampler \<open>gen_bool\<close>. The theorems hold for
  every sampler, in particular also when the fresh seed happens to equal the old one.
\<close>

record ('r, 's, 'o) two_key_dpf =
  tk_prg :: "('r, 's, 'o) prg_ops"
  tk_points :: nat

definition two_key_new :: "('r, 's, 'o) prg_ops \<Rightarrow> nat \<Rightarrow> ('r, 's, 'o) two_key_dpf" where
  "two_key_new prg points = \<lparr> tk_prg = prg, tk_points = points \<rparr>"

record ('m, 's) two_key =
  tk_encoded_msg :: 'm
  tk_bits :: "bool list"
  tk_seeds :: "'s list"

definition two_key_key :: "'m \<Rightarrow> bool list \<Rightarrow> 's list \<Rightarrow> ('m, 's) two_key" where
  "two_key_key encoded_msg bits seeds =
     \<lparr> tk_encoded_msg = encoded_msg, tk_bits = bits, tk_seeds = seeds \<rparr>"

record 'm xor_ops =
  x_bitxor :: "'m \<Rightarrow> 'm \<Rightarrow> 'm option"
  x_bitxor_assign :: "'m \<Rightarrow> 'm \<Rightarrow> 'm option"

definition two_key_gen ::
    "'m xor_ops \<Rightarrow> ('r, bool) sampler \<Rightarrow> ('r, 's, 'm) two_key_dpf \<Rightarrow> 'm \<Rightarrow> nat \<Rightarrow> 'r
     \<Rightarrow> (('m, 's) two_key list \<times> 'r) option" where
  "two_key_gen X gen_bool D msg idx r =
     (let (seeds_a, r1) = repeat_with_take (prg_new_seed (tk_prg D)) (tk_points D) r;
          (fresh, r2) = prg_new_seed (tk_prg D) r1
      in do {
        seeds_b \<leftarrow> vec_set seeds_a idx fresh;
        let (bits_a, r3) = repeat_with_take gen_bool (tk_points D) r2;
        bit \<leftarrow> vec_get bits_a idx;
        bits_b \<leftarrow> vec_set bits_a idx (\<not> bit);
        seed_a \<leftarrow> vec_get seeds_a idx;
        seed_b \<leftarrow> vec_get seeds_b idx;
        out_a \<leftarrow> prg_eval (tk_prg D) seed_a;
        out_b \<leftarrow> prg_eval (tk_prg D) seed_b;
        mask \<leftarrow> x_bitxor X out_a out_b;
        encoded_msg \<leftarrow> x_bitxor X mask msg;
        Some ([two_key_key encoded_msg bits_a seeds_a, two_key_key encoded_msg bits_b seeds_b], r3) })"

definition two_key_gen_empty ::
    "('r, bool) sampler \<Rightarrow> ('r, 's, 'm) two_key_dpf \<Rightarrow> 'r \<Rightarrow> (('m, 's) two_key list \<times> 'r) option" where
  "two_key_gen_empty gen_bool D r =
     (let (seeds, r1) = repeat_with_take (prg_new_seed (tk_prg D)) (tk_points D) r;
          (bits, r2) = repeat_with_take gen_bool (tk_points D) r1;
          (seed, r3) = prg_new_seed (tk_prg D) r2
      in do {
        encoded_msg \<leftarrow> prg_eval (tk_prg D) seed;
        Some (replicate 2 (two_key_key encoded_msg bits seeds), r3) })"

definition two_key_eval ::
    "'m xor_ops \<Rightarrow> ('r, 's, 'm) two_key_dpf \<Rightarrow> ('m, 's) two_key \<Rightarrow> 'm list option" where
  "two_key_eval X D key =
     try_map (\<lambda>(seed, bit).
         if bit then do { out \<leftarrow> prg_eval (tk_prg D) seed; x_bitxor X out (tk_encoded_msg key) }
         else prg_eval (tk_prg D) seed)
       (zip (tk_seeds key) (tk_bits key))"

definition two_key_combine :: "'m xor_ops \<Rightarrow> 'm list list \<Rightarrow> 'm list option" where
  "two_key_combine X parts =
     (case parts of
        [] \<Rightarrow> None
      | res # parts \<Rightarrow> try_fold (\<lambda>res part. try_zip_assign (x_bitxor_assign X) res part) res parts)"

definition two_key_dpf_ops ::
    "'m xor_ops \<Rightarrow> ('r, bool) sampler \<Rightarrow> ('r, 's, 'm) two_key_dpf \<Rightarrow> ('r, ('m, 's) two_key, 'm) dpf_ops" where
  "two_key_dpf_ops X gen_bool D =
     \<lparr> dpf_points = tk_points D, dpf_keys = 2, dpf_null_message = prg_null_output (tk_prg D),
       dpf_msg_size = prg_output_size (tk_prg D),
       dpf_gen = two_key_gen X gen_bool D, dpf_gen_empty = two_key_gen_empty gen_bool D,
       dpf_eval = two_key_eval X D, dpf_combine = two_key_combine X \<rparr>"

lemma two_key_ops_sel [simp]:
  "dpf_points (two_key_dpf_ops X g D) = tk_points D" "dpf_keys (two_key_dpf_ops X g D) = 2"
  "dpf_null_message (two_key_dpf_ops X g D) = prg_null_output (tk_prg D)"
  "dpf_gen (two_key_dpf_ops X g D) = two_key_gen X g D"
  "dpf_gen_empty (two_key_dpf_ops X g D) = two_key_gen_empty g D"
  "dpf_eval (two_key_dpf_ops X g D) = two_key_eval X D"
  "dpf_combine (two_key_dpf_ops X g D) = two_key_combine X"
  by (simp_all add: two_key_dpf_ops_def)

lemma two_key_sel [simp]:
  "tk_encoded_msg (two_key_key m b s) = m" "tk_bits (two_key_key m b s) = b" "tk_seeds (two_key_key m b s) = s"
  by (simp_all add: two_key_key_def)

lemma two_key_new_sel [simp]: "tk_prg (two_key_new P n) = P" "tk_points (two_key_new P n) = n"
  by (simp_all add: two_key_new_def)

section \<open>The keys a client generates\<close>

text \<open>What a verifier of the keys relies on: the two keys agree except for a flipped bit and a fresh
  seed at \<open>idx\<close>, and carry the same masked message.\<close>

definition two_key_pair :: "nat \<Rightarrow> nat \<Rightarrow> ('m, 's) two_key list \<Rightarrow> bool" where
  "two_key_pair points idx ks \<longleftrightarrow>
     (\<exists>m bits seeds fresh. length bits = points \<and> length seeds = points \<and>
        ks = [two_key_key m bits seeds, two_key_key m (bits[idx := \<not> bits ! idx]) (seeds[idx := fresh])])"

definition two_key_twins :: "nat \<Rightarrow> ('m, 's) two_key list \<Rightarrow> bool" where
  "two_key_twins points ks \<longleftrightarrow>
     (\<exists>m bits seeds. length bits = points \<and> length seeds = points \<and>
        ks = replicate 2 (two_key_key m bits seeds))"

lemma two_key_gen_pair:
  assumes "two_key_gen X g D msg idx r = Some (ks, r')"
  shows "two_key_pair (tk_points D) idx ks \<and> idx < tk_points D"
proof -
  obtain seeds r1 where s: "repeat_with_take (prg_new_seed (tk_prg D)) (tk_points D) r = (seeds, r1)" by fastforce
  obtain fresh r2 where f: "prg_new_seed (tk_prg D) r1 = (fresh, r2)" by fastforce
  obtain bits r3 where b: "repeat_with_take g (tk_points D) r2 = (bits, r3)" by fastforce
  have lens: "length seeds = tk_points D" "length bits = tk_points D"
    using s b by (auto dest: repeat_with_take_length)
  show ?thesis
    using assms lens unfolding two_key_pair_def
    by (auto simp: two_key_gen_def s f b Let_def bind_eq_Some_conv vec_set_Some_iff vec_get_Some_iff)
qed

lemma two_key_gen_empty_twins:
  assumes "two_key_gen_empty g D r = Some (ks, r')"
  shows "two_key_twins (tk_points D) ks"
proof -
  obtain seeds r1 where s: "repeat_with_take (prg_new_seed (tk_prg D)) (tk_points D) r = (seeds, r1)" by fastforce
  obtain bits r2 where b: "repeat_with_take g (tk_points D) r1 = (bits, r2)" by fastforce
  have "length seeds = tk_points D" "length bits = tk_points D"
    using s b by (auto dest: repeat_with_take_length)
  then show ?thesis
    using assms unfolding two_key_twins_def
    by (auto simp: two_key_gen_empty_def s b split: prod.splits bind_splits)
qed

text \<open>An index out of range panics.\<close>

lemma two_key_gen_out_of_range: "tk_points D \<le> idx \<Longrightarrow> two_key_gen X g D msg idx r = None"
  using two_key_gen_pair[of X g D msg idx r] by (cases "two_key_gen X g D msg idx r") force+

section \<open>Correctness\<close>

context xor_prg
begin

abbreviation X :: "'o xor_ops" where
  "X \<equiv> \<lparr> x_bitxor = bitxor, x_bitxor_assign = bitxor_assign \<rparr>"

abbreviation xM :: "'o monoid_ops" where
  "xM \<equiv> \<lparr> m_zero = null, m_add = xor \<rparr>"

definition expand :: "'s \<Rightarrow> 'o" where
  "expand s = the (prg_eval P s)"

lemma expand: "validS s \<Longrightarrow> prg_eval P s = Some (expand s) \<and> valid (expand s)"
  using eval_valid[of s] by (auto simp: expand_def)

definition two_key_valid :: "nat \<Rightarrow> ('o, 's) two_key \<Rightarrow> bool" where
  "two_key_valid n k \<longleftrightarrow> length (tk_bits k) = n \<and> length (tk_seeds k) = n
     \<and> list_all validS (tk_seeds k) \<and> valid (tk_encoded_msg k)"

definition two_key_out :: "('o, 's) two_key \<Rightarrow> 'o list" where
  "two_key_out k = map2 (\<lambda>s b. if b then xor (expand s) (tk_encoded_msg k) else expand s) (tk_seeds k) (tk_bits k)"

lemma two_key_eval_eq:
  assumes "two_key_valid n k"
  shows "two_key_eval X (two_key_new P n) k = Some (two_key_out k)"
  unfolding two_key_eval_def two_key_out_def
  using assms
  by (intro try_map_eq_map)
    (auto simp: two_key_valid_def expand bitxor_eq list_all_iff dest!: set_zip_leftD)

lemma two_key_out_valid: "two_key_valid n k \<Longrightarrow> vec_valid valid n (two_key_out k)"
  by (rule vec_validI) (auto simp: two_key_out_def two_key_valid_def expand xor_valid list_all_length)

lemma two_key_combine_eq:
  assumes "parts \<noteq> []" "list_all (vec_valid valid n) parts"
  shows "two_key_combine X parts = Some (fold_add (vec_monoid xM n) parts)"
proof -
  note laws = comm_monoid_laws.vec_foldl_add_acc[OF xor_monoid] comm_monoid_laws.vec_fold_add_Cons[OF xor_monoid]
  obtain v vs where parts: "parts = v # vs" "vec_valid valid n v" "list_all (vec_valid valid n) vs"
    using assms by (cases parts) auto
  have "try_zip_assign bitxor_assign a b = Some (map2 xor a b) \<and> vec_valid valid n (map2 xor a b)"
    if "vec_valid valid n a" "vec_valid valid n b" for a b
    using that
    by (intro conjI try_zip_assign_eq vec_validI)
      (auto simp: vec_valid_def list_all_iff list_all_length xor_assign bitxor_eq xor_valid)
  then have "try_fold (try_zip_assign bitxor_assign) v vs = Some (foldl (map2 xor) v vs)"
    using parts by (intro try_fold_eq_foldl[where I = "vec_valid valid n"]) (auto simp: list_all_iff)
  also have "foldl (map2 xor) v vs = fold_add (vec_monoid xM n) parts"
    using laws[where n = n] parts by simp
  finally show ?thesis by (simp add: two_key_combine_def parts(1))
qed

text \<open>The sum of two evaluations, one channel at a time.\<close>

lemma two_key_sum:
  assumes "two_key_valid n a" "two_key_valid n b"
  shows "fold_add (vec_monoid xM n) (map two_key_out [a, b]) = map2 xor (two_key_out a) (two_key_out b)"
  using assms
  by (simp add: fold_add_def comm_monoid_laws.vec_zero_add[OF xor_monoid, simplified, OF two_key_out_valid])

lemma two_key_gen_spec:
  assumes msg: "valid msg" and idx: "idx < n"
  shows "\<exists>ks r'. two_key_gen X g (two_key_new P n) msg idx r = Some (ks, r') \<and> length ks = 2
    \<and> list_all (two_key_valid n) ks
    \<and> fold_add (vec_monoid xM n) (map two_key_out ks) = (replicate n null)[idx := msg]"
proof -
  obtain seeds r1 where s: "repeat_with_take (prg_new_seed P) n r = (seeds, r1)" by fastforce
  obtain fresh r2 where f: "prg_new_seed P r1 = (fresh, r2)" by fastforce
  obtain bits r3 where b: "repeat_with_take g n r2 = (bits, r3)" by fastforce
  have lens: "length seeds = n" "length bits = n" "list_all validS seeds" "validS fresh"
    using s f b new_seed_valid
    by (auto dest: repeat_with_take_length repeat_with_take_in sampler_inD)
  have seed: "validS (seeds ! idx)" using lens idx by (simp add: list_all_length)
  let ?m = "xor (xor (expand (seeds ! idx)) (expand fresh)) msg"
  let ?a = "two_key_key ?m bits seeds" and ?b = "two_key_key ?m (bits[idx := \<not> bits ! idx]) (seeds[idx := fresh])"
  have gen: "two_key_gen X g (two_key_new P n) msg idx r = Some ([?a, ?b], r3)"
    using lens idx msg seed by (simp add: two_key_gen_def s f b expand bitxor_eq xor_valid)
  have valid: "two_key_valid n ?a" "two_key_valid n ?b"
    using lens msg seed by (simp_all add: two_key_valid_def xor_valid expand list_all_update)
  have "map2 xor (two_key_out ?a) (two_key_out ?b) = (replicate n null)[idx := msg]" (is "?l = ?r")
  proof (rule nth_equalityI)
    fix j
    assume "j < length ?l"
    then have j: "j < n" "validS (seeds ! j)" using lens by (auto simp: two_key_out_def list_all_length)
    show "?l ! j = ?r ! j"
    proof (cases "j = idx")
      case True
      then show ?thesis
        using lens j seed msg
        by (cases "bits ! idx")
          (simp_all add: two_key_out_def expand xor_valid xor_assoc' xor_cancel xor_self' xor_null'
            xor_left_commute[of "expand fresh"])
    next
      case False
      then show ?thesis
        using lens j seed msg by (simp add: two_key_out_def expand xor_valid xor_self')
    qed
  qed (use lens in \<open>simp add: two_key_out_def\<close>)
  then show ?thesis using gen valid two_key_sum[OF valid] by simp
qed

lemma two_key_gen_empty_spec:
  "\<exists>ks r'. two_key_gen_empty g (two_key_new P n) r = Some (ks, r') \<and> length ks = 2
    \<and> list_all (two_key_valid n) ks
    \<and> fold_add (vec_monoid xM n) (map two_key_out ks) = replicate n null"
proof -
  obtain seeds r1 where s: "repeat_with_take (prg_new_seed P) n r = (seeds, r1)" by fastforce
  obtain bits r2 where b: "repeat_with_take g n r1 = (bits, r2)" by fastforce
  obtain seed r3 where f: "prg_new_seed P r2 = (seed, r3)" by fastforce
  have lens: "length seeds = n" "length bits = n" "list_all validS seeds" "validS seed"
    using s f b new_seed_valid
    by (auto dest: repeat_with_take_length repeat_with_take_in sampler_inD)
  let ?k = "two_key_key (expand seed) bits seeds"
  have gen: "two_key_gen_empty g (two_key_new P n) r = Some ([?k, ?k], r3)"
    using lens by (simp add: two_key_gen_empty_def s f b expand numeral_2_eq_2)
  have valid: "two_key_valid n ?k" using lens by (simp add: two_key_valid_def expand)
  have "map2 xor (two_key_out ?k) (two_key_out ?k) = replicate n null"
    using two_key_out_valid[OF valid]
    by (auto intro!: nth_equalityI simp: vec_valid_def list_all_length xor_self')
  then show ?thesis using gen valid two_key_sum[OF valid valid] by simp
qed

text \<open>The keys of \<open>gen\<close> and \<open>gen_empty\<close> have the shape of \<open>two_key_pair\<close> and \<open>two_key_twins\<close>, with valid seeds.\<close>

lemma two_key_gen_shape:
  assumes "two_key_gen X g (two_key_new P n) msg idx r = Some (ks, r')"
  obtains m bits seeds fresh where "length bits = n" "length seeds = n" "list_all validS seeds" "validS fresh" "idx < n"
    "ks = [two_key_key m bits seeds, two_key_key m (bits[idx := \<not> bits ! idx]) (seeds[idx := fresh])]"
proof -
  obtain seeds r1 where s: "repeat_with_take (prg_new_seed P) n r = (seeds, r1)" by fastforce
  obtain fresh r2 where f: "prg_new_seed P r1 = (fresh, r2)" by fastforce
  obtain bits r3 where b: "repeat_with_take g n r2 = (bits, r3)" by fastforce
  have "length seeds = n" "length bits = n" "list_all validS seeds" "validS fresh"
    using s f b new_seed_valid
    by (auto dest: repeat_with_take_length repeat_with_take_in sampler_inD)
  then show thesis
    using assms that
    by (auto simp: two_key_gen_def s f b bind_eq_Some_conv vec_set_Some_iff vec_get_Some_iff)
qed

lemma two_key_gen_empty_shape:
  assumes "two_key_gen_empty g (two_key_new P n) r = Some (ks, r')"
  obtains m bits seeds where "length bits = n" "length seeds = n" "list_all validS seeds"
    "ks = replicate 2 (two_key_key m bits seeds)"
proof -
  obtain seeds r1 where s: "repeat_with_take (prg_new_seed P) n r = (seeds, r1)" by fastforce
  obtain bits r2 where b: "repeat_with_take g n r1 = (bits, r2)" by fastforce
  have "length seeds = n" "length bits = n" "list_all validS seeds"
    using s b new_seed_valid by (auto dest: repeat_with_take_length repeat_with_take_in)
  then show thesis
    using assms that by (auto simp: two_key_gen_empty_def s b split: prod.splits bind_splits)
qed

lemma two_key_linear:
  "linear_dpf xM valid (two_key_dpf_ops X g (two_key_new P n)) (two_key_valid n) two_key_out"
proof (intro linear_dpf.intro linear_dpf_axioms.intro xor_monoid)
qed (use two_key_gen_spec two_key_gen_empty_spec in
  \<open>simp_all add: null_output two_key_eval_eq two_key_out_valid two_key_combine_eq point_vec_def null_vec_def\<close>)

end

sublocale xor_prg \<subseteq> two_key: linear_dpf xM valid "two_key_dpf_ops X g (two_key_new P n)" "two_key_valid n" two_key_out
  for g n
  by (rule two_key_linear)

end
