(* ===== verification/Dpf_MultiKey.thy ===== *)
theory Dpf_MultiKey
  imports Dpf
begin

text \<open>
  \<open>spectrum_primitives/src/dpf/multi_key.rs\<close>: a point function with any number of keys over a
  seed-homomorphic generator. The keys are additive sharings of a bit vector and a seed vector that
  are zero except at the index of the message.

  The seed type is a field \<open>F\<close> (\<open>P::Seed: Field\<close>) that can be shared (\<open>S\<close>, \<open>P::Seed: Shareable\<close>);
  \<open>pow\<close> raises an output to a seed (\<open>P::Output: SpecialExponentMonoid\<close>).
\<close>

record ('r, 's, 'o) multi_key_dpf =
  mk_prg :: "('r, 's, 'o) sh_prg_ops"
  mk_points :: nat
  mk_keys :: nat

definition multi_key_new :: "('r, 's, 'o) sh_prg_ops \<Rightarrow> nat \<Rightarrow> nat \<Rightarrow> ('r, 's, 'o) multi_key_dpf" where
  "multi_key_new prg points keys = \<lparr> mk_prg = prg, mk_points = points, mk_keys = keys \<rparr>"

record ('m, 's) multi_key =
  mk_encoded_msg :: 'm
  mk_bits :: "'s list"
  mk_seeds :: "'s list"

definition multi_key_key :: "'m \<Rightarrow> 's list \<Rightarrow> 's list \<Rightarrow> ('m, 's) multi_key option" where
  "multi_key_key encoded_msg bits seeds =
     do { rust_assert (length bits = length seeds);
          Some \<lparr> mk_encoded_msg = encoded_msg, mk_bits = bits, mk_seeds = seeds \<rparr> }"

definition multi_key_gen_empty ::
    "('r, 's, 's) share_ops \<Rightarrow> ('r, 's, 'o) multi_key_dpf \<Rightarrow> 'r \<Rightarrow> (('o, 's) multi_key list \<times> 'r) option" where
  "multi_key_gen_empty S D r =
     do { let seeds = replicate (mk_points D) (prg_null_seed (mk_prg D));
          (seed_shares, r1) \<leftarrow> vec_share S seeds (mk_keys D) r;
          let bits = replicate (mk_points D) (prg_null_seed (mk_prg D));
          (bit_shares, r2) \<leftarrow> vec_share S bits (mk_keys D) r1;
          let (seed, r3) = prg_new_seed (mk_prg D) r2;
          encoded_msg \<leftarrow> prg_eval (mk_prg D) seed;
          keys \<leftarrow> try_map (\<lambda>(s, b). multi_key_key encoded_msg b s) (zip seed_shares bit_shares);
          Some (keys, r3) }"

definition multi_key_gen ::
    "('s, 'y) field_ops_scheme \<Rightarrow> ('r, 's, 's) share_ops \<Rightarrow> ('r, 's, 'o) multi_key_dpf \<Rightarrow> 'o \<Rightarrow> nat \<Rightarrow> 'r
     \<Rightarrow> (('o, 's) multi_key list \<times> 'r) option" where
  "multi_key_gen F S D msg point_idx r =
     do { (keys, r1) \<leftarrow> multi_key_gen_empty S D r;
          let (seed, r2) = prg_new_seed (mk_prg D) r1;
          key0 \<leftarrow> vec_get keys 0;
          old_seed \<leftarrow> vec_get (mk_seeds key0) point_idx;
          seeds \<leftarrow> vec_set (mk_seeds key0) point_idx (g_sub F old_seed seed);
          old_bit \<leftarrow> vec_get (mk_bits key0) point_idx;
          bits \<leftarrow> vec_set (mk_bits key0) point_idx (m_add F old_bit (f_one F));
          keys \<leftarrow> vec_set keys 0 (key0 \<lparr> mk_seeds := seeds, mk_bits := bits \<rparr>);
          out \<leftarrow> prg_eval (mk_prg D) seed;
          let encoded_msg = prg_combine_outputs (mk_prg D) [msg, out];
          Some (map (\<lambda>k. k \<lparr> mk_encoded_msg := encoded_msg \<rparr>) keys, r2) }"

definition multi_key_eval ::
    "('o \<Rightarrow> 's \<Rightarrow> 'o) \<Rightarrow> ('r, 's, 'o) multi_key_dpf \<Rightarrow> ('o, 's) multi_key \<Rightarrow> 'o list option" where
  "multi_key_eval pow D key =
     try_map (\<lambda>(seed, bit).
         do { out \<leftarrow> prg_eval (mk_prg D) seed;
              Some (prg_combine_outputs (mk_prg D) [pow (mk_encoded_msg key) bit, out]) })
       (zip (mk_seeds key) (mk_bits key))"

definition multi_key_combine :: "('r, 's, 'o) multi_key_dpf \<Rightarrow> 'o list list \<Rightarrow> 'o list option" where
  "multi_key_combine D parts =
     reduce_expect (\<lambda>part1 part2. Some (map2 (\<lambda>x y. prg_combine_outputs (mk_prg D) [x, y]) part1 part2)) parts"

definition multi_key_dpf_ops ::
    "('s, 'y) field_ops_scheme \<Rightarrow> ('r, 's, 's) share_ops \<Rightarrow> ('o \<Rightarrow> 's \<Rightarrow> 'o) \<Rightarrow> ('r, 's, 'o) multi_key_dpf
     \<Rightarrow> ('r, ('o, 's) multi_key, 'o) dpf_ops" where
  "multi_key_dpf_ops F S pow D =
     \<lparr> dpf_points = mk_points D, dpf_keys = mk_keys D,
       dpf_null_message = prg_null_output (mk_prg D), dpf_msg_size = prg_output_size (mk_prg D),
       dpf_gen = multi_key_gen F S D, dpf_gen_empty = multi_key_gen_empty S D,
       dpf_eval = multi_key_eval pow D, dpf_combine = multi_key_combine D \<rparr>"

lemma multi_key_ops_sel [simp]:
  "dpf_points (multi_key_dpf_ops F S pow D) = mk_points D" "dpf_keys (multi_key_dpf_ops F S pow D) = mk_keys D"
  "dpf_null_message (multi_key_dpf_ops F S pow D) = prg_null_output (mk_prg D)"
  "dpf_gen (multi_key_dpf_ops F S pow D) = multi_key_gen F S D"
  "dpf_gen_empty (multi_key_dpf_ops F S pow D) = multi_key_gen_empty S D"
  "dpf_eval (multi_key_dpf_ops F S pow D) = multi_key_eval pow D"
  "dpf_combine (multi_key_dpf_ops F S pow D) = multi_key_combine D"
  by (simp_all add: multi_key_dpf_ops_def)

lemma multi_key_new_sel [simp]:
  "mk_prg (multi_key_new P n k) = P" "mk_points (multi_key_new P n k) = n" "mk_keys (multi_key_new P n k) = k"
  by (simp_all add: multi_key_new_def)

section \<open>The keys a client generates\<close>

text \<open>The shared vectors: the sums of the keys' bits and seeds at a channel.\<close>

definition bit_sum :: "('s, 'y) monoid_ops_scheme \<Rightarrow> ('o, 's) multi_key list \<Rightarrow> nat \<Rightarrow> 's" where
  "bit_sum F ks j = fold_add F (map (\<lambda>k. mk_bits k ! j) ks)"

definition seed_sum :: "('s, 'y) monoid_ops_scheme \<Rightarrow> ('o, 's) multi_key list \<Rightarrow> nat \<Rightarrow> 's" where
  "seed_sum F ks j = fold_add F (map (\<lambda>k. mk_seeds k ! j) ks)"

definition multi_key_valid :: "('s \<Rightarrow> bool) \<Rightarrow> nat \<Rightarrow> ('o, 's) multi_key \<Rightarrow> bool" where
  "multi_key_valid validS n k \<longleftrightarrow> vec_valid validS n (mk_bits k) \<and> vec_valid validS n (mk_seeds k)"

text \<open>Keys for no message, and for a message at \<open>idx\<close>.\<close>

definition multi_key_zero :: "('s, 'y) monoid_ops_scheme \<Rightarrow> nat \<Rightarrow> ('o, 's) multi_key list \<Rightarrow> bool" where
  "multi_key_zero F n ks \<longleftrightarrow> (\<forall>j < n. bit_sum F ks j = m_zero F \<and> seed_sum F ks j = m_zero F)"

definition multi_key_point ::
    "('s, 'y) field_ops_scheme \<Rightarrow> nat \<Rightarrow> nat \<Rightarrow> 's \<Rightarrow> ('o, 's) multi_key list \<Rightarrow> bool" where
  "multi_key_point F n idx seed ks \<longleftrightarrow>
     (\<forall>j < n. bit_sum F ks j = (if j = idx then f_one F else m_zero F)
        \<and> seed_sum F ks j = (if j = idx then g_sub F (m_zero F) seed else m_zero F))"

context comm_ring_laws
begin

text \<open>The shares of a zero vector add up to zero in every column.\<close>

lemma zero_vec_share:
  assumes "sampler_in valid sample" "2 \<le> k" "0 < n"
  shows "\<exists>shares r'. vec_share (group_shareable M sample) (replicate n (m_zero M)) k r = Some (shares, r')
    \<and> length shares = k \<and> list_all (vec_valid valid n) shares
    \<and> (\<forall>j < n. fold_add M (map (\<lambda>row. row ! j) shares) = m_zero M)"
proof -
  let ?S = "group_shareable M sample" and ?zs = "replicate n (m_zero M)"
  have sh: "shareable ?S valid valid" using assms(1) by (rule group_shareable)
  obtain shares r' where *: "vec_share ?S ?zs k r = Some (shares, r')" "rect k n shares"
      "list_all (list_all valid) shares" "try_map (sh_recover ?S) (columns n shares) = Some ?zs"
    using shareable.vec_share_spec[OF sh, of ?zs k r] assms by (auto simp: zero_valid)
  have "fold_add M (map (\<lambda>row. row ! j) shares) = m_zero M" if "j < n" for j
  proof -
    have "sh_recover ?S (columns n shares ! j) = Some (?zs ! j)"
      using try_map_nth[OF *(4), of j] that by (simp add: columns_def)
    then show ?thesis
      using that by (auto simp: group_shareable_def group_recover_def columns_def fold_add_def bind_eq_Some_conv)
  qed
  then show ?thesis using * by (auto simp: rect_def vec_valid_def list_all_iff)
qed

lemma bit_sum_update:
  assumes "ks \<noteq> []" "list_all (multi_key_valid valid n) ks" "i < n" "j < n" "valid c"
  shows "bit_sum M (ks[0 := hd ks \<lparr> mk_bits := (mk_bits (hd ks))[i := m_add M (mk_bits (hd ks) ! i) c] \<rparr>]) j
    = (if j = i then m_add M (bit_sum M ks j) c else bit_sum M ks j)"
proof -
  obtain k ks' where ks: "ks = k # ks'" using assms(1) by (cases ks) auto
  let ?xs = "map (\<lambda>k. mk_bits k ! j) ks"
  have "list_all valid ?xs"
    using assms(2,4) by (auto simp: list_all_iff multi_key_valid_def vec_valid_nth)
  then have "fold_add M (?xs[0 := m_add M (?xs ! 0) c]) = m_add M (fold_add M ?xs) c"
    using assms ks by (intro fold_add_update) auto
  then show ?thesis
    using assms ks by (auto simp: bit_sum_def multi_key_valid_def vec_valid_length)
qed

lemma seed_sum_update:
  assumes "ks \<noteq> []" "list_all (multi_key_valid valid n) ks" "i < n" "j < n" "valid c"
  shows "seed_sum M (ks[0 := hd ks \<lparr> mk_seeds := (mk_seeds (hd ks))[i := g_sub M (mk_seeds (hd ks) ! i) c] \<rparr>]) j
    = (if j = i then g_sub M (seed_sum M ks j) c else seed_sum M ks j)"
proof -
  obtain k ks' where ks: "ks = k # ks'" using assms(1) by (cases ks) auto
  let ?xs = "map (\<lambda>k. mk_seeds k ! j) ks"
  have "list_all valid ?xs"
    using assms(2,4) by (auto simp: list_all_iff multi_key_valid_def vec_valid_nth)
  then have "fold_add M (?xs[0 := g_sub M (?xs ! 0) c]) = g_sub M (fold_add M ?xs) c"
    using assms ks by (intro fold_add_update_sub) auto
  then show ?thesis
    using assms ks by (auto simp: seed_sum_def multi_key_valid_def vec_valid_length)
qed

end

section \<open>Correctness\<close>

locale multi_key_setup = seed_homomorphic_prg Out validO F validS P pow expand
  for Out :: "'o monoid_ops" and validO :: "'o \<Rightarrow> bool"
    and F :: "('s, 'y) field_ops_scheme" and validS :: "'s \<Rightarrow> bool"
    and P :: "('r, 's, 'o) sh_prg_ops" and pow :: "'o \<Rightarrow> 's \<Rightarrow> 'o" and expand :: "'s \<Rightarrow> 'o" +
  fixes sample :: "('r, 's) sampler" and n :: nat and keys :: nat
  assumes sample_valid: "sampler_in validS sample" and keys2: "2 \<le> keys" and points_pos: "0 < n"
begin

abbreviation S :: "('r, 's, 's) share_ops" where
  "S \<equiv> group_shareable F sample"

abbreviation D :: "('r, 's, 'o) multi_key_dpf" where
  "D \<equiv> multi_key_new P n keys"

definition mk_valid :: "('o, 's) multi_key \<Rightarrow> bool" where
  "mk_valid k \<longleftrightarrow> multi_key_valid validS n k \<and> validO (mk_encoded_msg k)"

definition mk_out :: "('o, 's) multi_key \<Rightarrow> 'o list" where
  "mk_out k = map2 (\<lambda>s b. m_add Out (pow (mk_encoded_msg k) b) (expand s)) (mk_seeds k) (mk_bits k)"

lemma mk_valid_nth:
  "mk_valid k \<Longrightarrow> j < n \<Longrightarrow> validS (mk_bits k ! j) \<and> validS (mk_seeds k ! j) \<and> validO (mk_encoded_msg k)"
  by (simp add: mk_valid_def multi_key_valid_def vec_valid_def list_all_length)

lemma mk_valid_lens: "mk_valid k \<Longrightarrow> length (mk_bits k) = n \<and> length (mk_seeds k) = n"
  by (simp add: mk_valid_def multi_key_valid_def vec_valid_def)

lemma mk_out_nth:
  "mk_valid k \<Longrightarrow> j < n \<Longrightarrow>
   mk_out k ! j = m_add Out (pow (mk_encoded_msg k) (mk_bits k ! j)) (expand (mk_seeds k ! j))"
  by (simp add: mk_out_def mk_valid_lens)

lemma mk_out_valid: "mk_valid k \<Longrightarrow> vec_valid validO n (mk_out k)"
proof (rule vec_validI)
  assume k: "mk_valid k"
  then show "length (mk_out k) = n" by (simp add: mk_out_def mk_valid_lens)
  show "validO (mk_out k ! i)" if "i < n" for i
    using mk_valid_nth[OF k that] by (simp add: mk_out_nth k that out.add_valid pow_valid expand_valid)
qed

lemma multi_key_eval_eq:
  assumes "mk_valid k"
  shows "multi_key_eval pow D k = Some (mk_out k)"
proof -
  have "(case x of (seed, b) \<Rightarrow> do { out \<leftarrow> prg_eval P seed;
          Some (prg_combine_outputs P [pow (mk_encoded_msg k) b, out]) })
      = Some (case x of (s, b) \<Rightarrow> m_add Out (pow (mk_encoded_msg k) b) (expand s))"
    if "x \<in> set (zip (mk_seeds k) (mk_bits k))" for x
    using assms that list_all_zip[of "fst x" "snd x" "mk_seeds k" "mk_bits k" validS validS]
    by (cases x) (auto simp: mk_valid_def multi_key_valid_def vec_valid_def eval_eq combine_pair pow_valid expand_valid)
  then show ?thesis
    unfolding multi_key_eval_def mk_out_def multi_key_new_sel by (rule try_map_eq_map)
qed

lemma multi_key_combine_eq:
  assumes "parts \<noteq> []" "list_all (vec_valid validO n) parts"
  shows "multi_key_combine D parts = Some (fold_add (vec_monoid Out n) parts)"
proof -
  obtain v vs where parts: "parts = v # vs" "vec_valid validO n v" "list_all (vec_valid validO n) vs"
    using assms by (cases parts) auto
  have "map2 (\<lambda>x y. prg_combine_outputs P [x, y]) a b = map2 (m_add Out) a b
      \<and> vec_valid validO n (map2 (m_add Out) a b)"
    if "vec_valid validO n a" "vec_valid validO n b" for a b
    using that
    by (intro conjI nth_equalityI vec_validI)
      (auto simp: vec_valid_def list_all_length combine_pair out.add_valid)
  then have "try_fold (\<lambda>a b. Some (map2 (\<lambda>x y. prg_combine_outputs P [x, y]) a b)) v vs
      = Some (foldl (map2 (m_add Out)) v vs)"
    using parts
    by (intro try_fold_eq_foldl[where I = "vec_valid validO n"]) (simp_all add: list_all_iff del: map_eq_conv)
  also have "foldl (map2 (m_add Out)) v vs = fold_add (vec_monoid Out n) parts"
    using out.vec_foldl_add_acc[of n v vs] out.vec_fold_add_Cons[of n v vs] parts by simp
  finally show ?thesis by (simp add: multi_key_combine_def parts(1))
qed

text \<open>The sum of the evaluations, one channel at a time.\<close>

lemma multi_key_sum_nth:
  assumes ks: "list_all mk_valid ks" and m: "validO m" "\<And>k. k \<in> set ks \<Longrightarrow> mk_encoded_msg k = m" and j: "j < n"
  shows "fold_add (vec_monoid Out n) (map mk_out ks) ! j
    = m_add Out (pow m (bit_sum F ks j)) (expand (seed_sum F ks j))"
proof -
  let ?bs = "map (\<lambda>k. mk_bits k ! j) ks" and ?ss = "map (\<lambda>k. mk_seeds k ! j) ks"
  have valid: "list_all validS ?bs" "list_all validS ?ss"
    using ks j by (auto simp: list_all_iff mk_valid_nth)
  have "fold_add (vec_monoid Out n) (map mk_out ks) ! j = fold_add Out (map (\<lambda>k. mk_out k ! j) ks)"
    using ks j by (subst out.fold_vec_nth) (auto simp: list_all_iff mk_out_valid comp_def)
  also have "map (\<lambda>k. mk_out k ! j) ks = map2 (m_add Out) (map (pow m) ?bs) (map expand ?ss)"
    using ks j m by (intro nth_equalityI) (auto simp: list_all_length mk_out_nth)
  also have "fold_add Out \<dots> = m_add Out (fold_add Out (map (pow m) ?bs)) (fold_add Out (map expand ?ss))"
    using valid m by (intro out.fold_add_map2) (auto simp: list_all_iff pow_valid expand_valid)
  also have "\<dots> = m_add Out (pow m (bit_sum F ks j)) (expand (seed_sum F ks j))"
    using valid m by (simp only: pow_fold expand_fold bit_sum_def seed_sum_def)
  finally show ?thesis .
qed

lemma multi_key_gen_empty_spec:
  "\<exists>ks r' m. multi_key_gen_empty S D r = Some (ks, r') \<and> length ks = keys \<and> list_all mk_valid ks
    \<and> (\<forall>k \<in> set ks. mk_encoded_msg k = m) \<and> validO m \<and> multi_key_zero F n ks"
proof -
  let ?zs = "replicate n (m_zero F)"
  obtain ss r1 where ss: "vec_share S ?zs keys r = Some (ss, r1)" "length ss = keys"
      "list_all (vec_valid validS n) ss" "\<forall>j < n. fold_add F (map (\<lambda>row. row ! j) ss) = m_zero F"
    using seed.zero_vec_share[OF sample_valid keys2 points_pos] by blast
  obtain bs r2 where bs: "vec_share S ?zs keys r1 = Some (bs, r2)" "length bs = keys"
      "list_all (vec_valid validS n) bs" "\<forall>j < n. fold_add F (map (\<lambda>row. row ! j) bs) = m_zero F"
    using seed.zero_vec_share[OF sample_valid keys2 points_pos] by blast
  obtain s r3 where s: "prg_new_seed P r2 = (s, r3)" by fastforce
  then have vs: "validS s" using new_seed_valid by (rule sampler_inD[rotated])
  let ?key = "\<lambda>s' b. \<lparr> mk_encoded_msg = expand s, mk_bits = b, mk_seeds = s' \<rparr>"
  let ?ks = "map2 ?key ss bs"
  have "try_map (\<lambda>(s', b). multi_key_key (expand s) b s') (zip ss bs) = Some ?ks"
    using ss(3) bs(3)
    by (intro try_map_eq_map) (auto simp: multi_key_key_def vec_valid_def dest: list_all_zip)
  then have gen: "multi_key_gen_empty S D r = Some (?ks, r3)"
    by (simp add: multi_key_gen_empty_def null_seed ss(1) bs(1) s eval_eq[OF vs])
  have bits: "map (\<lambda>k. mk_bits k ! j) ?ks = map (\<lambda>row. row ! j) bs"
    and seeds: "map (\<lambda>k. mk_seeds k ! j) ?ks = map (\<lambda>row. row ! j) ss" for j
    using ss(2) bs(2) by (auto intro!: nth_equalityI)
  have "multi_key_zero F n ?ks"
    using ss(4) bs(4) by (simp only: multi_key_zero_def bit_sum_def seed_sum_def bits seeds) simp
  moreover have "list_all mk_valid ?ks"
    using ss(2,3) bs(2,3) vs by (auto simp: list_all_length mk_valid_def multi_key_valid_def expand_valid)
  ultimately show ?thesis using gen ss(2) bs(2) expand_valid[OF vs] by auto
qed

lemma multi_key_gen_spec:
  assumes msg: "validO msg" and idx: "idx < n"
  shows "\<exists>ks r' seed. multi_key_gen F S D msg idx r = Some (ks, r') \<and> length ks = keys \<and> list_all mk_valid ks
    \<and> validS seed \<and> (\<forall>k \<in> set ks. mk_encoded_msg k = m_add Out msg (expand seed)) \<and> multi_key_point F n idx seed ks"
proof -
  obtain ks r1 m where ks: "multi_key_gen_empty S D r = Some (ks, r1)" "length ks = keys" "list_all mk_valid ks"
      "multi_key_zero F n ks"
    using multi_key_gen_empty_spec by blast
  have ne: "ks \<noteq> []" using ks(2) keys2 by auto
  then have hd: "vec_get ks 0 = Some (hd ks)" "mk_valid (hd ks)"
    using ks(3) by (cases ks; simp add: vec_get_def)+
  have lens: "length (mk_bits (hd ks)) = n" "length (mk_seeds (hd ks)) = n"
    using hd(2) by (simp_all add: mk_valid_lens)
  obtain s r2 where s: "prg_new_seed P r1 = (s, r2)" by fastforce
  then have vs: "validS s" using new_seed_valid by (rule sampler_inD[rotated])
  let ?m = "m_add Out msg (expand s)"
  let ?k0 = "hd ks \<lparr> mk_seeds := (mk_seeds (hd ks))[idx := g_sub F (mk_seeds (hd ks) ! idx) s],
    mk_bits := (mk_bits (hd ks))[idx := m_add F (mk_bits (hd ks) ! idx) (f_one F)] \<rparr>"
  let ?ks = "map (\<lambda>k. k \<lparr> mk_encoded_msg := ?m \<rparr>) (ks[0 := ?k0])"
  have gen: "multi_key_gen F S D msg idx r = Some (?ks, r2)"
    using hd lens idx ne vs msg
    by (simp add: multi_key_gen_def ks(1) s eval_eq combine_pair expand_valid)
  have k0: "multi_key_valid validS n ?k0"
    using hd(2) mk_valid_nth[OF hd(2) idx] vs
    by (simp add: mk_valid_def multi_key_valid_def vec_valid_update seed.sub_valid seed.add_valid seed.one_valid)
  have valid: "list_all mk_valid ?ks"
    using ks(3) k0 msg vs
    by (auto simp: list_all_iff mk_valid_def multi_key_valid_def out.add_valid expand_valid
        dest!: set_update_subset_insert[THEN subsetD])
  have kv: "list_all (multi_key_valid validS n) ks" using ks(3) by (auto simp: list_all_iff mk_valid_def)
  let ?kb = "ks[0 := hd ks \<lparr> mk_bits := (mk_bits (hd ks))[idx := m_add F (mk_bits (hd ks) ! idx) (f_one F)] \<rparr>]"
    and ?kseed = "ks[0 := hd ks \<lparr> mk_seeds := (mk_seeds (hd ks))[idx := g_sub F (mk_seeds (hd ks) ! idx) s] \<rparr>]"
  have sums: "bit_sum F ?ks j = bit_sum F ?kb j" "seed_sum F ?ks j = seed_sum F ?kseed j" for j
    using ne by (cases ks; simp add: bit_sum_def seed_sum_def comp_def)+
  have "multi_key_point F n idx s ?ks"
    unfolding multi_key_point_def sums
    using seed.bit_sum_update[OF ne kv idx _ seed.one_valid] seed.seed_sum_update[OF ne kv idx _ vs] ks(4)
    by (simp add: multi_key_zero_def seed.zero_add seed.one_valid)
  then show ?thesis using gen valid ks(2) vs by (intro exI[of _ ?ks] exI[of _ r2] exI[of _ s]) simp
qed

lemma multi_key_linear:
  "linear_dpf Out validO (multi_key_dpf_ops F S pow D) mk_valid mk_out"
proof (intro linear_dpf.intro linear_dpf_axioms.intro out.comm_monoid_laws_axioms)
  fix msg idx r
  let ?D = "multi_key_dpf_ops F S pow D"
  assume msg: "validO msg" and idx: "idx < dpf_points ?D"
  then obtain ks r' s where ks: "multi_key_gen F S D msg idx r = Some (ks, r')" "length ks = keys" "list_all mk_valid ks"
      "validS s" "\<And>k. k \<in> set ks \<Longrightarrow> mk_encoded_msg k = m_add Out msg (expand s)" "multi_key_point F n idx s ks"
    using multi_key_gen_spec[of msg idx r] by auto
  have outs: "list_all (vec_valid validO n) (map mk_out ks)" using ks(3) by (auto simp: list_all_iff mk_out_valid)
  have m: "validO (m_add Out msg (expand s))" using msg ks(4) by (simp add: out.add_valid expand_valid)
  have neg: "validS (g_sub F (m_zero F) s)" using ks(4) by (simp add: seed.sub_valid seed.zero_valid)
  have unmask: "m_add Out (expand s) (expand (g_sub F (m_zero F) s)) = m_zero Out"
    using expand_add[OF ks(4) neg] ks(4)
    by (simp add: expand_zero seed.add_commute[OF ks(4) neg] seed.sub_add_cancel seed.zero_valid)
  have "fold_add (vec_monoid Out n) (map mk_out ks) = point_vec ?D idx msg" (is "?l = ?r")
  proof (rule nth_equalityI)
    show "length ?l = length ?r" using out.length_fold_vec[OF outs] by (simp add: point_vec_def)
    fix j
    assume "j < length ?l"
    then have j: "j < n" using out.length_fold_vec[OF outs] by simp
    show "?l ! j = ?r ! j"
      using multi_key_sum_nth[OF ks(3) m ks(5) j] ks(4,6) j idx msg m neg unmask
      by (auto simp: multi_key_point_def point_vec_def null_output pow_zero pow_one expand_zero expand_valid
          out.add_zero out.zero_valid out.add_assoc)
  qed
  then show "\<exists>ks r'. dpf_gen ?D msg idx r = Some (ks, r') \<and> length ks = dpf_keys ?D \<and> list_all mk_valid ks
      \<and> fold_add (vec_monoid Out (dpf_points ?D)) (map mk_out ks) = point_vec ?D idx msg"
    using ks by simp
next
  fix r
  let ?D = "multi_key_dpf_ops F S pow D"
  obtain ks r' m where ks: "multi_key_gen_empty S D r = Some (ks, r')" "length ks = keys" "list_all mk_valid ks"
      "\<And>k. k \<in> set ks \<Longrightarrow> mk_encoded_msg k = m" "validO m" "multi_key_zero F n ks"
    using multi_key_gen_empty_spec by blast
  have outs: "list_all (vec_valid validO n) (map mk_out ks)" using ks(3) by (auto simp: list_all_iff mk_out_valid)
  have "fold_add (vec_monoid Out n) (map mk_out ks) = null_vec ?D" (is "?l = ?r")
  proof (rule nth_equalityI)
    show "length ?l = length ?r" using out.length_fold_vec[OF outs] by (simp add: null_vec_def)
    fix j
    assume "j < length ?l"
    then have j: "j < n" using out.length_fold_vec[OF outs] by simp
    show "?l ! j = ?r ! j"
      using multi_key_sum_nth[OF ks(3,5,4) j] ks(5,6) j
      by (auto simp: multi_key_zero_def null_vec_def null_output pow_zero expand_zero out.add_zero out.zero_valid)
  qed
  then show "\<exists>ks r'. dpf_gen_empty ?D r = Some (ks, r') \<and> length ks = dpf_keys ?D \<and> list_all mk_valid ks
      \<and> fold_add (vec_monoid Out (dpf_points ?D)) (map mk_out ks) = null_vec ?D"
    using ks by simp
qed (use keys2 in \<open>simp_all add: null_output multi_key_eval_eq mk_out_valid multi_key_combine_eq\<close>)

end

sublocale multi_key_setup \<subseteq> multi_key: linear_dpf Out validO "multi_key_dpf_ops F S pow D" mk_valid mk_out
  by (rule multi_key_linear)

text \<open>The group generator over the field of the crate's tests.\<close>

interpretation ints_mod_p_dpf: multi_key_setup
  "vec_monoid (intmod_exp 11) (length ks)" "vec_valid (intmod_valid 11) (length ks)" "intmod_field 11" "intmod_valid 11"
  "group_prg_ops (intmod_exp 11) (intmod_field 11) (\<lambda>r. (intmod_reduce 11 (draw r), step r))
     (group_prg_new (map (intmod_reduce 11) ks))"
  "ev_pow (intmod_exp 11)" "group_prg_eval (intmod_exp 11) (group_prg_new (map (intmod_reduce 11) ks))"
  "\<lambda>r. (intmod_reduce 11 (draw r), step r)" "Suc points" "Suc (Suc keys)"
  for draw :: "'r \<Rightarrow> nat" and step :: "'r \<Rightarrow> 'r" and ks :: "nat list" and points keys :: nat
proof (intro multi_key_setup.intro multi_key_setup_axioms.intro)
  show "sampler_in (intmod_valid 11) (\<lambda>r. (intmod_reduce 11 (draw r), step r))"
    by (simp add: sampler_in_def intmod_reduce_valid)
qed (use ints_mod_p_prg.group_prg_seed_homomorphic[of ks draw step] in \<open>simp_all add: group_prg_len_def group_prg_new_def\<close>)

end
