(* ===== verification/Vdpf.thy ===== *)
theory Vdpf
  imports Dpf_TwoKey Dpf_MultiKey
begin

text \<open>
  Verifiable point functions: the trait of \<open>spectrum_primitives/src/vdpf/definition.rs\<close>, its contract
  (\<open>check_vdpf!\<close>), the pass-through wrapper of \<open>vdpf/field.rs\<close> and the insecure construction of
  \<open>vdpf/insecure.rs\<close>. A client proves to the servers that its keys write to a channel whose
  access key it knows, or to none.
\<close>

record ('r, 'k, 'm, 'a, 'p, 't) vdpf_ops = "('r, 'k, 'm) dpf_ops" +
  vdpf_new_access_key :: "'r \<Rightarrow> 'a \<times> 'r"
  vdpf_new_access_keys :: "'r \<Rightarrow> 'a list \<times> 'r"
  vdpf_gen_proofs :: "'a \<Rightarrow> nat \<Rightarrow> 'k list \<Rightarrow> 'r \<Rightarrow> ('p list \<times> 'r) option"
  vdpf_gen_proofs_noop :: "'r \<Rightarrow> ('p list \<times> 'r) option"
  vdpf_gen_audit :: "'a list \<Rightarrow> 'k \<Rightarrow> 'p \<Rightarrow> 't option"
  vdpf_check_audit :: "'t list \<Rightarrow> bool option"

text \<open>All servers audit their key and share, and the tokens are checked together.\<close>

definition vdpf_audit ::
    "('r, 'k, 'm, 'a, 'p, 't, 'x) vdpf_ops_scheme \<Rightarrow> 'a list \<Rightarrow> 'k list \<Rightarrow> 'p list \<Rightarrow> bool option" where
  "vdpf_audit V auth_keys ks ps =
     do { tokens \<leftarrow> try_map (\<lambda>(k, p). vdpf_gen_audit V auth_keys k p) (zip ks ps);
          vdpf_check_audit V tokens }"

locale vdpf_contract = dpf_contract V valid
  for V :: "('r, 'k, 'm, 'a, 'p, 't, 'x) vdpf_ops_scheme" and valid :: "'m \<Rightarrow> bool" +
  fixes validA :: "'a \<Rightarrow> bool"
  assumes access_keys_valid:
      "vdpf_new_access_keys V r = (auths, r') \<Longrightarrow> vec_valid validA (dpf_points V) auths"
    and proofs_complete: "valid msg \<Longrightarrow> idx < dpf_points V \<Longrightarrow> vec_valid validA (dpf_points V) auths \<Longrightarrow>
      dpf_gen V msg idx r = Some (ks, r') \<Longrightarrow>
      \<exists>ps s'. vdpf_gen_proofs V (auths ! idx) idx ks s = Some (ps, s') \<and> length ps = dpf_keys V
        \<and> vdpf_audit V auths ks ps = Some True"
    and noop_complete: "vec_valid validA (dpf_points V) auths \<Longrightarrow>
      dpf_gen_empty V r = Some (ks, r') \<Longrightarrow>
      \<exists>ps s'. vdpf_gen_proofs_noop V s = Some (ps, s') \<and> length ps = dpf_keys V
        \<and> vdpf_audit V auths ks ps = Some True"
begin

text \<open>The whole run of an honest broadcaster: keys, proofs, audit and delivery.\<close>

lemma broadcast_run:
  assumes "valid msg" "idx < dpf_points V" "vec_valid validA (dpf_points V) auths"
  shows "\<exists>ks r1 ps r2. dpf_gen V msg idx r = Some (ks, r1)
    \<and> vdpf_gen_proofs V (auths ! idx) idx ks r1 = Some (ps, r2)
    \<and> length ks = dpf_keys V \<and> length ps = dpf_keys V
    \<and> vdpf_audit V auths ks ps = Some True \<and> dpf_run V ks = Some (point_vec V idx msg)"
proof -
  obtain ks r1 where ks: "dpf_gen V msg idx r = Some (ks, r1)" "length ks = dpf_keys V"
      "dpf_run V ks = Some (point_vec V idx msg)"
    using gen_correct assms by blast
  obtain ps r2 where "vdpf_gen_proofs V (auths ! idx) idx ks r1 = Some (ps, r2)" "length ps = dpf_keys V"
      "vdpf_audit V auths ks ps = Some True"
    using proofs_complete[OF assms ks(1)] by blast
  with ks show ?thesis by blast
qed

lemma cover_run:
  assumes "vec_valid validA (dpf_points V) auths"
  shows "\<exists>ks r1 ps r2. dpf_gen_empty V r = Some (ks, r1) \<and> vdpf_gen_proofs_noop V r1 = Some (ps, r2)
    \<and> length ks = dpf_keys V \<and> length ps = dpf_keys V
    \<and> vdpf_audit V auths ks ps = Some True \<and> dpf_run V ks = Some (null_vec V)"
proof -
  obtain ks r1 where ks: "dpf_gen_empty V r = Some (ks, r1)" "length ks = dpf_keys V"
      "dpf_run V ks = Some (null_vec V)"
    using gen_empty_correct by blast
  obtain ps r2 where "vdpf_gen_proofs_noop V r1 = Some (ps, r2)" "length ps = dpf_keys V"
      "vdpf_audit V auths ks ps = Some True"
    using noop_complete[OF assms ks(1)] by blast
  with ks show ?thesis by blast
qed

end

section \<open>The field wrapper\<close>

text \<open>\<open>struct FieldVdpf<D, F>\<close> holds a point function and forwards every operation of \<open>Dpf\<close> to it.\<close>

record ('r, 'k, 'm) field_vdpf =
  fv_dpf :: "('r, 'k, 'm) dpf_ops"

definition field_vdpf_new :: "('r, 'k, 'm) dpf_ops \<Rightarrow> ('r, 'k, 'm) field_vdpf" where
  "field_vdpf_new dpf = \<lparr> fv_dpf = dpf \<rparr>"

definition field_vdpf_dpf_ops :: "('r, 'k, 'm) field_vdpf \<Rightarrow> ('r, 'k, 'm) dpf_ops" where
  "field_vdpf_dpf_ops V =
     \<lparr> dpf_points = dpf_points (fv_dpf V),
       dpf_keys = dpf_keys (fv_dpf V),
       dpf_null_message = dpf_null_message (fv_dpf V),
       dpf_msg_size = dpf_msg_size (fv_dpf V),
       dpf_gen = (\<lambda>msg idx. dpf_gen (fv_dpf V) msg idx),
       dpf_gen_empty = dpf_gen_empty (fv_dpf V),
       dpf_eval = (\<lambda>key. dpf_eval (fv_dpf V) key),
       dpf_combine = (\<lambda>parts. dpf_combine (fv_dpf V) parts) \<rparr>"

lemma field_vdpf_dpf_ops_eq [simp]: "field_vdpf_dpf_ops (field_vdpf_new D) = D"
  by (simp add: field_vdpf_dpf_ops_def field_vdpf_new_def)

text \<open>\<open>impl Vdpf\<close> for a type that implements \<open>Dpf\<close>: the dictionary with the operations added.\<close>

definition vdpf_of_dpf ::
    "('r, 'k, 'm) dpf_ops \<Rightarrow> ('r \<Rightarrow> 'a \<times> 'r) \<Rightarrow> ('r \<Rightarrow> 'a list \<times> 'r)
     \<Rightarrow> ('a \<Rightarrow> nat \<Rightarrow> 'k list \<Rightarrow> 'r \<Rightarrow> ('p list \<times> 'r) option) \<Rightarrow> ('r \<Rightarrow> ('p list \<times> 'r) option)
     \<Rightarrow> ('a list \<Rightarrow> 'k \<Rightarrow> 'p \<Rightarrow> 't option) \<Rightarrow> ('t list \<Rightarrow> bool option) \<Rightarrow> ('r, 'k, 'm, 'a, 'p, 't) vdpf_ops" where
  "vdpf_of_dpf D new_access_key new_access_keys gen_proofs gen_proofs_noop gen_audit check_audit =
     \<lparr> dpf_points = dpf_points D, dpf_keys = dpf_keys D, dpf_null_message = dpf_null_message D,
       dpf_msg_size = dpf_msg_size D, dpf_gen = dpf_gen D, dpf_gen_empty = dpf_gen_empty D,
       dpf_eval = dpf_eval D, dpf_combine = dpf_combine D,
       vdpf_new_access_key = new_access_key, vdpf_new_access_keys = new_access_keys,
       vdpf_gen_proofs = gen_proofs, vdpf_gen_proofs_noop = gen_proofs_noop,
       vdpf_gen_audit = gen_audit, vdpf_check_audit = check_audit \<rparr>"

lemma vdpf_of_dpf_sel [simp]:
  "dpf_points (vdpf_of_dpf D a as p pn g c) = dpf_points D" "dpf_keys (vdpf_of_dpf D a as p pn g c) = dpf_keys D"
  "dpf_null_message (vdpf_of_dpf D a as p pn g c) = dpf_null_message D"
  "dpf_msg_size (vdpf_of_dpf D a as p pn g c) = dpf_msg_size D"
  "dpf_gen (vdpf_of_dpf D a as p pn g c) = dpf_gen D" "dpf_gen_empty (vdpf_of_dpf D a as p pn g c) = dpf_gen_empty D"
  "dpf_eval (vdpf_of_dpf D a as p pn g c) = dpf_eval D" "dpf_combine (vdpf_of_dpf D a as p pn g c) = dpf_combine D"
  "vdpf_new_access_key (vdpf_of_dpf D a as p pn g c) = a" "vdpf_new_access_keys (vdpf_of_dpf D a as p pn g c) = as"
  "vdpf_gen_proofs (vdpf_of_dpf D a as p pn g c) = p" "vdpf_gen_proofs_noop (vdpf_of_dpf D a as p pn g c) = pn"
  "vdpf_gen_audit (vdpf_of_dpf D a as p pn g c) = g" "vdpf_check_audit (vdpf_of_dpf D a as p pn g c) = c"
  by (simp_all add: vdpf_of_dpf_def)

lemma vdpf_of_dpf_run [simp]:
  "dpf_run (vdpf_of_dpf D a as p pn g c) = dpf_run D"
  "point_vec (vdpf_of_dpf D a as p pn g c) = point_vec D" "null_vec (vdpf_of_dpf D a as p pn g c) = null_vec D"
  by (simp_all add: fun_eq_iff dpf_run_def point_vec_def null_vec_def)

lemma vdpf_of_dpf_contract: "dpf_contract D valid \<Longrightarrow> dpf_contract (vdpf_of_dpf D a as p pn g c) valid"
  by (simp add: dpf_contract_def)

section \<open>The insecure construction\<close>

definition insecure_gen_proofs :: "bool \<Rightarrow> nat \<Rightarrow> ('m \<times> nat) option list \<Rightarrow> bool list" where
  "insecure_gen_proofs auth_key point_idx ks = map (\<lambda>_. auth_key) ks"

definition insecure_gen_proofs_noop :: "insecure_dpf \<Rightarrow> bool list" where
  "insecure_gen_proofs_noop D = replicate (in_keys D) False"

definition insecure_gen_audit :: "bool list \<Rightarrow> ('m \<times> nat) option \<Rightarrow> bool \<Rightarrow> bool" where
  "insecure_gen_audit auth_keys dpf_key proof_share \<longleftrightarrow> proof_share \<or> dpf_key = None"

definition insecure_check_audit :: "bool list \<Rightarrow> bool" where
  "insecure_check_audit tokens \<longleftrightarrow> list_all (\<lambda>x. x) tokens"

definition insecure_vdpf_ops ::
    "'m \<Rightarrow> insecure_dpf \<Rightarrow> ('r, ('m \<times> nat) option, 'm, bool, bool, bool) vdpf_ops" where
  "insecure_vdpf_ops dflt D =
     vdpf_of_dpf (insecure_dpf_ops dflt D)
       (\<lambda>r. (True, r))
       (\<lambda>r. (replicate (in_points D) True, r))
       (\<lambda>a idx ks r. Some (insecure_gen_proofs a idx ks, r))
       (\<lambda>r. Some (insecure_gen_proofs_noop D, r))
       (\<lambda>as k p. Some (insecure_gen_audit as k p))
       (\<lambda>ts. Some (insecure_check_audit ts))"

text \<open>Only \<open>True\<close> is a valid access key.\<close>

lemma insecure_gen_shape:
  "insecure_gen D msg idx = Some ks \<Longrightarrow> ks = replicate (in_keys D - 1) None @ [Some (msg, idx)] \<and> 0 < in_keys D"
  by (auto simp: insecure_gen_def bind_eq_Some_conv)

lemma insecure_audit_gen:
  assumes "insecure_gen D msg idx = Some ks"
  shows "vdpf_audit (insecure_vdpf_ops dflt D) auths ks (insecure_gen_proofs a idx ks) = Some a"
  using insecure_gen_shape[OF assms]
  by (auto simp: vdpf_audit_def insecure_vdpf_ops_def insecure_gen_proofs_def zip_map2 zip_same_conv_map
      insecure_gen_audit_def insecure_check_audit_def list_all_iff)

lemma insecure_vdpf_contract:
  assumes "0 < in_keys D"
  shows "vdpf_contract (insecure_vdpf_ops dflt D :: ('r, ('m \<times> nat) option, 'm, bool, bool, bool) vdpf_ops) (\<lambda>_. True) (\<lambda>a. a)"
proof (intro vdpf_contract.intro vdpf_contract_axioms.intro)
  show "dpf_contract (insecure_vdpf_ops dflt D) (\<lambda>_. True)"
    unfolding insecure_vdpf_ops_def by (rule vdpf_of_dpf_contract[OF insecure_contract[OF assms]])
next
  fix msg idx auths r ks r' s
  assume *: "idx < dpf_points (insecure_vdpf_ops dflt D)" "vec_valid (\<lambda>a. a) (dpf_points (insecure_vdpf_ops dflt D)) auths"
    "dpf_gen (insecure_vdpf_ops dflt D) msg idx r = Some (ks, r')"
  then have ks: "insecure_gen D msg idx = Some ks"
    by (auto simp: insecure_vdpf_ops_def insecure_dpf_ops_def)
  have "auths ! idx" using *(1,2) by (simp add: insecure_vdpf_ops_def vec_valid_def list_all_length)
  then show "\<exists>ps s'. vdpf_gen_proofs (insecure_vdpf_ops dflt D) (auths ! idx) idx ks s = Some (ps, s')
      \<and> length ps = dpf_keys (insecure_vdpf_ops dflt D)
      \<and> vdpf_audit (insecure_vdpf_ops dflt D) auths ks ps = Some True"
    using insecure_audit_gen[OF ks, of dflt auths "auths ! idx"] insecure_gen_shape[OF ks]
    by (simp add: insecure_vdpf_ops_def) (simp add: insecure_gen_proofs_def)
next
  fix auths :: "bool list" and r s :: 'r and ks :: "('m \<times> nat) option list" and r' :: 'r
  assume "dpf_gen_empty (insecure_vdpf_ops dflt D) r = Some (ks, r')"
  then have "ks = replicate (in_keys D) None" by (simp add: insecure_vdpf_ops_def insecure_dpf_ops_def insecure_gen_empty_def)
  then show "\<exists>ps s'. vdpf_gen_proofs_noop (insecure_vdpf_ops dflt D) s = Some (ps, s')
      \<and> length ps = dpf_keys (insecure_vdpf_ops dflt D)
      \<and> vdpf_audit (insecure_vdpf_ops dflt D) auths ks ps = Some True"
    by (auto simp: vdpf_audit_def insecure_vdpf_ops_def insecure_gen_proofs_noop_def
        insecure_gen_audit_def insecure_check_audit_def list_all_iff dest: set_zip_leftD)
qed (auto simp: insecure_vdpf_ops_def vec_valid_def)

interpretation insecure_vdpf: vdpf_contract "insecure_vdpf_ops dflt (insecure_new points (Suc keys))" "\<lambda>_. True" "\<lambda>a. a"
  for dflt :: 'm and points keys :: nat
  by (rule insecure_vdpf_contract) (simp add: insecure_new_def)

end
