(* ===== verification/Vdpf_TwoKey.thy ===== *)
theory Vdpf_TwoKey
  imports Vdpf
begin

text \<open>
  \<open>spectrum_primitives/src/vdpf/two_key.rs\<close>: verification of the two-key point function with access
  keys in a field \<open>F\<close>. Each server forms the inner products of its bits and of its seeds with the
  access keys, adds its proof share, and hashes the masked message; the tokens of the two servers have
  to be equal.

  The seed type converts to the field with \<open>to_field\<close> (\<open>P::Seed: TryInto<F>\<close>), the message to bytes
  with \<open>as_ref\<close>.
\<close>

record 's proof_share =
  ps_seed :: 's
  ps_bit :: 's

record 's token =
  tok_seed :: 's
  tok_bit :: 's
  tok_data :: bytes

definition proof_share_new :: "'s \<Rightarrow> 's \<Rightarrow> 's proof_share" where
  "proof_share_new seed b = \<lparr> ps_seed = seed, ps_bit = b \<rparr>"

definition token_new :: "'s \<Rightarrow> 's \<Rightarrow> bytes \<Rightarrow> 's token" where
  "token_new seed b data = \<lparr> tok_seed = seed, tok_bit = b, tok_data = data \<rparr>"

definition proof_share_from_token :: "'s token \<Rightarrow> 's proof_share" where
  "proof_share_from_token t = \<lparr> ps_seed = tok_seed t, ps_bit = tok_bit t \<rparr>"

text \<open>The hash of the masked message: long ones are hashed in parallel.\<close>

definition message_hash :: "'h hasher_ops \<Rightarrow> bytes \<Rightarrow> bytes" where
  "message_hash H input =
     h_finalize H (if length input \<ge> 125000 then h_update_with_join H (h_new H) input
                   else h_update H (h_new H) input)"

definition two_key_gen_proofs ::
    "('f, 'y) field_ops_scheme \<Rightarrow> ('r, 'f) sampler \<Rightarrow> ('s \<Rightarrow> 'e + 'f) \<Rightarrow> 'f \<Rightarrow> nat \<Rightarrow> ('m, 's) two_key list \<Rightarrow> 'r
     \<Rightarrow> ('f proof_share list \<times> 'r) option" where
  "two_key_gen_proofs F sample to_field auth_key idx ks r =
     do { rust_assert (length ks = 2);
          let (bit_a, r1) = sample r;
          key0 \<leftarrow> vec_get ks 0;
          bit0 \<leftarrow> vec_get (tk_bits key0) idx;
          let bit_b = (if bit0 then m_add F bit_a auth_key else g_sub F bit_a auth_key);
          let (seed, r2) = sample r1;
          key1 \<leftarrow> vec_get ks 1;
          seed1 \<leftarrow> vec_get (tk_seeds key1) idx;
          f1 \<leftarrow> result_unwrap (to_field seed1);
          let seed_a = m_add F seed (f_mul F f1 auth_key);
          seed0 \<leftarrow> vec_get (tk_seeds key0) idx;
          f0 \<leftarrow> result_unwrap (to_field seed0);
          let seed_b = m_add F seed (f_mul F f0 auth_key);
          Some ([proof_share_new seed_a bit_a, proof_share_new seed_b bit_b], r2) }"

definition two_key_gen_proofs_noop :: "('r, 'f) sampler \<Rightarrow> 'r \<Rightarrow> 'f proof_share list \<times> 'r" where
  "two_key_gen_proofs_noop sample r =
     (let (seed, r1) = sample r; (b, r2) = sample r1
      in (replicate 2 (proof_share_new seed b), r2))"

definition two_key_gen_audit ::
    "('f, 'y) field_ops_scheme \<Rightarrow> ('s \<Rightarrow> 'e + 'f) \<Rightarrow> 'h hasher_ops \<Rightarrow> ('m \<Rightarrow> bytes) \<Rightarrow> 'f list \<Rightarrow> ('m, 's) two_key
     \<Rightarrow> 'f proof_share \<Rightarrow> 'f token option" where
  "two_key_gen_audit F to_field H as_ref auth_keys dpf_key proof_share =
     do { rust_assert (length auth_keys = length (tk_bits dpf_key));
          rust_assert (length auth_keys = length (tk_seeds dpf_key));
          let bit_check = m_add F
            (foldl (m_add F) (m_zero F) (map2 (\<lambda>b key. if b then key else m_zero F) (tk_bits dpf_key) auth_keys))
            (ps_bit proof_share);
          seeds \<leftarrow> try_map (\<lambda>seed. result_unwrap (to_field seed)) (tk_seeds dpf_key);
          let seed_check = m_add F
            (foldl (m_add F) (m_zero F) (map2 (\<lambda>seed key. f_mul F seed key) seeds auth_keys))
            (ps_seed proof_share);
          let data = message_hash H (as_ref (tk_encoded_msg dpf_key));
          Some (token_new seed_check bit_check data) }"

definition two_key_check_audit :: "'f token list \<Rightarrow> bool option" where
  "two_key_check_audit tokens =
     do { rust_assert (length tokens = 2);
          t0 \<leftarrow> vec_get tokens 0; t1 \<leftarrow> vec_get tokens 1;
          Some (t0 = t1) }"

text \<open>\<open>impl Vdpf for FieldVdpf<TwoKeyDpf<P>, F>\<close>.\<close>

definition two_key_vdpf_ops ::
    "('f, 'y) field_ops_scheme \<Rightarrow> ('r, 'f) sampler \<Rightarrow> ('s \<Rightarrow> 'e + 'f) \<Rightarrow> 'h hasher_ops \<Rightarrow> ('m \<Rightarrow> bytes)
     \<Rightarrow> 'm xor_ops \<Rightarrow> ('r, bool) sampler \<Rightarrow> ('r, 's, 'm) two_key_dpf
     \<Rightarrow> ('r, ('m, 's) two_key, 'm, 'f, 'f proof_share, 'f token) vdpf_ops" where
  "two_key_vdpf_ops F sample to_field H as_ref X gen_bool D =
     vdpf_of_dpf (field_vdpf_dpf_ops (field_vdpf_new (two_key_dpf_ops X gen_bool D)))
       sample
       (repeat_with_take sample (tk_points D))
       (two_key_gen_proofs F sample to_field)
       (\<lambda>r. Some (two_key_gen_proofs_noop sample r))
       (two_key_gen_audit F to_field H as_ref)
       two_key_check_audit"

section \<open>What the audit decides\<close>

text \<open>The two inner products of a server.\<close>

definition dot_bits :: "('f, 'y) monoid_ops_scheme \<Rightarrow> bool list \<Rightarrow> 'f list \<Rightarrow> 'f" where
  "dot_bits F bs ks = fold_add F (map2 (\<lambda>b k. if b then k else m_zero F) bs ks)"

definition dot :: "('f, 'y) field_ops_scheme \<Rightarrow> 'f list \<Rightarrow> 'f list \<Rightarrow> 'f" where
  "dot F xs ks = fold_add F (map2 (f_mul F) xs ks)"

context comm_ring_laws
begin

lemma dot_bits_valid: "list_all valid ks \<Longrightarrow> valid (dot_bits M bs ks)"
  by (simp add: dot_bits_def fold_add_valid list_all_length zero_valid)

lemma dot_valid: "list_all valid xs \<Longrightarrow> list_all valid ks \<Longrightarrow> valid (dot M xs ks)"
  by (simp add: dot_def fold_add_valid list_all_length mul_valid)

lemma dot_bits_flip:
  assumes "length bs = length ks" "list_all valid ks" "i < length ks"
  shows "m_add M (dot_bits M (bs[i := \<not> bs ! i]) ks) (if bs ! i then ks ! i else m_zero M)
    = m_add M (dot_bits M bs ks) (if bs ! i then m_zero M else ks ! i)"
proof -
  let ?xs = "map2 (\<lambda>b k. if b then k else m_zero M) bs ks"
  have "list_all valid ?xs"
    using assms by (simp add: zero_valid list_all_length)
  moreover have "valid (if \<not> bs ! i then ks ! i else m_zero M)"
    using assms by (simp add: zero_valid list_all_length)
  ultimately show ?thesis
    using fold_add_swap[of i ?xs "if \<not> bs ! i then ks ! i else m_zero M"] assms
    by (simp add: dot_bits_def map2_update_left)
qed

lemma dot_update:
  assumes "length xs = length ks" "list_all valid xs" "list_all valid ks" "i < length ks" "valid x"
  shows "m_add M (dot M (xs[i := x]) ks) (f_mul M (xs ! i) (ks ! i)) = m_add M (dot M xs ks) (f_mul M x (ks ! i))"
proof -
  let ?xs = "map2 (f_mul M) xs ks"
  have "list_all valid ?xs" using assms by (simp add: mul_valid list_all_length)
  moreover have "valid (f_mul M x (ks ! i))" using assms by (simp add: mul_valid list_all_length)
  ultimately show ?thesis
    using fold_add_swap[of i ?xs "f_mul M x (ks ! i)"] assms by (simp add: dot_def map2_update_left)
qed

text \<open>The comparison of the bit checks: equal exactly for the right access key.\<close>

lemma bit_checks_agree:
  assumes bs: "length bs = length ks" "list_all valid ks" "i < length ks" and a: "valid a" "valid p"
  shows "m_add M (dot_bits M bs ks) p
      = m_add M (dot_bits M (bs[i := \<not> bs ! i]) ks) (if bs ! i then m_add M p a else g_sub M p a)
    \<longleftrightarrow> a = ks ! i"
proof -
  let ?A = "dot_bits M bs ks" and ?B = "dot_bits M (bs[i := \<not> bs ! i]) ks" and ?k = "ks ! i"
  have v: "valid ?A" "valid ?B" "valid ?k"
    using bs by (auto simp: dot_bits_valid list_all_length)
  have flip: "m_add M ?B (if bs ! i then ?k else m_zero M) = m_add M ?A (if bs ! i then m_zero M else ?k)"
    using dot_bits_flip[OF bs] .
  show ?thesis
  proof (cases "bs ! i")
    case True
    then have "?A = m_add M ?B ?k" using flip v by (simp add: add_zero)
    then have "m_add M ?A p = m_add M (m_add M ?B p) ?k" using v a by (simp add: add_ac add_valid)
    moreover have "m_add M ?B (m_add M p a) = m_add M (m_add M ?B p) a" using v a by (simp add: add_assoc)
    ultimately show ?thesis using True v a by (auto simp: add_left_cancel add_valid)
  next
    case False
    then have B: "?B = m_add M ?A ?k" using flip v by (simp add: add_zero)
    have "m_add M ?B (g_sub M p a) = m_add M (m_add M ?A (g_sub M p a)) ?k"
      using v a by (simp add: B add_ac add_valid sub_valid)
    moreover have "m_add M ?A p = m_add M (m_add M ?A (g_sub M p a)) a"
      using v a by (simp add: add_assoc sub_valid sub_add_cancel)
    ultimately show ?thesis using False v a by (auto simp: add_left_cancel add_valid sub_valid)
  qed
qed

lemma seed_checks_agree:
  assumes xs: "length xs = length ks" "list_all valid xs" "list_all valid ks" "i < length ks" "valid x"
    and p: "valid p"
  shows "m_add M (dot M xs ks) (m_add M p (f_mul M x (ks ! i)))
    = m_add M (dot M (xs[i := x]) ks) (m_add M p (f_mul M (xs ! i) (ks ! i)))"
proof -
  let ?A = "dot M xs ks" and ?B = "dot M (xs[i := x]) ks"
  have v: "valid ?A" "valid ?B" "valid (f_mul M x (ks ! i))" "valid (f_mul M (xs ! i) (ks ! i))"
    using xs list_all_nth[OF xs(2)] list_all_nth[OF xs(3)] by (simp_all add: dot_valid list_all_update mul_valid)
  have "m_add M ?A (m_add M p (f_mul M x (ks ! i))) = m_add M p (m_add M ?A (f_mul M x (ks ! i)))"
    using v p by (simp add: add_left_commute)
  also have "\<dots> = m_add M p (m_add M ?B (f_mul M (xs ! i) (ks ! i)))" using dot_update[OF xs] by simp
  finally show ?thesis using v p by (simp add: add_left_commute)
qed

end

locale two_key_vdpf_setup = xor_prg bitxor bitxor_assign null valid P validS + F: comm_ring_laws F validF
  for bitxor bitxor_assign :: "'o \<Rightarrow> 'o \<Rightarrow> 'o option" and null :: 'o and valid :: "'o \<Rightarrow> bool"
    and P :: "('r, 's, 'o) prg_ops" and validS :: "'s \<Rightarrow> bool"
    and F :: "('f, 'y) field_ops_scheme" and validF :: "'f \<Rightarrow> bool" +
  fixes sample :: "('r, 'f) sampler" and to_field :: "'s \<Rightarrow> 'e + 'f" and toF :: "'s \<Rightarrow> 'f"
    and H :: "'h hasher_ops" and as_ref :: "'o \<Rightarrow> bytes" and g :: "('r, bool) sampler" and n :: nat
  assumes sample_valid: "sampler_in validF sample"
    and to_field_eq: "validS s \<Longrightarrow> to_field s = Inr (toF s)"
    and toF_valid: "validS s \<Longrightarrow> validF (toF s)"
begin

abbreviation V :: "('r, ('o, 's) two_key, 'o, 'f, 'f proof_share, 'f token) vdpf_ops" where
  "V \<equiv> two_key_vdpf_ops F sample to_field H as_ref X g (two_key_new P n)"

lemma gen_audit_eq:
  assumes "length auths = length bits" "length auths = length seeds" "list_all validS seeds"
  shows "two_key_gen_audit F to_field H as_ref auths (two_key_key m bits seeds) p
    = Some (token_new (m_add F (dot F (map toF seeds) auths) (ps_seed p))
        (m_add F (dot_bits F bits auths) (ps_bit p)) (message_hash H (as_ref m)))"
proof -
  have "try_map (\<lambda>seed. result_unwrap (to_field seed)) seeds = Some (map toF seeds)"
    using assms(3) by (intro try_map_eq_map) (auto simp: list_all_iff to_field_eq)
  then show ?thesis
    using assms by (simp add: two_key_gen_audit_def dot_def dot_bits_def fold_add_def)
qed

lemma check_pair [simp]: "two_key_check_audit [t0, t1] = Some (t0 = t1)"
  by (simp add: two_key_check_audit_def)

text \<open>For keys that differ at \<open>idx\<close> only, the audit accepts exactly the access key of \<open>idx\<close>.\<close>

lemma audit_pair:
  assumes bits: "length bits = n" and seeds: "length seeds = n" "list_all validS seeds" "validS fresh"
    and idx: "idx < n" and auths: "vec_valid validF n auths" and a: "validF a"
    and ks: "ks = [two_key_key m bits seeds, two_key_key m (bits[idx := \<not> bits ! idx]) (seeds[idx := fresh])]"
  shows "\<exists>ps r'. two_key_gen_proofs F sample to_field a idx ks r = Some (ps, r') \<and> length ps = 2
    \<and> vdpf_audit V auths ks ps = Some (a = auths ! idx)"
proof -
  obtain p r1 where p: "sample r = (p, r1)" by fastforce
  obtain q r2 where q: "sample r1 = (q, r2)" by fastforce
  have pq: "validF p" "validF q" using sample_valid p q by (auto dest: sampler_inD)
  have seed: "validS (seeds ! idx)" using seeds idx by (simp add: list_all_length)
  let ?ps = "[proof_share_new (m_add F q (f_mul F (toF fresh) a)) p,
     proof_share_new (m_add F q (f_mul F (toF (seeds ! idx)) a)) (if bits ! idx then m_add F p a else g_sub F p a)]"
  have gen: "two_key_gen_proofs F sample to_field a idx ks r = Some (?ps, r2)"
    using bits seeds idx seed by (simp add: two_key_gen_proofs_def ks p q to_field_eq)
  have auths': "length auths = n" "list_all validF auths" using auths by (simp_all add: vec_valid_def)
  have upd: "map toF (seeds[idx := fresh]) = (map toF seeds)[idx := toF fresh]"
    by (simp add: map_update)
  have bit_iff: "m_add F (dot_bits F bits auths) p
      = m_add F (dot_bits F (bits[idx := \<not> bits ! idx]) auths) (if bits ! idx then m_add F p a else g_sub F p a)
      \<longleftrightarrow> a = auths ! idx"
    using F.bit_checks_agree[of bits auths idx a p] auths' bits idx pq a by simp
  have seed_eq: "m_add F (dot F (map toF seeds) auths) (m_add F q (f_mul F (toF fresh) (auths ! idx)))
      = m_add F (dot F ((map toF seeds)[idx := toF fresh]) auths) (m_add F q (f_mul F (toF (seeds ! idx)) (auths ! idx)))"
    using F.seed_checks_agree[of "map toF seeds" auths idx "toF fresh" q] auths' seeds idx pq
    by (auto simp: list_all_iff toF_valid)
  have "vdpf_audit V auths ks ?ps = Some (a = auths ! idx)"
    using bits seeds auths' bit_iff seed_eq
    by (auto simp: vdpf_audit_def two_key_vdpf_ops_def ks gen_audit_eq list_all_update upd token_new_def
        proof_share_new_def)
  then show ?thesis using gen by auto
qed

lemma audit_twins:
  assumes "length bits = n" "length seeds = n" "list_all validS seeds" "length auths = n"
  shows "vdpf_audit V auths (replicate 2 (two_key_key m bits seeds)) (fst (two_key_gen_proofs_noop sample r)) = Some True"
  using assms
  by (simp add: vdpf_audit_def two_key_vdpf_ops_def two_key_gen_proofs_noop_def gen_audit_eq numeral_2_eq_2
      split: prod.splits)

lemma two_key_audit_exact:
  assumes gen: "two_key_gen X g (two_key_new P n) msg idx r = Some (ks, r')"
    and auths: "vec_valid validF n auths" and a: "validF a"
  shows "\<exists>ps s'. two_key_gen_proofs F sample to_field a idx ks s = Some (ps, s') \<and> length ps = 2
    \<and> vdpf_audit V auths ks ps = Some (a = auths ! idx)"
proof -
  obtain m bits seeds fresh where k: "length bits = n" "length seeds = n" "list_all validS seeds" "validS fresh" "idx < n"
    "ks = [two_key_key m bits seeds, two_key_key m (bits[idx := \<not> bits ! idx]) (seeds[idx := fresh])]"
    using gen by (rule two_key_gen_shape)
  show ?thesis using audit_pair[OF k(1-5) auths a k(6)] .
qed

lemma two_key_vdpf_contract: "vdpf_contract V valid validF"
proof (intro vdpf_contract.intro vdpf_contract_axioms.intro)
  have "dpf_contract (two_key_dpf_ops X g (two_key_new P n)) valid" by (rule two_key.linear_dpf_contract)
  then show "dpf_contract V valid" unfolding two_key_vdpf_ops_def by (simp add: vdpf_of_dpf_contract)
next
  fix r auths r'
  assume "vdpf_new_access_keys V r = (auths, r')"
  then show "vec_valid validF (dpf_points V) auths"
    using repeat_with_take_length repeat_with_take_in[OF sample_valid]
    by (fastforce simp: two_key_vdpf_ops_def vec_valid_def)
next
  fix msg idx auths r ks r' s
  assume *: "idx < dpf_points V" "vec_valid validF (dpf_points V) auths" "dpf_gen V msg idx r = Some (ks, r')"
  then have auths: "vec_valid validF n auths" "idx < n" by (simp_all add: two_key_vdpf_ops_def)
  have gen: "two_key_gen X g (two_key_new P n) msg idx r = Some (ks, r')" using *(3) by (simp add: two_key_vdpf_ops_def)
  show "\<exists>ps s'. vdpf_gen_proofs V (auths ! idx) idx ks s = Some (ps, s') \<and> length ps = dpf_keys V
      \<and> vdpf_audit V auths ks ps = Some True"
    using two_key_audit_exact[OF gen auths(1) vec_valid_nth[OF auths], of s]
    by (auto simp: two_key_vdpf_ops_def)
next
  fix auths r ks r' s
  assume *: "vec_valid validF (dpf_points V) auths" "dpf_gen_empty V r = Some (ks, r')"
  then have "two_key_gen_empty g (two_key_new P n) r = Some (ks, r')" by (simp add: two_key_vdpf_ops_def)
  then obtain m bits seeds where k: "length bits = n" "length seeds = n" "list_all validS seeds"
      "ks = replicate 2 (two_key_key m bits seeds)"
    by (rule two_key_gen_empty_shape)
  obtain ps s' where ps: "two_key_gen_proofs_noop sample s = (ps, s')" by fastforce
  have "vdpf_audit V auths ks ps = Some True"
    using audit_twins[OF k(1-3), of auths m s] * ps k(4) by (simp add: two_key_vdpf_ops_def vec_valid_def)
  moreover have "length ps = 2"
    using ps by (auto simp: two_key_gen_proofs_noop_def split: prod.splits)
  ultimately show "\<exists>ps s'. vdpf_gen_proofs_noop V s = Some (ps, s') \<and> length ps = dpf_keys V
      \<and> vdpf_audit V auths ks ps = Some True"
    using ps by (auto simp: two_key_vdpf_ops_def)
qed

end

sublocale two_key_vdpf_setup \<subseteq> vdpf: vdpf_contract V valid validF
  by (rule two_key_vdpf_contract)

end
