(* ===== verification/Vdpf_MultiKey.thy ===== *)
theory Vdpf_MultiKey
  imports Vdpf_TwoKey
begin

text \<open>
  \<open>spectrum_primitives/src/vdpf/multi_key.rs\<close>: verification of the multi-key point function over the
  group generator. The client shares a correction term; the servers' tokens have to carry one hash and
  to add up to zero.

  The records \<open>ProofShare\<close> and \<open>Token\<close> of this file have the fields of those of \<open>vdpf/two_key.rs\<close>, so
  the same records model them; \<open>ProofShare::new\<close> takes its arguments in the other order here.
\<close>

definition multi_proof_share_new :: "'s \<Rightarrow> 's \<Rightarrow> 's proof_share" where
  "multi_proof_share_new b seed = \<lparr> ps_seed = seed, ps_bit = b \<rparr>"

text \<open>\<open>impl Shareable for ProofShare<F>\<close>: the seed is shared before the bit.\<close>

definition proof_share_share ::
    "('r, 'f, 'f) share_ops \<Rightarrow> 'f proof_share \<Rightarrow> nat \<Rightarrow> 'r \<Rightarrow> ('f proof_share list \<times> 'r) option" where
  "proof_share_share S self n r =
     do { (seeds, r1) \<leftarrow> sh_share S (ps_seed self) n r;
          (bs, r2) \<leftarrow> sh_share S (ps_bit self) n r1;
          Some (map2 (\<lambda>seed b. \<lparr> ps_seed = seed, ps_bit = b \<rparr>) seeds bs, r2) }"

definition proof_share_recover :: "('r, 'f, 'f) share_ops \<Rightarrow> 'f proof_share list \<Rightarrow> 'f proof_share option" where
  "proof_share_recover S shares =
     do { b \<leftarrow> sh_recover S (map ps_bit shares);
          seed \<leftarrow> sh_recover S (map ps_seed shares);
          Some \<lparr> ps_seed = seed, ps_bit = b \<rparr> }"

definition multi_key_gen_proofs ::
    "('f, 'y) field_ops_scheme \<Rightarrow> ('r, 'f, 'f) share_ops \<Rightarrow> nat \<Rightarrow> 'f \<Rightarrow> nat \<Rightarrow> ('m, 'f) multi_key list \<Rightarrow> 'r
     \<Rightarrow> ('f proof_share list \<times> 'r) option" where
  "multi_key_gen_proofs F S keys auth_key idx ks r =
     do { seeds \<leftarrow> try_map (\<lambda>k. vec_get (mk_seeds k) idx) ks;
          let seed = foldl (m_add F) (m_zero F) seeds;
          proof_share_share S (multi_proof_share_new (g_neg F auth_key) (g_neg F (f_mul F seed auth_key))) keys r }"

definition multi_key_gen_proofs_noop ::
    "('f, 'y) field_ops_scheme \<Rightarrow> ('r, 'f, 'f) share_ops \<Rightarrow> nat \<Rightarrow> 'r \<Rightarrow> ('f proof_share list \<times> 'r) option" where
  "multi_key_gen_proofs_noop F S keys r =
     proof_share_share S (multi_proof_share_new (m_zero F) (m_zero F)) keys r"

definition multi_key_gen_audit ::
    "('f, 'y) field_ops_scheme \<Rightarrow> 'h hasher_ops \<Rightarrow> ('g \<Rightarrow> bytes) \<Rightarrow> 'f list \<Rightarrow> ('g list, 'f) multi_key
     \<Rightarrow> 'f proof_share \<Rightarrow> 'f token option" where
  "multi_key_gen_audit F H enc auth_keys dpf_key proof_share =
     do { rust_assert (length auth_keys = length (mk_bits dpf_key));
          rust_assert (length auth_keys = length (mk_seeds dpf_key));
          let bit_check = m_add F (ps_bit proof_share)
            (foldl (m_add F) (m_zero F) (map2 (\<lambda>b key. f_mul F b key) (mk_bits dpf_key) auth_keys));
          let seed_check = m_add F (ps_seed proof_share)
            (foldl (m_add F) (m_zero F) (map2 (\<lambda>seed key. f_mul F seed key) (mk_seeds dpf_key) auth_keys));
          let msg_hash = ev_hash_all H enc (mk_encoded_msg dpf_key);
          Some (token_new seed_check bit_check msg_hash) }"

text \<open>The number of distinct hashes has to be one; then the shares are recovered (which panics for
  fewer than two tokens).\<close>

definition multi_key_check_audit ::
    "('f, 'y) field_ops_scheme \<Rightarrow> ('r, 'f, 'f) share_ops \<Rightarrow> 'f token list \<Rightarrow> bool option" where
  "multi_key_check_audit F S tokens =
     (if card (set (map tok_data tokens)) \<noteq> 1 then Some False
      else do { pf \<leftarrow> proof_share_recover S (map proof_share_from_token tokens);
                Some (if ps_bit pf \<noteq> m_zero F \<or> ps_seed pf \<noteq> m_zero F then False else True) })"

text \<open>\<open>impl Vdpf for FieldVdpf<MultiKeyDpf<GroupPrg<G>>, F>\<close>.\<close>

definition multi_key_vdpf_ops ::
    "('f, 'y) field_ops_scheme \<Rightarrow> ('r, 'f) sampler \<Rightarrow> ('r, 'f, 'f) share_ops \<Rightarrow> 'h hasher_ops \<Rightarrow> ('g \<Rightarrow> bytes)
     \<Rightarrow> ('g list \<Rightarrow> 'f \<Rightarrow> 'g list) \<Rightarrow> ('r, 'f, 'g list) multi_key_dpf
     \<Rightarrow> ('r, ('g list, 'f) multi_key, 'g list, 'f, 'f proof_share, 'f token) vdpf_ops" where
  "multi_key_vdpf_ops F sample S H enc pow D =
     vdpf_of_dpf (field_vdpf_dpf_ops (field_vdpf_new (multi_key_dpf_ops F S pow D)))
       sample
       (repeat_with_take sample (mk_points D))
       (multi_key_gen_proofs F S (mk_keys D))
       (multi_key_gen_proofs_noop F S (mk_keys D))
       (multi_key_gen_audit F H enc)
       (multi_key_check_audit F S)"

section \<open>What the audit decides\<close>

context comm_ring_laws
begin

text \<open>Sharing a value that is valid, or the negation of one: the shares add up to it, in the sense
  that adding them to anything is adding it.\<close>

lemma group_share_neg:
  assumes "valid v" "2 \<le> k" "sampler_in valid sample"
  shows "\<exists>shares r'. group_share M sample (g_neg M v) k r = Some (shares, r') \<and> length shares = k
    \<and> list_all valid shares \<and> fold_add M shares = g_sub M (m_zero M) v"
proof -
  obtain vals r' where vals: "repeat_with_take sample (k - 1) r = (vals, r')" by fastforce
  then have lens: "length vals = k - 1" "list_all valid vals"
    using assms(3) by (auto dest: repeat_with_take_length repeat_with_take_in)
  let ?sum = "fold_add M vals"
  have sum: "valid ?sum" using lens(2) by (rule fold_add_valid)
  have first: "g_sub M (g_neg M v) ?sum = g_sub M (m_zero M) (m_add M v ?sum)" "valid (g_sub M (m_zero M) (m_add M v ?sum))"
    using neg_sub[OF assms(1) sum] assms(1) sum by (simp_all add: sub_valid zero_valid add_valid)
  have "m_add M (m_add M (g_sub M (m_zero M) (m_add M v ?sum)) ?sum) v = m_zero M"
    using assms(1) sum first(2) sub_add_cancel[OF zero_valid add_valid[OF assms(1) sum]]
    by (simp add: add_ac add_valid)
  then have total: "m_add M (g_sub M (m_zero M) (m_add M v ?sum)) ?sum = g_sub M (m_zero M) v"
    using assms(1) sum first(2) sub_eq_iff[of "m_zero M" v "m_add M (g_sub M (m_zero M) (m_add M v ?sum)) ?sum"]
    by (intro sym[of "g_sub M (m_zero M) v"]) (simp add: add_valid zero_valid)
  have "group_share M sample (g_neg M v) k r = Some (g_sub M (m_zero M) (m_add M v ?sum) # vals, r')"
    using assms(2) vals first(1) by (simp add: group_share_def fold_add_def)
  moreover have "fold_add M (g_sub M (m_zero M) (m_add M v ?sum) # vals) = g_sub M (m_zero M) v"
    using first(2) lens(2) total by (simp add: fold_add_Cons)
  ultimately show ?thesis using lens first(2) assms(2) by auto
qed

lemma proof_share_share_spec:
  assumes "\<And>r. \<exists>shares r'. group_share M sample (ps_seed p) k r = Some (shares, r') \<and> length shares = k
      \<and> list_all valid shares \<and> fold_add M shares = s"
    and "\<And>r. \<exists>shares r'. group_share M sample (ps_bit p) k r = Some (shares, r') \<and> length shares = k
      \<and> list_all valid shares \<and> fold_add M shares = b"
  shows "\<exists>ps r'. proof_share_share (group_shareable M sample) p k r = Some (ps, r') \<and> length ps = k
    \<and> vec_valid valid k (map ps_seed ps) \<and> vec_valid valid k (map ps_bit ps)
    \<and> fold_add M (map ps_seed ps) = s \<and> fold_add M (map ps_bit ps) = b"
proof -
  obtain ss r1 where ss: "group_share M sample (ps_seed p) k r = Some (ss, r1)" "length ss = k"
      "list_all valid ss" "fold_add M ss = s"
    using assms(1) by blast
  obtain bs r2 where bs: "group_share M sample (ps_bit p) k r1 = Some (bs, r2)" "length bs = k"
      "list_all valid bs" "fold_add M bs = b"
    using assms(2) by blast
  let ?ps = "map2 (\<lambda>seed b. \<lparr> ps_seed = seed, ps_bit = b \<rparr>) ss bs"
  have "map ps_seed ?ps = ss" "map ps_bit ?ps = bs"
    using ss(2) bs(2) by (auto intro!: nth_equalityI)
  then show ?thesis
    using ss bs by (intro exI[of _ ?ps] exI[of _ r2])
      (simp add: proof_share_share_def group_shareable_def vec_valid_def)
qed

text \<open>The inner product of the shared vectors is the sum of the servers' inner products.\<close>

lemma dot_fold:
  assumes "list_all (vec_valid valid n) xss" "vec_valid valid n ks"
  shows "fold_add M (map (\<lambda>xs. dot M xs ks) xss) = dot M (fold_add (vec_monoid M n) xss) ks"
  using assms
proof (induction xss)
  case Nil
  have "map2 (f_mul M) (replicate n (m_zero M)) ks = replicate n (m_zero M)"
    using Nil by (intro nth_equalityI) (auto simp: vec_valid_def list_all_length zero_mul)
  then show ?case by (simp add: fold_add_Nil fold_add_def[of "vec_monoid M n"] dot_def fold_add_zeros)
next
  case (Cons xs xss)
  let ?t = "fold_add (vec_monoid M n) xss"
  have t: "vec_valid valid n ?t" using Cons.prems by (simp add: vec_fold_add_valid)
  have v: "list_all valid xs" "list_all valid ks" "list_all valid ?t" "length xs = n" "length ks = n" "length ?t = n"
    using Cons.prems t by (simp_all add: vec_valid_def)
  have "map2 (f_mul M) (map2 (m_add M) xs ?t) ks = map2 (m_add M) (map2 (f_mul M) xs ks) (map2 (f_mul M) ?t ks)"
    using v by (intro nth_equalityI) (auto simp: list_all_length distrib_right)
  then have "dot M (map2 (m_add M) xs ?t) ks = m_add M (dot M xs ks) (dot M ?t ks)"
    using v by (simp add: dot_def) (intro fold_add_map2, auto simp: list_all_length mul_valid)
  moreover have "list_all valid (map (\<lambda>xs. dot M xs ks) xss)"
    using Cons.prems by (auto simp: list_all_iff dot_valid vec_valid_def)
  ultimately show ?case
    using Cons v by (simp add: vec_fold_add_Cons fold_add_Cons dot_valid)
qed

text \<open>The inner product with a vector that is zero except at \<open>i\<close>.\<close>

lemma dot_point:
  assumes "i < n" "vec_valid valid n ks" "valid c"
  shows "dot M ((replicate n (m_zero M))[i := c]) ks = f_mul M c (ks ! i)"
proof -
  have zeros: "map2 (f_mul M) (replicate n (m_zero M)) ks = replicate n (m_zero M)"
    using assms by (intro nth_equalityI) (auto simp: vec_valid_def list_all_length zero_mul)
  have c: "valid (f_mul M c (ks ! i))" using assms by (simp add: mul_valid vec_valid_def list_all_length)
  have "dot M ((replicate n (m_zero M))[i := c]) ks = fold_add M ((replicate n (m_zero M))[i := f_mul M c (ks ! i)])"
    using assms by (simp add: dot_def map2_update_left vec_valid_def zeros)
  also have "\<dots> = m_add M (fold_add M (replicate n (m_zero M))) (f_mul M c (ks ! i))"
    using fold_add_update[of i "replicate n (m_zero M)" "f_mul M c (ks ! i)"] assms c by (simp add: zero_valid zero_add)
  finally show ?thesis using c by (simp add: fold_add_zeros zero_add)
qed

end

locale multi_key_vdpf_setup = multi_key_setup Out validO F validS P pow expand sample n keys
  for Out :: "'g list monoid_ops" and validO :: "'g list \<Rightarrow> bool"
    and F :: "('s, 'y) field_ops_scheme" and validS :: "'s \<Rightarrow> bool"
    and P :: "('r, 's, 'g list) sh_prg_ops" and pow :: "'g list \<Rightarrow> 's \<Rightarrow> 'g list" and expand :: "'s \<Rightarrow> 'g list"
    and sample :: "('r, 's) sampler" and n :: nat and keys :: nat +
  fixes H :: "'h hasher_ops" and enc :: "'g \<Rightarrow> bytes"
begin

abbreviation V :: "('r, ('g list, 's) multi_key, 'g list, 's, 's proof_share, 's token) vdpf_ops" where
  "V \<equiv> multi_key_vdpf_ops F sample S H enc pow D"

definition mk_token :: "'s list \<Rightarrow> ('g list, 's) multi_key \<Rightarrow> 's proof_share \<Rightarrow> 's token" where
  "mk_token auths k p = token_new (m_add F (ps_seed p) (dot F (mk_seeds k) auths))
     (m_add F (ps_bit p) (dot F (mk_bits k) auths)) (ev_hash_all H enc (mk_encoded_msg k))"

lemma mk_audit_tokens:
  assumes "list_all (multi_key_valid validS n) ks" "length auths = n"
  shows "try_map (\<lambda>(k, p). multi_key_gen_audit F H enc auths k p) (zip ks ps) = Some (map2 (mk_token auths) ks ps)"
proof (rule try_map_eq_map)
  fix x
  assume "x \<in> set (zip ks ps)"
  then have "fst x \<in> set ks" by (metis prod.collapse set_zip_leftD)
  then have "multi_key_valid validS n (fst x)" using assms(1) by (simp add: list_all_iff)
  then show "(case x of (k, p) \<Rightarrow> multi_key_gen_audit F H enc auths k p) = Some (case x of (k, p) \<Rightarrow> mk_token auths k p)"
    using assms(2)
    by (cases x) (simp add: multi_key_gen_audit_def mk_token_def multi_key_valid_def vec_valid_def dot_def fold_add_def)
qed

text \<open>The general statement: whatever the keys and the shares, the audit accepts exactly when the
  messages have one hash, and the inner products of the shared vectors with the access keys cancel
  the shared correction terms.\<close>

lemma multi_audit_iff:
  assumes ks: "list_all (multi_key_valid validS n) ks" and len: "length ks = keys" "length ps = keys"
    and ps: "list_all validS (map ps_seed ps)" "list_all validS (map ps_bit ps)"
    and auths: "vec_valid validS n auths"
  shows "vdpf_audit V auths ks ps = Some (
      card (set (map (\<lambda>k. ev_hash_all H enc (mk_encoded_msg k)) ks)) = 1
      \<and> m_add F (fold_add F (map ps_bit ps)) (dot F (fold_add (vec_monoid F n) (map mk_bits ks)) auths) = m_zero F
      \<and> m_add F (fold_add F (map ps_seed ps)) (dot F (fold_add (vec_monoid F n) (map mk_seeds ks)) auths) = m_zero F)"
proof -
  let ?ts = "map2 (mk_token auths) ks ps"
  have v: "list_all (vec_valid validS n) (map mk_bits ks)" "list_all (vec_valid validS n) (map mk_seeds ks)"
    using ks by (auto simp: list_all_iff multi_key_valid_def)
  have dots: "list_all validS (map (\<lambda>xs. dot F xs auths) (map mk_bits ks))"
    "list_all validS (map (\<lambda>xs. dot F xs auths) (map mk_seeds ks))"
    using v auths by (auto simp: list_all_iff seed.dot_valid vec_valid_def)
  have hash: "map tok_data ?ts = map (\<lambda>k. ev_hash_all H enc (mk_encoded_msg k)) ks"
    using len by (intro nth_equalityI) (auto simp: mk_token_def token_new_def)
  have bits: "map tok_bit ?ts = map2 (m_add F) (map ps_bit ps) (map (\<lambda>xs. dot F xs auths) (map mk_bits ks))"
    and seeds: "map tok_seed ?ts = map2 (m_add F) (map ps_seed ps) (map (\<lambda>xs. dot F xs auths) (map mk_seeds ks))"
    using len by (auto intro!: nth_equalityI simp: mk_token_def token_new_def)
  have sums: "fold_add F (map tok_bit ?ts)
      = m_add F (fold_add F (map ps_bit ps)) (dot F (fold_add (vec_monoid F n) (map mk_bits ks)) auths)"
    "fold_add F (map tok_seed ?ts)
      = m_add F (fold_add F (map ps_seed ps)) (dot F (fold_add (vec_monoid F n) (map mk_seeds ks)) auths)"
    unfolding bits seeds
    using seed.fold_add_map2[of "map ps_bit ps" "map (\<lambda>xs. dot F xs auths) (map mk_bits ks)"]
      seed.fold_add_map2[of "map ps_seed ps" "map (\<lambda>xs. dot F xs auths) (map mk_seeds ks)"]
      seed.dot_fold[OF v(1) auths] seed.dot_fold[OF v(2) auths] ps dots len
    by simp_all
  have "proof_share_recover S (map proof_share_from_token ?ts)
      = Some \<lparr> ps_seed = fold_add F (map tok_seed ?ts), ps_bit = fold_add F (map tok_bit ?ts) \<rparr>"
    using keys2 len
    by (simp add: proof_share_recover_def group_shareable_def group_recover_def proof_share_from_token_def
        fold_add_def comp_def)
  then have "multi_key_check_audit F S ?ts = Some (card (set (map tok_data ?ts)) = 1
      \<and> fold_add F (map tok_bit ?ts) = m_zero F \<and> fold_add F (map tok_seed ?ts) = m_zero F)"
    by (simp add: multi_key_check_audit_def del: set_map)
  then show ?thesis
    using auths by (simp only: vdpf_audit_def multi_key_vdpf_ops_def vdpf_of_dpf_sel mk_audit_tokens[OF ks]
        vec_valid_length bind.bind_lunit hash sums)
qed

text \<open>The shared vectors of the generated keys.\<close>

lemma bit_vec_eq:
  assumes "list_all (multi_key_valid validS n) ks"
  shows "fold_add (vec_monoid F n) (map mk_bits ks) = map (bit_sum F ks) [0..<n]"
    and "fold_add (vec_monoid F n) (map mk_seeds ks) = map (seed_sum F ks) [0..<n]"
proof -
  have v: "list_all (vec_valid validS n) (map mk_bits ks)" "list_all (vec_valid validS n) (map mk_seeds ks)"
    using assms by (auto simp: list_all_iff multi_key_valid_def)
  show "fold_add (vec_monoid F n) (map mk_bits ks) = map (bit_sum F ks) [0..<n]"
    using seed.fold_vec_nth[OF v(1)] seed.length_fold_vec[OF v(1)]
    by (intro nth_equalityI) (simp_all add: bit_sum_def comp_def)
  show "fold_add (vec_monoid F n) (map mk_seeds ks) = map (seed_sum F ks) [0..<n]"
    using seed.fold_vec_nth[OF v(2)] seed.length_fold_vec[OF v(2)]
    by (intro nth_equalityI) (simp_all add: seed_sum_def comp_def)
qed

lemma one_hash:
  "ks \<noteq> [] \<Longrightarrow> (\<forall>k \<in> set ks. mk_encoded_msg k = m) \<Longrightarrow>
   card (set (map (\<lambda>k. ev_hash_all H enc (mk_encoded_msg k)) ks)) = 1"
  by (cases ks) (auto simp: image_constant_conv cong: image_cong)

lemma multi_key_audit_exact:
  assumes gen: "multi_key_gen F S D msg idx r = Some (ks, r')" and msg: "validO msg" and idx: "idx < n"
    and auths: "vec_valid validS n auths" and a: "validS a"
  shows "\<exists>ps s'. multi_key_gen_proofs F S keys a idx ks s = Some (ps, s') \<and> length ps = keys
    \<and> vdpf_audit V auths ks ps = Some (a = auths ! idx)"
proof -
  obtain seed where ks: "length ks = keys" "list_all mk_valid ks" "validS seed"
      "\<forall>k \<in> set ks. mk_encoded_msg k = m_add Out msg (expand seed)" "multi_key_point F n idx seed ks"
    using multi_key_gen_spec[OF msg idx, of r] gen by auto
  have kv: "list_all (multi_key_valid validS n) ks" using ks(2) by (auto simp: list_all_iff mk_valid_def)
  let ?t = "g_sub F (m_zero F) seed" and ?k = "auths ! idx"
  have t: "validS ?t" using ks(3) by (simp add: seed.sub_valid seed.zero_valid)
  have k: "validS ?k" using auths idx by (rule vec_valid_nth)
  have "try_map (\<lambda>k. vec_get (mk_seeds k) idx) ks = Some (map (\<lambda>k. mk_seeds k ! idx) ks)"
    using ks(2) idx by (intro try_map_eq_map) (auto simp: list_all_iff mk_valid_lens)
  moreover have "foldl (m_add F) (m_zero F) (map (\<lambda>k. mk_seeds k ! idx) ks) = ?t"
    using ks(5) idx by (simp add: multi_key_point_def seed_sum_def fold_add_def)
  ultimately have proofs: "multi_key_gen_proofs F S keys a idx ks s
      = proof_share_share S (multi_proof_share_new (g_neg F a) (g_neg F (f_mul F ?t a))) keys s"
    by (simp add: multi_key_gen_proofs_def)
  obtain ps s' where ps: "multi_key_gen_proofs F S keys a idx ks s = Some (ps, s')" "length ps = keys"
      "vec_valid validS keys (map ps_seed ps)" "vec_valid validS keys (map ps_bit ps)"
      "fold_add F (map ps_seed ps) = g_sub F (m_zero F) (f_mul F ?t a)"
      "fold_add F (map ps_bit ps) = g_sub F (m_zero F) a"
    using seed.proof_share_share_spec[of sample "multi_proof_share_new (g_neg F a) (g_neg F (f_mul F ?t a))" keys
        "g_sub F (m_zero F) (f_mul F ?t a)" "g_sub F (m_zero F) a" s]
      seed.group_share_neg[OF a keys2 sample_valid] seed.group_share_neg[OF seed.mul_valid[OF t a] keys2 sample_valid]
    unfolding proofs by (auto simp: multi_proof_share_new_def)
  have vecs: "fold_add (vec_monoid F n) (map mk_bits ks) = (replicate n (m_zero F))[idx := f_one F]"
    "fold_add (vec_monoid F n) (map mk_seeds ks) = (replicate n (m_zero F))[idx := ?t]"
    using ks(5) idx by (auto intro!: nth_equalityI simp: bit_vec_eq[OF kv] multi_key_point_def)
  have dots: "dot F ((replicate n (m_zero F))[idx := f_one F]) auths = ?k"
    "dot F ((replicate n (m_zero F))[idx := ?t]) auths = f_mul F ?t ?k"
    using seed.dot_point[OF idx auths] seed.one_valid t k by (simp_all add: seed.one_mul)
  have hash: "card (set (map (\<lambda>k. ev_hash_all H enc (mk_encoded_msg k)) ks)) = 1"
    using ks(1) keys2 by (intro one_hash[OF _ ks(4)]) auto
  have zero_iff: "m_add F (g_sub F (m_zero F) x) y = m_zero F \<longleftrightarrow> x = y" if "validS x" "validS y" for x y
  proof -
    have "m_add F (g_sub F (m_zero F) x) y = m_zero F
        \<longleftrightarrow> m_add F (g_sub F (m_zero F) x) y = m_add F (g_sub F (m_zero F) x) x"
      using that by (simp add: seed.sub_add_cancel seed.zero_valid)
    then show ?thesis using that by (auto simp: seed.add_left_cancel seed.sub_valid seed.zero_valid)
  qed
  have "vdpf_audit V auths ks ps = Some (a = ?k \<and> f_mul F ?t a = f_mul F ?t ?k)"
    using multi_audit_iff[OF kv ks(1) ps(2) _ _ auths] ps(3,4) hash zero_iff[OF a k]
      zero_iff[OF seed.mul_valid[OF t a] seed.mul_valid[OF t k]]
    by (simp add: vec_valid_def vecs dots ps(5,6))
  then show ?thesis using ps(1,2) by auto
qed

lemma multi_key_audit_noop:
  assumes gen: "multi_key_gen_empty S D r = Some (ks, r')" and auths: "vec_valid validS n auths"
  shows "\<exists>ps s'. multi_key_gen_proofs_noop F S keys s = Some (ps, s') \<and> length ps = keys
    \<and> vdpf_audit V auths ks ps = Some True"
proof -
  obtain m where ks: "length ks = keys" "list_all mk_valid ks" "\<forall>k \<in> set ks. mk_encoded_msg k = m" "multi_key_zero F n ks"
    using multi_key_gen_empty_spec[of r] gen by auto
  have kv: "list_all (multi_key_valid validS n) ks" using ks(2) by (auto simp: list_all_iff mk_valid_def)
  have share: "\<exists>shares r'. group_share F sample (m_zero F) keys r = Some (shares, r') \<and> length shares = keys
      \<and> list_all validS shares \<and> fold_add F shares = m_zero F" for r
    using seed.group_share_spec[OF seed.zero_valid keys2 sample_valid, of r] by blast
  obtain ps s' where ps: "multi_key_gen_proofs_noop F S keys s = Some (ps, s')" "length ps = keys"
      "vec_valid validS keys (map ps_seed ps)" "vec_valid validS keys (map ps_bit ps)"
      "fold_add F (map ps_seed ps) = m_zero F" "fold_add F (map ps_bit ps) = m_zero F"
    using seed.proof_share_share_spec[of sample "multi_proof_share_new (m_zero F) (m_zero F)" keys "m_zero F" "m_zero F" s] share
    unfolding multi_key_gen_proofs_noop_def by (auto simp: multi_proof_share_new_def)
  have vecs: "fold_add (vec_monoid F n) (map mk_bits ks) = replicate n (m_zero F)"
    "fold_add (vec_monoid F n) (map mk_seeds ks) = replicate n (m_zero F)"
    using ks(4) by (auto intro!: nth_equalityI simp: bit_vec_eq[OF kv] multi_key_zero_def)
  have "map2 (f_mul F) (replicate n (m_zero F)) auths = replicate n (m_zero F)"
    using auths by (intro nth_equalityI) (auto simp: vec_valid_def list_all_length seed.zero_mul)
  then have dots: "dot F (replicate n (m_zero F)) auths = m_zero F" by (simp add: dot_def seed.fold_add_zeros)
  have hash: "card (set (map (\<lambda>k. ev_hash_all H enc (mk_encoded_msg k)) ks)) = 1"
    using ks(1) keys2 by (intro one_hash[OF _ ks(3)]) auto
  have "vdpf_audit V auths ks ps = Some True"
    using multi_audit_iff[OF kv ks(1) ps(2) _ _ auths] ps(3,4) hash
    by (simp add: vec_valid_def vecs dots ps(5,6) seed.add_zero seed.zero_valid)
  then show ?thesis using ps(1,2) by auto
qed

lemma multi_key_vdpf_contract: "vdpf_contract V validO validS"
proof (intro vdpf_contract.intro vdpf_contract_axioms.intro)
  show "dpf_contract V validO"
    unfolding multi_key_vdpf_ops_def using multi_key.linear_dpf_contract by (simp add: vdpf_of_dpf_contract)
next
  fix r auths r'
  assume "vdpf_new_access_keys V r = (auths, r')"
  then show "vec_valid validS (dpf_points V) auths"
    using repeat_with_take_length repeat_with_take_in[OF sample_valid]
    by (fastforce simp: multi_key_vdpf_ops_def vec_valid_def)
next
  fix msg idx auths r ks r' s
  assume *: "validO msg" "idx < dpf_points V" "vec_valid validS (dpf_points V) auths" "dpf_gen V msg idx r = Some (ks, r')"
  then have h: "idx < n" "vec_valid validS n auths" "multi_key_gen F S D msg idx r = Some (ks, r')"
    by (simp_all add: multi_key_vdpf_ops_def)
  show "\<exists>ps s'. vdpf_gen_proofs V (auths ! idx) idx ks s = Some (ps, s') \<and> length ps = dpf_keys V
      \<and> vdpf_audit V auths ks ps = Some True"
    using multi_key_audit_exact[OF h(3) *(1) h(1,2) vec_valid_nth[OF h(2,1)], of s]
    by (simp add: multi_key_vdpf_ops_def)
next
  fix auths r ks r' s
  assume "vec_valid validS (dpf_points V) auths" "dpf_gen_empty V r = Some (ks, r')"
  then have h: "vec_valid validS n auths" "multi_key_gen_empty S D r = Some (ks, r')"
    by (simp_all add: multi_key_vdpf_ops_def)
  show "\<exists>ps s'. vdpf_gen_proofs_noop V s = Some (ps, s') \<and> length ps = dpf_keys V
      \<and> vdpf_audit V auths ks ps = Some True"
    using multi_key_audit_noop[OF h(2,1), of s] by (simp add: multi_key_vdpf_ops_def)
qed

end

sublocale multi_key_vdpf_setup \<subseteq> vdpf: vdpf_contract V validO validS
  by (rule multi_key_vdpf_contract)

interpretation ints_mod_p_vdpf: multi_key_vdpf_setup
  "vec_monoid (intmod_exp 11) (length ks)" "vec_valid (intmod_valid 11) (length ks)" "intmod_field 11" "intmod_valid 11"
  "group_prg_ops (intmod_exp 11) (intmod_field 11) (\<lambda>r. (intmod_reduce 11 (draw r), step r))
     (group_prg_new (map (intmod_reduce 11) ks))"
  "ev_pow (intmod_exp 11)" "group_prg_eval (intmod_exp 11) (group_prg_new (map (intmod_reduce 11) ks))"
  "\<lambda>r. (intmod_reduce 11 (draw r), step r)" "Suc points" "Suc (Suc keys)" H enc
  for draw :: "'r \<Rightarrow> nat" and step :: "'r \<Rightarrow> 'r" and ks :: "nat list" and points keys :: nat
    and H :: "'h hasher_ops" and enc :: "int_mod \<Rightarrow> bytes"
  by (rule multi_key_vdpf_setup.intro) (rule ints_mod_p_dpf.multi_key_setup_axioms)

end
