(* ===== verification/Jubjub.thy ===== *)
theory Jubjub
  imports Prg
begin

text \<open>
  \<open>spectrum_primitives/src/constructions/jubjub.rs\<close>: the scalars and curve points the system runs with.
  They wrap \<open>Fr\<close> and \<open>SubgroupPoint\<close> of the \<open>jubjub\<close> crate, which are dictionaries of operations here.

  The locale \<open>jubjub_crate\<close> collects what the crate documents: \<open>Fr\<close> is the integers modulo the order,
  with canonical little-endian encodings of 32 bytes that \<open>from_bytes\<close> insists on; \<open>SubgroupPoint\<close> is a
  group on which the scalars act. The wrappers inherit the laws, and the conversions from seeds,
  integers and bytes are shown to panic or fail exactly where the crate refuses an encoding.
\<close>

section \<open>The external types\<close>

record 'fr fr_ops =
  fr_zero :: 'fr
  fr_one :: 'fr
  fr_add :: "'fr \<Rightarrow> 'fr \<Rightarrow> 'fr"
  fr_sub :: "'fr \<Rightarrow> 'fr \<Rightarrow> 'fr"
  fr_neg :: "'fr \<Rightarrow> 'fr"
  fr_mul :: "'fr \<Rightarrow> 'fr \<Rightarrow> 'fr"
  fr_invert :: "'fr \<Rightarrow> 'fr option"
  fr_to_bytes :: "'fr \<Rightarrow> bytes"
  fr_from_bytes :: "bytes \<Rightarrow> 'fr option"
  fr_from_bytes_wide :: "bytes \<Rightarrow> 'fr"

record ('fr, 'sp) sp_ops =
  sp_identity :: 'sp
  sp_generator :: 'sp
  sp_add :: "'sp \<Rightarrow> 'sp \<Rightarrow> 'sp"
  sp_sub :: "'sp \<Rightarrow> 'sp \<Rightarrow> 'sp"
  sp_neg :: "'sp \<Rightarrow> 'sp"
  sp_mul :: "'sp \<Rightarrow> 'fr \<Rightarrow> 'sp"
  sp_to_bytes :: "'sp \<Rightarrow> bytes"
  sp_from_bytes :: "bytes \<Rightarrow> 'sp option"

section \<open>The order\<close>

text \<open>\<open>MODULUS\<close> and \<open>Integer::from_digits(&MODULUS, Order::LsfLe)\<close>.\<close>

definition MODULUS :: "u64 list" where
  "MODULUS = [0xd0970e5ed6f72cb7, 0xa6682093ccc81082, 0x06673b0101343b00, 0x0e7db4ea6533afa9]"

definition MODULUS_BYTES :: nat where
  "MODULUS_BYTES = 32"

definition jubjub_order :: nat where
  "jubjub_order = foldr (\<lambda>d acc. unat d + 2 ^ 64 * acc) MODULUS 0"

text \<open>Little-endian byte strings: \<open>write_digits\<close> fills the buffer and panics when the number does not
  fit.\<close>

fun le_value :: "bytes \<Rightarrow> nat" where
  "le_value [] = 0"
| "le_value (b # bs) = unat b + 256 * le_value bs"

fun le_digits :: "nat \<Rightarrow> nat \<Rightarrow> bytes" where
  "le_digits 0 v = []"
| "le_digits (Suc k) v = of_nat (v mod 256) # le_digits k (v div 256)"

definition write_digits :: "nat \<Rightarrow> nat \<Rightarrow> bytes option" where
  "write_digits len v = (if v < 256 ^ len then Some (le_digits len v) else None)"

section \<open>Scalars\<close>

datatype 'fr scalar = Scalar (scalar_inner: 'fr)

definition scalar_zero :: "'fr fr_ops \<Rightarrow> 'fr scalar" where
  "scalar_zero R = Scalar (fr_zero R)"

definition scalar_order :: nat where
  "scalar_order = jubjub_order"

definition scalar_mul_invert :: "'fr fr_ops \<Rightarrow> 'fr scalar \<Rightarrow> 'fr scalar option" where
  "scalar_mul_invert R a = map_option Scalar (fr_invert R (scalar_inner a))"

definition scalar_one :: "'fr fr_ops \<Rightarrow> 'fr scalar" where
  "scalar_one R = Scalar (fr_one R)"

definition scalar_add :: "'fr fr_ops \<Rightarrow> 'fr scalar \<Rightarrow> 'fr scalar \<Rightarrow> 'fr scalar" where
  "scalar_add R a b = Scalar (fr_add R (scalar_inner a) (scalar_inner b))"

definition scalar_neg :: "'fr fr_ops \<Rightarrow> 'fr scalar \<Rightarrow> 'fr scalar" where
  "scalar_neg R a = Scalar (fr_neg R (scalar_inner a))"

definition scalar_sub :: "'fr fr_ops \<Rightarrow> 'fr scalar \<Rightarrow> 'fr scalar \<Rightarrow> 'fr scalar" where
  "scalar_sub R a b = Scalar (fr_sub R (scalar_inner a) (scalar_inner b))"

definition scalar_mul :: "'fr fr_ops \<Rightarrow> 'fr scalar \<Rightarrow> 'fr scalar \<Rightarrow> 'fr scalar" where
  "scalar_mul R a b = Scalar (fr_mul R (scalar_inner a) (scalar_inner b))"

definition scalar_sum :: "'fr fr_ops \<Rightarrow> 'fr scalar list \<Rightarrow> 'fr scalar" where
  "scalar_sum R xs = foldl (scalar_add R) (scalar_zero R) xs"

definition scalar_field :: "'fr fr_ops \<Rightarrow> 'fr scalar field_ops" where
  "scalar_field R =
     \<lparr> m_zero = scalar_zero R, m_add = scalar_add R, g_sub = scalar_sub R, g_neg = scalar_neg R,
       g_order = scalar_order, f_mul = scalar_mul R, f_inv = scalar_mul_invert R, f_one = scalar_one R \<rparr>"

text \<open>\<open>From<&Integer>\<close>. The remainder of non-negative numbers is the usual one.\<close>

definition scalar_from_integer :: "'fr fr_ops \<Rightarrow> int \<Rightarrow> 'fr scalar option" where
  "scalar_from_integer R v =
     (let reduced = (if v < 0 then int scalar_order - ((- v) mod int scalar_order) else v mod int scalar_order)
      in do { digits \<leftarrow> write_digits MODULUS_BYTES (nat reduced);
              x \<leftarrow> fr_from_bytes R digits;
              Some (Scalar x) })"

definition scalar_to_bytes :: "'fr fr_ops \<Rightarrow> 'fr scalar \<Rightarrow> bytes" where
  "scalar_to_bytes R a = fr_to_bytes R (scalar_inner a)"

text \<open>\<open>TryFrom<Bytes>\<close> pads short strings with zeros and reduces strings of 64 bytes.\<close>

definition scalar_try_from_bytes :: "'fr fr_ops \<Rightarrow> bytes \<Rightarrow> string + 'fr scalar" where
  "scalar_try_from_bytes R b =
     (let len = bytes_len b
      in if len \<le> MODULUS_BYTES then
           (case fr_from_bytes R (b @ replicate (MODULUS_BYTES - len) 0) of
              Some x \<Rightarrow> Inr (Scalar x)
            | None \<Rightarrow> Inl ''Converting from bytes failed.'')
         else if len = 64 then Inr (Scalar (fr_from_bytes_wide R b))
         else Inl (''invalid byte length '' @ nat_to_string len))"

definition scalar_try_from_vec :: "'fr fr_ops \<Rightarrow> bytes \<Rightarrow> string + 'fr scalar" where
  "scalar_try_from_vec R v =
     (if length v \<noteq> 32 then Inl ''vec was wrong size''
      else case fr_from_bytes R v of
             Some x \<Rightarrow> Inr (Scalar x)
           | None \<Rightarrow> Inl ''converting from bytes failed'')"

definition scalar_sample :: "('r, 'fr) sampler \<Rightarrow> ('r, 'fr scalar) sampler" where
  "scalar_sample random r = (let (x, r') = random r in (Scalar x, r'))"

definition scalar_sample_many_from_seed ::
    "'fr fr_ops \<Rightarrow> 'e cipher \<Rightarrow> aes_seed \<Rightarrow> nat \<Rightarrow> 'fr scalar list option" where
  "scalar_sample_many_from_seed R encrypt seed n =
     (if n = 0 then Some []
      else do { prg \<leftarrow> aes_prg_new ((MODULUS_BYTES - 1) * n);
                rand_bytes \<leftarrow> aes_prg_eval encrypt prg seed;
                try_map (\<lambda>i. do {
                    chunk \<leftarrow> vec_slice rand_bytes (i * (MODULUS_BYTES - 1)) ((i + 1) * (MODULUS_BYTES - 1));
                    result_unwrap (scalar_try_from_bytes R (chunk @ [0])) })
                  [0..<n] })"

text \<open>\<open>impl From<AesSeed> for AuthKey\<close> in \<open>constructions/mod.rs\<close>.\<close>

definition scalar_from_aes_seed :: "'fr fr_ops \<Rightarrow> aes_seed \<Rightarrow> 'fr scalar option" where
  "scalar_from_aes_seed R s = result_unwrap (scalar_try_from_bytes R (seed_bytes s))"

section \<open>Curve points\<close>

datatype 'sp curve_point = CurvePoint (point_inner: 'sp)

definition point_generator :: "('fr, 'sp) sp_ops \<Rightarrow> 'sp curve_point" where
  "point_generator Q = CurvePoint (sp_generator Q)"

definition point_from_scalar :: "('fr, 'sp) sp_ops \<Rightarrow> 'fr scalar \<Rightarrow> 'sp curve_point" where
  "point_from_scalar Q s = CurvePoint (sp_mul Q (sp_generator Q) (scalar_inner s))"

definition point_try_from_bytes :: "('fr, 'sp) sp_ops \<Rightarrow> bytes \<Rightarrow> string + 'sp curve_point" where
  "point_try_from_bytes Q b =
     (let b' = (if length b < 32 then b @ replicate (32 - length b) 0 else b)
      in if length b' \<noteq> 32 then Inl ''bytes wrong len''
         else case sp_from_bytes Q b' of
                Some x \<Rightarrow> Inr (CurvePoint x)
              | None \<Rightarrow> Inl ''from bytes failed'')"

definition point_to_bytes :: "('fr, 'sp) sp_ops \<Rightarrow> 'sp curve_point \<Rightarrow> bytes" where
  "point_to_bytes Q p = sp_to_bytes Q (point_inner p)"

definition point_to_vec :: "('fr, 'sp) sp_ops \<Rightarrow> 'sp curve_point \<Rightarrow> bytes" where
  "point_to_vec Q p = sp_to_bytes Q (point_inner p)"

definition point_try_from_vec :: "('fr, 'sp) sp_ops \<Rightarrow> bytes \<Rightarrow> string + 'sp curve_point" where
  "point_try_from_vec Q v =
     (if length v \<noteq> 32 then Inl ''bad bytes size''
      else case sp_from_bytes Q v of
             Some x \<Rightarrow> Inr (CurvePoint x)
           | None \<Rightarrow> Inl ''bad conversion from bytes'')"

definition point_sample :: "('r, 'sp) sampler \<Rightarrow> ('r, 'sp curve_point) sampler" where
  "point_sample random r = (let (x, r') = random r in (CurvePoint x, r'))"

text \<open>\<open>todo!()\<close>.\<close>

definition point_sample_many_from_seed :: "aes_seed \<Rightarrow> nat \<Rightarrow> 'sp curve_point list option" where
  "point_sample_many_from_seed seed n = None"

definition point_zero :: "('fr, 'sp) sp_ops \<Rightarrow> 'sp curve_point" where
  "point_zero Q = CurvePoint (sp_identity Q)"

definition point_order :: nat where
  "point_order = jubjub_order"

definition point_add :: "('fr, 'sp) sp_ops \<Rightarrow> 'sp curve_point \<Rightarrow> 'sp curve_point \<Rightarrow> 'sp curve_point" where
  "point_add Q a b = CurvePoint (sp_add Q (point_inner a) (point_inner b))"

definition point_neg :: "('fr, 'sp) sp_ops \<Rightarrow> 'sp curve_point \<Rightarrow> 'sp curve_point" where
  "point_neg Q a = CurvePoint (sp_neg Q (point_inner a))"

definition point_sub :: "('fr, 'sp) sp_ops \<Rightarrow> 'sp curve_point \<Rightarrow> 'sp curve_point \<Rightarrow> 'sp curve_point" where
  "point_sub Q a b = CurvePoint (sp_sub Q (point_inner a) (point_inner b))"

definition point_sum :: "('fr, 'sp) sp_ops \<Rightarrow> 'sp curve_point list \<Rightarrow> 'sp curve_point" where
  "point_sum Q xs = foldl (point_add Q) (point_zero Q) xs"

definition point_pow :: "('fr, 'sp) sp_ops \<Rightarrow> 'sp curve_point \<Rightarrow> 'fr scalar \<Rightarrow> 'sp curve_point" where
  "point_pow Q p e = CurvePoint (sp_mul Q (point_inner p) (scalar_inner e))"

definition curve_exp :: "('fr, 'sp) sp_ops \<Rightarrow> ('sp curve_point, 'fr scalar) exp_ops" where
  "curve_exp Q =
     \<lparr> m_zero = point_zero Q, m_add = point_add Q, g_sub = point_sub Q, g_neg = point_neg Q,
       g_order = point_order, e_pow = point_pow Q \<rparr>"

lemma scalar_field_sel [simp]:
  "m_zero (scalar_field R) = scalar_zero R" "m_add (scalar_field R) = scalar_add R"
  "g_sub (scalar_field R) = scalar_sub R" "g_neg (scalar_field R) = scalar_neg R"
  "f_mul (scalar_field R) = scalar_mul R" "f_one (scalar_field R) = scalar_one R"
  by (simp_all add: scalar_field_def)

lemma curve_exp_sel [simp]:
  "m_zero (curve_exp Q) = point_zero Q" "m_add (curve_exp Q) = point_add Q"
  "g_sub (curve_exp Q) = point_sub Q" "g_neg (curve_exp Q) = point_neg Q" "e_pow (curve_exp Q) = point_pow Q"
  by (simp_all add: curve_exp_def)

section \<open>Little-endian encodings\<close>

lemma le_value_append: "le_value (a @ b) = le_value a + 256 ^ length a * le_value b"
  by (induction a) (auto simp: algebra_simps)

lemma le_value_zeros [simp]: "le_value (replicate k 0) = 0"
  by (induction k) auto

lemma le_value_bound: "le_value b < 256 ^ length b"
proof (induction b)
  case (Cons x b)
  have "unat x < 256" using unat_u8_lt[of x] .
  with Cons show ?case by simp
qed simp

lemma length_le_digits [simp]: "length (le_digits k v) = k"
  by (induction k arbitrary: v) auto

lemma le_value_digits: "v < 256 ^ k \<Longrightarrow> le_value (le_digits k v) = v"
proof (induction k arbitrary: v)
  case (Suc k)
  have "v div 256 < 256 ^ k" using Suc.prems by (simp add: less_mult_imp_div_less)
  moreover have "unat (of_nat (v mod 256) :: u8) = v mod 256" by (simp add: unat_of_nat)
  ultimately show ?case using Suc.IH by simp
qed simp

lemma jubjub_order_eq:
  "jubjub_order = 6554484396890773809930967563523245729705921265872317281365359162392183254199"
  by (simp add: jubjub_order_def MODULUS_def)

lemma jubjub_order_bounds: "256 ^ 31 < jubjub_order" "jubjub_order < 256 ^ 32"
  by (simp_all add: jubjub_order_eq)

section \<open>What the crate documents\<close>

text \<open>\<open>frv\<close> is the value of a scalar.\<close>

locale jubjub_crate =
  fixes R :: "'fr fr_ops" and Q :: "('fr, 'sp) sp_ops"
    and validR :: "'fr \<Rightarrow> bool" and frv :: "'fr \<Rightarrow> nat" and validQ :: "'sp \<Rightarrow> bool"
  assumes frv_lt: "validR x \<Longrightarrow> frv x < jubjub_order"
    and frv_inj: "validR x \<Longrightarrow> validR y \<Longrightarrow> frv x = frv y \<Longrightarrow> x = y"
    and fr_consts: "validR (fr_zero R)" "frv (fr_zero R) = 0" "validR (fr_one R)" "frv (fr_one R) = 1"
    and fr_add: "validR x \<Longrightarrow> validR y \<Longrightarrow> validR (fr_add R x y) \<and> frv (fr_add R x y) = (frv x + frv y) mod jubjub_order"
    and fr_sub: "validR x \<Longrightarrow> validR y \<Longrightarrow>
      validR (fr_sub R x y) \<and> frv (fr_sub R x y) = (frv x + (jubjub_order - frv y)) mod jubjub_order"
    and fr_neg: "validR x \<Longrightarrow> validR (fr_neg R x) \<and> frv (fr_neg R x) = (jubjub_order - frv x) mod jubjub_order"
    and fr_mul: "validR x \<Longrightarrow> validR y \<Longrightarrow> validR (fr_mul R x y) \<and> frv (fr_mul R x y) = (frv x * frv y) mod jubjub_order"
    and fr_to_bytes: "validR x \<Longrightarrow> length (fr_to_bytes R x) = 32 \<and> le_value (fr_to_bytes R x) = frv x"
    and fr_from_bytes_canonical: "length b = 32 \<Longrightarrow> le_value b < jubjub_order \<Longrightarrow>
      \<exists>x. fr_from_bytes R b = Some x \<and> validR x \<and> frv x = le_value b"
    and fr_from_bytes_refused: "length b = 32 \<Longrightarrow> jubjub_order \<le> le_value b \<Longrightarrow> fr_from_bytes R b = None"
    and sp_consts: "validQ (sp_identity Q)" "validQ (sp_generator Q)"
    and sp_closed: "validQ p \<Longrightarrow> validQ q \<Longrightarrow> validQ (sp_add Q p q) \<and> validQ (sp_sub Q p q)"
    and sp_neg: "validQ p \<Longrightarrow> validQ (sp_neg Q p) \<and> sp_neg Q p = sp_sub Q (sp_identity Q) p"
    and sp_assoc: "validQ p \<Longrightarrow> validQ q \<Longrightarrow> validQ u \<Longrightarrow> sp_add Q (sp_add Q p q) u = sp_add Q p (sp_add Q q u)"
    and sp_commute: "validQ p \<Longrightarrow> validQ q \<Longrightarrow> sp_add Q p q = sp_add Q q p"
    and sp_identity: "validQ p \<Longrightarrow> sp_add Q p (sp_identity Q) = p"
    and sp_sub_add: "validQ p \<Longrightarrow> validQ q \<Longrightarrow> sp_add Q (sp_sub Q p q) q = p"
    and sp_mul_valid: "validQ p \<Longrightarrow> validR x \<Longrightarrow> validQ (sp_mul Q p x)"
    and sp_mul_add: "validQ p \<Longrightarrow> validR x \<Longrightarrow> validR y \<Longrightarrow>
      sp_mul Q p (fr_add R x y) = sp_add Q (sp_mul Q p x) (sp_mul Q p y)"
    and sp_mul_mul: "validQ p \<Longrightarrow> validR x \<Longrightarrow> validR y \<Longrightarrow> sp_mul Q p (fr_mul R x y) = sp_mul Q (sp_mul Q p x) y"
    and sp_mul_distrib: "validQ p \<Longrightarrow> validQ q \<Longrightarrow> validR x \<Longrightarrow>
      sp_mul Q (sp_add Q p q) x = sp_add Q (sp_mul Q p x) (sp_mul Q q x)"
    and sp_mul_one: "validQ p \<Longrightarrow> sp_mul Q p (fr_one R) = p"
    and sp_bytes: "validQ p \<Longrightarrow> length (sp_to_bytes Q p) = 32 \<and> sp_from_bytes Q (sp_to_bytes Q p) = Some p"
begin

abbreviation validS :: "'fr scalar \<Rightarrow> bool" where
  "validS s \<equiv> validR (scalar_inner s)"

abbreviation validP :: "'sp curve_point \<Rightarrow> bool" where
  "validP p \<equiv> validQ (point_inner p)"

lemma order_pos: "1 < jubjub_order"
  using jubjub_order_bounds by simp

lemma frv_eqI: "validR x \<Longrightarrow> validR y \<Longrightarrow> frv x = frv y \<Longrightarrow> Scalar x = Scalar y"
  using frv_inj by blast

lemmas fr_valid = fr_consts(1,3) fr_add[THEN conjunct1] fr_sub[THEN conjunct1] fr_neg[THEN conjunct1] fr_mul[THEN conjunct1]

lemmas frv_simps = fr_consts(2,4) fr_add[THEN conjunct2] fr_sub[THEN conjunct2] fr_neg[THEN conjunct2] fr_mul[THEN conjunct2]

lemma mod_sub_cancel: "b < m \<Longrightarrow> a < m \<Longrightarrow> ((a + (m - b)) mod m + b) mod m = (a :: nat)"
  by (simp add: mod_add_left_eq add.assoc)

lemma fr_sub_add: "validR x \<Longrightarrow> validR y \<Longrightarrow> fr_add R (fr_sub R x y) y = x"
  by (rule frv_inj) (simp_all add: fr_valid frv_simps mod_sub_cancel frv_lt)

lemma fr_neg_eq: "validR x \<Longrightarrow> fr_neg R x = fr_sub R (fr_zero R) x"
  by (rule frv_inj) (simp_all add: fr_valid frv_simps)

lemma fr_add_ac:
  "validR x \<Longrightarrow> validR y \<Longrightarrow> validR z \<Longrightarrow> fr_add R (fr_add R x y) z = fr_add R x (fr_add R y z)"
  "validR x \<Longrightarrow> validR y \<Longrightarrow> fr_add R x y = fr_add R y x"
  by (rule frv_inj; simp add: fr_valid frv_simps mod_add_left_eq mod_add_right_eq ac_simps)+

lemma fr_add_zero: "validR x \<Longrightarrow> fr_add R x (fr_zero R) = x"
  by (rule frv_inj) (simp_all add: fr_valid frv_simps frv_lt)

lemma fr_mul_ac:
  "validR x \<Longrightarrow> validR y \<Longrightarrow> validR z \<Longrightarrow> fr_mul R (fr_mul R x y) z = fr_mul R x (fr_mul R y z)"
  "validR x \<Longrightarrow> validR y \<Longrightarrow> fr_mul R x y = fr_mul R y x"
  by (rule frv_inj; simp add: fr_valid frv_simps mod_mult_left_eq mod_mult_right_eq ac_simps)+

lemma fr_distrib:
  "validR x \<Longrightarrow> validR y \<Longrightarrow> validR z \<Longrightarrow> fr_mul R x (fr_add R y z) = fr_add R (fr_mul R x y) (fr_mul R x z)"
  by (rule frv_inj) (simp_all add: fr_valid frv_simps mod_mult_right_eq mod_add_eq distrib_left)

lemma fr_mul_one: "validR x \<Longrightarrow> fr_mul R x (fr_one R) = x"
  by (rule frv_inj) (simp_all add: fr_valid frv_simps frv_lt)

lemma scalar_ring: "comm_ring_laws (scalar_field R) validS"
  by (intro comm_ring_laws.intro ab_group_laws_neg_sub comm_monoid_laws.intro comm_ring_laws_axioms.intro)
    (auto simp: scalar_add_def scalar_sub_def scalar_neg_def scalar_zero_def scalar_mul_def scalar_one_def
      fr_valid fr_sub_add fr_neg_eq fr_add_ac(1) fr_add_zero fr_mul_ac(1) fr_distrib fr_mul_one
      intro: fr_add_ac(2) fr_mul_ac(2))

lemma curve_exp_laws: "exp_laws (curve_exp Q) validP (scalar_field R) validS"
proof (intro exp_laws.intro ab_group_laws_neg_sub comm_monoid_laws.intro scalar_ring exp_laws_axioms.intro)
qed (auto simp: point_add_def point_sub_def point_neg_def point_zero_def point_pow_def scalar_add_def scalar_mul_def
    scalar_one_def sp_consts sp_closed sp_neg sp_assoc sp_identity sp_sub_add sp_mul_valid sp_mul_add sp_mul_mul
    sp_mul_distrib sp_mul_one intro: sp_commute)

lemma point_from_scalar_eq: "point_from_scalar Q s = point_pow Q (point_generator Q) s"
  by (simp add: point_from_scalar_def point_pow_def point_generator_def)

section \<open>Conversions\<close>

lemma scalar_bytes_ok:
  assumes "length b \<le> 32" "le_value b < jubjub_order"
  shows "\<exists>s. scalar_try_from_bytes R b = Inr s \<and> validS s \<and> frv (scalar_inner s) = le_value b"
proof -
  have "le_value (b @ replicate (32 - length b) 0) = le_value b" by (simp add: le_value_append)
  then obtain x where "fr_from_bytes R (b @ replicate (32 - length b) 0) = Some x" "validR x" "frv x = le_value b"
    using fr_from_bytes_canonical[of "b @ replicate (32 - length b) 0"] assms by auto
  then show ?thesis using assms by (simp add: scalar_try_from_bytes_def MODULUS_BYTES_def bytes_len_def)
qed

text \<open>Sixteen bytes always encode a scalar, so an AES seed always converts to an access key.\<close>

lemma aes_seed_to_scalar:
  assumes "aes_seed_valid s"
  shows "\<exists>a. scalar_from_aes_seed R s = Some a \<and> validS a \<and> frv (scalar_inner a) = le_value (seed_bytes s)"
proof -
  have len: "length (seed_bytes s) = 16" using assms by (simp add: aes_seed_valid_def SEED_SIZE_def)
  then have "le_value (seed_bytes s) < 256 ^ 16" using le_value_bound[of "seed_bytes s"] by simp
  also have "\<dots> < jubjub_order" by (simp add: jubjub_order_eq)
  finally show ?thesis
    using scalar_bytes_ok[of "seed_bytes s"] len by (auto simp: scalar_from_aes_seed_def)
qed

text \<open>So do the chunks of 31 bytes that \<open>sample_many_from_seed\<close> cuts.\<close>

lemma scalar_sample_many_ok:
  assumes ctr: "ctr_mode encrypt" and seed: "aes_seed_valid seed"
  shows "\<exists>xs. scalar_sample_many_from_seed R encrypt seed n = Some xs \<and> length xs = n \<and> list_all validS xs"
proof (cases "n = 0")
  case True
  then show ?thesis by (simp add: scalar_sample_many_from_seed_def)
next
  case False
  let ?prg = "\<lparr> eval_size = 31 * n \<rparr>"
  have new: "aes_prg_new (31 * n) = Some ?prg" using False by (simp add: aes_prg_new_def SEED_SIZE_def)
  obtain out where out: "aes_prg_eval encrypt ?prg seed = Some out" "length out = 31 * n"
    using aes_prg_eval_spec[OF ctr seed, of ?prg] by auto
  define f where "f i = do {
      chunk \<leftarrow> vec_slice out (i * 31) ((i + 1) * 31);
      result_unwrap (scalar_try_from_bytes R (chunk @ [0])) }" for i
  have f: "\<exists>x. f i = Some x \<and> validS x" if "i < n" for i
  proof -
    have "(i + 1) * 31 \<le> 31 * n" using that by simp
    then have slice: "vec_slice out (i * 31) ((i + 1) * 31) = Some (take 31 (drop (i * 31) out))"
      "length (take 31 (drop (i * 31) out)) = 31"
      using out(2) by (simp_all add: vec_slice_def)
    have "le_value (take 31 (drop (i * 31) out) @ [0]) < 256 ^ 31"
      using le_value_bound[of "take 31 (drop (i * 31) out)"] slice(2) by (simp add: le_value_append)
    then have "le_value (take 31 (drop (i * 31) out) @ [0]) < jubjub_order" using jubjub_order_bounds(1) by linarith
    then show ?thesis
      using scalar_bytes_ok[of "take 31 (drop (i * 31) out) @ [0]"] slice by (auto simp: f_def)
  qed
  have "try_map f [0..<n] = Some (map (\<lambda>i. the (f i)) [0..<n])"
    using f by (intro try_map_eq_map) fastforce
  moreover have "scalar_sample_many_from_seed R encrypt seed n = try_map f [0..<n]"
    using False new out(1) unfolding scalar_sample_many_from_seed_def f_def by (simp add: MODULUS_BYTES_def)
  moreover have "list_all validS (map (\<lambda>i. the (f i)) [0..<n])"
    using f by (fastforce simp: list_all_iff)
  ultimately show ?thesis by simp
qed

text \<open>An integer converts to its residue, except that a negative multiple of the order is "reduced" to
  the order itself, which is not a canonical encoding.\<close>

lemma scalar_from_integer_iff:
  "scalar_from_integer R v = None \<longleftrightarrow> v < 0 \<and> int jubjub_order dvd v"
  "scalar_from_integer R v = Some s \<Longrightarrow> int (frv (scalar_inner s)) = v mod int jubjub_order"
proof -
  let ?q = "int jubjub_order"
  define red where "red = (if v < 0 then ?q - ((- v) mod ?q) else v mod ?q)"
  have q: "0 < ?q" using order_pos by simp
  have red: "0 \<le> red" "red \<le> ?q" "red = ?q \<longleftrightarrow> v < 0 \<and> ?q dvd v" "red < ?q \<Longrightarrow> red = v mod ?q"
  proof -
    have m: "0 \<le> (- v) mod ?q" "(- v) mod ?q < ?q" using q by simp_all
    show "0 \<le> red" "red \<le> ?q" using m q pos_mod_bound[OF q, of v] by (auto simp: red_def less_imp_le)
    show "red = ?q \<longleftrightarrow> v < 0 \<and> ?q dvd v"
      using m q less_imp_neq[OF pos_mod_bound[OF q, of v]]
      by (auto simp: red_def dvd_eq_mod_eq_0 zmod_zminus1_eq_if split: if_splits)
    show "red = v mod ?q" if "red < ?q"
      using that by (auto simp: red_def zmod_zminus1_eq_if split: if_splits)
  qed
  have "nat red < 256 ^ 32"
    using red(1,2) jubjub_order_bounds(2) by (metis nat_le_iff order_le_less_trans)
  then have digits: "write_digits 32 (nat red) = Some (le_digits 32 (nat red))"
    "le_value (le_digits 32 (nat red)) = nat red"
    by (simp_all add: write_digits_def le_value_digits)
  have conv: "scalar_from_integer R v = map_option Scalar (fr_from_bytes R (le_digits 32 (nat red)))"
    unfolding scalar_from_integer_def scalar_order_def MODULUS_BYTES_def red_def[symmetric] Let_def digits(1)
    by (cases "fr_from_bytes R (le_digits 32 (nat red))") simp_all
  have refused: "fr_from_bytes R (le_digits 32 (nat red)) = None" if "red = ?q"
    using fr_from_bytes_refused[of "le_digits 32 (nat red)"] digits(2) that by simp
  have ok: "\<exists>x. fr_from_bytes R (le_digits 32 (nat red)) = Some x \<and> int (frv x) = red" if "red \<noteq> ?q"
    using fr_from_bytes_canonical[of "le_digits 32 (nat red)"] digits(2) that red(1,2)
    by (auto simp: nat_less_iff)
  show "scalar_from_integer R v = None \<longleftrightarrow> v < 0 \<and> ?q dvd v"
    using refused ok red(3) by (cases "red = ?q") (auto simp: conv)
  show "scalar_from_integer R v = Some s \<Longrightarrow> int (frv (scalar_inner s)) = v mod ?q"
    using refused ok red(2,4) by (cases "red = ?q") (auto simp: conv)
qed

lemma scalar_vec_roundtrip: "validS s \<Longrightarrow> scalar_try_from_vec R (scalar_to_bytes R s) = Inr s"
proof -
  assume s: "validS s"
  let ?b = "fr_to_bytes R (scalar_inner s)"
  have b: "length ?b = 32" "le_value ?b = frv (scalar_inner s)" using fr_to_bytes[OF s] by simp_all
  then obtain x where "fr_from_bytes R ?b = Some x" "validR x" "frv x = frv (scalar_inner s)"
    using fr_from_bytes_canonical[of ?b] frv_lt[OF s] by auto
  then show ?thesis
    using frv_inj[of x "scalar_inner s"] s b by (simp add: scalar_try_from_vec_def scalar_to_bytes_def)
qed

lemma point_vec_roundtrip: "validP p \<Longrightarrow> point_try_from_vec Q (point_to_vec Q p) = Inr p"
  using sp_bytes[of "point_inner p"] by (simp add: point_try_from_vec_def point_to_vec_def)

end

section \<open>A model of the crate\<close>

text \<open>The residues modulo the order meet the hypotheses, with the residues themselves as the group the
  scalars act on.\<close>

definition residue_fr :: "nat fr_ops" where
  "residue_fr = \<lparr> fr_zero = 0, fr_one = 1,
     fr_add = (\<lambda>x y. (x + y) mod jubjub_order), fr_sub = (\<lambda>x y. (x + (jubjub_order - y)) mod jubjub_order),
     fr_neg = (\<lambda>x. (jubjub_order - x) mod jubjub_order), fr_mul = (\<lambda>x y. (x * y) mod jubjub_order),
     fr_invert = (\<lambda>x. None),
     fr_to_bytes = le_digits 32,
     fr_from_bytes = (\<lambda>b. if le_value b < jubjub_order then Some (le_value b) else None),
     fr_from_bytes_wide = (\<lambda>b. le_value b mod jubjub_order) \<rparr>"

definition residue_sp :: "(nat, nat) sp_ops" where
  "residue_sp = \<lparr> sp_identity = 0, sp_generator = 1,
     sp_add = (\<lambda>x y. (x + y) mod jubjub_order), sp_sub = (\<lambda>x y. (x + (jubjub_order - y)) mod jubjub_order),
     sp_neg = (\<lambda>x. (jubjub_order - x) mod jubjub_order), sp_mul = (\<lambda>x y. (x * y) mod jubjub_order),
     sp_to_bytes = le_digits 32,
     sp_from_bytes = (\<lambda>b. if le_value b < jubjub_order then Some (le_value b) else None) \<rparr>"

interpretation residues: jubjub_crate residue_fr residue_sp "\<lambda>x. x < jubjub_order" "\<lambda>x. x" "\<lambda>x. x < jubjub_order"
proof
  fix x y z :: nat
  assume v: "x < jubjub_order"
  have "x < 256 ^ 32" using v jubjub_order_bounds(2) by simp
  then show "length (fr_to_bytes residue_fr x) = 32 \<and> le_value (fr_to_bytes residue_fr x) = x"
    and "length (sp_to_bytes residue_sp x) = 32 \<and> sp_from_bytes residue_sp (sp_to_bytes residue_sp x) = Some x"
    using v by (simp_all add: residue_fr_def residue_sp_def le_value_digits)
next
  fix x y :: nat
  assume v: "x < jubjub_order" "y < jubjub_order"
  show "sp_add residue_sp (sp_sub residue_sp x y) y = x"
    using v by (simp add: residue_sp_def mod_add_left_eq add.assoc)
qed (use jubjub_order_bounds in \<open>auto simp: residue_fr_def residue_sp_def mod_add_left_eq mod_add_right_eq mod_add_eq
    mod_mult_left_eq mod_mult_right_eq algebra_simps\<close>)

end
