(* ===== verification/Vdpf_TwoKeyPub.thy ===== *)
theory Vdpf_TwoKeyPub
  imports Vdpf_MultiKey Jubjub
begin

text \<open>
  \<open>spectrum_primitives/src/vdpf/two_key_pub.rs\<close>: verification of the two-key point function with public
  keys on the curve. The servers hold the public keys only; the client proves knowledge of the private
  one "in the exponent".

  Honest clients pass. But the check that decides compares the seeds of the tokens only (the comparison
  of the whole tokens is commented out), so neither the bits nor the masked messages of the two keys are
  bound: \<open>pub_forged_write\<close> writes any message to any channel without an access key.
\<close>

record ('fr, 'sp) key_pair =
  kp_public :: "'sp curve_point"
  kp_private :: "'fr scalar"

definition key_pair_from :: "('fr, 'sp) sp_ops \<Rightarrow> 'fr scalar \<Rightarrow> ('fr, 'sp) key_pair" where
  "key_pair_from Q private = \<lparr> kp_public = point_from_scalar Q private, kp_private = private \<rparr>"

definition key_pair_sample :: "('fr, 'sp) sp_ops \<Rightarrow> ('r, 'fr scalar) sampler \<Rightarrow> ('r, ('fr, 'sp) key_pair) sampler" where
  "key_pair_sample Q sample r = (let (s, r') = sample r in (key_pair_from Q s, r'))"

definition key_pair_sample_many_from_seed ::
    "'fr fr_ops \<Rightarrow> ('fr, 'sp) sp_ops \<Rightarrow> 'e cipher \<Rightarrow> aes_seed \<Rightarrow> nat \<Rightarrow> ('fr, 'sp) key_pair list option" where
  "key_pair_sample_many_from_seed R Q encrypt seed n =
     map_option (map (key_pair_from Q)) (scalar_sample_many_from_seed R encrypt seed n)"

text \<open>\<open>struct Construction<D>\<close> forwards the operations of \<open>Dpf\<close>.\<close>

record ('r, 'k, 'm) two_key_pub =
  pub_dpf :: "('r, 'k, 'm) dpf_ops"

definition two_key_pub_new :: "('r, 'k, 'm) dpf_ops \<Rightarrow> ('r, 'k, 'm) two_key_pub" where
  "two_key_pub_new dpf = \<lparr> pub_dpf = dpf \<rparr>"

definition two_key_pub_dpf_ops :: "('r, 'k, 'm) two_key_pub \<Rightarrow> ('r, 'k, 'm) dpf_ops" where
  "two_key_pub_dpf_ops V =
     \<lparr> dpf_points = dpf_points (pub_dpf V),
       dpf_keys = dpf_keys (pub_dpf V),
       dpf_null_message = dpf_null_message (pub_dpf V),
       dpf_msg_size = dpf_msg_size (pub_dpf V),
       dpf_gen = (\<lambda>msg idx. dpf_gen (pub_dpf V) msg idx),
       dpf_gen_empty = dpf_gen_empty (pub_dpf V),
       dpf_eval = (\<lambda>key. dpf_eval (pub_dpf V) key),
       dpf_combine = (\<lambda>parts. dpf_combine (pub_dpf V) parts) \<rparr>"

lemma two_key_pub_dpf_ops_eq [simp]: "two_key_pub_dpf_ops (two_key_pub_new D) = D"
  by (simp add: two_key_pub_dpf_ops_def two_key_pub_new_def)

definition pub_gen_proofs ::
    "'fr fr_ops \<Rightarrow> ('fr, 'sp) sp_ops \<Rightarrow> ('r, 'sp curve_point) sampler \<Rightarrow> ('s \<Rightarrow> 'e + 'fr scalar)
     \<Rightarrow> ('fr, 'sp) key_pair \<Rightarrow> nat \<Rightarrow> ('m, 's) two_key list \<Rightarrow> 'r \<Rightarrow> ('sp curve_point proof_share list \<times> 'r) option" where
  "pub_gen_proofs R Q sample to_scalar auth_key idx ks r =
     do { rust_assert (length ks = 2);
          let (p, r1) = sample r;
          key0 \<leftarrow> vec_get ks 0;
          bit0 \<leftarrow> vec_get (tk_bits key0) idx;
          let (bit_a, bit_b) =
            (if bit0 then (p, point_add Q p (point_from_scalar Q (kp_private auth_key)))
             else (point_add Q p (point_from_scalar Q (kp_private auth_key)), p));
          let (q, r2) = sample r1;
          key1 \<leftarrow> vec_get ks 1;
          seed1 \<leftarrow> vec_get (tk_seeds key1) idx;
          f1 \<leftarrow> result_unwrap (to_scalar seed1);
          let seed_a = point_add Q q (point_from_scalar Q (scalar_mul R f1 (kp_private auth_key)));
          seed0 \<leftarrow> vec_get (tk_seeds key0) idx;
          f0 \<leftarrow> result_unwrap (to_scalar seed0);
          let seed_b = point_add Q q (point_from_scalar Q (scalar_mul R f0 (kp_private auth_key)));
          Some ([proof_share_new seed_a bit_a, proof_share_new seed_b bit_b], r2) }"

definition pub_gen_proofs_noop ::
    "('r, 'sp curve_point) sampler \<Rightarrow> 'r \<Rightarrow> 'sp curve_point proof_share list \<times> 'r" where
  "pub_gen_proofs_noop sample r =
     (let (seed, r1) = sample r; (b, r2) = sample r1
      in (replicate 2 (proof_share_new seed b), r2))"

definition pub_gen_audit ::
    "('fr, 'sp) sp_ops \<Rightarrow> ('s \<Rightarrow> 'e + 'fr scalar) \<Rightarrow> 'h hasher_ops \<Rightarrow> ('m \<Rightarrow> bytes) \<Rightarrow> ('fr, 'sp) key_pair list
     \<Rightarrow> ('m, 's) two_key \<Rightarrow> 'sp curve_point proof_share \<Rightarrow> 'sp curve_point token option" where
  "pub_gen_audit Q to_scalar H as_ref auth_keys dpf_key proof_share =
     do { rust_assert (length auth_keys = length (tk_bits dpf_key));
          rust_assert (length auth_keys = length (tk_seeds dpf_key));
          let bit_check = point_add Q
            (foldl (point_add Q) (point_zero Q)
              (map2 (\<lambda>b key. if b then kp_public key else point_zero Q) (tk_bits dpf_key) auth_keys))
            (ps_bit proof_share);
          seeds \<leftarrow> try_map (\<lambda>seed. result_unwrap (to_scalar seed)) (tk_seeds dpf_key);
          let seed_check = point_add Q
            (foldl (point_add Q) (point_zero Q)
              (map2 (\<lambda>seed key. point_pow Q (kp_public key) seed) seeds auth_keys))
            (ps_seed proof_share);
          let data = message_hash H (as_ref (tk_encoded_msg dpf_key));
          Some (token_new seed_check bit_check data) }"

definition pub_check_audit :: "'sp curve_point token list \<Rightarrow> bool option" where
  "pub_check_audit tokens =
     do { rust_assert (length tokens = 2);
          t0 \<leftarrow> vec_get tokens 0; t1 \<leftarrow> vec_get tokens 1;
          Some (tok_seed t0 = tok_seed t1) }"

text \<open>\<open>impl Vdpf for Construction<TwoKeyDpf<P>>\<close>.\<close>

definition pub_vdpf_ops ::
    "'fr fr_ops \<Rightarrow> ('fr, 'sp) sp_ops \<Rightarrow> ('r, 'fr scalar) sampler \<Rightarrow> ('r, 'sp curve_point) sampler
     \<Rightarrow> ('s \<Rightarrow> 'e + 'fr scalar) \<Rightarrow> 'h hasher_ops \<Rightarrow> ('m \<Rightarrow> bytes) \<Rightarrow> 'm xor_ops \<Rightarrow> ('r, bool) sampler
     \<Rightarrow> ('r, 's, 'm) two_key_dpf
     \<Rightarrow> ('r, ('m, 's) two_key, 'm, ('fr, 'sp) key_pair, 'sp curve_point proof_share, 'sp curve_point token) vdpf_ops" where
  "pub_vdpf_ops R Q sample_s sample_p to_scalar H as_ref X gen_bool D =
     vdpf_of_dpf (two_key_pub_dpf_ops (two_key_pub_new (two_key_dpf_ops X gen_bool D)))
       (key_pair_sample Q sample_s)
       (repeat_with_take (key_pair_sample Q sample_s) (tk_points D))
       (pub_gen_proofs R Q sample_p to_scalar)
       (\<lambda>r. Some (pub_gen_proofs_noop sample_p r))
       (pub_gen_audit Q to_scalar H as_ref)
       pub_check_audit"

section \<open>Completeness\<close>

context exp_laws
begin

lemma fold_pow_dot:
  assumes "validG g" "list_all validE ss" "list_all validE ks"
  shows "fold_add G (map2 (\<lambda>s k. e_pow G (e_pow G g k) s) ss ks) = e_pow G g (dot E ss ks)"
proof -
  have "map2 (\<lambda>s k. e_pow G (e_pow G g k) s) ss ks = map (e_pow G g) (map2 (f_mul E) ss ks)"
    using assms by (intro nth_equalityI) (auto simp: list_all_length pow_mul[symmetric] E.mul_commute)
  moreover have "list_all validE (map2 (f_mul E) ss ks)"
    using assms by (simp add: list_all_length E.mul_valid)
  ultimately show ?thesis using assms(1) by (simp only: fold_add_pow dot_def)
qed

lemma pow_seed_checks_agree:
  assumes xs: "length xs = length ks" "list_all validE xs" "list_all validE ks" "i < length ks" "validE x"
    and g: "validG g" "validG p"
  shows "m_add G (e_pow G g (dot E xs ks)) (m_add G p (e_pow G g (f_mul E x (ks ! i))))
    = m_add G (e_pow G g (dot E (xs[i := x]) ks)) (m_add G p (e_pow G g (f_mul E (xs ! i) (ks ! i))))"
proof -
  have v: "validE (dot E xs ks)" "validE (dot E (xs[i := x]) ks)" "validE (f_mul E x (ks ! i))" "validE (f_mul E (xs ! i) (ks ! i))"
    using xs list_all_nth[OF xs(2)] list_all_nth[OF xs(3)] by (simp_all add: E.dot_valid list_all_update E.mul_valid)
  have step: "m_add G (e_pow G g a) (m_add G p (e_pow G g b)) = m_add G p (e_pow G g (m_add E a b))"
    if "validE a" "validE b" for a b
    using that g by (simp add: pow_add G.add_left_commute pow_valid)
  show ?thesis
    using step[OF v(1,3)] step[OF v(2,4)] E.dot_update[OF xs] by simp
qed

end

locale pub_vdpf_setup =
  jubjub_crate R Q validR frv validQ + xor_prg bitxor bitxor_assign null valid P validSeed
  for R :: "'fr fr_ops" and Q :: "('fr, 'sp) sp_ops" and validR :: "'fr \<Rightarrow> bool" and frv :: "'fr \<Rightarrow> nat"
    and validQ :: "'sp \<Rightarrow> bool"
    and bitxor bitxor_assign :: "'o \<Rightarrow> 'o \<Rightarrow> 'o option" and null :: 'o and valid :: "'o \<Rightarrow> bool"
    and P :: "('r, 's, 'o) prg_ops" and validSeed :: "'s \<Rightarrow> bool" +
  fixes sample_s :: "('r, 'fr scalar) sampler" and sample_p :: "('r, 'sp curve_point) sampler"
    and to_scalar :: "'s \<Rightarrow> 'e + 'fr scalar" and toF :: "'s \<Rightarrow> 'fr scalar"
    and H :: "'h hasher_ops" and as_ref :: "'o \<Rightarrow> bytes" and g :: "('r, bool) sampler" and n :: nat
  assumes sample_s_valid: "sampler_in validS sample_s"
    and sample_p_valid: "sampler_in validP sample_p"
    and to_scalar_eq: "validSeed s \<Longrightarrow> to_scalar s = Inr (toF s)"
    and toF_valid: "validSeed s \<Longrightarrow> validS (toF s)"
begin

abbreviation V where
  "V \<equiv> pub_vdpf_ops R Q sample_s sample_p to_scalar H as_ref X g (two_key_new P n)"

text \<open>A key pair whose public part belongs to its private part.\<close>

definition key_pair_valid :: "('fr, 'sp) key_pair \<Rightarrow> bool" where
  "key_pair_valid k \<longleftrightarrow> validS (kp_private k) \<and> k = key_pair_from Q (kp_private k)"

lemma key_pair_public: "key_pair_valid k \<Longrightarrow> kp_public k = point_pow Q (point_generator Q) (kp_private k)"
  by (metis key_pair.select_convs(1) key_pair_from_def key_pair_valid_def point_from_scalar_eq)

lemma pub_audit_eq:
  assumes "length auths = length bits" "length auths = length seeds" "list_all validSeed seeds" "list_all key_pair_valid auths"
  shows "\<exists>b. pub_gen_audit Q to_scalar H as_ref auths (two_key_key m bits seeds) p
    = Some (token_new (point_add Q
        (point_pow Q (point_generator Q) (dot (scalar_field R) (map toF seeds) (map kp_private auths))) (ps_seed p))
        b (message_hash H (as_ref m)))"
proof -
  have seeds: "try_map (\<lambda>seed. result_unwrap (to_scalar seed)) seeds = Some (map toF seeds)"
    using assms(3) by (intro try_map_eq_map) (auto simp: list_all_iff to_scalar_eq)
  have pubs: "map2 (\<lambda>seed key. point_pow Q (kp_public key) seed) (map toF seeds) auths
      = map2 (\<lambda>s k. point_pow Q (point_pow Q (point_generator Q) k) s) (map toF seeds) (map kp_private auths)"
    using assms by (intro nth_equalityI) (auto simp: list_all_length key_pair_public)
  have "foldl (point_add Q) (point_zero Q) (map2 (\<lambda>seed key. point_pow Q (kp_public key) seed) (map toF seeds) auths)
      = point_pow Q (point_generator Q) (dot (scalar_field R) (map toF seeds) (map kp_private auths))"
    using exp_laws.fold_pow_dot[OF curve_exp_laws, of "point_generator Q" "map toF seeds" "map kp_private auths"] assms(3,4)
    by (simp add: pubs fold_add_def list_all_iff toF_valid key_pair_valid_def point_generator_def sp_consts del: zip_map1 zip_map2)
  then show ?thesis using assms by (simp add: pub_gen_audit_def seeds) blast
qed

lemma pub_audit_pair:
  assumes bits: "length bits = n" and seeds: "length seeds = n" "list_all validSeed seeds" "validSeed fresh"
    and idx: "idx < n" and auths: "vec_valid key_pair_valid n auths"
    and ks: "ks = [two_key_key m bits seeds, two_key_key m (bits[idx := \<not> bits ! idx]) (seeds[idx := fresh])]"
  shows "\<exists>ps r'. pub_gen_proofs R Q sample_p to_scalar (auths ! idx) idx ks r = Some (ps, r') \<and> length ps = 2
    \<and> vdpf_audit V auths ks ps = Some True"
proof -
  obtain p r1 where p: "sample_p r = (p, r1)" by fastforce
  obtain q r2 where q: "sample_p r1 = (q, r2)" by fastforce
  have vq: "validP q" using sample_p_valid q by (auto dest: sampler_inD)
  have seed: "validSeed (seeds ! idx)" using seeds idx by (simp add: list_all_length)
  let ?k = "kp_private (auths ! idx)" and ?g = "point_generator Q"
  have auths': "length auths = n" "list_all key_pair_valid auths" using auths by (simp_all add: vec_valid_def)
  obtain ba bb where gen: "pub_gen_proofs R Q sample_p to_scalar (auths ! idx) idx ks r
      = Some ([proof_share_new (point_add Q q (point_pow Q ?g (scalar_mul R (toF fresh) ?k))) ba,
          proof_share_new (point_add Q q (point_pow Q ?g (scalar_mul R (toF (seeds ! idx)) ?k))) bb], r2)"
    using bits seeds idx seed by (cases "bits ! idx")
      (simp_all add: pub_gen_proofs_def ks p q to_scalar_eq point_from_scalar_eq)
  have upd: "map toF (seeds[idx := fresh]) = (map toF seeds)[idx := toF fresh]" by (simp add: map_update)
  have "list_all validS (map toF seeds)" "list_all validS (map kp_private auths)"
    using seeds(2) auths'(2) by (auto simp: list_all_iff toF_valid key_pair_valid_def)
  then have agree: "point_add Q (point_pow Q ?g (dot (scalar_field R) (map toF seeds) (map kp_private auths)))
        (point_add Q q (point_pow Q ?g (scalar_mul R (toF fresh) ?k)))
      = point_add Q (point_pow Q ?g (dot (scalar_field R) ((map toF seeds)[idx := toF fresh]) (map kp_private auths)))
        (point_add Q q (point_pow Q ?g (scalar_mul R (toF (seeds ! idx)) ?k)))"
    using exp_laws.pow_seed_checks_agree[OF curve_exp_laws, of "map toF seeds" "map kp_private auths" idx "toF fresh" ?g q]
      auths'(1) seeds idx vq
    by (simp add: toF_valid point_generator_def sp_consts)
  let ?ps = "[proof_share_new (point_add Q q (point_pow Q ?g (scalar_mul R (toF fresh) ?k))) ba,
          proof_share_new (point_add Q q (point_pow Q ?g (scalar_mul R (toF (seeds ! idx)) ?k))) bb]"
  obtain b0 where t0: "pub_gen_audit Q to_scalar H as_ref auths (ks ! 0) (?ps ! 0)
      = Some (token_new (point_add Q
        (point_pow Q ?g (dot (scalar_field R) (map toF seeds) (map kp_private auths))) (ps_seed (?ps ! 0)))
        b0 (message_hash H (as_ref m)))"
    using pub_audit_eq[of auths bits seeds m "?ps ! 0"] auths' bits seeds by (auto simp: ks)
  obtain b1 where t1: "pub_gen_audit Q to_scalar H as_ref auths (ks ! 1) (?ps ! 1)
      = Some (token_new (point_add Q
        (point_pow Q ?g (dot (scalar_field R) (map toF (seeds[idx := fresh])) (map kp_private auths))) (ps_seed (?ps ! 1)))
        b1 (message_hash H (as_ref m)))"
    using pub_audit_eq[of auths "bits[idx := \<not> bits ! idx]" "seeds[idx := fresh]" m "?ps ! 1"] auths' bits seeds
    by (auto simp: ks list_all_update)
  have "vdpf_audit V auths ks ?ps = Some True"
    using t0 t1 agree
    by (simp add: vdpf_audit_def pub_vdpf_ops_def ks pub_check_audit_def token_new_def proof_share_new_def upd)
  then show ?thesis using gen by (intro exI[of _ ?ps] exI[of _ r2]) simp
qed

text \<open>The check looks at the seeds alone: two keys with the same seeds and two shares with the same seed
  pass, whatever their bits and their messages are.\<close>

lemma pub_audit_same_seeds:
  assumes "length bits0 = n" "length bits1 = n" "length seeds = n" "list_all validSeed seeds"
    "vec_valid key_pair_valid n auths" "ps_seed p0 = ps_seed p1"
  shows "vdpf_audit V auths [two_key_key m0 bits0 seeds, two_key_key m1 bits1 seeds] [p0, p1] = Some True"
  using pub_audit_eq[of auths bits0 seeds m0 p0] pub_audit_eq[of auths bits1 seeds m1 p1] assms
  by (auto simp: vdpf_audit_def pub_vdpf_ops_def pub_check_audit_def token_new_def vec_valid_def)

lemma pub_noop:
  "\<exists>p s'. pub_gen_proofs_noop sample_p s = ([p, p], s')"
  by (auto simp: pub_gen_proofs_noop_def numeral_2_eq_2 split: prod.splits)

text \<open>So a client without any access key can write: it uses one seed vector for both keys, flips a bit
  and sends the message in the clear.\<close>

lemma pub_forged:
  assumes msg: "valid msg" and idx: "idx < n" and auths: "vec_valid key_pair_valid n auths"
    and bits: "length bits = n" and seeds: "length seeds = n" "list_all validSeed seeds"
    and ks: "ks = [two_key_key msg bits seeds, two_key_key msg (bits[idx := \<not> bits ! idx]) seeds]"
    and ps: "pub_gen_proofs_noop sample_p r = (ps, r')"
  shows "vdpf_audit V auths ks ps = Some True \<and> dpf_run V ks = Some ((replicate n null)[idx := msg])"
proof -
  obtain p where p: "ps = [p, p]" using pub_noop[of r] ps by auto
  have audit: "vdpf_audit V auths ks ps = Some True"
    unfolding ks p using bits seeds auths by (intro pub_audit_same_seeds) simp_all
  let ?D = "two_key_dpf_ops X g (two_key_new P n)"
  have kv: "list_all (two_key_valid n) ks" using bits seeds msg by (simp add: ks two_key_valid_def)
  have "map2 xor (two_key_out (ks ! 0)) (two_key_out (ks ! 1)) = (replicate n null)[idx := msg]" (is "?l = ?r")
  proof (rule nth_equalityI)
    fix j
    assume "j < length ?l"
    then have j: "j < n" "validSeed (seeds ! j)" using bits seeds by (auto simp: ks two_key_out_def list_all_length)
    then show "?l ! j = ?r ! j"
      using bits seeds msg
      by (cases "j = idx"; cases "bits ! j")
        (simp_all add: ks two_key_out_def expand xor_valid xor_self' xor_assoc' xor_cancel
          xor_commute'[of msg] xor_left_commute[of msg])
  qed (use bits seeds in \<open>simp add: ks two_key_out_def\<close>)
  then have "fold_add (vec_monoid xM n) (map two_key_out ks) = (replicate n null)[idx := msg]"
    using two_key_sum[of n "ks ! 0" "ks ! 1"] kv by (simp add: ks)
  then have "dpf_run ?D ks = Some ((replicate n null)[idx := msg])"
    using two_key.run_eq[of n ks] kv by (simp add: ks)
  with audit show ?thesis by (simp add: pub_vdpf_ops_def)
qed

lemma pub_vdpf_contract: "vdpf_contract V valid key_pair_valid"
proof (intro vdpf_contract.intro vdpf_contract_axioms.intro)
  have "dpf_contract (two_key_dpf_ops X g (two_key_new P n)) valid" by (rule two_key.linear_dpf_contract)
  then show "dpf_contract V valid" unfolding pub_vdpf_ops_def by (simp add: vdpf_of_dpf_contract)
next
  fix r auths r'
  assume auths: "vdpf_new_access_keys V r = (auths, r')"
  have "sampler_in key_pair_valid (key_pair_sample Q sample_s)"
    using sample_s_valid
    by (auto simp: sampler_in_def key_pair_sample_def key_pair_valid_def key_pair_from_def split: prod.splits)
      (metis fst_conv)
  then show "vec_valid key_pair_valid (dpf_points V) auths"
    using auths repeat_with_take_length repeat_with_take_in
    by (fastforce simp: pub_vdpf_ops_def vec_valid_def)
next
  fix msg idx auths r ks r' s
  assume *: "idx < dpf_points V" "vec_valid key_pair_valid (dpf_points V) auths" "dpf_gen V msg idx r = Some (ks, r')"
  then have auths: "vec_valid key_pair_valid n auths" by (simp_all add: pub_vdpf_ops_def)
  have gen: "two_key_gen X g (two_key_new P n) msg idx r = Some (ks, r')" using *(3) by (simp add: pub_vdpf_ops_def)
  obtain m bits seeds fresh where k: "length bits = n" "length seeds = n" "list_all validSeed seeds" "validSeed fresh" "idx < n"
    "ks = [two_key_key m bits seeds, two_key_key m (bits[idx := \<not> bits ! idx]) (seeds[idx := fresh])]"
    using gen by (rule two_key_gen_shape)
  show "\<exists>ps s'. vdpf_gen_proofs V (auths ! idx) idx ks s = Some (ps, s') \<and> length ps = dpf_keys V
      \<and> vdpf_audit V auths ks ps = Some True"
    using pub_audit_pair[OF k(1-5) auths k(6), of s] by (auto simp: pub_vdpf_ops_def)
next
  fix auths r ks r' s
  assume *: "vec_valid key_pair_valid (dpf_points V) auths" "dpf_gen_empty V r = Some (ks, r')"
  then have "two_key_gen_empty g (two_key_new P n) r = Some (ks, r')" by (simp add: pub_vdpf_ops_def)
  then obtain m bits seeds where k: "length bits = n" "length seeds = n" "list_all validSeed seeds"
      "ks = replicate 2 (two_key_key m bits seeds)"
    by (rule two_key_gen_empty_shape)
  obtain p s' where ps: "pub_gen_proofs_noop sample_p s = ([p, p], s')" using pub_noop by blast
  have "vdpf_audit V auths ks [p, p] = Some True"
    using pub_audit_same_seeds[OF k(1,1-3), of auths p p m m] * k(4)
    by (simp add: pub_vdpf_ops_def numeral_2_eq_2)
  then show "\<exists>ps s'. vdpf_gen_proofs_noop V s = Some (ps, s') \<and> length ps = dpf_keys V
      \<and> vdpf_audit V auths ks ps = Some True"
    using ps by (auto simp: pub_vdpf_ops_def)
qed

end

sublocale pub_vdpf_setup \<subseteq> vdpf: vdpf_contract V valid key_pair_valid
  by (rule pub_vdpf_contract)

end
