(* ===== verification/Protocol.thy ===== *)
theory Protocol
  imports Vdpf_TwoKeyPub
begin

text \<open>
  The protocol layer of \<open>spectrum_protocol\<close>: the trait \<open>Accumulatable\<close> and its implementations
  (\<open>accumulator.rs\<close>), the trait \<open>Protocol\<close> (\<open>definition.rs\<close>) and the protocol that every verifiable
  point function gives (\<open>Wrapper\<close> in \<open>secure.rs\<close>).

  The main result is about a whole round: any number of clients broadcast or send cover traffic, every
  server accumulates the tokens it receives in whatever order they arrive, and the servers' results are
  combined. Every channel then holds the sum of what was broadcast to it, so the message of its only
  broadcaster, or nothing.
\<close>

section \<open>Accumulators\<close>

record ('m, 'p) acc_ops =
  acc_combine :: "'m \<Rightarrow> 'm \<Rightarrow> 'm option"
  acc_empty :: "'p \<Rightarrow> 'm"
  acc_params :: "'m \<Rightarrow> 'p option"

definition bytes_acc :: "(bytes, nat) acc_ops" where
  "bytes_acc =
     \<lparr> acc_combine = bytes_bitxor_assign, acc_empty = bytes_empty, acc_params = (\<lambda>b. Some (bytes_len b)) \<rparr>"

definition ev_acc :: "('g, 'x) monoid_ops_scheme \<Rightarrow> ('g list, nat option) acc_ops" where
  "ev_acc G =
     \<lparr> acc_combine = (\<lambda>v w. Some (ev_bitxor_assign G v w)),
       acc_empty = (\<lambda>len. replicate (case len of None \<Rightarrow> 1 | Some n \<Rightarrow> n) (m_zero G)),
       acc_params = (\<lambda>v. Some (Some (length v))) \<rparr>"

text \<open>\<open>Vec<T>\<close>; the parameters of an empty vector do not exist (\<open>self[0]\<close> panics).\<close>

definition vec_acc :: "('m, 'p) acc_ops \<Rightarrow> ('m list, nat \<times> 'p) acc_ops" where
  "vec_acc A =
     \<lparr> acc_combine = (\<lambda>this other. do { rust_assert (length this = length other);
                                     try_zip_assign (acc_combine A) this other }),
       acc_empty = (\<lambda>(len, subparams). replicate len (acc_empty A subparams)),
       acc_params = (\<lambda>v. do { x \<leftarrow> vec_get v 0; p \<leftarrow> acc_params A x; Some (length v, p) }) \<rparr>"

text \<open>The contract of \<open>check_accumulatable!\<close>, for the values with one parameter.\<close>

locale accumulatable = comm_monoid_laws M valid
  for M :: "('m, 'x) monoid_ops_scheme" and valid :: "'m \<Rightarrow> bool" +
  fixes A :: "('m, 'p) acc_ops" and params :: 'p
  assumes combine_eq: "valid a \<Longrightarrow> valid b \<Longrightarrow> acc_combine A a b = Some (m_add M a b)"
    and empty_eq: "acc_empty A params = m_zero M"
    and params_eq: "valid a \<Longrightarrow> acc_params A a = Some params"
begin

lemma combine_laws:
  assumes "valid a" "valid b" "valid c"
  shows "(acc_combine A a b \<bind> (\<lambda>ab. acc_combine A ab c)) = (acc_combine A b c \<bind> acc_combine A a)"
    and "acc_combine A a b = acc_combine A b a"
    and "acc_combine A a (acc_empty A params) = Some a"
  using assms by (simp_all add: combine_eq empty_eq add_valid add_zero zero_valid add_ac)

lemma fold_combine:
  "valid acc \<Longrightarrow> list_all valid xs \<Longrightarrow> try_fold (acc_combine A) acc xs = Some (m_add M acc (fold_add M xs))"
  using try_fold_eq_foldl[of valid xs "acc_combine A" "m_add M" acc]
  by (simp add: list_all_iff combine_eq add_valid foldl_add_acc)

lemma vec_combine:
  "vec_valid valid n v \<Longrightarrow> vec_valid valid n w \<Longrightarrow> acc_combine (vec_acc A) v w = Some (map2 (m_add M) v w)"
  by (auto simp: vec_acc_def vec_valid_def list_all_iff combine_eq intro!: try_zip_assign_eq)

text \<open>Vectors of accumulatable values are accumulatable.\<close>

lemma vec_accumulatable:
  assumes "0 < n"
  shows "accumulatable (vec_monoid M n) (vec_valid valid n) (vec_acc A) (n, params)"
proof (intro accumulatable.intro accumulatable_axioms.intro vec_monoid_laws)
  fix a b
  assume a: "vec_valid valid n a"
  have "valid (a ! 0)" "length a = n" using a assms by (auto simp: vec_valid_def list_all_length)
  then show "acc_params (vec_acc A) a = Some (n, params)" using assms by (simp add: vec_acc_def params_eq)
  assume b: "vec_valid valid n b"
  show "acc_combine (vec_acc A) a b = Some (m_add (vec_monoid M n) a b)" using vec_combine[OF a b] by simp
qed (simp add: vec_acc_def empty_eq)

lemma fold_vec_combine:
  "vec_valid valid n acc \<Longrightarrow> list_all (vec_valid valid n) vs \<Longrightarrow>
   try_fold (acc_combine (vec_acc A)) acc vs = Some (map2 (m_add M) acc (fold_add (vec_monoid M n) vs))"
  using try_fold_eq_foldl[of "vec_valid valid n" vs "acc_combine (vec_acc A)" "map2 (m_add M)" acc]
    comm_monoid_laws.add_valid[OF vec_monoid_laws[of n]] vec_foldl_add_acc[of n acc vs]
  by (simp add: list_all_iff vec_combine)

end

interpretation bytes_accumulator: accumulatable
  "\<lparr> m_zero = bytes_empty n, m_add = bytes_xor.xor \<rparr>" "\<lambda>b. length b = n" bytes_acc n
  for n :: nat
  by (intro accumulatable.intro accumulatable_axioms.intro bytes_xor.xor_monoid)
    (simp_all add: bytes_acc_def bytes_xor.xor_assign[of _ n] bytes_xor.bitxor_eq[of _ n] bytes_len_def)

context comm_monoid_laws
begin

lemma ev_accumulatable: "accumulatable (vec_monoid M n) (vec_valid valid n) (ev_acc M) (Some n)"
  by (intro accumulatable.intro accumulatable_axioms.intro vec_monoid_laws)
    (simp_all add: ev_acc_def ev_bitxor_assign_def vec_valid_def zip_assign_eq_map2)

end

interpretation ints_mod_p_accumulator: accumulatable
  "vec_monoid (intmod_exp 11) n" "vec_valid (intmod_valid 11) n" "ev_acc (intmod_exp 11)" "Some n"
  for n :: nat
  by (rule ints_mod_p_exp.G.ev_accumulatable)

section \<open>Protocols\<close>

record ('r, 'm, 'k, 'w, 't) protocol_ops =
  proto_num_parties :: nat
  proto_num_channels :: nat
  proto_message_len :: nat
  proto_broadcast :: "'m \<Rightarrow> nat \<Rightarrow> 'k \<Rightarrow> 'r \<Rightarrow> ('w list \<times> 'r) option"
  proto_cover :: "'r \<Rightarrow> ('w list \<times> 'r) option"
  proto_gen_audit :: "'k list \<Rightarrow> 'w \<Rightarrow> 't list option"
  proto_check_audit :: "'t list \<Rightarrow> bool option"
  proto_new_accumulator :: "'m list"
  proto_to_accumulator :: "'w \<Rightarrow> 'm list option"

text \<open>\<open>struct WriteToken<K, P>\<close> and \<open>struct AuditShare<T>\<close>.\<close>

record ('k, 'p) write_token =
  wt_key :: 'k
  wt_proof :: 'p

datatype 't audit_share = AuditShare (share_token: 't)

definition write_token_new :: "'k \<Rightarrow> 'p \<Rightarrow> ('k, 'p) write_token" where
  "write_token_new key pf = \<lparr> wt_key = key, wt_proof = pf \<rparr>"

definition wrapper_broadcast ::
    "('r, 'k, 'm, 'a, 'p, 't, 'x) vdpf_ops_scheme \<Rightarrow> 'm \<Rightarrow> nat \<Rightarrow> 'a \<Rightarrow> 'r \<Rightarrow> (('k, 'p) write_token list \<times> 'r) option" where
  "wrapper_broadcast V message idx key r =
     do { (ks, r1) \<leftarrow> dpf_gen V message idx r;
          (proof_shares, r2) \<leftarrow> vdpf_gen_proofs V key idx ks r1;
          Some (map2 write_token_new ks proof_shares, r2) }"

definition wrapper_cover ::
    "('r, 'k, 'm, 'a, 'p, 't, 'x) vdpf_ops_scheme \<Rightarrow> 'r \<Rightarrow> (('k, 'p) write_token list \<times> 'r) option" where
  "wrapper_cover V r =
     do { (ks, r1) \<leftarrow> dpf_gen_empty V r;
          (proof_shares, r2) \<leftarrow> vdpf_gen_proofs_noop V r1;
          Some (map2 write_token_new ks proof_shares, r2) }"

definition wrapper_gen_audit ::
    "('r, 'k, 'm, 'a, 'p, 't, 'x) vdpf_ops_scheme \<Rightarrow> 'a list \<Rightarrow> ('k, 'p) write_token \<Rightarrow> 't audit_share list option" where
  "wrapper_gen_audit V keys write_token =
     do { token \<leftarrow> vdpf_gen_audit V keys (wt_key write_token) (wt_proof write_token);
          Some (replicate (dpf_keys V) (AuditShare token)) }"

definition wrapper_check_audit ::
    "('r, 'k, 'm, 'a, 'p, 't, 'x) vdpf_ops_scheme \<Rightarrow> 't audit_share list \<Rightarrow> bool option" where
  "wrapper_check_audit V tokens =
     do { rust_assert (length tokens = dpf_keys V);
          vdpf_check_audit V (map share_token tokens) }"

definition wrapper_new_accumulator :: "('r, 'k, 'm, 'a, 'p, 't, 'x) vdpf_ops_scheme \<Rightarrow> 'm list" where
  "wrapper_new_accumulator V = replicate (dpf_points V) (dpf_null_message V)"

definition wrapper_to_accumulator ::
    "('r, 'k, 'm, 'a, 'p, 't, 'x) vdpf_ops_scheme \<Rightarrow> ('k, 'p) write_token \<Rightarrow> 'm list option" where
  "wrapper_to_accumulator V token = dpf_eval V (wt_key token)"

text \<open>\<open>impl Protocol for Wrapper<V>\<close>.\<close>

definition wrapper_protocol ::
    "('r, 'k, 'm, 'a, 'p, 't, 'x) vdpf_ops_scheme \<Rightarrow> ('r, 'm, 'a, ('k, 'p) write_token, 't audit_share) protocol_ops" where
  "wrapper_protocol V =
     \<lparr> proto_num_parties = dpf_keys V, proto_num_channels = dpf_points V, proto_message_len = dpf_msg_size V,
       proto_broadcast = wrapper_broadcast V, proto_cover = wrapper_cover V,
       proto_gen_audit = wrapper_gen_audit V, proto_check_audit = wrapper_check_audit V,
       proto_new_accumulator = wrapper_new_accumulator V, proto_to_accumulator = wrapper_to_accumulator V \<rparr>"

lemma wrapper_protocol_sel [simp]:
  "proto_num_parties (wrapper_protocol V) = dpf_keys V" "proto_num_channels (wrapper_protocol V) = dpf_points V"
  "proto_broadcast (wrapper_protocol V) = wrapper_broadcast V" "proto_cover (wrapper_protocol V) = wrapper_cover V"
  "proto_gen_audit (wrapper_protocol V) = wrapper_gen_audit V" "proto_check_audit (wrapper_protocol V) = wrapper_check_audit V"
  "proto_new_accumulator (wrapper_protocol V) = wrapper_new_accumulator V"
  "proto_to_accumulator (wrapper_protocol V) = wrapper_to_accumulator V"
  by (simp_all add: wrapper_protocol_def)

section \<open>Audits\<close>

text \<open>The shares that the servers exchange for one client: server \<open>i\<close> receives from every server the
  share that server addressed to it.\<close>

definition server_shares ::
    "('r, 'm, 'k, 'w, 't, 'x) protocol_ops_scheme \<Rightarrow> 'k list \<Rightarrow> 'w list \<Rightarrow> 't list list option" where
  "server_shares T keys tokens =
     do { rows \<leftarrow> try_map (proto_gen_audit T keys) tokens; Some (columns (proto_num_parties T) rows) }"

text \<open>The verdicts of all servers on the tokens of one client.\<close>

definition audit_verdicts ::
    "('r, 'm, 'k, 'w, 't, 'x) protocol_ops_scheme \<Rightarrow> 'k list \<Rightarrow> 'w list \<Rightarrow> bool list option" where
  "audit_verdicts T keys tokens = do { shares \<leftarrow> server_shares T keys tokens; try_map (proto_check_audit T) shares }"

lemma wrapper_verdicts:
  assumes "length tokens = dpf_keys V" "vdpf_audit V keys (map wt_key tokens) (map wt_proof tokens) = Some b"
  shows "audit_verdicts (wrapper_protocol V) keys tokens = Some (replicate (dpf_keys V) b)"
proof -
  have zip: "zip (map wt_key tokens) (map wt_proof tokens) = map (\<lambda>t. (wt_key t, wt_proof t)) tokens"
    by (simp add: zip_map_map zip_same_conv_map)
  have "try_map (\<lambda>(k, p). vdpf_gen_audit V keys k p) (map (\<lambda>t. (wt_key t, wt_proof t)) tokens)
      = try_map (\<lambda>t. vdpf_gen_audit V keys (wt_key t) (wt_proof t)) tokens"
    by (induction tokens) auto
  then obtain ts where ts: "try_map (\<lambda>t. vdpf_gen_audit V keys (wt_key t) (wt_proof t)) tokens = Some ts"
      "vdpf_check_audit V ts = Some b"
    using assms(2) by (auto simp: vdpf_audit_def zip bind_eq_Some_conv)
  have rows: "try_map (wrapper_gen_audit V keys) tokens = Some (map (\<lambda>t. replicate (dpf_keys V) (AuditShare t)) ts)"
    using ts(1)
    by (induction tokens arbitrary: ts) (auto simp: wrapper_gen_audit_def bind_eq_Some_conv)
  have len: "length ts = dpf_keys V" using length_try_map[OF ts(1)] assms(1) by simp
  have "columns (dpf_keys V) (map (\<lambda>t. replicate (dpf_keys V) (AuditShare t)) ts) = replicate (dpf_keys V) (map AuditShare ts)"
    by (intro nth_equalityI) (auto simp: columns_def)
  moreover have "try_map (wrapper_check_audit V) (replicate k (map AuditShare ts)) = Some (replicate k b)" for k
    using len ts(2) by (induction k) (simp_all add: wrapper_check_audit_def comp_def)
  ultimately show ?thesis by (simp add: audit_verdicts_def server_shares_def rows)
qed

lemma tokens_unzip:
  "length ks = length ps \<Longrightarrow> map wt_key (map2 write_token_new ks ps) = ks \<and> map wt_proof (map2 write_token_new ks ps) = ps"
  by (induction ks ps rule: list_induct2) (auto simp: write_token_new_def)

lemma broadcast_verdicts:
  assumes "dpf_gen V msg idx r = Some (ks, r1)" "vdpf_gen_proofs V key idx ks r1 = Some (ps, r2)"
    "length ks = dpf_keys V" "length ps = dpf_keys V" "vdpf_audit V keys ks ps = Some b"
  shows "\<exists>tokens. wrapper_broadcast V msg idx key r = Some (tokens, r2) \<and> map wt_key tokens = ks \<and> length tokens = dpf_keys V
    \<and> audit_verdicts (wrapper_protocol V) keys tokens = Some (replicate (dpf_keys V) b)"
proof -
  let ?ts = "map2 write_token_new ks ps"
  have ts: "map wt_key ?ts = ks" "map wt_proof ?ts = ps" "length ?ts = dpf_keys V"
    using tokens_unzip[of ks ps] assms(3,4) by simp_all
  then show ?thesis
    using assms wrapper_verdicts[of ?ts V keys b] by (simp add: wrapper_broadcast_def del: map_map)
qed

context vdpf_contract
begin

text \<open>Honest broadcasters and cover traffic pass every server's audit.\<close>

lemma broadcast_tokens:
  assumes "valid msg" "idx < dpf_points V" "vec_valid validA (dpf_points V) auths"
  shows "\<exists>tokens r'. wrapper_broadcast V msg idx (auths ! idx) r = Some (tokens, r') \<and> length tokens = dpf_keys V
    \<and> audit_verdicts (wrapper_protocol V) auths tokens = Some (replicate (dpf_keys V) True)
    \<and> dpf_run V (map wt_key tokens) = Some (point_vec V idx msg)"
proof -
  obtain ks r1 ps r2 where run: "dpf_gen V msg idx r = Some (ks, r1)"
      "vdpf_gen_proofs V (auths ! idx) idx ks r1 = Some (ps, r2)" "length ks = dpf_keys V" "length ps = dpf_keys V"
      "vdpf_audit V auths ks ps = Some True" "dpf_run V ks = Some (point_vec V idx msg)"
    using broadcast_run[OF assms, of r] by blast
  let ?ts = "map2 write_token_new ks ps"
  have ts: "map wt_key ?ts = ks" "map wt_proof ?ts = ps" "length ?ts = dpf_keys V"
    using tokens_unzip[of ks ps] run(3,4) by simp_all
  then show ?thesis
    using run wrapper_verdicts[of ?ts V auths True] by (simp add: wrapper_broadcast_def del: map_map)
qed

lemma cover_tokens:
  assumes "vec_valid validA (dpf_points V) auths"
  shows "\<exists>tokens r'. wrapper_cover V r = Some (tokens, r') \<and> length tokens = dpf_keys V
    \<and> audit_verdicts (wrapper_protocol V) auths tokens = Some (replicate (dpf_keys V) True)
    \<and> dpf_run V (map wt_key tokens) = Some (null_vec V)"
proof -
  obtain ks r1 ps r2 where run: "dpf_gen_empty V r = Some (ks, r1)"
      "vdpf_gen_proofs_noop V r1 = Some (ps, r2)" "length ks = dpf_keys V" "length ps = dpf_keys V"
      "vdpf_audit V auths ks ps = Some True" "dpf_run V ks = Some (null_vec V)"
    using cover_run[OF assms, of r] by blast
  let ?ts = "map2 write_token_new ks ps"
  have ts: "map wt_key ?ts = ks" "map wt_proof ?ts = ps" "length ?ts = dpf_keys V"
    using tokens_unzip[of ks ps] run(3,4) by simp_all
  then show ?thesis
    using run wrapper_verdicts[of ?ts V auths True] by (simp add: wrapper_cover_def del: map_map)
qed

end

section \<open>A round\<close>

text \<open>What a client does in a round, and the messages addressed to a channel.\<close>

datatype 'm action = Broadcast nat 'm | Cover

fun channel_messages :: "nat \<Rightarrow> 'm action list \<Rightarrow> 'm list" where
  "channel_messages j [] = []"
| "channel_messages j (Broadcast i m # acts) = (if i = j then m # channel_messages j acts else channel_messages j acts)"
| "channel_messages j (Cover # acts) = channel_messages j acts"

fun action_valid :: "('m \<Rightarrow> bool) \<Rightarrow> nat \<Rightarrow> 'm action \<Rightarrow> bool" where
  "action_valid valid n (Broadcast i m) \<longleftrightarrow> i < n \<and> valid m"
| "action_valid valid n Cover \<longleftrightarrow> True"

text \<open>The tokens of an honest client, with whatever randomness it draws.\<close>

fun client_tokens ::
    "('r, 'm, 'k, 'w, 't, 'x) protocol_ops_scheme \<Rightarrow> 'k list \<Rightarrow> 'm action \<Rightarrow> 'r \<Rightarrow> ('w list \<times> 'r) option" where
  "client_tokens T keys (Broadcast i m) r = do { key \<leftarrow> vec_get keys i; proto_broadcast T m i key r }"
| "client_tokens T keys Cover r = proto_cover T r"

text \<open>A server starts from \<open>new_accumulator\<close> and combines the tokens it receives; the results of the
  servers are combined the same way.\<close>

definition server_accumulate ::
    "('r, 'm, 'k, 'w, 't, 'x) protocol_ops_scheme \<Rightarrow> ('m, 'p) acc_ops \<Rightarrow> 'w list \<Rightarrow> 'm list option" where
  "server_accumulate T A tokens =
     try_fold (\<lambda>acc token. do { v \<leftarrow> proto_to_accumulator T token; acc_combine (vec_acc A) acc v })
       (proto_new_accumulator T) tokens"

definition round_result ::
    "('r, 'm, 'k, 'w, 't, 'x) protocol_ops_scheme \<Rightarrow> ('m, 'p) acc_ops \<Rightarrow> 'w list list \<Rightarrow> 'm list option" where
  "round_result T A inboxes =
     do { accs \<leftarrow> try_map (server_accumulate T A) inboxes;
          try_fold (acc_combine (vec_acc A)) (proto_new_accumulator T) accs }"

text \<open>Server \<open>p\<close> receives the tokens that the clients made for it, in any order.\<close>

definition delivered :: "nat \<Rightarrow> 'w list list \<Rightarrow> 'w list list \<Rightarrow> bool" where
  "delivered parties clients inboxes \<longleftrightarrow> length inboxes = parties
     \<and> (\<forall>p < parties. mset (inboxes ! p) = mset (map (\<lambda>tokens. tokens ! p) clients))"

text \<open>The tokens of all clients of a round, client \<open>i\<close> with its action and its randomness.\<close>

definition all_clients ::
    "('r, 'm, 'k, 'w, 't, 'x) protocol_ops_scheme \<Rightarrow> 'k list \<Rightarrow> 'm action list \<Rightarrow> 'r list \<Rightarrow> 'w list list option" where
  "all_clients T keys acts rs = try_map (\<lambda>(a, r). map_option fst (client_tokens T keys a r)) (zip acts rs)"

locale protocol_round =
  vdpf_contract V valid validA + linear_dpf M valid V validK out + acc: accumulatable M valid A params
  for V :: "('r, 'k, 'm, 'a, 'p, 't, 'x) vdpf_ops_scheme" and valid :: "'m \<Rightarrow> bool" and validA :: "'a \<Rightarrow> bool"
    and M :: "'m monoid_ops" and validK :: "'k \<Rightarrow> bool" and out :: "'k \<Rightarrow> 'm list"
    and A :: "('m, 'q) acc_ops" and params :: 'q
begin

abbreviation T :: "('r, 'm, 'a, ('k, 'p) write_token, 't audit_share) protocol_ops" where
  "T \<equiv> wrapper_protocol V"

definition action_vec :: "'m action \<Rightarrow> 'm list" where
  "action_vec a = (case a of Broadcast i m \<Rightarrow> point_vec V i m | Cover \<Rightarrow> null_vec V)"

lemma new_accumulator_eq: "wrapper_new_accumulator V = m_zero VM"
  by (simp add: wrapper_new_accumulator_def null_message)

lemma server_accumulate_eq:
  assumes "list_all (\<lambda>t. validK (wt_key t)) tokens"
  shows "server_accumulate T A tokens = Some (fold_add VM (map (\<lambda>t. out (wt_key t)) tokens))"
proof -
  have "try_fold (\<lambda>acc token. do { v \<leftarrow> proto_to_accumulator T token; acc_combine (vec_acc A) acc v }) a tokens
      = try_fold (acc_combine (vec_acc A)) a (map (\<lambda>t. out (wt_key t)) tokens)" for a
    using assms by (induction tokens arbitrary: a) (simp_all add: wrapper_to_accumulator_def eval_eq)
  moreover have outs: "list_all (vec_valid valid (dpf_points V)) (map (\<lambda>t. out (wt_key t)) tokens)"
    using assms by (auto simp: list_all_iff out_valid)
  ultimately show ?thesis
    using acc.fold_vec_combine[OF vec_zero_valid outs] vec_zero_add[OF vec_fold_add_valid[OF outs]]
    by (simp add: server_accumulate_def new_accumulator_eq)
qed

text \<open>The combined result is the sum over the clients of the sum over the servers.\<close>

lemma round_result_eq:
  assumes clients: "\<And>tokens. tokens \<in> set clients \<Longrightarrow> length tokens = dpf_keys V \<and> list_all (\<lambda>t. validK (wt_key t)) tokens"
    and inboxes: "delivered (dpf_keys V) clients inboxes"
  shows "round_result T A inboxes
    = Some (fold_add VM (map (\<lambda>tokens. fold_add VM (map (\<lambda>t. out (wt_key t)) tokens)) clients))"
proof -
  let ?o = "\<lambda>t. out (wt_key t)" and ?n = "dpf_keys V"
  let ?acc = "\<lambda>inbox. fold_add VM (map ?o inbox)"
  have len: "length inboxes = ?n" and perm: "\<And>p. p < ?n \<Longrightarrow> mset (inboxes ! p) = mset (map (\<lambda>ts. ts ! p) clients)"
    using inboxes by (auto simp: delivered_def)
  have tok: "validK (wt_key (tokens ! p))" if "tokens \<in> set clients" "p < ?n" for tokens p
    using clients[OF that(1)] that(2) by (simp add: list_all_length)
  have valid_inbox: "list_all (\<lambda>t. validK (wt_key t)) (inboxes ! p)" if "p < ?n" for p
    using mset_eq_setD[OF perm[OF that]] tok[OF _ that] by (auto simp: list_all_iff)
  have "try_map (server_accumulate T A) inboxes = Some (map ?acc inboxes)"
    using valid_inbox len by (intro try_map_eq_map server_accumulate_eq) (auto simp: in_set_conv_nth)
  moreover have accs: "map ?acc inboxes = map (\<lambda>p. fold_add VM (map (\<lambda>tokens. ?o (tokens ! p)) clients)) [0..<?n]"
  proof (rule nth_equalityI)
    fix p
    assume "p < length (map ?acc inboxes)"
    then have p: "p < ?n" using len by simp
    have "mset (map ?o (inboxes ! p)) = mset (map ?o (map (\<lambda>ts. ts ! p) clients))"
      using perm[OF p] by (metis mset_map)
    then have "?acc (inboxes ! p) = fold_add VM (map ?o (map (\<lambda>ts. ts ! p) clients))"
      using valid_inbox[OF p] by (intro comm_monoid_laws.fold_add_mset[OF vec_monoid_laws]) (auto simp: list_all_iff out_valid)
    then show "map ?acc inboxes ! p = map (\<lambda>p. fold_add VM (map (\<lambda>tokens. ?o (tokens ! p)) clients)) [0..<?n] ! p"
      using p len by (simp add: comp_def)
  qed (simp add: len)
  moreover have "list_all (vec_valid valid (dpf_points V)) (map ?acc inboxes)"
    using valid_inbox len by (auto simp: list_all_length intro!: vec_fold_add_valid) (auto simp: out_valid)
  ultimately have "round_result T A inboxes
      = Some (fold_add VM (map (\<lambda>p. fold_add VM (map (\<lambda>tokens. ?o (tokens ! p)) clients)) [0..<?n]))"
    using acc.fold_vec_combine[OF vec_zero_valid, of "dpf_points V" "map ?acc inboxes"]
      vec_zero_add[OF vec_fold_add_valid, of "dpf_points V" "map ?acc inboxes"]
    by (simp add: round_result_def new_accumulator_eq)
  also have "fold_add VM (map (\<lambda>p. fold_add VM (map (\<lambda>tokens. ?o (tokens ! p)) clients)) [0..<?n])
      = fold_add VM (map (\<lambda>tokens. fold_add VM (map (\<lambda>p. ?o (tokens ! p)) [0..<?n])) clients)"
    using tok by (intro comm_monoid_laws.fold_add_exchange[OF vec_monoid_laws]) (auto simp: out_valid)
  also have "map (\<lambda>tokens. fold_add VM (map (\<lambda>p. ?o (tokens ! p)) [0..<?n])) clients
      = map (\<lambda>tokens. fold_add VM (map ?o tokens)) clients"
  proof (rule map_cong[OF refl])
    fix tokens
    assume "tokens \<in> set clients"
    then have "length tokens = ?n" using clients by blast
    then have "map (\<lambda>p. ?o (tokens ! p)) [0..<?n] = map ?o tokens" by (intro nth_equalityI) auto
    then show "fold_add VM (map (\<lambda>p. ?o (tokens ! p)) [0..<?n]) = fold_add VM (map ?o tokens)" by simp
  qed
  finally show ?thesis .
qed

text \<open>The tokens of honest clients.\<close>

lemma client_tokens_spec:
  assumes act: "action_valid valid (dpf_points V) a" and keys: "vec_valid validA (dpf_points V) keys"
  shows "\<exists>tokens r'. client_tokens T keys a r = Some (tokens, r') \<and> length tokens = dpf_keys V
    \<and> list_all (\<lambda>t. validK (wt_key t)) tokens
    \<and> fold_add VM (map (\<lambda>t. out (wt_key t)) tokens) = action_vec a
    \<and> audit_verdicts T keys tokens = Some (replicate (dpf_keys V) True)"
proof (cases a)
  case (Broadcast i m)
  then have i: "i < dpf_points V" "valid m" using act by simp_all
  obtain ks r1 where ks: "dpf_gen V m i r = Some (ks, r1)" "length ks = dpf_keys V" "list_all validK ks"
      "fold_add VM (map out ks) = point_vec V i m"
    using gen_spec[OF i(2,1)] by blast
  obtain ps r2 where ps: "vdpf_gen_proofs V (keys ! i) i ks r1 = Some (ps, r2)" "length ps = dpf_keys V"
      "vdpf_audit V keys ks ps = Some True"
    using proofs_complete[OF i(2,1) keys ks(1)] by blast
  let ?ts = "map2 write_token_new ks ps"
  have ts: "map wt_key ?ts = ks" "map wt_proof ?ts = ps" "length ?ts = dpf_keys V"
    using tokens_unzip[of ks ps] ks(2) ps(2) by simp_all
  have "list_all (\<lambda>t. validK (wt_key t)) ?ts" using ks(3) ts(1) by (metis list_all_map_iff)
  moreover have "map (\<lambda>t. out (wt_key t)) ?ts = map out ks"
    using arg_cong[OF ts(1), of "map out"] by (simp only: map_map comp_def)
  moreover have "client_tokens T keys a r = Some (?ts, r2)"
    using Broadcast vec_valid_length[OF keys] i ks(1) ps(1) by (simp add: wrapper_broadcast_def)
  ultimately show ?thesis
    using Broadcast ks(4) ts wrapper_verdicts[of ?ts V keys True] ps(3)
    by (simp add: action_vec_def del: map_map)
next
  case Cover
  obtain ks r1 where ks: "dpf_gen_empty V r = Some (ks, r1)" "length ks = dpf_keys V" "list_all validK ks"
      "fold_add VM (map out ks) = null_vec V"
    using gen_empty_spec by blast
  obtain ps r2 where ps: "vdpf_gen_proofs_noop V r1 = Some (ps, r2)" "length ps = dpf_keys V"
      "vdpf_audit V keys ks ps = Some True"
    using noop_complete[OF keys ks(1)] by blast
  let ?ts = "map2 write_token_new ks ps"
  have ts: "map wt_key ?ts = ks" "map wt_proof ?ts = ps" "length ?ts = dpf_keys V"
    using tokens_unzip[of ks ps] ks(2) ps(2) by simp_all
  have "list_all (\<lambda>t. validK (wt_key t)) ?ts" using ks(3) ts(1) by (metis list_all_map_iff)
  moreover have "map (\<lambda>t. out (wt_key t)) ?ts = map out ks"
    using arg_cong[OF ts(1), of "map out"] by (simp only: map_map comp_def)
  moreover have "client_tokens T keys a r = Some (?ts, r2)"
    using Cover ks(1) ps(1) by (simp add: wrapper_cover_def)
  ultimately show ?thesis
    using Cover ks(4) ts wrapper_verdicts[of ?ts V keys True] ps(3)
    by (simp add: action_vec_def del: map_map)
qed

lemma action_vec_valid: "action_valid valid (dpf_points V) a \<Longrightarrow> vec_valid valid (dpf_points V) (action_vec a)"
  by (cases a) (simp_all add: action_vec_def point_vec_def null_vec_def null_message vec_valid_def list_all_update zero_valid)

lemma sum_actions_nth:
  assumes "list_all (action_valid valid (dpf_points V)) acts" "j < dpf_points V"
  shows "fold_add VM (map action_vec acts) ! j = fold_add M (channel_messages j acts)"
proof -
  have "list_all (vec_valid valid (dpf_points V)) (map action_vec acts)"
    using assms(1) by (auto simp: list_all_iff action_vec_valid)
  then have "fold_add VM (map action_vec acts) ! j = fold_add M (map (\<lambda>a. action_vec a ! j) acts)"
    using fold_vec_nth[OF _ assms(2)] by (simp add: comp_def)
  also have "\<dots> = fold_add M (channel_messages j acts) \<and> list_all valid (channel_messages j acts)
      \<and> list_all valid (map (\<lambda>a. action_vec a ! j) acts)"
    using assms
    by (induction acts rule: channel_messages.induct)
      (auto simp: fold_add_Nil fold_add_Cons action_vec_def point_vec_def null_vec_def null_message zero_valid
        zero_add fold_add_valid nth_list_update)
  finally show ?thesis by simp
qed

text \<open>The result of a round with honest clients.\<close>

lemma round_correct:
  assumes acts: "list_all (action_valid valid (dpf_points V)) acts" and keys: "vec_valid validA (dpf_points V) keys"
    and clients: "list_all2 (\<lambda>a tokens. \<exists>r r'. client_tokens T keys a r = Some (tokens, r')) acts clients"
    and inboxes: "delivered (dpf_keys V) clients inboxes"
  shows "round_result T A inboxes = Some (map (\<lambda>j. fold_add M (channel_messages j acts)) [0..<dpf_points V])"
proof -
  have spec: "length tokens = dpf_keys V \<and> list_all (\<lambda>t. validK (wt_key t)) tokens
      \<and> fold_add VM (map (\<lambda>t. out (wt_key t)) tokens) = action_vec a"
    if "action_valid valid (dpf_points V) a" "client_tokens T keys a r = Some (tokens, r')" for a tokens r r'
    using client_tokens_spec[OF that(1) keys, of r] that(2) by auto
  have "map (\<lambda>tokens. fold_add VM (map (\<lambda>t. out (wt_key t)) tokens)) clients = map action_vec acts
      \<and> (\<forall>tokens \<in> set clients. length tokens = dpf_keys V \<and> list_all (\<lambda>t. validK (wt_key t)) tokens)"
    using clients acts by (induction rule: list_all2_induct) (auto dest: spec)
  then have "round_result T A inboxes = Some (fold_add VM (map action_vec acts))"
    using round_result_eq[OF _ inboxes] by simp
  moreover have "list_all (vec_valid valid (dpf_points V)) (map action_vec acts)"
    using acts by (auto simp: list_all_iff action_vec_valid)
  then have "fold_add VM (map action_vec acts) = map (\<lambda>j. fold_add M (channel_messages j acts)) [0..<dpf_points V]"
    using length_fold_vec sum_actions_nth[OF acts] by (intro nth_equalityI) simp_all
  ultimately show ?thesis by simp
qed

text \<open>A whole round never panics, every honest client passes the audit of every server, and the combined
  result is the sum of the messages of each channel.\<close>

lemma round_run:
  assumes acts: "list_all (action_valid valid (dpf_points V)) acts" and keys: "vec_valid validA (dpf_points V) keys"
    and rs: "length rs = length acts"
  shows "\<exists>clients. all_clients T keys acts rs = Some clients
    \<and> list_all (\<lambda>tokens. audit_verdicts T keys tokens = Some (replicate (dpf_keys V) True)) clients
    \<and> (\<forall>inboxes. delivered (dpf_keys V) clients inboxes \<longrightarrow>
        round_result T A inboxes = Some (map (\<lambda>j. fold_add M (channel_messages j acts)) [0..<dpf_points V]))"
proof -
  have "\<exists>clients. all_clients T keys acts rs = Some clients
      \<and> list_all (\<lambda>tokens. audit_verdicts T keys tokens = Some (replicate (dpf_keys V) True)) clients
      \<and> list_all2 (\<lambda>a tokens. \<exists>r r'. client_tokens T keys a r = Some (tokens, r')) acts clients"
    using acts rs[symmetric]
  proof (induction acts rs rule: list_induct2')
    case (4 a acts r rs)
    obtain tokens r' where t: "client_tokens T keys a r = Some (tokens, r')"
        "audit_verdicts T keys tokens = Some (replicate (dpf_keys V) True)"
      using client_tokens_spec[OF _ keys, of a r] 4 by auto
    then show ?case using 4 by (fastforce simp: all_clients_def)
  qed (simp_all add: all_clients_def)
  then show ?thesis using round_correct[OF acts keys] by blast
qed

lemma channel_messages_valid:
  "list_all (action_valid valid k) acts \<Longrightarrow> list_all valid (channel_messages j acts)"
  by (induction acts rule: channel_messages.induct) auto

end

end
