(* ===== verification/Constructions.thy ===== *)
theory Constructions
  imports Protocol
begin

text \<open>
  The constructions the system runs with: \<open>spectrum_primitives/src/constructions/mod.rs\<close> and
  \<open>spectrum_primitives/src/lib.rs\<close>. \<open>TwoKeyVdpf\<close> and \<open>TwoKeyPubVdpf\<close> use the AES generator and
  messages of bytes, \<open>MultiKeyVdpf\<close> the group generator over the curve.

  Everything external is collected in one record, and what it is relied on for in the locale \<open>crypto\<close>.
  There all three constructions are shown to give correct rounds. The locale is interpreted on the
  residue model of the curve library.
\<close>

record ('r, 'fr, 'sp, 'h, 'e) crypto_env =
  env_fr :: "'fr fr_ops"
  env_sp :: "('fr, 'sp) sp_ops"
  env_encrypt :: "'e cipher"
  env_fill :: "bytes \<Rightarrow> ('r, bytes) sampler"
  env_random_fr :: "('r, 'fr) sampler"
  env_random_sp :: "('r, 'sp) sampler"
  env_gen_bool :: "('r, bool) sampler"
  env_hasher :: "'h hasher_ops"

definition bytes_xor_ops :: "bytes xor_ops" where
  "bytes_xor_ops = \<lparr> x_bitxor = bytes_bitxor, x_bitxor_assign = bytes_bitxor_assign \<rparr>"

text \<open>\<open>AesSeed: TryInto<AuthKey>\<close> is the infallible \<open>From\<close>, whose \<open>unwrap\<close> may panic; a panic and a failed
  conversion that the caller unwraps are the same.\<close>

definition aes_seed_to_auth_key :: "'fr fr_ops \<Rightarrow> aes_seed \<Rightarrow> unit + 'fr scalar" where
  "aes_seed_to_auth_key R s = (case scalar_from_aes_seed R s of None \<Rightarrow> Inl () | Some a \<Rightarrow> Inr a)"

definition two_key_vdpf ::
    "('r, 'fr, 'sp, 'h, 'e) crypto_env \<Rightarrow> nat \<Rightarrow> nat
     \<Rightarrow> ('r, (bytes, aes_seed) two_key, bytes, 'fr scalar, 'fr scalar proof_share, 'fr scalar token) vdpf_ops option" where
  "two_key_vdpf env channels msg_size =
     do { prg \<leftarrow> aes_prg_new msg_size;
          Some (two_key_vdpf_ops (scalar_field (env_fr env)) (scalar_sample (env_random_fr env))
            (aes_seed_to_auth_key (env_fr env)) (env_hasher env) (\<lambda>b. b) bytes_xor_ops (env_gen_bool env)
            (two_key_new (aes_prg_ops (env_encrypt env) (env_fill env) prg) channels)) }"

definition two_key_pub_vdpf ::
    "('r, 'fr, 'sp, 'h, 'e) crypto_env \<Rightarrow> nat \<Rightarrow> nat
     \<Rightarrow> ('r, (bytes, aes_seed) two_key, bytes, ('fr, 'sp) key_pair, 'sp curve_point proof_share,
         'sp curve_point token) vdpf_ops option" where
  "two_key_pub_vdpf env channels msg_size =
     do { prg \<leftarrow> aes_prg_new msg_size;
          Some (pub_vdpf_ops (env_fr env) (env_sp env) (scalar_sample (env_random_fr env))
            (point_sample (env_random_sp env)) (aes_seed_to_auth_key (env_fr env)) (env_hasher env) (\<lambda>b. b)
            bytes_xor_ops (env_gen_bool env)
            (two_key_new (aes_prg_ops (env_encrypt env) (env_fill env) prg) channels)) }"

definition multi_key_vdpf ::
    "('r, 'fr, 'sp, 'h, 'e) crypto_env \<Rightarrow> nat \<Rightarrow> nat \<Rightarrow> nat \<Rightarrow> 'r
     \<Rightarrow> ('r, ('sp curve_point list, 'fr scalar) multi_key, 'sp curve_point list, 'fr scalar, 'fr scalar proof_share,
         'fr scalar token) vdpf_ops \<times> 'r" where
  "multi_key_vdpf env channels groups msg_size r =
     (let F = scalar_field (env_fr env); sample = scalar_sample (env_random_fr env); G = curve_exp (env_sp env);
          (prg, r') = group_prg_random (point_sample (env_random_sp env)) (msg_size div 32 + 1) r
      in (multi_key_vdpf_ops F sample (group_shareable F sample) (env_hasher env) (point_to_vec (env_sp env))
            (ev_pow G) (multi_key_new (group_prg_ops G F sample prg) channels groups), r'))"

section \<open>Correctness\<close>

lemma linear_vdpf:
  "linear_dpf M valid D validK out \<Longrightarrow> linear_dpf M valid (vdpf_of_dpf D a as p pn g c) validK out"
  by (simp add: linear_dpf_def linear_dpf_axioms_def)

context two_key_vdpf_setup
begin

lemma two_key_round:
  "accumulatable xM valid A params \<Longrightarrow> protocol_round V valid validF xM (two_key_valid n) two_key_out A params"
  unfolding protocol_round_def
  using two_key_vdpf_contract linear_vdpf[OF two_key_linear] by (simp add: two_key_vdpf_ops_def)

end

context pub_vdpf_setup
begin

lemma pub_round:
  "accumulatable xM valid A params \<Longrightarrow> protocol_round V valid key_pair_valid xM (two_key_valid n) two_key_out A params"
  unfolding protocol_round_def
  using pub_vdpf_contract linear_vdpf[OF two_key_linear] by (simp add: pub_vdpf_ops_def)

end

context multi_key_vdpf_setup
begin

lemma multi_round:
  "accumulatable Out validO A params \<Longrightarrow> protocol_round V validO validS Out mk_valid mk_out A params"
  unfolding protocol_round_def
  using multi_key_vdpf_contract linear_vdpf[OF multi_key_linear] by (simp add: multi_key_vdpf_ops_def)

end

locale crypto = jubjub_crate "env_fr env" "env_sp env" validR frv validQ
  for env :: "('r, 'fr, 'sp, 'h, 'e) crypto_env" and validR :: "'fr \<Rightarrow> bool" and frv :: "'fr \<Rightarrow> nat"
    and validQ :: "'sp \<Rightarrow> bool" +
  assumes ctr: "ctr_mode (env_encrypt env)"
    and fill: "fill_in_place (env_fill env)"
    and random_fr: "sampler_in validR (env_random_fr env)"
    and random_sp: "sampler_in validQ (env_random_sp env)"
begin

abbreviation F :: "'fr scalar field_ops" where
  "F \<equiv> scalar_field (env_fr env)"

abbreviation sample :: "('r, 'fr scalar) sampler" where
  "sample \<equiv> scalar_sample (env_random_fr env)"

lemma sample_valid: "sampler_in validS sample"
  using random_fr by (auto simp: sampler_in_def scalar_sample_def split: prod.splits) (metis fst_conv)

lemma point_sample_valid: "sampler_in validP (point_sample (env_random_sp env))"
  using random_sp by (auto simp: sampler_in_def point_sample_def split: prod.splits) (metis fst_conv)

lemma aes_seed_convert:
  "aes_seed_valid s \<Longrightarrow>
   aes_seed_to_auth_key (env_fr env) s = Inr (the (scalar_from_aes_seed (env_fr env) s))
   \<and> validS (the (scalar_from_aes_seed (env_fr env) s))"
  using aes_seed_to_scalar[of s] by (auto simp: aes_seed_to_auth_key_def)

lemma aes_setup: "aes_prg_setup (env_encrypt env) (env_fill env)"
  by unfold_locales (rule ctr, rule fill)

lemma two_key_setup:
  "two_key_vdpf_setup bytes_bitxor bytes_bitxor_assign (bytes_empty (eval_size prg)) (\<lambda>b. length b = eval_size prg)
     (aes_prg_ops (env_encrypt env) (env_fill env) prg) aes_seed_valid F validS sample
     (aes_seed_to_auth_key (env_fr env)) (\<lambda>s. the (scalar_from_aes_seed (env_fr env) s))"
  by (intro two_key_vdpf_setup.intro two_key_vdpf_setup_axioms.intro aes_prg_setup.aes_xor_prg[OF aes_setup]
      scalar_ring sample_valid) (simp_all add: aes_seed_convert)

lemma pub_setup:
  "pub_vdpf_setup (env_fr env) (env_sp env) validR frv validQ
     bytes_bitxor bytes_bitxor_assign (bytes_empty (eval_size prg)) (\<lambda>b. length b = eval_size prg)
     (aes_prg_ops (env_encrypt env) (env_fill env) prg) aes_seed_valid sample (point_sample (env_random_sp env))
     (aes_seed_to_auth_key (env_fr env)) (\<lambda>s. the (scalar_from_aes_seed (env_fr env) s))"
  by (intro pub_vdpf_setup.intro pub_vdpf_setup_axioms.intro aes_prg_setup.aes_xor_prg[OF aes_setup]
      jubjub_crate_axioms sample_valid point_sample_valid) (simp_all add: aes_seed_convert)

lemma multi_setup:
  assumes "group_prg_random (point_sample (env_random_sp env)) k r = (prg, r')" "2 \<le> groups" "0 < channels"
  shows "multi_key_vdpf_setup (vec_monoid (curve_exp (env_sp env)) k) (vec_valid validP k) F validS
     (group_prg_ops (curve_exp (env_sp env)) F sample prg) (ev_pow (curve_exp (env_sp env)))
     (group_prg_eval (curve_exp (env_sp env)) prg) sample channels groups"
proof -
  have gens: "list_all validP (generators prg)" "group_prg_len prg = k"
    using assms(1) repeat_with_take_in[OF point_sample_valid] repeat_with_take_length
    by (fastforce simp: group_prg_random_def group_prg_new_def group_prg_len_def split: prod.splits)+
  have "group_prg_setup (curve_exp (env_sp env)) validP F validS sample prg"
    by (intro group_prg_setup.intro group_prg_setup_axioms.intro curve_exp_laws sample_valid gens)
  from group_prg_setup.group_prg_seed_homomorphic[OF this] gens(2)
  have "seed_homomorphic_prg (vec_monoid (curve_exp (env_sp env)) k) (vec_valid validP k) F validS
     (group_prg_ops (curve_exp (env_sp env)) F sample prg) (ev_pow (curve_exp (env_sp env)))
     (group_prg_eval (curve_exp (env_sp env)) prg)" by simp
  then show ?thesis
    by (intro multi_key_vdpf_setup.intro multi_key_setup.intro multi_key_setup_axioms.intro sample_valid assms)
qed

text \<open>The three constructions, as the constructors of \<open>lib.rs\<close> make them.\<close>

lemma two_key_vdpf_round:
  assumes "two_key_vdpf env channels msg_size = Some V"
  shows "\<exists>validK out. protocol_round V (\<lambda>b. length b = msg_size) validS
    \<lparr> m_zero = bytes_empty msg_size, m_add = bytes_xor.xor \<rparr> validK out bytes_acc msg_size"
    and "dpf_points V = channels" "dpf_keys V = 2"
proof -
  obtain prg where prg: "aes_prg_new msg_size = Some prg" "eval_size prg = msg_size"
    "V = two_key_vdpf_ops F sample (aes_seed_to_auth_key (env_fr env)) (env_hasher env) (\<lambda>b. b) bytes_xor_ops
      (env_gen_bool env) (two_key_new (aes_prg_ops (env_encrypt env) (env_fill env) prg) channels)"
    using assms by (auto simp: two_key_vdpf_def bind_eq_Some_conv dest: aes_prg_new_size)
  show "\<exists>validK out. protocol_round V (\<lambda>b. length b = msg_size) validS
    \<lparr> m_zero = bytes_empty msg_size, m_add = bytes_xor.xor \<rparr> validK out bytes_acc msg_size"
    unfolding prg(3) bytes_xor_ops_def
    using two_key_vdpf_setup.two_key_round[OF two_key_setup[of prg]] bytes_accumulator.accumulatable_axioms prg(2)
    by metis
  show "dpf_points V = channels" "dpf_keys V = 2" by (simp_all add: prg(3) two_key_vdpf_ops_def)
qed

lemma two_key_pub_vdpf_round:
  assumes "two_key_pub_vdpf env channels msg_size = Some V"
  shows "\<exists>validK out. protocol_round V (\<lambda>b. length b = msg_size)
    (\<lambda>k. validS (kp_private k) \<and> k = key_pair_from (env_sp env) (kp_private k))
    \<lparr> m_zero = bytes_empty msg_size, m_add = bytes_xor.xor \<rparr> validK out bytes_acc msg_size"
    and "dpf_points V = channels" "dpf_keys V = 2"
proof -
  obtain prg where prg: "aes_prg_new msg_size = Some prg" "eval_size prg = msg_size"
    "V = pub_vdpf_ops (env_fr env) (env_sp env) sample (point_sample (env_random_sp env))
      (aes_seed_to_auth_key (env_fr env)) (env_hasher env) (\<lambda>b. b) bytes_xor_ops
      (env_gen_bool env) (two_key_new (aes_prg_ops (env_encrypt env) (env_fill env) prg) channels)"
    using assms by (auto simp: two_key_pub_vdpf_def bind_eq_Some_conv dest: aes_prg_new_size)
  have valid: "pub_vdpf_setup.key_pair_valid (env_sp env) validR
      = (\<lambda>k. validS (kp_private k) \<and> k = key_pair_from (env_sp env) (kp_private k))"
    using pub_vdpf_setup.key_pair_valid_def[OF pub_setup[of prg]] by (simp add: fun_eq_iff)
  show "\<exists>validK out. protocol_round V (\<lambda>b. length b = msg_size)
    (\<lambda>k. validS (kp_private k) \<and> k = key_pair_from (env_sp env) (kp_private k))
    \<lparr> m_zero = bytes_empty msg_size, m_add = bytes_xor.xor \<rparr> validK out bytes_acc msg_size"
    unfolding prg(3) bytes_xor_ops_def valid[symmetric]
    using pub_vdpf_setup.pub_round[OF pub_setup[of prg]] bytes_accumulator.accumulatable_axioms prg(2)
    by metis
  show "dpf_points V = channels" "dpf_keys V = 2" by (simp_all add: prg(3) pub_vdpf_ops_def)
qed

lemma multi_key_vdpf_round:
  assumes "multi_key_vdpf env channels groups msg_size r = (V, r')" "2 \<le> groups" "0 < channels"
  shows "\<exists>validK out. protocol_round V (vec_valid validP (msg_size div 32 + 1)) validS
    (vec_monoid (curve_exp (env_sp env)) (msg_size div 32 + 1)) validK out
    (ev_acc (curve_exp (env_sp env))) (Some (msg_size div 32 + 1))"
    and "dpf_points V = channels" "dpf_keys V = groups"
proof -
  let ?k = "msg_size div 32 + 1"
  obtain prg r1 where prg: "group_prg_random (point_sample (env_random_sp env)) ?k r = (prg, r1)" by fastforce
  then have V: "V = multi_key_vdpf_ops F sample (group_shareable F sample) (env_hasher env) (point_to_vec (env_sp env))
      (ev_pow (curve_exp (env_sp env)))
      (multi_key_new (group_prg_ops (curve_exp (env_sp env)) F sample prg) channels groups)"
    using assms(1) by (simp add: multi_key_vdpf_def Let_def)
  have "accumulatable (vec_monoid (curve_exp (env_sp env)) ?k) (vec_valid validP ?k) (ev_acc (curve_exp (env_sp env))) (Some ?k)"
    using curve_exp_laws unfolding exp_laws_def ab_group_laws_def by (blast intro: comm_monoid_laws.ev_accumulatable)
  then show "\<exists>validK out. protocol_round V (vec_valid validP ?k) validS
    (vec_monoid (curve_exp (env_sp env)) ?k) validK out (ev_acc (curve_exp (env_sp env))) (Some ?k)"
    unfolding V using multi_key_vdpf_setup.multi_round[OF multi_setup[OF prg assms(2,3)]] by metis
  show "dpf_points V = channels" "dpf_keys V = groups" by (simp_all add: V multi_key_vdpf_ops_def)
qed

text \<open>The verdict on a client that claims the channel \<open>idx\<close> with the key \<open>key\<close>: both servers accept
  exactly the right key.\<close>

lemma two_key_broadcast_verdict:
  assumes V: "two_key_vdpf env channels msg_size = Some V" and msg: "length msg = msg_size" "idx < channels"
    and keys: "vec_valid validS channels keys" "validS key"
  shows "\<exists>tokens r'. wrapper_broadcast V msg idx key r = Some (tokens, r')
    \<and> length tokens = 2 \<and> audit_verdicts (wrapper_protocol V) keys tokens = Some [key = keys ! idx, key = keys ! idx]"
proof -
  obtain prg where prg: "aes_prg_new msg_size = Some prg" "eval_size prg = msg_size"
    "V = two_key_vdpf_ops F sample (aes_seed_to_auth_key (env_fr env)) (env_hasher env) (\<lambda>b. b) bytes_xor_ops
      (env_gen_bool env) (two_key_new (aes_prg_ops (env_encrypt env) (env_fill env) prg) channels)"
    using V by (auto simp: two_key_vdpf_def bind_eq_Some_conv dest: aes_prg_new_size)
  note inst = two_key_setup[of prg]
  obtain ks r1 where ks: "dpf_gen V msg idx r = Some (ks, r1)" "length ks = 2"
    using xor_prg.two_key_gen_spec[OF aes_prg_setup.aes_xor_prg[OF aes_setup], of msg prg idx channels] msg prg(2)
    by (fastforce simp: prg(3) two_key_vdpf_ops_def bytes_xor_ops_def)
  obtain ps r2 where ps: "vdpf_gen_proofs V key idx ks r1 = Some (ps, r2)" "length ps = 2"
      "vdpf_audit V keys ks ps = Some (key = keys ! idx)"
    using two_key_vdpf_setup.two_key_audit_exact[OF inst, of "env_gen_bool env" channels msg idx r ks r1 keys key r1
        "env_hasher env" "\<lambda>b. b"] ks(1) keys
    by (auto simp: prg(3) two_key_vdpf_ops_def bytes_xor_ops_def)
  show ?thesis
    using broadcast_verdicts[OF ks(1) ps(1) _ _ ps(3)] ks(2) ps(2)
    by (auto simp: prg(3) two_key_vdpf_ops_def numeral_2_eq_2)
qed

lemma multi_key_broadcast_verdict:
  assumes V: "multi_key_vdpf env channels groups msg_size r = (V, r')" and groups: "2 \<le> groups"
    and msg: "vec_valid validP (msg_size div 32 + 1) msg" "idx < channels"
    and keys: "vec_valid validS channels keys" "validS key"
  shows "\<exists>tokens s'. wrapper_broadcast V msg idx key s = Some (tokens, s')
    \<and> length tokens = groups \<and> audit_verdicts (wrapper_protocol V) keys tokens = Some (replicate groups (key = keys ! idx))"
proof -
  let ?k = "msg_size div 32 + 1"
  obtain prg r1 where prg: "group_prg_random (point_sample (env_random_sp env)) ?k r = (prg, r1)" by fastforce
  have V': "V = multi_key_vdpf_ops F sample (group_shareable F sample) (env_hasher env) (point_to_vec (env_sp env))
      (ev_pow (curve_exp (env_sp env)))
      (multi_key_new (group_prg_ops (curve_exp (env_sp env)) F sample prg) channels groups)"
    using V prg by (simp add: multi_key_vdpf_def Let_def)
  have inst: "multi_key_vdpf_setup (vec_monoid (curve_exp (env_sp env)) ?k) (vec_valid validP ?k) F validS
     (group_prg_ops (curve_exp (env_sp env)) F sample prg) (ev_pow (curve_exp (env_sp env)))
     (group_prg_eval (curve_exp (env_sp env)) prg) sample channels groups"
    using prg groups msg(2) by (intro multi_setup) auto
  obtain ks s1 where ks: "dpf_gen V msg idx s = Some (ks, s1)" "length ks = groups"
    using multi_key_setup.multi_key_gen_spec[OF multi_key_vdpf_setup.axioms(1)[OF inst] msg, of s]
    by (fastforce simp: V' multi_key_vdpf_ops_def)
  obtain ps s2 where ps: "vdpf_gen_proofs V key idx ks s1 = Some (ps, s2)" "length ps = groups"
      "vdpf_audit V keys ks ps = Some (key = keys ! idx)"
    using multi_key_vdpf_setup.multi_key_audit_exact[OF inst _ msg keys, of s ks s1 s1 "env_hasher env" "point_to_vec (env_sp env)"] ks(1)
    by (auto simp: V' multi_key_vdpf_ops_def)
  show ?thesis
    using broadcast_verdicts[OF ks(1) ps(1) _ _ ps(3)] ks(2) ps(2)
    by (auto simp: V' multi_key_vdpf_ops_def)
qed

lemma pub_forged_round:
  assumes V: "two_key_pub_vdpf env channels msg_size = Some V" and msg: "length msg = msg_size" "idx < channels"
    and keys: "vec_valid validS channels privates"
    and bits: "length bits = channels" and seeds: "length seeds = channels" "list_all aes_seed_valid seeds"
    and ps: "vdpf_gen_proofs_noop V r = Some (ps, r')"
  shows "vdpf_audit V (map (key_pair_from (env_sp env)) privates)
      [two_key_key msg bits seeds, two_key_key msg (bits[idx := \<not> bits ! idx]) seeds] ps = Some True
    \<and> dpf_run V [two_key_key msg bits seeds, two_key_key msg (bits[idx := \<not> bits ! idx]) seeds]
      = Some ((replicate channels (bytes_empty msg_size))[idx := msg])"
proof -
  obtain prg where prg: "aes_prg_new msg_size = Some prg" "eval_size prg = msg_size"
    "V = pub_vdpf_ops (env_fr env) (env_sp env) sample (point_sample (env_random_sp env))
      (aes_seed_to_auth_key (env_fr env)) (env_hasher env) (\<lambda>b. b) bytes_xor_ops
      (env_gen_bool env) (two_key_new (aes_prg_ops (env_encrypt env) (env_fill env) prg) channels)"
    using V by (auto simp: two_key_pub_vdpf_def bind_eq_Some_conv dest: aes_prg_new_size)
  have "vec_valid (pub_vdpf_setup.key_pair_valid (env_sp env) validR) channels (map (key_pair_from (env_sp env)) privates)"
    using keys pub_vdpf_setup.key_pair_valid_def[OF pub_setup[of prg]]
    by (auto simp: vec_valid_def list_all_iff key_pair_from_def)
  then show ?thesis
    using pub_vdpf_setup.pub_forged[OF pub_setup[of prg] _ msg(2) _ bits seeds refl, of msg] msg(1) prg(2) ps
    by (simp add: prg(3) bytes_xor_ops_def) (simp add: pub_vdpf_ops_def)
qed

end

section \<open>A concrete environment\<close>

text \<open>The residue model of the curve, the repeating-key cipher, a counter as the source of randomness,
  and a hasher that adds up what it is given.\<close>

definition sum_hasher :: "nat hasher_ops" where
  "sum_hasher = \<lparr> h_new = 0, h_update = (\<lambda>h b. h + le_value b), h_update_with_join = (\<lambda>h b. h + le_value b),
     h_finalize = le_digits 32 \<rparr>"

definition residue_env :: "(nat, nat, nat, nat, unit) crypto_env" where
  "residue_env = \<lparr> env_fr = residue_fr, env_sp = residue_sp, env_encrypt = repeating_key, env_fill = counting_fill,
     env_random_fr = (\<lambda>r. (r mod jubjub_order, r + 7)), env_random_sp = (\<lambda>r. (r mod jubjub_order, r + 5)),
     env_gen_bool = (\<lambda>r. (even r, r + 3)), env_hasher = sum_hasher \<rparr>"

lemma residue_env_sel [simp]:
  "env_fr residue_env = residue_fr" "env_sp residue_env = residue_sp" "env_encrypt residue_env = repeating_key"
  "env_fill residue_env = counting_fill" "env_random_fr residue_env = (\<lambda>r. (r mod jubjub_order, r + 7))"
  "env_random_sp residue_env = (\<lambda>r. (r mod jubjub_order, r + 5))"
  by (simp_all add: residue_env_def)

interpretation residue_crypto: crypto residue_env "\<lambda>x. x < jubjub_order" "\<lambda>x. x" "\<lambda>x. x < jubjub_order"
proof (intro crypto.intro crypto_axioms.intro)
  show "jubjub_crate (env_fr residue_env) (env_sp residue_env) (\<lambda>x. x < jubjub_order) (\<lambda>x. x) (\<lambda>x. x < jubjub_order)"
    by (simp add: residues.jubjub_crate_axioms)
  show "ctr_mode (env_encrypt residue_env)" "fill_in_place (env_fill residue_env)"
    by (simp_all add: repeating_key_ctr counting_fill_in_place)
  show "sampler_in (\<lambda>x. x < jubjub_order) (env_random_fr residue_env)"
    "sampler_in (\<lambda>x. x < jubjub_order) (env_random_sp residue_env)"
    using jubjub_order_bounds by (simp_all add: sampler_in_def)
qed

end
