(* ===== verification/Codec.thy ===== *)
theory Codec
  imports Constructions
begin

text \<open>
  The wire formats of \<open>spectrum_protocol/src/secure.rs\<close>: conversions between keys, proof shares, tokens
  and accumulators and the messages of \<open>spectrum_protocol/proto/protocol.proto\<close>. A message type is a
  record with the fields of its declaration; \<open>repeated bytes\<close> is a list and a \<open>oneof\<close> or a nested message
  an option, as \<open>prost\<close> generates them.

  A decoder returns \<open>None\<close> for a panic, \<open>Inl\<close> for an error and \<open>Inr\<close> for a value. The locale \<open>codec\<close> is the
  contract of \<open>check_roundtrip!\<close>.
\<close>

record proto_dpf_key =
  pk_encoded_msg :: bytes
  pk_bits :: "bytes list"
  pk_seeds :: "bytes list"

record proto_proof_share =
  pp_bit :: bytes
  pp_seed :: bytes

record proto_secure_write_token =
  pw_key :: "proto_dpf_key option"
  pw_proof :: "proto_proof_share option"

record proto_secure_audit_share =
  pa_bit :: bytes
  pa_seed :: bytes
  pa_data :: bytes

datatype proto_write_token_inner = WriteTokenSecure proto_secure_write_token

record proto_write_token =
  pwt_inner :: "proto_write_token_inner option"

datatype proto_audit_share_inner = AuditShareSecure proto_secure_audit_share

record proto_audit_share =
  pas_inner :: "proto_audit_share_inner option"

record proto_share =
  psh_data :: "bytes list"

type_synonym ('w, 'x) decoder = "'w \<Rightarrow> (string + 'x) option"

text \<open>\<open>opt.ok_or(msg)?\<close> and \<open>x.try_into().map_err(|_| msg)?\<close> inside a decoder.\<close>

definition ok_or :: "'x option \<Rightarrow> string \<Rightarrow> string + 'x" where
  "ok_or opt msg = (case opt of None \<Rightarrow> Inl msg | Some x \<Rightarrow> Inr x)"

definition map_err :: "'e + 'x \<Rightarrow> string \<Rightarrow> string + 'x" where
  "map_err res msg = (case res of Inl _ \<Rightarrow> Inl msg | Inr x \<Rightarrow> Inr x)"

definition and_then :: "('e + 'x) option \<Rightarrow> ('x \<Rightarrow> ('e + 'y) option) \<Rightarrow> ('e + 'y) option" where
  "and_then res f =
     do { x \<leftarrow> res; case x of Inl e \<Rightarrow> Some (Inl e) | Inr v \<Rightarrow> f v }"

section \<open>Keys of the two-key construction\<close>

definition bit_from_bytes :: "bytes \<Rightarrow> unit + bool" where
  "bit_from_bytes b =
     (if length b \<noteq> 1 then Inl ()
      else if b ! 0 = 0 then Inr False
      else if b ! 0 = 1 then Inr True
      else Inl ())"

definition two_key_key_try_from ::
    "(bytes \<Rightarrow> 'm) \<Rightarrow> (bytes \<Rightarrow> 'e + 's) \<Rightarrow> proto_dpf_key \<Rightarrow> string + ('m, 's) two_key" where
  "two_key_key_try_from msg_from seed_from proto =
     (let msg = msg_from (pk_encoded_msg proto)
      in case map_err (collect_result bit_from_bytes (pk_bits proto)) ''couldn't convert bits'' of
           Inl e \<Rightarrow> Inl e
         | Inr bits \<Rightarrow>
             (case map_err (collect_result seed_from (pk_seeds proto)) ''couldn't convert seeds'' of
                Inl e \<Rightarrow> Inl e
              | Inr seeds \<Rightarrow> Inr (two_key_key msg bits seeds)))"

definition two_key_key_into :: "('m \<Rightarrow> bytes) \<Rightarrow> ('s \<Rightarrow> bytes) \<Rightarrow> ('m, 's) two_key \<Rightarrow> proto_dpf_key" where
  "two_key_key_into msg_into seed_into key =
     \<lparr> pk_encoded_msg = msg_into (tk_encoded_msg key),
       pk_bits = map (\<lambda>b. [if b then 1 else 0]) (tk_bits key),
       pk_seeds = map seed_into (tk_seeds key) \<rparr>"

section \<open>Keys of the multi-key construction\<close>

text \<open>\<open>Key::new\<close> asserts that there are as many bits as seeds, so the decoder can panic.\<close>

definition multi_key_key_try_from ::
    "(bytes \<Rightarrow> 'e + 'm) \<Rightarrow> (bytes \<Rightarrow> 'f + 's) \<Rightarrow> (proto_dpf_key, ('m, 's) multi_key) decoder" where
  "multi_key_key_try_from msg_from seed_from proto =
     (case map_err (msg_from (pk_encoded_msg proto)) ''msg failed'' of
        Inl e \<Rightarrow> Some (Inl e)
      | Inr msg \<Rightarrow>
          (case map_err (collect_result seed_from (pk_bits proto)) ''bits failed'' of
             Inl e \<Rightarrow> Some (Inl e)
           | Inr bits \<Rightarrow>
               (case map_err (collect_result seed_from (pk_seeds proto)) ''seeds failed'' of
                  Inl e \<Rightarrow> Some (Inl e)
                | Inr seeds \<Rightarrow> map_option Inr (multi_key_key msg bits seeds))))"

definition multi_key_key_into :: "('m \<Rightarrow> bytes) \<Rightarrow> ('s \<Rightarrow> bytes) \<Rightarrow> ('m, 's) multi_key \<Rightarrow> proto_dpf_key" where
  "multi_key_key_into msg_into seed_into key =
     \<lparr> pk_encoded_msg = msg_into (mk_encoded_msg key),
       pk_bits = map seed_into (mk_bits key),
       pk_seeds = map seed_into (mk_seeds key) \<rparr>"

section \<open>Proof shares\<close>

text \<open>The decoders of the three types of proof shares convert the seed first.\<close>

definition two_key_proof_try_from :: "(bytes \<Rightarrow> 'e + 's) \<Rightarrow> proto_proof_share \<Rightarrow> string + 's proof_share" where
  "two_key_proof_try_from from_bytes proto =
     (case map_err (from_bytes (pp_seed proto)) ''can't convert seed'' of
        Inl e \<Rightarrow> Inl e
      | Inr seed \<Rightarrow>
          (case map_err (from_bytes (pp_bit proto)) ''can't convert bit'' of
             Inl e \<Rightarrow> Inl e
           | Inr b \<Rightarrow> Inr (proof_share_new seed b)))"

definition two_key_proof_into :: "('s \<Rightarrow> bytes) \<Rightarrow> 's proof_share \<Rightarrow> proto_proof_share" where
  "two_key_proof_into into p = \<lparr> pp_bit = into (ps_bit p), pp_seed = into (ps_seed p) \<rparr>"

definition pub_proof_try_from ::
    "('fr, 'sp) sp_ops \<Rightarrow> proto_proof_share \<Rightarrow> string + 'sp curve_point proof_share" where
  "pub_proof_try_from Q proto =
     (case map_err (point_try_from_vec Q (pp_seed proto)) ''can't convert seed'' of
        Inl e \<Rightarrow> Inl e
      | Inr seed \<Rightarrow>
          (case map_err (point_try_from_vec Q (pp_bit proto)) ''can't convert bit'' of
             Inl e \<Rightarrow> Inl e
           | Inr b \<Rightarrow> Inr (proof_share_new seed b)))"

definition pub_proof_into :: "('fr, 'sp) sp_ops \<Rightarrow> 'sp curve_point proof_share \<Rightarrow> proto_proof_share" where
  "pub_proof_into Q p = \<lparr> pp_bit = point_to_vec Q (ps_bit p), pp_seed = point_to_vec Q (ps_seed p) \<rparr>"

definition multi_key_proof_try_from :: "(bytes \<Rightarrow> 'e + 's) \<Rightarrow> proto_proof_share \<Rightarrow> string + 's proof_share" where
  "multi_key_proof_try_from from_bytes proto =
     (case map_err (from_bytes (pp_seed proto)) ''can't convert seed'' of
        Inl e \<Rightarrow> Inl e
      | Inr seed \<Rightarrow>
          (case map_err (from_bytes (pp_bit proto)) ''can't convert bit'' of
             Inl e \<Rightarrow> Inl e
           | Inr b \<Rightarrow> Inr (multi_proof_share_new b seed)))"

definition multi_key_proof_into :: "('s \<Rightarrow> bytes) \<Rightarrow> 's proof_share \<Rightarrow> proto_proof_share" where
  "multi_key_proof_into into p = \<lparr> pp_bit = into (ps_bit p), pp_seed = into (ps_seed p) \<rparr>"

section \<open>Write tokens\<close>

definition write_token_try_from ::
    "(proto_dpf_key, 'k) decoder \<Rightarrow> (proto_proof_share \<Rightarrow> string + 'p) \<Rightarrow> (proto_write_token, ('k, 'p) write_token) decoder" where
  "write_token_try_from key_from proof_from proto =
     (case ok_or (pwt_inner proto) ''no inner'' of
        Inl e \<Rightarrow> Some (Inl e)
      | Inr (WriteTokenSecure tok) \<Rightarrow>
          (case ok_or (pw_key tok) ''no key'' of
             Inl e \<Rightarrow> Some (Inl e)
           | Inr pkey \<Rightarrow>
               and_then (map_option (\<lambda>k. map_err k ''can't convert key'') (key_from pkey)) (\<lambda>key.
                 case ok_or (pw_proof tok) ''no proof'' of
                   Inl e \<Rightarrow> Some (Inl e)
                 | Inr pproof \<Rightarrow>
                     and_then (Some (map_err (proof_from pproof) ''can't convert proof'')) (\<lambda>pf.
                       Some (Inr (write_token_new key pf))))))"

definition write_token_into ::
    "('k \<Rightarrow> proto_dpf_key) \<Rightarrow> ('p \<Rightarrow> proto_proof_share) \<Rightarrow> ('k, 'p) write_token \<Rightarrow> proto_write_token" where
  "write_token_into key_into proof_into t =
     \<lparr> pwt_inner = Some (WriteTokenSecure
         \<lparr> pw_key = Some (key_into (wt_key t)), pw_proof = Some (proof_into (wt_proof t)) \<rparr>) \<rparr>"

section \<open>Audit tokens and shares\<close>

definition two_key_token_try_from :: "(bytes \<Rightarrow> 'e + 's) \<Rightarrow> proto_secure_audit_share \<Rightarrow> string + 's token" where
  "two_key_token_try_from from_bytes proto =
     (case map_err (from_bytes (pa_bit proto)) ''can't convert bit'' of
        Inl e \<Rightarrow> Inl e
      | Inr b \<Rightarrow>
          (case map_err (from_bytes (pa_seed proto)) ''can't convert seed'' of
             Inl e \<Rightarrow> Inl e
           | Inr seed \<Rightarrow> Inr (token_new seed b (pa_data proto))))"

definition two_key_token_into :: "('s \<Rightarrow> bytes) \<Rightarrow> 's token \<Rightarrow> proto_secure_audit_share" where
  "two_key_token_into into t =
     \<lparr> pa_bit = into (tok_bit t), pa_seed = into (tok_seed t), pa_data = tok_data t \<rparr>"

definition pub_token_try_from ::
    "('fr, 'sp) sp_ops \<Rightarrow> proto_secure_audit_share \<Rightarrow> string + 'sp curve_point token" where
  "pub_token_try_from Q proto =
     (case map_err (point_try_from_vec Q (pa_bit proto)) ''can't convert bit'' of
        Inl e \<Rightarrow> Inl e
      | Inr b \<Rightarrow>
          (case map_err (point_try_from_vec Q (pa_seed proto)) ''can't convert seed'' of
             Inl e \<Rightarrow> Inl e
           | Inr seed \<Rightarrow> Inr (token_new seed b (pa_data proto))))"

definition pub_token_into :: "('fr, 'sp) sp_ops \<Rightarrow> 'sp curve_point token \<Rightarrow> proto_secure_audit_share" where
  "pub_token_into Q t =
     \<lparr> pa_bit = point_to_vec Q (tok_bit t), pa_seed = point_to_vec Q (tok_seed t), pa_data = tok_data t \<rparr>"

definition multi_key_token_try_from :: "(bytes \<Rightarrow> 'e + 's) \<Rightarrow> proto_secure_audit_share \<Rightarrow> string + 's token" where
  "multi_key_token_try_from from_bytes proto =
     (case map_err (from_bytes (pa_bit proto)) ''can't convert bit'' of
        Inl e \<Rightarrow> Inl e
      | Inr b \<Rightarrow>
          (case map_err (from_bytes (pa_seed proto)) ''can't convert seed'' of
             Inl e \<Rightarrow> Inl e
           | Inr seed \<Rightarrow> Inr (token_new seed b (pa_data proto))))"

definition multi_key_token_into :: "('s \<Rightarrow> bytes) \<Rightarrow> 's token \<Rightarrow> proto_secure_audit_share" where
  "multi_key_token_into into t =
     \<lparr> pa_bit = into (tok_bit t), pa_seed = into (tok_seed t), pa_data = tok_data t \<rparr>"

definition audit_share_try_from ::
    "(proto_secure_audit_share \<Rightarrow> string + 't) \<Rightarrow> proto_audit_share \<Rightarrow> string + 't audit_share" where
  "audit_share_try_from token_from proto =
     (case ok_or (pas_inner proto) ''no enum'' of
        Inl e \<Rightarrow> Inl e
      | Inr (AuditShareSecure token_proto) \<Rightarrow>
          (case map_err (token_from token_proto) ''can't convert token'' of
             Inl e \<Rightarrow> Inl e
           | Inr tok \<Rightarrow> Inr (AuditShare tok)))"

definition audit_share_into :: "('t \<Rightarrow> proto_secure_audit_share) \<Rightarrow> 't audit_share \<Rightarrow> proto_audit_share" where
  "audit_share_into token_into s = \<lparr> pas_inner = Some (AuditShareSecure (token_into (share_token s))) \<rparr>"

section \<open>Accumulators\<close>

definition share_from_elements :: "('g \<Rightarrow> bytes) \<Rightarrow> 'g list list \<Rightarrow> proto_share" where
  "share_from_elements enc xs = \<lparr> psh_data = map (ev_to_vec enc) xs \<rparr>"

definition elements_try_from_share :: "(bytes \<Rightarrow> 'e + 'g) \<Rightarrow> proto_share \<Rightarrow> string + 'g list list" where
  "elements_try_from_share dec proto =
     map_err (collect_result (ev_try_from_vec dec) (psh_data proto)) ''conversion failed''"

definition bytes_try_from_share :: "proto_share \<Rightarrow> unit + bytes list" where
  "bytes_try_from_share share = Inr (map (\<lambda>d. d) (psh_data share))"

definition share_from_bytes :: "bytes list \<Rightarrow> proto_share" where
  "share_from_bytes xs = \<lparr> psh_data = map (\<lambda>d. d) xs \<rparr>"

section \<open>Round trips\<close>

locale codec =
  fixes enc :: "'x \<Rightarrow> 'w" and dec :: "'w \<Rightarrow> 'e + 'x" and valid :: "'x \<Rightarrow> bool"
  assumes roundtrip: "valid x \<Longrightarrow> dec (enc x) = Inr x"
begin

lemma enc_inj: "valid x \<Longrightarrow> valid y \<Longrightarrow> enc x = enc y \<Longrightarrow> x = y"
  by (metis Inr_inject roundtrip)

lemma list_roundtrip: "list_all valid xs \<Longrightarrow> collect_result dec (map enc xs) = Inr xs"
  by (rule collect_result_map) (auto simp: list_all_iff roundtrip)

end

lemma proof_share_codec:
  assumes "codec enc dec valid"
  shows "codec (two_key_proof_into enc) (two_key_proof_try_from dec) (\<lambda>p. valid (ps_seed p) \<and> valid (ps_bit p))"
    and "codec (multi_key_proof_into enc) (multi_key_proof_try_from dec) (\<lambda>p. valid (ps_seed p) \<and> valid (ps_bit p))"
  using codec.roundtrip[OF assms]
  by (unfold_locales; simp add: two_key_proof_try_from_def two_key_proof_into_def multi_key_proof_try_from_def
      multi_key_proof_into_def map_err_def proof_share_new_def multi_proof_share_new_def)+

lemma token_codec:
  assumes "codec enc dec valid"
  shows "codec (two_key_token_into enc) (two_key_token_try_from dec) (\<lambda>t. valid (tok_seed t) \<and> valid (tok_bit t))"
    and "codec (multi_key_token_into enc) (multi_key_token_try_from dec) (\<lambda>t. valid (tok_seed t) \<and> valid (tok_bit t))"
  using codec.roundtrip[OF assms]
  by (unfold_locales; simp add: two_key_token_try_from_def two_key_token_into_def multi_key_token_try_from_def
      multi_key_token_into_def map_err_def token_new_def)+

interpretation bits: codec "\<lambda>b. [if b then 1 else 0]" bit_from_bytes "\<lambda>_. True"
  by unfold_locales (simp add: bit_from_bytes_def)

interpretation aes_seeds: codec seed_bytes aes_seed_try_from aes_seed_valid
  by unfold_locales (simp add: aes_seed_try_from_def aes_seed_valid_def)

interpretation identity: codec "\<lambda>b. b" Inr "\<lambda>_. True"
  by unfold_locales simp

sublocale jubjub_crate \<subseteq> scalars: codec "scalar_to_bytes R" "scalar_try_from_vec R" validS
  by unfold_locales (rule scalar_vec_roundtrip)

sublocale jubjub_crate \<subseteq> points: codec "point_to_vec Q" "point_try_from_vec Q" validP
  by unfold_locales (rule point_vec_roundtrip)

lemma ev_to_vec_concat: "ev_to_vec enc v = concat (map enc v)"
proof -
  have "foldl (\<lambda>all_bytes element. all_bytes @ enc element) acc v = acc @ concat (map enc v)" for acc
    by (induction v arbitrary: acc) auto
  then show ?thesis by (simp add: ev_to_vec_def)
qed

lemma ev_codec:
  assumes "codec enc dec valid" "\<And>x. valid x \<Longrightarrow> length (enc x) = 32"
  shows "codec (ev_to_vec enc) (ev_try_from_vec dec) (list_all valid)"
proof
  fix v
  assume v: "list_all valid v"
  have "vec_chunks 32 (concat (map enc v)) = map enc v"
    using v assms(2) by (intro vec_chunks_concat) (auto simp: list_all_iff)
  then show "ev_try_from_vec dec (ev_to_vec enc v) = Inr v"
    using codec.list_roundtrip[OF assms(1) v] by (simp add: ev_try_from_vec_def ev_to_vec_concat)
qed

lemma ev_bytes_roundtrip:
  assumes "codec enc dec valid" "\<And>x. valid x \<Longrightarrow> length (enc x) = 32" "list_all valid v"
  shows "\<exists>b. ev_to_bytes enc v = Some b \<and> ev_try_from_bytes dec b = Some (Inr v)"
proof -
  have fold: "try_fold (\<lambda>all_bytes element. do { b \<leftarrow> vec_slice (enc element) 0 32; Some (all_bytes @ b) }) acc v
      = Some (acc @ concat (map enc v))" for acc
    using assms(2,3) by (induction v arbitrary: acc) (auto simp: vec_slice_def)
  have chunks: "vec_chunks 32 (concat (map enc v)) = map enc v"
    using assms(2,3) by (intro vec_chunks_concat) (auto simp: list_all_iff)
  have len: "length (concat (map enc v)) = length v * 32"
    using assms(2,3) by (induction v) auto
  show ?thesis
    using codec.list_roundtrip[OF assms(1,3)] fold[of "[]"] len
    by (simp add: ev_to_bytes_def ev_try_from_bytes_def chunks bytes_len_def)
qed

sublocale jubjub_crate \<subseteq> point_vectors: codec "ev_to_vec (point_to_vec Q)" "ev_try_from_vec (point_try_from_vec Q)" "list_all validP"
  by (intro ev_codec points.codec_axioms) (simp add: point_to_vec_def sp_bytes)

lemma two_key_key_codec:
  assumes "codec msg_into (\<lambda>b. Inr (msg_from b) :: unit + 'm) (\<lambda>_. True)" "codec seed_into seed_from (validS :: 's \<Rightarrow> bool)"
  shows "codec (two_key_key_into msg_into seed_into) (two_key_key_try_from msg_from seed_from)
    (\<lambda>k. list_all validS (tk_seeds k))"
proof
  fix k :: "('m, 's) two_key"
  assume "list_all validS (tk_seeds k)"
  then show "two_key_key_try_from msg_from seed_from (two_key_key_into msg_into seed_into k) = Inr k"
    using codec.list_roundtrip[OF assms(2)] bits.list_roundtrip[of "tk_bits k"] codec.roundtrip[OF assms(1), of "tk_encoded_msg k"]
    by (simp add: two_key_key_try_from_def two_key_key_into_def map_err_def list_all_iff two_key_key_def)
qed

lemma multi_key_key_roundtrip:
  assumes "codec msg_into msg_from validM" "codec seed_into seed_from validS"
    "validM (mk_encoded_msg k)" "list_all validS (mk_bits k)" "list_all validS (mk_seeds k)" "length (mk_bits k) = length (mk_seeds k)"
  shows "multi_key_key_try_from msg_from seed_from (multi_key_key_into msg_into seed_into k) = Some (Inr k)"
  using codec.list_roundtrip[OF assms(2,4)] codec.list_roundtrip[OF assms(2,5)] codec.roundtrip[OF assms(1,3)] assms(6)
  by (simp add: multi_key_key_try_from_def multi_key_key_into_def map_err_def multi_key_key_def)

lemma write_token_roundtrip:
  assumes "key_from (key_into (wt_key t)) = Some (Inr (wt_key t))" "proof_from (proof_into (wt_proof t)) = Inr (wt_proof t)"
  shows "write_token_try_from key_from proof_from (write_token_into key_into proof_into t) = Some (Inr t)"
  using assms
  by (simp add: write_token_try_from_def write_token_into_def ok_or_def and_then_def map_err_def write_token_new_def)

lemma audit_share_codec:
  assumes "codec token_into token_from valid"
  shows "codec (audit_share_into token_into) (audit_share_try_from token_from) (\<lambda>s. valid (share_token s))"
proof
  fix s
  assume "valid (share_token s)"
  then show "audit_share_try_from token_from (audit_share_into token_into s) = Inr s"
    using codec.roundtrip[OF assms] by (cases s) (simp add: audit_share_try_from_def audit_share_into_def ok_or_def map_err_def)
qed

text \<open>The messages of the two protocols over the curve.\<close>

context jubjub_crate
begin

lemma two_key_wire:
  assumes "list_all aes_seed_valid (tk_seeds (wt_key t))" "validS (ps_seed (wt_proof t))" "validS (ps_bit (wt_proof t))"
  shows "write_token_try_from (\<lambda>k. Some (two_key_key_try_from (\<lambda>b. b) aes_seed_try_from k)) (two_key_proof_try_from (scalar_try_from_vec R))
      (write_token_into (two_key_key_into (\<lambda>b. b) seed_bytes) (two_key_proof_into (scalar_to_bytes R)) t) = Some (Inr t)"
proof (rule write_token_roundtrip)
  have "codec (\<lambda>b. b) (\<lambda>b. Inr b :: unit + bytes) (\<lambda>_. True)" by unfold_locales simp
  from codec.roundtrip[OF two_key_key_codec[OF this aes_seeds.codec_axioms]]
  show "Some (two_key_key_try_from (\<lambda>b. b) aes_seed_try_from (two_key_key_into (\<lambda>b. b) seed_bytes (wt_key t))) = Some (Inr (wt_key t))"
    using assms(1) by simp
  show "two_key_proof_try_from (scalar_try_from_vec R) (two_key_proof_into (scalar_to_bytes R) (wt_proof t)) = Inr (wt_proof t)"
    using assms(2,3) by (intro codec.roundtrip[OF proof_share_codec(1)[OF scalars.codec_axioms]]) simp
qed

lemma multi_key_wire:
  assumes "list_all validP (mk_encoded_msg (wt_key t))" "list_all validS (mk_bits (wt_key t))" "list_all validS (mk_seeds (wt_key t))"
    and "length (mk_bits (wt_key t)) = length (mk_seeds (wt_key t))" "validS (ps_seed (wt_proof t))" "validS (ps_bit (wt_proof t))"
  shows "write_token_try_from (multi_key_key_try_from (ev_try_from_vec (point_try_from_vec Q)) (scalar_try_from_vec R))
      (multi_key_proof_try_from (scalar_try_from_vec R))
      (write_token_into (multi_key_key_into (ev_to_vec (point_to_vec Q)) (scalar_to_bytes R))
        (multi_key_proof_into (scalar_to_bytes R)) t) = Some (Inr t)"
proof (rule write_token_roundtrip)
  show "multi_key_key_try_from (ev_try_from_vec (point_try_from_vec Q)) (scalar_try_from_vec R)
      (multi_key_key_into (ev_to_vec (point_to_vec Q)) (scalar_to_bytes R) (wt_key t)) = Some (Inr (wt_key t))"
    using multi_key_key_roundtrip[OF point_vectors.codec_axioms scalars.codec_axioms assms(1-4)] .
  show "multi_key_proof_try_from (scalar_try_from_vec R) (multi_key_proof_into (scalar_to_bytes R) (wt_proof t)) = Inr (wt_proof t)"
    using assms(5,6) by (intro codec.roundtrip[OF proof_share_codec(2)[OF scalars.codec_axioms]]) simp
qed

lemma audit_share_wire:
  assumes "validS (tok_seed (share_token s))" "validS (tok_bit (share_token s))"
  shows "audit_share_try_from (two_key_token_try_from (scalar_try_from_vec R)) (audit_share_into (two_key_token_into (scalar_to_bytes R)) s) = Inr s"
    and "audit_share_try_from (multi_key_token_try_from (scalar_try_from_vec R)) (audit_share_into (multi_key_token_into (scalar_to_bytes R)) s) = Inr s"
  using assms codec.roundtrip[OF audit_share_codec[OF token_codec(1)[OF scalars.codec_axioms]]]
    codec.roundtrip[OF audit_share_codec[OF token_codec(2)[OF scalars.codec_axioms]]] by blast+

end

end
