(* ===== verification/Pir.thy ===== *)
theory Pir
  imports Vdpf_TwoKey
begin

unbundle bit_operations_syntax

text \<open>
  Private information retrieval: the trait of \<open>spectrum_primitives/src/pir/definition.rs\<close> and its two
  implementations, \<open>pir/insecure.rs\<close> and \<open>pir/linear.rs\<close>. Viewers fetch a channel from several servers
  with queries that are exclusive-or shares of a unit vector.

  The number of servers \<open>N\<close> is a constant of the trait. A query that is refused is \<open>Inl ()\<close>; \<open>N - 1\<close>
  underflows (a panic) without servers.
\<close>

record ('r, 'row, 'q, 'resp) pir_ops =
  pir_len :: nat
  pir_get :: "nat \<Rightarrow> 'row option"
  pir_queries :: "nat \<Rightarrow> nat \<Rightarrow> 'r \<Rightarrow> (unit + 'q list \<times> 'r) option"
  pir_answer :: "'q \<Rightarrow> (unit + 'resp) option"
  pir_combine :: "'resp list \<Rightarrow> 'row option"

text \<open>The exchange of \<open>check_pir!\<close>: query all servers, unwrap their answers, combine.\<close>

definition pir_fetch :: "('r, 'row, 'q, 'resp, 'x) pir_ops_scheme \<Rightarrow> nat \<Rightarrow> 'r \<Rightarrow> 'row option" where
  "pir_fetch D idx r =
     do { qs \<leftarrow> pir_queries D idx (pir_len D) r;
          (queries, r') \<leftarrow> result_unwrap qs;
          responses \<leftarrow> try_map (\<lambda>q. do { a \<leftarrow> pir_answer D q; result_unwrap a }) queries;
          pir_combine D responses }"

locale pir_contract =
  fixes D :: "('r, 'row, 'q, 'resp, 'x) pir_ops_scheme"
  assumes fetch_correct: "idx < pir_len D \<Longrightarrow> pir_fetch D idx r = pir_get D idx \<and> pir_get D idx \<noteq> None"
    and out_of_range: "pir_len D \<le> idx \<Longrightarrow> pir_queries D idx (pir_len D) r = Some (Inl ())"

section \<open>The insecure database\<close>

record insecure_db =
  idb_data :: "bytes list"

definition insecure_db_new :: "bytes list \<Rightarrow> insecure_db option" where
  "insecure_db_new data = do { rust_assert (length data > 0); Some \<lparr> idb_data = data \<rparr> }"

definition insecure_queries :: "nat \<Rightarrow> nat \<Rightarrow> nat \<Rightarrow> unit + nat list" where
  "insecure_queries N idx db_size = (if db_size \<le> idx then Inl () else Inr (replicate N idx))"

definition insecure_answer :: "insecure_db \<Rightarrow> nat \<Rightarrow> (unit + bytes) option" where
  "insecure_answer D query =
     (if length (idb_data D) \<le> query then Some (Inl ())
      else do { row \<leftarrow> vec_get (idb_data D) query; Some (Inr row) })"

definition insecure_pir_combine :: "bytes list \<Rightarrow> bytes option" where
  "insecure_pir_combine responses = vec_get responses 0"

definition insecure_pir :: "nat \<Rightarrow> insecure_db \<Rightarrow> ('r, bytes, nat, bytes) pir_ops" where
  "insecure_pir N D =
     \<lparr> pir_len = length (idb_data D), pir_get = vec_get (idb_data D),
       pir_queries = (\<lambda>idx db_size r.
         case insecure_queries N idx db_size of Inl e \<Rightarrow> Some (Inl e) | Inr qs \<Rightarrow> Some (Inr (qs, r))),
       pir_answer = insecure_answer D, pir_combine = insecure_pir_combine \<rparr>"

interpretation insecure_db: pir_contract "insecure_pir (Suc N) D" for N :: nat and D :: insecure_db
proof
  fix idx r
  assume idx: "idx < pir_len (insecure_pir (Suc N) D)"
  have "try_map (\<lambda>q. do { a \<leftarrow> insecure_answer D q; result_unwrap a }) (replicate k idx)
      = Some (replicate k (idb_data D ! idx))" for k
    using idx by (induction k) (simp_all add: insecure_pir_def insecure_answer_def)
  from this[of "Suc N"] show "pir_fetch (insecure_pir (Suc N) D) idx r = pir_get (insecure_pir (Suc N) D) idx
      \<and> pir_get (insecure_pir (Suc N) D) idx \<noteq> None"
    using idx by (simp add: pir_fetch_def insecure_pir_def insecure_queries_def insecure_pir_combine_def)
qed (simp add: insecure_pir_def insecure_queries_def)

section \<open>The linear database\<close>

record linear_db =
  row_len :: nat
  ldb_data :: "bytes list"

definition linear_db_new :: "bytes list \<Rightarrow> linear_db option" where
  "linear_db_new data =
     do { rust_assert (length data > 0);
          first \<leftarrow> vec_get data 0;
          let len = length first;
          try_fold (\<lambda>_ row. rust_assert (len = length row)) () data;
          Some \<lparr> row_len = len, ldb_data = data \<rparr> }"

definition empty_row :: "linear_db \<Rightarrow> bytes" where
  "empty_row D = replicate (row_len D) 0"

text \<open>The parity of column \<open>j\<close> of the first queries.\<close>

definition query_parity :: "nat \<Rightarrow> bool list list \<Rightarrow> nat \<Rightarrow> bool option" where
  "query_parity n queries j =
     try_fold (\<lambda>parity i. do { q \<leftarrow> vec_get queries i; b \<leftarrow> vec_get q j; Some (parity \<noteq> b) }) False [0..<n]"

definition linear_queries ::
    "('r, bool) sampler \<Rightarrow> nat \<Rightarrow> nat \<Rightarrow> nat \<Rightarrow> 'r \<Rightarrow> (unit + bool list list \<times> 'r) option" where
  "linear_queries gen N idx db_size r =
     (if db_size \<le> idx then Some (Inl ())
      else do {
        rust_assert (1 \<le> N);
        let (queries, r') = repeat_with_take (repeat_with_take gen db_size) (N - 1) r;
        last_row \<leftarrow> try_fold (\<lambda>last_row j. do { parity \<leftarrow> query_parity (N - 1) queries j; vec_set last_row j parity })
          (replicate db_size False) [0..<db_size];
        b \<leftarrow> vec_get last_row idx;
        last_row \<leftarrow> vec_set last_row idx (\<not> b);
        Some (Inr (queries @ [last_row], r')) })"

text \<open>\<open>for i in 0..n { this[i] ^= other[i] }\<close>.\<close>

definition xor_rows :: "nat \<Rightarrow> bytes \<Rightarrow> bytes \<Rightarrow> bytes option" where
  "xor_rows n this other =
     try_fold (\<lambda>acc i. do { a \<leftarrow> vec_get acc i; b \<leftarrow> vec_get other i; vec_set acc i (a XOR b) }) this [0..<n]"

definition linear_answer :: "linear_db \<Rightarrow> bool list \<Rightarrow> (unit + bytes) option" where
  "linear_answer D query =
     (if length (ldb_data D) \<noteq> length query then Some (Inl ())
      else do {
        answer \<leftarrow> try_fold (\<lambda>answer (row, b). if b then xor_rows (row_len D) answer row else Some answer)
          (empty_row D) (zip (ldb_data D) query);
        Some (Inr answer) })"

definition linear_combine :: "bytes list \<Rightarrow> bytes option" where
  "linear_combine responses =
     do { row \<leftarrow> vec_get responses 0;
          try_fold (\<lambda>row response. do { rust_assert (length row = length response); xor_rows (length row) row response })
            row (drop 1 responses) }"

definition linear_pir :: "('r, bool) sampler \<Rightarrow> nat \<Rightarrow> linear_db \<Rightarrow> ('r, bytes, bool list, bytes) pir_ops" where
  "linear_pir gen N D =
     \<lparr> pir_len = length (ldb_data D), pir_get = vec_get (ldb_data D), pir_queries = linear_queries gen N,
       pir_answer = linear_answer D, pir_combine = linear_combine \<rparr>"

text \<open>The databases that the constructor makes.\<close>

definition linear_db_valid :: "linear_db \<Rightarrow> bool" where
  "linear_db_valid D \<longleftrightarrow> 0 < length (ldb_data D) \<and> list_all (\<lambda>row. length row = row_len D) (ldb_data D)"

lemma linear_db_new_valid: "linear_db_new data = Some D \<Longrightarrow> linear_db_valid D \<and> ldb_data D = data"
proof -
  assume new: "linear_db_new data = Some D"
  have asserts: "try_fold (\<lambda>_ row. rust_assert (len = length row)) () rows = Some u \<Longrightarrow> list_all (\<lambda>row. length row = len) rows"
    for len u and rows :: "bytes list" by (induction rows) (auto simp: bind_eq_Some_conv)
  show ?thesis
    using new by (auto simp: linear_db_new_def linear_db_valid_def Let_def bind_eq_Some_conv dest: asserts)
qed

section \<open>Correctness of the linear database\<close>

lemma xor_rows_eq:
  assumes "length this = n" "length other = n"
  shows "xor_rows n this other = Some (map2 (XOR) this other)"
proof -
  have "try_fold (\<lambda>acc i. do { a \<leftarrow> vec_get acc i; b \<leftarrow> vec_get other i; vec_set acc i (a XOR b) }) this [0..<k]
      = Some (map2 (XOR) (take k this) (take k other) @ drop k this)" if "k \<le> n" for k
    using that
  proof (induction k)
    case (Suc k)
    then have k: "k < n" "length (map2 (XOR) (take k this) (take k other)) = k" using assms by simp_all
    have drop: "drop k this = this ! k # drop (Suc k) this" using assms k(1) by (simp add: Cons_nth_drop_Suc)
    have take: "take (Suc k) this = take k this @ [this ! k]" "take (Suc k) other = take k other @ [other ! k]"
      using assms k(1) by (simp_all add: take_Suc_conv_app_nth)
    show ?case using Suc k assms by (simp add: try_fold_append drop take nth_append list_update_append)
  qed simp
  from this[of n] show ?thesis using assms by (simp add: xor_rows_def)
qed

abbreviation row_monoid :: "nat \<Rightarrow> bytes monoid_ops" where
  "row_monoid n \<equiv> \<lparr> m_zero = bytes_empty n, m_add = bytes_xor.xor \<rparr>"

lemma xor_rows_add: "length a = n \<Longrightarrow> length b = n \<Longrightarrow> xor_rows n a b = Some (m_add (row_monoid n) a b)"
  by (simp add: xor_rows_eq bytes_xor.xor_def bytes_bitxor_eq)

lemma length_row_add: "length a = n \<Longrightarrow> length b = n \<Longrightarrow> length (m_add (row_monoid n) a b) = n"
  using bytes_xor.xor_valid[of a n b] by simp

lemma dot_rows:
  "dot_bits (row_monoid n) q rows = fold_add (row_monoid n) (map2 (\<lambda>b row. if b then row else bytes_empty n) q rows)"
  by (simp only: dot_bits_def monoid_ops.select_convs)

text \<open>The inner product of a bit vector with the rows is linear in the bits.\<close>

lemma dot_bits_xor:
  assumes "length a = length rows" "length b = length rows" "list_all (\<lambda>row. length row = n) rows"
  shows "dot_bits (row_monoid n) (map2 (\<noteq>) a b) rows
    = m_add (row_monoid n) (dot_bits (row_monoid n) a rows) (dot_bits (row_monoid n) b rows)"
proof -
  let ?M = "row_monoid n" and ?sel = "\<lambda>b row. if b then row else bytes_empty n"
  have "map2 ?sel (map2 (\<noteq>) a b) rows = map2 (m_add ?M) (map2 ?sel a rows) (map2 ?sel b rows)"
  proof (rule nth_equalityI)
    fix i
    assume "i < length (map2 ?sel (map2 (\<noteq>) a b) rows)"
    then have i: "i < length rows" "length (rows ! i) = n" using assms by (simp_all add: list_all_length)
    then show "map2 ?sel (map2 (\<noteq>) a b) rows ! i = map2 (m_add ?M) (map2 ?sel a rows) (map2 ?sel b rows) ! i"
      using assms bytes_xor.xor_null'[OF i(2)] bytes_xor.xor_null_left[OF i(2)] bytes_xor.xor_self'[OF i(2)]
        bytes_xor.xor_self'[OF bytes_xor.null_valid[of n]]
      by (cases "a ! i"; cases "b ! i") simp_all
  qed (use assms in simp)
  moreover have "list_all (\<lambda>row. length row = n) (map2 ?sel a rows)" "list_all (\<lambda>row. length row = n) (map2 ?sel b rows)"
    using assms by (simp_all add: list_all_length bytes_empty_def)
  ultimately show ?thesis
    using assms comm_monoid_laws.fold_add_map2[OF bytes_xor.xor_monoid[of n], of "map2 ?sel a rows" "map2 ?sel b rows"]
    by (simp add: dot_rows)
qed

lemma length_dot_bits:
  "list_all (\<lambda>row. length row = n) rows \<Longrightarrow> length (dot_bits (row_monoid n) q rows) = n"
  unfolding dot_rows
  by (rule comm_monoid_laws.fold_add_valid[OF bytes_xor.xor_monoid])
    (simp add: list_all_length bytes_empty_def)

lemma linear_answer_eq:
  assumes D: "linear_db_valid D" and q: "length q = length (ldb_data D)"
  shows "linear_answer D q = Some (Inr (dot_bits (row_monoid (row_len D)) q (ldb_data D)))"
proof -
  let ?n = "row_len D" and ?M = "row_monoid (row_len D)"
  let ?sel = "\<lambda>b row. if b then row else bytes_empty ?n"
  have "try_fold (\<lambda>answer (row, b). if b then xor_rows ?n answer row else Some answer) acc (zip rows q)
      = Some (foldl (m_add ?M) acc (map2 ?sel q rows))"
    if "length acc = ?n" "list_all (\<lambda>row. length row = ?n) rows" "length q = length rows" for acc rows and q :: "bool list"
    using that(3,1,2)
  proof (induction q rows arbitrary: acc rule: list_induct2)
    case (Cons b q row rows)
    have "m_add ?M acc (bytes_empty ?n) = acc" using Cons.prems bytes_xor.xor_null'[of acc ?n] by simp
    with Cons length_row_add[of acc ?n row] xor_rows_add[of acc ?n row] show ?case by simp
  qed simp
  moreover have "empty_row D = bytes_empty ?n" by (simp add: empty_row_def bytes_empty_def)
  moreover have "length (bytes_empty ?n) = ?n" by (simp add: bytes_empty_def)
  ultimately show ?thesis
    using D q by (simp add: linear_answer_def linear_db_valid_def dot_rows fold_add_def)
qed

lemma linear_combine_eq:
  assumes "responses \<noteq> []" "list_all (\<lambda>row. length row = n) responses"
  shows "linear_combine responses = Some (fold_add (row_monoid n) responses)"
proof -
  let ?M = "row_monoid n"
  obtain v vs where r: "responses = v # vs" "length v = n" "list_all (\<lambda>row. length row = n) vs"
    using assms by (cases responses) auto
  have "try_fold (\<lambda>row response. do { rust_assert (length row = length response); xor_rows (length row) row response }) v vs
      = Some (foldl (m_add ?M) v vs)"
    using r(2,3)
    by (intro try_fold_eq_foldl[where I = "\<lambda>row. length row = n"])
      (auto simp: list_all_iff xor_rows_add intro: length_row_add[simplified])
  also have "foldl (m_add ?M) v vs = fold_add ?M (v # vs)"
    using comm_monoid_laws.foldl_add_acc[OF bytes_xor.xor_monoid r(2,3)]
      comm_monoid_laws.fold_add_Cons[OF bytes_xor.xor_monoid r(2,3)] by simp
  finally show ?thesis by (simp add: linear_combine_def r(1))
qed

text \<open>The servers' answers to queries \<open>qs\<close> add up to the answer to the exclusive or of the queries.\<close>

lemma dot_bits_foldl:
  assumes rows: "list_all (\<lambda>row. length row = n) rows"
  shows "list_all (\<lambda>q. length q = length rows) qs \<Longrightarrow> length acc = length rows \<Longrightarrow>
    m_add (row_monoid n) (dot_bits (row_monoid n) acc rows) (fold_add (row_monoid n) (map (\<lambda>q. dot_bits (row_monoid n) q rows) qs))
    = dot_bits (row_monoid n) (foldl (map2 (\<noteq>)) acc qs) rows"
proof (induction qs arbitrary: acc)
  case Nil
  then show ?case
    using bytes_xor.xor_null'[OF length_dot_bits[OF rows, of acc]] by (simp add: fold_add_def)
next
  case (Cons q qs)
  let ?M = "row_monoid n" and ?d = "\<lambda>q. dot_bits (row_monoid n) q rows"
  note laws = bytes_xor.xor_monoid[of n]
  have v: "length (?d acc) = n" "length (?d q) = n" "list_all (\<lambda>b. length b = n) (map ?d qs)"
    using length_dot_bits[OF rows] by (simp_all add: list_all_iff)
  have "m_add ?M (?d acc) (fold_add ?M (map ?d (q # qs))) = m_add ?M (m_add ?M (?d acc) (?d q)) (fold_add ?M (map ?d qs))"
    using comm_monoid_laws.fold_add_Cons[OF laws v(2,3)] comm_monoid_laws.fold_add_valid[OF laws v(3)]
      comm_monoid_laws.add_assoc[OF laws v(1,2)] by simp
  also have "m_add ?M (?d acc) (?d q) = ?d (map2 (\<noteq>) acc q)"
    using dot_bits_xor[of acc rows q n] rows Cons.prems by simp
  finally show ?case using Cons by simp
qed

text \<open>The queries are shares of the unit vector.\<close>

lemma query_parity_eq:
  assumes "length queries = n" "list_all (\<lambda>q. length q = m) queries" "j < m"
  shows "query_parity n queries j = Some (foldl (\<lambda>p q. p \<noteq> q ! j) False queries)"
proof -
  have "try_fold (\<lambda>parity i. do { q \<leftarrow> vec_get queries i; b \<leftarrow> vec_get q j; Some (parity \<noteq> b) }) False [0..<k]
      = Some (foldl (\<lambda>p q. p \<noteq> q ! j) False (take k queries))" if "k \<le> n" for k
    using that
  proof (induction k)
    case (Suc k)
    then have "k < length queries" "length (queries ! k) = m" using assms by (simp_all add: list_all_length)
    with Suc assms(3) show ?case by (simp add: try_fold_append take_Suc_conv_app_nth)
  qed simp
  from this[of n] show ?thesis using assms(1) by (simp add: query_parity_def)
qed

lemma linear_queries_spec:
  assumes "idx < m"
  shows "\<exists>qs r'. linear_queries gen (Suc n) idx m r = Some (Inr (qs, r')) \<and> length qs = Suc n
    \<and> list_all (\<lambda>q. length q = m) qs
    \<and> foldl (map2 (\<noteq>)) (replicate m False) qs = (replicate m False)[idx := True]"
proof -
  obtain qs r' where qs: "repeat_with_take (repeat_with_take gen m) n r = (qs, r')" by fastforce
  have len: "length qs = n" "list_all (\<lambda>q. length q = m) qs"
    using repeat_with_take_length[OF qs] repeat_with_take_in[OF _ qs, of "\<lambda>q. length q = m"]
    by (simp_all add: sampler_in_def)
  let ?par = "\<lambda>j. foldl (\<lambda>p q. p \<noteq> q ! j) False qs"
  have par: "foldl (map2 (\<noteq>)) (replicate m False) qs = map ?par [0..<m]"
  proof -
    have "foldl (map2 (\<noteq>)) acc qs = map (\<lambda>j. foldl (\<lambda>p q. p \<noteq> q ! j) (acc ! j) qs) [0..<m]" if "length acc = m" for acc
      using len(2) that
    proof (induction qs arbitrary: acc)
      case Nil
      then show ?case by (auto intro!: nth_equalityI)
    next
      case (Cons q qs)
      then show ?case by (auto intro!: map_cong)
    qed
    then show ?thesis by (simp cong: map_cong)
  qed
  have "try_fold (\<lambda>last_row j. do { parity \<leftarrow> query_parity n qs j; vec_set last_row j parity }) (replicate m False) [0..<k]
      = Some (map ?par [0..<k] @ replicate (m - k) False)" if "k \<le> m" for k
    using that
  proof (induction k)
    case (Suc k)
    then have "replicate (m - k) False = False # replicate (m - Suc k) False" by (metis Suc_diff_Suc Suc_le_lessD replicate_Suc)
    then show ?case
      using Suc query_parity_eq[OF len(1,2), of k] by (simp add: try_fold_append list_update_append nth_append)
  qed simp
  from this[of m] have last: "try_fold (\<lambda>last_row j. do { parity \<leftarrow> query_parity n qs j; vec_set last_row j parity })
      (replicate m False) [0..<m] = Some (map ?par [0..<m])" by simp
  let ?last = "(map ?par [0..<m])[idx := \<not> ?par idx]"
  have "linear_queries gen (Suc n) idx m r = Some (Inr (qs @ [?last], r'))"
    using assms by (simp add: linear_queries_def qs last)
  moreover have "foldl (map2 (\<noteq>)) (replicate m False) (qs @ [?last]) = (replicate m False)[idx := True]"
  proof -
    have "foldl (map2 (\<noteq>)) (replicate m False) (qs @ [?last]) = map2 (\<noteq>) (map ?par [0..<m]) ?last"
      by (simp only: foldl_append foldl.simps par)
    also have "\<dots> = (replicate m False)[idx := True]"
      using assms by (intro nth_equalityI) (auto simp: nth_list_update)
    finally show ?thesis .
  qed
  ultimately show ?thesis using len by auto
qed

lemma dot_bits_unit:
  assumes "list_all (\<lambda>row. length row = n) rows" "idx < length rows"
  shows "dot_bits (row_monoid n) ((replicate (length rows) False)[idx := True]) rows = rows ! idx"
proof -
  let ?M = "row_monoid n" and ?sel = "\<lambda>b row. if b then row else bytes_empty n"
  note laws = bytes_xor.xor_monoid[of n]
  have idx: "length (rows ! idx) = n" using assms by (simp add: list_all_length)
  have zeros: "map2 ?sel (replicate (length rows) False) rows = replicate (length rows) (m_zero ?M)"
    by (intro nth_equalityI) auto
  have "dot_bits ?M ((replicate (length rows) False)[idx := True]) rows
      = fold_add ?M ((replicate (length rows) (m_zero ?M))[idx := m_add ?M (replicate (length rows) (m_zero ?M) ! idx) (rows ! idx)])"
    using assms(2) zeros bytes_xor.xor_null_left[OF idx] by (simp add: dot_rows map2_update_left)
  also have "\<dots> = m_add ?M (fold_add ?M (replicate (length rows) (m_zero ?M))) (rows ! idx)"
    using assms(2) idx by (intro comm_monoid_laws.fold_add_update[OF laws]) (simp_all add: bytes_empty_def)
  also have "\<dots> = rows ! idx"
    using comm_monoid_laws.fold_add_zeros[OF laws] bytes_xor.xor_null_left[OF idx] by simp
  finally show ?thesis .
qed

lemma linear_pir_contract:
  assumes D: "linear_db_valid D"
  shows "pir_contract (linear_pir gen (Suc N) D)"
proof
  fix idx r
  let ?rows = "ldb_data D" and ?n = "row_len D"
  assume "idx < pir_len (linear_pir gen (Suc N) D)"
  then have idx: "idx < length ?rows" by (simp add: linear_pir_def)
  have rows: "list_all (\<lambda>row. length row = ?n) ?rows" using D by (simp add: linear_db_valid_def)
  obtain qs r' where qs: "linear_queries gen (Suc N) idx (length ?rows) r = Some (Inr (qs, r'))" "length qs = Suc N"
      "list_all (\<lambda>q. length q = length ?rows) qs"
      "foldl (map2 (\<noteq>)) (replicate (length ?rows) False) qs = (replicate (length ?rows) False)[idx := True]"
    using linear_queries_spec[OF idx, of gen N r] by auto
  let ?d = "\<lambda>q. dot_bits (row_monoid ?n) q ?rows"
  have answers: "try_map (\<lambda>q. do { a \<leftarrow> linear_answer D q; result_unwrap a }) qs = Some (map ?d qs)"
    using qs(3) by (intro try_map_eq_map) (simp add: list_all_iff linear_answer_eq[OF D])
  have valid: "list_all (\<lambda>b. length b = ?n) (map ?d qs)" using length_dot_bits[OF rows] by (simp add: list_all_iff)
  have "length (fold_add (row_monoid ?n) (map ?d qs)) = ?n"
    using comm_monoid_laws.fold_add_valid[OF bytes_xor.xor_monoid valid] .
  moreover have "?d (replicate (length ?rows) False) = bytes_empty ?n"
  proof -
    have "map2 (\<lambda>b row. if b then row else bytes_empty ?n) (replicate (length ?rows) False) ?rows
        = replicate (length ?rows) (m_zero (row_monoid ?n))" by (intro nth_equalityI) auto
    then show ?thesis using comm_monoid_laws.fold_add_zeros[OF bytes_xor.xor_monoid[of ?n]] by (simp add: dot_rows)
  qed
  ultimately have "fold_add (row_monoid ?n) (map ?d qs) = ?rows ! idx"
    using dot_bits_foldl[OF rows qs(3), of "replicate (length ?rows) False"] qs(4) dot_bits_unit[OF rows idx]
      bytes_xor.xor_null_left[of _ ?n] by simp
  moreover have "map ?d qs \<noteq> []" using qs(2) by auto
  ultimately have "linear_combine (map ?d qs) = Some (?rows ! idx)"
    using linear_combine_eq[OF _ valid] by simp
  then show "pir_fetch (linear_pir gen (Suc N) D) idx r = pir_get (linear_pir gen (Suc N) D) idx
      \<and> pir_get (linear_pir gen (Suc N) D) idx \<noteq> None"
    using qs(1) answers idx by (simp add: pir_fetch_def linear_pir_def)
qed (simp add: linear_pir_def linear_queries_def)

interpretation linear_db: pir_contract "linear_pir gen (Suc N) \<lparr> row_len = n, ldb_data = map (\<lambda>k. replicate n k) (k # ks) \<rparr>"
  for gen :: "('r, bool) sampler" and N n :: nat and k :: u8 and ks :: "u8 list"
  by (rule linear_pir_contract) (simp add: linear_db_valid_def list_all_iff)

end
