(* ===== verification/Wrapper.thy ===== *)
theory Wrapper
  imports Codec Pir
begin

text \<open>
  \<open>spectrum_protocol/src/wrapper.rs\<close>: the enums by which the binaries choose a protocol and hold the
  channel keys, with their conversions. Errors are the messages the conversions return; the removed
  insecure protocol panics.
\<close>

section \<open>Channel keys\<close>

datatype ('fr, 'sp) channel_key_wrapper =
    KeySecure "'fr scalar"
  | KeySecurePub "('fr, 'sp) key_pair"

definition pub_auth_key_try_from :: "('fr, 'sp) channel_key_wrapper \<Rightarrow> string + ('fr, 'sp) key_pair" where
  "pub_auth_key_try_from w = (case w of KeySecurePub secret \<Rightarrow> Inr secret | _ \<Rightarrow> Inl ''Invalid channel key'')"

definition wrapper_from_pub_auth_key :: "('fr, 'sp) key_pair \<Rightarrow> ('fr, 'sp) channel_key_wrapper" where
  "wrapper_from_pub_auth_key key = KeySecurePub key"

definition auth_key_try_from :: "('fr, 'sp) channel_key_wrapper \<Rightarrow> string + 'fr scalar" where
  "auth_key_try_from w = (case w of KeySecure secret \<Rightarrow> Inr secret | _ \<Rightarrow> Inl ''Invalid channel key'')"

definition wrapper_from_auth_key :: "'fr scalar \<Rightarrow> ('fr, 'sp) channel_key_wrapper" where
  "wrapper_from_auth_key key = KeySecure key"

definition string_try_from_wrapper :: "('fr, 'sp) channel_key_wrapper \<Rightarrow> string + string" where
  "string_try_from_wrapper w = Inl ''Invalid channel key''"

definition wrapper_from_string :: "string \<Rightarrow> ('fr, 'sp) channel_key_wrapper option" where
  "wrapper_from_string s = None"

text \<open>The contract of a conversion into the wrapper and back, that \<open>authkey_channelkeywrapper_rt\<close> tests:
  the conversion back succeeds on the keys of its own protocol and on no others.\<close>

locale key_wrapping =
  fixes wrap :: "'k \<Rightarrow> 'w" and unwrap :: "'w \<Rightarrow> string + 'k"
  assumes unwrap_iff: "unwrap w = Inr k \<longleftrightarrow> w = wrap k"
begin

lemma unwrap_wrap [simp]: "unwrap (wrap k) = Inr k"
  by (simp add: unwrap_iff)

lemma wrap_inject: "wrap k = wrap k' \<longleftrightarrow> k = k'"
  by (metis unwrap_wrap sum.inject(2))

text \<open>The keys of an experiment, all of one protocol, are read back by a worker.\<close>

lemma collect_keys: "collect_result unwrap (map wrap ks) = Inr ks"
  by (simp add: collect_result_map)

lemma collect_keys_iff: "collect_result unwrap ws = Inr ks \<longleftrightarrow> ws = map wrap ks"
proof (induction ws arbitrary: ks)
  case Nil
  then show ?case by auto
next
  case (Cons w ws)
  show ?case
  proof (cases ks)
    case (Cons k ks')
    then show ?thesis using Cons.IH[of ks'] unwrap_iff[of w k] by (auto split: sum.splits)
  qed (auto split: sum.splits)
qed

end

interpretation auth_keys: key_wrapping wrapper_from_auth_key auth_key_try_from
  by unfold_locales (auto simp: wrapper_from_auth_key_def auth_key_try_from_def split: channel_key_wrapper.splits)

interpretation pub_auth_keys: key_wrapping wrapper_from_pub_auth_key pub_auth_key_try_from
  by unfold_locales (auto simp: wrapper_from_pub_auth_key_def pub_auth_key_try_from_def split: channel_key_wrapper.splits)

section \<open>Protocols\<close>

type_synonym ('r, 'fr) two_key_protocol =
  "('r, (bytes, aes_seed) two_key, bytes, 'fr scalar, 'fr scalar proof_share, 'fr scalar token) vdpf_ops"

type_synonym ('r, 'fr, 'sp) two_key_pub_protocol =
  "('r, (bytes, aes_seed) two_key, bytes, ('fr, 'sp) key_pair, 'sp curve_point proof_share, 'sp curve_point token) vdpf_ops"

type_synonym ('r, 'fr, 'sp) multi_key_protocol =
  "('r, ('sp curve_point list, 'fr scalar) multi_key, 'sp curve_point list, 'fr scalar, 'fr scalar proof_share,
    'fr scalar token) vdpf_ops"

datatype ('r, 'fr, 'sp) protocol_wrapper =
    Secure "('r, 'fr) two_key_protocol"
  | SecurePub "('r, 'fr, 'sp) two_key_pub_protocol"
  | SecureMultiKey "('r, 'fr, 'sp) multi_key_protocol"

definition protocol_wrapper_new ::
    "('r, 'fr, 'sp, 'h, 'e) crypto_env \<Rightarrow> bool \<Rightarrow> bool \<Rightarrow> nat \<Rightarrow> nat \<Rightarrow> nat \<Rightarrow> bool \<Rightarrow> 'r
     \<Rightarrow> (('r, 'fr, 'sp) protocol_wrapper \<times> 'r) option" where
  "protocol_wrapper_new env security_bytes multi_key groups channels msg_size public r =
     (if security_bytes then
        if multi_key then
          let (V, r') = multi_key_vdpf env channels groups msg_size r in Some (SecureMultiKey V, r')
        else if public then
          do { rust_assert (groups = 2); V \<leftarrow> two_key_pub_vdpf env channels msg_size; Some (SecurePub V, r) }
        else
          do { rust_assert (groups = 2); V \<leftarrow> two_key_vdpf env channels msg_size; Some (Secure V, r) }
      else None)"

fun wrapper_num_parties :: "('r, 'fr, 'sp) protocol_wrapper \<Rightarrow> nat" where
  "wrapper_num_parties (Secure V) = proto_num_parties (wrapper_protocol V)"
| "wrapper_num_parties (SecurePub V) = proto_num_parties (wrapper_protocol V)"
| "wrapper_num_parties (SecureMultiKey V) = proto_num_parties (wrapper_protocol V)"

fun wrapper_num_channels :: "('r, 'fr, 'sp) protocol_wrapper \<Rightarrow> nat" where
  "wrapper_num_channels (Secure V) = proto_num_channels (wrapper_protocol V)"
| "wrapper_num_channels (SecurePub V) = proto_num_channels (wrapper_protocol V)"
| "wrapper_num_channels (SecureMultiKey V) = proto_num_channels (wrapper_protocol V)"

fun wrapper_message_len :: "('r, 'fr, 'sp) protocol_wrapper \<Rightarrow> nat" where
  "wrapper_message_len (Secure V) = proto_message_len (wrapper_protocol V)"
| "wrapper_message_len (SecurePub V) = proto_message_len (wrapper_protocol V)"
| "wrapper_message_len (SecureMultiKey V) = proto_message_len (wrapper_protocol V)"

fun is_multi_key :: "('r, 'fr, 'sp) protocol_wrapper \<Rightarrow> bool" where
  "is_multi_key (SecureMultiKey V) = True"
| "is_multi_key _ = False"

lemma wrapper_message_len_sel: "proto_message_len (wrapper_protocol V) = dpf_msg_size V"
  by (simp add: wrapper_protocol_def)

lemma two_key_vdpf_sizes:
  "two_key_vdpf env channels msg_size = Some V \<Longrightarrow> dpf_keys V = 2 \<and> dpf_points V = channels \<and> dpf_msg_size V = msg_size"
  by (auto simp: two_key_vdpf_def bind_eq_Some_conv two_key_vdpf_ops_def two_key_dpf_ops_def two_key_new_def
      aes_prg_new_def aes_prg_ops_def)

lemma two_key_pub_vdpf_sizes:
  "two_key_pub_vdpf env channels msg_size = Some V \<Longrightarrow> dpf_keys V = 2 \<and> dpf_points V = channels \<and> dpf_msg_size V = msg_size"
  by (auto simp: two_key_pub_vdpf_def bind_eq_Some_conv pub_vdpf_ops_def two_key_dpf_ops_def two_key_new_def
      aes_prg_new_def aes_prg_ops_def)

lemma multi_key_vdpf_sizes:
  "multi_key_vdpf env channels groups msg_size r = (V, r') \<Longrightarrow>
   dpf_keys V = groups \<and> dpf_points V = channels \<and> dpf_msg_size V = msg_size div 32 + 1"
  by (auto simp: multi_key_vdpf_def Let_def multi_key_vdpf_ops_def multi_key_dpf_ops_def multi_key_new_def
      group_prg_ops_def group_prg_random_def group_prg_new_def ev_len_def dest: repeat_with_take_length split: prod.splits)

lemma aes_vdpf_exists:
  "(\<exists>V. two_key_vdpf env channels msg_size = Some V) \<longleftrightarrow> SEED_SIZE \<le> msg_size"
  "(\<exists>V. two_key_pub_vdpf env channels msg_size = Some V) \<longleftrightarrow> SEED_SIZE \<le> msg_size"
  by (auto simp: two_key_vdpf_def two_key_pub_vdpf_def aes_prg_new_def bind_eq_Some_conv)

text \<open>When a protocol is made and which one.\<close>

lemma protocol_wrapper_new_iff:
  "(\<exists>w r'. protocol_wrapper_new env security multi_key groups channels msg_size public r = Some (w, r'))
   \<longleftrightarrow> security \<and> (multi_key \<or> groups = 2 \<and> SEED_SIZE \<le> msg_size)"
  using aes_vdpf_exists[of env channels msg_size]
  by (auto simp: protocol_wrapper_new_def bind_eq_Some_conv split: prod.splits)

lemma protocol_wrapper_new_sizes:
  assumes "protocol_wrapper_new env security multi_key groups channels msg_size public r = Some (w, r')"
  shows "wrapper_num_parties w = groups" "wrapper_num_channels w = channels" "is_multi_key w = multi_key"
    "wrapper_message_len w = (if multi_key then msg_size div 32 + 1 else msg_size)"
  using assms
  by (auto simp: protocol_wrapper_new_def bind_eq_Some_conv wrapper_message_len_sel split: prod.splits if_splits
      dest: two_key_vdpf_sizes two_key_pub_vdpf_sizes multi_key_vdpf_sizes)

end
