(* ===== verification/Config.thy ===== *)
theory Config
  imports Prelude "HOL-Library.AList" "HOL-Library.Sublist"
begin

text \<open>
  The configuration store of \<open>spectrum/src/config\<close>, by which the processes of an experiment find each
  other: the trait \<open>Store\<close> (\<open>store.rs\<close>), the in-memory store (\<open>inmem.rs\<close>), the store on an etcd server
  (\<open>etcd.rs\<close>), the enum of the two and the parser of its specification (\<open>factory.rs\<close>).

  The stores are states passed along. The order in which a hash map iterates is an argument (\<open>iter\<close>), and
  the etcd service is a dictionary of the three requests that the client sends.
\<close>

type_synonym config_key = "string list"
type_synonym config_value = string

text \<open>\<open>crate::Error\<close> of \<open>spectrum/src/lib.rs\<close>.\<close>

record crate_error =
  err_message :: string

definition error_new :: "string \<Rightarrow> crate_error" where
  "error_new message = \<lparr> err_message = message \<rparr>"

record 'st store_ops =
  store_get :: "'st \<Rightarrow> config_key \<Rightarrow> (crate_error + config_value option) option"
  store_put :: "'st \<Rightarrow> config_key \<Rightarrow> config_value \<Rightarrow> crate_error + 'st"
  store_list :: "'st \<Rightarrow> config_key \<Rightarrow> crate_error + (config_key \<times> config_value) list"

text \<open>The contract of the trait, as its tests state it: a finite map from the admissible keys, with
  listing by prefix. For a prefix that is itself a key the implementations differ (\<open>etcd_inmem_list\<close> below), so the contract
  leaves it open.\<close>

locale config_store =
  fixes S :: "('st, 'x) store_ops_scheme" and store_wf :: "'st \<Rightarrow> bool" and key_ok :: "config_key \<Rightarrow> bool"
    and entries :: "'st \<Rightarrow> config_key \<Rightarrow> config_value option"
  assumes get_eq: "store_wf st \<Longrightarrow> key_ok k \<Longrightarrow> store_get S st k = Some (Inr (entries st k))"
    and put_ok: "store_wf st \<Longrightarrow> key_ok k \<Longrightarrow>
      \<exists>st'. store_put S st k v = Inr st' \<and> store_wf st' \<and> entries st' = (entries st)(k \<mapsto> v)"
    and list_ok: "store_wf st \<Longrightarrow> key_ok p \<Longrightarrow> entries st p = None \<Longrightarrow>
      \<exists>es. store_list S st p = Inr es \<and> distinct (map fst es)
        \<and> set es = {(k, v). entries st k = Some v \<and> prefix p k}"
    and entries_ok: "store_wf st \<Longrightarrow> entries st k = Some v \<Longrightarrow> key_ok k"
begin

lemma get_after_put:
  assumes "store_wf st" "key_ok k" "key_ok k'" "store_put S st k v = Inr st'"
  shows "store_get S st' k' = Some (Inr (if k' = k then Some v else entries st k'))"
  using put_ok[OF assms(1,2), of v] assms(4) get_eq[OF _ assms(3), of st'] by auto

end

section \<open>The in-memory store\<close>

record inmem_store =
  im_map :: "(config_key \<times> config_value) list"

definition inmem_new :: inmem_store where
  "inmem_new = \<lparr> im_map = [] \<rparr>"

definition inmem_get :: "inmem_store \<Rightarrow> config_key \<Rightarrow> (crate_error + config_value option) option" where
  "inmem_get st key = Some (Inr (map_of (im_map st) key))"

definition inmem_put :: "inmem_store \<Rightarrow> config_key \<Rightarrow> config_value \<Rightarrow> crate_error + inmem_store" where
  "inmem_put st key val = Inr (st\<lparr> im_map := AList.update key val (im_map st) \<rparr>)"

definition inmem_list ::
    "((config_key \<times> config_value) list \<Rightarrow> (config_key \<times> config_value) list) \<Rightarrow> inmem_store \<Rightarrow> config_key
     \<Rightarrow> crate_error + (config_key \<times> config_value) list" where
  "inmem_list iter st pre = Inr (filter (\<lambda>(key, val). prefix pre key) (iter (im_map st)))"

definition inmem_ops ::
    "((config_key \<times> config_value) list \<Rightarrow> (config_key \<times> config_value) list) \<Rightarrow> inmem_store store_ops" where
  "inmem_ops iter = \<lparr> store_get = inmem_get, store_put = inmem_put, store_list = inmem_list iter \<rparr>"

text \<open>A hash map iterates over each of its entries once.\<close>

definition hash_order :: "(('k \<times> 'v) list \<Rightarrow> ('k \<times> 'v) list) \<Rightarrow> bool" where
  "hash_order iter \<longleftrightarrow> (\<forall>m. set (iter m) = set m \<and> (distinct (map fst m) \<longrightarrow> distinct (map fst (iter m))))"

lemma hash_order_id [simp]: "hash_order (\<lambda>m. m)"
  by (simp add: hash_order_def)

lemma hash_order_rev [simp]: "hash_order rev"
  by (simp add: hash_order_def rev_map[symmetric])

lemma distinct_fst_filter: "distinct (map fst es) \<Longrightarrow> distinct (map fst (filter P es))"
  by (induction es) auto

lemma map_of_update_fun: "map_of (AList.update k v m) = (map_of m)(k \<mapsto> v)"
  by (simp add: update_conv' fun_eq_iff)

lemma inmem_contract:
  assumes "hash_order iter"
  shows "config_store (inmem_ops iter) (\<lambda>st. distinct (map fst (im_map st))) (\<lambda>_. True) (\<lambda>st. map_of (im_map st))"
proof
  fix st :: inmem_store and p :: config_key
  assume d: "distinct (map fst (im_map st))"
  have "set (filter (\<lambda>(key, val). prefix p key) (iter (im_map st))) = {(k, v). map_of (im_map st) k = Some v \<and> prefix p k}"
    using d assms by (auto simp: hash_order_def dest: map_of_SomeD)
  then show "\<exists>es. store_list (inmem_ops iter) st p = Inr es \<and> distinct (map fst es)
      \<and> set es = {(k, v). map_of (im_map st) k = Some v \<and> prefix p k}"
    using assms d by (auto simp: inmem_ops_def inmem_list_def hash_order_def intro: distinct_fst_filter)
qed (auto simp: inmem_ops_def inmem_get_def inmem_put_def distinct_update map_of_update_fun)

interpretation inmem: config_store "inmem_ops (\<lambda>m. m)" "\<lambda>st. distinct (map fst (im_map st))" "\<lambda>_. True"
  "\<lambda>st. map_of (im_map st)"
  by (rule inmem_contract) simp

section \<open>The etcd store\<close>

text \<open>\<open>key.join("/")\<close> and \<open>key.split('/')\<close>.\<close>

fun key_join :: "string list \<Rightarrow> string" where
  "key_join [] = ''''"
| "key_join [c] = c"
| "key_join (c # cs) = c @ CHR ''/'' # key_join cs"

fun key_split :: "string \<Rightarrow> string list" where
  "key_split [] = [[]]"
| "key_split (c # s) =
     (if c = CHR ''/'' then [] # key_split s
      else case key_split s of [] \<Rightarrow> [[c]] | w # ws \<Rightarrow> (c # w) # ws)"

text \<open>The requests of the client library: the value of one key, a write, and the pairs whose key has a
  prefix.\<close>

record ('c, 'e) kv_ops =
  kv_range_key :: "'c \<Rightarrow> string \<Rightarrow> 'e + (string \<times> string) list"
  kv_put :: "'c \<Rightarrow> string \<Rightarrow> string \<Rightarrow> 'e + 'c"
  kv_range_prefix :: "'c \<Rightarrow> string \<Rightarrow> 'e + (string \<times> string) list"
  kv_error :: "'e \<Rightarrow> string"

definition etcd_get :: "('c, 'e) kv_ops \<Rightarrow> 'c \<Rightarrow> config_key \<Rightarrow> (crate_error + config_value option) option" where
  "etcd_get K client key =
     do { kvs \<leftarrow> result_unwrap (kv_range_key K client (key_join key));
          Some (Inr (case kvs of [] \<Rightarrow> None | (k, v) # _ \<Rightarrow> Some v)) }"

definition etcd_put :: "('c, 'e) kv_ops \<Rightarrow> 'c \<Rightarrow> config_key \<Rightarrow> config_value \<Rightarrow> crate_error + 'c" where
  "etcd_put K client key val =
     (case kv_put K client (key_join key) val of Inl e \<Rightarrow> Inl (error_new (kv_error K e)) | Inr c \<Rightarrow> Inr c)"

definition etcd_list :: "('c, 'e) kv_ops \<Rightarrow> 'c \<Rightarrow> config_key \<Rightarrow> crate_error + (config_key \<times> config_value) list" where
  "etcd_list K client pre =
     (case kv_range_prefix K client (key_join pre @ ''/'') of
        Inl e \<Rightarrow> Inl (error_new (kv_error K e))
      | Inr kvs \<Rightarrow> Inr (map (\<lambda>(k, v). (key_split k, v)) kvs))"

definition etcd_ops :: "('c, 'e) kv_ops \<Rightarrow> 'c store_ops" where
  "etcd_ops K = \<lparr> store_get = etcd_get K, store_put = etcd_put K, store_list = etcd_list K \<rparr>"

text \<open>Connecting: \<open>connect n\<close> is what the \<open>n\<close>-th attempt returns. After the first there are ten more.\<close>

fun etcd_retries :: "(nat \<Rightarrow> 'e + 'c) \<Rightarrow> nat \<Rightarrow> nat \<Rightarrow> 'e + 'c \<Rightarrow> 'e + 'c" where
  "etcd_retries connect 0 n client = client"
| "etcd_retries connect (Suc left) n client =
     (case client of Inr c \<Rightarrow> Inr c | Inl e \<Rightarrow> etcd_retries connect left (Suc n) (connect n))"

definition etcd_connect :: "(nat \<Rightarrow> 'e + 'c) \<Rightarrow> ('e \<Rightarrow> string) \<Rightarrow> string + 'c" where
  "etcd_connect connect show_err =
     (case etcd_retries connect 10 1 (connect 0) of
        Inl e \<Rightarrow> Inl (''Error connecting to etcd: '' @ show_err e) | Inr c \<Rightarrow> Inr c)"

lemma etcd_retries_cases:
  "(\<exists>k < left. \<exists>c. etcd_retries connect left n (Inl e) = Inr c \<and> connect (n + k) = Inr c
      \<and> (\<forall>j < k. \<exists>e. connect (n + j) = Inl e))
   \<or> (\<exists>e'. etcd_retries connect left n (Inl e) = Inl e' \<and> (\<forall>j < left. \<exists>e. connect (n + j) = Inl e))"
proof (induction left arbitrary: n e)
  case (Suc left)
  show ?case
  proof (cases "connect n")
    case (Inl e')
    have step: "(\<forall>j < Suc k. \<exists>e. connect (n + j) = Inl e) \<longleftrightarrow> (\<forall>j < k. \<exists>e. connect (Suc n + j) = Inl e)" for k
      using Inl by (auto simp: less_Suc_eq_0_disj)
    from Suc[of "Suc n" e'] show ?thesis
    proof
      assume "\<exists>k < left. \<exists>c. etcd_retries connect left (Suc n) (Inl e') = Inr c \<and> connect (Suc n + k) = Inr c
        \<and> (\<forall>j < k. \<exists>e. connect (Suc n + j) = Inl e)"
      then obtain k c where "k < left" "etcd_retries connect left (Suc n) (Inl e') = Inr c" "connect (n + Suc k) = Inr c"
        "\<forall>j < Suc k. \<exists>e. connect (n + j) = Inl e" using step by auto
      then show ?thesis using Inl by (intro disjI1 exI[of _ "Suc k"]) simp
    next
      assume "\<exists>e''. etcd_retries connect left (Suc n) (Inl e') = Inl e'' \<and> (\<forall>j < left. \<exists>e. connect (Suc n + j) = Inl e)"
      then show ?thesis using Inl step[of left] by simp
    qed
  next
    case (Inr c)
    then have "etcd_retries connect (Suc left) n (Inl e) = Inr c" by (cases left) simp_all
    then show ?thesis using Inr by (intro disjI1 exI[of _ 0]) simp
  qed
qed simp

text \<open>The connection is that of the first of eleven attempts that succeeds.\<close>

lemma etcd_connect_first:
  assumes "\<exists>k < 11. connect k = Inr c \<and> (\<forall>j < k. \<exists>e. connect j = Inl e)"
  shows "etcd_connect connect show_err = Inr c"
proof -
  obtain k where k: "k < 11" "connect k = Inr c" "\<And>j. j < k \<Longrightarrow> \<exists>e. connect j = Inl e" using assms by blast
  show ?thesis
  proof (cases k)
    case 0
    then have "etcd_retries connect 10 1 (connect 0) = Inr c" using k by (simp add: numeral_eq_Suc)
    then show ?thesis by (simp add: etcd_connect_def)
  next
    case (Suc k')
    then obtain e where e: "connect 0 = Inl e" using k by blast
    from etcd_retries_cases[of 10 connect 1 e] have "etcd_retries connect 10 1 (Inl e) = Inr c"
    proof
      assume "\<exists>k<10. \<exists>d. etcd_retries connect 10 1 (Inl e) = Inr d \<and> connect (1 + k) = Inr d \<and> (\<forall>j<k. \<exists>e. connect (1 + j) = Inl e)"
      then obtain i d where i: "etcd_retries connect 10 1 (Inl e) = Inr d" "connect (Suc i) = Inr d" "\<forall>j<i. \<exists>e. connect (Suc j) = Inl e"
        by auto
      have "i = k'" using i k Suc
        by (metis Suc_less_eq linorder_neqE_nat sum.distinct(1))
      then show ?thesis using i k Suc by simp
    next
      assume "\<exists>e'. etcd_retries connect 10 1 (Inl e) = Inl e' \<and> (\<forall>j<10. \<exists>e. connect (1 + j) = Inl e)"
      moreover have "k' < 10" using k(1) Suc by simp
      ultimately have "\<exists>e. connect k = Inl e" using Suc by force
      then show ?thesis using k(2) by simp
    qed
    then show ?thesis using e by (simp add: etcd_connect_def)
  qed
qed

subsection \<open>Keys as paths\<close>

text \<open>The keys that come back as they were stored: the components have no slash, and the joined key is not empty, which etcd
  would refuse.\<close>

definition path_key :: "config_key \<Rightarrow> bool" where
  "path_key k \<longleftrightarrow> k \<noteq> [] \<and> k \<noteq> [''''] \<and> (\<forall>c \<in> set k. CHR ''/'' \<notin> set c)"

lemma key_split_nonempty [simp]: "key_split s \<noteq> []"
  by (cases s) (auto split: list.splits)

lemma key_split_word: "CHR ''/'' \<notin> set w \<Longrightarrow> key_split w = [w]"
  by (induction w) auto

lemma key_split_word_slash: "CHR ''/'' \<notin> set w \<Longrightarrow> key_split (w @ CHR ''/'' # s) = w # key_split s"
  by (induction w) auto

lemma key_split_components:
  assumes "p \<noteq> []" "\<forall>c \<in> set p. CHR ''/'' \<notin> set c"
  shows "key_split (key_join p) = p" "key_split (key_join p @ CHR ''/'' # s) = p @ key_split s"
  using assms by (induction p rule: key_join.induct) (auto simp: key_split_word key_split_word_slash)

lemma key_split_join_slash: "path_key p \<Longrightarrow> key_split (key_join p @ CHR ''/'' # s) = p @ key_split s"
  by (simp add: path_key_def key_split_components)

lemma key_split_join: "path_key k \<Longrightarrow> key_split (key_join k) = k"
  by (simp add: path_key_def key_split_components)

lemma path_key_join_nonempty: "path_key k \<Longrightarrow> key_join k \<noteq> ''''"
  by (cases k rule: key_join.cases) (auto simp: path_key_def)

lemma key_join_inject: "path_key k \<Longrightarrow> path_key l \<Longrightarrow> key_join k = key_join l \<longleftrightarrow> k = l"
  by (metis key_split_join)

lemma key_join_append: "p \<noteq> [] \<Longrightarrow> q \<noteq> [] \<Longrightarrow> key_join (p @ q) = key_join p @ CHR ''/'' # key_join q"
proof (induction p rule: key_join.induct)
  case (2 c)
  then show ?case by (cases q) auto
qed auto

lemma prefix_join_iff:
  assumes "path_key p" "path_key k"
  shows "prefix (key_join p @ ''/'') (key_join k) \<longleftrightarrow> strict_prefix p k"
proof
  assume "prefix (key_join p @ ''/'') (key_join k)"
  then obtain t where "key_join k = key_join p @ CHR ''/'' # t" by (auto simp: prefix_def)
  then have "k = p @ key_split t" by (metis assms key_split_join key_split_join_slash)
  then show "strict_prefix p k" by (metis key_split_nonempty append_self_conv prefixI strict_prefix_def)
next
  assume "strict_prefix p k"
  then obtain q where "k = p @ q" "q \<noteq> []" by (auto simp: strict_prefix_def prefix_def)
  then have "key_join k = (key_join p @ ''/'') @ key_join q" using assms key_join_append[of p q] by (simp add: path_key_def)
  then show "prefix (key_join p @ ''/'') (key_join k)" by (metis prefixI)
qed

subsection \<open>The contract\<close>

text \<open>What the etcd service promises. It refuses requests for the empty key, so nothing is said of it.\<close>

locale etcd_service =
  fixes K :: "('c, 'e) kv_ops" and contents :: "'c \<Rightarrow> string \<Rightarrow> string option"
  assumes range_key: "k \<noteq> '''' \<Longrightarrow> kv_range_key K c k = Inr (case contents c k of None \<Rightarrow> [] | Some v \<Rightarrow> [(k, v)])"
    and put_key: "k \<noteq> '''' \<Longrightarrow> \<exists>c'. kv_put K c k v = Inr c' \<and> contents c' = (contents c)(k \<mapsto> v)"
    and range_prefix: "p \<noteq> '''' \<Longrightarrow> \<exists>kvs. kv_range_prefix K c p = Inr kvs \<and> distinct (map fst kvs)
      \<and> set kvs = {(k, v). contents c k = Some v \<and> prefix p k}"
begin

definition etcd_entries :: "'c \<Rightarrow> config_key \<Rightarrow> config_value option" where
  "etcd_entries c k = (if path_key k then contents c (key_join k) else None)"

definition etcd_wf :: "'c \<Rightarrow> bool" where
  "etcd_wf c \<longleftrightarrow> (\<forall>s v. contents c s = Some v \<longrightarrow> (\<exists>k. path_key k \<and> s = key_join k))"

text \<open>Listing returns the entries strictly below the prefix, since the slash after it is part of the request.\<close>

lemma etcd_list_spec:
  assumes "etcd_wf c" "path_key p"
  shows "\<exists>es. etcd_list K c p = Inr es \<and> distinct (map fst es)
    \<and> set es = {(k, v). etcd_entries c k = Some v \<and> strict_prefix p k}"
proof -
  obtain kvs where kvs: "kv_range_prefix K c (key_join p @ ''/'') = Inr kvs" "distinct (map fst kvs)"
      "set kvs = {(k, v). contents c k = Some v \<and> prefix (key_join p @ ''/'') k}"
    using range_prefix[of "key_join p @ ''/''" c] by auto
  let ?es = "map (\<lambda>(k, v). (key_split k, v)) kvs"
  have keys: "\<exists>k. path_key k \<and> s = key_join k" if "(s, v) \<in> set kvs" for s v
    using that assms(1) kvs(3) by (auto simp: etcd_wf_def)
  have "set ?es = {(k, v). etcd_entries c k = Some v \<and> strict_prefix p k}"
  proof (intro set_eqI iffI; clarify)
    fix k v
    assume "(k, v) \<in> set ?es"
    then obtain s where s: "(s, v) \<in> set kvs" "k = key_split s" by auto
    then obtain l where l: "path_key l" "s = key_join l" using keys by blast
    then have "k = l" using s by (simp add: key_split_join)
    then show "etcd_entries c k = Some v \<and> strict_prefix p k"
      using s l kvs(3) prefix_join_iff[OF assms(2), of l] by (auto simp: etcd_entries_def)
  next
    fix k v
    assume kv: "etcd_entries c k = Some v" "strict_prefix p k"
    then have k: "path_key k" "contents c (key_join k) = Some v" by (auto simp: etcd_entries_def split: if_splits)
    then have "(key_join k, v) \<in> set kvs" using kv kvs(3) prefix_join_iff[OF assms(2), of k] by simp
    then show "(k, v) \<in> set ?es" using k by (force simp: key_split_join)
  qed
  moreover have "distinct (map fst ?es)"
  proof -
    have "inj_on key_split (set (map fst kvs))" using keys by (auto simp: inj_on_def) (metis key_split_join)
    then have "distinct (map key_split (map fst kvs))" using kvs(2) by (simp only: distinct_map)
    then show ?thesis by (simp add: comp_def case_prod_beta)
  qed
  ultimately show ?thesis using kvs(1) by (simp add: etcd_list_def)
qed

text \<open>The store keeps the contract for path keys.\<close>

sublocale config_store "etcd_ops K" etcd_wf path_key etcd_entries
proof
  fix c p
  assume "etcd_wf c" "path_key p" and p: "etcd_entries c p = None"
  have "{(k, v). etcd_entries c k = Some v \<and> strict_prefix p k} = {(k, v). etcd_entries c k = Some v \<and> prefix p k}"
    using p by (auto simp: strict_prefix_def)
  then show "\<exists>es. store_list (etcd_ops K) c p = Inr es \<and> distinct (map fst es)
      \<and> set es = {(k, v). etcd_entries c k = Some v \<and> prefix p k}"
    using etcd_list_spec[OF \<open>etcd_wf c\<close> \<open>path_key p\<close>] by (simp add: etcd_ops_def)
next
  fix c k v
  assume c: "etcd_wf c" and k: "path_key k"
  obtain c' where c': "kv_put K c (key_join k) v = Inr c'" "contents c' = (contents c)(key_join k \<mapsto> v)"
    using put_key[OF path_key_join_nonempty[OF k]] by blast
  have "etcd_wf c'" using c k c'(2) by (auto simp: etcd_wf_def)
  moreover have "etcd_entries c' = (etcd_entries c)(k \<mapsto> v)"
    using k c'(2) by (auto simp: etcd_entries_def fun_eq_iff key_join_inject)
  ultimately show "\<exists>st'. store_put (etcd_ops K) c k v = Inr st' \<and> etcd_wf st' \<and> etcd_entries st' = (etcd_entries c)(k \<mapsto> v)"
    using c' by (simp add: etcd_ops_def etcd_put_def)
qed (auto simp: etcd_ops_def etcd_get_def range_key path_key_join_nonempty etcd_entries_def split: option.splits if_splits)

text \<open>Reading and listing after a write. An in-memory store with the same entries lists the entry of the prefix as well.\<close>

lemma etcd_inmem_list:
  assumes "etcd_list K c p = Inr es" "etcd_wf c" "path_key p" "hash_order iter"
    and "distinct (map fst (im_map st))" "map_of (im_map st) = etcd_entries c"
  shows "\<exists>es'. inmem_list iter st p = Inr es' \<and> set es' = set es \<union> {(p, u) | u. etcd_entries c p = Some u}"
proof -
  have "set (filter (\<lambda>(key, val). prefix p key) (iter (im_map st))) = {(k, v). map_of (im_map st) k = Some v \<and> prefix p k}"
    using assms(4,5) by (auto simp: hash_order_def dest: map_of_SomeD)
  moreover have "set es = {(k, v). etcd_entries c k = Some v \<and> strict_prefix p k}"
    using etcd_list_spec[OF assms(2,3)] assms(1) by auto
  ultimately show ?thesis unfolding assms(6) inmem_list_def by (auto simp: strict_prefix_def)
qed

lemma etcd_map:
  assumes "etcd_wf c" "path_key k" "path_key k'"
  shows "\<exists>c'. etcd_put K c k v = Inr c' \<and> etcd_wf c' \<and> etcd_entries c' = (etcd_entries c)(k \<mapsto> v)
    \<and> etcd_get K c' k' = Some (Inr (if k' = k then Some v else etcd_entries c k'))
    \<and> (\<exists>es. etcd_list K c' k' = Inr es \<and> distinct (map fst es)
        \<and> set es = {(l, u). etcd_entries c' l = Some u \<and> strict_prefix k' l}
        \<and> (\<forall>iter st. hash_order iter \<and> distinct (map fst (im_map st)) \<and> map_of (im_map st) = etcd_entries c' \<longrightarrow>
            (\<exists>es'. inmem_list iter st k' = Inr es' \<and> set es' = set es \<union> {(k', u) | u. etcd_entries c' k' = Some u})))"
proof -
  obtain c' where c': "store_put (etcd_ops K) c k v = Inr c'" "etcd_wf c'" "etcd_entries c' = (etcd_entries c)(k \<mapsto> v)"
    using put_ok[OF assms(1,2)] by blast
  then have "store_get (etcd_ops K) c' k' = Some (Inr (etcd_entries c' k'))" using get_eq assms(3) by blast
  moreover obtain es where es: "etcd_list K c' k' = Inr es" "distinct (map fst es)"
      "set es = {(l, u). etcd_entries c' l = Some u \<and> strict_prefix k' l}"
    using etcd_list_spec[OF c'(2) assms(3)] by blast
  moreover have "\<forall>iter st. hash_order iter \<and> distinct (map fst (im_map st)) \<and> map_of (im_map st) = etcd_entries c' \<longrightarrow>
      (\<exists>es'. inmem_list iter st k' = Inr es' \<and> set es' = set es \<union> {(k', u) | u. etcd_entries c' k' = Some u})"
    using etcd_inmem_list[OF es(1) c'(2) assms(3)] by blast
  ultimately show ?thesis using c' by (simp add: etcd_ops_def)
qed

lemma etcd_empty: "contents c = (\<lambda>_. None) \<Longrightarrow> etcd_wf c \<and> etcd_entries c = (\<lambda>_. None)"
  by (simp add: etcd_wf_def etcd_entries_def fun_eq_iff)

end

text \<open>An etcd server, as an association list.\<close>

definition list_kv :: "((string \<times> string) list, unit) kv_ops" where
  "list_kv = \<lparr> kv_range_key = (\<lambda>c k. if k = '''' then Inl () else Inr (case map_of c k of None \<Rightarrow> [] | Some v \<Rightarrow> [(k, v)])),
     kv_put = (\<lambda>c k v. if k = '''' then Inl () else Inr (AList.update k v c)),
     kv_range_prefix = (\<lambda>c p. Inr (filter (\<lambda>(k, v). prefix p k) (AList.clearjunk c))), kv_error = (\<lambda>_. ''error'') \<rparr>"

interpretation list_etcd: etcd_service list_kv map_of
proof
  fix c :: "(string \<times> string) list" and p :: string
  show "\<exists>kvs. kv_range_prefix list_kv c p = Inr kvs \<and> distinct (map fst kvs)
      \<and> set kvs = {(k, v). map_of c k = Some v \<and> prefix p k}"
    using distinct_clearjunk[of c] map_of_clearjunk[of c] map_of_eq_Some_iff[OF distinct_clearjunk[of c]]
    by (auto simp: list_kv_def intro!: distinct_fst_filter)
qed (simp_all add: list_kv_def map_of_update_fun)

section \<open>The store of either kind\<close>

datatype ('i, 'c) store_wrapper = InMem 'i | Etcd 'c

definition wrapper_store_ops :: "'i store_ops \<Rightarrow> 'c store_ops \<Rightarrow> ('i, 'c) store_wrapper store_ops" where
  "wrapper_store_ops A B =
     \<lparr> store_get = (\<lambda>st k. case st of InMem s \<Rightarrow> store_get A s k | Etcd s \<Rightarrow> store_get B s k),
       store_put = (\<lambda>st k v. case st of
           InMem s \<Rightarrow> (case store_put A s k v of Inl e \<Rightarrow> Inl e | Inr s' \<Rightarrow> Inr (InMem s'))
         | Etcd s \<Rightarrow> (case store_put B s k v of Inl e \<Rightarrow> Inl e | Inr s' \<Rightarrow> Inr (Etcd s'))),
       store_list = (\<lambda>st p. case st of InMem s \<Rightarrow> store_list A s p | Etcd s \<Rightarrow> store_list B s p) \<rparr>"

text \<open>\<open>s.splitn(2, "://")\<close>: the text before and after the first separator.\<close>

fun split_scheme :: "string \<Rightarrow> (string \<times> string) option" where
  "split_scheme [] = None"
| "split_scheme (c # s) =
     (if prefix ''://'' (c # s) then Some ([], drop 3 (c # s))
      else map_option (\<lambda>(a, b). (c # a, b)) (split_scheme s))"

definition store_from_string ::
    "(string \<Rightarrow> string + 'c) \<Rightarrow> string \<Rightarrow> string + (inmem_store, 'c) store_wrapper" where
  "store_from_string connect s =
     (let parsed = (if s \<noteq> '''' then
          (case split_scheme s of
             None \<Rightarrow> Inl (''Missing scheme separator [://] in config specification ['' @ s @ '']'')
           | Some (scheme, remainder) \<Rightarrow> Inr (scheme, remainder))
        else Inr (''mem'', ''''))
      in case parsed of
        Inl e \<Rightarrow> Inl e
      | Inr (scheme, remainder) \<Rightarrow>
          if scheme = ''mem'' then
            if remainder = '''' then Inr (InMem inmem_new)
            else Inl (''Expected empty authority for mem:// URL; got ['' @ remainder @ ''].'')
          else if scheme = ''etcd'' then
            (case connect (''http://'' @ remainder) of Inl e \<Rightarrow> Inl e | Inr c \<Rightarrow> Inr (Etcd c))
          else Inl (''Unrecognized config server specification ['' @ s @ '']. Expected [mem://] or [etcd://].''))"

text \<open>The variable's text, absent when it is unset or not valid UTF-8.\<close>

definition store_from_env ::
    "(string \<Rightarrow> string + 'c) \<Rightarrow> string option \<Rightarrow> string + (inmem_store, 'c) store_wrapper" where
  "store_from_env connect var = store_from_string connect (case var of None \<Rightarrow> '''' | Some s \<Rightarrow> s)"

lemma split_scheme_iff:
  "split_scheme s = Some (a, b) \<longleftrightarrow> s = a @ ''://'' @ b \<and> (\<forall>a' b'. s = a' @ ''://'' @ b' \<longrightarrow> length a \<le> length a')"
proof (induction s arbitrary: a)
  case (Cons c s)
  show ?case
  proof (cases "prefix ''://'' (c # s)")
    case True
    then obtain t where t: "c # s = ''://'' @ t" by (auto simp: prefix_def)
    then show ?thesis using True by (auto simp: Cons_eq_append_conv)
  next
    case False
    have *: "c # s = a' @ ''://'' @ b' \<longleftrightarrow> (\<exists>a''. a' = c # a'' \<and> s = a'' @ ''://'' @ b')" for a' b'
      using False by (auto simp: Cons_eq_append_conv prefix_def)
    have "split_scheme (c # s) = Some (a, b) \<longleftrightarrow> (\<exists>a'. a = c # a' \<and> split_scheme s = Some (a', b))"
      using False by auto
    also have "\<dots> \<longleftrightarrow> c # s = a @ ''://'' @ b \<and> (\<forall>a' b'. c # s = a' @ ''://'' @ b' \<longrightarrow> length a \<le> length a')"
      unfolding Cons.IH * by fastforce
    finally show ?thesis .
  qed
qed simp

text \<open>The in-memory store is chosen exactly by the empty string and by \<open>mem://\<close>.\<close>

lemma store_from_string_mem_iff:
  "(\<exists>st. store_from_string connect s = Inr (InMem st)) \<longleftrightarrow> s = '''' \<or> s = ''mem://''"
proof -
  have "split_scheme s = Some (''mem'', '''') \<longleftrightarrow> s = ''mem://''"
  proof
    assume "s = ''mem://''"
    then show "split_scheme s = Some (''mem'', '''')" by (simp add: prefix_def)
  qed (simp add: split_scheme_iff)
  then show ?thesis
    by (auto simp: store_from_string_def Let_def split: option.splits sum.splits if_splits prod.splits)
qed

text \<open>The store of either kind keeps the contract on the keys that both admit.\<close>

lemma wrapper_store_contract:
  assumes A: "config_store A wfA okA entA" and B: "config_store B wfB okB entB"
  shows "config_store (wrapper_store_ops A B)
    (\<lambda>st. case st of InMem s \<Rightarrow> wfA s \<and> (\<forall>k. entA s k \<noteq> None \<longrightarrow> okB k) | Etcd s \<Rightarrow> wfB s \<and> (\<forall>k. entB s k \<noteq> None \<longrightarrow> okA k))
    (\<lambda>k. okA k \<and> okB k) (\<lambda>st. case st of InMem s \<Rightarrow> entA s | Etcd s \<Rightarrow> entB s)"
proof -
  note a = config_store.get_eq[OF A] config_store.entries_ok[OF A]
  note b = config_store.get_eq[OF B] config_store.entries_ok[OF B]
  show ?thesis
  proof (unfold_locales, goal_cases)
    case (1 st k)
    then show ?case by (auto simp: wrapper_store_ops_def a b split: store_wrapper.splits)
  next
    case (2 st k v)
    show ?case
    proof (cases st)
      case (InMem s)
      then obtain s' where "store_put A s k v = Inr s'" "wfA s'" "entA s' = (entA s)(k \<mapsto> v)"
        using 2 config_store.put_ok[OF A, of s k v] by auto
      then show ?thesis using 2 InMem by (intro exI[of _ "InMem s'"]) (auto simp: wrapper_store_ops_def)
    next
      case (Etcd s)
      then obtain s' where "store_put B s k v = Inr s'" "wfB s'" "entB s' = (entB s)(k \<mapsto> v)"
        using 2 config_store.put_ok[OF B, of s k v] by auto
      then show ?thesis using 2 Etcd by (intro exI[of _ "Etcd s'"]) (auto simp: wrapper_store_ops_def)
    qed
  next
    case (3 st p)
    then show ?case
      using config_store.list_ok[OF A, of _ p] config_store.list_ok[OF B, of _ p]
      by (cases st) (auto simp: wrapper_store_ops_def)
  next
    case (4 st k v)
    then show ?case by (auto split: store_wrapper.splits intro: a(2) b(2))
  qed
qed

interpretation wrapper_store: config_store "wrapper_store_ops (inmem_ops (\<lambda>m. m)) (etcd_ops list_kv)"
  "\<lambda>st. case st of InMem s \<Rightarrow> distinct (map fst (im_map s)) \<and> (\<forall>k. map_of (im_map s) k \<noteq> None \<longrightarrow> path_key k)
     | Etcd s \<Rightarrow> list_etcd.etcd_wf s \<and> (\<forall>k. list_etcd.etcd_entries s k \<noteq> None \<longrightarrow> True)"
  "\<lambda>k. True \<and> path_key k" "\<lambda>st. case st of InMem s \<Rightarrow> map_of (im_map s) | Etcd s \<Rightarrow> list_etcd.etcd_entries s"
  by (rule wrapper_store_contract[OF inmem.config_store_axioms list_etcd.config_store_axioms])

end
