(* ===== verification/Services.thy ===== *)
theory Services
  imports Wrapper Config
begin

text \<open>
  The participants of an experiment (\<open>spectrum/src/services/mod.rs\<close>) and their registration in the
  configuration store (\<open>services/discovery.rs\<close>). A node is registered under a key made from its service;
  \<open>resolve_all\<close> reads the keys back. The locale \<open>discovery_store\<close> carries the main result: over any store
  that keeps the contract, resolving returns exactly the registered nodes.
\<close>

section \<open>Numbers as text\<close>

text \<open>\<open>str::parse\<close> for an unsigned integer below \<open>bound\<close>: an optional plus sign and decimal digits.\<close>

definition is_digit :: "char \<Rightarrow> bool" where
  "is_digit c \<longleftrightarrow> 48 \<le> (of_char c :: nat) \<and> (of_char c :: nat) \<le> 57"

definition parse_uint :: "nat \<Rightarrow> string \<Rightarrow> nat option" where
  "parse_uint bound s =
     (let digits = (case s of c # cs \<Rightarrow> if c = CHR ''+'' then cs else s | [] \<Rightarrow> [])
      in if digits = [] \<or> \<not> list_all is_digit digits then None
         else if string_value digits < bound then Some (string_value digits) else None)"

lemma digit_is_digit: "(d :: nat) < 10 \<Longrightarrow> is_digit (char_of (48 + d))"
  by (simp add: is_digit_def of_char_of)

lemma nat_to_string_digits: "list_all is_digit (nat_to_string n)"
proof (induction n rule: nat_to_string.induct)
  case (1 n)
  then show ?case by (subst nat_to_string.simps) (simp add: digit_is_digit)
qed

lemma parse_nat_to_string: "n < bound \<Longrightarrow> parse_uint bound (nat_to_string n) = Some n"
proof -
  assume n: "n < bound"
  obtain c s where cs: "nat_to_string n = c # s" by (cases "nat_to_string n") auto
  have "is_digit c" using nat_to_string_digits[of n] cs by simp
  then have "c \<noteq> CHR ''+''" by (auto simp: is_digit_def)
  then show ?thesis
    using n nat_to_string_digits[of n] string_value_nat_to_string[of n] cs by (simp add: parse_uint_def)
qed

lemma digits_no_slash: "CHR ''/'' \<notin> set (nat_to_string n)"
  using nat_to_string_digits[of n] by (auto simp: list_all_iff is_digit_def)

lemma digits_not_leader: "nat_to_string n \<noteq> ''leader''"
  using nat_to_string_digits[of n] by (auto simp: is_digit_def)

section \<open>Services\<close>

record group = group_idx :: u16

record leader_info = leader_group :: group

record worker_info =
  worker_group :: group
  worker_idx :: u16

datatype publisher_info = PublisherInfo

record ('fr, 'sp) client_info =
  client_idx :: u128
  client_broadcast :: "(bytes \<times> ('fr, 'sp) channel_key_wrapper) option"

definition client_info_new :: "u128 \<Rightarrow> ('fr, 'sp) client_info" where
  "client_info_new idx = \<lparr> client_idx = idx, client_broadcast = None \<rparr>"

definition new_broadcaster :: "u128 \<Rightarrow> bytes \<Rightarrow> ('fr, 'sp) channel_key_wrapper \<Rightarrow> ('fr, 'sp) client_info" where
  "new_broadcaster idx message key = \<lparr> client_idx = idx, client_broadcast = Some (message, key) \<rparr>"

text \<open>\<open>PartialEq for ClientInfo\<close>: clients are equal when their indices are. Maps keyed by a client are
  keyed by its index below.\<close>

definition client_info_eq :: "('fr, 'sp) client_info \<Rightarrow> ('fr, 'sp) client_info \<Rightarrow> bool" where
  "client_info_eq this other \<longleftrightarrow> client_idx this = client_idx other"

datatype ('fr, 'sp) service =
    Leader leader_info
  | Publisher publisher_info
  | Worker worker_info
  | Client "('fr, 'sp) client_info"

text \<open>The messages \<open>ClientId\<close> and \<open>WorkerId\<close> and their conversions.\<close>

record proto_client_id = pc_client_id :: string

record proto_worker_id =
  pw_group :: u32
  pw_idx :: u32

definition client_to_proto :: "('fr, 'sp) client_info \<Rightarrow> proto_client_id" where
  "client_to_proto c = \<lparr> pc_client_id = nat_to_string (unat (client_idx c)) \<rparr>"

definition worker_to_proto :: "worker_info \<Rightarrow> proto_worker_id" where
  "worker_to_proto w = \<lparr> pw_group = ucast (group_idx (worker_group w)), pw_idx = ucast (worker_idx w) \<rparr>"

definition worker_from_proto :: "proto_worker_id \<Rightarrow> worker_info" where
  "worker_from_proto w = \<lparr> worker_group = \<lparr> group_idx = ucast (pw_group w) \<rparr>, worker_idx = ucast (pw_idx w) \<rparr>"

definition client_from_proto :: "proto_client_id \<Rightarrow> ('fr, 'sp) client_info option" where
  "client_from_proto c =
     do { idx \<leftarrow> parse_uint (2 ^ 128) (pc_client_id c); Some (client_info_new (of_nat idx)) }"

lemma ucast_u16_u32: "ucast (ucast (x :: u16) :: u32) = x"
  by transfer (simp add: take_bit_take_bit min_def)

lemma worker_proto_roundtrip: "worker_from_proto (worker_to_proto w) = w"
  by (simp add: worker_from_proto_def worker_to_proto_def ucast_u16_u32)

text \<open>A worker identifier that does not fit 16 bits is truncated: two identifiers on the wire may name
  the same worker.\<close>

lemma worker_from_proto_truncates:
  "worker_from_proto w = worker_from_proto w' \<longleftrightarrow>
   unat (pw_group w) mod 2 ^ 16 = unat (pw_group w') mod 2 ^ 16 \<and> unat (pw_idx w) mod 2 ^ 16 = unat (pw_idx w') mod 2 ^ 16"
proof -
  have "(ucast (a :: u32) :: u16) = ucast b \<longleftrightarrow> unat a mod 2 ^ 16 = unat b mod 2 ^ 16" for a b :: u32
    by (simp add: word_eq_iff_unsigned[where 'a = nat] unsigned_ucast_eq take_bit_eq_mod)
  then show ?thesis by (simp add: worker_from_proto_def)
qed

lemma client_from_to_proto [simp]: "client_from_proto (client_to_proto c) = Some (client_info_new (client_idx c))"
proof -
  have "unat (client_idx c) < 2 ^ 128" using unsigned_less[of "client_idx c", where 'a = nat] by simp
  then show ?thesis by (simp add: client_from_proto_def client_to_proto_def parse_nat_to_string)
qed

lemma client_proto_roundtrip:
  "\<exists>c' :: ('fr, 'sp) client_info. client_from_proto (client_to_proto c) = Some c' \<and> client_idx c' = client_idx c
     \<and> client_broadcast c' = None"
  by (simp add: client_info_new_def)

section \<open>Discovery\<close>

definition to_config_key :: "('fr, 'sp) service \<Rightarrow> config_key option" where
  "to_config_key s = (case s of
     Leader info \<Rightarrow> Some [''nodes'', ''groups'', nat_to_string (unat (group_idx (leader_group info))), ''leader'']
   | Publisher _ \<Rightarrow> Some [''nodes'', ''publisher'']
   | Worker info \<Rightarrow> Some [''nodes'', ''groups'', nat_to_string (unat (group_idx (worker_group info))),
                          nat_to_string (unat (worker_idx info))]
   | Client _ \<Rightarrow> None)"

record ('fr, 'sp) node =
  node_service :: "('fr, 'sp) service"
  node_addr :: string

definition register :: "('st, 'x) store_ops_scheme \<Rightarrow> 'st \<Rightarrow> ('fr, 'sp) node \<Rightarrow> (crate_error + 'st) option" where
  "register S st node =
     do { key \<leftarrow> to_config_key (node_service node); Some (store_put S st key (node_addr node)) }"

text \<open>The match of \<open>resolve_all\<close>; a key that has none of the three forms, or a number that does not
  parse, panics.\<close>

definition service_of_key :: "config_key \<Rightarrow> ('fr, 'sp) service option" where
  "service_of_key key = (case key of
     [a, b, g, i] \<Rightarrow>
       if a = ''nodes'' \<and> b = ''groups'' then
         if i = ''leader'' then
           do { n \<leftarrow> parse_uint (2 ^ 16) g; Some (Leader \<lparr> leader_group = \<lparr> group_idx = of_nat n \<rparr> \<rparr>) }
         else
           do { n \<leftarrow> parse_uint (2 ^ 16) g; m \<leftarrow> parse_uint (2 ^ 16) i;
                Some (Worker \<lparr> worker_group = \<lparr> group_idx = of_nat n \<rparr>, worker_idx = of_nat m \<rparr>) }
       else None
   | [a, b] \<Rightarrow> if a = ''nodes'' \<and> b = ''publisher'' then Some (Publisher PublisherInfo) else None
   | _ \<Rightarrow> None)"

definition resolve_all ::
    "('st, 'x) store_ops_scheme \<Rightarrow> 'st \<Rightarrow> (crate_error + ('fr, 'sp) node list) option" where
  "resolve_all S st =
     (case store_list S st [''nodes''] of
        Inl e \<Rightarrow> Some (Inl e)
      | Inr es \<Rightarrow>
          do { nodes \<leftarrow> try_map (\<lambda>(key, addr). do { s \<leftarrow> service_of_key key;
                                                Some \<lparr> node_service = s, node_addr = addr \<rparr> }) es;
               Some (Inr nodes) })"

lemma u16_to_string_parse: "parse_uint (2 ^ 16) (nat_to_string (unat (x :: u16))) = Some (unat x)"
  using unsigned_less[of x] by (intro parse_nat_to_string) simp

lemma service_of_config_key: "to_config_key s = Some k \<Longrightarrow> service_of_key k = Some s"
  by (auto simp: to_config_key_def service_of_key_def u16_to_string_parse[simplified] digits_not_leader
      publisher_info.exhaust split: service.splits) (metis publisher_info.exhaust)

lemma config_key_inject: "to_config_key s = Some k \<Longrightarrow> to_config_key s' = Some k \<Longrightarrow> s = s'"
  using service_of_config_key[of s k] service_of_config_key[of s' k] by simp

lemma config_key_path:
  "to_config_key s = Some k \<Longrightarrow> path_key k \<and> prefix [''nodes''] k \<and> k \<noteq> [''nodes'']"
  by (auto simp: to_config_key_def path_key_def digits_no_slash split: service.splits)

text \<open>The nodes of a store: those of the entries under \<open>nodes\<close>.\<close>

definition store_nodes :: "(config_key \<Rightarrow> config_value option) \<Rightarrow> ('fr, 'sp) node set" where
  "store_nodes m = {n. \<exists>k. to_config_key (node_service n) = Some k \<and> m k = Some (node_addr n)}"

definition nodes_only :: "('fr, 'sp) service set \<Rightarrow> (config_key \<Rightarrow> config_value option) \<Rightarrow> bool" where
  "nodes_only ss m \<longleftrightarrow> (\<forall>k v. m k = Some v \<longrightarrow> prefix [''nodes''] k \<longrightarrow> (\<exists>s \<in> ss. to_config_key s = Some k))"

text \<open>Registering a sequence of nodes.\<close>

fun register_all ::
    "('st, 'x) store_ops_scheme \<Rightarrow> 'st \<Rightarrow> ('fr, 'sp) node list \<Rightarrow> (crate_error + 'st) option" where
  "register_all S st [] = Some (Inr st)"
| "register_all S st (n # ns) =
     do { res \<leftarrow> register S st n; case res of Inl e \<Rightarrow> Some (Inl e) | Inr st' \<Rightarrow> register_all S st' ns }"

locale discovery_store = config_store +
  assumes path_ok: "path_key k \<Longrightarrow> key_ok k"
begin

lemma register_ok:
  assumes "store_wf st" "to_config_key (node_service n) = Some k"
  shows "\<exists>st'. register S st n = Some (Inr st') \<and> store_wf st' \<and> entries st' = (entries st)(k \<mapsto> node_addr n)"
  using put_ok[OF assms(1), of k "node_addr n"] config_key_path[OF assms(2)] path_ok assms(2) by (auto simp: register_def)

lemma resolve_all_ok:
  assumes st: "store_wf st" and only: "nodes_only (ss :: ('fr, 'sp) service set) (entries st)"
  shows "\<exists>ns :: ('fr, 'sp) node list. resolve_all S st = Some (Inr ns) \<and> distinct (map node_service ns)
    \<and> set ns = store_nodes (entries st)"
proof -
  have root: "key_ok [''nodes'']" by (rule path_ok) (simp add: path_key_def)
  have "entries st [''nodes''] = None"
  proof (cases "entries st [''nodes'']")
    case (Some v)
    then obtain s :: "('fr, 'sp) service" where "to_config_key s = Some [''nodes'']" using only by (force simp: nodes_only_def)
    then show ?thesis using config_key_path by blast
  qed
  then obtain es where es: "store_list S st [''nodes''] = Inr es" "distinct (map fst es)"
      "set es = {(k, v). entries st k = Some v \<and> prefix [''nodes''] k}"
    using list_ok[OF st root] by blast
  let ?sv = "\<lambda>k. the (service_of_key k) :: ('fr, 'sp) service"
  let ?ns = "map (\<lambda>(k, v). \<lparr> node_service = ?sv k, node_addr = v \<rparr>) es"
  have key: "\<exists>s :: ('fr, 'sp) service. to_config_key s = Some k" if "(k, v) \<in> set es" for k v
    using that only by (auto simp: nodes_only_def es(3))
  have sv: "to_config_key (?sv k) = Some k" "service_of_key k = Some (?sv k)" if kv: "(k, v) \<in> set es" for k v
  proof -
    obtain s :: "('fr, 'sp) service" where s: "to_config_key s = Some k" using key[OF kv] by blast
    then show "to_config_key (?sv k) = Some k" "service_of_key k = Some (?sv k)"
      using service_of_config_key[OF s] by simp_all
  qed
  have "try_map (\<lambda>(k, v). do { s \<leftarrow> service_of_key k; Some \<lparr> node_service = s, node_addr = v \<rparr> }) es = Some ?ns"
  proof (rule try_map_eq_map, clarify)
    fix k v
    assume "(k, v) \<in> set es"
    then obtain s :: "('fr, 'sp) service" where "service_of_key k = Some s" using sv(2) by blast
    then show "do { s \<leftarrow> service_of_key k; Some \<lparr> node_service = s, node_addr = v \<rparr> }
        = Some \<lparr> node_service = ?sv k, node_addr = v \<rparr>" by simp
  qed
  then have "resolve_all S st = Some (Inr ?ns)" by (simp add: resolve_all_def es(1))
  moreover have "distinct (map node_service ?ns)"
  proof -
    have "inj_on ?sv (set (map fst es))" by (rule inj_on_inverseI[where g = "\<lambda>s. the (to_config_key s)"]) (auto simp: sv(1))
    then have "distinct (map ?sv (map fst es))" using es(2) by (simp only: distinct_map)
    then show ?thesis by (simp add: comp_def case_prod_beta)
  qed
  moreover have "set ?ns = store_nodes (entries st)"
  proof (intro set_eqI iffI)
    fix n
    assume "n \<in> set ?ns"
    then obtain k v where "(k, v) \<in> set es" "n = \<lparr> node_service = ?sv k, node_addr = v \<rparr>" by auto
    then show "n \<in> store_nodes (entries st)" using sv(1) es(3) by (auto simp: store_nodes_def)
  next
    fix n :: "('fr, 'sp) node"
    assume "n \<in> store_nodes (entries st)"
    then obtain k where k: "to_config_key (node_service n) = Some k" "entries st k = Some (node_addr n)"
      by (auto simp: store_nodes_def)
    then have "(k, node_addr n) \<in> set es" using config_key_path[OF k(1)] es(3) by auto
    then show "n \<in> set ?ns" using service_of_config_key[OF k(1)] by (force simp: image_iff)
  qed
  ultimately show ?thesis by blast
qed

text \<open>Registering and resolving: the nodes are those registered, for distinct services.\<close>

lemma register_all_ok:
  assumes "store_wf st" "nodes_only ss (entries st)" "list_all (\<lambda>n. \<exists>k. to_config_key (node_service n) = Some k) ns"
  shows "\<exists>st'. register_all S st ns = Some (Inr st') \<and> store_wf st'
    \<and> nodes_only (ss \<union> set (map node_service ns)) (entries st')
    \<and> (distinct (map node_service ns) \<longrightarrow>
        store_nodes (entries st') = set ns \<union> {n \<in> store_nodes (entries st). node_service n \<notin> set (map node_service ns)})"
  using assms
proof (induction ns arbitrary: st ss)
  case (Cons n ns)
  then obtain k where k: "to_config_key (node_service n) = Some k" by auto
  then obtain st1 where st1: "register S st n = Some (Inr st1)" "store_wf st1" "entries st1 = (entries st)(k \<mapsto> node_addr n)"
    using register_ok[OF Cons.prems(1)] by blast
  have "nodes_only (insert (node_service n) ss) (entries st1)"
    using Cons.prems(2) k by (auto simp: nodes_only_def st1(3))
  from Cons.IH[OF st1(2) this] Cons.prems(3)
  obtain st' where st': "register_all S st1 ns = Some (Inr st')" "store_wf st'"
      "nodes_only (insert (node_service n) ss \<union> set (map node_service ns)) (entries st')"
      "distinct (map node_service ns) \<longrightarrow>
        store_nodes (entries st') = set ns \<union> {n \<in> store_nodes (entries st1). node_service n \<notin> set (map node_service ns)}"
    by auto
  have "store_nodes (entries st1) = insert n {n' \<in> store_nodes (entries st). node_service n' \<noteq> node_service n}"
  proof (rule set_eqI)
    fix n'
    show "n' \<in> store_nodes (entries st1) \<longleftrightarrow> n' \<in> insert n {n' \<in> store_nodes (entries st). node_service n' \<noteq> node_service n}"
    proof (cases "node_service n' = node_service n")
      case True
      then have "n' \<in> store_nodes (entries st1) \<longleftrightarrow> n' = n"
        using k by (auto simp: store_nodes_def st1(3) intro: node.equality)
      then show ?thesis using True by simp
    next
      case False
      then have "to_config_key (node_service n') \<noteq> Some k" using config_key_inject[OF _ k] by blast
      then show ?thesis using False by (auto simp: store_nodes_def st1(3))
    qed
  qed
  then show ?case using st1(1) st' by auto
qed simp

text \<open>What is registered is what is resolved.\<close>

lemma register_resolve_all:
  fixes ns :: "('fr, 'sp) node list"
  assumes st: "store_wf st" "entries st = (\<lambda>_. None)"
    and ns: "list_all (\<lambda>n. \<exists>k. to_config_key (node_service n) = Some k) ns" "distinct (map node_service ns)"
  shows "\<exists>st'. register_all S st ns = Some (Inr st')
    \<and> (\<exists>res. resolve_all S st' = Some (Inr res) \<and> distinct res \<and> set res = set ns)"
proof -
  have empty: "nodes_only ({} :: ('fr, 'sp) service set) (entries st)" "store_nodes (entries st) = ({} :: ('fr, 'sp) node set)"
    by (auto simp: nodes_only_def store_nodes_def st(2))
  obtain st' where st': "register_all S st ns = Some (Inr st')" "store_wf st'"
      "nodes_only ({} \<union> set (map node_service ns)) (entries st')" "store_nodes (entries st') = set ns"
    using register_all_ok[OF st(1) empty(1) ns(1)] ns(2) empty(2) by auto
  obtain res :: "('fr, 'sp) node list" where "resolve_all S st' = Some (Inr res)" "distinct (map node_service res)"
      "set res = store_nodes (entries st')"
    using resolve_all_ok[OF st'(2,3)] by blast
  then show ?thesis using st'(1,4) distinct_map by blast
qed

end

lemma inmem_discovery_store:
  "hash_order iter \<Longrightarrow>
   discovery_store (inmem_ops iter) (\<lambda>st. distinct (map fst (im_map st))) (\<lambda>_. True) (\<lambda>st. map_of (im_map st))"
  by (intro discovery_store.intro inmem_contract discovery_store_axioms.intro) simp_all

context etcd_service
begin

lemma etcd_discovery_store: "discovery_store (etcd_ops K) etcd_wf path_key etcd_entries"
  by (intro discovery_store.intro config_store_axioms discovery_store_axioms.intro)

end

interpretation inmem_discovery: discovery_store "inmem_ops (\<lambda>m. m)" "\<lambda>st. distinct (map fst (im_map st))" "\<lambda>_. True"
  "\<lambda>st. map_of (im_map st)"
  by unfold_locales simp

interpretation etcd_discovery: discovery_store "etcd_ops list_kv" list_etcd.etcd_wf path_key list_etcd.etcd_entries
  by unfold_locales

end
