(* ===== verification/Experiment.thy ===== *)
theory Experiment
  imports Services
begin

text \<open>
  The parameters of an experiment and the participants they imply (\<open>spectrum/src/experiment.rs\<close>). The JSON
  serialization of an experiment is an argument.
\<close>

section \<open>Experiments\<close>

record ('r, 'fr, 'sp) experiment_spec =
  ex_protocol :: "('r, 'fr, 'sp) protocol_wrapper"
  ex_group_size :: u16
  ex_clients :: u128
  ex_hammer :: bool
  ex_keys :: "('fr, 'sp) channel_key_wrapper list"

definition experiment_new ::
    "('r, 'fr, 'sp) protocol_wrapper \<Rightarrow> u16 \<Rightarrow> u128 \<Rightarrow> bool \<Rightarrow> ('fr, 'sp) channel_key_wrapper list
     \<Rightarrow> ('r, 'fr, 'sp) experiment_spec option" where
  "experiment_new protocol group_size clients hammer keys =
     do { rust_assert (1 \<le> group_size);
          rust_assert (1 \<le> clients);
          rust_assert (wrapper_num_channels protocol = length keys);
          Some \<lparr> ex_protocol = protocol, ex_group_size = group_size, ex_clients = clients, ex_hammer = hammer,
                 ex_keys = keys \<rparr> }"

text \<open>The keys drawn for the channels; the curve and the random draws come from the environment.\<close>

definition sample_keys ::
    "('r, 'fr, 'sp, 'h, 'e) crypto_env \<Rightarrow> ('r, 'fr, 'sp) protocol_wrapper \<Rightarrow> ('r, ('fr, 'sp) channel_key_wrapper list) sampler" where
  "sample_keys env protocol r =
     (let scalar = scalar_sample (env_random_fr env); n = wrapper_num_channels protocol in
      case protocol of
        SecurePub _ \<Rightarrow>
          (let (ks, r') = repeat_with_take (key_pair_sample (env_sp env) scalar) n r in (map wrapper_from_pub_auth_key ks, r'))
      | _ \<Rightarrow> (let (ks, r') = repeat_with_take scalar n r in (map wrapper_from_auth_key ks, r')))"

definition new_sample_keys ::
    "('r, 'fr, 'sp, 'h, 'e) crypto_env \<Rightarrow> ('r, 'fr, 'sp) protocol_wrapper \<Rightarrow> u16 \<Rightarrow> u128 \<Rightarrow> bool \<Rightarrow> 'r
     \<Rightarrow> (('r, 'fr, 'sp) experiment_spec \<times> 'r) option" where
  "new_sample_keys env protocol group_size clients hammer r =
     (let (keys, r') = sample_keys env protocol r
      in do { e \<leftarrow> experiment_new protocol group_size clients hammer keys; Some (e, r') })"

text \<open>\<open>groups()\<close> unwraps a conversion to 16 bits.\<close>

definition experiment_groups :: "('r, 'fr, 'sp) experiment_spec \<Rightarrow> u16 option" where
  "experiment_groups e =
     do { rust_assert (wrapper_num_parties (ex_protocol e) < 2 ^ 16); Some (of_nat (wrapper_num_parties (ex_protocol e))) }"

definition experiment_channels :: "('r, 'fr, 'sp) experiment_spec \<Rightarrow> nat" where
  "experiment_channels e = wrapper_num_channels (ex_protocol e)"

definition experiment_msg_size :: "('r, 'fr, 'sp) experiment_spec \<Rightarrow> nat" where
  "experiment_msg_size e = wrapper_message_len (ex_protocol e)"

definition iter_services :: "('r, 'fr, 'sp) experiment_spec \<Rightarrow> ('fr, 'sp) service list option" where
  "iter_services e =
     do { n \<leftarrow> experiment_groups e;
          let groups = map (\<lambda>i. \<lparr> group_idx = of_nat i \<rparr>) [0..<unat n];
          let workers = concat (map (\<lambda>group. map (\<lambda>idx. Worker \<lparr> worker_group = group, worker_idx = of_nat idx \<rparr>)
                [0..<unat (ex_group_size e)]) groups);
          let services = Publisher PublisherInfo # workers;
          if ex_hammer e then Some services
          else Some (services @ map (\<lambda>group. Leader \<lparr> leader_group = group \<rparr>) groups) }"

definition good_elem :: bytes where
  "good_elem = [203, 85, 12, 213, 56, 234, 12, 193, 19, 132, 128, 64, 142, 110, 170, 185,
     179, 108, 97, 63, 13, 211, 247, 120, 79, 219, 110, 234, 131, 123, 19, 215]"

text \<open>The message of broadcaster \<open>idx\<close>.\<close>

definition broadcaster_msg :: "('r, 'fr, 'sp) experiment_spec \<Rightarrow> nat \<Rightarrow> bytes" where
  "broadcaster_msg e idx =
     (let msg_size = experiment_msg_size e in
      if is_multi_key (ex_protocol e) then
        let rem = msg_size mod 32;
            len = (if rem \<noteq> 0 then msg_size + (32 - rem) else msg_size);
            chunks = len div 32
        in concat (replicate chunks good_elem)
      else replicate msg_size (of_nat (idx mod 256)))"

definition iter_clients :: "('r, 'fr, 'sp) experiment_spec \<Rightarrow> ('fr, 'sp) service list" where
  "iter_clients e =
     map (\<lambda>(idx, key). Client (new_broadcaster (of_nat idx) (broadcaster_msg e idx) key))
       (zip [0..<experiment_channels e] (ex_keys e))
     @ map (\<lambda>idx. Client (client_info_new (of_nat idx))) [experiment_channels e..<unat (ex_clients e)]"

text \<open>The experiment in the store.\<close>

definition write_to_store ::
    "('st, 'x) store_ops_scheme \<Rightarrow> (('r, 'fr, 'sp) experiment_spec \<Rightarrow> string + string) \<Rightarrow> 'st \<Rightarrow> ('r, 'fr, 'sp) experiment_spec
     \<Rightarrow> crate_error + 'st" where
  "write_to_store S to_json st e =
     (case to_json e of
        Inl err \<Rightarrow> Inl (error_new err)
      | Inr json_str \<Rightarrow> store_put S st [''experiment'', ''config''] json_str)"

definition read_from_store ::
    "('st, 'x) store_ops_scheme \<Rightarrow> (string \<Rightarrow> string + ('r, 'fr, 'sp) experiment_spec) \<Rightarrow> 'st
     \<Rightarrow> (crate_error + ('r, 'fr, 'sp) experiment_spec) option" where
  "read_from_store S from_json st =
     do { res \<leftarrow> store_get S st [''experiment'', ''config''];
          Some (case res of
             Inl e \<Rightarrow> Inl e
           | Inr None \<Rightarrow> Inl (error_new ''No experiment string in store.'')
           | Inr (Some json_str) \<Rightarrow> (case from_json json_str of Inl err \<Rightarrow> Inl (error_new err) | Inr e \<Rightarrow> Inr e)) }"

subsection \<open>Participants\<close>

text \<open>The experiments that the constructor makes, of at most \<open>2\<^sup>1\<^sup>6 - 1\<close> groups.\<close>

definition experiment_valid :: "('r, 'fr, 'sp) experiment_spec \<Rightarrow> bool" where
  "experiment_valid e \<longleftrightarrow> 1 \<le> ex_group_size e \<and> 1 \<le> ex_clients e
     \<and> wrapper_num_channels (ex_protocol e) = length (ex_keys e)"

lemma experiment_new_iff:
  "experiment_new protocol group_size clients hammer keys = Some e \<longleftrightarrow>
   experiment_valid e \<and> ex_protocol e = protocol \<and> ex_group_size e = group_size \<and> ex_clients e = clients
   \<and> ex_hammer e = hammer \<and> ex_keys e = keys"
  by (auto simp: experiment_new_def experiment_valid_def rust_assert_def intro!: experiment_spec.equality)

lemma length_sample_keys: "length (fst (sample_keys env protocol r)) = wrapper_num_channels protocol"
  by (auto simp: sample_keys_def Let_def case_prod_beta split: protocol_wrapper.splits)

lemma unat_of_nat_u16: "i < 2 ^ 16 \<Longrightarrow> unat (of_nat i :: u16) = i"
  by (simp add: unsigned_of_nat take_bit_nat_eq_self)

lemma experiment_groups_eq:
  "wrapper_num_parties (ex_protocol e) < 2 ^ 16 \<Longrightarrow>
   \<exists>n. experiment_groups e = Some n \<and> unat n = wrapper_num_parties (ex_protocol e)"
  by (simp add: experiment_groups_def unat_of_nat_u16)

lemma u16_bound: "unat (n :: u16) < 2 ^ 16"
  using unsigned_less[of n, where 'a = nat] by simp

lemma of_nat_u16_inj: "i < unat (n :: u16) \<Longrightarrow> j < unat n \<Longrightarrow> (of_nat i :: u16) = of_nat j \<longleftrightarrow> i = j"
  using u16_bound[of n] unat_of_nat_u16[of i] unat_of_nat_u16[of j] by (metis order.strict_trans)

lemma set_u16_range: "of_nat ` {0..<unat (n :: u16)} = {i :: u16. i < n}"
proof -
  have "x \<in> of_nat ` {0..<unat n}" if "x < n" for x :: u16
    using that by (intro image_eqI[of _ _ "unat x"]) (simp_all add: word_less_nat_alt)
  moreover have "of_nat i < n" if "i < unat n" for i
    using that u16_bound[of n] unat_of_nat_u16[of i] by (simp add: word_less_nat_alt)
  ultimately show ?thesis by auto
qed

text \<open>The services are the publisher, every worker of every group and, unless it is a load test, the
  leader of every group.\<close>

lemma iter_services_set:
  fixes e :: "('r, 'fr, 'sp) experiment_spec"
  assumes "iter_services e = Some ss" "experiment_groups e = Some n"
  shows "set ss = {Publisher PublisherInfo}
    \<union> {Worker w | w. group_idx (worker_group w) < n \<and> worker_idx w < ex_group_size e}
    \<union> {Leader l | l. \<not> ex_hammer e \<and> group_idx (leader_group l) < n}"
proof -
  let ?G = "(\<lambda>i. \<lparr> group_idx = of_nat i \<rparr>) ` {0..<unat n}"
  have G: "?G = {g. group_idx g < n}"
  proof -
    have "?G = (\<lambda>i. \<lparr> group_idx = i \<rparr>) ` of_nat ` {0..<unat n}" by (simp only: image_image)
    also have "\<dots> = (\<lambda>i. \<lparr> group_idx = i \<rparr>) ` {i. i < n}" by (simp only: set_u16_range)
    also have "\<dots> = {g. group_idx g < n}" by (auto intro!: image_eqI group.equality)
    finally show ?thesis .
  qed
  have W: "(\<Union>g \<in> {g. group_idx g < n}. (\<lambda>idx. Worker \<lparr> worker_group = g, worker_idx = of_nat idx \<rparr>) ` {0..<unat (ex_group_size e)})
      = ({Worker w | w. group_idx (worker_group w) < n \<and> worker_idx w < ex_group_size e} :: ('fr, 'sp) service set)"
    (is "?L = ?R")
  proof -
    have "?L = (\<Union>g \<in> {g. group_idx g < n}. (\<lambda>i. Worker \<lparr> worker_group = g, worker_idx = i \<rparr>) ` of_nat ` {0..<unat (ex_group_size e)})"
      by (simp only: image_image)
    also have "\<dots> = (\<Union>g \<in> {g. group_idx g < n}. (\<lambda>i. Worker \<lparr> worker_group = g, worker_idx = i \<rparr>) ` {i. i < ex_group_size e})"
      by (simp only: set_u16_range)
    also have "\<dots> = ?R"
    proof (intro set_eqI iffI)
      fix s :: "('fr, 'sp) service"
      assume "s \<in> ?R"
      then obtain w where w: "s = Worker w" "group_idx (worker_group w) < n" "worker_idx w < ex_group_size e" by blast
      then have "s = Worker \<lparr> worker_group = worker_group w, worker_idx = worker_idx w \<rparr>" by simp
      then show "s \<in> (\<Union>g \<in> {g. group_idx g < n}. (\<lambda>i. Worker \<lparr> worker_group = g, worker_idx = i \<rparr>) ` {i. i < ex_group_size e})"
        using w(2,3) by blast
    qed auto
    finally show ?thesis .
  qed
  have L: "(\<lambda>g. Leader \<lparr> leader_group = g \<rparr>) ` {g. group_idx g < n} = ({Leader l | l. group_idx (leader_group l) < n} :: ('fr, 'sp) service set)"
    by (auto intro!: image_eqI leader_info.equality)
  let ?groups = "map (\<lambda>i. \<lparr> group_idx = of_nat i :: u16 \<rparr>) [0..<unat n]"
  let ?worker = "\<lambda>group idx. Worker \<lparr> worker_group = group, worker_idx = of_nat idx \<rparr> :: ('fr, 'sp) service"
  let ?leader = "\<lambda>group. Leader \<lparr> leader_group = group \<rparr> :: ('fr, 'sp) service"
  have ss: "ss = [Publisher PublisherInfo] @ concat (map (\<lambda>group. map (?worker group) [0..<unat (ex_group_size e)]) ?groups)
      @ (if ex_hammer e then [] else map ?leader ?groups)"
    using assms by (simp add: iter_services_def Let_def split: if_splits)
  have groups: "set ?groups = {g. group_idx g < n}" using G by simp
  have "set (concat (map (\<lambda>group. map (?worker group) [0..<unat (ex_group_size e)]) ?groups))
      = {Worker w | w. group_idx (worker_group w) < n \<and> worker_idx w < ex_group_size e}"
    unfolding W[symmetric] G[symmetric] set_concat set_map by (simp only: image_image set_upt set_map)
  moreover have "set (map ?leader ?groups) = ({Leader l | l. group_idx (leader_group l) < n} :: ('fr, 'sp) service set)"
    unfolding L[symmetric] G[symmetric] by (simp only: image_image set_map set_upt)
  ultimately show ?thesis unfolding ss set_append by auto
qed

lemma iter_services_count:
  assumes "iter_services e = Some ss" "experiment_groups e = Some n"
  shows "length ss = 1 + unat n * unat (ex_group_size e) + (if ex_hammer e then 0 else unat n)"
  using assms by (auto simp: iter_services_def Let_def length_concat comp_def sum_list_triv)

lemma iter_services_distinct:
  fixes e :: "('r, 'fr, 'sp) experiment_spec"
  assumes "iter_services e = Some ss" "experiment_groups e = Some n"
  shows "distinct ss"
proof -
  let ?groups = "map (\<lambda>i. \<lparr> group_idx = of_nat i :: u16 \<rparr>) [0..<unat n]"
  have G: "distinct ?groups" by (auto simp: distinct_map inj_on_def of_nat_u16_inj)
  have "distinct (concat (map (\<lambda>group. map (\<lambda>idx. Worker \<lparr> worker_group = group, worker_idx = of_nat idx \<rparr>)
      [0..<unat (ex_group_size e)]) ?groups) :: ('fr, 'sp) service list)"
  proof (cases "unat (ex_group_size e) = 0")
    case False
    then show ?thesis
      using G by (intro distinct_concat) (auto simp: distinct_map inj_on_def of_nat_u16_inj)
  qed (simp add: map_replicate_const)
  moreover have "distinct (map (\<lambda>group. Leader \<lparr> leader_group = group \<rparr>) ?groups)"
    using G by (auto simp: distinct_map inj_on_def)
  ultimately show ?thesis
    using assms by (auto simp: iter_services_def Let_def split: if_splits)
qed

text \<open>The clients are numbered from zero, the broadcasters first; a channel without a client of its own
  still gets a broadcaster.\<close>

lemma iter_clients_eq:
  assumes "experiment_valid e"
  shows "\<exists>cs. iter_clients e = map Client cs
    \<and> map client_idx cs = map of_nat [0..<max (experiment_channels e) (unat (ex_clients e))]
    \<and> (\<forall>i < length cs. client_broadcast (cs ! i)
        = (if i < experiment_channels e then Some (broadcaster_msg e i, ex_keys e ! i) else None))"
proof -
  let ?n = "experiment_channels e" and ?m = "unat (ex_clients e)"
  let ?bs = "map (\<lambda>(idx, key). new_broadcaster (of_nat idx) (broadcaster_msg e idx) key) (zip [0..<?n] (ex_keys e))"
  let ?vs = "map (\<lambda>idx. client_info_new (of_nat idx)) [?n..<?m] :: ('b, 'c) client_info list"
  have len: "length (ex_keys e) = ?n" using assms by (simp add: experiment_valid_def experiment_channels_def)
  have "iter_clients e = map Client (?bs @ ?vs)" by (simp add: iter_clients_def comp_def case_prod_beta)
  moreover have "map client_idx (?bs @ ?vs) = map of_nat [0..<max ?n ?m]"
  proof -
    have "map client_idx ?bs = map of_nat [0..<?n]"
      using len by (intro nth_equalityI) (simp_all add: new_broadcaster_def)
    moreover have "[0..<max ?n ?m] = [0..<?n] @ [?n..<?m]"
      by (intro nth_equalityI) (auto simp: nth_append max_def nth_upt split: if_splits)
    ultimately show ?thesis by (simp add: comp_def client_info_new_def)
  qed
  moreover have "\<forall>i < length (?bs @ ?vs). client_broadcast ((?bs @ ?vs) ! i)
      = (if i < ?n then Some (broadcaster_msg e i, ex_keys e ! i) else None)"
    using len by (auto simp: nth_append new_broadcaster_def client_info_new_def)
  ultimately show ?thesis by blast
qed

lemma broadcaster_msg_length:
  "length (broadcaster_msg e idx) =
   (if is_multi_key (ex_protocol e) then 32 * ((experiment_msg_size e + 31) div 32) else experiment_msg_size e)"
proof (cases "is_multi_key (ex_protocol e)")
  case True
  let ?n = "experiment_msg_size e"
  have "(if ?n mod 32 \<noteq> 0 then ?n + (32 - ?n mod 32) else ?n) div 32 = (?n + 31) div 32"
  proof -
    have *: "?n = 32 * (?n div 32) + ?n mod 32" and r: "?n mod 32 < 32" by simp_all
    have s: "(m + 31) div 32 = q + (k + 31) div 32" if "m = 32 * q + k" for m q k :: nat
      using that by (simp add: add.assoc)
    show ?thesis
    proof (cases "?n mod 32 = 0")
      case False
      have "m + (32 - k) = 32 * (q + 1)" if "m = 32 * q + k" "k < 32" for m q k :: nat using that by simp
      from this[OF * r] have "?n + (32 - ?n mod 32) = 32 * (?n div 32 + 1)" .
      moreover have "(?n + 31) div 32 = ?n div 32 + (?n mod 32 + 31) div 32" using s[OF *] .
      moreover have "(?n mod 32 + 31) div 32 = 1" using False r by (intro div_nat_eqI) simp_all
      ultimately show ?thesis using False by simp
    next
      case True
      have "(?n + 31) div 32 = ?n div 32 + (?n mod 32 + 31) div 32" using s[OF *] .
      then show ?thesis using True by simp
    qed
  qed
  then show ?thesis
    using True by (simp add: broadcaster_msg_def Let_def length_concat sum_list_replicate good_elem_def)
qed (simp add: broadcaster_msg_def Let_def)

subsection \<open>The stored experiment\<close>

context discovery_store
begin

lemma experiment_roundtrip:
  assumes "store_wf st" "to_json e = Inr s" "from_json s = Inr e"
  shows "\<exists>st'. write_to_store S to_json st e = Inr st' \<and> store_wf st' \<and> read_from_store S from_json st' = Some (Inr e)
    \<and> store_nodes (entries st') = (store_nodes (entries st) :: ('fr, 'sp) node set)
    \<and> (nodes_only (ss :: ('fr, 'sp) service set) (entries st) \<longrightarrow> nodes_only ss (entries st'))"
proof -
  have k: "key_ok [''experiment'', ''config'']" by (rule path_ok) (simp add: path_key_def)
  obtain st' where st': "store_put S st [''experiment'', ''config''] s = Inr st'" "store_wf st'"
      "entries st' = (entries st)([''experiment'', ''config''] \<mapsto> s)"
    using put_ok[OF assms(1) k] by blast
  have "to_config_key x \<noteq> Some [''experiment'', ''config'']" for x :: "('fr, 'sp) service"
    using config_key_path[of x "[''experiment'', ''config'']"] by auto
  then have same: "entries st' k = entries st k" if "to_config_key x = Some k" for x :: "('fr, 'sp) service" and k
    using that by (auto simp: st'(3))
  have "store_nodes (entries st') = (store_nodes (entries st) :: ('fr, 'sp) node set)"
    unfolding store_nodes_def by (rule Collect_cong) (metis same)
  moreover have "entries st' k = entries st k" if "prefix [''nodes''] k" for k using that by (auto simp: st'(3))
  then have "nodes_only ss (entries st) \<longrightarrow> nodes_only ss (entries st')" unfolding nodes_only_def by metis
  ultimately have "store_nodes (entries st') = (store_nodes (entries st) :: ('fr, 'sp) node set)"
    "nodes_only ss (entries st) \<longrightarrow> nodes_only ss (entries st')" by blast+
  then show ?thesis
    using st' assms get_eq[OF st'(2) k] by (simp add: write_to_store_def read_from_store_def)
qed

end

end
