(* ===== verification/Quorum.thy ===== *)
theory Quorum
  imports Experiment
begin

text \<open>
  Start-up of an experiment: \<open>spectrum/src/services/retry.rs\<close>, \<open>quorum.rs\<close> and \<open>health.rs\<close>. A retried
  operation is a function of the attempt's number, since the store changes between attempts; the retry
  combinator of the \<open>futures_retry\<close> crate is an argument and its documented behaviour the locale
  \<open>future_retry\<close>.
\<close>

section \<open>Retrying\<close>

datatype 'e retry_policy = ForwardError 'e | WaitRetry nat

text \<open>\<open>error_policy\<close>: the closure keeps a counter, which starts at the number of attempts.\<close>

definition error_policy_new :: "nat \<Rightarrow> nat option" where
  "error_policy_new attempts = do { rust_assert (0 < attempts); Some attempts }"

definition error_policy :: "nat \<Rightarrow> nat \<Rightarrow> 'e \<Rightarrow> nat \<Rightarrow> crate_error retry_policy \<times> nat" where
  "error_policy delay attempts err left =
     (if left \<le> 1
      then (ForwardError (error_new (''Did not succeed in '' @ nat_to_string attempts @ '' attempts.'')), left)
      else (WaitRetry delay, left - 1))"

type_synonym ('e, 'x) retry_combinator =
  "(nat \<Rightarrow> ('e + 'x) option) \<Rightarrow> ('e \<Rightarrow> nat \<Rightarrow> crate_error retry_policy \<times> nat) \<Rightarrow> nat \<Rightarrow> (crate_error + 'x) option"

locale future_retry =
  fixes retry :: "('e, 'x) retry_combinator"
  assumes retry_unfold: "retry attempt policy s =
    do { res \<leftarrow> attempt 0;
         case res of
           Inr x \<Rightarrow> Some (Inr x)
         | Inl e \<Rightarrow> (case policy e s of
               (ForwardError e', s') \<Rightarrow> Some (Inl e')
             | (WaitRetry d, s') \<Rightarrow> retry (\<lambda>n. attempt (Suc n)) policy s') }"
begin

text \<open>At most \<open>attempts\<close> attempts are made, and the first success is the result.\<close>

lemma retry_success:
  assumes "k < left" "attempt k = Some (Inr x)" "\<And>j. j < k \<Longrightarrow> \<exists>e. attempt j = Some (Inl e)"
  shows "retry attempt (error_policy delay attempts) left = Some (Inr x)"
  using assms
proof (induction k arbitrary: attempt left)
  case 0
  then show ?case by (subst retry_unfold) simp
next
  case (Suc k)
  obtain e where "attempt 0 = Some (Inl e)" using Suc.prems(3)[of 0] by auto
  moreover have "retry (\<lambda>n. attempt (Suc n)) (error_policy delay attempts) (left - 1) = Some (Inr x)"
    using Suc.prems by (intro Suc.IH) auto
  ultimately show ?case using Suc.prems(1) by (subst retry_unfold) (simp add: error_policy_def)
qed

lemma retry_failure:
  assumes "0 < left" "\<And>j. j < left \<Longrightarrow> \<exists>e. attempt j = Some (Inl e)"
  shows "retry attempt (error_policy delay attempts) left
    = Some (Inl (error_new (''Did not succeed in '' @ nat_to_string attempts @ '' attempts.'')))"
  using assms
proof (induction left arbitrary: attempt)
  case (Suc left)
  obtain e where e: "attempt 0 = Some (Inl e)" using Suc.prems(2)[of 0] by auto
  show ?case
  proof (cases left)
    case (Suc m)
    have "retry (\<lambda>n. attempt (Suc n)) (error_policy delay attempts) left
        = Some (Inl (error_new (''Did not succeed in '' @ nat_to_string attempts @ '' attempts.'')))"
      using Suc.prems Suc by (intro Suc.IH) auto
    then show ?thesis using e Suc by (subst retry_unfold) (simp add: error_policy_def)
  qed (use e in \<open>subst retry_unfold; simp add: error_policy_def\<close>)
qed simp

text \<open>The result depends on the first \<open>attempts\<close> attempts only.\<close>

lemma retry_result:
  assumes "0 < attempts" "\<And>j. j < attempts \<Longrightarrow> attempt j \<noteq> None"
  shows "(\<exists>x. retry attempt (error_policy delay attempts) attempts = Some (Inr x)) \<longleftrightarrow>
    (\<exists>k < attempts. \<exists>x. attempt k = Some (Inr x))"
proof (cases "\<exists>k < attempts. \<exists>x. attempt k = Some (Inr x)")
  case True
  define k where "k = (LEAST k. \<exists>x. attempt k = Some (Inr x))"
  obtain k0 where k0: "k0 < attempts" "\<exists>x. attempt k0 = Some (Inr x)" using True by blast
  have k: "\<exists>x. attempt k = Some (Inr x)" using k0(2) unfolding k_def by (rule LeastI)
  have "k \<le> k0" using k0(2) unfolding k_def by (rule Least_le)
  then have "k < attempts" using k0(1) by simp
  moreover have "\<exists>e. attempt j = Some (Inl e)" if "j < k" for j
  proof -
    have "\<nexists>x. attempt j = Some (Inr x)" using that not_less_Least[of j "\<lambda>k. \<exists>x. attempt k = Some (Inr x)"] by (simp add: k_def)
    moreover have "attempt j \<noteq> None" using assms(2) that \<open>k < attempts\<close> by auto
    ultimately show ?thesis by (metis option.exhaust sum.exhaust)
  qed
  ultimately show ?thesis using retry_success k True by blast
next
  case False
  then have "\<exists>e. attempt j = Some (Inl e)" if "j < attempts" for j
    using assms(2)[OF that] that by (metis option.exhaust sum.exhaust)
  from retry_failure[OF assms(1) this] show ?thesis using False by auto
qed

lemma retry_returns:
  assumes "0 < attempts" "\<And>j. j < attempts \<Longrightarrow> attempt j \<noteq> None"
  shows "retry attempt (error_policy delay attempts) attempts \<noteq> None"
proof (cases "\<exists>k < attempts. \<exists>x. attempt k = Some (Inr x)")
  case True
  then show ?thesis using retry_result[OF assms(1), of attempt delay] assms(2) by fastforce
next
  case False
  have "\<exists>e. attempt j = Some (Inl e)" if j: "j < attempts" for j
  proof -
    obtain y where "attempt j = Some y" using assms(2)[OF j] by blast
    then show ?thesis using False j by (cases y) auto
  qed
  then show ?thesis using retry_failure[OF assms(1)] by auto
qed

end

text \<open>A combinator with that behaviour.\<close>

partial_function (option) run_retry :: "('e, 'x) retry_combinator" where
  "run_retry attempt policy s =
    Option.bind (attempt 0) (\<lambda>res.
      case res of
        Inr x \<Rightarrow> Some (Inr x)
      | Inl e \<Rightarrow> (case policy e s of
            (ForwardError e', s') \<Rightarrow> Some (Inl e')
          | (WaitRetry d, s') \<Rightarrow> run_retry (\<lambda>n. attempt (Suc n)) policy s'))"

interpretation run_retry: future_retry run_retry
  by unfold_locales (rule run_retry.simps)

section \<open>The start time\<close>

text \<open>The RFC 3339 text of an instant is read and written by the date library.\<close>

definition get_start_time ::
    "('st, 'x) store_ops_scheme \<Rightarrow> (string \<Rightarrow> string + 'd) \<Rightarrow> 'st \<Rightarrow> (crate_error + 'd) option" where
  "get_start_time S parse st =
     do { res \<leftarrow> store_get S st [''experiment'', ''start-time''];
          Some (case res of
             Inl e \<Rightarrow> Inl e
           | Inr None \<Rightarrow> Inl (error_new ''Empty start time.'')
           | Inr (Some s) \<Rightarrow> (case parse s of Inl err \<Rightarrow> Inl (error_new err) | Inr d \<Rightarrow> Inr d)) }"

definition set_start_time ::
    "('st, 'x) store_ops_scheme \<Rightarrow> ('d \<Rightarrow> string) \<Rightarrow> 'st \<Rightarrow> 'd \<Rightarrow> crate_error + 'st" where
  "set_start_time S to_rfc3339 st d = store_put S st [''experiment'', ''start-time''] (to_rfc3339 d)"

definition wait_for_start_time_set_helper ::
    "(crate_error, 'd) retry_combinator \<Rightarrow> ('st, 'x) store_ops_scheme \<Rightarrow> (string \<Rightarrow> string + 'd) \<Rightarrow> (nat \<Rightarrow> 'st)
     \<Rightarrow> nat \<Rightarrow> nat \<Rightarrow> (crate_error + 'd) option" where
  "wait_for_start_time_set_helper retry S parse config delay attempts =
     do { counter \<leftarrow> error_policy_new attempts;
          retry (\<lambda>n. get_start_time S parse (config n)) (error_policy delay attempts) counter }"

definition RETRY_DELAY :: nat where "RETRY_DELAY = 100"

definition RETRY_ATTEMPTS :: nat where "RETRY_ATTEMPTS = 1000"

definition wait_for_start_time_set ::
    "(crate_error, 'd) retry_combinator \<Rightarrow> ('st, 'x) store_ops_scheme \<Rightarrow> (string \<Rightarrow> string + 'd) \<Rightarrow> (nat \<Rightarrow> 'st)
     \<Rightarrow> (crate_error + 'd) option" where
  "wait_for_start_time_set retry S parse config =
     wait_for_start_time_set_helper retry S parse config RETRY_DELAY RETRY_ATTEMPTS"

text \<open>\<open>delay_until\<close>: how long it sleeps, in the clock's unit.\<close>

definition delay_until :: "int \<Rightarrow> int \<Rightarrow> nat" where
  "delay_until now dt = (let diff = dt - now in if diff < 0 then 0 else nat diff)"

lemma delay_until_reaches: "max now dt = now + int (delay_until now dt)"
  by (simp add: delay_until_def Let_def)

section \<open>The quorum\<close>

text \<open>The sets are compared as the derived equality of services does; no clients are registered, so it is
  the equality of values. The message lists both differences.\<close>

definition has_quorum ::
    "('st, 'x) store_ops_scheme \<Rightarrow> (('fr, 'sp) service set \<Rightarrow> string) \<Rightarrow> 'st \<Rightarrow> ('r, 'fr, 'sp) experiment_spec
     \<Rightarrow> (crate_error + unit) option" where
  "has_quorum S debug st e =
     do { res \<leftarrow> resolve_all S st;
          case res of
            Inl err \<Rightarrow> Some (Inl err)
          | Inr nodes \<Rightarrow>
              do { services \<leftarrow> iter_services e;
                   let actual = set (map node_service nodes);
                   let expected = set services;
                   Some (if actual = expected then Inr ()
                         else Inl (error_new (''Bad quorum. Expected '' @ debug (expected - actual)
                           @ '' but did not see. Got '' @ debug (actual - expected) @ '' but did not expect to.''))) } }"

definition wait_for_quorum_helper ::
    "(crate_error, unit) retry_combinator \<Rightarrow> ('st, 'x) store_ops_scheme \<Rightarrow> (('fr, 'sp) service set \<Rightarrow> string) \<Rightarrow> (nat \<Rightarrow> 'st)
     \<Rightarrow> ('r, 'fr, 'sp) experiment_spec \<Rightarrow> nat \<Rightarrow> nat \<Rightarrow> (crate_error + unit) option" where
  "wait_for_quorum_helper retry S debug config e delay attempts =
     do { counter \<leftarrow> error_policy_new attempts;
          retry (\<lambda>n. has_quorum S debug (config n) e) (error_policy delay attempts) counter }"

definition wait_for_quorum ::
    "(crate_error, unit) retry_combinator \<Rightarrow> ('st, 'x) store_ops_scheme \<Rightarrow> (('fr, 'sp) service set \<Rightarrow> string) \<Rightarrow> (nat \<Rightarrow> 'st)
     \<Rightarrow> ('r, 'fr, 'sp) experiment_spec \<Rightarrow> (crate_error + unit) option" where
  "wait_for_quorum retry S debug config e = wait_for_quorum_helper retry S debug config e RETRY_DELAY RETRY_ATTEMPTS"

context discovery_store
begin

lemma start_time_roundtrip:
  assumes "store_wf st" "parse (to_rfc3339 d) = Inr d"
  shows "\<exists>st'. set_start_time S to_rfc3339 st d = Inr st' \<and> get_start_time S parse st' = Some (Inr d)"
proof -
  have k: "key_ok [''experiment'', ''start-time'']" by (rule path_ok) (simp add: path_key_def)
  obtain st' where st': "store_put S st [''experiment'', ''start-time''] (to_rfc3339 d) = Inr st'" "store_wf st'"
      "entries st' = (entries st)([''experiment'', ''start-time''] \<mapsto> to_rfc3339 d)"
    using put_ok[OF assms(1) k] by blast
  then show ?thesis using assms(2) get_eq[OF st'(2) k] by (simp add: set_start_time_def get_start_time_def)
qed

text \<open>There is a quorum exactly when the registered services are those of the experiment.\<close>

lemma has_quorum_iff:
  assumes "store_wf st" "nodes_only (ss :: ('fr, 'sp) service set) (entries st)"
    and e: "iter_services (e :: ('r, 'fr, 'sp) experiment_spec) = Some services"
  shows "\<exists>res. has_quorum S debug st e = Some res
    \<and> (res = Inr () \<longleftrightarrow> node_service ` store_nodes (entries st) = set services)"
proof -
  obtain ns :: "('fr, 'sp) node list" where ns: "resolve_all S st = Some (Inr ns)" "set ns = store_nodes (entries st)"
    using resolve_all_ok[OF assms(1,2)] by blast
  then show ?thesis by (simp add: has_quorum_def e Let_def)
qed

text \<open>Starting from a store with no nodes and registering nodes of distinct services.\<close>

lemma quorum_after_register:
  assumes st: "store_wf st" "nodes_only ({} :: ('fr, 'sp) service set) (entries st)" and e: "iter_services (e :: ('r, 'fr, 'sp) experiment_spec) = Some services"
    and ns: "list_all (\<lambda>n. \<exists>k. to_config_key (node_service n) = Some k) (ns :: ('fr, 'sp) node list)" "distinct (map node_service ns)"
  shows "\<exists>st' res. register_all S st ns = Some (Inr st') \<and> has_quorum S debug st' e = Some res
    \<and> (res = Inr () \<longleftrightarrow> set (map node_service ns) = set services)"
proof -
  have empty: "store_nodes (entries st) = ({} :: ('fr, 'sp) node set)"
  proof -
    have False if "to_config_key s = Some k" "entries st k = Some v" for s :: "('fr, 'sp) service" and k v
      using st(2) config_key_path[OF that(1)] that(2) by (auto simp: nodes_only_def)
    then show ?thesis by (auto simp: store_nodes_def)
  qed
  obtain st' where st': "register_all S st ns = Some (Inr st')" "store_wf st'"
      "nodes_only (set (map node_service ns)) (entries st')" "store_nodes (entries st') = set ns"
    using register_all_ok[OF st(1,2) ns(1)] ns(2) empty by auto
  from has_quorum_iff[OF st'(2,3) e, of debug] st' show ?thesis by auto
qed

end

section \<open>Health checks\<close>

text \<open>The health service of every process answers that it is serving.\<close>

datatype serving_status = UNKNOWN | SERVING | NOT_SERVING

fun serving_status_as_i32 :: "serving_status \<Rightarrow> int" where
  "serving_status_as_i32 UNKNOWN = 0"
| "serving_status_as_i32 SERVING = 1"
| "serving_status_as_i32 NOT_SERVING = 2"

definition all_good_check :: "string \<Rightarrow> string + int" where
  "all_good_check request = Inr (serving_status_as_i32 SERVING)"

text \<open>One request: the builder of a connection with its TLS configuration, the connection and the call to the service
  belong to the network library.\<close>

definition is_healthy ::
    "('cert \<Rightarrow> 'b \<Rightarrow> string + 'b) \<Rightarrow> ('b \<Rightarrow> string + 'ch) \<Rightarrow> ('ch \<Rightarrow> string \<Rightarrow> string + int) \<Rightarrow> 'b \<Rightarrow> 'cert option \<Rightarrow> crate_error + bool" where
  "is_healthy tls_config connect check builder tls =
     (case (case tls of None \<Rightarrow> Inr builder | Some cert \<Rightarrow> tls_config cert builder) of
        Inl err \<Rightarrow> Inl (error_new err)
      | Inr builder' \<Rightarrow>
          (case connect builder' of
             Inl err \<Rightarrow> Inl (error_new err)
           | Inr channel \<Rightarrow>
               (case check channel '''' of
                  Inl err \<Rightarrow> Inl (error_new err)
                | Inr response \<Rightarrow> Inr (response = serving_status_as_i32 SERVING))))"

text \<open>\<open>wait_for_health_helper\<close>: \<open>check n\<close> is the outcome of the \<open>n\<close>-th request to the health service.\<close>

fun health_loop :: "(nat \<Rightarrow> crate_error + bool) \<Rightarrow> nat \<Rightarrow> nat \<Rightarrow> bool" where
  "health_loop check n 0 = False"
| "health_loop check n (Suc left) =
     (case check n of Inr True \<Rightarrow> True | _ \<Rightarrow> health_loop check (Suc n) left)"

definition wait_for_health_helper :: "(nat \<Rightarrow> crate_error + bool) \<Rightarrow> nat \<Rightarrow> crate_error + unit" where
  "wait_for_health_helper check attempts =
     (if health_loop check 0 attempts then Inr ()
      else Inl (error_new (''Service not healthy after '' @ nat_to_string attempts @ '' attempts'')))"

definition HEALTH_RETRY_ATTEMPTS :: nat where "HEALTH_RETRY_ATTEMPTS = 10"

definition wait_for_health :: "(nat \<Rightarrow> crate_error + bool) \<Rightarrow> crate_error + unit" where
  "wait_for_health check = wait_for_health_helper check HEALTH_RETRY_ATTEMPTS"

lemma health_loop_iff: "health_loop check n left \<longleftrightarrow> (\<exists>k < left. check (n + k) = Inr True)"
proof (induction left arbitrary: n)
  case (Suc left)
  have "(\<exists>k < Suc left. check (n + k) = Inr True) \<longleftrightarrow> check n = Inr True \<or> (\<exists>k < left. check (Suc n + k) = Inr True)"
    by (auto simp: less_Suc_eq_0_disj)
  then show ?case using Suc[of "Suc n"] by (auto split: sum.splits bool.splits)
qed simp


text \<open>A process is found healthy as soon as a connection to it succeeds within the first ten requests.\<close>

lemma all_good_healthy:
  assumes "k < HEALTH_RETRY_ATTEMPTS" "connect k builder = Inr channel"
  shows "wait_for_health (\<lambda>n. is_healthy tls_config (connect n) (\<lambda>_. all_good_check) builder None) = Inr ()"
  using assms
  by (auto simp: wait_for_health_def wait_for_health_helper_def health_loop_iff is_healthy_def all_good_check_def)

text \<open>When no connection succeeds, it is not.\<close>

lemma unreachable_unhealthy:
  assumes "\<And>k. k < HEALTH_RETRY_ATTEMPTS \<Longrightarrow> \<exists>err. connect k builder = Inl err"
  shows "wait_for_health (\<lambda>n. is_healthy tls_config (connect n) check builder None) = Inl (error_new ''Service not healthy after 10 attempts'')"
proof -
  have "\<not> health_loop (\<lambda>n. is_healthy tls_config (connect n) check builder None) 0 HEALTH_RETRY_ATTEMPTS"
    unfolding health_loop_iff using assms by (force simp: is_healthy_def)
  moreover have "nat_to_string 10 = ''10''" by code_simp
  ultimately show ?thesis by (simp add: wait_for_health_def wait_for_health_helper_def HEALTH_RETRY_ATTEMPTS_def)
qed

end
