(* ===== verification/Registries.thy ===== *)
theory Registries
  imports Quorum
begin

text \<open>
  The state that a worker keeps: the accumulator (\<open>spectrum/src/accumulator.rs\<close>), the registry of audit
  shares (\<open>worker/audit_registry.rs\<close>), the registry of clients (\<open>worker/client_registry.rs\<close>) and the
  registry of the other services (\<open>worker/service_registry.rs\<close>).

  Every operation runs under a lock of its own, so each is one step. Hash maps keyed by a client are
  association lists keyed by its index, which is what \<open>ClientInfo\<close> compares and hashes. A gRPC \<open>Status\<close>
  keeps its code and the fixed part of its message.
\<close>

datatype status = InvalidArgument string | FailedPrecondition string

definition expect_field :: "'x option \<Rightarrow> string \<Rightarrow> status + 'x" where
  "expect_field opt name =
     (case opt of None \<Rightarrow> Inl (InvalidArgument (name @ '' must be set.'')) | Some x \<Rightarrow> Inr x)"

section \<open>The accumulator\<close>

record 'd accumulator =
  acc_state :: 'd
  acc_count :: nat

definition accumulator_new :: "'d \<Rightarrow> 'd accumulator" where
  "accumulator_new accum = \<lparr> acc_state = accum, acc_count = 0 \<rparr>"

definition accumulate :: "('d, 'p) acc_ops \<Rightarrow> 'd \<Rightarrow> 'd accumulator \<Rightarrow> (nat \<times> 'd accumulator) option" where
  "accumulate A data acc =
     do { state \<leftarrow> acc_combine A (acc_state acc) data;
          Some (acc_count acc + 1, \<lparr> acc_state = state, acc_count = acc_count acc + 1 \<rparr>) }"

definition accumulator_get :: "'d accumulator \<Rightarrow> 'd" where
  "accumulator_get acc = acc_state acc"

text \<open>Accumulating a sequence.\<close>

definition accumulate_all :: "('d, 'p) acc_ops \<Rightarrow> 'd accumulator \<Rightarrow> 'd list \<Rightarrow> 'd accumulator option" where
  "accumulate_all A acc ds = try_fold (\<lambda>acc data. map_option snd (accumulate A data acc)) acc ds"

context accumulatable
begin

lemma accumulate_eq:
  "valid (acc_state acc) \<Longrightarrow> valid d \<Longrightarrow>
   accumulate A d acc = Some (acc_count acc + 1, \<lparr> acc_state = m_add M (acc_state acc) d, acc_count = acc_count acc + 1 \<rparr>)"
  by (simp add: accumulate_def combine_eq)

lemma accumulate_all_eq:
  "valid (acc_state acc) \<Longrightarrow> list_all valid ds \<Longrightarrow>
   accumulate_all A acc ds = Some \<lparr> acc_state = m_add M (acc_state acc) (fold_add M ds), acc_count = acc_count acc + length ds \<rparr>"
proof (induction ds arbitrary: acc)
  case Nil
  then show ?case by (simp add: accumulate_all_def fold_add_Nil add_zero)
next
  case (Cons d ds)
  let ?acc = "\<lparr> acc_state = m_add M (acc_state acc) d, acc_count = acc_count acc + 1 \<rparr>"
  have d: "valid d" "list_all valid ds" using Cons.prems by simp_all
  have "accumulate_all A acc (d # ds) = accumulate_all A ?acc ds"
    using Cons.prems d by (simp add: accumulate_all_def accumulate_eq)
  also have "\<dots> = Some \<lparr> acc_state = m_add M (m_add M (acc_state acc) d) (fold_add M ds), acc_count = acc_count acc + 1 + length ds \<rparr>"
    using Cons.IH[of ?acc] Cons.prems d by (simp add: add_valid)
  also have "m_add M (m_add M (acc_state acc) d) (fold_add M ds) = m_add M (acc_state acc) (fold_add M (d # ds))"
    using Cons.prems d by (simp add: fold_add_Cons add_assoc fold_add_valid)
  finally show ?case by simp
qed

text \<open>The accumulated value does not depend on the order.\<close>

lemma accumulate_all_mset:
  "list_all valid ds \<Longrightarrow> mset ds = mset es \<Longrightarrow> valid (acc_state acc) \<Longrightarrow> accumulate_all A acc ds = accumulate_all A acc es"
  using fold_add_mset[of ds es] mset_eq_setD[of ds es] mset_eq_length[of ds es]
  by (simp add: accumulate_all_eq list_all_iff)

end

section \<open>The registry of audit shares\<close>

record ('s, 't) client_audit_state =
  cas_write_token :: "'t option"
  cas_audit_shares :: "'s list"

record ('s, 't) client_audit =
  ca_write_token :: 't
  ca_audit_shares :: "'s list"

record ('s, 't) audit_registry =
  ar_registry :: "(u128 \<times> ('s, 't) client_audit_state) list"
  ar_num_parties :: u16

definition audit_registry_new :: "u128 \<Rightarrow> u16 \<Rightarrow> ('s, 't) audit_registry" where
  "audit_registry_new num_clients num_parties = \<lparr> ar_registry = [], ar_num_parties = num_parties \<rparr>"

definition client_audit_from :: "('s, 't) client_audit_state \<Rightarrow> ('s, 't) client_audit option" where
  "client_audit_from s =
     do { t \<leftarrow> cas_write_token s; Some \<lparr> ca_write_token = t, ca_audit_shares = cas_audit_shares s \<rparr> }"

definition audit_registry_init :: "u128 \<Rightarrow> 't \<Rightarrow> ('s, 't) audit_registry \<Rightarrow> ('s, 't) audit_registry" where
  "audit_registry_init info token reg =
     (case map_of (ar_registry reg) info of
        Some state \<Rightarrow> reg\<lparr> ar_registry := AList.update info (state\<lparr> cas_write_token := Some token \<rparr>) (ar_registry reg) \<rparr>
      | None \<Rightarrow> reg\<lparr> ar_registry := AList.update info \<lparr> cas_write_token = Some token, cas_audit_shares = [] \<rparr> (ar_registry reg) \<rparr>)"

definition audit_registry_drain ::
    "u128 \<Rightarrow> ('s, 't) audit_registry \<Rightarrow> (('s, 't) client_audit \<times> ('s, 't) audit_registry) option" where
  "audit_registry_drain info reg =
     do { state \<leftarrow> map_of (ar_registry reg) info;
          audit \<leftarrow> client_audit_from state;
          Some (audit, reg\<lparr> ar_registry := AList.delete info (ar_registry reg) \<rparr>) }"

definition audit_registry_add :: "u128 \<Rightarrow> 's \<Rightarrow> ('s, 't) audit_registry \<Rightarrow> nat \<times> ('s, 't) audit_registry" where
  "audit_registry_add info val reg =
     (case map_of (ar_registry reg) info of
        Some state \<Rightarrow>
          (length (cas_audit_shares state @ [val]),
           reg\<lparr> ar_registry := AList.update info (state\<lparr> cas_audit_shares := cas_audit_shares state @ [val] \<rparr>) (ar_registry reg) \<rparr>)
      | None \<Rightarrow>
          (1, reg\<lparr> ar_registry := AList.update info \<lparr> cas_write_token = None, cas_audit_shares = [val] \<rparr> (ar_registry reg) \<rparr>))"

text \<open>The registry keeps, for each client, an optional token and the shares in their order of arrival; a
  client without an entry is one without either.\<close>

definition audit_entry :: "('s, 't) audit_registry \<Rightarrow> u128 \<Rightarrow> 't option \<times> 's list" where
  "audit_entry reg c =
     (case map_of (ar_registry reg) c of None \<Rightarrow> (None, []) | Some s \<Rightarrow> (cas_write_token s, cas_audit_shares s))"

text \<open>What a worker relies on, of any registry.\<close>

locale share_registry =
  fixes init :: "u128 \<Rightarrow> 't \<Rightarrow> 'reg \<Rightarrow> 'reg" and add :: "u128 \<Rightarrow> 's \<Rightarrow> 'reg \<Rightarrow> nat \<times> 'reg"
    and drain :: "u128 \<Rightarrow> 'reg \<Rightarrow> (('s, 't) client_audit \<times> 'reg) option"
    and entry :: "'reg \<Rightarrow> u128 \<Rightarrow> 't option \<times> 's list"
  assumes entry_init: "entry (init c t reg) d = (if d = c then (Some t, snd (entry reg c)) else entry reg d)"
    and entry_add: "entry (snd (add c s reg)) d = (if d = c then (fst (entry reg c), snd (entry reg c) @ [s]) else entry reg d)"
    and add_count: "fst (add c s reg) = length (snd (entry reg c)) + 1"
    and drain_ok: "fst (entry reg c) = Some t \<Longrightarrow>
      \<exists>reg'. drain c reg = Some (\<lparr> ca_write_token = t, ca_audit_shares = snd (entry reg c) \<rparr>, reg')
        \<and> (\<forall>d. entry reg' d = (if d = c then (None, []) else entry reg d))"
    and drain_panics: "fst (entry reg c) = None \<Longrightarrow> drain c reg = None"
begin

text \<open>The events of one client, whatever else happens in between.\<close>

fun run_events :: "(u128 \<times> ('t + 's)) list \<Rightarrow> 'reg \<Rightarrow> 'reg" where
  "run_events [] reg = reg"
| "run_events ((c, Inl t) # es) reg = run_events es (init c t reg)"
| "run_events ((c, Inr s) # es) reg = run_events es (snd (add c s reg))"

definition client_tokens_of :: "u128 \<Rightarrow> (u128 \<times> ('t + 's)) list \<Rightarrow> 't list" where
  "client_tokens_of c es = concat (map (\<lambda>(d, e). case e of Inl t \<Rightarrow> if d = c then [t] else [] | Inr s \<Rightarrow> []) es)"

definition client_shares_of :: "u128 \<Rightarrow> (u128 \<times> ('t + 's)) list \<Rightarrow> 's list" where
  "client_shares_of c es = concat (map (\<lambda>(d, e). case e of Inl t \<Rightarrow> [] | Inr s \<Rightarrow> if d = c then [s] else []) es)"

lemma entry_run_events:
  "entry (run_events es reg) c =
   (if client_tokens_of c es = [] then fst (entry reg c) else Some (last (client_tokens_of c es)),
    snd (entry reg c) @ client_shares_of c es)"
  by (induction es reg rule: run_events.induct)
    (auto simp: client_tokens_of_def client_shares_of_def entry_init entry_add)

text \<open>Draining a client returns its last token and all of its shares, in their order, and forgets it.\<close>

lemma drain_after_events:
  assumes "entry reg c = (None, [])" "client_tokens_of c es \<noteq> []"
  shows "\<exists>reg'. drain c (run_events es reg)
      = Some (\<lparr> ca_write_token = last (client_tokens_of c es), ca_audit_shares = client_shares_of c es \<rparr>, reg')
    \<and> entry reg' c = (None, []) \<and> drain c reg' = None"
proof -
  have e: "entry (run_events es reg) c = (Some (last (client_tokens_of c es)), client_shares_of c es)"
    using assms by (simp add: entry_run_events)
  then obtain reg' where reg': "drain c (run_events es reg)
      = Some (\<lparr> ca_write_token = last (client_tokens_of c es), ca_audit_shares = client_shares_of c es \<rparr>, reg')"
      "entry reg' c = (None, [])"
    using drain_ok[of "run_events es reg" c "last (client_tokens_of c es)"] by auto
  then show ?thesis using drain_panics[of reg' c] by auto
qed

lemma drain_without_token:
  "entry reg c = (None, []) \<Longrightarrow> client_tokens_of c es = [] \<Longrightarrow> drain c (run_events es reg) = None"
  by (rule drain_panics) (simp add: entry_run_events)

end

lemma map_of_delete_fun: "map_of (AList.delete k m) = (map_of m)(k := None)"
  by (simp add: delete_conv')

interpretation audit: share_registry audit_registry_init audit_registry_add audit_registry_drain audit_entry
proof
  fix reg :: "('s, 't) audit_registry" and c :: u128 and t :: 't
  assume "fst (audit_entry reg c) = Some t"
  then obtain s where s: "map_of (ar_registry reg) c = Some s" "cas_write_token s = Some t"
    by (auto simp: audit_entry_def split: option.splits)
  let ?reg = "reg\<lparr> ar_registry := AList.delete c (ar_registry reg) \<rparr>"
  have "audit_registry_drain c reg = Some (\<lparr> ca_write_token = t, ca_audit_shares = snd (audit_entry reg c) \<rparr>, ?reg)"
    using s by (simp add: audit_registry_drain_def client_audit_from_def audit_entry_def)
  moreover have "\<forall>d. audit_entry ?reg d = (if d = c then (None, []) else audit_entry reg d)"
    by (simp add: audit_entry_def map_of_delete_fun)
  ultimately show "\<exists>reg'. audit_registry_drain c reg = Some (\<lparr> ca_write_token = t, ca_audit_shares = snd (audit_entry reg c) \<rparr>, reg')
      \<and> (\<forall>d. audit_entry reg' d = (if d = c then (None, []) else audit_entry reg d))" by blast
qed (auto simp: audit_entry_def audit_registry_init_def audit_registry_add_def audit_registry_drain_def client_audit_from_def
    map_of_update_fun split: option.splits)

section \<open>The registry of clients\<close>

record client_registry =
  cr_peers :: "(u128 \<times> worker_info list) list"

definition client_registry_new :: client_registry where
  "client_registry_new = \<lparr> cr_peers = [] \<rparr>"

definition registry_get_peers :: "u128 \<Rightarrow> client_registry \<Rightarrow> status + worker_info list" where
  "registry_get_peers client reg =
     (case map_of (cr_peers reg) client of
        None \<Rightarrow> Inl (FailedPrecondition ''Client info not registered.'')
      | Some shards \<Rightarrow> Inr shards)"

definition registry_register_client :: "u128 \<Rightarrow> worker_info list \<Rightarrow> client_registry \<Rightarrow> client_registry" where
  "registry_register_client client shards reg = reg\<lparr> cr_peers := AList.update client shards (cr_peers reg) \<rparr>"

definition registry_num_clients :: "client_registry \<Rightarrow> nat" where
  "registry_num_clients reg = length (cr_peers reg)"

lemma get_peers_register:
  "registry_get_peers d (registry_register_client c shards reg)
   = (if d = c then Inr shards else registry_get_peers d reg)"
  by (simp add: registry_get_peers_def registry_register_client_def map_of_update_fun)

lemma num_clients_eq_card:
  "distinct (map fst (cr_peers reg)) \<Longrightarrow> registry_num_clients reg = card (dom (map_of (cr_peers reg)))"
  by (simp add: registry_num_clients_def dom_map_of_conv_image_fst card_image distinct_map distinct_card flip: set_map)

text \<open>Registering a sequence of clients.\<close>

definition register_clients :: "(u128 \<times> worker_info list) list \<Rightarrow> client_registry \<Rightarrow> client_registry" where
  "register_clients cs reg = foldl (\<lambda>reg (c, shards). registry_register_client c shards reg) reg cs"

lemma register_clients_distinct:
  "distinct (map fst (cr_peers reg)) \<Longrightarrow> distinct (map fst (cr_peers (register_clients cs reg)))"
  by (induction cs arbitrary: reg) (auto simp: register_clients_def registry_register_client_def distinct_update)

lemma register_clients_map:
  "map_of (cr_peers (register_clients cs reg)) = map_of (cr_peers reg) ++ map_of (rev cs)"
proof (induction cs arbitrary: reg)
  case (Cons x cs)
  then show ?case
    by (cases x) (simp add: register_clients_def registry_register_client_def map_of_update_fun map_add_def fun_eq_iff
        split: option.splits)
qed (simp add: register_clients_def)

text \<open>The number of clients is the number of different clients that registered, however often each did.\<close>

lemma register_clients_count:
  "registry_num_clients (register_clients cs client_registry_new) = card (fst ` set cs)"
proof -
  have "distinct (map fst (cr_peers (register_clients cs client_registry_new)))"
    by (rule register_clients_distinct) (simp add: client_registry_new_def)
  then show ?thesis
    by (simp add: num_clients_eq_card register_clients_map client_registry_new_def dom_map_of_conv_image_fst)
qed

section \<open>The registry of services\<close>

text \<open>The map is sent through a watch channel: \<open>None\<close> until it is initialized. Connecting, by address, and whether
  \<open>Uri\<close> parses an address are arguments. The address of a worker that does not parse is a panic.\<close>

record ('wc, 'lc) service_map =
  sm_workers :: "(worker_info \<times> 'wc) list"
  sm_leader :: "'lc option"

type_synonym ('wc, 'lc) service_registry = "('wc, 'lc) service_map option"

fun connect_workers ::
    "(string \<Rightarrow> bool) \<Rightarrow> (string \<Rightarrow> string + 'wc) \<Rightarrow> (worker_info \<times> string) list \<Rightarrow> (string + (worker_info \<times> 'wc) list) option" where
  "connect_workers uri_ok connect [] = Some (Inr [])"
| "connect_workers uri_ok connect ((info, addr) # peers) =
     do { rust_assert (uri_ok (''https://'' @ addr));
          case connect (''https://'' @ addr) of
            Inl e \<Rightarrow> Some (Inl e)
          | Inr c \<Rightarrow>
              do { rest \<leftarrow> connect_workers uri_ok connect peers;
                   Some (case rest of Inl e \<Rightarrow> Inl e | Inr ws \<Rightarrow> Inr ((info, c) # ws)) } }"

definition peer_workers :: "('fr, 'sp) node list \<Rightarrow> (worker_info \<times> string) list" where
  "peer_workers nodes = concat (map (\<lambda>n. case node_service n of Worker info \<Rightarrow> [(info, node_addr n)] | _ \<Rightarrow> []) nodes)"

definition leader_addr :: "worker_info \<Rightarrow> ('fr, 'sp) node list \<Rightarrow> string option" where
  "leader_addr worker nodes =
     map_option node_addr (find (\<lambda>n. case node_service n of Leader l \<Rightarrow> leader_group l = worker_group worker | _ \<Rightarrow> False) nodes)"

definition service_map_from_config ::
    "('st, 'x) store_ops_scheme \<Rightarrow> (string \<Rightarrow> bool) \<Rightarrow> (string \<Rightarrow> string + 'wc) \<Rightarrow> (string \<Rightarrow> string + 'lc) \<Rightarrow> worker_info \<Rightarrow> 'st
     \<Rightarrow> (string + ('wc, 'lc) service_map) option" where
  "service_map_from_config S uri_ok connect connect_leader worker st =
     do { res \<leftarrow> resolve_all S st;
          case res of
            Inl err \<Rightarrow> Some (Inl (err_message err))
          | Inr nodes \<Rightarrow>
              do { conns \<leftarrow> connect_workers uri_ok connect (peer_workers (nodes :: (unit, unit) node list));
                   Some (case conns of
                      Inl e \<Rightarrow> Inl e
                    | Inr ws \<Rightarrow>
                        (case leader_addr worker nodes of
                           None \<Rightarrow> Inr \<lparr> sm_workers = foldl (\<lambda>m (w, c). AList.update w c m) [] ws, sm_leader = None \<rparr>
                         | Some addr \<Rightarrow>
                             (case connect_leader (''http://'' @ addr) of
                                Inl e \<Rightarrow> Inl e
                              | Inr l \<Rightarrow> Inr \<lparr> sm_workers = foldl (\<lambda>m (w, c). AList.update w c m) [] ws,
                                                sm_leader = Some l \<rparr>))) } }"

definition service_get_worker :: "worker_info \<Rightarrow> ('wc, 'lc) service_registry \<Rightarrow> (status + 'wc) option" where
  "service_get_worker worker reg =
     do { m \<leftarrow> reg;
          Some (case map_of (sm_workers m) worker of
             None \<Rightarrow> Inl (FailedPrecondition ''All requested workers should be in the worker client registry'')
           | Some c \<Rightarrow> Inr c) }"

definition service_get_my_leader :: "('wc, 'lc) service_registry \<Rightarrow> 'lc option" where
  "service_get_my_leader reg = do { m \<leftarrow> reg; sm_leader m }"

lemma connect_workers_ok:
  "list_all (\<lambda>(info, addr). uri_ok (''https://'' @ addr) \<and> connect (''https://'' @ addr) = Inr (conn addr)) peers \<Longrightarrow>
   connect_workers uri_ok connect peers = Some (Inr (map (\<lambda>(info, addr). (info, conn addr)) peers))"
  by (induction uri_ok connect peers rule: connect_workers.induct) auto

lemma connect_workers_Cons:
  "connect_workers uri_ok connect ((info, addr) # peers) = Some (Inr ws) \<longleftrightarrow>
   uri_ok (''https://'' @ addr) \<and> (\<exists>c cs. connect (''https://'' @ addr) = Inr c
     \<and> connect_workers uri_ok connect peers = Some (Inr cs) \<and> ws = (info, c) # cs)"
proof (cases "connect (''https://'' @ addr)")
  case (Inr c)
  then show ?thesis
  proof (cases "connect_workers uri_ok connect peers")
    case (Some res)
    then show ?thesis using Inr by (cases res) (auto simp: rust_assert_def)
  qed (use Inr in \<open>auto simp: rust_assert_def\<close>)
qed (auto simp: rust_assert_def)

lemma map_of_foldl_update: "map_of (foldl (\<lambda>m (w, c). AList.update w c m) m ws) = map_of m ++ map_of (rev ws)"
proof (induction ws arbitrary: m)
  case (Cons x ws)
  then show ?case by (cases x) (simp add: map_of_update_fun map_add_def fun_eq_iff split: option.splits)
qed simp

text \<open>With every node reachable, the map holds the connection of every registered worker and of the leader
  of the worker's own group.\<close>

context discovery_store
begin

lemma service_map_spec:
  assumes st: "store_wf st" "nodes_only (ss :: (unit, unit) service set) (entries st)"
    and conn: "\<And>addr. connect (''https://'' @ addr) = Inr (conn addr)" "\<And>addr. connect_leader (''http://'' @ addr) = Inr (lconn addr)"
    and uri: "\<And>addr. uri_ok (''https://'' @ addr)"
  shows "\<exists>m. service_map_from_config S uri_ok connect connect_leader worker st = Some (Inr m)
    \<and> (\<forall>w. map_of (sm_workers m) w = map_option conn (entries st (the (to_config_key (Worker w :: (unit, unit) service)))))
    \<and> sm_leader m = map_option lconn (entries st (the (to_config_key (Leader \<lparr> leader_group = worker_group worker \<rparr> :: (unit, unit) service))))"
proof -
  obtain ns :: "(unit, unit) node list" where ns: "resolve_all S st = Some (Inr ns)" "distinct (map node_service ns)"
      "set ns = store_nodes (entries st)"
    using resolve_all_ok[OF st] by blast
  have mem: "(\<exists>n \<in> set ns. node_service n = s \<and> node_addr n = a) \<longleftrightarrow> entries st k = Some a"
    if "to_config_key s = Some k" for s :: "(unit, unit) service" and k a
    using that unfolding ns(3) store_nodes_def
    by (auto intro!: exI[of _ "\<lparr> node_service = s, node_addr = a \<rparr>"])
  let ?ws = "map (\<lambda>(info, addr). (info, conn addr)) (peer_workers ns)"
  have ws: "connect_workers uri_ok connect (peer_workers ns) = Some (Inr ?ws)"
    by (rule connect_workers_ok) (auto simp: conn(1)[simplified] uri[simplified] list_all_iff)
  have in_peers: "(w, a) \<in> set (peer_workers ns) \<longleftrightarrow> entries st (the (to_config_key (Worker w :: (unit, unit) service))) = Some a" for w a
  proof -
    have "(w, a) \<in> set (peer_workers ns) \<longleftrightarrow> (\<exists>n \<in> set ns. node_service n = Worker w \<and> node_addr n = a)"
      by (force simp: peer_workers_def split: service.splits)
    then show ?thesis using mem[of "Worker w" _ a] by (simp add: to_config_key_def)
  qed
  have "map_of (rev ?ws) w = map_option conn (entries st (the (to_config_key (Worker w :: (unit, unit) service))))" for w
  proof (cases "entries st (the (to_config_key (Worker w :: (unit, unit) service)))")
    case None
    then have "w \<notin> fst ` set (rev ?ws)" using in_peers[of w] by auto
    then show ?thesis using None by (simp only: map_of_eq_None_iff option.map not_False_eq_True)
  next
    case (Some a)
    have "(w, c) \<in> set (rev ?ws) \<longleftrightarrow> (\<exists>b. (w, b) \<in> set (peer_workers ns) \<and> c = conn b)" for c by force
    then have uniq: "(w, c) \<in> set (rev ?ws) \<longleftrightarrow> c = conn a" for c unfolding in_peers Some by simp
    then have "w \<in> fst ` set (rev ?ws)" by force
    then obtain c where c: "map_of (rev ?ws) w = Some c" by (meson map_of_eq_None_iff not_None_eq)
    then show ?thesis using Some uniq map_of_SomeD[OF c] by simp
  qed
  moreover have "map_option lconn (leader_addr worker ns)
      = map_option lconn (entries st (the (to_config_key (Leader \<lparr> leader_group = worker_group worker \<rparr> :: (unit, unit) service))))"
  proof -
    let ?l = "Leader \<lparr> leader_group = worker_group worker \<rparr> :: (unit, unit) service"
    let ?is = "\<lambda>n :: (unit, unit) node. case node_service n of Leader l \<Rightarrow> leader_group l = worker_group worker | _ \<Rightarrow> False"
    have is_iff: "?is n \<longleftrightarrow> node_service n = ?l" for n by (auto split: service.splits)
    have key: "to_config_key ?l = Some (the (to_config_key ?l))" by (simp add: to_config_key_def)
    show ?thesis
    proof (cases "find ?is ns")
      case None
      then have "\<not> (\<exists>n \<in> set ns. node_service n = ?l)" using is_iff by (simp add: find_None_iff)
      then have "entries st (the (to_config_key ?l)) = None" using mem[OF key] by (metis not_None_eq)
      then show ?thesis using None by (simp add: leader_addr_def)
    next
      case (Some n)
      then have "n \<in> set ns" "?is n" by (auto simp: find_Some_iff)
      then have "entries st (the (to_config_key ?l)) = Some (node_addr n)" using is_iff mem[OF key] by blast
      then show ?thesis using Some by (simp add: leader_addr_def)
    qed
  qed
  ultimately show ?thesis
    by (cases "leader_addr worker ns")
      (simp_all add: service_map_from_config_def ns(1) ws conn(2)[simplified] map_of_foldl_update)
qed

end

end
