(* ===== verification/Worker.thy ===== *)
theory Worker
  imports Registries
begin

text \<open>
  The worker of \<open>spectrum/src/worker/mod.rs\<close>: the state shared by its requests (\<open>WorkerState\<close>) and the
  gRPC service (\<open>MyWorker\<close>).

  \<^item> The protocol is the dictionary \<open>T\<close> and its accumulator \<open>A\<close>; the conversions between messages on the
    wire and the protocol's values are collected in \<open>wire_ops\<close>.
  \<^item> \<open>verify\<close> takes the lock of the audit registry twice and that of the accumulator twice. Its pieces are
    separate definitions, so that other requests can run between them, and \<open>worker_verify\<close> is their
    sequence.
  \<^item> A handler answers, and hands the rest to a spawned task. The task is a function from the state to the
    requests it sends and the next state. A failed \<open>unwrap\<close> or \<open>expect\<close> is \<open>None\<close>.
\<close>

section \<open>The state of a worker\<close>

record ('s, 't, 'm, 'r, 'fr, 'sp) worker_state =
  ws_audit_registry :: "('s, 't) audit_registry"
  ws_accumulator :: "'m list accumulator"
  ws_experiment :: "('r, 'fr, 'sp) experiment_spec"
  ws_client_registry :: client_registry

definition worker_from_experiment ::
    "('r, 'm, 'k, 't, 's, 'x) protocol_ops_scheme \<Rightarrow> ('r, 'fr, 'sp) experiment_spec
     \<Rightarrow> ('s, 't, 'm, 'r, 'fr, 'sp) worker_state option" where
  "worker_from_experiment T e =
     do { groups \<leftarrow> experiment_groups e;
          Some \<lparr> ws_audit_registry = audit_registry_new (ex_clients e) groups,
                 ws_accumulator = accumulator_new (proto_new_accumulator T),
                 ws_experiment = e,
                 ws_client_registry = client_registry_new \<rparr> }"

definition worker_hammer :: "('s, 't, 'm, 'r, 'fr, 'sp) worker_state \<Rightarrow> bool" where
  "worker_hammer ws \<longleftrightarrow> ex_hammer (ws_experiment ws)"

datatype 'm verify_status = AwaitingShares | ShareVerified nat | AllClientsVerified "'m list"

text \<open>\<open>upload\<close>: store the token, then make this worker's audit shares for every party.\<close>

definition upload_init ::
    "u128 \<Rightarrow> 't \<Rightarrow> ('s, 't, 'm, 'r, 'fr, 'sp) worker_state \<Rightarrow> ('s, 't, 'm, 'r, 'fr, 'sp) worker_state" where
  "upload_init client token ws =
     ws\<lparr> ws_audit_registry := audit_registry_init client token (ws_audit_registry ws) \<rparr>"

definition worker_upload ::
    "('r, 'm, 'k, 't, 's, 'x) protocol_ops_scheme \<Rightarrow> (('fr, 'sp) channel_key_wrapper \<Rightarrow> string + 'k) \<Rightarrow> u128 \<Rightarrow> 't
     \<Rightarrow> ('s, 't, 'm, 'r, 'fr, 'sp) worker_state \<Rightarrow> ('s list \<times> ('s, 't, 'm, 'r, 'fr, 'sp) worker_state) option" where
  "worker_upload T key_from client token ws =
     (let ws' = upload_init client token ws in
      do { keys \<leftarrow> result_unwrap (collect_result key_from (ex_keys (ws_experiment ws')));
           shares \<leftarrow> proto_gen_audit T keys token;
           Some (shares, ws') })"

text \<open>The pieces of \<open>verify\<close>.\<close>

definition verify_add ::
    "u128 \<Rightarrow> 's \<Rightarrow> ('s, 't, 'm, 'r, 'fr, 'sp) worker_state \<Rightarrow> nat \<times> ('s, 't, 'm, 'r, 'fr, 'sp) worker_state" where
  "verify_add client share ws =
     (let (n, reg) = audit_registry_add client share (ws_audit_registry ws) in (n, ws\<lparr> ws_audit_registry := reg \<rparr>))"

definition verify_drain ::
    "('r, 'm, 'k, 't, 's, 'x) protocol_ops_scheme \<Rightarrow> u128 \<Rightarrow> ('s, 't, 'm, 'r, 'fr, 'sp) worker_state
     \<Rightarrow> ((bool \<times> 't) \<times> ('s, 't, 'm, 'r, 'fr, 'sp) worker_state) option" where
  "verify_drain T client ws =
     do { (audit, reg) \<leftarrow> audit_registry_drain client (ws_audit_registry ws);
          verify \<leftarrow> proto_check_audit T (ca_audit_shares audit);
          Some ((verify, ca_write_token audit), ws\<lparr> ws_audit_registry := reg \<rparr>) }"

definition verify_expand :: "('r, 'm, 'k, 't, 's, 'x) protocol_ops_scheme \<Rightarrow> 't \<Rightarrow> (crate_error + 'm list) option" where
  "verify_expand T token =
     do { acc \<leftarrow> proto_to_accumulator T token;
          Some (if length acc \<noteq> proto_num_channels T
                then Inl (error_new (''Invalid number of accumulator channels! '' @ nat_to_string (length acc) @ '' != ''
                       @ nat_to_string (proto_num_channels T)))
                else Inr acc) }"

definition verify_accumulate ::
    "('m, 'p) acc_ops \<Rightarrow> 'm list \<Rightarrow> ('s, 't, 'm, 'r, 'fr, 'sp) worker_state
     \<Rightarrow> (nat \<times> ('s, 't, 'm, 'r, 'fr, 'sp) worker_state) option" where
  "verify_accumulate A acc ws =
     do { (n, a) \<leftarrow> accumulate (vec_acc A) acc (ws_accumulator ws); Some (n, ws\<lparr> ws_accumulator := a \<rparr>) }"

definition verify_report :: "nat \<Rightarrow> ('s, 't, 'm, 'r, 'fr, 'sp) worker_state \<Rightarrow> 'm verify_status" where
  "verify_report accumulated_clients ws =
     (if worker_hammer ws then ShareVerified accumulated_clients
      else if accumulated_clients = registry_num_clients (ws_client_registry ws)
        then AllClientsVerified (accumulator_get (ws_accumulator ws))
        else ShareVerified accumulated_clients)"

definition worker_verify ::
    "('r, 'm, 'k, 't, 's, 'x) protocol_ops_scheme \<Rightarrow> ('m, 'p) acc_ops \<Rightarrow> u128 \<Rightarrow> 's
     \<Rightarrow> ('s, 't, 'm, 'r, 'fr, 'sp) worker_state
     \<Rightarrow> ((crate_error + 'm verify_status) \<times> ('s, 't, 'm, 'r, 'fr, 'sp) worker_state) option" where
  "worker_verify T A client share ws =
     (let (check_count, ws1) = verify_add client share ws in
      if check_count < proto_num_parties T then Some (Inr AwaitingShares, ws1)
      else do {
        ((verify, token), ws2) \<leftarrow> verify_drain T client ws1;
        expanded \<leftarrow> verify_expand T token;
        case expanded of
          Inl err \<Rightarrow> Some (Inl err, ws2)
        | Inr acc \<Rightarrow>
            do { (accumulated_clients, ws3) \<leftarrow> verify_accumulate A acc ws2;
                 Some (Inr (verify_report accumulated_clients ws3), ws3) } })"

definition worker_register_client ::
    "u128 \<Rightarrow> worker_info list \<Rightarrow> ('s, 't, 'm, 'r, 'fr, 'sp) worker_state \<Rightarrow> ('s, 't, 'm, 'r, 'fr, 'sp) worker_state" where
  "worker_register_client client shards ws =
     ws\<lparr> ws_client_registry := registry_register_client client shards (ws_client_registry ws) \<rparr>"

section \<open>The service\<close>

record ('wc, 'lc, 'time, 's, 't, 'm, 'r, 'fr, 'sp) my_worker =
  mw_start_rx :: "'time option"
  mw_start_time :: "'time option"
  mw_services :: "('wc, 'lc) service_registry"
  mw_state :: "('s, 't, 'm, 'r, 'fr, 'sp) worker_state"

record upload_request =
  ur_client_id :: "proto_client_id option"
  ur_write_token :: "proto_write_token option"

record verify_request =
  vr_client_id :: "proto_client_id option"
  vr_audit_share :: "proto_audit_share option"

record register_client_request =
  rr_client_id :: "proto_client_id option"
  rr_shards :: "proto_worker_id list"

record aggregate_request =
  ag_share :: "proto_share option"

record ('t, 's, 'k, 'm, 'fr, 'sp) wire_ops =
  wire_token_from :: "proto_write_token \<Rightarrow> (string + 't) option"
  wire_share_into :: "'s \<Rightarrow> proto_audit_share"
  wire_share_from :: "proto_audit_share \<Rightarrow> (string + 's) option"
  wire_key_from :: "('fr, 'sp) channel_key_wrapper \<Rightarrow> string + 'k"
  wire_acc_into :: "'m \<Rightarrow> bytes"

definition my_worker_new ::
    "'time option \<Rightarrow> ('wc, 'lc) service_registry \<Rightarrow> ('r, 'm, 'k, 't, 's, 'x) protocol_ops_scheme
     \<Rightarrow> ('r, 'fr, 'sp) experiment_spec \<Rightarrow> ('wc, 'lc, 'time, 's, 't, 'm, 'r, 'fr, 'sp) my_worker option" where
  "my_worker_new start_rx services T e =
     do { state \<leftarrow> worker_from_experiment T e;
          Some \<lparr> mw_start_rx = start_rx, mw_start_time = None, mw_services = services, mw_state = state \<rparr> }"

text \<open>\<open>get_start_time\<close> caches the value of the watch channel once it is set.\<close>

definition my_worker_get_start_time ::
    "('wc, 'lc, 'time, 's, 't, 'm, 'r, 'fr, 'sp) my_worker
     \<Rightarrow> 'time option \<times> ('wc, 'lc, 'time, 's, 't, 'm, 'r, 'fr, 'sp) my_worker" where
  "my_worker_get_start_time mw =
     (case mw_start_time mw of
        Some t \<Rightarrow> (Some t, mw)
      | None \<Rightarrow> (case mw_start_rx mw of
            None \<Rightarrow> (None, mw)
          | Some t \<Rightarrow> (Some t, mw\<lparr> mw_start_time := Some t \<rparr>)))"

fun collect_peers :: "('wc, 'lc) service_registry \<Rightarrow> worker_info list \<Rightarrow> (status + 'wc list) option" where
  "collect_peers services [] = Some (Inr [])"
| "collect_peers services (info # infos) =
     and_then (service_get_worker info services) (\<lambda>c.
       and_then (collect_peers services infos) (\<lambda>cs. Some (Inr (c # cs))))"

definition my_worker_get_peers ::
    "u128 \<Rightarrow> ('wc, 'lc, 'time, 's, 't, 'm, 'r, 'fr, 'sp) my_worker \<Rightarrow> (status + 'wc list) option" where
  "my_worker_get_peers client mw =
     (case registry_get_peers client (ws_client_registry (mw_state mw)) of
        Inl st \<Rightarrow> Some (Inl st)
      | Inr shards \<Rightarrow> collect_peers (mw_services mw) shards)"

definition check_not_started :: "('wc, 'lc, 'time, 's, 't, 'm, 'r, 'fr, 'sp) my_worker \<Rightarrow> status + unit" where
  "check_not_started mw =
     (if mw_start_rx mw \<noteq> None then Inl (FailedPrecondition ''Client registration after start time.'') else Inr ())"

text \<open>\<open>Worker::upload\<close>: what the handler answers and the task it spawns, which sends to every peer the
  share addressed to it.\<close>

definition handle_upload ::
    "upload_request \<Rightarrow> ('wc, 'lc, 'time, 's, 't, 'm, 'r, 'fr, 'sp) my_worker
     \<Rightarrow> (status + (u128 \<times> proto_client_id \<times> proto_write_token \<times> 'wc list)) option" where
  "handle_upload request mw =
     and_then (Some (expect_field (ur_client_id request) ''Client ID'')) (\<lambda>client_id.
       do { client_info \<leftarrow> (client_from_proto client_id :: ('fr, 'sp) client_info option);
            and_then (Some (expect_field (ur_write_token request) ''Write Token'')) (\<lambda>write_token.
              and_then (my_worker_get_peers (client_idx client_info) mw) (\<lambda>peers.
                Some (Inr (client_idx client_info, client_id, write_token, peers)))) })"

definition upload_task ::
    "('r, 'm, 'k, 't, 's, 'x) protocol_ops_scheme \<Rightarrow> ('t, 's, 'k, 'm, 'fr, 'sp) wire_ops
     \<Rightarrow> u128 \<times> proto_client_id \<times> proto_write_token \<times> 'wc list
     \<Rightarrow> ('s, 't, 'm, 'r, 'fr, 'sp) worker_state
     \<Rightarrow> (('wc \<times> verify_request) list \<times> ('s, 't, 'm, 'r, 'fr, 'sp) worker_state) option" where
  "upload_task T W task ws =
     (case task of (client, client_id, write_token, peers) \<Rightarrow>
       do { parsed \<leftarrow> wire_token_from W write_token;
            token \<leftarrow> result_unwrap parsed;
            (audit_shares, ws') \<leftarrow> worker_upload T (wire_key_from W) client token ws;
            Some (map (\<lambda>(peer, share). (peer, \<lparr> vr_client_id = Some client_id,
                                              vr_audit_share = Some (wire_share_into W share) \<rparr>)) (zip peers audit_shares),
                  ws') })"

text \<open>\<open>Worker::verify\<close>: the leader is looked up by the handler (and panics before the registry is there),
  the task forwards the accumulator once all clients are in.\<close>

definition handle_verify ::
    "('t, 's, 'k, 'm, 'fr, 'sp) wire_ops \<Rightarrow> verify_request \<Rightarrow> ('wc, 'lc, 'time, 's, 't, 'm, 'r, 'fr, 'sp) my_worker
     \<Rightarrow> (status + (u128 \<times> 's \<times> 'lc option \<times> 'time option) \<times> ('wc, 'lc, 'time, 's, 't, 'm, 'r, 'fr, 'sp) my_worker) option" where
  "handle_verify W request mw =
     and_then (Some (expect_field (vr_client_id request) ''Client ID'')) (\<lambda>client_id.
       do { client_info \<leftarrow> (client_from_proto client_id :: ('fr, 'sp) client_info option);
            and_then (Some (expect_field (vr_audit_share request) ''Audit Share'')) (\<lambda>audit_share.
              do { parsed \<leftarrow> wire_share_from W audit_share;
                   share \<leftarrow> result_unwrap parsed;
                   let (start_time, mw') = my_worker_get_start_time mw;
                   leader \<leftarrow> (if worker_hammer (mw_state mw') then Some None
                              else map_option Some (service_get_my_leader (mw_services mw')));
                   Some (Inr ((client_idx client_info, share, leader, start_time), mw')) }) })"

definition share_of_accumulator :: "('m \<Rightarrow> bytes) \<Rightarrow> 'm list \<Rightarrow> proto_share" where
  "share_of_accumulator into acc = \<lparr> psh_data = map into acc \<rparr>"

text \<open>The throughput is logged for every tenth client; the division by the elapsed milliseconds panics in the
  first one. The task has nothing left to do then.\<close>

definition log_qps :: "nat \<Rightarrow> nat option \<Rightarrow> nat option" where
  "log_qps clients elapsed_ms =
     (case elapsed_ms of
        None \<Rightarrow> Some 0
      | Some ms \<Rightarrow> if clients mod 10 = 0 then do { rust_assert (ms \<noteq> 0); Some (clients * 1000 div ms) } else Some 0)"

definition verify_task ::
    "('r, 'm, 'k, 't, 's, 'x) protocol_ops_scheme \<Rightarrow> ('m, 'p) acc_ops \<Rightarrow> ('t, 's, 'k, 'm, 'fr, 'sp) wire_ops \<Rightarrow> ('time \<Rightarrow> nat)
     \<Rightarrow> u128 \<times> 's \<times> 'lc option \<times> 'time option \<Rightarrow> ('s, 't, 'm, 'r, 'fr, 'sp) worker_state
     \<Rightarrow> (('lc \<times> aggregate_request) list \<times> ('s, 't, 'm, 'r, 'fr, 'sp) worker_state) option" where
  "verify_task T A W elapsed_ms task ws =
     (case task of (client, share, leader, start_time) \<Rightarrow>
       do { (result, ws') \<leftarrow> worker_verify T A client share ws;
            case result of
              Inr (AllClientsVerified accumulator) \<Rightarrow>
                do { l \<leftarrow> leader;
                     Some ([(l, \<lparr> ag_share = Some (share_of_accumulator (wire_acc_into W) accumulator) \<rparr>)], ws') }
            | Inr (ShareVerified clients) \<Rightarrow>
                do { log_qps clients (map_option elapsed_ms start_time); Some ([], ws') }
            | _ \<Rightarrow> Some ([], ws') })"

definition handle_register_client ::
    "register_client_request \<Rightarrow> ('wc, 'lc, 'time, 's, 't, 'm, 'r, 'fr, 'sp) my_worker
     \<Rightarrow> (status + ('wc, 'lc, 'time, 's, 't, 'm, 'r, 'fr, 'sp) my_worker) option" where
  "handle_register_client request mw =
     and_then (Some (check_not_started mw)) (\<lambda>_.
       and_then (Some (expect_field (rr_client_id request) ''Client ID'')) (\<lambda>client_id.
         do { client_info \<leftarrow> (client_from_proto client_id :: ('fr, 'sp) client_info option);
              let shards = map worker_from_proto (rr_shards request);
              Some (Inr (mw\<lparr> mw_state := worker_register_client (client_idx client_info) shards (mw_state mw) \<rparr>)) }))"

text \<open>\<open>inner_run\<close>, after the start: the services are known and the start time is set; a worker that no
  client picked forwards its empty accumulator at once.\<close>

definition worker_begin ::
    "('t, 's, 'k, 'm, 'fr, 'sp) wire_ops \<Rightarrow> 'time \<Rightarrow> ('wc, 'lc) service_map
     \<Rightarrow> ('wc, 'lc, 'time, 's, 't, 'm, 'r, 'fr, 'sp) my_worker
     \<Rightarrow> (('lc \<times> aggregate_request) list \<times> ('wc, 'lc, 'time, 's, 't, 'm, 'r, 'fr, 'sp) my_worker) option" where
  "worker_begin W now services mw =
     (let mw' = mw\<lparr> mw_services := Some services, mw_start_rx := Some now \<rparr>; ws = mw_state mw' in
      if \<not> worker_hammer ws \<and> registry_num_clients (ws_client_registry ws) = 0 then
        do { leader \<leftarrow> service_get_my_leader (mw_services mw');
             Some ([(leader, \<lparr> ag_share = Some (share_of_accumulator (wire_acc_into W) (accumulator_get (ws_accumulator ws))) \<rparr>)],
                   mw') }
      else Some ([], mw'))"

lemma log_qps_panics: "log_qps clients (Some ms) = None \<longleftrightarrow> ms = 0 \<and> clients mod 10 = 0"
  by (simp add: log_qps_def rust_assert_def)

section \<open>Behaviour of the requests\<close>

text \<open>The token and shares a worker holds for a client.\<close>

definition worker_entry :: "('s, 't, 'm, 'r, 'fr, 'sp) worker_state \<Rightarrow> u128 \<Rightarrow> 't option \<times> 's list" where
  "worker_entry ws c = audit_entry (ws_audit_registry ws) c"

lemma worker_entry_accumulator [simp]: "worker_entry (ws\<lparr> ws_accumulator := a \<rparr>) c = worker_entry ws c"
  by (simp add: worker_entry_def)

lemma upload_init_sel [simp]:
  "worker_entry (upload_init c t ws) d = (if d = c then (Some t, snd (worker_entry ws c)) else worker_entry ws d)"
  "ws_accumulator (upload_init c t ws) = ws_accumulator ws" "ws_experiment (upload_init c t ws) = ws_experiment ws"
  "ws_client_registry (upload_init c t ws) = ws_client_registry ws"
  by (simp_all add: upload_init_def worker_entry_def audit.entry_init)

lemma verify_add_sel [simp]:
  "fst (verify_add c s ws) = length (snd (worker_entry ws c)) + 1"
  "worker_entry (snd (verify_add c s ws)) d
   = (if d = c then (fst (worker_entry ws c), snd (worker_entry ws c) @ [s]) else worker_entry ws d)"
  "ws_accumulator (snd (verify_add c s ws)) = ws_accumulator ws" "ws_experiment (snd (verify_add c s ws)) = ws_experiment ws"
  "ws_client_registry (snd (verify_add c s ws)) = ws_client_registry ws"
  using audit.entry_add[of c s "ws_audit_registry ws" d] audit.add_count[of c s "ws_audit_registry ws"]
  by (simp_all add: verify_add_def worker_entry_def case_prod_beta)

lemma verify_drain_ok:
  assumes "fst (worker_entry ws c) = Some t" "proto_check_audit T (snd (worker_entry ws c)) = Some b"
  shows "\<exists>ws'. verify_drain T c ws = Some ((b, t), ws')
    \<and> (\<forall>d. worker_entry ws' d = (if d = c then (None, []) else worker_entry ws d))
    \<and> ws_accumulator ws' = ws_accumulator ws \<and> ws_experiment ws' = ws_experiment ws
    \<and> ws_client_registry ws' = ws_client_registry ws"
proof -
  obtain reg where reg: "audit_registry_drain c (ws_audit_registry ws)
      = Some (\<lparr> ca_write_token = t, ca_audit_shares = snd (worker_entry ws c) \<rparr>, reg)"
      "\<forall>d. audit_entry reg d = (if d = c then (None, []) else worker_entry ws d)"
    using audit.drain_ok[of "ws_audit_registry ws" c t] assms(1) by (auto simp: worker_entry_def)
  then show ?thesis using assms(2) by (simp add: verify_drain_def) (simp add: worker_entry_def)
qed

text \<open>A share of a client whose token is not here yet, or that is not the last, is only recorded.\<close>

lemma worker_verify_awaiting:
  assumes "length (snd (worker_entry ws c)) + 1 < proto_num_parties T"
  shows "worker_verify T A c s ws = Some (Inr AwaitingShares, snd (verify_add c s ws))"
  using assms verify_add_sel(1)[of c s ws] by (simp add: worker_verify_def case_prod_beta)

text \<open>The last share of a client: its token is expanded into the accumulator, once, and its entry removed,
  whatever the audit says.\<close>

lemma worker_verify_last:
  assumes n: "length (snd (worker_entry ws c)) + 1 = proto_num_parties T" and t: "fst (worker_entry ws c) = Some t"
    and check: "proto_check_audit T (snd (worker_entry ws c) @ [s]) = Some b"
    and expand: "proto_to_accumulator T t = Some v" "length v = proto_num_channels T"
    and acc: "acc_combine (vec_acc A) (acc_state (ws_accumulator ws)) v = Some v'"
  shows "\<exists>ws'. worker_verify T A c s ws = Some (Inr (verify_report (acc_count (ws_accumulator ws) + 1) ws'), ws')
    \<and> ws_accumulator ws' = \<lparr> acc_state = v', acc_count = acc_count (ws_accumulator ws) + 1 \<rparr>
    \<and> (\<forall>d. worker_entry ws' d = (if d = c then (None, []) else worker_entry ws d))
    \<and> ws_experiment ws' = ws_experiment ws \<and> ws_client_registry ws' = ws_client_registry ws"
proof -
  let ?ws1 = "snd (verify_add c s ws)"
  obtain ws2 where ws2: "verify_drain T c ?ws1 = Some ((b, t), ws2)"
      "\<forall>d. worker_entry ws2 d = (if d = c then (None, []) else worker_entry ?ws1 d)"
      "ws_accumulator ws2 = ws_accumulator ws" "ws_experiment ws2 = ws_experiment ws"
      "ws_client_registry ws2 = ws_client_registry ws"
    using verify_drain_ok[of ?ws1 c t T b] t check by auto
  let ?ws3 = "ws2\<lparr> ws_accumulator := \<lparr> acc_state = v', acc_count = acc_count (ws_accumulator ws) + 1 \<rparr> \<rparr>"
  have "verify_accumulate A v ws2 = Some (acc_count (ws_accumulator ws) + 1, ?ws3)"
    using acc ws2(3) by (simp add: verify_accumulate_def accumulate_def)
  then have "worker_verify T A c s ws = Some (Inr (verify_report (acc_count (ws_accumulator ws) + 1) ?ws3), ?ws3)"
    using n ws2(1) expand verify_add_sel(1)[of c s ws]
    by (simp add: worker_verify_def case_prod_beta verify_expand_def)
  then show ?thesis using ws2 by (intro exI[of _ ?ws3]) simp
qed

text \<open>Without the token, which \<open>init\<close> stores, the last share makes \<open>drain\<close> panic.\<close>

lemma worker_verify_panics:
  assumes "proto_num_parties T \<le> length (snd (worker_entry ws c)) + 1" "fst (worker_entry ws c) = None"
  shows "worker_verify T A c s ws = None"
proof -
  have "audit_registry_drain c (ws_audit_registry (snd (verify_add c s ws))) = None"
    using assms(2) verify_add_sel(2)[of c s ws c] by (intro audit.drain_panics) (simp add: worker_entry_def)
  then show ?thesis
    using assms(1) verify_add_sel(1)[of c s ws]
    by (simp add: worker_verify_def case_prod_beta verify_drain_def)
qed

text \<open>The verdict of the audit has no influence on what a worker does.\<close>

lemma verdict_ignored:
  assumes "\<And>ts. proto_check_audit T ts \<noteq> None"
  shows "worker_verify (T\<lparr> proto_check_audit := \<lambda>_. Some b \<rparr>) A c s ws = worker_verify T A c s ws"
proof -
  obtain f where f: "proto_check_audit T = (\<lambda>ts. Some (f ts))"
  proof
    show "proto_check_audit T = (\<lambda>ts. Some (the (proto_check_audit T ts)))" using assms by auto
  qed
  let ?ws1 = "snd (verify_add c s ws)"
  have "verify_drain (T\<lparr> proto_check_audit := \<lambda>_. Some b \<rparr>) c ?ws1 = map_option (\<lambda>((v, t), w). ((b, t), w)) (verify_drain T c ?ws1)"
    by (auto simp: verify_drain_def f split: bind_splits)
  moreover have "verify_expand (T\<lparr> proto_check_audit := \<lambda>_. Some b \<rparr>) = verify_expand T"
    by (simp add: verify_expand_def fun_eq_iff cong: if_cong)
  ultimately show ?thesis
    by (cases "verify_drain T c (snd (verify_add c s ws))") (simp_all add: worker_verify_def case_prod_beta)
qed

subsection \<open>Registration\<close>

lemma register_after_start:
  "mw_start_rx mw \<noteq> None \<Longrightarrow>
   handle_register_client request mw = Some (Inl (FailedPrecondition ''Client registration after start time.''))"
  by (simp add: handle_register_client_def check_not_started_def and_then_def)

lemma register_before_start:
  assumes "mw_start_rx mw = None"
  shows "handle_register_client \<lparr> rr_client_id = Some (client_to_proto c), rr_shards = map worker_to_proto shards \<rparr> mw
    = Some (Inr (mw\<lparr> mw_state := worker_register_client (client_idx c) shards (mw_state mw) \<rparr>))"
  using assms
  by (auto simp: handle_register_client_def check_not_started_def expect_field_def and_then_def client_info_new_def comp_def
      worker_proto_roundtrip)

lemma start_time_cached:
  "my_worker_get_start_time mw = (t, mw') \<Longrightarrow>
   t = (case mw_start_time mw of Some s \<Rightarrow> Some s | None \<Rightarrow> mw_start_rx mw) \<and> mw_state mw' = mw_state mw
   \<and> mw_services mw' = mw_services mw \<and> mw_start_rx mw' = mw_start_rx mw"
  by (auto simp: my_worker_get_start_time_def split: option.splits)

text \<open>An upload is refused, with no effect, unless both fields are set and the client is registered with
  workers that this worker knows.\<close>

lemma collect_peers_ok:
  "services = Some m \<Longrightarrow>
   collect_peers services infos =
   (if \<forall>w \<in> set infos. map_of (sm_workers m) w \<noteq> None then Some (Inr (map (\<lambda>w. the (map_of (sm_workers m) w)) infos))
    else Some (Inl (FailedPrecondition ''All requested workers should be in the worker client registry'')))"
  by (induction services infos rule: collect_peers.induct)
    (auto simp: service_get_worker_def and_then_def split: option.splits)

lemma handle_upload_ok:
  assumes "mw_services mw = Some m" "map_of (cr_peers (ws_client_registry (mw_state mw))) (client_idx c) = Some shards"
    and "\<forall>w \<in> set shards. map_of (sm_workers m) w \<noteq> None"
  shows "handle_upload \<lparr> ur_client_id = Some (client_to_proto c), ur_write_token = Some wt \<rparr> mw
    = Some (Inr (client_idx c, client_to_proto c, wt, map (\<lambda>w. the (map_of (sm_workers m) w)) shards))"
  using assms
  by (auto simp: handle_upload_def expect_field_def and_then_def client_info_new_def my_worker_get_peers_def registry_get_peers_def
      collect_peers_ok)

lemma handle_upload_unregistered:
  assumes "map_of (cr_peers (ws_client_registry (mw_state mw))) (client_idx c) = None"
  shows "handle_upload \<lparr> ur_client_id = Some (client_to_proto c), ur_write_token = Some wt \<rparr> mw
    = Some (Inl (FailedPrecondition ''Client info not registered.''))"
  using assms
  by (auto simp: handle_upload_def expect_field_def and_then_def client_info_new_def my_worker_get_peers_def registry_get_peers_def)

end
