(* ===== verification/Aggregation.thy ===== *)
theory Aggregation
  imports Worker
begin

text \<open>
  The leader of a group (\<open>spectrum/src/leader.rs\<close>) and the publisher (\<open>publisher.rs\<close>). Both add up the
  shares they receive; when the last one is in, the leader forwards its sum to the publisher and the
  publisher has the result of the round.
\<close>

section \<open>The leader\<close>

record ('m, 'pc) my_leader =
  ml_accumulator :: "'m list accumulator"
  ml_total_workers :: nat
  ml_publisher :: "'pc option"

definition leader_from_protocol ::
    "('r, 'm, 'k, 't, 's, 'x) protocol_ops_scheme \<Rightarrow> u16 \<Rightarrow> 'pc option \<Rightarrow> ('m, 'pc) my_leader" where
  "leader_from_protocol T workers_per_group publisher =
     \<lparr> ml_accumulator = accumulator_new (proto_new_accumulator T), ml_total_workers = unat workers_per_group,
       ml_publisher = publisher \<rparr>"

definition handle_aggregate_worker ::
    "aggregate_request \<Rightarrow> ('m, 'pc) my_leader \<Rightarrow> (status + proto_share \<times> 'pc) option" where
  "handle_aggregate_worker request ml =
     and_then (Some (expect_field (ag_share request) ''Share'')) (\<lambda>data.
       do { publisher \<leftarrow> ml_publisher ml; Some (Inr (data, publisher)) })"

text \<open>The spawned task takes the lock of the accumulator twice: to accumulate the share, and, if this was the last one that is
  expected, to get the sum. In between shares of other tasks can come in. The first part gives whether the task goes on.\<close>

definition aggregate_share :: "('m, 'p) acc_ops \<Rightarrow> nat \<Rightarrow> 'm list \<Rightarrow> 'm list accumulator
    \<Rightarrow> (bool \<times> 'm list accumulator) option" where
  "aggregate_share A expected data acc =
     do { (n, acc') \<leftarrow> accumulate (vec_acc A) data acc;
          if n < expected then Some (False, acc')
          else if n > expected then Some (False, acc')
          else Some (True, acc') }"

definition aggregate_worker_task ::
    "('m, 'p) acc_ops \<Rightarrow> (proto_share \<Rightarrow> 'e + 'm list) \<Rightarrow> proto_share \<times> 'pc \<Rightarrow> ('m, 'pc) my_leader
     \<Rightarrow> ('pc option \<times> ('m, 'pc) my_leader) option" where
  "aggregate_worker_task A from_share task ml =
     (case task of (share, publisher) \<Rightarrow>
       do { data \<leftarrow> result_unwrap (from_share share);
            (complete, acc) \<leftarrow> aggregate_share A (ml_total_workers ml) data (ml_accumulator ml);
            Some (if complete then Some publisher else None, ml\<lparr> ml_accumulator := acc \<rparr>) })"

text \<open>The second part: the request with the sum.\<close>

definition forward_group_share :: "('m \<Rightarrow> bytes) \<Rightarrow> 'pc \<Rightarrow> ('m, 'pc) my_leader \<Rightarrow> 'pc \<times> aggregate_request" where
  "forward_group_share into publisher ml =
     (publisher, \<lparr> ag_share = Some (share_of_accumulator into (accumulator_get (ml_accumulator ml))) \<rparr>)"

section \<open>The publisher\<close>

record 'm my_publisher =
  mp_accumulator :: "'m list accumulator"
  mp_total_groups :: nat

definition publisher_from_protocol :: "('r, 'm, 'k, 't, 's, 'x) protocol_ops_scheme \<Rightarrow> 'm my_publisher" where
  "publisher_from_protocol T =
     \<lparr> mp_accumulator = accumulator_new (proto_new_accumulator T), mp_total_groups = proto_num_parties T \<rparr>"

definition handle_aggregate_group :: "aggregate_request \<Rightarrow> status + proto_share" where
  "handle_aggregate_group request = expect_field (ag_share request) ''Share''"

text \<open>The spawned task: whether the last group is in; then the recovered messages (\<open>remote.done()\<close> follows). The conversion
  to \<open>Bytes\<close> can panic.\<close>

definition aggregate_group_task ::
    "('m, 'p) acc_ops \<Rightarrow> (proto_share \<Rightarrow> 'e + 'm list) \<Rightarrow> proto_share \<Rightarrow> 'm my_publisher \<Rightarrow> (bool \<times> 'm my_publisher) option" where
  "aggregate_group_task A from_share share mp =
     do { data \<leftarrow> result_unwrap (from_share share);
          (complete, acc) \<leftarrow> aggregate_share A (mp_total_groups mp) data (mp_accumulator mp);
          Some (complete, mp\<lparr> mp_accumulator := acc \<rparr>) }"

definition recover_result :: "('m \<Rightarrow> bytes option) \<Rightarrow> 'm my_publisher \<Rightarrow> bytes list option" where
  "recover_result to_bytes mp = try_map to_bytes (accumulator_get (mp_accumulator mp))"

text \<open>The start-up of \<open>inner_run\<close>: \<open>config n\<close> is the store when it is read for the \<open>n\<close>-th time. The result
  is the store with the start time \<open>delay_ms\<close> after \<open>now\<close>.\<close>

definition publisher_startup ::
    "(crate_error, unit) retry_combinator \<Rightarrow> ('st, 'x) store_ops_scheme \<Rightarrow> (string \<Rightarrow> string + ('r, 'fr, 'sp) experiment_spec)
     \<Rightarrow> (('fr, 'sp) service set \<Rightarrow> string) \<Rightarrow> (int \<Rightarrow> string) \<Rightarrow> (nat \<Rightarrow> 'st) \<Rightarrow> 'st \<Rightarrow> int \<Rightarrow> int
     \<Rightarrow> (crate_error + 'st \<times> int) option" where
  "publisher_startup retry S from_json debug to_rfc3339 config last_config now delay_ms =
     do { res \<leftarrow> read_from_store S from_json (config 0);
          case res of
            Inl err \<Rightarrow> Some (Inl err)
          | Inr e \<Rightarrow>
              do { q \<leftarrow> wait_for_quorum retry S debug (\<lambda>n. config (Suc n)) e;
                   case q of
                     Inl err \<Rightarrow> Some (Inl err)
                   | Inr _ \<Rightarrow>
                       (let start = now + delay_ms in
                        case set_start_time S to_rfc3339 last_config start of
                          Inl err \<Rightarrow> Some (Inl err) | Inr st \<Rightarrow> Some (Inr (st, start))) } }"

section \<open>Aggregation\<close>

text \<open>A run of an aggregator: the parts of its tasks in the order in which they get the lock. \<open>waiting\<close> counts the tasks
  that have accumulated the last share and not yet got the sum. The result has the sums that are got.\<close>

datatype 'm agg_event = ShareIn "'m list" | SumOut

fun aggregate_run ::
    "('m, 'p) acc_ops \<Rightarrow> nat \<Rightarrow> 'm list accumulator \<times> nat \<Rightarrow> 'm agg_event list
     \<Rightarrow> ('m list list \<times> 'm list accumulator \<times> nat) option" where
  "aggregate_run A expected (acc, waiting) [] = Some ([], acc, waiting)"
| "aggregate_run A expected (acc, waiting) (ShareIn d # es) =
     do { (complete, acc') \<leftarrow> aggregate_share A expected d acc;
          aggregate_run A expected (acc', if complete then Suc waiting else waiting) es }"
| "aggregate_run A expected (acc, waiting) (SumOut # es) =
     (case waiting of
        0 \<Rightarrow> aggregate_run A expected (acc, 0) es
      | Suc w \<Rightarrow> do { (sums, st) \<leftarrow> aggregate_run A expected (acc, w) es; Some (accumulator_get acc # sums, st) })"

text \<open>The shares of a run, and how many of them are in at the first opportunity to get the sum after the last one that is
  expected, where \<open>n\<close> are in at the start.\<close>

fun shares_in :: "'m agg_event list \<Rightarrow> 'm list list" where
  "shares_in [] = []"
| "shares_in (ShareIn d # es) = d # shares_in es"
| "shares_in (SumOut # es) = shares_in es"

fun taken_at :: "nat \<Rightarrow> nat \<Rightarrow> 'm agg_event list \<Rightarrow> nat option" where
  "taken_at expected n [] = None"
| "taken_at expected n (ShareIn d # es) = taken_at expected (Suc n) es"
| "taken_at expected n (SumOut # es) = (if expected \<le> n then Some n else taken_at expected n es)"

lemma taken_at_bounds: "taken_at expected n es = Some m \<Longrightarrow> n \<le> m \<and> expected \<le> m \<and> m \<le> n + length (shares_in es)"
  by (induction expected n es rule: taken_at.induct) (auto split: if_splits)

context accumulatable
begin

lemma aggregate_share_eq:
  assumes "vec_valid valid n (acc_state acc)" "vec_valid valid n d"
  shows "aggregate_share A expected d acc =
    Some (acc_count acc + 1 = expected, \<lparr> acc_state = map2 (m_add M) (acc_state acc) d, acc_count = acc_count acc + 1 \<rparr>)"
  using vec_combine[OF assms] by (auto simp: aggregate_share_def accumulate_def)

text \<open>An aggregator gets its sum once, after the last expected share has come in: the sum of all shares that are in by then.\<close>

lemma aggregate_run_eq:
  assumes "vec_valid valid n (acc_state acc)" "list_all (vec_valid valid n) (shares_in es)"
    "waiting = (if sent \<or> acc_count acc < expected then 0 else 1)" "sent \<longrightarrow> expected \<le> acc_count acc"
  shows "aggregate_run A expected (acc, waiting) es = Some
    (case taken_at expected (acc_count acc) es of
       Some m \<Rightarrow> if sent then [] else [foldl (map2 (m_add M)) (acc_state acc) (take (m - acc_count acc) (shares_in es))] | None \<Rightarrow> [],
     \<lparr> acc_state = foldl (map2 (m_add M)) (acc_state acc) (shares_in es), acc_count = acc_count acc + length (shares_in es) \<rparr>,
     if sent \<or> taken_at expected (acc_count acc) es \<noteq> None \<or> acc_count acc + length (shares_in es) < expected then 0 else 1)"
  using assms
proof (induction es arbitrary: acc waiting sent)
  case Nil
  then show ?case by simp
next
  case (Cons ev es)
  show ?case
  proof (cases ev)
    case (ShareIn d)
    let ?acc = "\<lparr> acc_state = map2 (m_add M) (acc_state acc) d, acc_count = acc_count acc + 1 \<rparr>"
    have d: "vec_valid valid n d" "list_all (vec_valid valid n) (shares_in es)" using Cons.prems(2) ShareIn by simp_all
    have v: "vec_valid valid n (acc_state ?acc)"
      using comm_monoid_laws.add_valid[OF vec_monoid_laws Cons.prems(1) d(1)] by simp
    let ?w = "if acc_count acc + 1 = expected then Suc waiting else waiting"
    have run: "aggregate_run A expected (acc, waiting) (ev # es) = aggregate_run A expected (?acc, ?w) es"
      using ShareIn aggregate_share_eq[OF Cons.prems(1) d(1)] by simp
    have w: "?w = (if sent \<or> acc_count ?acc < expected then 0 else 1)" using Cons.prems(3,4) by auto
    have s: "sent \<longrightarrow> expected \<le> acc_count ?acc" using Cons.prems(4) by auto
    have take: "foldl (map2 (m_add M)) (acc_state acc) (take (m - acc_count acc) (d # shares_in es))
        = foldl (map2 (m_add M)) (acc_state ?acc) (take (m - acc_count ?acc) (shares_in es))"
      if "taken_at expected (Suc (acc_count acc)) es = Some m" for m
    proof -
      have "m - acc_count acc = Suc (m - acc_count ?acc)" using taken_at_bounds[OF that] by auto
      then show ?thesis by simp
    qed
    have "aggregate_run A expected (?acc, ?w) es = Some
      (case taken_at expected (acc_count ?acc) es of
         Some m \<Rightarrow> if sent then [] else [foldl (map2 (m_add M)) (acc_state ?acc) (take (m - acc_count ?acc) (shares_in es))] | None \<Rightarrow> [],
       \<lparr> acc_state = foldl (map2 (m_add M)) (acc_state ?acc) (shares_in es), acc_count = acc_count ?acc + length (shares_in es) \<rparr>,
       if sent \<or> taken_at expected (acc_count ?acc) es \<noteq> None \<or> acc_count ?acc + length (shares_in es) < expected then 0 else 1)"
      by (rule Cons.IH[OF v d(2) w s])
    then show ?thesis unfolding run using take ShareIn by (auto split: option.splits)
  next
    case SumOut
    have es: "list_all (vec_valid valid n) (shares_in es)" using Cons.prems(2) SumOut by simp
    show ?thesis
    proof (cases "acc_count acc < expected")
      case True
      then have "\<not> sent" "waiting = 0" using Cons.prems(3,4) by auto
      then show ?thesis using True Cons.IH[OF Cons.prems(1) es, of waiting sent] Cons.prems(3,4) SumOut by (simp split: option.splits)
    next
      case False
      have "aggregate_run A expected (acc, 0) es = Some ([],
        \<lparr> acc_state = foldl (map2 (m_add M)) (acc_state acc) (shares_in es), acc_count = acc_count acc + length (shares_in es) \<rparr>, 0)"
        using Cons.IH[OF Cons.prems(1) es, of 0 True] False by (simp split: option.splits)
      then show ?thesis using Cons.prems(3) False SumOut by (cases sent) (simp_all add: accumulator_get_def)
    qed
  qed
qed

end

end
