(* ===== verification/Cli.thy ===== *)
theory Cli
  imports Experiment
begin

text \<open>
  The command line (\<open>spectrum/src/cli.rs\<close>) and the network configuration it gives a service (\<open>net.rs\<close>).
  Parsing itself is the work of the argument parser; the records below are its results. The choice of a
  free port, the reading of files and the parsing of certificates are arguments.
\<close>

section \<open>The network configuration of a service\<close>

record ('ident, 'cert) net_config =
  net_local_port :: u16
  net_public_addr :: string
  net_tls :: "('ident \<times> 'cert) option"

definition net_new :: "u16 \<Rightarrow> string \<Rightarrow> ('ident \<times> 'cert) option \<Rightarrow> ('ident, 'cert) net_config" where
  "net_new local_port public_addr tls =
     \<lparr> net_local_port = local_port, net_public_addr = public_addr, net_tls = tls \<rparr>"

definition net_new_localhost :: "u16 \<Rightarrow> ('ident \<times> 'cert) option \<Rightarrow> ('ident, 'cert) net_config" where
  "net_new_localhost local_port tls =
     \<lparr> net_local_port = local_port, net_public_addr = ''localhost:'' @ nat_to_string (unat local_port), net_tls = tls \<rparr>"

definition net_tls_ident :: "('ident, 'cert) net_config \<Rightarrow> 'ident option" where
  "net_tls_ident c = map_option fst (net_tls c)"

definition net_tls_cert :: "('ident, 'cert) net_config \<Rightarrow> 'cert option" where
  "net_tls_cert c = map_option snd (net_tls c)"

definition net_with_free_port_localhost ::
    "u16 option \<Rightarrow> ('ident \<times> 'cert) option \<Rightarrow> ('ident, 'cert) net_config option" where
  "net_with_free_port_localhost free_port tls = do { local_port \<leftarrow> free_port; Some (net_new_localhost local_port tls) }"

definition net_with_free_port ::
    "u16 option \<Rightarrow> string \<Rightarrow> ('ident \<times> 'cert) option \<Rightarrow> ('ident, 'cert) net_config option" where
  "net_with_free_port free_port public_addr tls =
     do { config \<leftarrow> net_with_free_port_localhost free_port tls; Some (config\<lparr> net_public_addr := public_addr \<rparr>) }"

definition net_set_public_addr :: "string \<Rightarrow> ('ident, 'cert) net_config \<Rightarrow> ('ident, 'cert) net_config" where
  "net_set_public_addr public_addr c = c\<lparr> net_public_addr := public_addr \<rparr>"

text \<open>The socket is bound on every interface, address 0.0.0.0.\<close>

definition net_local_socket_addr :: "('ident, 'cert) net_config \<Rightarrow> u32 \<times> u16" where
  "net_local_socket_addr c = (0, net_local_port c)"

section \<open>Arguments\<close>

record tls_server_args =
  tls_cert_file :: "string option"
  tls_key_file :: "string option"
  tls_ca_file :: "string option"

record net_args =
  na_local_port :: "u16 option"
  na_public_addr :: "string option"
  na_tls :: tls_server_args

record experiment_args =
  arg_clients :: u128
  arg_group_size :: u16
  arg_channels :: nat
  arg_groups :: nat
  arg_msg_size :: nat
  arg_security_bytes :: "u32 option"
  arg_security_multi_key_bytes :: "u32 option"
  arg_no_security :: bool
  arg_public :: bool
  arg_hammer :: bool

definition tls_ca_from_args :: "(string \<Rightarrow> string option) \<Rightarrow> (string \<Rightarrow> 'cert) \<Rightarrow> tls_server_args \<Rightarrow> 'cert option option" where
  "tls_ca_from_args read_file cert_from_pem args =
     (case tls_ca_file args of
        None \<Rightarrow> Some None
      | Some ca_file \<Rightarrow> do { pem \<leftarrow> read_file ca_file; Some (Some (cert_from_pem pem)) })"

definition tls_from_args ::
    "(string \<Rightarrow> string option) \<Rightarrow> (string \<Rightarrow> string \<Rightarrow> 'ident) \<Rightarrow> (string \<Rightarrow> 'cert) \<Rightarrow> tls_server_args
     \<Rightarrow> ('ident \<times> 'cert) option option" where
  "tls_from_args read_file ident_from_pem cert_from_pem args =
     (case (tls_cert_file args, tls_key_file args) of
        (None, None) \<Rightarrow> Some None
      | (Some cert_file, Some key_file) \<Rightarrow>
          do { cert \<leftarrow> read_file cert_file;
               key \<leftarrow> read_file key_file;
               ca \<leftarrow> tls_ca_from_args read_file cert_from_pem args;
               Some (map_option (\<lambda>c. (ident_from_pem cert key, c)) ca) }
      | _ \<Rightarrow> None)"

definition net_from_args ::
    "u16 option \<Rightarrow> (string \<Rightarrow> string option) \<Rightarrow> (string \<Rightarrow> string \<Rightarrow> 'ident) \<Rightarrow> (string \<Rightarrow> 'cert) \<Rightarrow> net_args
     \<Rightarrow> ('ident, 'cert) net_config option" where
  "net_from_args free_port read_file ident_from_pem cert_from_pem args =
     do { tls \<leftarrow> tls_from_args read_file ident_from_pem cert_from_pem (na_tls args);
          case (na_local_port args, na_public_addr args) of
            (None, None) \<Rightarrow> net_with_free_port_localhost free_port tls
          | (None, Some public_addr) \<Rightarrow> net_with_free_port free_port public_addr tls
          | (Some local_port, None) \<Rightarrow> Some (net_new_localhost local_port tls)
          | (Some local_port, Some public_addr) \<Rightarrow> Some (net_new local_port public_addr tls) }"

definition security_bytes :: "experiment_args \<Rightarrow> u32 option" where
  "security_bytes args =
     (if arg_no_security args then None
      else case arg_security_multi_key_bytes args of
        Some b \<Rightarrow> Some b
      | None \<Rightarrow> (case arg_security_bytes args of Some b \<Rightarrow> Some b | None \<Rightarrow> Some 16))"

definition protocol_from_args ::
    "('r, 'fr, 'sp, 'h, 'e) crypto_env \<Rightarrow> experiment_args \<Rightarrow> 'r \<Rightarrow> (('r, 'fr, 'sp) protocol_wrapper \<times> 'r) option" where
  "protocol_from_args env args r =
     protocol_wrapper_new env (security_bytes args \<noteq> None) (arg_security_multi_key_bytes args \<noteq> None)
       (arg_groups args) (arg_channels args) (arg_msg_size args) (arg_public args) r"

definition experiment_from_args ::
    "('r, 'fr, 'sp, 'h, 'e) crypto_env \<Rightarrow> experiment_args \<Rightarrow> 'r \<Rightarrow> (('r, 'fr, 'sp) experiment_spec \<times> 'r) option" where
  "experiment_from_args env args r =
     do { (protocol, r') \<leftarrow> protocol_from_args env args r;
          new_sample_keys env protocol (arg_group_size args) (arg_clients args) (arg_hammer args) r' }"

section \<open>Which arguments give an experiment\<close>

lemma security_bytes_iff: "security_bytes args = None \<longleftrightarrow> arg_no_security args"
  by (simp add: security_bytes_def split: option.splits)

lemma new_sample_keys_iff:
  "(\<exists>e r'. new_sample_keys env protocol group_size clients hammer r = Some (e, r')) \<longleftrightarrow> 1 \<le> group_size \<and> 1 \<le> clients"
  using length_sample_keys[of env protocol r]
  by (auto simp: new_sample_keys_def experiment_new_def case_prod_beta rust_assert_def split: if_splits)

lemma new_sample_keys_spec:
  assumes "new_sample_keys env protocol group_size clients hammer r = Some (e, r')"
  shows "experiment_valid e \<and> ex_protocol e = protocol \<and> ex_group_size e = group_size \<and> ex_clients e = clients
    \<and> ex_hammer e = hammer"
  using assms by (auto simp: new_sample_keys_def case_prod_beta bind_eq_Some_conv experiment_new_iff)

lemma experiment_from_args_exists:
  "(\<exists>e r'. experiment_from_args env args r = Some (e, r')) \<longleftrightarrow>
   \<not> arg_no_security args \<and> (arg_security_multi_key_bytes args \<noteq> None \<or> arg_groups args = 2 \<and> SEED_SIZE \<le> arg_msg_size args)
   \<and> 1 \<le> arg_group_size args \<and> 1 \<le> arg_clients args"
proof -
  have "(\<exists>e r'. experiment_from_args env args r = Some (e, r')) \<longleftrightarrow>
      (\<exists>p r1. protocol_from_args env args r = Some (p, r1)) \<and> 1 \<le> arg_group_size args \<and> 1 \<le> arg_clients args"
    using new_sample_keys_iff[of env _ "arg_group_size args" "arg_clients args" "arg_hammer args"]
    by (fastforce simp: experiment_from_args_def bind_eq_Some_conv)
  then show ?thesis
    unfolding protocol_from_args_def protocol_wrapper_new_iff by (auto simp: security_bytes_iff)
qed

lemma experiment_from_args_spec:
  assumes "experiment_from_args env args r = Some (e, r')"
  shows "experiment_valid e" "wrapper_num_parties (ex_protocol e) = arg_groups args"
    "experiment_channels e = arg_channels args" "ex_group_size e = arg_group_size args" "ex_clients e = arg_clients args"
    "ex_hammer e = arg_hammer args" "is_multi_key (ex_protocol e) \<longleftrightarrow> arg_security_multi_key_bytes args \<noteq> None"
    "experiment_msg_size e = (if arg_security_multi_key_bytes args = None then arg_msg_size args else arg_msg_size args div 32 + 1)"
    "length (iter_clients e) = max (arg_channels args) (unat (arg_clients args))"
proof -
  obtain p r1 where p: "protocol_from_args env args r = Some (p, r1)"
      "new_sample_keys env p (arg_group_size args) (arg_clients args) (arg_hammer args) r1 = Some (e, r')"
    using assms by (auto simp: experiment_from_args_def bind_eq_Some_conv)
  note sizes = protocol_wrapper_new_sizes[OF p(1)[unfolded protocol_from_args_def]]
  show valid: "experiment_valid e" "wrapper_num_parties (ex_protocol e) = arg_groups args"
    and channels: "experiment_channels e = arg_channels args"
    and "ex_group_size e = arg_group_size args" and clients: "ex_clients e = arg_clients args"
    and "ex_hammer e = arg_hammer args" "is_multi_key (ex_protocol e) \<longleftrightarrow> arg_security_multi_key_bytes args \<noteq> None"
    and "experiment_msg_size e = (if arg_security_multi_key_bytes args = None then arg_msg_size args else arg_msg_size args div 32 + 1)"
    using new_sample_keys_spec[OF p(2)] sizes by (simp_all add: experiment_channels_def experiment_msg_size_def)
  show "length (iter_clients e) = max (arg_channels args) (unat (arg_clients args))"
    using iter_clients_eq[OF valid(1)] channels clients by (metis length_map length_upt diff_zero)
qed

end
