(* ===== verification/Client.thy ===== *)
theory Client
  imports Aggregation Cli
begin

text \<open>
  The client: \<open>spectrum/src/client/connections.rs\<close>, which picks one worker of every group and registers
  with it, and \<open>client/viewer.rs\<close>, which makes the write tokens and uploads one to each. The random
  choice of a worker and the order in which a hash set iterates are arguments.
\<close>

section \<open>Connections\<close>

type_synonym ('r, 'a) chooser = "'a list \<Rightarrow> 'r \<Rightarrow> 'a option \<times> 'r"

definition node_worker :: "('fr, 'sp) node \<Rightarrow> worker_info option" where
  "node_worker n = (case node_service n of Worker info \<Rightarrow> Some info | _ \<Rightarrow> None)"

definition in_group :: "group \<Rightarrow> ('fr, 'sp) node \<Rightarrow> bool" where
  "in_group g n \<longleftrightarrow> (case node_worker n of Some info \<Rightarrow> worker_group info = g | None \<Rightarrow> False)"

fun pick_from_groups ::
    "('r, ('fr, 'sp) node) chooser \<Rightarrow> ('fr, 'sp) node list \<Rightarrow> group list \<Rightarrow> 'r \<Rightarrow> (('fr, 'sp) node list \<times> 'r) option" where
  "pick_from_groups pickr workers [] r = Some ([], r)"
| "pick_from_groups pickr workers (g # gs) r =
     (let (picked, r1) = pickr (filter (in_group g) workers) r in
      do { n \<leftarrow> picked;
           (shards, r2) \<leftarrow> pick_from_groups pickr workers gs r1;
           Some (n # shards, r2) })"

definition pick_worker_shards ::
    "(group list \<Rightarrow> group list) \<Rightarrow> ('r, ('fr, 'sp) node) chooser \<Rightarrow> ('fr, 'sp) node list \<Rightarrow> 'r
     \<Rightarrow> (('fr, 'sp) node list \<times> 'r) option" where
  "pick_worker_shards order pickr nodes r =
     (let workers = filter (\<lambda>n. node_worker n \<noteq> None) nodes;
          groups = remdups (map (\<lambda>n. worker_group (the (node_worker n))) workers)
      in pick_from_groups pickr workers (order groups) r)"

text \<open>\<open>connect\<close>: \<open>attempt n\<close> is the outcome of the \<open>n\<close>-th attempt; ten are made.\<close>

function connect_loop :: "(nat \<Rightarrow> 'e + 'c) \<Rightarrow> nat \<Rightarrow> 'e + 'c" where
  "connect_loop attempt attempts =
     (case attempt attempts of
        Inr c \<Rightarrow> Inr c
      | Inl e \<Rightarrow> if 10 \<le> attempts + 1 then Inl e else connect_loop attempt (attempts + 1))"
  by pat_completeness auto
termination
  by (relation "measure (\<lambda>(attempt, attempts). 10 - attempts)") auto

declare connect_loop.simps [simp del]

definition client_connect :: "(nat \<Rightarrow> 'e + 'c) \<Rightarrow> 'e + 'c" where
  "client_connect attempt = connect_loop attempt 0"

text \<open>\<open>connect_and_register\<close>, once the nodes are resolved: the same request goes to every shard.\<close>

definition registration :: "('fr, 'sp) client_info \<Rightarrow> ('fr, 'sp) node list \<Rightarrow> register_client_request option" where
  "registration info shards =
     do { ws \<leftarrow> try_map node_worker shards;
          Some \<lparr> rr_client_id = Some (client_to_proto info), rr_shards = map worker_to_proto ws \<rparr> }"

fun register_with :: "(string \<Rightarrow> 'e + 'c) \<Rightarrow> ('c \<Rightarrow> register_client_request \<Rightarrow> 'e + unit) \<Rightarrow> register_client_request
    \<Rightarrow> ('fr, 'sp) node list \<Rightarrow> 'e + 'c list" where
  "register_with connect send req [] = Inr []"
| "register_with connect send req (shard # shards) =
     (case connect (node_addr shard) of
        Inl e \<Rightarrow> Inl e
      | Inr c \<Rightarrow> (case send c req of
            Inl e \<Rightarrow> Inl e
          | Inr _ \<Rightarrow> (case register_with connect send req shards of Inl e \<Rightarrow> Inl e | Inr cs \<Rightarrow> Inr (c # cs))))"

section \<open>Write tokens\<close>

text \<open>The tokens that \<open>inner_run\<close> makes: a broadcaster's message and key are converted to the protocol's
  types and unwrapped, its index to \<open>usize\<close>.\<close>

definition viewer_tokens ::
    "('r, 'm, 'k, 'w, 't, 'x) protocol_ops_scheme \<Rightarrow> (bytes \<Rightarrow> (string + 'm) option)
     \<Rightarrow> (('fr, 'sp) channel_key_wrapper \<Rightarrow> string + 'k) \<Rightarrow> ('fr, 'sp) client_info \<Rightarrow> 'r \<Rightarrow> ('w list \<times> 'r) option" where
  "viewer_tokens T msg_from key_from info r =
     (case client_broadcast info of
        Some (msg, key) \<Rightarrow>
          do { parsed \<leftarrow> msg_from msg;
               m \<leftarrow> result_unwrap parsed;
               rust_assert (unat (client_idx info) < 2 ^ 64);
               k \<leftarrow> result_unwrap (key_from key);
               proto_broadcast T m (unat (client_idx info)) k r }
      | None \<Rightarrow> proto_cover T r)"

definition viewer_uploads ::
    "('w \<Rightarrow> proto_write_token) \<Rightarrow> ('fr, 'sp) client_info \<Rightarrow> 'c list \<Rightarrow> 'w list \<Rightarrow> ('c \<times> upload_request) list" where
  "viewer_uploads token_into info clients tokens =
     map (\<lambda>(client, token). (client, \<lparr> ur_client_id = Some (client_to_proto info), ur_write_token = Some (token_into token) \<rparr>))
       (zip clients tokens)"

text \<open>The delay before the first upload; a maximum of zero panics.\<close>

definition viewer_jitter :: "u64 \<Rightarrow> u64 \<Rightarrow> u64 option" where
  "viewer_jitter random max_jitter = do { rust_assert (max_jitter \<noteq> 0); Some (random mod max_jitter) }"

section \<open>Correctness of the choice\<close>

text \<open>What the random library promises of \<open>choose\<close>, and the standard library of the iteration over a set.\<close>

locale random_choice =
  fixes pickr :: "('r, 'a) chooser"
  assumes choose_in: "xs \<noteq> [] \<Longrightarrow> \<exists>x r'. pickr xs r = (Some x, r') \<and> x \<in> set xs"

definition choose_nth :: "(nat, 'a) chooser" where
  "choose_nth xs r = (if xs = [] then None else Some (xs ! (r mod length xs)), r + 1)"

interpretation choose_nth: random_choice choose_nth
  by unfold_locales (auto simp: choose_nth_def)

locale shard_choice = random_choice pickr for pickr :: "('r, ('fr, 'sp) node) chooser" +
  fixes order :: "group list \<Rightarrow> group list"
  assumes order_mset: "mset (order gs) = mset gs"
begin

lemma pick_from_groups_ok:
  assumes "\<And>g. g \<in> set gs \<Longrightarrow> \<exists>n \<in> set workers. in_group g n"
  shows "\<exists>shards r'. pick_from_groups pickr workers gs r = Some (shards, r')
    \<and> list_all2 (\<lambda>g n. n \<in> set workers \<and> in_group g n) gs shards"
  using assms
proof (induction gs arbitrary: r)
  case (Cons g gs)
  have "filter (in_group g) workers \<noteq> []" using Cons.prems by (auto simp: filter_empty_conv)
  then obtain n r1 where n: "pickr (filter (in_group g) workers) r = (Some n, r1)" "n \<in> set workers" "in_group g n"
    using choose_in[of "filter (in_group g) workers" r] by auto
  obtain shards r2 where "pick_from_groups pickr workers gs r1 = Some (shards, r2)"
      "list_all2 (\<lambda>g n. n \<in> set workers \<and> in_group g n) gs shards"
    using Cons.IH[of r1] Cons.prems by auto
  then show ?case using n by auto
qed simp

text \<open>One worker is picked from every group that has one, and no group is picked twice.\<close>

lemma pick_worker_shards_ok:
  "\<exists>shards r'. pick_worker_shards order pickr nodes r = Some (shards, r') \<and> set shards \<subseteq> set nodes
    \<and> (\<exists>ws. map node_worker shards = map Some ws \<and> distinct (map worker_group ws)
        \<and> worker_group ` set ws = {worker_group w | w n. n \<in> set nodes \<and> node_worker n = Some w})"
proof -
  let ?workers = "filter (\<lambda>n. node_worker n \<noteq> None) nodes"
  let ?groups = "remdups (map (\<lambda>n. worker_group (the (node_worker n))) ?workers)"
  have set_order: "set (order ?groups) = set ?groups" "distinct (order ?groups)"
    using order_mset[of ?groups] by (metis mset_eq_setD, metis distinct_remdups mset_eq_imp_distinct_iff)
  have "\<exists>n \<in> set ?workers. in_group g n" if "g \<in> set (order ?groups)" for g
    using that unfolding set_order(1) by (force simp: in_group_def)
  then obtain shards r' where sh: "pick_from_groups pickr ?workers (order ?groups) r = Some (shards, r')"
      "list_all2 (\<lambda>g n. n \<in> set ?workers \<and> in_group g n) (order ?groups) shards"
    using pick_from_groups_ok[of "order ?groups" ?workers r] by blast
  let ?ws = "map (\<lambda>n. the (node_worker n)) shards"
  have each: "n \<in> set nodes \<and> node_worker n \<noteq> None" if n: "n \<in> set shards" for n
  proof -
    obtain i where "i < length shards" "n = shards ! i" using n by (auto simp: in_set_conv_nth)
    then have "n \<in> set ?workers" using sh(2) by (simp only: list_all2_conv_all_nth)
    then show ?thesis by simp
  qed
  have "map node_worker shards = map (Some \<circ> (\<lambda>n. the (node_worker n))) shards"
    by (rule map_cong[OF refl]) (use each in auto)
  then have "map node_worker shards = map Some ?ws" by simp
  moreover have groups: "map worker_group ?ws = order ?groups"
  proof (rule nth_equalityI)
    fix i
    assume "i < length (map worker_group ?ws)"
    then have i: "i < length shards" "i < length (order ?groups)" using list_all2_lengthD[OF sh(2)] by simp_all
    have "in_group (order ?groups ! i) (shards ! i)" using list_all2_nthD[OF sh(2) i(2)] by blast
    then have "worker_group (the (node_worker (shards ! i))) = order ?groups ! i"
      by (auto simp: in_group_def split: option.splits)
    then show "map worker_group ?ws ! i = order ?groups ! i" using i(1) by simp
  qed (use list_all2_lengthD[OF sh(2)] in simp)
  moreover have "worker_group ` set ?ws = {worker_group w | w n. n \<in> set nodes \<and> node_worker n = Some w}"
  proof -
    have "worker_group ` set ?ws = set ?groups" using groups set_order(1) by (metis set_map)
    also have "\<dots> = {worker_group w | w n. n \<in> set nodes \<and> node_worker n = Some w}" by force
    finally show ?thesis .
  qed
  moreover have "pick_worker_shards order pickr nodes r = Some (shards, r')"
    using sh(1) by (simp add: pick_worker_shards_def Let_def)
  moreover have "set shards \<subseteq> set nodes" using each by blast
  moreover have "distinct (map worker_group ?ws)" using groups set_order(2) by metis
  ultimately show ?thesis by blast
qed

end

interpretation shards_nth: shard_choice choose_nth "\<lambda>gs. gs"
  by unfold_locales simp

text \<open>Ten attempts to connect, and the first success is used.\<close>

lemma connect_loop_first:
  assumes "n < 10"
  shows "connect_loop attempt n = Inr c \<longleftrightarrow>
    (\<exists>k. n \<le> k \<and> k < 10 \<and> attempt k = Inr c \<and> (\<forall>j. n \<le> j \<longrightarrow> j < k \<longrightarrow> (\<exists>e. attempt j = Inl e)))"
  using assms
proof (induction attempt n rule: connect_loop.induct)
  case (1 attempt n)
  let ?first = "\<lambda>n k. n \<le> k \<and> k < 10 \<and> attempt k = Inr c \<and> (\<forall>j. n \<le> j \<longrightarrow> j < k \<longrightarrow> (\<exists>e. attempt j = Inl e))"
  show ?case
  proof (cases "attempt n")
    case (Inl e)
    have le: "n \<le> j \<longleftrightarrow> j = n \<or> n + 1 \<le> j" for j by auto
    have "?first n k \<longleftrightarrow> ?first (n + 1) k" for k
      unfolding le using Inl by (cases "k = n") auto
    then have step: "(\<exists>k. ?first n k) \<longleftrightarrow> (\<exists>k. ?first (n + 1) k)" by simp
    show ?thesis
    proof (cases "10 \<le> n + 1")
      case True
      then have "\<not> (\<exists>k. ?first (n + 1) k)" by auto
      then show ?thesis using True Inl step by (subst connect_loop.simps) simp
    next
      case False
      then have "connect_loop attempt (n + 1) = Inr c \<longleftrightarrow> (\<exists>k. ?first (n + 1) k)" using 1(1)[OF Inl] by simp
      then show ?thesis using False Inl step by (subst connect_loop.simps) simp
    qed
  next
    case (Inr d)
    have "(\<exists>k. ?first n k) \<longleftrightarrow> d = c"
    proof
      assume "\<exists>k. ?first n k"
      then obtain k where k: "?first n k" by blast
      then have "k = n" using Inr by (metis le_eq_less_or_eq order_refl sum.distinct(1))
      then show "d = c" using k Inr by simp
    next
      assume "d = c"
      then show "\<exists>k. ?first n k" using Inr 1(2) by (intro exI[of _ n]) auto
    qed
    then show ?thesis using Inr by (subst connect_loop.simps) simp
  qed
qed

text \<open>The clients of an experiment, as the actions of a round: the broadcaster of channel \<open>i\<close> writes its
  message there, everybody else sends cover traffic.\<close>

lemma viewer_tokens_eq:
  assumes "client_broadcast info = Some (msg, wrap (keys ! i))" "client_idx info = of_nat i" "i < length keys" "i < 2 ^ 64"
    and "msg_from msg = Some (Inr m)" "key_wrapping wrap key_from"
  shows "viewer_tokens T msg_from key_from info r = client_tokens T keys (Broadcast i m) r"
proof -
  have "unat (of_nat i :: u128) = i" using assms(4) by (simp add: unsigned_of_nat take_bit_nat_eq_self)
  then show ?thesis
    using assms key_wrapping.unwrap_wrap[OF assms(6)] by (simp add: viewer_tokens_def)
qed

lemma viewer_tokens_cover:
  "client_broadcast info = None \<Longrightarrow> viewer_tokens T msg_from key_from info r = client_tokens T keys Cover r"
  by (simp add: viewer_tokens_def)

lemma viewer_jitter_bound: "viewer_jitter random max_jitter = Some j \<Longrightarrow> j < max_jitter"
  by (auto simp: viewer_jitter_def bind_eq_Some_conv word_mod_less_divisor word_gt_0)

end
