(* ===== verification/System.thy ===== *)
theory System
  imports Client
begin

text \<open>
  The whole system: workers, leaders and the publisher, and everything that is in flight between them. A
  task is a request on its way or the rest of a spawned task, cut where a lock is released; running a task
  changes the state of one process and puts further tasks in flight. A step of the system runs any one of
  the tasks, so the executions are all interleavings.
\<close>

section \<open>Tasks\<close>

datatype ('t, 's, 'm) task =
    Upload worker_info u128 't
  | Verify worker_info u128 's
  | Drain worker_info u128
  | Accumulate worker_info u128 "'m list"
  | Report worker_info nat
  | ToLeader group "'m list"
  | LeaderGet group
  | ToPublisher "'m list"
  | PublisherGet

record ('s, 't, 'm, 'r, 'fr, 'sp) system =
  sys_workers :: "worker_info \<Rightarrow> ('s, 't, 'm, 'r, 'fr, 'sp) worker_state"
  sys_leaders :: "group \<Rightarrow> ('m, unit) my_leader"
  sys_publisher :: "'m my_publisher"
  sys_result :: "'m list option"

definition set_worker ::
    "worker_info \<Rightarrow> ('s, 't, 'm, 'r, 'fr, 'sp) worker_state \<Rightarrow> ('s, 't, 'm, 'r, 'fr, 'sp) system \<Rightarrow> ('s, 't, 'm, 'r, 'fr, 'sp) system" where
  "set_worker w ws sys = sys\<lparr> sys_workers := (sys_workers sys)(w := ws) \<rparr>"

text \<open>Running a task gives the tasks that follow, or a panic. An upload that is refused is sent again by the client; an error
  of \<open>verify\<close> is only logged. A verification that is not the last ends with the log of the throughput, for which \<open>elapsed\<close> is the time
  in milliseconds since the start of the round, if that is known: a division by zero in the first millisecond.\<close>

definition run_upload where
  "run_upload T key_from w c token sys =
     (case registry_get_peers c (ws_client_registry (sys_workers sys w)) of
        Inl _ \<Rightarrow> Some ([Upload w c token], sys)
      | Inr peers \<Rightarrow>
          do { (shares, ws) \<leftarrow> worker_upload T key_from c token (sys_workers sys w);
               Some (map (\<lambda>(p, s). Verify p c s) (zip peers shares), set_worker w ws sys) })"

definition run_verify where
  "run_verify T w c share sys =
     (let (n, ws) = verify_add c share (sys_workers sys w)
      in Some (if n < proto_num_parties T then [] else [Drain w c], set_worker w ws sys))"

definition run_drain where
  "run_drain T w c sys =
     do { ((verify, token), ws) \<leftarrow> verify_drain T c (sys_workers sys w);
          expanded \<leftarrow> verify_expand T token;
          Some (case expanded of Inl err \<Rightarrow> [] | Inr acc \<Rightarrow> [Accumulate w c acc], set_worker w ws sys) }"

definition run_accumulate where
  "run_accumulate A w acc sys =
     do { (n, ws) \<leftarrow> verify_accumulate A acc (sys_workers sys w);
          Some ([Report w n], set_worker w ws sys) }"

definition run_report where
  "run_report elapsed w n sys =
     (case verify_report n (sys_workers sys w) of
        AllClientsVerified acc \<Rightarrow> Some ([ToLeader (worker_group w) acc], sys)
      | ShareVerified clients \<Rightarrow> do { log_qps clients elapsed; Some ([], sys) }
      | _ \<Rightarrow> Some ([], sys))"

text \<open>The leader and the publisher, each with the two parts of its task.\<close>

definition run_leader where
  "run_leader A g data sys =
     (let ml = sys_leaders sys g in
      do { (complete, acc) \<leftarrow> aggregate_share A (ml_total_workers ml) data (ml_accumulator ml);
           Some (if complete then [LeaderGet g] else [],
                 sys\<lparr> sys_leaders := (sys_leaders sys)(g := ml\<lparr> ml_accumulator := acc \<rparr>) \<rparr>) })"

definition run_leader_get where
  "run_leader_get g sys = Some ([ToPublisher (accumulator_get (ml_accumulator (sys_leaders sys g)))], sys)"

definition run_publisher where
  "run_publisher A data sys =
     (let mp = sys_publisher sys in
      do { (complete, acc) \<leftarrow> aggregate_share A (mp_total_groups mp) data (mp_accumulator mp);
           Some (if complete then [PublisherGet] else [], sys\<lparr> sys_publisher := mp\<lparr> mp_accumulator := acc \<rparr> \<rparr>) })"

definition run_publisher_get where
  "run_publisher_get sys = Some ([], sys\<lparr> sys_result := Some (accumulator_get (mp_accumulator (sys_publisher sys))) \<rparr>)"

fun run_task ::
    "('r, 'm, 'k, 't, 's, 'x) protocol_ops_scheme \<Rightarrow> ('m, 'p) acc_ops \<Rightarrow> (('fr, 'sp) channel_key_wrapper \<Rightarrow> string + 'k)
     \<Rightarrow> nat option \<Rightarrow> ('t, 's, 'm) task \<Rightarrow> ('s, 't, 'm, 'r, 'fr, 'sp) system
     \<Rightarrow> (('t, 's, 'm) task list \<times> ('s, 't, 'm, 'r, 'fr, 'sp) system) option" where
  "run_task T A key_from elapsed (Upload w c token) sys = run_upload T key_from w c token sys"
| "run_task T A key_from elapsed (Verify w c share) sys = run_verify T w c share sys"
| "run_task T A key_from elapsed (Drain w c) sys = run_drain T w c sys"
| "run_task T A key_from elapsed (Accumulate w c acc) sys = run_accumulate A w acc sys"
| "run_task T A key_from elapsed (Report w n) sys = run_report elapsed w n sys"
| "run_task T A key_from elapsed (ToLeader g data) sys = run_leader A g data sys"
| "run_task T A key_from elapsed (LeaderGet g) sys = run_leader_get g sys"
| "run_task T A key_from elapsed (ToPublisher data) sys = run_publisher A data sys"
| "run_task T A key_from elapsed PublisherGet sys = run_publisher_get sys"

type_synonym ('s, 't, 'm, 'r, 'fr, 'sp) config_state =
  "('s, 't, 'm, 'r, 'fr, 'sp) system \<times> ('t, 's, 'm) task multiset"

text \<open>A step runs a task, at any time. A task that panics is gone, with everything it would still have done; the processes and the
  other tasks are not affected.\<close>

inductive sys_step ::
    "('r, 'm, 'k, 't, 's, 'x) protocol_ops_scheme \<Rightarrow> ('m, 'p) acc_ops \<Rightarrow> (('fr, 'sp) channel_key_wrapper \<Rightarrow> string + 'k)
     \<Rightarrow> ('s, 't, 'm, 'r, 'fr, 'sp) config_state \<Rightarrow> ('s, 't, 'm, 'r, 'fr, 'sp) config_state \<Rightarrow> bool"
  for T A key_from where
  run: "run_task T A key_from elapsed task sys = Some (tasks, sys') \<Longrightarrow>
        sys_step T A key_from (sys, add_mset task pool) (sys', pool + mset tasks)"
| panic: "run_task T A key_from elapsed task sys = None \<Longrightarrow>
        sys_step T A key_from (sys, add_mset task pool) (sys, pool)"

inductive_cases sys_stepE: "sys_step T A key_from s s'"

text \<open>The start: every client has registered with its shards, and its tokens are on their way to them; a
  worker without clients has sent its empty accumulator.\<close>

type_synonym 't client_plan = "u128 \<times> worker_info list \<times> 't list"

definition plan_worker ::
    "('s, 't, 'm, 'r, 'fr, 'sp) worker_state \<Rightarrow> 't client_plan list \<Rightarrow> worker_info \<Rightarrow> ('s, 't, 'm, 'r, 'fr, 'sp) worker_state" where
  "plan_worker ws0 plan w =
     foldl (\<lambda>ws (c, shards, tokens). if w \<in> set shards then worker_register_client c shards ws else ws) ws0 plan"

definition plan_uploads :: "'t client_plan list \<Rightarrow> ('t, 's, 'm) task list" where
  "plan_uploads plan = concat (map (\<lambda>(c, shards, tokens). map (\<lambda>(w, t). Upload w c t) (zip shards tokens)) plan)"

definition idle_workers :: "worker_info list \<Rightarrow> 't client_plan list \<Rightarrow> worker_info list" where
  "idle_workers workers plan = filter (\<lambda>w. \<forall>(c, shards, tokens) \<in> set plan. w \<notin> set shards) workers"

definition sys_init ::
    "('r, 'm, 'k, 't, 's, 'x) protocol_ops_scheme \<Rightarrow> ('r, 'fr, 'sp) experiment_spec \<Rightarrow> worker_info list \<Rightarrow> 't client_plan list
     \<Rightarrow> ('s, 't, 'm, 'r, 'fr, 'sp) config_state option" where
  "sys_init T e workers plan =
     do { ws0 \<leftarrow> worker_from_experiment T e;
          Some (\<lparr> sys_workers = plan_worker ws0 plan,
                  sys_leaders = (\<lambda>g. leader_from_protocol T (ex_group_size e) (Some ())),
                  sys_publisher = publisher_from_protocol T, sys_result = None \<rparr>,
                mset (plan_uploads plan)
                + mset (map (\<lambda>w. ToLeader (worker_group w) (accumulator_get (ws_accumulator ws0))) (idle_workers workers plan))) }"

section \<open>The log of the throughput\<close>

text \<open>The one division that can panic in a round: of a worker that still waits for clients, after every tenth of them.\<close>

fun log_panics :: "nat option \<Rightarrow> ('t, 's, 'm) task \<Rightarrow> ('s, 't, 'm, 'r, 'fr, 'sp) system \<Rightarrow> bool" where
  "log_panics elapsed (Report w n) sys \<longleftrightarrow>
     (case verify_report n (sys_workers sys w) of ShareVerified clients \<Rightarrow> clients mod 10 = 0 \<and> elapsed = Some 0 | _ \<Rightarrow> False)"
| "log_panics elapsed task sys \<longleftrightarrow> False"

lemma run_report_eq:
  "run_report elapsed w n sys = (if log_panics elapsed (Report w n :: ('t, 's, 'm) task) sys then None
     else Some (case verify_report n (sys_workers sys w) of AllClientsVerified acc \<Rightarrow> [ToLeader (worker_group w) acc] | _ \<Rightarrow> [], sys))"
  for sys :: "('s, 't, 'm, 'r, 'fr, 'sp) system"
  by (cases "verify_report n (sys_workers sys w)"; cases elapsed) (simp_all add: run_report_def log_qps_def rust_assert_def)

lemma run_task_elapsed:
  "run_task T A key_from elapsed task sys = (if log_panics elapsed task sys then None else run_task T A key_from None task sys)"
  by (cases task) (simp_all add: run_report_eq split: verify_status.splits)

text \<open>It is the end of its task: what is left in flight is the same as without it.\<close>

lemma log_panics_last:
  assumes "log_panics elapsed task sys"
  shows "run_task T A key_from None task sys = Some ([], sys)"
  using assms by (cases task) (simp_all add: run_report_eq split: verify_status.splits)

text \<open>So as long as no task panics otherwise, every step runs a task as if the time were not known.\<close>

lemma sys_step_quiet:
  assumes "sys_step T A key_from st st'" and total: "\<And>task. task \<in># snd st \<Longrightarrow> run_task T A key_from None task (fst st) \<noteq> None"
  obtains task sys tasks sys' pool where "st = (sys, add_mset task pool)" "st' = (sys', pool + mset tasks)"
    "run_task T A key_from None task sys = Some (tasks, sys')"
  using assms(1)
proof (cases rule: sys_step.cases)
  case (run elapsed task sys tasks sys' pool)
  then have "run_task T A key_from None task sys = Some (tasks, sys')" using run_task_elapsed[of T A key_from elapsed task sys] by (auto split: if_splits)
  then show ?thesis using that run(1,2) by blast
next
  case (panic elapsed task sys pool)
  have "run_task T A key_from None task sys \<noteq> None" using total panic(1) by simp
  then have "log_panics elapsed task sys" using panic(3) run_task_elapsed[of T A key_from elapsed task sys] by (auto split: if_splits)
  then have "run_task T A key_from None task sys = Some ([], sys)" by (rule log_panics_last)
  moreover have "st' = (sys, pool + mset [])" using panic(2) by simp
  ultimately show ?thesis using that panic(1) by blast
qed

section \<open>Bookkeeping of tasks\<close>

text \<open>The stage of a task.\<close>

fun task_stage :: "('t, 's, 'm) task \<Rightarrow> nat" where
  "task_stage (Upload w c t) = 6"
| "task_stage (Verify w c s) = 5"
| "task_stage (Drain w c) = 4"
| "task_stage (Accumulate w c v) = 3"
| "task_stage (Report w n) = 2"
| "task_stage (ToLeader g v) = 1"
| "task_stage (LeaderGet g) = 0"
| "task_stage (ToPublisher v) = 0"
| "task_stage PublisherGet = 0"

abbreviation stage :: "nat \<Rightarrow> ('t, 's, 'm) task multiset \<Rightarrow> ('t, 's, 'm) task multiset" where
  "stage k pool \<equiv> filter_mset (\<lambda>t. task_stage t = k) pool"

text \<open>The tasks of a set of sources.\<close>

abbreviation tasks_of :: "('i \<Rightarrow> 'a) \<Rightarrow> 'i set \<Rightarrow> 'a multiset" where
  "tasks_of f S \<equiv> image_mset f (mset_set S)"

lemma tasks_of_insert: "finite S \<Longrightarrow> x \<notin> S \<Longrightarrow> tasks_of f (insert x S) = add_mset (f x) (tasks_of f S)"
  by simp

lemma take_task:
  assumes "add_mset task Q = tasks_of f S" "finite S"
  shows "\<exists>x \<in> S. task = f x \<and> Q = tasks_of f (S - {x})"
proof -
  have "task \<in># tasks_of f S" using assms(1) by (metis union_single_eq_member)
  then obtain x where x: "x \<in> S" "task = f x" using assms(2) by auto
  have "tasks_of f S = add_mset (f x) (tasks_of f (S - {x}))"
    using assms(2) x(1) by (metis image_mset_add_mset mset_set.remove)
  then show ?thesis using assms(1) x by auto
qed

lemma take_taskE:
  assumes "add_mset task Q = tasks_of f S" "finite S"
  obtains x where "x \<in> S" "task = f x" "Q = tasks_of f (S - {x})"
  using take_task[OF assms] by blast

lemma mset_zip_tasks:
  assumes "distinct xs" "length xs = length ys"
  shows "mset (map (\<lambda>(x, y). f x y) (zip xs ys)) = tasks_of (\<lambda>x. f x (the (map_of (zip xs ys) x))) (set xs)"
proof -
  have "map (\<lambda>(x, y). f x y) (zip xs ys) = map (\<lambda>x. f x (the (map_of (zip xs ys) x))) xs"
    using assms by (intro nth_equalityI) (simp_all add: map_of_zip_nth)
  then show ?thesis using assms(1) by (simp add: mset_set_set)
qed

lemma tasks_of_sum: "finite S \<Longrightarrow> tasks_of f S = (\<Sum>x\<in>S. {#f x#})"
  by (induction S rule: finite_induct) auto

lemma set_mset_sum: "finite S \<Longrightarrow> set_mset (\<Sum>x\<in>S. F x) = (\<Union>x\<in>S. set_mset (F x))"
  by (induction S rule: finite_induct) auto

text \<open>A bound on the work that is left. A task counts the steps of itself and of what follows it at the worker. What a leader and
  the publisher do with the last share is counted for as long as it has not come in: two steps for each of the groups \<open>G\<close>, and one. A
  step that does not repeat a refused upload decreases the bound.\<close>

fun task_weight :: "nat \<Rightarrow> ('t, 's, 'm) task \<Rightarrow> nat" where
  "task_weight parties (Upload w c t) = 5 * parties + 1"
| "task_weight parties (Verify w c s) = 5"
| "task_weight parties (Drain w c) = 4"
| "task_weight parties (Accumulate w c v) = 3"
| "task_weight parties (Report w n) = 2"
| "task_weight parties (ToLeader g v) = 1"
| "task_weight parties (LeaderGet g) = 2"
| "task_weight parties (ToPublisher v) = 1"
| "task_weight parties PublisherGet = 1"

definition pool_weight :: "nat \<Rightarrow> ('t, 's, 'm) task multiset \<Rightarrow> nat" where
  "pool_weight parties pool = (\<Sum>t\<in>#pool. task_weight parties t)"

definition open_groups :: "group set \<Rightarrow> ('s, 't, 'm, 'r, 'fr, 'sp) system \<Rightarrow> group set" where
  "open_groups G sys = {g \<in> G. acc_count (ml_accumulator (sys_leaders sys g)) < ml_total_workers (sys_leaders sys g)}"

definition open_rounds :: "('s, 't, 'm, 'r, 'fr, 'sp) system \<Rightarrow> nat" where
  "open_rounds sys = (if acc_count (mp_accumulator (sys_publisher sys)) < mp_total_groups (sys_publisher sys) then 1 else 0)"

definition work_left :: "nat \<Rightarrow> group set \<Rightarrow> ('s, 't, 'm, 'r, 'fr, 'sp) config_state \<Rightarrow> nat" where
  "work_left parties G st = pool_weight parties (snd st) + 2 * card (open_groups G (fst st)) + open_rounds (fst st)"

lemma pool_weight_simps [simp]:
  "pool_weight parties {#} = 0" "pool_weight parties (add_mset t pool) = task_weight parties t + pool_weight parties pool"
  "pool_weight parties (pool + pool') = pool_weight parties pool + pool_weight parties pool'"
  by (simp_all add: pool_weight_def)

lemma pool_weight_zip:
  "pool_weight parties (mset (map (\<lambda>(p, s). Verify p c s) (zip ps ss))) = 5 * min (length ps) (length ss)"
  by (induction ps ss rule: list_induct2') auto

lemma work_left_start: "finite G \<Longrightarrow> work_left parties G st \<le> pool_weight parties (snd st) + 2 * card G + 1"
  using card_mono[of G "open_groups G (fst st)"] by (auto simp: work_left_def open_groups_def open_rounds_def)

lemma open_set_worker [simp]: "open_groups G (set_worker w ws sys) = open_groups G sys" "open_rounds (set_worker w ws sys) = open_rounds sys"
  by (simp_all add: open_groups_def open_rounds_def set_worker_def)

lemma aggregate_share_count:
  "aggregate_share A expected d acc = Some (complete, acc') \<Longrightarrow> acc_count acc' = acc_count acc + 1 \<and> (complete \<longleftrightarrow> acc_count acc + 1 = expected)"
  by (auto simp: aggregate_share_def accumulate_def bind_eq_Some_conv split: if_splits)

lemma run_leader_work:
  assumes "run_leader A g d sys = Some (tasks, sys')" "g \<in> G" "finite G"
  shows "work_left parties G (sys', pool + mset tasks) < work_left parties G (sys, add_mset (ToLeader g d) pool)"
proof -
  let ?ml = "sys_leaders sys g"
  obtain complete acc where agg: "aggregate_share A (ml_total_workers ?ml) d (ml_accumulator ?ml) = Some (complete, acc)"
    and out: "tasks = (if complete then [LeaderGet g] else [])" "sys' = sys\<lparr> sys_leaders := (sys_leaders sys)(g := ?ml\<lparr> ml_accumulator := acc \<rparr>) \<rparr>"
    using assms(1) by (auto simp: run_leader_def Let_def bind_eq_Some_conv)
  note cnt = aggregate_share_count[OF agg]
  have same: "open_rounds sys' = open_rounds sys" by (simp add: out open_rounds_def)
  show ?thesis
  proof (cases complete)
    case True
    then have "open_groups G sys = insert g (open_groups G sys')" "g \<notin> open_groups G sys'"
      using cnt assms(2) by (auto simp: open_groups_def out)
    moreover have "finite (open_groups G sys')" using assms(3) by (simp add: open_groups_def)
    ultimately show ?thesis using True out(1) same by (simp add: work_left_def)
  next
    case False
    then have "open_groups G sys = open_groups G sys'" using cnt by (auto simp: open_groups_def out)
    then show ?thesis using False out(1) same by (simp add: work_left_def)
  qed
qed

lemma run_publisher_work:
  assumes "run_publisher A d sys = Some (tasks, sys')"
  shows "work_left parties G (sys', pool + mset tasks) < work_left parties G (sys, add_mset (ToPublisher d) pool)"
proof -
  let ?mp = "sys_publisher sys"
  obtain complete acc where agg: "aggregate_share A (mp_total_groups ?mp) d (mp_accumulator ?mp) = Some (complete, acc)"
    and out: "tasks = (if complete then [PublisherGet] else [])" "sys' = sys\<lparr> sys_publisher := ?mp\<lparr> mp_accumulator := acc \<rparr> \<rparr>"
    using assms by (auto simp: run_publisher_def Let_def bind_eq_Some_conv)
  have "open_groups G sys' = open_groups G sys" by (simp add: out open_groups_def)
  then show ?thesis using aggregate_share_count[OF agg] out by (auto simp: work_left_def open_rounds_def)
qed

text \<open>The tasks of a worker change nothing but that worker.\<close>

lemma worker_task_weight:
  assumes run: "run_task T A key_from None task sys = Some (tasks, sys')" and stage: "2 \<le> task_stage task"
    and peers: "\<And>w c t. task = Upload w c t \<Longrightarrow>
      \<exists>ps. map_of (cr_peers (ws_client_registry (sys_workers sys w))) c = Some ps \<and> length ps \<le> parties"
  shows "pool_weight parties (mset tasks) < task_weight parties task \<and> (\<exists>w ws. sys' = set_worker w ws sys)"
proof (cases task)
  case (Upload w c token)
  then obtain ps where "map_of (cr_peers (ws_client_registry (sys_workers sys w))) c = Some ps" "length ps \<le> parties"
    using peers by blast
  moreover then obtain ss ws where "tasks = map (\<lambda>(p, s). Verify p c s) (zip ps ss)" "sys' = set_worker w ws sys"
    using run Upload by (auto simp: run_upload_def registry_get_peers_def bind_eq_Some_conv)
  ultimately show ?thesis using Upload by (auto simp: pool_weight_zip simp del: mset_map)
next
  case (Verify w c share)
  then show ?thesis using run by (auto simp: run_verify_def Let_def split: prod.splits if_splits)
next
  case (Drain w c)
  then obtain x :: "crate_error + _" where "tasks = (case x of Inl err \<Rightarrow> [] | Inr acc \<Rightarrow> [Accumulate w c acc])" "\<exists>ws. sys' = set_worker w ws sys"
    using run by (auto simp: run_drain_def bind_eq_Some_conv)
  then show ?thesis using Drain by (cases x) auto
next
  case (Accumulate w c v)
  then show ?thesis using run by (auto simp: run_accumulate_def bind_eq_Some_conv)
next
  case (Report w n)
  have "sys = set_worker w (sys_workers sys w) sys" by (simp add: set_worker_def)
  then show ?thesis using run Report by (auto simp: run_report_eq split: verify_status.splits if_splits)
qed (use stage in simp_all)

lemma run_task_work:
  assumes run: "run_task T A key_from None task sys = Some (tasks, sys')"
    and peers: "\<And>w c t. task = Upload w c t \<Longrightarrow>
      \<exists>ps. map_of (cr_peers (ws_client_registry (sys_workers sys w))) c = Some ps \<and> length ps \<le> parties"
    and G: "\<And>g d. task = ToLeader g d \<Longrightarrow> g \<in> G" "finite G"
  shows "work_left parties G (sys', pool + mset tasks) < work_left parties G (sys, add_mset task pool)"
proof (cases "2 \<le> task_stage task")
  case True
  have "pool_weight parties (mset tasks) < task_weight parties task \<and> (\<exists>w ws. sys' = set_worker w ws sys)"
    by (rule worker_task_weight[OF run True]) (rule peers)
  then show ?thesis by (auto simp: work_left_def)
next
  case False
  then show ?thesis
  proof (cases task)
    case (ToLeader g d)
    then show ?thesis using run G run_leader_work[of A g d sys tasks sys' G] by simp
  next
    case (LeaderGet g)
    then show ?thesis using run by (auto simp: run_leader_get_def work_left_def)
  next
    case (ToPublisher d)
    then show ?thesis using run run_publisher_work[of A d sys tasks sys'] by simp
  next
    case PublisherGet
    then show ?thesis using run by (auto simp: run_publisher_get_def work_left_def open_groups_def open_rounds_def)
  qed simp_all
qed

text \<open>How much a task puts in flight.\<close>

lemma run_task_length:
  assumes run: "run_task T A key_from None task sys = Some (tasks, sys')"
    and peers: "\<And>w c t. task = Upload w c t \<Longrightarrow>
      \<exists>ps. map_of (cr_peers (ws_client_registry (sys_workers sys w))) c = Some ps \<and> length ps \<le> parties"
  shows "length tasks \<le> parties + 1"
proof (cases task)
  case (Upload w c token)
  then obtain ps where "map_of (cr_peers (ws_client_registry (sys_workers sys w))) c = Some ps" "length ps \<le> parties"
    using peers by blast
  moreover then obtain ss where "tasks = map (\<lambda>(p, s). Verify p c s) (zip ps ss)"
    using run Upload by (auto simp: run_upload_def registry_get_peers_def bind_eq_Some_conv)
  ultimately show ?thesis by simp
next
  case (Verify w c share)
  then show ?thesis using run by (auto simp: run_verify_def Let_def split: prod.splits if_splits)
next
  case (Drain w c)
  then obtain x :: "crate_error + _" where "tasks = (case x of Inl err \<Rightarrow> [] | Inr acc \<Rightarrow> [Accumulate w c acc])"
    using run by (auto simp: run_drain_def bind_eq_Some_conv)
  then show ?thesis by (cases x) auto
next
  case (Accumulate w c v)
  then show ?thesis using run by (auto simp: run_accumulate_def bind_eq_Some_conv)
next
  case (Report w n)
  then show ?thesis using run by (auto simp: run_report_eq split: verify_status.splits if_splits)
qed (use run in \<open>auto simp: run_leader_def run_leader_get_def run_publisher_def run_publisher_get_def Let_def bind_eq_Some_conv split: if_splits\<close>)

section \<open>Verification in one step\<close>

text \<open>The pieces of \<open>verify\<close>, run without anything in between, are \<open>worker_verify\<close>.\<close>

lemma run_once:
  "run_task T A key_from None task sys = Some (tasks, sys') \<Longrightarrow> (sys_step T A key_from)\<^sup>*\<^sup>* (sys', pool + mset tasks) st \<Longrightarrow>
   (sys_step T A key_from)\<^sup>*\<^sup>* (sys, add_mset task pool) st"
  by (meson converse_rtranclp_into_rtranclp sys_step.run)

lemma worker_verify_steps:
  assumes "worker_verify T A c s (sys_workers sys w) = Some (res, ws')"
  shows "(sys_step T A key_from)\<^sup>*\<^sup>* (sys, add_mset (Verify w c s) pool)
    (set_worker w ws' sys, pool + (case res of Inr (AllClientsVerified acc) \<Rightarrow> {#ToLeader (worker_group w) acc#} | _ \<Rightarrow> {#}))"
proof -
  obtain n ws1 where add: "verify_add c s (sys_workers sys w) = (n, ws1)" by fastforce
  show ?thesis
  proof (cases "n < proto_num_parties T")
    case True
    then have res: "res = Inr AwaitingShares" "ws' = ws1" using assms add by (simp_all add: worker_verify_def)
    have run: "run_task T A key_from None (Verify w c s) sys = Some ([], set_worker w ws1 sys)" using True add by (simp add: run_verify_def)
    show ?thesis unfolding res by (rule run_once[OF run]) simp
  next
    case False
    obtain b token ws2 expanded where run: "verify_drain T c ws1 = Some ((b, token), ws2)" "verify_expand T token = Some expanded"
      using assms add False by (auto simp: worker_verify_def bind_eq_Some_conv)
    have st: "run_task T A key_from None (Verify w c s) sys = Some ([Drain w c], set_worker w ws1 sys)"
      "run_task T A key_from None (Drain w c) (set_worker w ws1 sys)
        = Some (case expanded of Inl err \<Rightarrow> [] | Inr acc \<Rightarrow> [Accumulate w c acc], set_worker w ws2 sys)"
      using add False run by (simp_all add: run_verify_def run_drain_def set_worker_def)
    show ?thesis
    proof (cases expanded)
      case (Inl err)
      then have res: "res = Inl err" "ws' = ws2" using assms add False run by (simp_all add: worker_verify_def)
      show ?thesis by (rule run_once[OF st(1)], simp, rule run_once[OF st(2)]) (simp add: Inl res)
    next
      case (Inr acc)
      then obtain m ws3 where acc: "verify_accumulate A acc ws2 = Some (m, ws3)" and res: "res = Inr (verify_report m ws3)" "ws' = ws3"
        using assms add False run by (auto simp: worker_verify_def bind_eq_Some_conv)
      have st3: "run_task T A key_from None (Accumulate w c acc) (set_worker w ws2 sys) = Some ([Report w m], set_worker w ws3 sys)"
        using acc by (simp add: run_accumulate_def set_worker_def)
      have st4: "run_task T A key_from None (Report w m) (set_worker w ws3 sys)
          = Some (case verify_report m ws3 of AllClientsVerified a \<Rightarrow> [ToLeader (worker_group w) a] | _ \<Rightarrow> [], set_worker w ws3 sys)"
        by (simp add: run_report_eq set_worker_def split: verify_status.splits)
      show ?thesis
        by (rule run_once[OF st(1)], simp, rule run_once[OF st(2)], simp add: Inr, rule run_once[OF st3], simp, rule run_once[OF st4])
          (simp add: res split: verify_status.splits)
    qed
  qed
qed

end
