(* ===== verification/Rounds.thy ===== *)
theory Rounds
  imports System
begin

text \<open>
  A whole round in the system: the invariant of all interleavings, by layers (shares collected at the workers,
  tokens accumulated there, sums aggregated by the leaders and by the publisher), and its preservation by
  every task. It gives which tasks can panic, that every execution ends, and what the publisher then holds.
\<close>

section \<open>Rounds\<close>

text \<open>A round with a plan: every client has a shard in each of as many workers as there are parties, and a
  token for each. The assumptions on tokens and audits are what a protocol promises of honest clients.\<close>

locale round_system = comm_monoid_laws VM vvalid
  for VM :: "'m list monoid_ops" and vvalid :: "'m list \<Rightarrow> bool" +
  fixes T :: "('r, 'm, 'k, 't, 's) protocol_ops" and A :: "('m, 'p) acc_ops"
    and key_from :: "('fr, 'sp) channel_key_wrapper \<Rightarrow> string + 'k" and e :: "('r, 'fr, 'sp) experiment_spec"
    and keys :: "'k list" and workers :: "worker_info list" and groups :: "group list"
    and plan :: "'t client_plan list" and out :: "'t \<Rightarrow> 'm list"
  assumes combine: "vvalid a \<Longrightarrow> vvalid b \<Longrightarrow> acc_combine (vec_acc A) a b = Some (m_add VM a b)"
    and new_accumulator: "proto_new_accumulator T = m_zero VM"
    and keys_ok: "collect_result key_from (ex_keys e) = Inr keys"
    and not_hammer: "\<not> ex_hammer e"
    and groups_ok: "experiment_groups e \<noteq> None" "distinct groups" "length groups = proto_num_parties T" "groups \<noteq> []"
    and workers_ok: "distinct workers" "\<And>w. w \<in> set workers \<Longrightarrow> worker_group w \<in> set groups"
    and group_size: "\<And>g. g \<in> set groups \<Longrightarrow> card {w \<in> set workers. worker_group w = g} = unat (ex_group_size e)"
      "0 < unat (ex_group_size e)"
    and plan_distinct: "distinct (map fst plan)"
    and plan_shards: "\<And>c shards tokens. (c, shards, tokens) \<in> set plan \<Longrightarrow> distinct shards \<and> set shards \<subseteq> set workers
      \<and> length shards = proto_num_parties T \<and> length tokens = proto_num_parties T"
    and plan_tokens: "\<And>c shards tokens t. (c, shards, tokens) \<in> set plan \<Longrightarrow> t \<in> set tokens \<Longrightarrow>
      (\<exists>ss. proto_gen_audit T keys t = Some ss \<and> length ss = proto_num_parties T)
      \<and> proto_to_accumulator T t = Some (out t) \<and> vvalid (out t) \<and> length (out t) = proto_num_channels T"
    and check_total: "\<And>ss. length ss = proto_num_parties T \<Longrightarrow> \<exists>b. proto_check_audit T ss = Some b"
begin

definition clients :: "u128 set" where
  "clients = fst ` set plan"

definition sh :: "u128 \<Rightarrow> worker_info list" where
  "sh c = fst (the (map_of plan c))"

definition tk :: "u128 \<Rightarrow> 't list" where
  "tk c = snd (the (map_of plan c))"

definition tokw :: "worker_info \<Rightarrow> u128 \<Rightarrow> 't" where
  "tokw w c = the (map_of (zip (sh c) (tk c)) w)"

definition val :: "worker_info \<Rightarrow> u128 \<Rightarrow> 'm list" where
  "val w c = out (tokw w c)"

definition clients_of :: "worker_info \<Rightarrow> u128 set" where
  "clients_of w = {c \<in> clients. w \<in> set (sh c)}"

definition share_to :: "worker_info \<Rightarrow> worker_info \<Rightarrow> u128 \<Rightarrow> 's" where
  "share_to p w c = the (map_of (zip (sh c) (the (proto_gen_audit T keys (tokw p c)))) w)"

definition full :: "worker_info \<Rightarrow> 'm list" where
  "full w = msum (tasks_of (val w) (clients_of w))"

definition gsum :: "group \<Rightarrow> 'm list" where
  "gsum g = msum (tasks_of full {w \<in> set workers. worker_group w = g})"

lemma plan_mem: "c \<in> clients \<Longrightarrow> (c, sh c, tk c) \<in> set plan"
proof -
  assume "c \<in> clients"
  then obtain x where "map_of plan c = Some x" by (metis clients_def map_of_eq_None_iff not_None_eq)
  then show ?thesis using map_of_SomeD[of plan c x] by (cases x) (simp add: sh_def tk_def)
qed

lemma sh_ok:
  assumes "c \<in> clients"
  shows "distinct (sh c)" "set (sh c) \<subseteq> set workers" "length (sh c) = proto_num_parties T" "length (tk c) = proto_num_parties T"
    "card (set (sh c)) = proto_num_parties T"
  using plan_shards[OF plan_mem[OF assms]] by (auto simp: distinct_card)

lemma tokw_mem: "c \<in> clients \<Longrightarrow> w \<in> set (sh c) \<Longrightarrow> tokw w c \<in> set (tk c)"
proof -
  assume c: "c \<in> clients" and w: "w \<in> set (sh c)"
  have "map_of (zip (sh c) (tk c)) w \<noteq> None" using w sh_ok[OF c] by (simp add: map_of_zip_is_None)
  then obtain t where "map_of (zip (sh c) (tk c)) w = Some t" by blast
  then show ?thesis using map_of_SomeD[of "zip (sh c) (tk c)" w t] by (auto simp: tokw_def dest: set_zip_rightD)
qed

lemma tokw_ok:
  assumes "c \<in> clients" "w \<in> set (sh c)"
  shows "\<exists>ss. proto_gen_audit T keys (tokw w c) = Some ss \<and> length ss = proto_num_parties T"
    "proto_to_accumulator T (tokw w c) = Some (val w c)" "vvalid (val w c)" "length (val w c) = proto_num_channels T"
  using plan_tokens[OF plan_mem[OF assms(1)] tokw_mem[OF assms]] by (auto simp: val_def)

lemma finite_clients [simp]: "finite clients" "finite (clients_of w)"
  by (simp_all add: clients_def clients_of_def)

lemma val_valid: "c \<in> clients_of w \<Longrightarrow> vvalid (val w c)"
  using tokw_ok(3) by (simp add: clients_of_def)

lemma full_valid: "vvalid (full w)"
  unfolding full_def using val_valid by (intro msum_valid) auto

lemma gsum_valid: "vvalid (gsum g)"
  unfolding gsum_def using full_valid by (intro msum_valid) auto

text \<open>The whole sum, by groups and by clients.\<close>

lemma grand_total:
  "msum (tasks_of gsum (set groups)) = msum (\<Sum>c\<in>clients. image_mset out (mset (tk c)))"
proof -
  let ?W = "\<lambda>g. {w \<in> set workers. worker_group w = g}"
  have gsum: "gsum g = msum (\<Sum>w\<in>?W g. tasks_of (val w) (clients_of w))" for g
  proof -
    have "gsum g = msum (image_mset (\<lambda>w. msum (tasks_of (val w) (clients_of w))) (mset_set (?W g)))"
      by (simp add: gsum_def full_def[abs_def])
    also have "\<dots> = msum (\<Sum>w\<in>#mset_set (?W g). tasks_of (val w) (clients_of w))"
      using val_valid by (intro msum_nested) auto
    finally show ?thesis by (simp add: sum_unfold_sum_mset)
  qed
  have "msum (tasks_of gsum (set groups))
      = msum (image_mset (\<lambda>g. msum (\<Sum>w\<in>?W g. tasks_of (val w) (clients_of w))) (mset_set (set groups)))"
    by (simp add: gsum cong: image_mset_cong)
  also have "\<dots> = msum (\<Sum>g\<in>#mset_set (set groups). \<Sum>w\<in>?W g. tasks_of (val w) (clients_of w))"
    using val_valid by (intro msum_nested) (auto simp: set_mset_sum)
  also have "(\<Sum>g\<in>#mset_set (set groups). \<Sum>w\<in>?W g. tasks_of (val w) (clients_of w))
      = (\<Sum>g\<in>set groups. \<Sum>w\<in>?W g. tasks_of (val w) (clients_of w))"
    by (simp add: sum_unfold_sum_mset)
  also have "\<dots> = (\<Sum>w\<in>set workers. tasks_of (val w) (clients_of w))"
    using workers_ok(2) by (intro sum.group) auto
  also have "\<dots> = (\<Sum>w\<in>set workers. \<Sum>c | c \<in> clients \<and> w \<in> set (sh c). {#val w c#})"
    by (simp add: tasks_of_sum clients_of_def)
  also have "\<dots> = (\<Sum>c\<in>clients. \<Sum>w | w \<in> set workers \<and> w \<in> set (sh c). {#val w c#})"
    by (rule sum.swap_restrict) auto
  also have "\<dots> = (\<Sum>c\<in>clients. image_mset out (mset (tk c)))"
  proof (rule sum.cong[OF refl])
    fix c
    assume c: "c \<in> clients"
    have "{w. w \<in> set workers \<and> w \<in> set (sh c)} = set (sh c)" using sh_ok(2)[OF c] by auto
    then have "(\<Sum>w | w \<in> set workers \<and> w \<in> set (sh c). {#val w c#}) = tasks_of (\<lambda>w. val w c) (set (sh c))"
      by (simp add: tasks_of_sum)
    also have "\<dots> = mset (map (\<lambda>(w, t). out t) (zip (sh c) (tk c)))"
      using mset_zip_tasks[of "sh c" "tk c" "\<lambda>w t. out t"] sh_ok[OF c] by (simp add: val_def tokw_def)
    also have "map (\<lambda>(w, t). out t) (zip (sh c) (tk c)) = map out (map snd (zip (sh c) (tk c)))" by auto
    also have "map snd (zip (sh c) (tk c)) = tk c" using sh_ok[OF c] by simp
    finally show "(\<Sum>w | w \<in> set workers \<and> w \<in> set (sh c). {#val w c#}) = image_mset out (mset (tk c))" by simp
  qed
  finally show ?thesis .
qed

end

subsection \<open>The invariant\<close>

context round_system
begin

text \<open>What a worker never changes.\<close>

definition config_ok :: "('s, 't, 'm, 'r, 'fr, 'sp) system \<Rightarrow> bool" where
  "config_ok sys \<longleftrightarrow>
     (\<forall>w. ws_experiment (sys_workers sys w) = e
       \<and> registry_num_clients (ws_client_registry (sys_workers sys w)) = card (clients_of w)
       \<and> (\<forall>c \<in> clients_of w. map_of (cr_peers (ws_client_registry (sys_workers sys w))) c = Some (sh c)))
     \<and> (\<forall>g. ml_total_workers (sys_leaders sys g) = unat (ex_group_size e))
     \<and> mp_total_groups (sys_publisher sys) = proto_num_parties T"

text \<open>The shares that have arrived at \<open>w\<close> for the client \<open>c\<close>, by sender: \<open>up\<close> are the uploads and \<open>vp\<close> the
  shares still in flight.\<close>

definition arrived ::
    "(worker_info \<times> u128) set \<Rightarrow> (worker_info \<times> worker_info \<times> u128) set \<Rightarrow> worker_info \<Rightarrow> u128 \<Rightarrow> worker_info set" where
  "arrived up vp w c = {p \<in> set (sh c). (p, c) \<notin> up \<and> (p, w, c) \<notin> vp}"

text \<open>What a worker holds for a client, given whether the upload is in flight, the client about to be drained, or
  drained.\<close>

definition entry_ok :: "bool \<Rightarrow> bool \<Rightarrow> bool \<Rightarrow> worker_info set \<Rightarrow> worker_info \<Rightarrow> u128 \<Rightarrow> 't option \<times> 's list \<Rightarrow> bool" where
  "entry_ok in_up in_dr in_fin ps w c en \<longleftrightarrow>
     (if in_fin then ps = set (sh c) \<and> en = (None, [])
      else length (snd en) = card ps \<and> fst en = (if in_up then None else Some (tokw w c)) \<and> (in_dr \<longleftrightarrow> ps = set (sh c)))"

text \<open>Collecting shares: \<open>dr\<close> are the clients about to be drained and \<open>fin\<close> those that have been.\<close>

definition collecting where
  "collecting up vp dr fin entry q6 q5 q4 \<longleftrightarrow>
     up \<subseteq> {(w, c). c \<in> clients_of w}
   \<and> vp \<subseteq> {(p, w, c). c \<in> clients_of p \<and> c \<in> clients_of w \<and> (p, c) \<notin> up}
   \<and> dr \<subseteq> {(w, c). c \<in> clients_of w} \<and> dr \<inter> fin = {}
   \<and> (q6 :: ('t, 's, 'm) task multiset) = tasks_of (\<lambda>(w, c). Upload w c (tokw w c)) up
   \<and> (q5 :: ('t, 's, 'm) task multiset) = tasks_of (\<lambda>(p, w, c). Verify w c (share_to p w c)) vp
   \<and> (q4 :: ('t, 's, 'm) task multiset) = tasks_of (\<lambda>(w, c). Drain w c) dr
   \<and> (\<forall>w. \<forall>c \<in> clients_of w.
        entry_ok ((w, c) \<in> up) ((w, c) \<in> dr) ((w, c) \<in> fin) (arrived up vp w c) w c (entry w c))"

text \<open>Accumulating at the workers: \<open>ex\<close> are the expanded tokens in flight, \<open>dn\<close> those accumulated, \<open>rp\<close> the
  workers about to report and \<open>fw\<close> those that have.\<close>

definition accumulating where
  "accumulating ex dn rp fw acc q3 q2 \<longleftrightarrow>
     ex \<subseteq> {(w, c). c \<in> clients_of w} \<and> dn \<subseteq> {(w, c). c \<in> clients_of w} \<and> ex \<inter> dn = {}
   \<and> (q3 :: ('t, 's, 'm) task multiset) = tasks_of (\<lambda>(w, c). Accumulate w c (val w c)) ex
   \<and> (\<forall>w. acc_count (acc w) = card {c. (w, c) \<in> dn} \<and> acc_state (acc w) = msum (tasks_of (val w) {c. (w, c) \<in> dn}))
   \<and> (\<forall>t. t \<in># (q2 :: ('t, 's, 'm) task multiset) \<longrightarrow> (\<exists>w n. t = Report w n \<and> w \<in> set workers \<and> n \<le> card (clients_of w)))
   \<and> (\<forall>w. count q2 (Report w (card (clients_of w))) = (if w \<in> rp then 1 else 0))
   \<and> rp \<inter> fw = {}
   \<and> (\<forall>w. w \<in> rp \<union> fw \<longleftrightarrow> w \<in> set workers \<and> {c. (w, c) \<in> dn} = clients_of w)"

text \<open>Aggregating: \<open>lw\<close> are the workers whose sum is on its way to the leader, \<open>ag\<close> those aggregated. \<open>gl\<close> are the groups
  whose leader is about to get the sum, \<open>pg\<close> those whose sum is on its way to the publisher, \<open>ap\<close> those aggregated; \<open>gp\<close> is
  whether the publisher is about to get the result.\<close>

definition leading where
  "leading lw ag pf leaders q1 \<longleftrightarrow>
     lw \<subseteq> set workers \<and> ag \<subseteq> set workers \<and> lw \<inter> ag = {}
   \<and> (q1 :: ('t, 's, 'm) task multiset) = tasks_of (\<lambda>w. ToLeader (worker_group w) (full w)) lw
   \<and> (\<forall>g. acc_count (ml_accumulator (leaders g)) = card {w \<in> ag. worker_group w = g}
        \<and> acc_state (ml_accumulator (leaders g)) = msum (tasks_of full {w \<in> ag. worker_group w = g}))
   \<and> (\<forall>g. g \<in> pf \<longleftrightarrow> g \<in> set groups \<and> {w \<in> ag. worker_group w = g} = {w \<in> set workers. worker_group w = g})"

definition publishing where
  "publishing gl pg ap gp pub res q0 \<longleftrightarrow>
     gl \<union> pg \<union> ap \<subseteq> set groups \<and> gl \<inter> pg = {} \<and> gl \<inter> ap = {} \<and> pg \<inter> ap = {} \<and> (gp \<longrightarrow> ap = set groups)
   \<and> (q0 :: ('t, 's, 'm) task multiset)
       = tasks_of LeaderGet gl + tasks_of (\<lambda>g. ToPublisher (gsum g)) pg + (if gp then {#PublisherGet#} else {#})
   \<and> acc_count (mp_accumulator pub) = card ap \<and> acc_state (mp_accumulator pub) = msum (tasks_of gsum ap)
   \<and> res = (if ap = set groups \<and> \<not> gp then Some (msum (tasks_of gsum (set groups))) else None)"

definition sys_inv :: "('s, 't, 'm, 'r, 'fr, 'sp) config_state \<Rightarrow> bool" where
  "sys_inv st \<longleftrightarrow> (case st of (sys, pool) \<Rightarrow> config_ok sys \<and>
     (\<exists>up vp dr ex dn rp lw ag gl pg ap gp.
        collecting up vp dr (ex \<union> dn) (\<lambda>w. worker_entry (sys_workers sys w)) (stage 6 pool) (stage 5 pool) (stage 4 pool)
      \<and> accumulating ex dn rp (lw \<union> ag) (\<lambda>w. ws_accumulator (sys_workers sys w)) (stage 3 pool) (stage 2 pool)
      \<and> leading lw ag (gl \<union> pg \<union> ap) (sys_leaders sys) (stage 1 pool)
      \<and> publishing gl pg ap gp (sys_publisher sys) (sys_result sys) (stage 0 pool)))"

text \<open>A task runs and keeps the invariant.\<close>

definition runs_ok :: "('t, 's, 'm) task \<Rightarrow> ('s, 't, 'm, 'r, 'fr, 'sp) system \<Rightarrow> ('t, 's, 'm) task multiset \<Rightarrow> bool" where
  "runs_ok task sys pool \<longleftrightarrow>
     (\<exists>tasks sys'. run_task T A key_from None task sys = Some (tasks, sys') \<and> sys_inv (sys', pool + mset tasks))"

lemma clients_of_worker: "c \<in> clients_of w \<Longrightarrow> c \<in> clients \<and> w \<in> set (sh c) \<and> w \<in> set workers"
  using sh_ok(2) by (auto simp: clients_of_def)

lemma finite_pairs: "S \<subseteq> {(w, c). c \<in> clients_of w} \<Longrightarrow> finite S"
  by (rule finite_subset[of _ "set workers \<times> clients"]) (auto dest: clients_of_worker)

lemma finite_triples: "S \<subseteq> {(p, w, c). c \<in> clients_of p \<and> c \<in> clients_of w \<and> Q p w c} \<Longrightarrow> finite S"
  by (rule finite_subset[of _ "set workers \<times> set workers \<times> clients"]) (auto dest: clients_of_worker)

lemma accumulate_ok:
  assumes "vvalid (acc_state acc)" "vvalid v"
  shows "accumulate (vec_acc A) v acc = Some (acc_count acc + 1, \<lparr> acc_state = m_add VM (acc_state acc) v, acc_count = acc_count acc + 1 \<rparr>)"
  using combine[OF assms] by (simp add: accumulate_def)

lemma aggregate_ok:
  assumes "vvalid (acc_state acc)" "vvalid v"
  shows "aggregate_share A expected v acc =
    Some (acc_count acc + 1 = expected, \<lparr> acc_state = m_add VM (acc_state acc) v, acc_count = acc_count acc + 1 \<rparr>)"
  using accumulate_ok[OF assms] by (auto simp: aggregate_share_def)

end

subsection \<open>The layers, step by step\<close>

context round_system
begin

lemma publishing_finite: "publishing gl pg ap gp pub res q0 \<Longrightarrow> finite gl \<and> finite pg \<and> finite ap"
  by (auto simp: publishing_def intro: finite_subset)

lemma publishing_insert:
  assumes "publishing gl pg ap gp pub res q0" "g \<in> set groups" "g \<notin> gl \<union> pg \<union> ap"
  shows "publishing (insert g gl) pg ap gp pub res (add_mset (LeaderGet g) q0)"
  using publishing_finite[OF assms(1)] assms by (auto simp: publishing_def)

text \<open>One kind of task among several.\<close>

lemma take_among:
  fixes f :: "'i \<Rightarrow> ('t, 's, 'm) task"
  assumes "add_mset task Q = tasks_of f S + R" "finite S" "task \<notin># R"
  obtains x where "x \<in> S" "task = f x" "Q = tasks_of f (S - {x}) + R"
proof -
  have "task \<in># tasks_of f S" using assms(1,3) by (metis union_iff union_single_eq_member)
  then obtain Q' where Q': "tasks_of f S = add_mset task Q'" by (metis mset_add)
  from take_task[OF Q'[symmetric] assms(2)] obtain x where "x \<in> S" "task = f x" "Q' = tasks_of f (S - {x})" by blast
  moreover have "Q = Q' + R" using assms(1) unfolding Q' by simp
  ultimately show thesis using that by blast
qed

lemma publishing_leader_get:
  assumes "publishing gl pg ap gp pub res (add_mset (LeaderGet g) q0)"
  shows "g \<in> gl" "publishing (gl - {g}) (insert g pg) ap gp pub res (add_mset (ToPublisher (gsum g)) q0)"
proof -
  let ?R = "tasks_of (\<lambda>g. ToPublisher (gsum g)) pg + (if gp then {#PublisherGet#} else {#}) :: ('t, 's, 'm) task multiset"
  note fin = publishing_finite[OF assms]
  have "add_mset (LeaderGet g) q0 = tasks_of LeaderGet gl + ?R" using assms by (simp add: publishing_def ac_simps)
  then obtain x where "x \<in> gl" "LeaderGet g = (LeaderGet x :: ('t, 's, 'm) task)" "q0 = tasks_of LeaderGet (gl - {x}) + ?R"
    using fin by (elim take_among) (auto split: if_splits)
  then have g: "g \<in> gl" "q0 = tasks_of LeaderGet (gl - {g}) + ?R" by simp_all
  then show "g \<in> gl" by simp
  have "gl \<inter> pg = {}" using assms unfolding publishing_def by blast
  then have "g \<notin> pg" using g(1) by auto
  then show "publishing (gl - {g}) (insert g pg) ap gp pub res (add_mset (ToPublisher (gsum g)) q0)"
    using assms fin g by (auto simp: publishing_def)
qed

lemma publishing_receive:
  assumes "publishing gl pg ap gp pub res (add_mset (ToPublisher d) q0)"
  shows "\<exists>g \<in> pg. g \<notin> ap \<and> d = gsum g \<and> vvalid (acc_state (mp_accumulator pub))
    \<and> publishing gl (pg - {g}) (insert g ap) (acc_count (mp_accumulator pub) + 1 = proto_num_parties T)
        (pub\<lparr> mp_accumulator := \<lparr> acc_state = m_add VM (acc_state (mp_accumulator pub)) d,
                                 acc_count = acc_count (mp_accumulator pub) + 1 \<rparr> \<rparr>)
        res (if acc_count (mp_accumulator pub) + 1 = proto_num_parties T then add_mset PublisherGet q0 else q0)"
proof -
  let ?R = "tasks_of LeaderGet gl + (if gp then {#PublisherGet#} else {#}) :: ('t, 's, 'm) task multiset"
  note fin = publishing_finite[OF assms]
  have sets: "gl \<union> pg \<union> ap \<subseteq> set groups" "gl \<inter> pg = {}" "gl \<inter> ap = {}" "pg \<inter> ap = {}" "gp \<longrightarrow> ap = set groups"
    using assms unfolding publishing_def by blast+
  have "add_mset (ToPublisher d) q0 = tasks_of (\<lambda>g. ToPublisher (gsum g)) pg + ?R" using assms by (simp add: publishing_def ac_simps)
  then obtain g where g: "g \<in> pg" "ToPublisher d = (ToPublisher (gsum g) :: ('t, 's, 'm) task)"
      "q0 = tasks_of (\<lambda>g. ToPublisher (gsum g)) (pg - {g}) + ?R"
    using fin by (elim take_among) (auto split: if_splits)
  have st: "acc_count (mp_accumulator pub) = card ap" "acc_state (mp_accumulator pub) = msum (tasks_of gsum ap)"
    "res = (if ap = set groups \<and> \<not> gp then Some (msum (tasks_of gsum (set groups))) else None)"
    using assms by (simp_all add: publishing_def)
  have notin: "g \<notin> ap" using g(1) sets(4) by auto
  have state: "msum (tasks_of gsum (insert g ap)) = m_add VM (msum (tasks_of gsum ap)) (gsum g)"
    using notin fin msum_add_mset[of "gsum g" "tasks_of gsum ap"] gsum_valid by auto
  have total: "card ap + 1 = proto_num_parties T \<longleftrightarrow> insert g ap = set groups"
  proof -
    have "card (set groups) = proto_num_parties T" using groups_ok(2,3) by (simp add: distinct_card)
    moreover have "card (insert g ap) = card ap + 1" using notin fin by simp
    moreover have "insert g ap \<subseteq> set groups" using g(1) sets(1) by auto
    ultimately show ?thesis using card_subset_eq[of "set groups" "insert g ap"] by auto
  qed
  have "ap \<noteq> set groups" using g(1) sets(1) notin by auto
  then have res: "res = None" "\<not> gp" using st(3) sets(5) by simp_all
  have "vvalid (msum (tasks_of gsum ap))" using gsum_valid by (intro msum_valid) auto
  moreover have "publishing gl (pg - {g}) (insert g ap) (insert g ap = set groups)
      (pub\<lparr> mp_accumulator := \<lparr> acc_state = m_add VM (msum (tasks_of gsum ap)) d, acc_count = card ap + 1 \<rparr> \<rparr>)
      res (if insert g ap = set groups then add_mset PublisherGet q0 else q0)"
    using g notin state res fin sets by (auto simp: publishing_def)
  ultimately show ?thesis
    using g notin st(1,2) total by (intro bexI[of _ g]) simp_all
qed

lemma publishing_get:
  assumes "publishing gl pg ap gp pub res (add_mset PublisherGet q0)"
  shows "publishing gl pg ap False pub (Some (acc_state (mp_accumulator pub))) q0"
proof -
  have "PublisherGet \<notin># (tasks_of LeaderGet gl + tasks_of (\<lambda>g. ToPublisher (gsum g)) pg :: ('t, 's, 'm) task multiset)"
    using publishing_finite[OF assms] by auto
  moreover have pool: "add_mset PublisherGet q0
      = tasks_of LeaderGet gl + tasks_of (\<lambda>g. ToPublisher (gsum g)) pg + (if gp then {#PublisherGet#} else {#})"
    using assms unfolding publishing_def by blast
  ultimately have gp using union_single_eq_member[of PublisherGet q0] by (auto split: if_splits)
  then have "ap = set groups" "q0 = tasks_of LeaderGet gl + tasks_of (\<lambda>g. ToPublisher (gsum g)) pg"
    using assms pool unfolding publishing_def by simp_all
  then show ?thesis using assms unfolding publishing_def by simp
qed

lemma leading_insert:
  assumes "leading lw ag pf leaders q1" "w \<in> set workers" "w \<notin> lw \<union> ag"
  shows "leading (insert w lw) ag pf leaders (add_mset (ToLeader (worker_group w) (full w)) q1)"
proof -
  have "finite lw" using assms(1) by (auto simp: leading_def intro: finite_subset)
  then show ?thesis using assms by (auto simp: leading_def)
qed

lemma leading_receive:
  assumes "leading lw ag pf leaders (add_mset (ToLeader g d) q1)"
  shows "\<exists>w \<in> lw. w \<notin> ag \<and> g = worker_group w \<and> d = full w \<and> g \<in> set groups \<and> g \<notin> pf
    \<and> vvalid (acc_state (ml_accumulator (leaders g)))
    \<and> (acc_count (ml_accumulator (leaders g)) + 1 = unat (ex_group_size e) \<longrightarrow>
        m_add VM (acc_state (ml_accumulator (leaders g))) d = gsum g)
    \<and> leading (lw - {w}) (insert w ag) (if acc_count (ml_accumulator (leaders g)) + 1 = unat (ex_group_size e) then insert g pf else pf)
        (leaders(g := (leaders g)\<lparr> ml_accumulator := \<lparr> acc_state = m_add VM (acc_state (ml_accumulator (leaders g))) d,
                                                     acc_count = acc_count (ml_accumulator (leaders g)) + 1 \<rparr> \<rparr>)) q1"
proof -
  have fin: "finite lw" "finite ag" "lw \<subseteq> set workers" "ag \<subseteq> set workers" "lw \<inter> ag = {}"
    using assms by (auto simp: leading_def intro: finite_subset)
  obtain w where w: "w \<in> lw" "ToLeader g d = (ToLeader (worker_group w) (full w) :: ('t, 's, 'm) task)"
      "q1 = tasks_of (\<lambda>w. ToLeader (worker_group w) (full w)) (lw - {w})"
  proof -
    have "add_mset (ToLeader g d) q1 = tasks_of (\<lambda>w. ToLeader (worker_group w) (full w)) lw"
      using assms unfolding leading_def by blast
    from take_task[OF this fin(1)] that show thesis by blast
  qed
  let ?in = "\<lambda>S g. {w \<in> S. worker_group w = g}"
  have gw: "g = worker_group w" "d = full w" using w(2) by auto
  have notin: "w \<notin> ag" using w(1) fin(5) by auto
  have wW: "w \<in> set workers" using w(1) fin(3) by auto
  have g: "g \<in> set groups" using workers_ok(2)[OF wW] gw(1) by simp
  have st: "\<And>h. acc_count (ml_accumulator (leaders h)) = card (?in ag h)"
    "\<And>h. acc_state (ml_accumulator (leaders h)) = msum (tasks_of full (?in ag h))"
    "\<And>h. h \<in> pf \<longleftrightarrow> h \<in> set groups \<and> ?in ag h = ?in (set workers) h"
    using assms by (simp_all add: leading_def)
  have ins: "?in (insert w ag) h = (if h = g then insert w (?in ag h) else ?in ag h)" for h using gw(1) by auto
  have state: "msum (tasks_of full (insert w (?in ag g))) = m_add VM (msum (tasks_of full (?in ag g))) d"
    using notin fin(2) msum_add_mset[of "full w" "tasks_of full (?in ag g)"] full_valid gw(2) by auto
  have card: "card (insert w (?in ag g)) = card (?in ag g) + 1" using notin fin(2) by simp
  have all: "card (?in ag g) + 1 = unat (ex_group_size e) \<longleftrightarrow> insert w (?in ag g) = ?in (set workers) g"
  proof -
    have "insert w (?in ag g) \<subseteq> ?in (set workers) g" using wW gw(1) fin(4) by auto
    then show ?thesis using card group_size(1)[OF g] card_subset_eq[of "?in (set workers) g" "insert w (?in ag g)"] by auto
  qed
  have "g \<notin> pf" using st(3)[of g] notin wW gw(1) by auto
  moreover have "vvalid (msum (tasks_of full (?in ag g)))" using full_valid by (intro msum_valid) auto
  moreover have "card (?in ag g) + 1 = unat (ex_group_size e) \<longrightarrow> m_add VM (msum (tasks_of full (?in ag g))) d = gsum g"
    using all state by (auto simp: gsum_def)
  moreover have "leading (lw - {w}) (insert w ag) (if acc_count (ml_accumulator (leaders g)) + 1 = unat (ex_group_size e) then insert g pf else pf)
        (leaders(g := (leaders g)\<lparr> ml_accumulator := \<lparr> acc_state = m_add VM (acc_state (ml_accumulator (leaders g))) d,
                                                     acc_count = acc_count (ml_accumulator (leaders g)) + 1 \<rparr> \<rparr>)) q1"
    unfolding leading_def
  proof (intro conjI allI)
    fix h
    show "h \<in> (if acc_count (ml_accumulator (leaders g)) + 1 = unat (ex_group_size e) then insert g pf else pf)
      \<longleftrightarrow> h \<in> set groups \<and> ?in (insert w ag) h = ?in (set workers) h"
    proof (cases "h = g")
      case True
      have "h \<in> (if acc_count (ml_accumulator (leaders g)) + 1 = unat (ex_group_size e) then insert g pf else pf)
          \<longleftrightarrow> card (?in ag g) + 1 = unat (ex_group_size e)"
        using \<open>g \<notin> pf\<close> True unfolding st(1) by simp
      also have "\<dots> \<longleftrightarrow> insert w (?in ag g) = ?in (set workers) g" by (rule all)
      finally show ?thesis using ins[of g] True g by simp
    next
      case False
      then have "h \<in> (if acc_count (ml_accumulator (leaders g)) + 1 = unat (ex_group_size e) then insert g pf else pf) \<longleftrightarrow> h \<in> pf"
        by simp
      also have "\<dots> \<longleftrightarrow> h \<in> set groups \<and> ?in ag h = ?in (set workers) h" by (rule st(3))
      finally show ?thesis using ins[of h] False by simp
    qed
    let ?leaders = "leaders(g := (leaders g)\<lparr> ml_accumulator := \<lparr> acc_state = m_add VM (acc_state (ml_accumulator (leaders g))) d,
                                                     acc_count = acc_count (ml_accumulator (leaders g)) + 1 \<rparr> \<rparr>)"
    show "acc_count (ml_accumulator (?leaders h)) = card (?in (insert w ag) h)" unfolding ins using st(1) card by simp
    show "acc_state (ml_accumulator (?leaders h)) = msum (tasks_of full (?in (insert w ag) h))"
      unfolding ins using st(2) state by simp
  qed (use fin notin wW w(3) in auto)
  ultimately show ?thesis unfolding st(1,2) using w(1) notin gw g by (intro bexI[of _ w] conjI) assumption+
qed

end

context round_system
begin

lemma accumulating_insert:
  assumes "accumulating ex dn rp fw acc q3 q2" "(w, c) \<notin> ex \<union> dn" "c \<in> clients_of w"
  shows "accumulating (insert (w, c) ex) dn rp fw acc (add_mset (Accumulate w c (val w c)) q3) q2"
proof -
  have "finite ex" using assms(1) by (auto simp: accumulating_def intro: finite_pairs)
  then show ?thesis using assms unfolding accumulating_def by simp
qed

lemma accumulating_accumulate:
  assumes "accumulating ex dn rp fw acc (add_mset (Accumulate w c v) q3) q2"
  shows "(w, c) \<in> ex" "(w, c) \<notin> dn" "v = val w c" "c \<in> clients_of w" "vvalid (acc_state (acc w))"
    and "accumulating (ex - {(w, c)}) (insert (w, c) dn)
        (if acc_count (acc w) + 1 = card (clients_of w) then insert w rp else rp) fw
        (acc(w := \<lparr> acc_state = m_add VM (acc_state (acc w)) v, acc_count = acc_count (acc w) + 1 \<rparr>))
        q3 (add_mset (Report w (acc_count (acc w) + 1)) q2)"
proof -
  let ?D = "\<lambda>x. {c. (x, c) \<in> dn}"
  have a: "ex \<subseteq> {(w, c). c \<in> clients_of w}" "dn \<subseteq> {(w, c). c \<in> clients_of w}" "ex \<inter> dn = {}"
    "add_mset (Accumulate w c v) q3 = tasks_of (\<lambda>(w, c). Accumulate w c (val w c)) ex" "rp \<inter> fw = {}"
    using assms unfolding accumulating_def by blast+
  have st: "\<And>x. acc_count (acc x) = card (?D x)" "\<And>x. acc_state (acc x) = msum (tasks_of (val x) (?D x))"
    "\<And>t. t \<in># q2 \<Longrightarrow> \<exists>w n. t = Report w n \<and> w \<in> set workers \<and> n \<le> card (clients_of w)"
    "\<And>x. count q2 (Report x (card (clients_of x))) = (if x \<in> rp then 1 else 0)"
    "\<And>x. x \<in> rp \<union> fw \<longleftrightarrow> x \<in> set workers \<and> ?D x = clients_of x"
    using assms unfolding accumulating_def by blast+
  have sub: "?D x \<subseteq> clients_of x" for x using a(2) by auto
  then have finD: "finite (?D x)" for x by (rule finite_subset) simp
  obtain wc where wc: "wc \<in> ex" "(Accumulate w c v :: ('t, 's, 'm) task) = (\<lambda>(w, c). Accumulate w c (val w c)) wc"
      "q3 = tasks_of (\<lambda>(w, c). Accumulate w c (val w c)) (ex - {wc})"
    by (rule take_taskE[OF a(4) finite_pairs[OF a(1)]]) (rule that)
  obtain w' c' where "wc = (w', c')" by (cases wc)
  then have wc': "wc = (w, c)" and v: "v = val w c" using wc(2) by simp_all
  show ex: "(w, c) \<in> ex" and notin: "(w, c) \<notin> dn" and "v = val w c" and c: "c \<in> clients_of w"
    using wc(1) wc' v a(1,3) by auto
  have valid: "\<And>y. y \<in># tasks_of (val x) (?D x) \<Longrightarrow> vvalid y" for x using sub val_valid finD by auto
  then show "vvalid (acc_state (acc w))" unfolding st(2) by (rule msum_valid)
  have wW: "w \<in> set workers" using clients_of_worker[OF c] by simp
  have "?D w \<noteq> clients_of w" using c notin by auto
  then have w_rp: "w \<notin> rp \<union> fw" using st(5)[of w] by simp
  have lt: "card (?D w) < card (clients_of w)" using sub[of w] \<open>?D w \<noteq> clients_of w\<close> by (intro psubset_card_mono) auto
  let ?dn = "insert (w, c) dn"
  have D': "{c. (x, c) \<in> ?dn} = (if x = w then insert c (?D x) else ?D x)" for x by auto
  have card: "card (insert c (?D w)) = card (?D w) + 1" using notin finD by simp
  have state: "msum (tasks_of (val w) (insert c (?D w))) = m_add VM (msum (tasks_of (val w) (?D w))) v"
    using notin finD[of w] msum_add_mset[OF val_valid[OF c], of "tasks_of (val w) (?D w)"] valid[of _ w] v by simp
  have all: "insert c (?D w) = clients_of w \<longleftrightarrow> card (?D w) + 1 = card (clients_of w)"
    using card card_subset_eq[of "clients_of w" "insert c (?D w)"] sub[of w] c by auto
  show "accumulating (ex - {(w, c)}) ?dn (if acc_count (acc w) + 1 = card (clients_of w) then insert w rp else rp) fw
        (acc(w := \<lparr> acc_state = m_add VM (acc_state (acc w)) v, acc_count = acc_count (acc w) + 1 \<rparr>))
        q3 (add_mset (Report w (acc_count (acc w) + 1)) q2)"
    unfolding accumulating_def
  proof (intro conjI allI impI)
    fix x
    let ?acc = "acc(w := \<lparr> acc_state = m_add VM (acc_state (acc w)) v, acc_count = acc_count (acc w) + 1 \<rparr>)"
    show "acc_count (?acc x) = card {c. (x, c) \<in> ?dn}" unfolding D' using st(1) card by simp
    show "acc_state (?acc x) = msum (tasks_of (val x) {c. (x, c) \<in> ?dn})" unfolding D' using st(2) state by simp
    show "count (add_mset (Report w (acc_count (acc w) + 1)) q2) (Report x (card (clients_of x)))
        = (if x \<in> (if acc_count (acc w) + 1 = card (clients_of w) then insert w rp else rp) then 1 else 0)"
      using st(4)[of x] w_rp by auto
    show "x \<in> (if acc_count (acc w) + 1 = card (clients_of w) then insert w rp else rp) \<union> fw
        \<longleftrightarrow> x \<in> set workers \<and> {c. (x, c) \<in> ?dn} = clients_of x"
      unfolding D' using st(5)[of x] all wW w_rp st(1)[of w] by auto
  next
    fix t
    assume "t \<in># add_mset (Report w (acc_count (acc w) + 1)) q2"
    then show "\<exists>w n. t = Report w n \<and> w \<in> set workers \<and> n \<le> card (clients_of w)"
      using st(1)[of w] st(3)[of t] lt wW by auto
  qed (use a wc(3) wc' c w_rp in auto)
qed

lemma accumulating_report:
  assumes "accumulating ex dn rp fw acc q3 (add_mset (Report w n) q2)"
  shows "w \<in> set workers"
    and "n \<noteq> card (clients_of w) \<Longrightarrow> accumulating ex dn rp fw acc q3 q2"
    and "n = card (clients_of w) \<Longrightarrow> w \<in> rp \<and> w \<notin> fw \<and> acc_state (acc w) = full w
      \<and> accumulating ex dn (rp - {w}) (insert w fw) acc q3 q2"
proof -
  have q: "\<And>t. t \<in># add_mset (Report w n) q2 \<Longrightarrow> \<exists>w n. t = Report w n \<and> w \<in> set workers \<and> n \<le> card (clients_of w)"
    "\<And>x. count (add_mset (Report w n) q2) (Report x (card (clients_of x))) = (if x \<in> rp then 1 else 0)"
    "rp \<inter> fw = {}" "\<And>x. x \<in> rp \<union> fw \<longleftrightarrow> x \<in> set workers \<and> {c. (x, c) \<in> dn} = clients_of x"
    "\<And>x. acc_state (acc x) = msum (tasks_of (val x) {c. (x, c) \<in> dn})"
    using assms unfolding accumulating_def by blast+
  show "w \<in> set workers" using q(1)[of "Report w n"] by auto
  show "accumulating ex dn rp fw acc q3 q2" if n: "n \<noteq> card (clients_of w)"
  proof -
    have "count q2 (Report x (card (clients_of x))) = (if x \<in> rp then 1 else 0)" for x
      using q(2)[of x] n by (auto split: if_splits)
    then show ?thesis using assms q(1) unfolding accumulating_def by auto
  qed
  show "w \<in> rp \<and> w \<notin> fw \<and> acc_state (acc w) = full w \<and> accumulating ex dn (rp - {w}) (insert w fw) acc q3 q2"
    if n: "n = card (clients_of w)"
  proof -
    have rp: "w \<in> rp" using q(2)[of w] n by (auto split: if_splits)
    have cnt: "count q2 (Report x (card (clients_of x))) = (if x \<in> rp - {w} then 1 else 0)" for x
      using q(2)[of x] n rp by (auto split: if_splits)
    have "w \<notin> fw" using rp q(3) by auto
    moreover have "acc_state (acc w) = full w" using q(4)[of w] q(5)[of w] rp by (simp add: full_def)
    moreover have "x \<in> (rp - {w}) \<union> insert w fw \<longleftrightarrow> x \<in> set workers \<and> {c. (x, c) \<in> dn} = clients_of x" for x
      using q(4)[of x] rp by auto
    ultimately show ?thesis using rp assms cnt q(1,3) unfolding accumulating_def by auto
  qed
qed

end

context round_system
begin

lemma collectingD:
  assumes "collecting up vp dr fin entry q6 q5 q4"
  shows "up \<subseteq> {(w, c). c \<in> clients_of w}"
    "vp \<subseteq> {(p, w, c). c \<in> clients_of p \<and> c \<in> clients_of w \<and> (p, c) \<notin> up}"
    "dr \<subseteq> {(w, c). c \<in> clients_of w}" "dr \<inter> fin = {}"
    "q6 = tasks_of (\<lambda>(w, c). Upload w c (tokw w c)) up"
    "q5 = tasks_of (\<lambda>(p, w, c). Verify w c (share_to p w c)) vp"
    "q4 = tasks_of (\<lambda>(w, c). Drain w c) dr"
    "c \<in> clients_of w \<Longrightarrow> entry_ok ((w, c) \<in> up) ((w, c) \<in> dr) ((w, c) \<in> fin) (arrived up vp w c) w c (entry w c)"
  using assms unfolding collecting_def by blast+

lemma collecting_upload:
  assumes "collecting up vp dr fin entry (add_mset (Upload w c t) q6) q5 q4"
  shows "(w, c) \<in> up" "c \<in> clients_of w" "t = tokw w c"
    and "collecting (up - {(w, c)}) (vp \<union> (\<lambda>p. (w, p, c)) ` set (sh c)) dr fin
      (entry(w := (entry w)(c := (Some t, snd (entry w c))))) q6
      (q5 + tasks_of (\<lambda>p. Verify p c (share_to w p c)) (set (sh c))) q4"
proof -
  note C = collectingD[OF assms]
  obtain wc where wc: "wc \<in> up" "(Upload w c t :: ('t, 's, 'm) task) = (\<lambda>(w, c). Upload w c (tokw w c)) wc"
      "q6 = tasks_of (\<lambda>(w, c). Upload w c (tokw w c)) (up - {wc})"
    by (rule take_taskE[OF C(5) finite_pairs[OF C(1)]]) (rule that)
  obtain w' c' where "wc = (w', c')" by (cases wc)
  then have wc': "wc = (w, c)" and t: "t = tokw w c" using wc(2) by simp_all
  show up: "(w, c) \<in> up" and c: "c \<in> clients_of w" and "t = tokw w c" using wc(1) wc' t C(1) by auto
  let ?new = "(\<lambda>p. (w, p, c)) ` set (sh c)" and ?up = "up - {(w, c)}"
  have sh: "w \<in> set (sh c)" "\<And>x. x \<in> set (sh c) \<longleftrightarrow> c \<in> clients_of x"
    using c by (auto simp: clients_of_def)
  have disj: "vp \<inter> ?new = {}" using up C(2) by auto
  have fins: "finite vp" using finite_triples[OF C(2)] .
  have arr: "arrived ?up (vp \<union> ?new) x d = arrived up vp x d" if "d \<in> clients_of x" for x d
    using that up sh(2)[of x] by (auto simp: arrived_def)
  have nofin: "(w, c) \<notin> fin" "(w, c) \<notin> dr"
    using C(8)[OF c] up sh(1) by (auto simp: entry_ok_def arrived_def split: if_splits)
  have q5: "q5 + tasks_of (\<lambda>p. Verify p c (share_to w p c)) (set (sh c))
      = tasks_of (\<lambda>(p, w, c). Verify w c (share_to p w c)) (vp \<union> ?new)"
  proof -
    have inj: "inj_on (\<lambda>p. (w, p, c)) (set (sh c))" by (auto simp: inj_on_def)
    have "mset_set ?new = image_mset (\<lambda>p. (w, p, c)) (mset_set (set (sh c)))"
      using image_mset_mset_set[OF inj] by simp
    then have "(tasks_of (\<lambda>(p, w, c). Verify w c (share_to p w c)) ?new :: ('t, 's, 'm) task multiset)
        = tasks_of (\<lambda>p. Verify p c (share_to w p c)) (set (sh c))"
      by (simp add: image_mset.compositionality comp_def)
    then show ?thesis using C(6) mset_set_Union[OF fins _ disj] by simp
  qed
  show "collecting ?up (vp \<union> ?new) dr fin (entry(w := (entry w)(c := (Some t, snd (entry w c))))) q6
      (q5 + tasks_of (\<lambda>p. Verify p c (share_to w p c)) (set (sh c))) q4"
    unfolding collecting_def
  proof (intro conjI allI ballI)
    fix x d
    assume d: "d \<in> clients_of x"
    show "entry_ok ((x, d) \<in> ?up) ((x, d) \<in> dr) ((x, d) \<in> fin) (arrived ?up (vp \<union> ?new) x d) x d
      ((entry(w := (entry w)(c := (Some t, snd (entry w c))))) x d)"
    proof (cases "(x, d) = (w, c)")
      case True
      then show ?thesis using C(8)[OF c] arr[OF d] nofin t up by (simp add: entry_ok_def)
    next
      case False
      then have "(x, d) \<in> ?up \<longleftrightarrow> (x, d) \<in> up" "(entry(w := (entry w)(c := (Some t, snd (entry w c))))) x d = entry x d"
        by auto
      then show ?thesis using C(8)[OF d] arr[OF d] by simp
    qed
  qed (use C(1-4,7) wc(3) wc' q5 c sh in auto)
qed

end

context round_system
begin

lemma arrived_le:
  assumes "c \<in> clients_of w"
  shows "arrived up vp w c \<subseteq> set (sh c)" "finite (arrived up vp w c)"
    "card (arrived up vp w c) = proto_num_parties T \<longleftrightarrow> arrived up vp w c = set (sh c)"
    "card (arrived up vp w c) \<le> proto_num_parties T"
proof -
  have c: "card (set (sh c)) = proto_num_parties T" using sh_ok(5) clients_of_worker[OF assms] by blast
  show sub: "arrived up vp w c \<subseteq> set (sh c)" by (auto simp: arrived_def)
  then show "finite (arrived up vp w c)" by (rule finite_subset) simp
  show "card (arrived up vp w c) = proto_num_parties T \<longleftrightarrow> arrived up vp w c = set (sh c)"
    using card_subset_eq[OF finite_set sub] c by metis
  show "card (arrived up vp w c) \<le> proto_num_parties T" using c sub card_mono[of "set (sh c)"] by simp
qed

lemma collecting_verify:
  assumes "collecting up vp dr fin entry q6 (add_mset (Verify w c s) q5) q4"
  shows "\<exists>p. collecting up (vp - {(p, w, c)})
      (if proto_num_parties T \<le> length (snd (entry w c)) + 1 then insert (w, c) dr else dr) fin
      (entry(w := (entry w)(c := (fst (entry w c), snd (entry w c) @ [s])))) q6 q5
      (if proto_num_parties T \<le> length (snd (entry w c)) + 1 then add_mset (Drain w c) q4 else q4)"
proof -
  note C = collectingD[OF assms]
  let ?last = "proto_num_parties T \<le> length (snd (entry w c)) + 1"
  obtain pwc where pwc: "pwc \<in> vp" "(Verify w c s :: ('t, 's, 'm) task) = (\<lambda>(p, w, c). Verify w c (share_to p w c)) pwc"
      "q5 = tasks_of (\<lambda>(p, w, c). Verify w c (share_to p w c)) (vp - {pwc})"
    by (rule take_taskE[OF C(6) finite_triples[OF C(2)]]) (rule that)
  obtain p w' c' where "pwc = (p, w', c')" by (cases pwc)
  then have pwc': "pwc = (p, w, c)" using pwc(2) by (simp only: task.inject prod.case)
  let ?vp = "vp - {(p, w, c)}"
  have vp: "(p, w, c) \<in> vp" using pwc(1) pwc' by simp
  then have c: "c \<in> clients_of w" "p \<in> set (sh c)" "(p, c) \<notin> up" using C(2) by (auto simp: clients_of_def)
  have notin: "p \<notin> arrived up vp w c" using vp by (simp add: arrived_def)
  have arr: "arrived up ?vp x d = (if (x, d) = (w, c) then insert p (arrived up vp w c) else arrived up vp x d)" for x d
    using c by (auto simp: arrived_def)
  have "arrived up vp w c \<noteq> set (sh c)" using notin c(2) by auto
  then have nofin: "(w, c) \<notin> fin" "(w, c) \<notin> dr" "length (snd (entry w c)) = card (arrived up vp w c)"
      "fst (entry w c) = (if (w, c) \<in> up then None else Some (tokw w c))"
    using C(8)[OF c(1)] by (auto simp: entry_ok_def split: if_splits)
  have card: "card (insert p (arrived up vp w c)) = length (snd (entry w c)) + 1"
    using notin arrived_le(2)[OF c(1)] nofin(3) by simp
  have last: "?last \<longleftrightarrow> insert p (arrived up vp w c) = set (sh c)"
  proof -
    have a: "arrived up ?vp w c = insert p (arrived up vp w c)" using arr[of w c] by simp
    show ?thesis using arrived_le(3,4)[OF c(1), of up ?vp] unfolding a card by (metis le_antisym order_refl)
  qed
  have "collecting up ?vp (if ?last then insert (w, c) dr else dr) fin
      (entry(w := (entry w)(c := (fst (entry w c), snd (entry w c) @ [s])))) q6 q5
      (if ?last then add_mset (Drain w c) q4 else q4)"
    unfolding collecting_def
  proof (intro conjI allI ballI)
    fix x d
    assume d: "d \<in> clients_of x"
    show "entry_ok ((x, d) \<in> up) ((x, d) \<in> (if ?last then insert (w, c) dr else dr)) ((x, d) \<in> fin) (arrived up ?vp x d) x d
      ((entry(w := (entry w)(c := (fst (entry w c), snd (entry w c) @ [s])))) x d)"
    proof (cases "(x, d) = (w, c)")
      case True
      then show ?thesis using nofin card last arr[of w c] by (simp add: entry_ok_def)
    next
      case False
      then have "(x, d) \<in> (if ?last then insert (w, c) dr else dr) \<longleftrightarrow> (x, d) \<in> dr"
        "(entry(w := (entry w)(c := (fst (entry w c), snd (entry w c) @ [s])))) x d = entry x d" "arrived up ?vp x d = arrived up vp x d"
        using arr by auto
      then show ?thesis using C(8)[OF d] by simp
    qed
  next
    show "(if ?last then add_mset (Drain w c) q4 else q4) = tasks_of (\<lambda>(w, c). Drain w c) (if ?last then insert (w, c) dr else dr)"
      using C(7) nofin(2) finite_pairs[OF C(3)] by simp
  qed (use C(1-5) pwc(3) pwc' c nofin in auto)
  then show ?thesis by (rule exI)
qed

lemma collecting_drain:
  assumes "collecting up vp dr fin entry q6 q5 (add_mset (Drain w c) q4)"
  shows "c \<in> clients_of w" "(w, c) \<notin> fin" "fst (entry w c) = Some (tokw w c)" "length (snd (entry w c)) = proto_num_parties T"
    and "collecting up vp (dr - {(w, c)}) (insert (w, c) fin) (entry(w := (entry w)(c := (None, [])))) q6 q5 q4"
proof -
  note C = collectingD[OF assms]
  obtain wc where wc: "wc \<in> dr" "(Drain w c :: ('t, 's, 'm) task) = (\<lambda>(w, c). Drain w c) wc"
      "q4 = tasks_of (\<lambda>(w, c). Drain w c) (dr - {wc})"
    by (rule take_taskE[OF C(7) finite_pairs[OF C(3)]]) (rule that)
  obtain w' c' where "wc = (w', c')" by (cases wc)
  then have wc': "wc = (w, c)" using wc(2) by simp
  show c: "c \<in> clients_of w" and fin: "(w, c) \<notin> fin" using wc(1) wc' C(3,4) by auto
  have all: "arrived up vp w c = set (sh c)" "length (snd (entry w c)) = card (arrived up vp w c)"
      "fst (entry w c) = (if (w, c) \<in> up then None else Some (tokw w c))"
    using C(8)[OF c] fin wc(1) wc' by (simp_all add: entry_ok_def)
  have "w \<in> arrived up vp w c" using all(1) c by (simp add: clients_of_def)
  then have "(w, c) \<notin> up" by (simp add: arrived_def)
  then show "fst (entry w c) = Some (tokw w c)" using all(3) by simp
  show "length (snd (entry w c)) = proto_num_parties T" using all(1,2) arrived_le(3)[OF c, of up vp] by simp
  show "collecting up vp (dr - {(w, c)}) (insert (w, c) fin) (entry(w := (entry w)(c := (None, [])))) q6 q5 q4"
    unfolding collecting_def
  proof (intro conjI allI ballI)
    fix x d
    assume d: "d \<in> clients_of x"
    show "entry_ok ((x, d) \<in> up) ((x, d) \<in> dr - {(w, c)}) ((x, d) \<in> insert (w, c) fin) (arrived up vp x d) x d
      ((entry(w := (entry w)(c := (None, [])))) x d)"
    proof (cases "(x, d) = (w, c)")
      case True
      then show ?thesis using all(1) by (simp add: entry_ok_def)
    next
      case False
      then have "(x, d) \<in> dr - {(w, c)} \<longleftrightarrow> (x, d) \<in> dr" "(x, d) \<in> insert (w, c) fin \<longleftrightarrow> (x, d) \<in> fin"
        "(entry(w := (entry w)(c := (None, [])))) x d = entry x d" by auto
      then show ?thesis using C(8)[OF d] by simp
    qed
  qed (use C(1-6) wc(3) wc' in auto)
qed

end

subsection \<open>Every task runs and keeps the invariant\<close>

lemma set_worker_sel [simp]:
  "sys_workers (set_worker w ws sys) = (sys_workers sys)(w := ws)" "sys_leaders (set_worker w ws sys) = sys_leaders sys"
  "sys_publisher (set_worker w ws sys) = sys_publisher sys" "sys_result (set_worker w ws sys) = sys_result sys"
  by (simp_all add: set_worker_def)

lemma fun_upd_point: "(\<lambda>x. f ((g(w := a)) x)) = (\<lambda>x. f (g x))(w := f a)"
  by (simp add: fun_eq_iff)

lemma stage_uniform:
  assumes "\<And>t. t \<in># M \<Longrightarrow> task_stage t = j"
  shows "stage k M = (if k = j then M else {#})"
proof (cases "k = j")
  case True
  then show ?thesis using assms by (simp add: filter_mset_eq_conv)
next
  case False
  then show ?thesis using assms by (auto simp: filter_mset_eq_conv)
qed

context round_system
begin

lemma sys_invE:
  assumes "sys_inv (sys, pool)"
  obtains up vp dr ex dn rp lw ag gl pg ap gp where "config_ok sys"
    "collecting up vp dr (ex \<union> dn) (\<lambda>w. worker_entry (sys_workers sys w)) (stage 6 pool) (stage 5 pool) (stage 4 pool)"
    "accumulating ex dn rp (lw \<union> ag) (\<lambda>w. ws_accumulator (sys_workers sys w)) (stage 3 pool) (stage 2 pool)"
    "leading lw ag (gl \<union> pg \<union> ap) (sys_leaders sys) (stage 1 pool)"
    "publishing gl pg ap gp (sys_publisher sys) (sys_result sys) (stage 0 pool)"
  using assms unfolding sys_inv_def prod.case by blast

lemma sys_invI:
  assumes "config_ok sys"
    "collecting up vp dr (ex \<union> dn) (\<lambda>w. worker_entry (sys_workers sys w)) (stage 6 pool) (stage 5 pool) (stage 4 pool)"
    "accumulating ex dn rp (lw \<union> ag) (\<lambda>w. ws_accumulator (sys_workers sys w)) (stage 3 pool) (stage 2 pool)"
    "leading lw ag (gl \<union> pg \<union> ap) (sys_leaders sys) (stage 1 pool)"
    "publishing gl pg ap gp (sys_publisher sys) (sys_result sys) (stage 0 pool)"
  shows "sys_inv (sys, pool)"
  using assms unfolding sys_inv_def prod.case by blast

lemma runs_okI:
  "run_task T A key_from None task sys = Some (tasks, sys') \<Longrightarrow> sys_inv (sys', pool + mset tasks) \<Longrightarrow> runs_ok task sys pool"
  unfolding runs_ok_def by blast

lemma config_ok_worker:
  assumes "config_ok sys"
  shows "ws_experiment (sys_workers sys w) = e"
    "registry_num_clients (ws_client_registry (sys_workers sys w)) = card (clients_of w)"
    "c \<in> clients_of w \<Longrightarrow> map_of (cr_peers (ws_client_registry (sys_workers sys w))) c = Some (sh c)"
    "ml_total_workers (sys_leaders sys g) = unat (ex_group_size e)" "mp_total_groups (sys_publisher sys) = proto_num_parties T"
  using assms by (simp_all add: config_ok_def)

lemma config_ok_set_worker:
  assumes "config_ok sys" "ws_experiment ws = ws_experiment (sys_workers sys w)"
    "ws_client_registry ws = ws_client_registry (sys_workers sys w)"
  shows "config_ok (set_worker w ws sys)"
  using assms by (simp add: config_ok_def)

lemma run_upload_ok:
  assumes "sys_inv (sys, add_mset (Upload w c t) pool)"
  shows "runs_ok (Upload w c t) sys pool"
  using assms
proof (rule sys_invE)
  fix up vp dr ex dn rp lw ag gl pg ap gp
  let ?pool = "add_mset (Upload w c t) pool" and ?ws = "upload_init c t (sys_workers sys w)"
  assume C: "config_ok sys"
    and col: "collecting up vp dr (ex \<union> dn) (\<lambda>w. worker_entry (sys_workers sys w)) (stage 6 ?pool) (stage 5 ?pool) (stage 4 ?pool)"
    and rest: "accumulating ex dn rp (lw \<union> ag) (\<lambda>w. ws_accumulator (sys_workers sys w)) (stage 3 ?pool) (stage 2 ?pool)"
      "leading lw ag (gl \<union> pg \<union> ap) (sys_leaders sys) (stage 1 ?pool)"
      "publishing gl pg ap gp (sys_publisher sys) (sys_result sys) (stage 0 ?pool)"
  have "collecting up vp dr (ex \<union> dn) (\<lambda>w. worker_entry (sys_workers sys w)) (add_mset (Upload w c t) (stage 6 pool)) (stage 5 pool) (stage 4 pool)"
    using col by simp
  note U = collecting_upload[OF this]
  have c: "c \<in> clients" "w \<in> set (sh c)" using U(2) by (simp_all add: clients_of_def)
  obtain ss where ss: "proto_gen_audit T keys t = Some ss" "length ss = proto_num_parties T" using tokw_ok(1)[OF c] U(3) by auto
  let ?tasks = "map (\<lambda>(p, s). Verify p c s) (zip (sh c) ss) :: ('t, 's, 'm) task list"
  have run: "run_task T A key_from None (Upload w c t) sys = Some (?tasks, set_worker w ?ws sys)"
    using config_ok_worker(1,3)[OF C] U(2) ss(1) keys_ok
    by (simp add: run_upload_def registry_get_peers_def worker_upload_def)
  have tasks: "mset ?tasks = tasks_of (\<lambda>p. Verify p c (share_to w p c)) (set (sh c))"
    using mset_zip_tasks[of "sh c" ss "\<lambda>p s. Verify p c s"] sh_ok[OF c(1)] ss U(3) by (simp add: share_to_def)
  have stages: "stage k (mset ?tasks) = (if k = 5 then tasks_of (\<lambda>p. Verify p c (share_to w p c)) (set (sh c)) else {#})" for k
    unfolding tasks by (rule stage_uniform) auto
  have entry: "(\<lambda>x. worker_entry (sys_workers (set_worker w ?ws sys) x))
      = (\<lambda>x. worker_entry (sys_workers sys x))(w := (worker_entry (sys_workers sys w))(c := (Some t, snd (worker_entry (sys_workers sys w) c))))"
    by (simp add: fun_eq_iff)
  have acc: "(\<lambda>x. ws_accumulator (sys_workers (set_worker w ?ws sys) x)) = (\<lambda>x. ws_accumulator (sys_workers sys x))"
    by (simp add: fun_eq_iff)
  show ?thesis
  proof (rule runs_okI[OF run], rule sys_invI)
    show "config_ok (set_worker w ?ws sys)" using C by (rule config_ok_set_worker) simp_all
    show "collecting (up - {(w, c)}) (vp \<union> (\<lambda>p. (w, p, c)) ` set (sh c)) dr (ex \<union> dn)
        (\<lambda>x. worker_entry (sys_workers (set_worker w ?ws sys) x))
        (stage 6 (pool + mset ?tasks)) (stage 5 (pool + mset ?tasks)) (stage 4 (pool + mset ?tasks))"
      using U(4) unfolding entry filter_union_mset stages by simp
    show "accumulating ex dn rp (lw \<union> ag) (\<lambda>x. ws_accumulator (sys_workers (set_worker w ?ws sys) x))
        (stage 3 (pool + mset ?tasks)) (stage 2 (pool + mset ?tasks))"
      using rest(1) unfolding acc filter_union_mset stages by simp
    show "leading lw ag (gl \<union> pg \<union> ap) (sys_leaders (set_worker w ?ws sys)) (stage 1 (pool + mset ?tasks))"
      using rest(2) unfolding filter_union_mset stages by simp
    show "publishing gl pg ap gp (sys_publisher (set_worker w ?ws sys)) (sys_result (set_worker w ?ws sys)) (stage 0 (pool + mset ?tasks))"
      using rest(3) unfolding filter_union_mset stages by simp
  qed
qed

end

context round_system
begin

lemma run_verify_ok:
  assumes "sys_inv (sys, add_mset (Verify w c s) pool)"
  shows "runs_ok (Verify w c s) sys pool"
  using assms
proof (rule sys_invE)
  fix up vp dr ex dn rp lw ag gl pg ap gp
  let ?pool = "add_mset (Verify w c s) pool"
  assume C: "config_ok sys"
    and col: "collecting up vp dr (ex \<union> dn) (\<lambda>w. worker_entry (sys_workers sys w)) (stage 6 ?pool) (stage 5 ?pool) (stage 4 ?pool)"
    and acc: "accumulating ex dn rp (lw \<union> ag) (\<lambda>w. ws_accumulator (sys_workers sys w)) (stage 3 ?pool) (stage 2 ?pool)"
    and lead: "leading lw ag (gl \<union> pg \<union> ap) (sys_leaders sys) (stage 1 ?pool)"
    and pub: "publishing gl pg ap gp (sys_publisher sys) (sys_result sys) (stage 0 ?pool)"
  let ?ws = "snd (verify_add c s (sys_workers sys w))" and ?en = "worker_entry (sys_workers sys w) c"
  let ?last = "proto_num_parties T \<le> length (snd ?en) + 1"
  have run: "run_task T A key_from None (Verify w c s) sys = Some (if ?last then [Drain w c] else [], set_worker w ?ws sys)"
    using verify_add_sel(1)[of c s "sys_workers sys w"] by (auto simp: run_verify_def case_prod_beta Let_def)
  have "collecting up vp dr (ex \<union> dn) (\<lambda>w. worker_entry (sys_workers sys w)) (stage 6 pool) (add_mset (Verify w c s) (stage 5 pool)) (stage 4 pool)"
    using col by simp
  from collecting_verify[OF this] obtain p where p: "collecting up (vp - {(p, w, c)}) (if ?last then insert (w, c) dr else dr) (ex \<union> dn)
      ((\<lambda>w. worker_entry (sys_workers sys w))(w := (worker_entry (sys_workers sys w))(c := (fst ?en, snd ?en @ [s]))))
      (stage 6 pool) (stage 5 pool) (if ?last then add_mset (Drain w c) (stage 4 pool) else stage 4 pool)" by blast
  have entry: "(\<lambda>x. worker_entry (sys_workers (set_worker w ?ws sys) x))
      = (\<lambda>x. worker_entry (sys_workers sys x))(w := (worker_entry (sys_workers sys w))(c := (fst ?en, snd ?en @ [s])))"
    by (simp add: fun_eq_iff)
  have accs: "(\<lambda>x. ws_accumulator (sys_workers (set_worker w ?ws sys) x)) = (\<lambda>x. ws_accumulator (sys_workers sys x))"
    by (simp add: fun_eq_iff)
  have stages: "stage k (pool + mset (if ?last then [Drain w c] else []))
      = (if ?last \<and> k = 4 then add_mset (Drain w c) (stage k pool) else stage k pool)" for k by simp
  show ?thesis
  proof (rule runs_okI[OF run], rule sys_invI, unfold entry accs stages)
    show "config_ok (set_worker w ?ws sys)" using C by (rule config_ok_set_worker) simp_all
  qed (use p acc lead pub in simp_all)
qed

lemma run_drain_ok:
  assumes "sys_inv (sys, add_mset (Drain w c) pool)"
  shows "runs_ok (Drain w c) sys pool"
  using assms
proof (rule sys_invE)
  fix up vp dr ex dn rp lw ag gl pg ap gp
  let ?pool = "add_mset (Drain w c) pool"
  assume C: "config_ok sys"
    and col: "collecting up vp dr (ex \<union> dn) (\<lambda>w. worker_entry (sys_workers sys w)) (stage 6 ?pool) (stage 5 ?pool) (stage 4 ?pool)"
    and acc: "accumulating ex dn rp (lw \<union> ag) (\<lambda>w. ws_accumulator (sys_workers sys w)) (stage 3 ?pool) (stage 2 ?pool)"
    and lead: "leading lw ag (gl \<union> pg \<union> ap) (sys_leaders sys) (stage 1 ?pool)"
    and pub: "publishing gl pg ap gp (sys_publisher sys) (sys_result sys) (stage 0 ?pool)"
  have "collecting up vp dr (ex \<union> dn) (\<lambda>w. worker_entry (sys_workers sys w)) (stage 6 pool) (stage 5 pool) (add_mset (Drain w c) (stage 4 pool))"
    using col by simp
  note D = collecting_drain[OF this]
  have c: "c \<in> clients" "w \<in> set (sh c)" using D(1) by (simp_all add: clients_of_def)
  obtain b where "proto_check_audit T (snd (worker_entry (sys_workers sys w) c)) = Some b" using check_total[OF D(4)] by blast
  from verify_drain_ok[OF D(3) this] obtain ws where ws: "verify_drain T c (sys_workers sys w) = Some ((b, tokw w c), ws)"
      "\<forall>d. worker_entry ws d = (if d = c then (None, []) else worker_entry (sys_workers sys w) d)"
      "ws_accumulator ws = ws_accumulator (sys_workers sys w)" "ws_experiment ws = ws_experiment (sys_workers sys w)"
      "ws_client_registry ws = ws_client_registry (sys_workers sys w)" by blast
  have run: "run_task T A key_from None (Drain w c) sys = Some ([Accumulate w c (val w c)], set_worker w ws sys)"
    using ws(1) tokw_ok(2,4)[OF c] by (simp add: run_drain_def verify_expand_def)
  have entry: "(\<lambda>x. worker_entry (sys_workers (set_worker w ws sys) x))
      = (\<lambda>x. worker_entry (sys_workers sys x))(w := (worker_entry (sys_workers sys w))(c := (None, [])))"
    using ws(2) by (auto simp: fun_eq_iff)
  have accs: "(\<lambda>x. ws_accumulator (sys_workers (set_worker w ws sys) x)) = (\<lambda>x. ws_accumulator (sys_workers sys x))"
    using ws(3) by (simp add: fun_eq_iff)
  have stages: "stage k (pool + mset [Accumulate w c (val w c)])
      = (if k = 3 then add_mset (Accumulate w c (val w c)) (stage k pool) else stage k pool)" for k by simp
  show ?thesis
  proof (rule runs_okI[OF run], rule sys_invI, unfold entry accs stages)
    show "config_ok (set_worker w ws sys)" using C ws(4,5) by (rule config_ok_set_worker)
    show "collecting up vp (dr - {(w, c)}) (insert (w, c) ex \<union> dn)
        ((\<lambda>x. worker_entry (sys_workers sys x))(w := (worker_entry (sys_workers sys w))(c := (None, []))))
        (if (6::nat) = 3 then add_mset (Accumulate w c (val w c)) (stage 6 pool) else stage 6 pool)
        (if (5::nat) = 3 then add_mset (Accumulate w c (val w c)) (stage 5 pool) else stage 5 pool)
        (if (4::nat) = 3 then add_mset (Accumulate w c (val w c)) (stage 4 pool) else stage 4 pool)"
      using D(5) by simp
    show "accumulating (insert (w, c) ex) dn rp (lw \<union> ag) (\<lambda>x. ws_accumulator (sys_workers sys x))
        (if (3::nat) = 3 then add_mset (Accumulate w c (val w c)) (stage 3 pool) else stage 3 pool)
        (if (2::nat) = 3 then add_mset (Accumulate w c (val w c)) (stage 2 pool) else stage 2 pool)"
      using accumulating_insert[OF acc D(2,1)] by simp
  qed (use lead pub in simp_all)
qed

lemma run_accumulate_ok:
  assumes "sys_inv (sys, add_mset (Accumulate w c v) pool)"
  shows "runs_ok (Accumulate w c v) sys pool"
  using assms
proof (rule sys_invE)
  fix up vp dr ex dn rp lw ag gl pg ap gp
  let ?pool = "add_mset (Accumulate w c v) pool"
  assume C: "config_ok sys"
    and col: "collecting up vp dr (ex \<union> dn) (\<lambda>w. worker_entry (sys_workers sys w)) (stage 6 ?pool) (stage 5 ?pool) (stage 4 ?pool)"
    and acc: "accumulating ex dn rp (lw \<union> ag) (\<lambda>w. ws_accumulator (sys_workers sys w)) (stage 3 ?pool) (stage 2 ?pool)"
    and lead: "leading lw ag (gl \<union> pg \<union> ap) (sys_leaders sys) (stage 1 ?pool)"
    and pub: "publishing gl pg ap gp (sys_publisher sys) (sys_result sys) (stage 0 ?pool)"
  let ?a = "ws_accumulator (sys_workers sys w)"
  let ?a' = "\<lparr> acc_state = m_add VM (acc_state ?a) v, acc_count = acc_count ?a + 1 \<rparr>"
  let ?ws = "(sys_workers sys w)\<lparr> ws_accumulator := ?a' \<rparr>"
  have "accumulating ex dn rp (lw \<union> ag) (\<lambda>w. ws_accumulator (sys_workers sys w)) (add_mset (Accumulate w c v) (stage 3 pool)) (stage 2 pool)"
    using acc by simp
  note N = accumulating_accumulate[OF this]
  have "vvalid v" using N(3) val_valid[OF N(4)] by simp
  from accumulate_ok[OF N(5) this]
  have run: "run_task T A key_from None (Accumulate w c v) sys = Some ([Report w (acc_count ?a + 1)], set_worker w ?ws sys)"
    by (simp add: run_accumulate_def verify_accumulate_def)
  have entry: "(\<lambda>x. worker_entry (sys_workers (set_worker w ?ws sys) x)) = (\<lambda>x. worker_entry (sys_workers sys x))"
    by (simp add: fun_eq_iff)
  have accs: "(\<lambda>x. ws_accumulator (sys_workers (set_worker w ?ws sys) x)) = (\<lambda>x. ws_accumulator (sys_workers sys x))(w := ?a')"
    by (simp add: fun_eq_iff)
  have stages: "stage k (pool + mset [Report w (acc_count ?a + 1)])
      = (if k = 2 then add_mset (Report w (acc_count ?a + 1)) (stage k pool) else stage k pool)" for k by simp
  have dn: "ex - {(w, c)} \<union> insert (w, c) dn = ex \<union> dn" using N(1) by auto
  show ?thesis
  proof (rule runs_okI[OF run], rule sys_invI[where ex = "ex - {(w, c)}" and dn = "insert (w, c) dn"], unfold entry accs stages dn)
    show "config_ok (set_worker w ?ws sys)" using C by (rule config_ok_set_worker) simp_all
  qed (use col N(6) lead pub in simp_all)
qed

end

context round_system
begin

lemma run_report_ok:
  assumes "sys_inv (sys, add_mset (Report w n) pool)"
  shows "runs_ok (Report w n) sys pool"
  using assms
proof (rule sys_invE)
  fix up vp dr ex dn rp lw ag gl pg ap gp
  let ?pool = "add_mset (Report w n) pool"
  assume C: "config_ok sys"
    and col: "collecting up vp dr (ex \<union> dn) (\<lambda>w. worker_entry (sys_workers sys w)) (stage 6 ?pool) (stage 5 ?pool) (stage 4 ?pool)"
    and acc: "accumulating ex dn rp (lw \<union> ag) (\<lambda>w. ws_accumulator (sys_workers sys w)) (stage 3 ?pool) (stage 2 ?pool)"
    and lead: "leading lw ag (gl \<union> pg \<union> ap) (sys_leaders sys) (stage 1 ?pool)"
    and pub: "publishing gl pg ap gp (sys_publisher sys) (sys_result sys) (stage 0 ?pool)"
  have "accumulating ex dn rp (lw \<union> ag) (\<lambda>w. ws_accumulator (sys_workers sys w)) (stage 3 pool) (add_mset (Report w n) (stage 2 pool))"
    using acc by simp
  note N = accumulating_report[OF this]
  have run: "run_task T A key_from None (Report w n) sys
      = Some (if n = card (clients_of w) then [ToLeader (worker_group w) (acc_state (ws_accumulator (sys_workers sys w)))] else [], sys)"
    using config_ok_worker(1,2)[OF C, of w] not_hammer
    by (simp add: run_report_eq verify_report_def worker_hammer_def accumulator_get_def)
  show ?thesis
  proof (cases "n = card (clients_of w)")
    case True
    note R = N(3)[OF True]
    have run': "run_task T A key_from None (Report w n) sys = Some ([ToLeader (worker_group w) (full w)], sys)" using run R True by simp
    have lw: "insert w lw \<union> ag = insert w (lw \<union> ag)" by auto
    have stages: "stage k (pool + mset [ToLeader (worker_group w) (full w)])
        = (if k = 1 then add_mset (ToLeader (worker_group w) (full w)) (stage k pool) else stage k pool)" for k by simp
    have "leading lw ag (gl \<union> pg \<union> ap) (sys_leaders sys) (stage 1 pool)" using lead by simp
    from leading_insert[OF this N(1)]
    have lead': "leading (insert w lw) ag (gl \<union> pg \<union> ap) (sys_leaders sys) (add_mset (ToLeader (worker_group w) (full w)) (stage 1 pool))"
      using R by simp
    show ?thesis
      by (rule runs_okI[OF run'], rule sys_invI[where lw = "insert w lw" and rp = "rp - {w}"], unfold lw stages)
        (use C col R[THEN conjunct2, THEN conjunct2, THEN conjunct2] lead' pub in simp_all)
  next
    case False
    then have run': "run_task T A key_from None (Report w n) sys = Some ([], sys)" using run by simp
    show ?thesis
      by (rule runs_okI[OF run'], rule sys_invI) (use C col N(2)[OF False] lead pub in simp_all)
  qed
qed

lemma run_leader_ok:
  assumes "sys_inv (sys, add_mset (ToLeader g d) pool)"
  shows "runs_ok (ToLeader g d) sys pool"
  using assms
proof (rule sys_invE)
  fix up vp dr ex dn rp lw ag gl pg ap gp
  let ?pool = "add_mset (ToLeader g d) pool"
  assume C: "config_ok sys"
    and col: "collecting up vp dr (ex \<union> dn) (\<lambda>w. worker_entry (sys_workers sys w)) (stage 6 ?pool) (stage 5 ?pool) (stage 4 ?pool)"
    and acc: "accumulating ex dn rp (lw \<union> ag) (\<lambda>w. ws_accumulator (sys_workers sys w)) (stage 3 ?pool) (stage 2 ?pool)"
    and lead: "leading lw ag (gl \<union> pg \<union> ap) (sys_leaders sys) (stage 1 ?pool)"
    and pub: "publishing gl pg ap gp (sys_publisher sys) (sys_result sys) (stage 0 ?pool)"
  let ?ml = "sys_leaders sys g"
  let ?a = "ml_accumulator ?ml"
  let ?a' = "\<lparr> acc_state = m_add VM (acc_state ?a) d, acc_count = acc_count ?a + 1 \<rparr>"
  let ?last = "acc_count ?a + 1 = unat (ex_group_size e)"
  let ?sys = "sys\<lparr> sys_leaders := (sys_leaders sys)(g := ?ml\<lparr> ml_accumulator := ?a' \<rparr>) \<rparr>"
  have "leading lw ag (gl \<union> pg \<union> ap) (sys_leaders sys) (add_mset (ToLeader g d) (stage 1 pool))" using lead by simp
  from leading_receive[OF this]
  obtain w where w: "w \<in> lw" "d = full w" "g \<in> set groups" "g \<notin> gl \<union> pg \<union> ap" "vvalid (acc_state ?a)"
      "leading (lw - {w}) (insert w ag) (if ?last then insert g (gl \<union> pg \<union> ap) else gl \<union> pg \<union> ap)
        ((sys_leaders sys)(g := ?ml\<lparr> ml_accumulator := ?a' \<rparr>)) (stage 1 pool)"
    by blast
  have "vvalid d" using w(2) full_valid by simp
  from aggregate_ok[OF w(5) this, of "unat (ex_group_size e)"]
  have run: "run_task T A key_from None (ToLeader g d) sys = Some (if ?last then [LeaderGet g] else [], ?sys)"
    using config_ok_worker(4)[OF C, of g] by (simp add: run_leader_def Let_def)
  have stages: "stage k (pool + mset (if ?last then [LeaderGet g] else []))
      = (if ?last \<and> k = 0 then add_mset (LeaderGet g) (stage k pool) else stage k pool)" for k by simp
  have lw: "lw - {w} \<union> insert w ag = lw \<union> ag" using w(1) by auto
  have gl: "(if ?last then insert g gl else gl) \<union> pg \<union> ap = (if ?last then insert g (gl \<union> pg \<union> ap) else gl \<union> pg \<union> ap)" by auto
  have "publishing gl pg ap gp (sys_publisher sys) (sys_result sys) (stage 0 pool)" using pub by simp
  from publishing_insert[OF this w(3,4)] this
  have pub': "publishing (if ?last then insert g gl else gl) pg ap gp (sys_publisher sys) (sys_result sys)
      (if ?last then add_mset (LeaderGet g) (stage 0 pool) else stage 0 pool)" by simp
  show ?thesis
  proof (rule runs_okI[OF run], rule sys_invI[where lw = "lw - {w}" and ag = "insert w ag" and gl = "if ?last then insert g gl else gl"],
      unfold lw stages)
    show "config_ok ?sys" using C by (simp add: config_ok_def)
  qed (use col acc w(6)[folded gl] pub' in \<open>simp_all split del: if_split\<close>)
qed

text \<open>A leader that has the shares of all its workers has the sum of its group.\<close>

lemma leading_sum:
  assumes "leading lw ag pf leaders q1" "g \<in> pf"
  shows "accumulator_get (ml_accumulator (leaders g)) = gsum g"
  using assms by (simp add: leading_def accumulator_get_def gsum_def)

lemma run_leader_get_ok:
  assumes "sys_inv (sys, add_mset (LeaderGet g) pool)"
  shows "runs_ok (LeaderGet g) sys pool"
  using assms
proof (rule sys_invE)
  fix up vp dr ex dn rp lw ag gl pg ap gp
  let ?pool = "add_mset (LeaderGet g) pool"
  assume C: "config_ok sys"
    and col: "collecting up vp dr (ex \<union> dn) (\<lambda>w. worker_entry (sys_workers sys w)) (stage 6 ?pool) (stage 5 ?pool) (stage 4 ?pool)"
    and acc: "accumulating ex dn rp (lw \<union> ag) (\<lambda>w. ws_accumulator (sys_workers sys w)) (stage 3 ?pool) (stage 2 ?pool)"
    and lead: "leading lw ag (gl \<union> pg \<union> ap) (sys_leaders sys) (stage 1 ?pool)"
    and pub: "publishing gl pg ap gp (sys_publisher sys) (sys_result sys) (stage 0 ?pool)"
  have "publishing gl pg ap gp (sys_publisher sys) (sys_result sys) (add_mset (LeaderGet g) (stage 0 pool))" using pub by simp
  note P = publishing_leader_get[OF this]
  have run: "run_task T A key_from None (LeaderGet g) sys = Some ([ToPublisher (gsum g)], sys)"
    using leading_sum[OF lead, of g] P(1) by (simp add: run_leader_get_def)
  have gl: "gl - {g} \<union> insert g pg \<union> ap = gl \<union> pg \<union> ap" using P(1) by auto
  show ?thesis
    by (rule runs_okI[OF run], rule sys_invI[where gl = "gl - {g}" and pg = "insert g pg" and ap = ap], unfold gl)
      (use C col acc lead P(2) in simp_all)
qed

lemma run_publisher_ok:
  assumes "sys_inv (sys, add_mset (ToPublisher d) pool)"
  shows "runs_ok (ToPublisher d) sys pool"
  using assms
proof (rule sys_invE)
  fix up vp dr ex dn rp lw ag gl pg ap gp
  let ?pool = "add_mset (ToPublisher d) pool"
  assume C: "config_ok sys"
    and col: "collecting up vp dr (ex \<union> dn) (\<lambda>w. worker_entry (sys_workers sys w)) (stage 6 ?pool) (stage 5 ?pool) (stage 4 ?pool)"
    and acc: "accumulating ex dn rp (lw \<union> ag) (\<lambda>w. ws_accumulator (sys_workers sys w)) (stage 3 ?pool) (stage 2 ?pool)"
    and lead: "leading lw ag (gl \<union> pg \<union> ap) (sys_leaders sys) (stage 1 ?pool)"
    and pub: "publishing gl pg ap gp (sys_publisher sys) (sys_result sys) (stage 0 ?pool)"
  let ?mp = "sys_publisher sys"
  let ?a = "mp_accumulator ?mp"
  let ?a' = "\<lparr> acc_state = m_add VM (acc_state ?a) d, acc_count = acc_count ?a + 1 \<rparr>"
  let ?last = "acc_count ?a + 1 = proto_num_parties T"
  let ?sys = "sys\<lparr> sys_publisher := ?mp\<lparr> mp_accumulator := ?a' \<rparr> \<rparr>"
  have "publishing gl pg ap gp ?mp (sys_result sys) (add_mset (ToPublisher d) (stage 0 pool))" using pub by simp
  from publishing_receive[OF this] obtain g where g: "g \<in> pg" "g \<notin> ap" "d = gsum g" "vvalid (acc_state ?a)"
      "publishing gl (pg - {g}) (insert g ap) ?last (?mp\<lparr> mp_accumulator := ?a' \<rparr>) (sys_result sys)
        (if ?last then add_mset PublisherGet (stage 0 pool) else stage 0 pool)"
    by blast
  have "vvalid d" using g(3) gsum_valid by simp
  from aggregate_ok[OF g(4) this, of "proto_num_parties T"]
  have run: "run_task T A key_from None (ToPublisher d) sys = Some (if ?last then [PublisherGet] else [], ?sys)"
    using config_ok_worker(5)[OF C] by (simp add: run_publisher_def Let_def)
  have stages: "stage k (pool + mset (if ?last then [PublisherGet] else []))
      = (if ?last \<and> k = 0 then add_mset PublisherGet (stage k pool) else stage k pool)" for k by simp
  have pg: "gl \<union> (pg - {g}) \<union> insert g ap = gl \<union> pg \<union> ap" using g(1) by auto
  show ?thesis
  proof (rule runs_okI[OF run], rule sys_invI[where gl = gl and pg = "pg - {g}" and ap = "insert g ap" and gp = ?last], unfold pg stages)
    show "config_ok ?sys" using C by (simp add: config_ok_def)
  qed (use col acc lead g(5) in \<open>simp_all split del: if_split\<close>)
qed

lemma run_publisher_get_ok:
  assumes "sys_inv (sys, add_mset PublisherGet pool)"
  shows "runs_ok PublisherGet sys pool"
  using assms
proof (rule sys_invE)
  fix up vp dr ex dn rp lw ag gl pg ap gp
  let ?pool = "add_mset (PublisherGet) pool"
  assume C: "config_ok sys"
    and col: "collecting up vp dr (ex \<union> dn) (\<lambda>w. worker_entry (sys_workers sys w)) (stage 6 ?pool) (stage 5 ?pool) (stage 4 ?pool)"
    and acc: "accumulating ex dn rp (lw \<union> ag) (\<lambda>w. ws_accumulator (sys_workers sys w)) (stage 3 ?pool) (stage 2 ?pool)"
    and lead: "leading lw ag (gl \<union> pg \<union> ap) (sys_leaders sys) (stage 1 ?pool)"
    and pub: "publishing gl pg ap gp (sys_publisher sys) (sys_result sys) (stage 0 ?pool)"
  let ?sys = "sys\<lparr> sys_result := Some (acc_state (mp_accumulator (sys_publisher sys))) \<rparr>"
  have "publishing gl pg ap gp (sys_publisher sys) (sys_result sys) (add_mset PublisherGet (stage 0 pool))" using pub by simp
  note P = publishing_get[OF this]
  have run: "run_task T A key_from None PublisherGet sys = Some ([], ?sys)" by (simp add: run_publisher_get_def accumulator_get_def)
  show ?thesis
  proof (rule runs_okI[OF run], rule sys_invI[where gp = False])
    show "config_ok ?sys" using C by (simp add: config_ok_def)
  qed (use col acc lead P in simp_all)
qed

lemma run_ok: "sys_inv (sys, add_mset task pool) \<Longrightarrow> runs_ok task sys pool"
  using run_upload_ok run_verify_ok run_drain_ok run_accumulate_ok run_report_ok run_leader_ok run_leader_get_ok run_publisher_ok
    run_publisher_get_ok
  by (cases task) simp_all

end

subsection \<open>The start\<close>

definition registrations :: "'t client_plan list \<Rightarrow> worker_info \<Rightarrow> (u128 \<times> worker_info list) list" where
  "registrations plan w = map (\<lambda>(c, shards, tokens). (c, shards)) (filter (\<lambda>(c, shards, tokens). w \<in> set shards) plan)"

lemma plan_worker_eq:
  "plan_worker ws0 plan w = ws0\<lparr> ws_client_registry := register_clients (registrations plan w) (ws_client_registry ws0) \<rparr>"
proof (induction plan arbitrary: ws0)
  case Nil
  show ?case by (simp add: plan_worker_def registrations_def register_clients_def)
next
  case (Cons x plan)
  obtain c shards tokens where x: "x = (c, shards, tokens)" by (cases x)
  have "plan_worker ws0 (x # plan) w = plan_worker (if w \<in> set shards then worker_register_client c shards ws0 else ws0) plan w"
    by (simp add: plan_worker_def x)
  then show ?case using Cons.IH by (simp add: x registrations_def register_clients_def worker_register_client_def)
qed

context round_system
begin

lemma registrations_clients: "fst ` set (registrations plan w) = clients_of w"
proof
  show "fst ` set (registrations plan w) \<subseteq> clients_of w"
  proof
    fix c
    assume "c \<in> fst ` set (registrations plan w)"
    then obtain shards tokens where m: "(c, shards, tokens) \<in> set plan" "w \<in> set shards" by (auto simp: registrations_def)
    then have "map_of plan c = Some (shards, tokens)" using plan_distinct by simp
    then show "c \<in> clients_of w" using m by (force simp: clients_of_def clients_def sh_def)
  qed
  show "clients_of w \<subseteq> fst ` set (registrations plan w)"
    using plan_mem by (force simp: clients_of_def registrations_def)
qed

lemma registrations_lookup:
  assumes "c \<in> clients_of w"
  shows "map_of (rev (registrations plan w)) c = Some (sh c)"
proof -
  have "map fst (registrations plan w) = map fst (filter (\<lambda>(c, shards, tokens). w \<in> set shards) plan)"
    by (auto simp: registrations_def)
  then have d: "distinct (map fst (registrations plan w))" using plan_distinct by (simp add: distinct_map_filter)
  have "(c, sh c) \<in> set (registrations plan w)"
    using assms plan_mem by (force simp: clients_of_def registrations_def)
  moreover have "distinct (map fst (rev (registrations plan w)))" using d by (simp flip: rev_map)
  ultimately show ?thesis by (simp add: map_of_eq_Some_iff)
qed

lemma uploads_eq:
  "(mset (plan_uploads plan) :: ('t, 's, 'm) task multiset) = tasks_of (\<lambda>(w, c). Upload w c (tokw w c)) {(w, c). c \<in> clients_of w}"
proof -
  let ?F = "\<lambda>(c, shards, tokens). mset (map (\<lambda>(w, t). Upload w c t :: ('t, 's, 'm) task) (zip shards tokens))"
  let ?S = "SIGMA c:clients. set (sh c)"
  have one: "?F (c, sh c, tk c) = (\<Sum>w\<in>set (sh c). {#Upload w c (tokw w c)#})" if c: "c \<in> clients" for c
    using mset_zip_tasks[of "sh c" "tk c" "\<lambda>w t. Upload w c t"] sh_ok[OF c] by (simp add: tokw_def tasks_of_sum)
  have plan_eq: "x = (fst x, sh (fst x), tk (fst x))" if "x \<in> set plan" for x
  proof -
    obtain c shards tokens where x: "x = (c, shards, tokens)" by (rule prod_cases3)
    then have "map_of plan c = Some (shards, tokens)" using that plan_distinct by simp
    then show ?thesis by (simp add: x sh_def tk_def)
  qed
  have dplan: "distinct plan" "inj_on fst (set plan)" using plan_distinct by (simp_all add: distinct_map)
  have "mset (plan_uploads plan) = (\<Sum>x\<in>#mset plan. ?F x)"
    using sum_mset_sum_list[of "map ?F plan"]
    by (simp add: plan_uploads_def mset_concat case_prod_beta' comp_def)
  also have "\<dots> = (\<Sum>x\<in>set plan. ?F x)"
    using mset_set_set[OF dplan(1)] by (simp add: sum_unfold_sum_mset)
  also have "\<dots> = (\<Sum>x\<in>set plan. (\<lambda>c. ?F (c, sh c, tk c)) (fst x))"
    using plan_eq by (intro sum.cong) auto
  also have "\<dots> = (\<Sum>c\<in>clients. ?F (c, sh c, tk c))"
    using sum.reindex[OF dplan(2), of "\<lambda>c. ?F (c, sh c, tk c)"] by (simp add: clients_def comp_def)
  also have "\<dots> = (\<Sum>c\<in>clients. \<Sum>w\<in>set (sh c). {#Upload w c (tokw w c)#})" using one by simp
  also have "\<dots> = (\<Sum>(c, w)\<in>?S. {#Upload w c (tokw w c)#})" by (simp add: sum.Sigma)
  also have "\<dots> = (\<Sum>(w, c)\<in>prod.swap ` ?S. {#Upload w c (tokw w c)#})"
    by (subst sum.reindex) (auto simp: case_prod_beta')
  also have "prod.swap ` ?S = {(w, c). c \<in> clients_of w}" by (force simp: clients_of_def)
  also have "(\<Sum>(w, c)\<in>{(w, c). c \<in> clients_of w}. {#Upload w c (tokw w c)#}) = tasks_of (\<lambda>(w, c). Upload w c (tokw w c)) {(w, c). c \<in> clients_of w}"
    using finite_pairs[OF subset_refl] by (simp add: tasks_of_sum case_prod_beta')
  finally show ?thesis .
qed

end

text \<open>The start of a round, whatever the order in which the clients have registered.\<close>

definition start_state ::
    "('r, 'm, 'k, 't, 's, 'x) protocol_ops_scheme \<Rightarrow> ('r, 'fr, 'sp) experiment_spec \<Rightarrow> worker_info list \<Rightarrow> 't client_plan list
     \<Rightarrow> ('s, 't, 'm, 'r, 'fr, 'sp) worker_state \<Rightarrow> (worker_info \<Rightarrow> client_registry) \<Rightarrow> ('s, 't, 'm, 'r, 'fr, 'sp) config_state" where
  "start_state T e workers plan ws0 regs =
     (\<lparr> sys_workers = (\<lambda>w. ws0\<lparr> ws_client_registry := regs w \<rparr>),
        sys_leaders = (\<lambda>g. leader_from_protocol T (ex_group_size e) (Some ())),
        sys_publisher = publisher_from_protocol T, sys_result = None \<rparr>,
      mset (plan_uploads plan)
      + mset (map (\<lambda>w. ToLeader (worker_group w) (accumulator_get (ws_accumulator ws0))) (idle_workers workers plan)))"

definition plan_registered :: "'t client_plan list \<Rightarrow> (worker_info \<Rightarrow> client_registry) \<Rightarrow> bool" where
  "plan_registered plan regs \<longleftrightarrow> (\<forall>w. distinct (map fst (cr_peers (regs w)))
     \<and> map_of (cr_peers (regs w)) = map_of (rev (registrations plan w)))"

context round_system
begin

lemma parties_pos: "0 < proto_num_parties T"
  using groups_ok(3,4) by (cases groups) simp_all

definition idle :: "worker_info set" where
  "idle = {w \<in> set workers. clients_of w = {}}"

lemma idle_workers_set: "set (idle_workers workers plan) = idle"
proof -
  have "(\<forall>(c, shards, tokens) \<in> set plan. w \<notin> set shards) \<longleftrightarrow> registrations plan w = []" for w
    by (force simp: registrations_def filter_empty_conv)
  moreover have "registrations plan w = [] \<longleftrightarrow> clients_of w = {}" for w using registrations_clients[of w] by auto
  ultimately show ?thesis by (auto simp: idle_workers_def idle_def)
qed

lemma start_pool:
  assumes zero: "accumulator_get (ws_accumulator ws0) = m_zero VM"
  shows "snd (start_state T e workers plan ws0 regs) = tasks_of (\<lambda>(w, c). Upload w c (tokw w c)) {(w, c). c \<in> clients_of w}
    + tasks_of (\<lambda>w. ToLeader (worker_group w) (full w)) idle"
proof -
  have distinct: "distinct (idle_workers workers plan)" using workers_ok(1) by (simp add: idle_workers_def)
  have idle_sum: "full w = m_zero VM" if "w \<in> idle" for w using that by (simp add: idle_def full_def)
  have "mset (map (\<lambda>w. ToLeader (worker_group w) (m_zero VM)) (idle_workers workers plan))
      = mset (map (\<lambda>w. ToLeader (worker_group w) (full w)) (idle_workers workers plan))"
    using idle_sum idle_workers_set by (intro arg_cong[of _ _ mset] map_cong) auto
  also have "\<dots> = tasks_of (\<lambda>w. ToLeader (worker_group w) (full w)) idle"
    using mset_set_set[OF distinct] idle_workers_set by simp
  finally show ?thesis by (simp add: start_state_def uploads_eq zero)
qed

lemma start_inv:
  assumes ws0: "worker_from_experiment T e = Some ws0"
    and reg: "plan_registered plan regs"
  shows "sys_inv (start_state T e workers plan ws0 regs)"
proof -
  obtain gs where ws0_def: "ws0 = \<lparr> ws_audit_registry = audit_registry_new (ex_clients e) gs,
    ws_accumulator = accumulator_new (proto_new_accumulator T), ws_experiment = e, ws_client_registry = client_registry_new \<rparr>"
    using ws0 by (auto simp: worker_from_experiment_def bind_eq_Some_conv)
  have regs: "distinct (map fst (cr_peers (regs w)))" "map_of (cr_peers (regs w)) = map_of (rev (registrations plan w))" for w
    using reg by (auto simp: plan_registered_def)
  obtain sys pool where st: "start_state T e workers plan ws0 regs = (sys, pool)" by fastforce
  let ?up = "{(w, c). c \<in> clients_of w}"
  have zero: "accumulator_get (ws_accumulator ws0) = m_zero VM"
    by (simp add: ws0_def accumulator_get_def accumulator_new_def new_accumulator)
  have stages: "stage k pool = (if k = 6 then tasks_of (\<lambda>(w, c). Upload w c (tokw w c)) ?up
      else if k = 1 then tasks_of (\<lambda>w. ToLeader (worker_group w) (full w)) idle else {#})" for k
  proof -
    let ?U = "tasks_of (\<lambda>(w, c). Upload w c (tokw w c)) ?up :: ('t, 's, 'm) task multiset"
    let ?L = "tasks_of (\<lambda>w. ToLeader (worker_group w) (full w)) idle :: ('t, 's, 'm) task multiset"
    have u: "stage k ?U = (if k = 6 then ?U else {#})" by (rule stage_uniform) auto
    have l: "stage k ?L = (if k = 1 then ?L else {#})" by (rule stage_uniform) auto
    have "pool = ?U + ?L" using start_pool[OF zero, of regs] st by simp
    then show ?thesis unfolding filter_union_mset[symmetric] by (simp only: filter_union_mset u l) simp
  qed
  have sys: "sys_workers sys w = ws0\<lparr> ws_client_registry := regs w \<rparr>" "sys_leaders sys g = leader_from_protocol T (ex_group_size e) (Some ())"
    "sys_publisher sys = publisher_from_protocol T" "sys_result sys = None" for w g
    using st by (auto simp: start_state_def)
  have entry: "worker_entry (sys_workers sys w) c = (None, [])" for w c
    by (simp add: sys worker_entry_def ws0_def audit_registry_new_def audit_entry_def)
  have count: "registry_num_clients (regs w) = card (clients_of w)" for w
    using registrations_clients[of w] by (simp add: num_clients_eq_card[OF regs(1)] regs(2) dom_map_of_conv_image_fst)
  have "config_ok sys"
    unfolding config_ok_def
    using registrations_lookup count
    by (simp add: sys regs(2)) (simp add: ws0_def leader_from_protocol_def publisher_from_protocol_def)
  moreover have "collecting ?up {} {} ({} \<union> {}) (\<lambda>w. worker_entry (sys_workers sys w)) (stage 6 pool) (stage 5 pool) (stage 4 pool)"
  proof -
    have "arrived ?up {} w c = {}" if "c \<in> clients_of w" for w c
      using that by (auto simp: arrived_def clients_of_def)
    moreover have "set (sh c) \<noteq> {}" if "c \<in> clients_of w" for w c using that by (auto simp: clients_of_def)
    ultimately show ?thesis unfolding collecting_def stages entry by (auto simp: entry_ok_def)
  qed
  moreover have "accumulating {} {} {} (idle \<union> {}) (\<lambda>w. ws_accumulator (sys_workers sys w)) (stage 3 pool) (stage 2 pool)"
    unfolding accumulating_def stages
    by (auto simp: sys ws0_def accumulator_new_def new_accumulator idle_def)
  moreover have "leading idle {} ({} \<union> {} \<union> {}) (sys_leaders sys) (stage 1 pool)"
  proof -
    have "{w \<in> set workers. worker_group w = g} \<noteq> {}" if "g \<in> set groups" for g
    proof
      assume "{w \<in> set workers. worker_group w = g} = {}"
      then have "card {w \<in> set workers. worker_group w = g} = 0" by simp
      then show False using group_size(1)[OF that] group_size(2) by simp
    qed
    then show ?thesis unfolding leading_def stages
      by (auto simp: sys leader_from_protocol_def accumulator_new_def new_accumulator idle_def)
  qed
  moreover have "publishing {} {} {} False (sys_publisher sys) (sys_result sys) (stage 0 pool)"
    using groups_ok(4) unfolding publishing_def stages
    by (simp add: sys publisher_from_protocol_def accumulator_new_def new_accumulator)
  ultimately show ?thesis unfolding st by (rule sys_invI)
qed

lemma init_inv: "\<exists>st. sys_init T e workers plan = Some st \<and> sys_inv st"
proof -
  obtain ws0 :: "('s, 't, 'm, 'r, 'fr, 'sp) worker_state" where ws0: "worker_from_experiment T e = Some ws0"
    using groups_ok(1) by (auto simp: worker_from_experiment_def)
  let ?regs = "\<lambda>w. register_clients (registrations plan w) client_registry_new"
  have "distinct (map fst (cr_peers (?regs w)))" for w by (rule register_clients_distinct) (simp add: client_registry_new_def)
  moreover have "map_of (cr_peers (?regs w)) = map_of (rev (registrations plan w))" for w
    by (simp add: register_clients_map client_registry_new_def)
  ultimately have "plan_registered plan ?regs" by (simp add: plan_registered_def)
  from start_inv[OF ws0 this] have "sys_inv (start_state T e workers plan ws0 ?regs)" .
  moreover have "ws_client_registry ws0 = client_registry_new"
    using ws0 by (auto simp: worker_from_experiment_def bind_eq_Some_conv)
  then have "sys_init T e workers plan = Some (start_state T e workers plan ws0 ?regs)"
    by (simp add: sys_init_def ws0 start_state_def plan_worker_eq[abs_def])
  ultimately show ?thesis by blast
qed

end

subsection \<open>Executions\<close>

context round_system
begin

abbreviation steps where
  "steps \<equiv> (sys_step T A key_from)\<^sup>*\<^sup>*"

lemma runs_total: "sys_inv (sys, pool) \<Longrightarrow> task \<in># pool \<Longrightarrow> run_task T A key_from None task sys \<noteq> None"
  using run_ok[of sys task "pool - {#task#}"] by (auto simp: runs_ok_def)

text \<open>A step from a state of the invariant runs a task.\<close>

lemma inv_stepE:
  assumes "sys_step T A key_from st st'" "sys_inv st"
  obtains task sys tasks sys' pool where "st = (sys, add_mset task pool)" "st' = (sys', pool + mset tasks)"
    "run_task T A key_from None task sys = Some (tasks, sys')"
  using assms(1)
proof (rule sys_step_quiet)
  fix task
  assume "task \<in># snd st"
  then show "run_task T A key_from None task (fst st) \<noteq> None" using runs_total[of "fst st" "snd st" task] assms(2) by simp
qed (rule that)

lemma step_inv:
  assumes "sys_step T A key_from st st'" "sys_inv st"
  shows "sys_inv st'"
  using assms
proof (rule inv_stepE)
  fix task sys tasks sys' pool
  assume st: "st = (sys, add_mset task pool)" and st': "st' = (sys', pool + mset tasks)"
    and run: "run_task T A key_from None task sys = Some (tasks, sys')"
  have "runs_ok task sys pool" using run_ok assms(2) st by blast
  then show ?thesis using run st' by (auto simp: runs_ok_def)
qed

lemma steps_inv: "steps st st' \<Longrightarrow> sys_inv st \<Longrightarrow> sys_inv st'"
  by (induction rule: rtranclp_induct) (auto intro: step_inv)

text \<open>A task panics only in the log of the throughput.\<close>

lemma panics_iff: "sys_inv (sys, pool) \<Longrightarrow> task \<in># pool \<Longrightarrow> run_task T A key_from elapsed task sys = None \<longleftrightarrow> log_panics elapsed task sys"
  using runs_total[of sys pool task] run_task_elapsed[of T A key_from elapsed task sys] by auto

lemma upload_shards:
  assumes "sys_inv (sys, add_mset (Upload w c t) pool)"
  shows "\<exists>ps. map_of (cr_peers (ws_client_registry (sys_workers sys w))) c = Some ps \<and> length ps \<le> proto_num_parties T"
proof -
  obtain up vp dr fin entry where C: "config_ok sys"
    "collecting up vp dr fin entry (stage 6 (add_mset (Upload w c t) pool)) (stage 5 (add_mset (Upload w c t) pool)) (stage 4 (add_mset (Upload w c t) pool))"
    using assms by (rule sys_invE)
  then have "collecting up vp dr fin entry (add_mset (Upload w c t) (stage 6 pool)) (stage 5 pool) (stage 4 pool)" by simp
  then have c: "c \<in> clients_of w" by (rule collecting_upload(2))
  then have "length (sh c) = proto_num_parties T" using clients_of_worker sh_ok(3) by blast
  then show ?thesis using config_ok_worker(3)[OF C(1) c] by simp
qed

lemma to_leader_group:
  assumes "sys_inv (sys, add_mset (ToLeader g d) pool)"
  shows "g \<in> set groups"
proof -
  obtain lw ag pf where "leading lw ag pf (sys_leaders sys) (stage 1 (add_mset (ToLeader g d) pool))"
    using assms by (rule sys_invE)
  then have "leading lw ag pf (sys_leaders sys) (add_mset (ToLeader g d) (stage 1 pool))" by simp
  from leading_receive[OF this] show ?thesis by blast
qed

abbreviation work :: "('s, 't, 'm, 'r, 'fr, 'sp) config_state \<Rightarrow> nat" where
  "work \<equiv> work_left (proto_num_parties T) (set groups)"

lemma step_work:
  assumes "sys_step T A key_from st st'" "sys_inv st"
  shows "work st' < work st"
  using assms
proof (rule inv_stepE)
  fix task sys tasks sys' pool
  assume st: "st = (sys, add_mset task pool)" "st' = (sys', pool + mset tasks)"
    and run: "run_task T A key_from None task sys = Some (tasks, sys')"
  show ?thesis
    unfolding st by (rule run_task_work[OF run]) (use assms(2) st(1) upload_shards to_leader_group in auto)
qed

lemma start_work: "work st \<le> pool_weight (proto_num_parties T) (snd st) + 2 * proto_num_parties T + 1"
  using work_left_start[of "set groups"] groups_ok(2,3) by (metis List.finite_set distinct_card)

text \<open>When nothing is in flight any more, every token has been accumulated exactly once and the publisher has
  the sum of all of them.\<close>

lemma accumulatingD:
  assumes "accumulating ex dn rp fw acc q3 q2"
  shows "ex \<subseteq> {(w, c). c \<in> clients_of w}" "dn \<subseteq> {(w, c). c \<in> clients_of w}"
    "q3 = tasks_of (\<lambda>(w, c). Accumulate w c (val w c)) ex"
    "count q2 (Report w (card (clients_of w))) = (if w \<in> rp then 1 else 0)"
    "w \<in> rp \<union> fw \<longleftrightarrow> w \<in> set workers \<and> {c. (w, c) \<in> dn} = clients_of w"
  using assms unfolding accumulating_def by blast+

lemma tasks_of_empty:
  fixes f :: "'i \<Rightarrow> ('t, 's, 'm) task"
  shows "finite S \<Longrightarrow> tasks_of f S = {#} \<Longrightarrow> S = {}"
  by (simp add: mset_set_empty_iff)

lemma result_when_done:
  assumes "sys_inv (sys, {#})"
  shows "sys_result sys = Some (msum (\<Sum>c\<in>clients. image_mset out (mset (tk c))))"
  using assms
proof (rule sys_invE)
  fix up vp dr ex dn rp lw ag gl pg ap gp
  assume col: "collecting up vp dr (ex \<union> dn) (\<lambda>w. worker_entry (sys_workers sys w)) (stage 6 {#}) (stage 5 {#}) (stage 4 {#})"
    and acc: "accumulating ex dn rp (lw \<union> ag) (\<lambda>w. ws_accumulator (sys_workers sys w)) (stage 3 {#}) (stage 2 {#})"
    and lead: "leading lw ag (gl \<union> pg \<union> ap) (sys_leaders sys) (stage 1 {#})"
    and pub: "publishing gl pg ap gp (sys_publisher sys) (sys_result sys) (stage 0 {#})"
  note C = collectingD[OF col]
  have "up = {}" using tasks_of_empty[OF finite_pairs[OF C(1)]] C(5)[symmetric] by simp
  moreover have "vp = {}" using tasks_of_empty[OF finite_triples[OF C(2)]] C(6)[symmetric] by simp
  moreover have "dr = {}" using tasks_of_empty[OF finite_pairs[OF C(3)]] C(7)[symmetric] by simp
  ultimately have fin: "(w, c) \<in> ex \<union> dn" if "c \<in> clients_of w" for w c
    using C(8)[OF that] by (auto simp: entry_ok_def arrived_def split: if_splits)
  note A = accumulatingD[OF acc]
  have "ex = {}" using tasks_of_empty[OF finite_pairs[OF A(1)]] A(3)[symmetric] by simp
  then have "{c. (w, c) \<in> dn} = clients_of w" for w using fin A(2) by auto
  moreover have "w \<notin> rp" for w using A(4)[of w] by (simp split: if_splits)
  ultimately have all: "lw \<union> ag = set workers" using A(5) by auto
  have L: "lw \<subseteq> set workers" "{#} = (tasks_of (\<lambda>w. ToLeader (worker_group w) (full w)) lw :: ('t, 's, 'm) task multiset)"
    "\<And>g. g \<in> gl \<union> pg \<union> ap \<longleftrightarrow> g \<in> set groups \<and> {w \<in> ag. worker_group w = g} = {w \<in> set workers. worker_group w = g}"
    using lead unfolding leading_def filter_empty_mset by blast+
  have "lw = {}" using tasks_of_empty[OF finite_subset[OF L(1) finite_set]] L(2) by metis
  then have "gl \<union> pg \<union> ap = set groups" using all L(3) by auto
  moreover have P: "sys_result sys = (if ap = set groups \<and> \<not> gp then Some (msum (tasks_of gsum (set groups))) else None)"
    "{#} = tasks_of LeaderGet gl + tasks_of (\<lambda>g. ToPublisher (gsum g)) pg + (if gp then {#PublisherGet#} else {#} :: ('t, 's, 'm) task multiset)"
    using pub unfolding publishing_def filter_empty_mset by blast+
  moreover have "gl = {}" "pg = {}" "\<not> gp"
    using P(2) publishing_finite[OF pub] by (auto simp: mset_set_empty_iff split: if_splits)
  ultimately show ?thesis using grand_total by simp
qed

text \<open>Every execution ends, within the weight of the start, and the end can be reached from wherever it is.\<close>

lemma steps_bound:
  assumes "(sys_step T A key_from ^^ n) st st'" "sys_inv st"
  shows "n + work st' \<le> work st"
  using assms(1)
proof (induction n arbitrary: st')
  case (Suc n)
  then obtain st1 where st1: "(sys_step T A key_from ^^ n) st st1" "sys_step T A key_from st1 st'" by auto
  then have "sys_inv st1" using steps_inv[OF relpowp_imp_rtranclp] assms(2) by blast
  from step_work[OF st1(2) this] Suc.IH[OF st1(1)] show ?case by simp
qed simp

lemma reaches_end: "sys_inv st \<Longrightarrow> \<exists>sys. steps st (sys, {#})"
proof (induction "work st" arbitrary: st rule: less_induct)
  case less
  obtain sys pool where st: "st = (sys, pool)" by (cases st)
  show ?case
  proof (cases pool)
    case empty
    then show ?thesis using st by blast
  next
    case (add task pool')
    obtain tasks sys' where "run_task T A key_from None task sys = Some (tasks, sys')" using runs_total[of sys pool task] less.prems st add by auto
    then have s: "sys_step T A key_from st (sys', pool' + mset tasks)" unfolding st add by (rule sys_step.run)
    then obtain sys'' where "steps (sys', pool' + mset tasks) (sys'', {#})"
      using less.hyps[OF step_work[OF s less.prems] step_inv[OF s less.prems]] by blast
    then show ?thesis using s by (meson converse_rtranclp_into_rtranclp)
  qed
qed

end

subsection \<open>What a round promises\<close>

text \<open>No worker counts more clients than have registered, no leader more workers than its group has, and the
  publisher not more groups than there are.\<close>

definition counts_ok :: "('s, 't, 'm, 'r, 'fr, 'sp) system \<Rightarrow> bool" where
  "counts_ok sys \<longleftrightarrow>
     (\<forall>w. acc_count (ws_accumulator (sys_workers sys w)) \<le> registry_num_clients (ws_client_registry (sys_workers sys w)))
   \<and> (\<forall>g. acc_count (ml_accumulator (sys_leaders sys g)) \<le> ml_total_workers (sys_leaders sys g))
   \<and> acc_count (mp_accumulator (sys_publisher sys)) \<le> mp_total_groups (sys_publisher sys)"

text \<open>From a state of the system: every execution is bounded; a task that is ever in flight panics exactly if it divides by zero in the
  log of the throughput; the end can be reached from every state of it; and at the end the publisher has the result.\<close>

definition round_from ::
    "('r, 'm, 'k, 't, 's, 'x) protocol_ops_scheme \<Rightarrow> ('m, 'p) acc_ops \<Rightarrow> (('fr, 'sp) channel_key_wrapper \<Rightarrow> string + 'k)
     \<Rightarrow> ('s, 't, 'm, 'r, 'fr, 'sp) config_state \<Rightarrow> 'm list \<Rightarrow> bool" where
  "round_from T A key_from st0 res \<longleftrightarrow>
     (\<forall>n st. (sys_step T A key_from ^^ n) st0 st \<longrightarrow>
        n \<le> pool_weight (proto_num_parties T) (snd st0) + 2 * proto_num_parties T + 1)
   \<and> (\<forall>st. (sys_step T A key_from)\<^sup>*\<^sup>* st0 st \<longrightarrow>
        (\<forall>task elapsed. task \<in># snd st \<longrightarrow>
          (run_task T A key_from elapsed task (fst st) = None \<longleftrightarrow> log_panics elapsed task (fst st)))
      \<and> counts_ok (fst st)
      \<and> (\<exists>sys. (sys_step T A key_from)\<^sup>*\<^sup>* st (sys, {#}))
      \<and> (snd st = {#} \<longrightarrow> sys_result (fst st) = Some res))"

text \<open>A round from its start.\<close>

definition round_delivers ::
    "('r, 'm, 'k, 't, 's, 'x) protocol_ops_scheme \<Rightarrow> ('m, 'p) acc_ops \<Rightarrow> (('fr, 'sp) channel_key_wrapper \<Rightarrow> string + 'k)
     \<Rightarrow> ('r, 'fr, 'sp) experiment_spec \<Rightarrow> worker_info list \<Rightarrow> 't client_plan list \<Rightarrow> 'm list \<Rightarrow> bool" where
  "round_delivers T A key_from e workers plan res \<longleftrightarrow>
     (\<exists>st0. sys_init T e workers plan = Some st0 \<and> round_from T A key_from st0 res)"

text \<open>The same from every start in which the clients of the plan are registered, in whatever order.\<close>

definition round_correct ::
    "('r, 'm, 'k, 't, 's, 'x) protocol_ops_scheme \<Rightarrow> ('m, 'p) acc_ops \<Rightarrow> (('fr, 'sp) channel_key_wrapper \<Rightarrow> string + 'k)
     \<Rightarrow> ('r, 'fr, 'sp) experiment_spec \<Rightarrow> worker_info list \<Rightarrow> 't client_plan list \<Rightarrow> 'm list \<Rightarrow> bool" where
  "round_correct T A key_from e workers plan res \<longleftrightarrow> round_delivers T A key_from e workers plan res
     \<and> (\<forall>ws0 regs. worker_from_experiment T e = Some ws0 \<longrightarrow> plan_registered plan regs \<longrightarrow>
          round_from T A key_from (start_state T e workers plan ws0 regs) res)"

context round_system
begin

lemma plan_sum:
  "msum (\<Sum>c\<in>clients. image_mset out (mset (tk c))) = fold_add VM (map (\<lambda>(c, shards, tokens). fold_add VM (map out tokens)) plan)"
proof -
  have valid: "list_all vvalid (map out tokens)" if "(c, shards, tokens) \<in> set plan" for c shards tokens
    using plan_tokens[OF that] by (auto simp: list_all_iff)
  have dplan: "distinct plan" "inj_on fst (set plan)" using plan_distinct by (simp_all add: distinct_map)
  let ?F = "\<lambda>x. image_mset out (mset (snd (snd x)))"
  have "tk (fst x) = snd (snd x)" if "x \<in> set plan" for x
  proof -
    obtain c shards tokens where x: "x = (c, shards, tokens)" by (rule prod_cases3)
    then have "map_of plan c = Some (shards, tokens)" using that plan_distinct by simp
    then show ?thesis by (simp add: x tk_def)
  qed
  then have "(\<Sum>c\<in>clients. image_mset out (mset (tk c))) = (\<Sum>x\<in>set plan. ?F x)"
    unfolding clients_def using sum.reindex[OF dplan(2), of "\<lambda>c. image_mset out (mset (tk c))"] by simp
  also have "\<dots> = (\<Sum>x\<in>#mset plan. ?F x)" using mset_set_set[OF dplan(1)] by (simp add: sum_unfold_sum_mset)
  also have "msum \<dots> = msum (image_mset (\<lambda>x. msum (?F x)) (mset plan))"
    using valid by (intro msum_nested[symmetric]) (force simp: list_all_iff)
  also have "\<dots> = msum (mset (map (\<lambda>(c, shards, tokens). fold_add VM (map out tokens)) plan))"
  proof -
    have "msum (?F x) = (\<lambda>(c, shards, tokens). fold_add VM (map out tokens)) x" if "x \<in> set plan" for x
    proof -
      obtain c shards tokens where x: "x = (c, shards, tokens)" by (rule prod_cases3)
      then show ?thesis using msum_mset[OF valid[of c shards tokens]] that by simp
    qed
    then show ?thesis by (auto intro!: arg_cong[of _ _ msum] image_mset_cong)
  qed
  also have "\<dots> = fold_add VM (map (\<lambda>(c, shards, tokens). fold_add VM (map out tokens)) plan)"
    using valid by (intro msum_mset) (auto simp: list_all_iff intro!: fold_add_valid)
  finally show ?thesis .
qed

lemma inv_counts:
  assumes "sys_inv (sys, pool)"
  shows "counts_ok sys"
  using assms
proof (rule sys_invE)
  fix up vp dr ex dn rp lw ag gl pg ap gp
  assume C: "config_ok sys"
    and acc: "accumulating ex dn rp (lw \<union> ag) (\<lambda>w. ws_accumulator (sys_workers sys w)) (stage 3 pool) (stage 2 pool)"
    and lead: "leading lw ag (gl \<union> pg \<union> ap) (sys_leaders sys) (stage 1 pool)"
    and pub: "publishing gl pg ap gp (sys_publisher sys) (sys_result sys) (stage 0 pool)"
  have "acc_count (ws_accumulator (sys_workers sys w)) \<le> registry_num_clients (ws_client_registry (sys_workers sys w))" for w
  proof -
    have "dn \<subseteq> {(w, c). c \<in> clients_of w}" "acc_count (ws_accumulator (sys_workers sys w)) = card {c. (w, c) \<in> dn}"
      using acc unfolding accumulating_def by blast+
    then show ?thesis using config_ok_worker(2)[OF C, of w] card_mono[of "clients_of w" "{c. (w, c) \<in> dn}"] by auto
  qed
  moreover have "acc_count (ml_accumulator (sys_leaders sys g)) \<le> ml_total_workers (sys_leaders sys g)" for g
  proof -
    have ag: "ag \<subseteq> set workers" and n: "acc_count (ml_accumulator (sys_leaders sys g)) = card {w \<in> ag. worker_group w = g}"
      using lead unfolding leading_def by blast+
    have "card {w \<in> ag. worker_group w = g} \<le> card {w \<in> set workers. worker_group w = g}" using ag by (intro card_mono) auto
    also have "\<dots> \<le> unat (ex_group_size e)"
    proof (cases "g \<in> set groups")
      case False
      then have "{w \<in> set workers. worker_group w = g} = {}" using workers_ok(2) by auto
      then show ?thesis by (metis card.empty le0)
    qed (use group_size(1) in simp)
    finally show ?thesis using n config_ok_worker(4)[OF C] by simp
  qed
  moreover have "acc_count (mp_accumulator (sys_publisher sys)) \<le> mp_total_groups (sys_publisher sys)"
  proof -
    have "ap \<subseteq> set groups" "acc_count (mp_accumulator (sys_publisher sys)) = card ap" using pub unfolding publishing_def by blast+
    then show ?thesis
      using config_ok_worker(5)[OF C] groups_ok(2,3) card_mono[of "set groups" ap] by (simp add: distinct_card)
  qed
  ultimately show ?thesis unfolding counts_ok_def by blast
qed

lemma inv_round:
  assumes st0: "sys_inv st0"
  shows "round_from T A key_from st0 (fold_add VM (map (\<lambda>(c, shards, tokens). fold_add VM (map out tokens)) plan))"
proof -
  have bound: "n \<le> pool_weight (proto_num_parties T) (snd st0) + 2 * proto_num_parties T + 1" if "(sys_step T A key_from ^^ n) st0 st" for n st
    using steps_bound[OF that st0] start_work[of st0] by simp
  have run: "run_task T A key_from elapsed task (fst st) = None \<longleftrightarrow> log_panics elapsed task (fst st)" if "steps st0 st" "task \<in># snd st"
    for st task elapsed
    using panics_iff[of "fst st" "snd st" task elapsed] steps_inv[OF that(1) st0] that(2) by simp
  have counts: "counts_ok (fst st)" if "steps st0 st" for st
    using inv_counts[of "fst st" "snd st"] steps_inv[OF that st0] by simp
  have ends: "\<exists>sys. steps st (sys, {#})" if "steps st0 st" for st using reaches_end steps_inv[OF that st0] by blast
  have "sys_result (fst st) = Some (fold_add VM (map (\<lambda>(c, shards, tokens). fold_add VM (map out tokens)) plan))"
    if "steps st0 st" "snd st = {#}" for st
    using result_when_done[of "fst st"] steps_inv[OF that(1) st0] that(2) unfolding plan_sum by (metis prod.collapse)
  then show ?thesis unfolding round_from_def using bound run counts ends by blast
qed

lemma round_ok:
  "round_correct T A key_from e workers plan (fold_add VM (map (\<lambda>(c, shards, tokens). fold_add VM (map out tokens)) plan))"
  using init_inv inv_round start_inv unfolding round_correct_def round_delivers_def by blast

end

end
