(* ===== verification/Delivery.thy ===== *)
theory Delivery
  imports Rounds
begin

text \<open>
  Rounds of the protocols of \<open>secure.rs\<close> in the whole system. The workers are those that
  \<open>Experiment::iter_services\<close> lists, the clients' tokens are those that \<open>broadcast\<close> and \<open>cover\<close> make, and
  every client has chosen a worker for each of its tokens. The locale \<open>round_system\<close> is interpreted on these
  definitions, for every verifiable point function with a correct round.
\<close>

section \<open>Workers of an experiment\<close>

definition service_workers :: "('fr, 'sp) service list \<Rightarrow> worker_info list" where
  "service_workers ss = concat (map (\<lambda>s. case s of Worker w \<Rightarrow> [w] | _ \<Rightarrow> []) ss)"

definition round_groups :: "u16 \<Rightarrow> group list" where
  "round_groups n = map (\<lambda>i. \<lparr> group_idx = of_nat i \<rparr>) [0..<unat n]"

lemma set_service_workers: "set (service_workers ss) = {w. Worker w \<in> set ss}"
  by (force simp: service_workers_def split: service.splits)

lemma distinct_service_workers: "distinct ss \<Longrightarrow> distinct (service_workers ss)"
proof (induction ss)
  case (Cons s ss)
  then show ?case using set_service_workers[of ss] by (auto simp: service_workers_def split: service.splits)
qed (simp add: service_workers_def)

lemma experiment_workers:
  assumes ss: "iter_services e = Some ss" and n: "experiment_groups e = Some n"
  shows "distinct (service_workers ss)"
    "set (service_workers ss) = {w. group_idx (worker_group w) < n \<and> worker_idx w < ex_group_size e}"
  using iter_services_distinct[OF ss n] iter_services_set[OF ss n]
  by (simp_all add: distinct_service_workers set_service_workers)

lemma round_groups_ok: "distinct (round_groups n)" "length (round_groups n) = unat n" "set (round_groups n) = {g. group_idx g < n}"
proof -
  show "distinct (round_groups n)"
    using of_nat_u16_inj by (auto simp: round_groups_def distinct_map inj_on_def)
  show "length (round_groups n) = unat n" by (simp add: round_groups_def)
  have "set (round_groups n) = (\<lambda>i. \<lparr> group_idx = i \<rparr>) ` of_nat ` {0..<unat n}"
    by (simp add: round_groups_def image_image)
  also have "\<dots> = (\<lambda>i. \<lparr> group_idx = i \<rparr>) ` {i. i < n}" by (simp only: set_u16_range)
  also have "\<dots> = {g. group_idx g < n}" by (auto intro!: image_eqI group.equality)
  finally show "set (round_groups n) = {g. group_idx g < n}" .
qed

lemma group_workers_card:
  fixes g :: group
  assumes "group_idx g < n"
  shows "card {w \<in> {w :: worker_info. group_idx (worker_group w) < n \<and> worker_idx w < k}. worker_group w = g} = unat k"
proof -
  have "{w \<in> {w :: worker_info. group_idx (worker_group w) < n \<and> worker_idx w < k}. worker_group w = g}
      = (\<lambda>i. \<lparr> worker_group = g, worker_idx = i \<rparr>) ` of_nat ` {0..<unat k}"
    unfolding set_u16_range using assms by (auto intro!: image_eqI worker_info.equality)
  also have "card \<dots> = card ((of_nat :: nat \<Rightarrow> u16) ` {0..<unat k})"
    by (rule card_image) (auto simp: inj_on_def)
  also have "\<dots> = unat k" using of_nat_u16_inj[of _ k] by (subst card_image) (auto simp: inj_on_def)
  finally show ?thesis .
qed

section \<open>Honest rounds\<close>

text \<open>A round with honest clients: client \<open>ids ! i\<close> performs the action \<open>acts ! i\<close> with the randomness
  \<open>rs ! i\<close> and has chosen the workers \<open>shards ! i\<close>.\<close>

definition honest_plan ::
    "('r, 'm, 'k, 't, 's, 'x) protocol_ops_scheme \<Rightarrow> 'k list \<Rightarrow> 'm action list \<Rightarrow> 'r list \<Rightarrow> u128 list
     \<Rightarrow> worker_info list list \<Rightarrow> 't client_plan list option" where
  "honest_plan T keys acts rs ids shards =
     do { tokens \<leftarrow> all_clients T keys acts rs; Some (zip ids (zip shards tokens)) }"

definition inputs_ok :: "nat \<Rightarrow> worker_info list \<Rightarrow> 'm action list \<Rightarrow> 'r list \<Rightarrow> u128 list \<Rightarrow> worker_info list list \<Rightarrow> bool" where
  "inputs_ok parties workers acts rs ids shards \<longleftrightarrow>
     distinct ids \<and> length ids = length acts \<and> length rs = length acts \<and> length shards = length acts
     \<and> list_all (\<lambda>s. distinct s \<and> length s = parties \<and> list_all (\<lambda>w. w \<in> set workers) s) shards"

lemma try_map_list_all2: "try_map f xs = Some ys \<Longrightarrow> list_all2 (\<lambda>x y. f x = Some y) xs ys"
  by (induction xs arbitrary: ys) (auto simp: bind_eq_Some_conv)

context protocol_round
begin

lemma honest_clients:
  assumes acts: "list_all (action_valid valid (dpf_points V)) acts" and keys: "vec_valid validA (dpf_points V) keys"
    and clients: "all_clients T keys acts rs = Some clients" "length rs = length acts"
  shows "length clients = length acts"
    "map (\<lambda>tokens. fold_add VM (map (\<lambda>t. out (wt_key t)) tokens)) clients = map action_vec acts"
    "tokens \<in> set clients \<Longrightarrow> length tokens = dpf_keys V \<and> list_all (\<lambda>t. validK (wt_key t)) tokens
      \<and> (\<forall>t \<in> set tokens. wrapper_gen_audit V keys t \<noteq> None)"
proof -
  have spec: "length tokens = dpf_keys V \<and> list_all (\<lambda>t. validK (wt_key t)) tokens
      \<and> fold_add VM (map (\<lambda>t. out (wt_key t)) tokens) = action_vec a \<and> (\<forall>t \<in> set tokens. wrapper_gen_audit V keys t \<noteq> None)"
    if a: "action_valid valid (dpf_points V) a" and t: "client_tokens T keys a r = Some (tokens, r')" for a tokens r r'
  proof -
    have "audit_verdicts T keys tokens \<noteq> None" using client_tokens_spec[OF a keys, of r] t by auto
    then have "try_map (wrapper_gen_audit V keys) tokens \<noteq> None"
      by (auto simp: audit_verdicts_def server_shares_def bind_eq_None_conv)
    then have "\<forall>t \<in> set tokens. wrapper_gen_audit V keys t \<noteq> None" unfolding try_map_None_iff by simp
    then show ?thesis using client_tokens_spec[OF a keys, of r] t by auto
  qed
  have "list_all2 (\<lambda>(a, r) tokens. \<exists>r'. client_tokens T keys a r = Some (tokens, r')) (zip acts rs) clients"
    using try_map_list_all2[OF clients(1)[unfolded all_clients_def]]
    by (rule list_all2_mono) (auto split: prod.splits)
  then have "list_all2 (\<lambda>a tokens. \<exists>r r'. client_tokens T keys a r = Some (tokens, r')) acts clients"
    using clients(2) by (simp add: list_all2_conv_all_nth) metis
  then have "length clients = length acts
      \<and> map (\<lambda>tokens. fold_add VM (map (\<lambda>t. out (wt_key t)) tokens)) clients = map action_vec acts
      \<and> (\<forall>tokens \<in> set clients. length tokens = dpf_keys V \<and> list_all (\<lambda>t. validK (wt_key t)) tokens
          \<and> (\<forall>t \<in> set tokens. wrapper_gen_audit V keys t \<noteq> None))"
    using acts by (induction rule: list_all2_induct) (use spec in auto)
  then show "length clients = length acts"
    "map (\<lambda>tokens. fold_add VM (map (\<lambda>t. out (wt_key t)) tokens)) clients = map action_vec acts"
    "tokens \<in> set clients \<Longrightarrow> length tokens = dpf_keys V \<and> list_all (\<lambda>t. validK (wt_key t)) tokens
      \<and> (\<forall>t \<in> set tokens. wrapper_gen_audit V keys t \<noteq> None)"
    by blast+
qed

end

text \<open>An honest round satisfies everything that a round of the system relies on.\<close>

context protocol_round
begin

lemma honest_round_system:
  assumes acts: "list_all (action_valid valid (dpf_points V)) acts" and keys: "vec_valid validA (dpf_points V) keys"
    and check: "\<And>ts. length ts = dpf_keys V \<Longrightarrow> vdpf_check_audit V ts \<noteq> None"
    and e: "collect_result key_from (ex_keys e) = Inr keys" "\<not> ex_hammer e" "1 \<le> ex_group_size e"
    and n: "experiment_groups e = Some n" "unat n = dpf_keys V" "0 < dpf_keys V"
    and ss: "iter_services e = Some ss"
    and ok: "inputs_ok (dpf_keys V) (service_workers ss) acts rs ids shards"
    and plan: "honest_plan T keys acts rs ids shards = Some plan"
  shows "round_system VM (vec_valid valid (dpf_points V)) T A key_from e keys (service_workers ss) (round_groups n) plan
      (\<lambda>t. out (wt_key t))"
    and "map (\<lambda>(c, s, tokens). fold_add VM (map (\<lambda>t. out (wt_key t)) tokens)) plan = map action_vec acts"
proof -
  obtain clients where P: "all_clients T keys acts rs = Some clients" "plan = zip ids (zip shards clients)"
      "distinct ids" "length ids = length acts" "length rs = length acts" "length shards = length acts"
      "\<And>s. s \<in> set shards \<Longrightarrow> distinct s \<and> length s = dpf_keys V \<and> set s \<subseteq> set (service_workers ss)"
    using plan ok by (auto simp: honest_plan_def inputs_ok_def bind_eq_Some_conv list_all_iff)
  note H = honest_clients[OF acts keys P(1,5)]
  have mem: "s \<in> set shards \<and> tokens \<in> set clients" if "(c, s, tokens) \<in> set plan" for c s tokens
    using set_zip_rightD[OF that[unfolded P(2)]] by (blast dest: set_zip_rightD set_zip_leftD)
  note W = experiment_workers[OF ss n(1)]
  have pos: "0 < unat (ex_group_size e)" using e(3) by (simp add: word_le_nat_alt unat_eq_0 word_neq_0_conv)
  show "round_system VM (vec_valid valid (dpf_points V)) T A key_from e keys (service_workers ss) (round_groups n) plan
      (\<lambda>t. out (wt_key t))"
  proof (intro round_system.intro round_system_axioms.intro vec_monoid_laws)
    show "acc_combine (vec_acc A) a b = Some (m_add VM a b)"
      if "vec_valid valid (dpf_points V) a" "vec_valid valid (dpf_points V) b" for a b
      using acc.vec_combine[OF that] by simp
    show "proto_new_accumulator T = m_zero VM" using new_accumulator_eq by simp
    show "experiment_groups e \<noteq> None" "length (round_groups n) = proto_num_parties T"
      using n round_groups_ok by simp_all
    show "round_groups n \<noteq> []" using n(2,3) round_groups_ok(2)[of n] by auto
    show "worker_group w \<in> set (round_groups n)" if "w \<in> set (service_workers ss)" for w
      using that W(2) round_groups_ok(3) by simp
    show "card {w \<in> set (service_workers ss). worker_group w = g} = unat (ex_group_size e)" if "g \<in> set (round_groups n)" for g
      using group_workers_card[of g n "ex_group_size e"] that unfolding W(2) round_groups_ok(3) by simp
    show "distinct (map fst plan)" using P(2-6) H(1) by simp
    show "distinct s \<and> set s \<subseteq> set (service_workers ss) \<and> length s = proto_num_parties T \<and> length tokens = proto_num_parties T"
      if "(c, s, tokens) \<in> set plan" for c s tokens
      using mem[OF that] P(7)[of s] H(3)[of tokens] by simp
    show "(\<exists>ts. proto_gen_audit T keys t = Some ts \<and> length ts = proto_num_parties T)
        \<and> proto_to_accumulator T t = Some (out (wt_key t)) \<and> vec_valid valid (dpf_points V) (out (wt_key t))
        \<and> length (out (wt_key t)) = proto_num_channels T"
      if "(c, s, tokens) \<in> set plan" "t \<in> set tokens" for c s tokens t
    proof -
      have t: "validK (wt_key t)" "wrapper_gen_audit V keys t \<noteq> None"
        using mem[OF that(1)] H(3)[of tokens] that(2) by (auto simp: list_all_iff)
      then show ?thesis
        using eval_eq[OF t(1)] out_valid[OF t(1)] by (auto simp: wrapper_gen_audit_def wrapper_to_accumulator_def vec_valid_def bind_eq_Some_conv)
    qed
    show "\<exists>b. proto_check_audit T ts = Some b" if "length ts = proto_num_parties T" for ts
      using check[of "map share_token ts"] that by (auto simp: wrapper_check_audit_def)
  qed (use e round_groups_ok W pos in simp_all)
  have "map (\<lambda>(c, s, tokens). fold_add VM (map (\<lambda>t. out (wt_key t)) tokens)) plan
      = map (\<lambda>tokens. fold_add VM (map (\<lambda>t. out (wt_key t)) tokens)) (map (snd \<circ> snd) plan)"
    by (simp add: comp_def case_prod_beta')
  also have "map (snd \<circ> snd) plan = clients"
    using P(2,4,6) H(1) by (simp flip: map_map)
  also have "map (\<lambda>tokens. fold_add VM (map (\<lambda>t. out (wt_key t)) tokens)) clients = map action_vec acts" by (rule H(2))
  finally show "map (\<lambda>(c, s, tokens). fold_add VM (map (\<lambda>t. out (wt_key t)) tokens)) plan = map action_vec acts" .
qed

lemma honest_round_delivers:
  assumes acts: "list_all (action_valid valid (dpf_points V)) acts" and keys: "vec_valid validA (dpf_points V) keys"
    and check: "\<And>ts. length ts = dpf_keys V \<Longrightarrow> vdpf_check_audit V ts \<noteq> None"
    and e: "collect_result key_from (ex_keys e) = Inr keys" "\<not> ex_hammer e" "1 \<le> ex_group_size e"
    and n: "experiment_groups e = Some n" "unat n = dpf_keys V" "0 < dpf_keys V"
    and ss: "iter_services e = Some ss"
    and ok: "inputs_ok (dpf_keys V) (service_workers ss) acts rs ids shards"
  shows "\<exists>plan. honest_plan T keys acts rs ids shards = Some plan
    \<and> round_correct T A key_from e (service_workers ss) plan
        (map (\<lambda>j. fold_add M (channel_messages j acts)) [0..<dpf_points V])"
proof -
  obtain plan where plan: "honest_plan T keys acts rs ids shards = Some plan"
    using round_run[OF acts keys, of rs] ok by (auto simp: honest_plan_def inputs_ok_def)
  note S = honest_round_system[OF acts keys check e n ss ok plan]
  have "list_all (vec_valid valid (dpf_points V)) (map action_vec acts)"
    using acts by (auto simp: list_all_iff action_vec_valid)
  then have "fold_add VM (map action_vec acts) = map (\<lambda>j. fold_add M (channel_messages j acts)) [0..<dpf_points V]"
    using length_fold_vec sum_actions_nth[OF acts] by (intro nth_equalityI) simp_all
  then show ?thesis using round_system.round_ok[OF S(1)] S(2) plan by simp
qed

end

section \<open>The three protocols\<close>

lemma experiment_round:
  assumes "experiment_new protocol group_size clients False ks = Some e" "wrapper_num_parties protocol < 2 ^ 16"
  shows "\<exists>n ss. experiment_groups e = Some n \<and> unat n = wrapper_num_parties protocol \<and> iter_services e = Some ss"
    "\<not> ex_hammer e" "1 \<le> ex_group_size e" "ex_keys e = ks"
proof -
  have e: "experiment_valid e" "ex_protocol e = protocol" "\<not> ex_hammer e" "ex_keys e = ks"
    using assms(1) by (simp_all add: experiment_new_iff)
  then show "\<not> ex_hammer e" "1 \<le> ex_group_size e" "ex_keys e = ks" by (simp_all add: experiment_valid_def)
  obtain n where "experiment_groups e = Some n" "unat n = wrapper_num_parties protocol"
    using experiment_groups_eq[of e] assms(2) e(2) by auto
  then show "\<exists>n ss. experiment_groups e = Some n \<and> unat n = wrapper_num_parties protocol \<and> iter_services e = Some ss"
    by (simp add: iter_services_def Let_def)
qed

text \<open>An audit of as many shares as there are parties does not panic, whatever the shares are.\<close>

lemma check_total_two_key:
  assumes "two_key_vdpf env channels msg_size = Some V" "length ts = 2"
  shows "vdpf_check_audit V ts \<noteq> None"
proof -
  have "vdpf_check_audit V = two_key_check_audit"
    using assms(1) by (auto simp: two_key_vdpf_def two_key_vdpf_ops_def bind_eq_Some_conv)
  then show ?thesis using assms(2) by (simp add: two_key_check_audit_def)
qed

lemma check_total_pub:
  assumes "two_key_pub_vdpf env channels msg_size = Some V" "length ts = 2"
  shows "vdpf_check_audit V ts \<noteq> None"
proof -
  have "vdpf_check_audit V = pub_check_audit"
    using assms(1) by (auto simp: two_key_pub_vdpf_def pub_vdpf_ops_def bind_eq_Some_conv)
  then show ?thesis using assms(2) by (simp add: pub_check_audit_def)
qed

lemma check_total_multi:
  assumes "multi_key_vdpf env channels groups msg_size r = (V, r')" "2 \<le> length ts"
  shows "vdpf_check_audit V ts \<noteq> None"
proof -
  let ?F = "scalar_field (env_fr env)" and ?S = "group_shareable (scalar_field (env_fr env)) (scalar_sample (env_random_fr env))"
  have "vdpf_check_audit V = multi_key_check_audit ?F ?S"
    using assms(1) by (auto simp: multi_key_vdpf_def multi_key_vdpf_ops_def Let_def split: prod.splits)
  moreover have "\<exists>pf. proof_share_recover ?S (map proof_share_from_token ts) = Some pf"
    using assms(2) by (simp add: proof_share_recover_def group_shareable_def group_recover_def)
  ultimately show ?thesis by (auto simp: multi_key_check_audit_def)
qed

context crypto
begin

lemma two_key_system:
  assumes V: "two_key_vdpf env channels msg_size = Some V"
    and acts: "list_all (action_valid (\<lambda>b. length b = msg_size) channels) acts" and keys: "vec_valid validS channels keys"
    and e: "experiment_new (Secure V) group_size clients False (map wrapper_from_auth_key keys) = Some e"
    and ss: "iter_services e = Some ss" and ok: "inputs_ok 2 (service_workers ss) acts rs ids shards"
  shows "\<exists>plan. honest_plan (wrapper_protocol V) keys acts rs ids shards = Some plan
    \<and> round_correct (wrapper_protocol V) bytes_acc auth_key_try_from e (service_workers ss) plan
        (map (\<lambda>j. bytes_sum msg_size (channel_messages j acts)) [0..<channels])"
proof -
  let ?M = "\<lparr> m_zero = bytes_empty msg_size, m_add = bytes_xor.xor \<rparr>"
  obtain validK out where R: "protocol_round V (\<lambda>b. length b = msg_size) validS ?M validK out bytes_acc msg_size"
    and sizes: "dpf_points V = channels" "dpf_keys V = 2"
    using two_key_vdpf_round[OF V] by blast
  have check: "vdpf_check_audit V ts \<noteq> None" if "length ts = dpf_keys V" for ts
    using check_total_two_key[OF V] that sizes by simp
  note E = experiment_round[OF e]
  obtain n where n: "experiment_groups e = Some n" "unat n = dpf_keys V" using E(1) sizes by auto
  have kf: "collect_result auth_key_try_from (ex_keys e) = Inr keys" using E(4) sizes auth_keys.collect_keys by simp
  have sums: "map (\<lambda>j. fold_add ?M (channel_messages j acts)) [0..<channels]
      = map (\<lambda>j. bytes_sum msg_size (channel_messages j acts)) [0..<channels]"
    using protocol_round.channel_messages_valid[OF R acts] by (simp add: bytes_sum_eq)
  show ?thesis
    using protocol_round.honest_round_delivers[OF R _ _ check kf _ _ n _ ss, of acts rs ids shards]
      acts keys ok E(2,3) sizes unfolding sums[symmetric] by simp
qed

lemma two_key_pub_system:
  assumes V: "two_key_pub_vdpf env channels msg_size = Some V"
    and acts: "list_all (action_valid (\<lambda>b. length b = msg_size) channels) acts" and privates: "vec_valid validS channels privates"
    and e: "experiment_new (SecurePub V) group_size clients False
      (map wrapper_from_pub_auth_key (map (key_pair_from (env_sp env)) privates)) = Some e"
    and ss: "iter_services e = Some ss" and ok: "inputs_ok 2 (service_workers ss) acts rs ids shards"
  shows "\<exists>plan. honest_plan (wrapper_protocol V) (map (key_pair_from (env_sp env)) privates) acts rs ids shards = Some plan
    \<and> round_correct (wrapper_protocol V) bytes_acc pub_auth_key_try_from e (service_workers ss) plan
        (map (\<lambda>j. bytes_sum msg_size (channel_messages j acts)) [0..<channels])"
proof -
  let ?M = "\<lparr> m_zero = bytes_empty msg_size, m_add = bytes_xor.xor \<rparr>"
  let ?ok = "\<lambda>k. validS (kp_private k) \<and> k = key_pair_from (env_sp env) (kp_private k)"
  let ?keys = "map (key_pair_from (env_sp env)) privates"
  obtain validK out where R: "protocol_round V (\<lambda>b. length b = msg_size) ?ok ?M validK out bytes_acc msg_size"
    and sizes: "dpf_points V = channels" "dpf_keys V = 2"
    using two_key_pub_vdpf_round[OF V] by blast
  have check: "vdpf_check_audit V ts \<noteq> None" if "length ts = dpf_keys V" for ts
    using check_total_pub[OF V] that sizes by simp
  note E = experiment_round[OF e]
  obtain n where n: "experiment_groups e = Some n" "unat n = dpf_keys V" using E(1) sizes by auto
  have kf: "collect_result pub_auth_key_try_from (ex_keys e) = Inr ?keys"
    using E(4) sizes pub_auth_keys.collect_keys[of ?keys] by simp
  have sums: "map (\<lambda>j. fold_add ?M (channel_messages j acts)) [0..<channels]
      = map (\<lambda>j. bytes_sum msg_size (channel_messages j acts)) [0..<channels]"
    using protocol_round.channel_messages_valid[OF R acts] by (simp add: bytes_sum_eq)
  have "vec_valid ?ok channels ?keys" using privates by (auto simp: vec_valid_def list_all_iff key_pair_from_def)
  then show ?thesis
    using protocol_round.honest_round_delivers[OF R _ _ check kf _ _ n _ ss, of acts rs ids shards]
      acts ok E(2,3) sizes unfolding sums[symmetric] by simp
qed

lemma multi_key_system:
  assumes V: "multi_key_vdpf env channels groups msg_size r = (V, r')" "2 \<le> groups" "groups < 2 ^ 16" "0 < channels"
    and acts: "list_all (action_valid (vec_valid validP (msg_size div 32 + 1)) channels) acts" and keys: "vec_valid validS channels keys"
    and e: "experiment_new (SecureMultiKey V) group_size clients False (map wrapper_from_auth_key keys) = Some e"
    and ss: "iter_services e = Some ss" and ok: "inputs_ok groups (service_workers ss) acts rs ids shards"
  shows "\<exists>plan. honest_plan (wrapper_protocol V) keys acts rs ids shards = Some plan
    \<and> round_correct (wrapper_protocol V) (ev_acc (curve_exp (env_sp env))) auth_key_try_from e (service_workers ss) plan
        (map (\<lambda>j. fold_add (vec_monoid (curve_exp (env_sp env)) (msg_size div 32 + 1)) (channel_messages j acts)) [0..<channels])"
proof -
  obtain validK out where R: "protocol_round V (vec_valid validP (msg_size div 32 + 1)) validS
      (vec_monoid (curve_exp (env_sp env)) (msg_size div 32 + 1)) validK out
      (ev_acc (curve_exp (env_sp env))) (Some (msg_size div 32 + 1))"
    and sizes: "dpf_points V = channels" "dpf_keys V = groups"
    using multi_key_vdpf_round[OF V(1,2,4)] by blast
  have check: "vdpf_check_audit V ts \<noteq> None" if "length ts = dpf_keys V" for ts
    using check_total_multi[OF V(1)] that V(2) sizes by simp
  note E = experiment_round[OF e]
  obtain n where n: "experiment_groups e = Some n" "unat n = dpf_keys V" using E(1) sizes V(3) by auto
  have kf: "collect_result auth_key_try_from (ex_keys e) = Inr keys"
    using E(4) sizes V(3) auth_keys.collect_keys by simp
  show ?thesis
    using protocol_round.honest_round_delivers[OF R _ _ check kf _ _ n _ ss, of acts rs ids shards]
      acts keys ok E(2,3) sizes V(2,3) by simp
qed

end

section \<open>A concrete round\<close>

text \<open>The locales on a concrete environment: every two-server protocol over the residue model has correct rounds,
  and a round of two clients, one of them a broadcaster, among two groups of two workers is a round of the
  system. One worker has no client.\<close>

definition residue_vdpf :: "nat \<Rightarrow> nat \<Rightarrow> (nat, nat) two_key_protocol" where
  "residue_vdpf channels k = the (two_key_vdpf residue_env channels (SEED_SIZE + k))"

lemma residue_vdpf_ok: "two_key_vdpf residue_env channels (SEED_SIZE + k) = Some (residue_vdpf channels k)"
  using aes_vdpf_exists(1)[of residue_env channels "SEED_SIZE + k"] by (auto simp: residue_vdpf_def)

definition residue_model where
  "residue_model channels k = (SOME p. protocol_round (residue_vdpf channels k) (\<lambda>b. length b = SEED_SIZE + k)
     (\<lambda>s. scalar_inner s < jubjub_order) \<lparr> m_zero = bytes_empty (SEED_SIZE + k), m_add = bytes_xor.xor \<rparr> (fst p) (snd p)
     bytes_acc (SEED_SIZE + k))"

interpretation residue_rounds: protocol_round "residue_vdpf channels k" "\<lambda>b. length b = SEED_SIZE + k"
  "\<lambda>s. scalar_inner s < jubjub_order" "\<lparr> m_zero = bytes_empty (SEED_SIZE + k), m_add = bytes_xor.xor \<rparr>"
  "fst (residue_model channels k)" "snd (residue_model channels k)" bytes_acc "SEED_SIZE + k"
  for channels k :: nat
proof -
  let ?P = "\<lambda>p. protocol_round (residue_vdpf channels k) (\<lambda>b. length b = SEED_SIZE + k)
     (\<lambda>s. scalar_inner s < jubjub_order) \<lparr> m_zero = bytes_empty (SEED_SIZE + k), m_add = bytes_xor.xor \<rparr> (fst p) (snd p)
     bytes_acc (SEED_SIZE + k)"
  obtain validK out where "?P (validK, out)"
    using residue_crypto.two_key_vdpf_round(1)[OF residue_vdpf_ok[of channels k]] by auto
  then show "?P (residue_model channels k)" unfolding residue_model_def by (rule someI)
qed

definition demo_keys :: "nat scalar list" where
  "demo_keys = [Scalar 3, Scalar 4]"

definition demo_experiment :: "(nat, nat, nat) experiment_spec" where
  "demo_experiment = \<lparr> ex_protocol = Secure (residue_vdpf 2 0), ex_group_size = 2, ex_clients = 2, ex_hammer = False,
     ex_keys = map wrapper_from_auth_key demo_keys \<rparr>"

definition demo_worker :: "u16 \<Rightarrow> u16 \<Rightarrow> worker_info" where
  "demo_worker g i = \<lparr> worker_group = \<lparr> group_idx = g \<rparr>, worker_idx = i \<rparr>"

definition demo_actions :: "bytes action list" where
  "demo_actions = [Broadcast 1 (replicate 16 7), Cover]"

definition demo_shards :: "worker_info list list" where
  "demo_shards = [[demo_worker 0 0, demo_worker 1 1], [demo_worker 0 0, demo_worker 1 0]]"

definition demo_services :: "(nat, nat) service list" where
  "demo_services = the (iter_services demo_experiment)"

lemma demo_ok:
  "experiment_new (Secure (residue_vdpf 2 0)) 2 2 False (map wrapper_from_auth_key demo_keys) = Some demo_experiment"
  "iter_services demo_experiment = Some demo_services"
  "experiment_groups demo_experiment = Some 2"
  "list_all (action_valid (\<lambda>b. length b = SEED_SIZE) 2) demo_actions"
  "vec_valid (\<lambda>k. scalar_inner k < jubjub_order) 2 demo_keys"
  "inputs_ok 2 (service_workers demo_services) demo_actions [10 :: nat, 20] [0, 1] demo_shards"
proof -
  have sizes: "dpf_points (residue_vdpf 2 0) = 2" "dpf_keys (residue_vdpf 2 0) = 2"
    using two_key_vdpf_sizes[OF residue_vdpf_ok] by blast+
  show "experiment_new (Secure (residue_vdpf 2 0)) 2 2 False (map wrapper_from_auth_key demo_keys) = Some demo_experiment"
    using sizes by (simp add: experiment_new_iff demo_experiment_def experiment_valid_def demo_keys_def)
  show n: "experiment_groups demo_experiment = Some 2"
    using sizes by (simp add: experiment_groups_def demo_experiment_def)
  then show ss: "iter_services demo_experiment = Some demo_services"
    by (simp add: demo_services_def iter_services_def Let_def)
  show "list_all (action_valid (\<lambda>b. length b = SEED_SIZE) 2) demo_actions" by (simp add: demo_actions_def SEED_SIZE_def)
  show "vec_valid (\<lambda>k. scalar_inner k < jubjub_order) 2 demo_keys" by (simp add: demo_keys_def vec_valid_def jubjub_order_eq)
  show "inputs_ok 2 (service_workers demo_services) demo_actions [10 :: nat, 20] [0, 1] demo_shards"
    by (simp add: inputs_ok_def demo_shards_def demo_actions_def demo_worker_def experiment_workers[OF ss n])
      (simp add: demo_experiment_def)
qed

definition demo_plan where
  "demo_plan = the (honest_plan (wrapper_protocol (residue_vdpf 2 0)) demo_keys demo_actions [10, 20] [0, 1] demo_shards)"

interpretation demo_round: round_system "vec_monoid \<lparr> m_zero = bytes_empty SEED_SIZE, m_add = bytes_xor.xor \<rparr> 2"
  "vec_valid (\<lambda>b. length b = SEED_SIZE) 2" "wrapper_protocol (residue_vdpf 2 0)" bytes_acc auth_key_try_from demo_experiment
  demo_keys "service_workers demo_services" "round_groups 2" demo_plan "\<lambda>t. snd (residue_model 2 0) (wt_key t)"
proof -
  have sizes: "dpf_points (residue_vdpf 2 0) = 2" "dpf_keys (residue_vdpf 2 0) = 2"
    using two_key_vdpf_sizes[OF residue_vdpf_ok] by blast+
  have plan: "honest_plan (wrapper_protocol (residue_vdpf 2 0)) demo_keys demo_actions [10, 20] [0, 1] demo_shards = Some demo_plan"
    using residue_crypto.two_key_system[OF residue_vdpf_ok[of 2 0], of demo_actions demo_keys, simplified, OF demo_ok(4,5,1,2,6)]
    by (auto simp: demo_plan_def)
  have kf: "collect_result auth_key_try_from (ex_keys demo_experiment) = Inr demo_keys"
    by (simp add: demo_experiment_def auth_keys.collect_keys)
  have check: "vdpf_check_audit (residue_vdpf 2 0) ts \<noteq> None" if "length ts = dpf_keys (residue_vdpf 2 0)" for ts
    using check_total_two_key[OF residue_vdpf_ok[of 2 0]] that sizes by simp
  show "round_system (vec_monoid \<lparr> m_zero = bytes_empty SEED_SIZE, m_add = bytes_xor.xor \<rparr> 2) (vec_valid (\<lambda>b. length b = SEED_SIZE) 2)
      (wrapper_protocol (residue_vdpf 2 0)) bytes_acc auth_key_try_from demo_experiment demo_keys (service_workers demo_services)
      (round_groups 2) demo_plan (\<lambda>t. snd (residue_model 2 0) (wt_key t))"
    using residue_rounds.honest_round_system(1)[where channels = 2 and k = 0, OF _ _ check kf _ _ _ _ _ demo_ok(2) _ plan, of 2] demo_ok sizes
    by (simp add: demo_experiment_def)
qed

lemma demo_vdpf: "two_key_vdpf residue_env 2 SEED_SIZE = Some (residue_vdpf 2 0)"
  using residue_vdpf_ok[of 2 0] by simp

lemma demo_sums: "map (\<lambda>j. bytes_sum SEED_SIZE (channel_messages j demo_actions)) [0..<2] = [replicate 16 0, replicate 16 7]"
  by code_simp

section \<open>Concrete rounds of the other protocols\<close>

definition demo_services_of :: "('r, 'fr, 'sp) experiment_spec \<Rightarrow> ('fr, 'sp) service list" where
  "demo_services_of e = the (iter_services e)"

lemma demo_services_ok:
  "experiment_groups e = Some n \<Longrightarrow> iter_services e = Some (demo_services_of e)"
  by (cases "ex_hammer e") (auto simp: demo_services_of_def iter_services_def Let_def)

definition demo_multi :: "(nat, nat, nat) multi_key_protocol" where
  "demo_multi = fst (multi_key_vdpf residue_env 2 3 16 1)"

definition demo_multi_experiment :: "(nat, nat, nat) experiment_spec" where
  "demo_multi_experiment = \<lparr> ex_protocol = SecureMultiKey demo_multi, ex_group_size = 2, ex_clients = 2, ex_hammer = False,
     ex_keys = map wrapper_from_auth_key demo_keys \<rparr>"

abbreviation demo_multi_services :: "(nat, nat) service list" where
  "demo_multi_services \<equiv> demo_services_of demo_multi_experiment"

definition demo_multi_shards :: "worker_info list list" where
  "demo_multi_shards = [[demo_worker 0 0, demo_worker 1 1, demo_worker 2 0], [demo_worker 0 0, demo_worker 2 1, demo_worker 1 0]]"

lemma demo_multi_ok:
  "multi_key_vdpf residue_env 2 3 16 1 = (demo_multi, snd (multi_key_vdpf residue_env 2 3 16 1))"
  "experiment_new (SecureMultiKey demo_multi) 2 2 False (map wrapper_from_auth_key demo_keys) = Some demo_multi_experiment"
  "iter_services demo_multi_experiment = Some demo_multi_services"
  "inputs_ok 3 (service_workers demo_multi_services) [Broadcast 1 [CurvePoint (5 :: nat)], Cover] [10 :: nat, 20] [0, 1] demo_multi_shards"
proof -
  show V: "multi_key_vdpf residue_env 2 3 16 1 = (demo_multi, snd (multi_key_vdpf residue_env 2 3 16 1))" by (simp add: demo_multi_def)
  have sizes: "dpf_points demo_multi = 2" "dpf_keys demo_multi = 3" using multi_key_vdpf_sizes[OF V] by blast+
  show "experiment_new (SecureMultiKey demo_multi) 2 2 False (map wrapper_from_auth_key demo_keys) = Some demo_multi_experiment"
    using sizes by (simp add: experiment_new_iff demo_multi_experiment_def experiment_valid_def demo_keys_def)
  have n: "experiment_groups demo_multi_experiment = Some 3"
    using sizes by (simp add: experiment_groups_def demo_multi_experiment_def)
  then show ss: "iter_services demo_multi_experiment = Some demo_multi_services" by (rule demo_services_ok)
  show "inputs_ok 3 (service_workers demo_multi_services) [Broadcast 1 [CurvePoint (5 :: nat)], Cover] [10 :: nat, 20] [0, 1] demo_multi_shards"
    by (simp add: inputs_ok_def demo_multi_shards_def demo_worker_def experiment_workers[OF ss n])
      (simp add: demo_multi_experiment_def)
qed

definition demo_pub :: "(nat, nat, nat) two_key_pub_protocol" where
  "demo_pub = the (two_key_pub_vdpf residue_env 2 SEED_SIZE)"

definition demo_pub_experiment :: "(nat, nat, nat) experiment_spec" where
  "demo_pub_experiment = \<lparr> ex_protocol = SecurePub demo_pub, ex_group_size = 2, ex_clients = 2, ex_hammer = False,
     ex_keys = map wrapper_from_pub_auth_key (map (key_pair_from residue_sp) demo_keys) \<rparr>"

abbreviation demo_pub_services :: "(nat, nat) service list" where
  "demo_pub_services \<equiv> demo_services_of demo_pub_experiment"

lemma demo_pub_ok:
  "two_key_pub_vdpf residue_env 2 SEED_SIZE = Some demo_pub"
  "experiment_new (SecurePub demo_pub) 2 2 False (map wrapper_from_pub_auth_key (map (key_pair_from residue_sp) demo_keys)) = Some demo_pub_experiment"
  "iter_services demo_pub_experiment = Some demo_pub_services"
  "inputs_ok 2 (service_workers demo_pub_services) demo_actions [10 :: nat, 20] [0, 1] demo_shards"
proof -
  show V: "two_key_pub_vdpf residue_env 2 SEED_SIZE = Some demo_pub"
    using aes_vdpf_exists(2)[of residue_env 2 SEED_SIZE] by (auto simp: demo_pub_def)
  have sizes: "dpf_points demo_pub = 2" "dpf_keys demo_pub = 2" using two_key_pub_vdpf_sizes[OF V] by blast+
  show "experiment_new (SecurePub demo_pub) 2 2 False (map wrapper_from_pub_auth_key (map (key_pair_from residue_sp) demo_keys)) = Some demo_pub_experiment"
    using sizes by (simp add: experiment_new_iff demo_pub_experiment_def experiment_valid_def demo_keys_def)
  have n: "experiment_groups demo_pub_experiment = Some 2"
    using sizes by (simp add: experiment_groups_def demo_pub_experiment_def)
  then show ss: "iter_services demo_pub_experiment = Some demo_pub_services" by (rule demo_services_ok)
  show "inputs_ok 2 (service_workers demo_pub_services) demo_actions [10 :: nat, 20] [0, 1] demo_shards"
    by (simp add: inputs_ok_def demo_shards_def demo_actions_def demo_worker_def experiment_workers[OF ss n])
      (simp add: demo_pub_experiment_def)
qed

section \<open>The work of a round\<close>

lemma round_delivers_bound:
  "round_delivers T A key_from e workers plan res \<Longrightarrow>
   \<exists>st0. sys_init T e workers plan = Some st0
     \<and> (\<forall>n st. (sys_step T A key_from ^^ n) st0 st \<longrightarrow>
          n \<le> pool_weight (proto_num_parties T) (snd st0) + 2 * proto_num_parties T + 1)"
  unfolding round_delivers_def round_from_def by blast

lemma pool_weight_uploads:
  "pool_weight parties (mset (map (\<lambda>(w, t). Upload w c t) ps)) = (5 * parties + 1) * length ps"
  by (induction ps) (auto simp: algebra_simps)

definition plan_size :: "'t client_plan list \<Rightarrow> nat" where
  "plan_size plan = sum_list (map (\<lambda>(c, shards, tokens). min (length shards) (length tokens)) plan)"

lemma plan_uploads_weight: "pool_weight parties (mset (plan_uploads plan)) = (5 * parties + 1) * plan_size plan"
  by (induction plan) (auto simp: plan_uploads_def plan_size_def pool_weight_uploads algebra_simps simp del: mset_map)

lemma pool_weight_leaders: "pool_weight parties (mset (map (\<lambda>w. ToLeader (worker_group w) f) ws)) = length ws"
  by (induction ws) auto

lemma sys_init_weight:
  assumes "sys_init T e workers plan = Some st"
  shows "pool_weight parties (snd st) \<le> (5 * parties + 1) * plan_size plan + length workers"
proof -
  obtain f where "snd st = mset (plan_uploads plan) + mset (map (\<lambda>w. ToLeader (worker_group w) f) (idle_workers workers plan))"
    using assms by (auto simp: sys_init_def bind_eq_Some_conv)
  moreover have "length (idle_workers workers plan) \<le> length workers" by (simp add: idle_workers_def)
  ultimately show ?thesis by (simp add: plan_uploads_weight pool_weight_leaders del: mset_map)
qed

lemma plan_size_le:
  assumes "\<And>c shards tokens. (c, shards, tokens) \<in> set plan \<Longrightarrow> length shards = k"
  shows "plan_size plan \<le> k * length plan"
  using assms by (induction plan) (fastforce simp: plan_size_def)+

lemma honest_plan_size:
  assumes "honest_plan T keys acts rs ids shards = Some plan" "inputs_ok k workers acts rs ids shards"
  shows "plan_size plan \<le> k * length acts"
proof -
  obtain tokens where plan: "plan = zip ids (zip shards tokens)" using assms(1) by (auto simp: honest_plan_def bind_eq_Some_conv)
  have "length s = k" if "(c, s, ts) \<in> set plan" for c s ts
    using set_zip_leftD[OF set_zip_rightD[OF that[unfolded plan]]] assms(2) by (auto simp: inputs_ok_def list_all_iff)
  then have "plan_size plan \<le> k * length plan" by (rule plan_size_le)
  also have "\<dots> \<le> k * length acts" using assms(2) by (auto simp: plan inputs_ok_def)
  finally show ?thesis .
qed

end
