(* ===== verification/Processes.thy ===== *)
theory Processes
  imports Delivery
begin

text \<open>
  The processes of the system: the start-up of a leader (\<open>leader.rs\<close>, \<open>inner_run\<close>), the programs under
  \<open>spectrum/src/bin\<close> and the command lines with which \<open>run_new_processes\<close> of \<open>spectrum/src/lib.rs\<close> starts them.

  Arithmetic on the numbers of groups and workers is checked: an overflow is \<open>None\<close>, like a panic. Parsing the
  command line (clap), JSON and the file system are parameters.
\<close>

section \<open>Start-up of a leader\<close>

text \<open>Once the start time is set: the publisher is looked up among the nodes, and has to be there.\<close>

definition publisher_addr :: "('fr, 'sp) node list \<Rightarrow> string option" where
  "publisher_addr nodes =
     map_option node_addr (find (\<lambda>n. case node_service n of Publisher _ \<Rightarrow> True | _ \<Rightarrow> False) nodes)"

definition leader_startup ::
    "('st, 'x) store_ops_scheme \<Rightarrow> (string \<Rightarrow> string + 'pc) \<Rightarrow> ('fr \<times> 'sp) itself \<Rightarrow> 'st \<Rightarrow> ('m, 'pc) my_leader
     \<Rightarrow> (string + ('m, 'pc) my_leader) option" where
  "leader_startup S connect _ st ml =
     do { res \<leftarrow> resolve_all S st;
          case (res :: crate_error + ('fr, 'sp) node list) of
            Inl err \<Rightarrow> Some (Inl (err_message err))
          | Inr nodes \<Rightarrow>
              do { addr \<leftarrow> publisher_addr nodes;
                   Some (case connect (''http://'' @ addr) of
                           Inl err \<Rightarrow> Inl err
                         | Inr publisher \<Rightarrow> Inr (ml\<lparr> ml_publisher := Some publisher \<rparr>)) } }"

section \<open>Programs\<close>

definition u16_checked_sub :: "u16 \<Rightarrow> u16 \<Rightarrow> u16 option" where
  "u16_checked_sub a b = (if a < b then None else Some (a - b))"

definition u16_checked_add :: "u16 \<Rightarrow> u16 \<Rightarrow> u16 option" where
  "u16_checked_add a b = (if unat a + unat b < 2 ^ 16 then Some (a + b) else None)"

text \<open>The numbers on the command line start at one.\<close>

definition worker_info_from_args :: "u16 \<Rightarrow> u16 \<Rightarrow> worker_info option" where
  "worker_info_from_args group_arg idx =
     do { g \<leftarrow> u16_checked_sub group_arg 1; i \<leftarrow> u16_checked_sub idx 1;
          Some \<lparr> worker_group = \<lparr> group_idx = g \<rparr>, worker_idx = i \<rparr> }"

definition leader_info_from_args :: "u16 \<Rightarrow> leader_info option" where
  "leader_info_from_args group_arg = do { g \<leftarrow> u16_checked_sub group_arg 1; Some \<lparr> leader_group = \<lparr> group_idx = g \<rparr> \<rparr> }"

text \<open>The broadcaster's index is drawn at random.\<close>

record broadcaster_args =
  ba_msg :: "bytes option"
  ba_msg_file :: "string option"
  ba_key_file :: string

definition broadcaster_from_args ::
    "(string \<Rightarrow> string + bytes) \<Rightarrow> (bytes \<Rightarrow> string + ('fr, 'sp) channel_key_wrapper) \<Rightarrow> broadcaster_args \<Rightarrow> u128
     \<Rightarrow> string + ('fr, 'sp) client_info" where
  "broadcaster_from_args read_file from_json args random =
     (let message = (case ba_msg args of
            Some msg \<Rightarrow> Inr msg
          | None \<Rightarrow> (case ba_msg_file args of
               Some file \<Rightarrow> read_file file
             | None \<Rightarrow> Inl ''Invalid BroadcasterArgs: at least one of `msg`, `msg_file` must be `Some()`.''))
      in case message of
        Inl err \<Rightarrow> Inl err
      | Inr msg \<Rightarrow> (case read_file (ba_key_file args) of
            Inl err \<Rightarrow> Inl err
          | Inr json \<Rightarrow> (case from_json json of
                Inl err \<Rightarrow> Inl (''Could not read key file ['' @ ba_key_file args @ '']: '' @ err)
              | Inr key \<Rightarrow> Inr (new_broadcaster random msg key))))"

text \<open>\<open>setup\<close>: the experiment of the command line is written to the store of the environment.\<close>

definition setup_main ::
    "('r, 'fr, 'sp, 'h, 'e) crypto_env \<Rightarrow> (inmem_store, 'c) store_wrapper store_ops \<Rightarrow> (string \<Rightarrow> string + 'c)
     \<Rightarrow> (('r, 'fr, 'sp) experiment_spec \<Rightarrow> string + string) \<Rightarrow> string option \<Rightarrow> experiment_args \<Rightarrow> 'r
     \<Rightarrow> (string + (inmem_store, 'c) store_wrapper) option" where
  "setup_main env S connect to_json var args r =
     do { (e, r') \<leftarrow> experiment_from_args env args r;
          Some (case store_from_env connect var of
                  Inl err \<Rightarrow> Inl err
                | Inr st \<Rightarrow> (case write_to_store S to_json st e of
                      Inl err \<Rightarrow> Inl (err_message err) | Inr st' \<Rightarrow> Inr st')) }"

text \<open>The publisher's remote: \<open>done\<close> before \<open>start\<close> panics, and otherwise gives the time between them.\<close>

definition remote_start :: "nat \<Rightarrow> nat option \<Rightarrow> nat option" where
  "remote_start now start = Some now"

definition remote_done :: "nat \<Rightarrow> nat option \<Rightarrow> nat option" where
  "remote_done now start = do { s \<leftarrow> start; Some (now - s) }"

section \<open>Command lines\<close>

record command =
  cmd_program :: string
  cmd_args :: "string list"

text \<open>The command of a service and the files it is given.\<close>

definition service_command ::
    "(('fr, 'sp) channel_key_wrapper \<Rightarrow> bytes) \<Rightarrow> string \<Rightarrow> ('fr, 'sp) service \<Rightarrow> (command \<times> (string \<times> bytes) list) option" where
  "service_command to_json dir s =
     (case s of
        Publisher _ \<Rightarrow> Some (\<lparr> cmd_program = ''publisher'', cmd_args = [''--log-level'', ''info''] \<rparr>, [])
      | Leader info \<Rightarrow>
          do { g \<leftarrow> u16_checked_add (group_idx (leader_group info)) 1;
               Some (\<lparr> cmd_program = ''leader'', cmd_args = [''--log-level'', ''info'', ''--group'', nat_to_string (unat g)] \<rparr>, []) }
      | Worker info \<Rightarrow>
          do { g \<leftarrow> u16_checked_add (group_idx (worker_group info)) 1;
               i \<leftarrow> u16_checked_add (worker_idx info) 1;
               Some (\<lparr> cmd_program = ''worker'', cmd_args = [''--log-level'', ''info'', ''--group'', nat_to_string (unat g),
                       ''--index'', nat_to_string (unat i)] \<rparr>, []) }
      | Client info \<Rightarrow>
          (case client_broadcast info of
             Some (msg, key) \<Rightarrow>
               (let key_file = dir @ ''/key-'' @ nat_to_string (unat (client_idx info)) @ ''.json'';
                    msg_file = dir @ ''/msg-'' @ nat_to_string (unat (client_idx info)) @ ''.json''
                in Some (\<lparr> cmd_program = ''broadcaster'', cmd_args = [''--log-level'', ''info'', ''--key-file'', key_file,
                           ''--message-file'', msg_file] \<rparr>, [(key_file, to_json key), (msg_file, msg)]))
           | None \<Rightarrow> Some (\<lparr> cmd_program = ''viewer'', cmd_args = [''--log-level'', ''warn''] \<rparr>, [])))"

definition run_commands ::
    "(('fr, 'sp) channel_key_wrapper \<Rightarrow> bytes) \<Rightarrow> string \<Rightarrow> ('r, 'fr, 'sp) experiment_spec \<Rightarrow> (command \<times> (string \<times> bytes) list) list option" where
  "run_commands to_json dir e =
     do { services \<leftarrow> iter_services e; try_map (service_command to_json dir) (services @ iter_clients e) }"

text \<open>The number of parties of the barrier of \<open>run_in_process\<close>.\<close>

definition barrier_size :: "('r, 'fr, 'sp) experiment_spec \<Rightarrow> nat option" where
  "barrier_size e = do { services \<leftarrow> iter_services e; Some (length (iter_clients e) + length services + 2) }"

section \<open>Correctness\<close>

lemma checked_add_sub: "u16_checked_add a 1 = Some b \<Longrightarrow> u16_checked_sub b 1 = Some a"
proof -
  assume "u16_checked_add a 1 = Some b"
  then have b: "b = a + 1" "unat a + 1 < 2 ^ 16" by (auto simp: u16_checked_add_def split: if_splits)
  then have "unat b = (unat a + 1) mod 2 ^ 16" using unat_word_ariths(1)[of a 1] by simp
  then have "unat b = unat a + 1" using b(2) by simp
  then show ?thesis using b(1) by (simp add: u16_checked_sub_def word_less_nat_alt)
qed

text \<open>The arguments of a worker and of a leader name the service they are started for.\<close>

lemma worker_command_args:
  assumes "service_command to_json dir (Worker w) = Some (cmd, files)"
  shows "\<exists>g i g' i'. cmd_args cmd = [''--log-level'', ''info'', ''--group'', g, ''--index'', i]
    \<and> parse_uint (2 ^ 16) g = Some g' \<and> parse_uint (2 ^ 16) i = Some i' \<and> worker_info_from_args (of_nat g') (of_nat i') = Some w"
proof -
  obtain g i where gi: "u16_checked_add (group_idx (worker_group w)) 1 = Some g" "u16_checked_add (worker_idx w) 1 = Some i"
      "cmd_args cmd = [''--log-level'', ''info'', ''--group'', nat_to_string (unat g), ''--index'', nat_to_string (unat i)]"
    using assms by (auto simp: service_command_def bind_eq_Some_conv)
  have "worker_info_from_args g i = Some w"
    using checked_add_sub[OF gi(1)] checked_add_sub[OF gi(2)] by (simp add: worker_info_from_args_def)
  then show ?thesis using gi(3) u16_to_string_parse[of g] u16_to_string_parse[of i] by auto
qed

lemma leader_command_args:
  assumes "service_command to_json dir (Leader l) = Some (cmd, files)"
  shows "\<exists>g g'. cmd_args cmd = [''--log-level'', ''info'', ''--group'', g] \<and> parse_uint (2 ^ 16) g = Some g'
    \<and> leader_info_from_args (of_nat g') = Some l"
proof -
  obtain g where g: "u16_checked_add (group_idx (leader_group l)) 1 = Some g"
      "cmd_args cmd = [''--log-level'', ''info'', ''--group'', nat_to_string (unat g)]"
    using assms by (auto simp: service_command_def bind_eq_Some_conv)
  have "leader_info_from_args g = Some l" using checked_add_sub[OF g(1)] by (simp add: leader_info_from_args_def)
  then show ?thesis using g(2) u16_to_string_parse[of g] by auto
qed

text \<open>No command of an experiment overflows.\<close>

lemma checked_add_below: "a < (n :: u16) \<Longrightarrow> u16_checked_add a 1 \<noteq> None"
  using u16_bound[of n] by (auto simp: u16_checked_add_def word_less_nat_alt)

lemma run_commands_exist:
  assumes "experiment_groups e = Some n"
  shows "\<exists>cmds. run_commands to_json dir e = Some cmds"
proof -
  obtain ss where ss: "iter_services e = Some ss" using assms by (cases "ex_hammer e") (auto simp: iter_services_def Let_def)
  have "service_command to_json dir s \<noteq> None" if "s \<in> set (ss @ iter_clients e)" for s
  proof (cases s)
    case (Worker w)
    then have "Worker w \<in> set ss" using that by (auto simp: iter_clients_def)
    then have "group_idx (worker_group w) < n" "worker_idx w < ex_group_size e" using iter_services_set[OF ss assms] by auto
    then show ?thesis
      using checked_add_below[of "group_idx (worker_group w)" n] checked_add_below[of "worker_idx w" "ex_group_size e"] Worker
      by (auto simp: service_command_def)
  next
    case (Leader l)
    then have "Leader l \<in> set ss" using that by (auto simp: iter_clients_def)
    then have "group_idx (leader_group l) < n" using iter_services_set[OF ss assms] by auto
    then show ?thesis using checked_add_below[of "group_idx (leader_group l)" n] Leader by (auto simp: service_command_def)
  next
    case (Client c)
    then show ?thesis by (auto simp: service_command_def Let_def split: option.splits)
  qed (simp add: service_command_def)
  then have "try_map (service_command to_json dir) (ss @ iter_clients e) \<noteq> None" unfolding try_map_None_iff by blast
  then show ?thesis using ss by (auto simp: run_commands_def)
qed

text \<open>The tokens of the clients that an experiment lists, when their messages are converted to \<open>msg\<close>.\<close>

lemma experiment_client_tokens:
  assumes "experiment_new protocol group_size clients hammer (map wrap keys) = Some e" "key_wrapping wrap key_from"
    and "length keys \<le> 2 ^ 64" "iter_clients e = map Client cs" "i < length cs"
    and "i < length keys \<longrightarrow> msg_from (broadcaster_msg e i) = Some (Inr msg)"
  shows "viewer_tokens T msg_from key_from (cs ! i) r
    = client_tokens T keys (if i < length keys then Broadcast i msg else Cover) r"
proof -
  have e: "experiment_valid e" "experiment_channels e = length keys" "ex_keys e = map wrap keys"
    using assms(1) by (auto simp: experiment_new_iff experiment_valid_def experiment_channels_def)
  obtain cs' where cs': "iter_clients e = map Client cs'"
      "map client_idx cs' = map of_nat [0..<max (experiment_channels e) (unat (ex_clients e))]"
      "\<forall>i < length cs'. client_broadcast (cs' ! i)
        = (if i < experiment_channels e then Some (broadcaster_msg e i, ex_keys e ! i) else None)"
    using iter_clients_eq[OF e(1)] by blast
  have "cs' = cs" using cs'(1) assms(4) by (metis list.inj_map_strong service.inject(4))
  then have b: "client_broadcast (cs ! i) = (if i < length keys then Some (broadcaster_msg e i, ex_keys e ! i) else None)"
    using cs'(3) assms(5) e(2) by simp
  have "length cs' = max (experiment_channels e) (unat (ex_clients e))" using arg_cong[OF cs'(2), of length] by simp
  then have idx: "client_idx (cs ! i) = of_nat i"
    using arg_cong[OF cs'(2), of "\<lambda>xs. xs ! i"] assms(5) \<open>cs' = cs\<close> by simp
  show ?thesis
  proof (cases "i < length keys")
    case True
    then show ?thesis
      using viewer_tokens_eq[OF _ idx True _ _ assms(2), of "broadcaster_msg e i" msg_from msg T r] b e(3) assms(3,6) by simp
  next
    case False
    then show ?thesis using b viewer_tokens_cover[of "cs ! i"] by simp
  qed
qed

text \<open>With the multi-key protocol the message is that many copies of one encoded point as there would be blocks of 32 bytes if the
  protocol counted its messages in bytes.\<close>

lemma multi_key_broadcaster_message:
  assumes "is_multi_key (ex_protocol e)" "sp_from_bytes Q good_elem = Some x"
  shows "ev_try_from_bytes (point_try_from_bytes Q) (broadcaster_msg e i)
    = Some (Inr (replicate ((experiment_msg_size e + 31) div 32) (CurvePoint x)))"
proof -
  have len: "length good_elem = 32" by (simp add: good_elem_def)
  obtain k where k: "broadcaster_msg e i = concat (replicate k good_elem)" using assms(1) by (auto simp: broadcaster_msg_def Let_def)
  have "32 * k = 32 * ((experiment_msg_size e + 31) div 32)"
    using broadcaster_msg_length[of e i] assms(1) by (simp add: k length_concat sum_list_replicate len)
  then have n: "k = (experiment_msg_size e + 31) div 32" by simp
  have "vec_chunks 32 (broadcaster_msg e i) = replicate k good_elem"
    unfolding k by (rule vec_chunks_concat) (simp_all add: len list_all_iff)
  moreover have "collect_result (point_try_from_bytes Q) (replicate k good_elem) = Inr (replicate k (CurvePoint x))"
    using assms(2) by (induction k) (simp_all add: point_try_from_bytes_def len)
  moreover have "bytes_len (broadcaster_msg e i) = k * 32" by (simp add: k length_concat sum_list_replicate len bytes_len_def)
  ultimately show ?thesis by (simp add: ev_try_from_bytes_def n)
qed

text \<open>A broadcaster started from the command line draws its index among the 128-bit numbers, and uses it as the
  number of its channel: an index that does not fit a \<open>usize\<close> panics.\<close>

lemma broadcaster_index_panics:
  assumes "broadcaster_from_args read_file from_json args random = Inr info" "2 ^ 64 \<le> unat random"
  shows "viewer_tokens T msg_from key_from info r = None"
proof -
  have "client_idx info = random" "client_broadcast info \<noteq> None"
    using assms(1) by (auto simp: broadcaster_from_args_def new_broadcaster_def Let_def split: sum.splits option.splits)
  then show ?thesis
    using assms(2) by (auto simp: viewer_tokens_def rust_assert_def bind_eq_None_conv split: option.splits)
qed

context discovery_store
begin

text \<open>A leader that starts when a publisher is registered finds it.\<close>

lemma leader_startup_eq:
  fixes ss :: "('fr, 'sp) service set"
  assumes st: "store_wf st" "nodes_only ss (entries st)" and p: "Publisher PublisherInfo \<in> node_service ` (store_nodes (entries st) :: ('fr, 'sp) node set)"
  shows "\<exists>addr. leader_startup S connect TYPE('fr \<times> 'sp) st ml = Some (case connect (''http://'' @ addr) of
        Inl err \<Rightarrow> Inl err | Inr publisher \<Rightarrow> Inr (ml\<lparr> ml_publisher := Some publisher \<rparr>))
    \<and> \<lparr> node_service = Publisher PublisherInfo, node_addr = addr \<rparr> \<in> (store_nodes (entries st) :: ('fr, 'sp) node set)"
proof -
  obtain ns :: "('fr, 'sp) node list" where ns: "resolve_all S st = Some (Inr ns)" "set ns = store_nodes (entries st)"
    using resolve_all_ok[OF st] by blast
  let ?P = "\<lambda>n :: ('fr, 'sp) node. case node_service n of Publisher _ \<Rightarrow> True | _ \<Rightarrow> False"
  obtain n where n: "find ?P ns = Some n"
  proof (cases "find ?P ns")
    case None
    obtain x where "x \<in> set ns" "node_service x = Publisher PublisherInfo" using p ns(2) by fastforce
    then have "\<not> (\<exists>x. x \<in> set ns \<and> ?P x) \<Longrightarrow> False" by (metis service.simps(18))
    then show ?thesis using None unfolding find_None_iff by blast
  qed (use that in blast)
  then have "n \<in> set ns" "?P n" by (auto simp: find_Some_iff)
  have "node_service n = Publisher PublisherInfo"
    using \<open>?P n\<close> by (cases "node_service n") (auto intro: publisher_info.exhaust)
  then have "n = \<lparr> node_service = Publisher PublisherInfo, node_addr = node_addr n \<rparr>" by simp
  then show ?thesis
    using ns n \<open>n \<in> set ns\<close> by (auto simp: leader_startup_def publisher_addr_def)
qed

end

end
