(* ===== verification/Startup.thy ===== *)
theory Startup
  imports Processes
begin

text \<open>
  The start of an experiment: what the processes do from their creation until the round begins, which is the first
  half of \<open>inner_run\<close> in \<open>worker/mod.rs\<close>, \<open>leader.rs\<close>, \<open>publisher.rs\<close> and \<open>client/viewer.rs\<close>. The processes share the
  configuration store; every access to it, and every request of a client to a worker, is one step, and the steps of
  different processes interleave freely.

  \<^item> A process that waits (for the start time or for the quorum) polls; the policy of \<open>services/retry.rs\<close> decides whether
    a failed poll is repeated.
  \<^item> A process whose main function returns an error has failed. The value \<open>None\<close> of a step is a panic: of an \<open>unwrap\<close> (workers and
    leaders unwrap the result of waiting for the start time), of an address that is not a URI, or of an operation. A process that
    has panicked does nothing any more.
  \<^item> The outcomes of health checks and connections and the random choices are inputs of a step.
\<close>

section \<open>Processes\<close>

datatype phase =
    Booting
  | Loading
  | Polling nat
  | Found int
  | Joining int "worker_info list"
  | Delaying int
  | Running
  | Failed string
  | Panicked

text \<open>What a process is given: the store, its own address, which texts are URIs, the date library, the text of a difference of
  services, JSON, the publisher's delay and the random library.\<close>

record ('st, 'rnd, 'r, 'fr, 'sp) startup_params =
  sp_store :: "'st store_ops"
  sp_addr :: "('fr, 'sp) service \<Rightarrow> string"
  sp_uri_ok :: "string \<Rightarrow> bool"
  sp_parse :: "string \<Rightarrow> string + int"
  sp_to_rfc3339 :: "int \<Rightarrow> string"
  sp_debug :: "('fr, 'sp) service set \<Rightarrow> string"
  sp_from_json :: "string \<Rightarrow> string + ('r, 'fr, 'sp) experiment_spec"
  sp_delay_ms :: int
  sp_order :: "group list \<Rightarrow> group list"
  sp_pick :: "('rnd, ('fr, 'sp) node) chooser"

text \<open>What the environment decides in a step.\<close>

record 'rnd step_input =
  si_health :: "nat \<Rightarrow> crate_error + bool"
  si_connect :: "string \<Rightarrow> string + string"
  si_attempt :: "string \<Rightarrow> nat \<Rightarrow> string + string"
  si_random :: 'rnd

record ('st, 's, 't, 'm, 'r, 'fr, 'sp) startup =
  su_store :: 'st
  su_now :: int
  su_phase :: "('fr, 'sp) service \<Rightarrow> phase"
  su_experiment :: "('r, 'fr, 'sp) experiment_spec option"
  su_workers :: "worker_info \<Rightarrow> (string, string, int, 's, 't, 'm, 'r, 'fr, 'sp) my_worker"
  su_leaders :: "group \<Rightarrow> ('m, string) my_leader"
  su_shards :: "u128 \<Rightarrow> worker_info list option"
  su_sent :: "worker_info \<Rightarrow> (string \<times> aggregate_request) list"

definition set_phase where
  "set_phase s p su = su\<lparr> su_phase := (su_phase su)(s := p) \<rparr>"

section \<open>Steps\<close>

text \<open>Waiting until the own server answers, then registering.\<close>

definition boot_service where
  "boot_service P inp s su =
     do { rust_assert (sp_uri_ok P (''http://'' @ sp_addr P s));
          case wait_for_health (si_health inp) of
            Inl err \<Rightarrow> Some (set_phase s (Failed (err_message err)) su)
          | Inr _ \<Rightarrow>
              do { res \<leftarrow> register (sp_store P) (su_store su) \<lparr> node_service = s, node_addr = sp_addr P s \<rparr>;
                   case res of
                     Inl err \<Rightarrow> Some (set_phase s (Failed (err_message err)) su)
                   | Inr st \<Rightarrow> Some (set_phase s (case s of Publisher _ \<Rightarrow> Loading | _ \<Rightarrow> Polling RETRY_ATTEMPTS) (su\<lparr> su_store := st \<rparr>)) } }"

text \<open>The publisher reads the experiment.\<close>

definition load_experiment where
  "load_experiment P s su =
     do { res \<leftarrow> read_from_store (sp_store P) (sp_from_json P) (su_store su);
          case res of
            Inl err \<Rightarrow> Some (set_phase s (Failed (err_message err)) su)
          | Inr e \<Rightarrow> Some (set_phase s (Polling RETRY_ATTEMPTS) (su\<lparr> su_experiment := Some e \<rparr>)) }"

text \<open>A poll that failed: the retry policy. Out of attempts, workers and leaders unwrap the error; the publisher and clients
  return it.\<close>

definition poll_failed where
  "poll_failed s err left su =
     (case error_policy RETRY_DELAY RETRY_ATTEMPTS (err :: crate_error) left of
        (ForwardError err', _) \<Rightarrow> (case s of
            Worker _ \<Rightarrow> None
          | Leader _ \<Rightarrow> None
          | _ \<Rightarrow> Some (set_phase s (Failed (err_message err')) su))
      | (WaitRetry _, left') \<Rightarrow> Some (set_phase s (Polling left') su))"

definition poll_start_time where
  "poll_start_time P s left su =
     do { res \<leftarrow> get_start_time (sp_store P) (sp_parse P) (su_store su);
          case res of Inl err \<Rightarrow> poll_failed s err left su | Inr t \<Rightarrow> Some (set_phase s (Found t) su) }"

definition poll_quorum where
  "poll_quorum P s left su =
     do { e \<leftarrow> su_experiment su;
          res \<leftarrow> has_quorum (sp_store P) (sp_debug P) (su_store su) e;
          case res of Inl err \<Rightarrow> poll_failed s err left su | Inr _ \<Rightarrow> Some (set_phase s (Found (su_now su)) su) }"

text \<open>The publisher, with the quorum: it sets the start time.\<close>

definition publisher_found where
  "publisher_found P s su =
     (let start = su_now su + sp_delay_ms P in
      case set_start_time (sp_store P) (sp_to_rfc3339 P) (su_store su) start of
        Inl err \<Rightarrow> Some (set_phase s (Failed (err_message err)) su)
      | Inr st \<Rightarrow> Some (set_phase s (Delaying start) (su\<lparr> su_store := st \<rparr>)))"

text \<open>A leader, with the start time: it connects to the publisher.\<close>

definition leader_found where
  "leader_found P inp (ty :: ('fr \<times> 'sp) itself) s g su =
     do { res \<leftarrow> leader_startup (sp_store P) (si_connect inp) ty (su_store su) (su_leaders su g);
          case res of
            Inl err \<Rightarrow> Some (set_phase s (Failed err) su)
          | Inr ml \<Rightarrow> Some (set_phase s Running (su\<lparr> su_leaders := (su_leaders su)(g := ml) \<rparr>)) }"

text \<open>A worker, with the start time: it connects to its peers and its leader.\<close>

definition worker_found where
  "worker_found P inp s w t su =
     do { res \<leftarrow> service_map_from_config (sp_store P) (sp_uri_ok P) (si_connect inp) (si_connect inp) w (su_store su);
          case res of
            Inl err \<Rightarrow> Some (set_phase s (Failed err) su)
          | Inr m \<Rightarrow> Some (set_phase s (Delaying t)
              (su\<lparr> su_workers := (su_workers su)(w := (su_workers su w)\<lparr> mw_services := Some m \<rparr>) \<rparr>)) }"

text \<open>A client, with the start time: it looks the workers up and picks its shards.\<close>

definition client_found where
  "client_found P inp s c t su =
     do { res \<leftarrow> resolve_all (sp_store P) (su_store su);
          case res of
            Inl err \<Rightarrow> Some (set_phase s (Failed (err_message err)) su)
          | Inr nodes \<Rightarrow>
              do { (shards, r') \<leftarrow> pick_worker_shards (sp_order P) (sp_pick P) nodes (si_random inp);
                   ws \<leftarrow> try_map node_worker shards;
                   Some (set_phase s (Joining t ws) (su\<lparr> su_shards := (su_shards su)(client_idx c \<mapsto> ws) \<rparr>)) } }"

text \<open>It connects to them one by one and registers; a worker that has started refuses.\<close>

definition client_join where
  "client_join P inp s c t ws su =
     (case ws of
        [] \<Rightarrow> Some (set_phase s (Delaying t) su)
      | w # rest \<Rightarrow>
          do { rust_assert (sp_uri_ok P (''http://'' @ sp_addr P (Worker w)));
               case client_connect (si_attempt inp (sp_addr P (Worker w))) of
                 Inl err \<Rightarrow> Some (set_phase s (Failed err) su)
               | Inr _ \<Rightarrow>
                   do { shards \<leftarrow> su_shards su (client_idx c);
                        res \<leftarrow> handle_register_client
                          \<lparr> rr_client_id = Some (client_to_proto c), rr_shards = map worker_to_proto shards \<rparr> (su_workers su w);
                        case res of
                          Inl _ \<Rightarrow> Some (set_phase s (Failed ''Registration refused.'') su)
                        | Inr mw \<Rightarrow> Some (set_phase s (Joining t rest) (su\<lparr> su_workers := (su_workers su)(w := mw) \<rparr>)) } })"

text \<open>\<open>delay_until\<close>, and the start of the process.\<close>

definition start_process where
  "start_process W s t su =
     (if su_now su < t then Some su
      else case s of
        Worker w \<Rightarrow>
          do { m \<leftarrow> mw_services (su_workers su w);
               (msgs, mw) \<leftarrow> worker_begin W (su_now su) m (su_workers su w);
               Some (set_phase s Running (su\<lparr> su_workers := (su_workers su)(w := mw), su_sent := (su_sent su)(w := msgs) \<rparr>)) }
      | _ \<Rightarrow> Some (set_phase s Running su))"

definition process_step ::
    "('st, 'rnd, 'r, 'fr, 'sp) startup_params \<Rightarrow> ('t, 's, 'k, 'm, 'fr, 'sp) wire_ops \<Rightarrow> 'rnd step_input \<Rightarrow> ('fr, 'sp) service
     \<Rightarrow> ('st, 's, 't, 'm, 'r, 'fr, 'sp) startup \<Rightarrow> ('st, 's, 't, 'm, 'r, 'fr, 'sp) startup option" where
  "process_step P W inp s su =
     (case su_phase su s of
        Booting \<Rightarrow> (case s of Client _ \<Rightarrow> Some (set_phase s (Polling RETRY_ATTEMPTS) su) | _ \<Rightarrow> boot_service P inp s su)
      | Loading \<Rightarrow> load_experiment P s su
      | Polling left \<Rightarrow> (case s of Publisher _ \<Rightarrow> poll_quorum P s left su | _ \<Rightarrow> poll_start_time P s left su)
      | Found t \<Rightarrow> (case s of
            Publisher _ \<Rightarrow> publisher_found P s su
          | Leader l \<Rightarrow> leader_found P inp TYPE('fr \<times> 'sp) s (leader_group l) su
          | Worker w \<Rightarrow> worker_found P inp s w t su
          | Client c \<Rightarrow> client_found P inp s c t su)
      | Joining t ws \<Rightarrow> (case s of Client c \<Rightarrow> client_join P inp s c t ws su | _ \<Rightarrow> Some su)
      | Delaying t \<Rightarrow> start_process W s t su
      | Running \<Rightarrow> Some su
      | Failed err \<Rightarrow> Some su
      | Panicked \<Rightarrow> Some su)"

inductive startup_step for P W procs where
  run: "s \<in> procs \<Longrightarrow> process_step P W inp s su = Some su' \<Longrightarrow> startup_step P W procs su su'"
| panic: "s \<in> procs \<Longrightarrow> process_step P W inp s su = None \<Longrightarrow> startup_step P W procs su (set_phase s Panicked su)"
| tick: "0 \<le> d \<Longrightarrow> startup_step P W procs su (su\<lparr> su_now := su_now su + d \<rparr>)"

inductive_cases startup_stepE: "startup_step P W procs su su'"

definition startup_init ::
    "('r, 'm, 'k, 't, 's, 'x) protocol_ops_scheme \<Rightarrow> ('r, 'fr, 'sp) experiment_spec \<Rightarrow> int \<Rightarrow> 'st
     \<Rightarrow> ('st, 's, 't, 'm, 'r, 'fr, 'sp) startup option" where
  "startup_init T e now st =
     do { mw \<leftarrow> my_worker_new None None T e;
          Some \<lparr> su_store = st, su_now = now, su_phase = (\<lambda>_. Booting), su_experiment = None, su_workers = (\<lambda>_. mw),
                 su_leaders = (\<lambda>_. leader_from_protocol T (ex_group_size e) None), su_shards = (\<lambda>_. None),
                 su_sent = (\<lambda>_. []) \<rparr> }"

section \<open>Lookups that do not panic\<close>

lemma nodes_only_retype: "nodes_only (ss :: ('fr, 'sp) service set) m \<Longrightarrow> nodes_only (UNIV :: ('a, 'b) service set) m"
proof -
  have "\<exists>s' :: ('a, 'b) service. to_config_key s' = Some k" if "to_config_key (s :: ('fr, 'sp) service) = Some k" for s k
  proof (cases s)
    case (Worker w)
    then show ?thesis using that by (intro exI[of _ "Worker w"]) (simp add: to_config_key_def)
  next
    case (Leader l)
    then show ?thesis using that by (intro exI[of _ "Leader l"]) (simp add: to_config_key_def)
  next
    case (Publisher p)
    then show ?thesis using that by (intro exI[of _ "Publisher p"]) (simp add: to_config_key_def)
  qed (use that in \<open>simp add: to_config_key_def\<close>)
  note retype = this
  assume only: "nodes_only ss m"
  show "nodes_only (UNIV :: ('a, 'b) service set) m"
    unfolding nodes_only_def
  proof (intro allI impI)
    fix k v
    assume "m k = Some v" "prefix [''nodes''] k"
    then obtain s where "to_config_key (s :: ('fr, 'sp) service) = Some k" using only unfolding nodes_only_def by blast
    from retype[OF this] show "\<exists>s\<in>UNIV. to_config_key (s :: ('a, 'b) service) = Some k" by simp
  qed
qed

lemma node_eta: "node_service n = s \<Longrightarrow> n = \<lparr> node_service = s, node_addr = node_addr n \<rparr>"
  by (cases n) simp

lemma bex_node: "(\<exists>n \<in> A. node_service n = s) \<longleftrightarrow> (\<exists>a. \<lparr> node_service = s, node_addr = a \<rparr> \<in> A)"
proof
  assume "\<exists>n \<in> A. node_service n = s"
  then obtain n where n: "n \<in> A" "node_service n = s" by blast
  then have "\<lparr> node_service = s, node_addr = node_addr n \<rparr> \<in> A" using node_eta[OF n(2)] by (metis (no_types))
  then show "\<exists>a. \<lparr> node_service = s, node_addr = a \<rparr> \<in> A" by blast
qed force

lemma connect_workers_fst: "connect_workers uri_ok connect peers = Some (Inr ws) \<Longrightarrow> map fst ws = map fst peers"
proof (induction peers arbitrary: ws)
  case (Cons p peers)
  obtain info addr where "p = (info, addr)" by fastforce
  then show ?case using Cons connect_workers_Cons[of uri_ok connect info addr peers ws] by auto
qed simp

lemma connect_workers_total:
  assumes "\<And>w a. (w, a) \<in> set peers \<Longrightarrow> uri_ok (''https://'' @ a)"
  shows "\<exists>res. connect_workers uri_ok connect peers = Some res \<and> ((\<forall>a. \<exists>c. connect a = Inr c) \<longrightarrow> (\<exists>ws. res = Inr ws))"
  using assms
proof (induction peers)
  case (Cons p peers)
  obtain info addr where p: "p = (info, addr)" by fastforce
  have ok: "rust_assert (uri_ok (''https://'' @ addr)) = Some ()" using Cons.prems[of info addr] p by (simp add: rust_assert_def)
  obtain res where res: "connect_workers uri_ok connect peers = Some res" "(\<forall>a. \<exists>c. connect a = Inr c) \<longrightarrow> (\<exists>ws. res = Inr ws)"
    using Cons.IH Cons.prems by fastforce
  show ?case
  proof (cases "connect (''https://'' @ addr)")
    case (Inl err)
    then have "\<not> (\<forall>a. \<exists>c. connect a = Inr c)" by (metis sum.distinct(1))
    then show ?thesis using Inl ok p by simp
  next
    case (Inr c)
    then show ?thesis using ok p res by (cases res) simp_all
  qed
qed simp

context discovery_store
begin

lemma entry_node:
  fixes s :: "('fr, 'sp) service"
  assumes "to_config_key s = Some k" "set ns = (store_nodes (entries st) :: ('fr, 'sp) node set)"
  shows "entries st k = Some a \<longleftrightarrow> \<lparr> node_service = s, node_addr = a \<rparr> \<in> set ns"
  using assms by (auto simp: store_nodes_def)

lemma service_map_total:
  assumes st: "store_wf st" "nodes_only (ss :: ('fr, 'sp) service set) (entries st)"
    and uris: "\<forall>w a. entries st (the (to_config_key (Worker w :: ('fr, 'sp) service))) = Some a \<longrightarrow> uri_ok (''https://'' @ a)"
  shows "\<exists>res. service_map_from_config S uri_ok connect connect_leader worker st = Some res
    \<and> (\<forall>m. res = Inr m \<longrightarrow>
        (\<forall>w. map_of (sm_workers m) w \<noteq> None \<longleftrightarrow> entries st (the (to_config_key (Worker w :: ('fr, 'sp) service))) \<noteq> None)
        \<and> (sm_leader m \<noteq> None \<longleftrightarrow>
            entries st (the (to_config_key (Leader \<lparr> leader_group = worker_group worker \<rparr> :: ('fr, 'sp) service))) \<noteq> None))
    \<and> ((\<forall>a. \<exists>c. connect a = Inr c) \<longrightarrow> (\<forall>a. \<exists>c. connect_leader a = Inr c) \<longrightarrow> (\<exists>m. res = Inr m))"
proof -
  obtain ns :: "(unit, unit) node list" where ns: "resolve_all S st = Some (Inr ns)" "set ns = store_nodes (entries st)"
    using resolve_all_ok[OF st(1) nodes_only_retype[OF st(2)]] by blast
  have key: "to_config_key (Worker w :: (unit, unit) service) = Some (the (to_config_key (Worker w :: ('fr, 'sp) service)))"
    "to_config_key (Leader l :: (unit, unit) service) = Some (the (to_config_key (Leader l :: ('fr, 'sp) service)))" for w l
    by (simp_all add: to_config_key_def)
  have peer: "(w, a) \<in> set (peer_workers ns) \<longleftrightarrow> entries st (the (to_config_key (Worker w :: ('fr, 'sp) service))) = Some a" for w a
  proof -
    have "(w, a) \<in> set (peer_workers ns) \<longleftrightarrow> (\<exists>n \<in> set ns. node_service n = Worker w \<and> node_addr n = a)"
      by (force simp: peer_workers_def split: service.splits)
    also have "\<dots> \<longleftrightarrow> \<lparr> node_service = Worker w, node_addr = a \<rparr> \<in> set ns"
      using node_eta[of _ "Worker w"] by (metis (no_types) node.select_convs)
    finally show ?thesis using entry_node[OF key(1) ns(2), of w] by simp
  qed
  then have peers: "w \<in> fst ` set (peer_workers ns) \<longleftrightarrow> entries st (the (to_config_key (Worker w :: ('fr, 'sp) service))) \<noteq> None" for w
    by force
  obtain conns where conns: "connect_workers uri_ok connect (peer_workers ns) = Some conns"
      "(\<forall>a. \<exists>c. connect a = Inr c) \<longrightarrow> (\<exists>ws. conns = Inr ws)"
    using connect_workers_total[of "peer_workers ns" uri_ok connect] peer uris by blast
  let ?l = "\<lparr> leader_group = worker_group worker \<rparr>"
  let ?is = "\<lambda>n :: (unit, unit) node. case node_service n of Leader l \<Rightarrow> leader_group l = worker_group worker | _ \<Rightarrow> False"
  have is_iff: "?is n \<longleftrightarrow> node_service n = Leader ?l" for n by (auto split: service.splits)
  have leader: "leader_addr worker ns \<noteq> None \<longleftrightarrow> entries st (the (to_config_key (Leader ?l :: ('fr, 'sp) service))) \<noteq> None"
  proof -
    have "leader_addr worker ns \<noteq> None \<longleftrightarrow> (\<exists>n \<in> set ns. node_service n = Leader ?l)"
      unfolding leader_addr_def is_iff by (auto simp: find_None_iff)
    also have "\<dots> \<longleftrightarrow> (\<exists>a. \<lparr> node_service = Leader ?l, node_addr = a \<rparr> \<in> set ns)" by (rule bex_node)
    finally show ?thesis using entry_node[OF key(2) ns(2), of ?l] by auto
  qed
  show ?thesis
  proof (cases conns)
    case (Inl err)
    then have "\<not> (\<forall>a. \<exists>c. connect a = Inr c)" using conns(2) by auto
    then show ?thesis using Inl conns(1) by (auto simp: service_map_from_config_def ns(1))
  next
    case (Inr ws)
    let ?m = "foldl (\<lambda>m (w, c). AList.update w c m) [] ws"
    have "map_of ?m w \<noteq> None \<longleftrightarrow> w \<in> fst ` set (peer_workers ns)" for w
      using arg_cong[OF connect_workers_fst[OF conns(1)[unfolded Inr]], of set]
        map_of_eq_None_iff[of "rev ws" w] by (auto simp: map_of_foldl_update)
    moreover have "\<not> (\<forall>a. \<exists>c. connect_leader a = Inr c)" if "connect_leader a = Inl err" for a err
      using that by (metis sum.distinct(1))
    ultimately show ?thesis
      using Inr conns(1) peers leader
      by (cases "leader_addr worker ns"; cases "connect_leader (''http://'' @ the (leader_addr worker ns))")
        (simp_all add: service_map_from_config_def ns(1))
  qed
qed

end

section \<open>The invariant\<close>

text \<open>A service is registered when the store has its address.\<close>

definition registered :: "(config_key \<Rightarrow> config_value option) \<Rightarrow> ('fr, 'sp) service \<Rightarrow> bool" where
  "registered m s \<longleftrightarrow> (\<exists>k. to_config_key s = Some k \<and> m k \<noteq> None)"

definition all_registered :: "('fr, 'sp) service list \<Rightarrow> (config_key \<Rightarrow> config_value option) \<Rightarrow> bool" where
  "all_registered ss m \<longleftrightarrow> (\<forall>s \<in> set ss. registered m s)"

definition start_key :: config_key where
  "start_key = [''experiment'', ''start-time'']"

text \<open>The shards of a client: one worker of every group.\<close>

definition shards_ok :: "('fr, 'sp) service list \<Rightarrow> worker_info list \<Rightarrow> bool" where
  "shards_ok ss ws \<longleftrightarrow> distinct (map worker_group ws) \<and> set ws \<subseteq> {w. Worker w \<in> set ss}
     \<and> worker_group ` set ws = {worker_group w | w. Worker w \<in> set ss}"

text \<open>What a worker has to know of the others.\<close>

definition services_known :: "('fr, 'sp) service list \<Rightarrow> worker_info \<Rightarrow> (string, string) service_map \<Rightarrow> bool" where
  "services_known ss w m \<longleftrightarrow> (\<forall>w'. map_of (sm_workers m) w' \<noteq> None \<longleftrightarrow> Worker w' \<in> set ss)
     \<and> (sm_leader m \<noteq> None \<longleftrightarrow> Leader \<lparr> leader_group = worker_group w \<rparr> \<in> set ss)"

text \<open>The client is registered, with all of its shards, at the given ones.\<close>

definition joined where
  "joined su i shards ws \<longleftrightarrow> su_shards su i = Some shards
     \<and> (\<forall>w \<in> set ws. map_of (cr_peers (ws_client_registry (mw_state (su_workers su w)))) i = Some shards)"

text \<open>What holds of a process ready to start.\<close>

definition ready where
  "ready ss su s \<longleftrightarrow> (case s of
      Publisher _ \<Rightarrow> True
    | Leader _ \<Rightarrow> True
    | Worker w \<Rightarrow> (\<exists>m. mw_services (su_workers su w) = Some m \<and> services_known ss w m)
    | Client c \<Rightarrow> (\<exists>shards. joined su (client_idx c) shards shards))"

definition phase_ok where
  "phase_ok ss e m su s p \<longleftrightarrow>
     (case p of
        Booting \<Rightarrow> (\<forall>c. s = Client c \<longrightarrow> su_shards su (client_idx c) = None)
      | Loading \<Rightarrow> (\<exists>i. s = Publisher i) \<and> registered m s
      | Polling _ \<Rightarrow> (s \<in> set ss \<longrightarrow> registered m s) \<and> (\<forall>i. s = Publisher i \<longrightarrow> su_experiment su = Some e)
          \<and> (\<forall>c. s = Client c \<longrightarrow> su_shards su (client_idx c) = None)
      | Found _ \<Rightarrow> all_registered ss m \<and> (\<forall>c. s = Client c \<longrightarrow> su_shards su (client_idx c) = None)
      | Joining _ rest \<Rightarrow> all_registered ss m \<and> (\<exists>c ws. s = Client c \<and> joined su (client_idx c) (ws @ rest) ws)
      | Delaying _ \<Rightarrow> all_registered ss m \<and> ready ss su s \<and> (\<forall>i. s = Publisher i \<longrightarrow> m start_key \<noteq> None) \<and> (\<forall>l. s \<noteq> Leader l)
      | Running \<Rightarrow> all_registered ss m \<and> ready ss su s \<and> (\<forall>i. s = Publisher i \<longrightarrow> m start_key \<noteq> None)
          \<and> (\<forall>l. s = Leader l \<longrightarrow> ml_publisher (su_leaders su (leader_group l)) \<noteq> None)
      | Failed _ \<Rightarrow> True
      | Panicked \<Rightarrow> True)"

text \<open>The state of a worker during the start: nothing but its registry changes, the clients in the registry have this
  worker among their shards, and once it has started it has sent its accumulator exactly if it has no clients.\<close>

definition worker_ok where
  "worker_ok W ws0 su w \<longleftrightarrow>
     (let mw = su_workers su w; reg = ws_client_registry (mw_state mw) in
        mw_state mw = ws0\<lparr> ws_client_registry := reg \<rparr> \<and> distinct (map fst (cr_peers reg))
      \<and> (\<forall>i shards. map_of (cr_peers reg) i = Some shards \<longrightarrow> su_shards su i = Some shards \<and> w \<in> set shards)
      \<and> (mw_start_rx mw \<noteq> None \<longleftrightarrow> su_phase su (Worker w) = Running)
      \<and> map snd (su_sent su w) = (if mw_start_rx mw \<noteq> None \<and> \<not> worker_hammer ws0 \<and> cr_peers reg = []
          then [\<lparr> ag_share = Some (share_of_accumulator (wire_acc_into W) (accumulator_get (ws_accumulator ws0))) \<rparr>] else []))"

text \<open>The store has the addresses of the processes.\<close>

definition addressed where
  "addressed P m \<longleftrightarrow> (\<forall>s k a. to_config_key s = Some k \<longrightarrow> m k = Some a \<longrightarrow> a = sp_addr P s)"

definition store_ok where
  "store_ok P json ss m \<longleftrightarrow> nodes_only (set ss) m \<and> addressed P m \<and> m [''experiment'', ''config''] = Some json
     \<and> (\<forall>v. m start_key = Some v \<longrightarrow> all_registered ss m \<and> (\<exists>t. v = sp_to_rfc3339 P t))"

abbreviation procs_of :: "('fr, 'sp) service list \<Rightarrow> ('fr, 'sp) client_info set \<Rightarrow> ('fr, 'sp) service set" where
  "procs_of ss clients \<equiv> set ss \<union> Client ` clients"

definition startup_inv where
  "startup_inv P W T e json ss clients ws0 m su \<longleftrightarrow>
     store_ok P json ss m
   \<and> (\<forall>s \<in> procs_of ss clients. phase_ok ss e m su s (su_phase su s))
   \<and> (\<forall>w. worker_ok W ws0 su w)
   \<and> (\<forall>i shards. su_shards su i = Some shards \<longrightarrow> i \<in> client_idx ` clients \<and> shards_ok ss shards)
   \<and> (\<forall>g. \<exists>pub. su_leaders su g = leader_from_protocol T (ex_group_size e) pub)"

lemma set_phase_sel [simp]:
  "su_store (set_phase s p su) = su_store su" "su_now (set_phase s p su) = su_now su"
  "su_phase (set_phase s p su) = (su_phase su)(s := p)" "su_experiment (set_phase s p su) = su_experiment su"
  "su_workers (set_phase s p su) = su_workers su" "su_leaders (set_phase s p su) = su_leaders su"
  "su_shards (set_phase s p su) = su_shards su" "su_sent (set_phase s p su) = su_sent su"
  by (simp_all add: set_phase_def)

text \<open>What a process relies on is not changed by the steps of the others.\<close>

definition unaffected where
  "unaffected su su' s \<longleftrightarrow> (case s of
      Publisher _ \<Rightarrow> su_experiment su' = su_experiment su
    | Leader l \<Rightarrow> su_leaders su' (leader_group l) = su_leaders su (leader_group l)
    | Worker w \<Rightarrow> mw_services (su_workers su' w) = mw_services (su_workers su w)
    | Client c \<Rightarrow> su_shards su' (client_idx c) = su_shards su (client_idx c)
        \<and> (\<forall>w. map_of (cr_peers (ws_client_registry (mw_state (su_workers su' w)))) (client_idx c)
          = map_of (cr_peers (ws_client_registry (mw_state (su_workers su w)))) (client_idx c)))"

lemma ready_unaffected: "unaffected su su' s \<Longrightarrow> ready ss su' s = ready ss su s"
  by (cases s) (simp_all add: unaffected_def ready_def joined_def)

lemma phase_ok_unaffected:
  fixes s :: "('fr, 'sp) service"
  assumes "phase_ok ss e m su s p" "unaffected su su' s" "dom m \<subseteq> dom m'"
  shows "phase_ok ss e m' su' s p"
proof -
  have mono: "m k \<noteq> None \<Longrightarrow> m' k \<noteq> None" for k using assms(3) by blast
  then have reg: "registered m s \<Longrightarrow> registered m' s" for s :: "('fr, 'sp) service" by (auto simp: registered_def)
  then have all: "all_registered ss m \<Longrightarrow> all_registered ss m'" by (simp add: all_registered_def)
  show ?thesis
  proof (cases p)
    case (Joining t rest)
    then obtain c ws where c: "s = Client c" "joined su (client_idx c) (ws @ rest) ws" "all_registered ss m"
      using assms(1) by (auto simp: phase_ok_def)
    then have "joined su' (client_idx c) (ws @ rest) ws" using assms(2) by (simp add: unaffected_def joined_def)
    then show ?thesis using Joining c all by (auto simp: phase_ok_def)
  next
    case Running
    then show ?thesis
      using assms(1,2) all ready_unaffected[OF assms(2), of ss] mono[of start_key] by (auto simp: phase_ok_def unaffected_def)
  next
    case (Delaying t)
    then show ?thesis using assms(1) all ready_unaffected[OF assms(2), of ss] mono[of start_key] by (auto simp: phase_ok_def)
  qed (use assms all reg in \<open>auto simp: phase_ok_def unaffected_def split: service.splits\<close>)
qed

lemma startup_inv_update:
  fixes s :: "('fr, 'sp) service"
  assumes inv: "startup_inv P W T e json ss clients ws0 m su"
    and phases: "su_phase su' = (su_phase su)(s := p)"
    and own: "phase_ok ss e m' su' s p"
    and store: "store_ok P json ss m'" "dom m \<subseteq> dom m'"
    and others: "\<And>s'. s' \<in> procs_of ss clients \<Longrightarrow> s' \<noteq> s \<Longrightarrow> unaffected su su' s'"
    and workers: "\<And>w. worker_ok W ws0 su' w"
    and shards: "\<And>i shards. su_shards su' i = Some shards \<Longrightarrow> i \<in> client_idx ` clients \<and> shards_ok ss shards"
    and leaders: "\<And>g. \<exists>pub. su_leaders su' g = leader_from_protocol T (ex_group_size e) pub"
  shows "startup_inv P W T e json ss clients ws0 m' su'"
proof -
  have "phase_ok ss e m' su' s' (su_phase su' s')" if s': "s' \<in> procs_of ss clients" for s'
  proof (cases "s' = s")
    case False
    have "phase_ok ss e m su s' (su_phase su s')" using inv s' unfolding startup_inv_def by blast
    from phase_ok_unaffected[OF this others[OF s' False] store(2)] show ?thesis using False phases by simp
  qed (use own phases in simp)
  then show ?thesis unfolding startup_inv_def using store(1) workers shards leaders by blast
qed

lemma worker_okD:
  assumes "worker_ok W ws0 su w"
  shows "mw_state (su_workers su w) = ws0\<lparr> ws_client_registry := ws_client_registry (mw_state (su_workers su w)) \<rparr>"
    "distinct (map fst (cr_peers (ws_client_registry (mw_state (su_workers su w)))))"
    "map_of (cr_peers (ws_client_registry (mw_state (su_workers su w)))) i = Some shards \<Longrightarrow> su_shards su i = Some shards \<and> w \<in> set shards"
    "mw_start_rx (su_workers su w) \<noteq> None \<longleftrightarrow> su_phase su (Worker w) = Running"
    "mw_start_rx (su_workers su w) = None \<Longrightarrow> su_sent su w = []"
    "mw_start_rx (su_workers su w) \<noteq> None \<Longrightarrow> su_sent su w \<noteq> [] \<longleftrightarrow>
      \<not> worker_hammer ws0 \<and> cr_peers (ws_client_registry (mw_state (su_workers su w))) = []"
  using assms unfolding worker_ok_def Let_def by (blast, blast, blast, blast, simp, metis (no_types) list.simps(3) map_is_Nil_conv)

lemma worker_ok_cong:
  assumes "worker_ok W ws0 su w" "mw_state (su_workers su' w) = mw_state (su_workers su w)"
    "mw_start_rx (su_workers su' w) = mw_start_rx (su_workers su w)" "su_sent su' w = su_sent su w"
    "su_phase su' (Worker w) = Running \<longleftrightarrow> su_phase su (Worker w) = Running"
    "\<And>i shards. su_shards su i = Some shards \<Longrightarrow> su_shards su' i = Some shards"
  shows "worker_ok W ws0 su' w"
  using assms(1,6) unfolding worker_ok_def Let_def assms(2-5) by blast

text \<open>A step that only changes the phase, the store and the experiment.\<close>

lemma startup_inv_phase:
  fixes s :: "('fr, 'sp) service"
  assumes inv: "startup_inv P W T e json ss clients ws0 m su"
    and same: "su_phase su' = (su_phase su)(s := p)" "su_workers su' = su_workers su" "su_leaders su' = su_leaders su"
      "su_shards su' = su_shards su" "su_sent su' = su_sent su"
    and exp: "su_experiment su' = su_experiment su \<or> (\<exists>i. s = Publisher i)"
    and own: "phase_ok ss e m' su' s p"
    and running: "\<And>w. s = Worker w \<Longrightarrow> p = Running \<longleftrightarrow> su_phase su s = Running"
    and store: "store_ok P json ss m'" "dom m \<subseteq> dom m'"
  shows "startup_inv P W T e json ss clients ws0 m' su'"
proof (rule startup_inv_update[OF inv same(1) own store])
  have "i = j" for i j :: publisher_info by (cases i; cases j) simp
  then show "unaffected su su' s'" if "s' \<noteq> s" for s'
    using that exp same by (auto simp: unaffected_def split: service.splits)
  show "worker_ok W ws0 su' w" for w
    by (rule worker_ok_cong[of _ _ su]) (use inv same running in \<open>auto simp: startup_inv_def\<close>)
qed (use inv same in \<open>auto simp: startup_inv_def\<close>)

end
