(* ===== verification/Launch.thy ===== *)
theory Launch
  imports Startup
begin

text \<open>
  The start of an experiment is correct. The locale \<open>startup_system\<close> collects what it rests on: a store that keeps the
  contract of discovery, an experiment that is in it, addresses that make URIs, dates and JSON that are read back as they were
  written, a random choice that chooses, and clients with different indices.

  \<^item> Every step of every process keeps the invariant of \<open>Startup\<close>, whatever the inputs, and a process panics exactly if it is a
    worker or leader out of attempts to read the start time (\<open>process_ok\<close>, \<open>panics_iff\<close>).
  \<^item> While no process has failed and no worker has started before the clients registered, the start can be continued until
    every process runs (\<open>completes\<close>): some process can always go on, and its step makes the remaining work smaller.
\<close>

section \<open>The start of an experiment\<close>

text \<open>Inputs with which nothing outside fails.\<close>

definition good_input :: "'rnd step_input \<Rightarrow> bool" where
  "good_input inp \<longleftrightarrow> (\<forall>k. si_health inp k = Inr True) \<and> (\<forall>a. \<exists>c. si_connect inp a = Inr c)
     \<and> (\<forall>a k. \<exists>c. si_attempt inp a k = Inr c)"

lemma try_map_all_Some: "map f xs = map Some ys \<Longrightarrow> try_map f xs = Some ys"
  by (induction xs arbitrary: ys) auto

lemma node_worker_iff: "node_worker nd = Some w \<longleftrightarrow> node_service nd = Worker w"
  by (auto simp: node_worker_def split: service.splits)

lemma publisher_unique: "i = PublisherInfo"
  by (cases i) simp

text \<open>A worker or leader whose last attempt to read the start time fails.\<close>

definition gives_up :: "(config_key \<Rightarrow> config_value option) \<Rightarrow> ('fr, 'sp) service \<Rightarrow> phase \<Rightarrow> bool" where
  "gives_up m s p \<longleftrightarrow> m start_key = None \<and> (case p of Polling left \<Rightarrow> left \<le> 1 | _ \<Rightarrow> False)
     \<and> (case s of Worker _ \<Rightarrow> True | Leader _ \<Rightarrow> True | _ \<Rightarrow> False)"

locale startup_system = discovery_store S store_wf key_ok entries + shard_choice "sp_pick P" "sp_order P"
  for S :: "'st store_ops" and store_wf key_ok and entries :: "'st \<Rightarrow> config_key \<Rightarrow> config_value option"
    and P :: "('st, 'rnd, 'r, 'fr, 'sp) startup_params" +
  fixes W :: "('t, 's, 'k, 'm, 'fr, 'sp) wire_ops" and T :: "('r, 'm, 'k, 't, 's) protocol_ops"
    and e :: "('r, 'fr, 'sp) experiment_spec" and ss :: "('fr, 'sp) service list" and n :: u16
    and json :: string and clients :: "('fr, 'sp) client_info set" and ws0 :: "('s, 't, 'm, 'r, 'fr, 'sp) worker_state"
  assumes store: "sp_store P = S"
    and services: "iter_services e = Some ss" and groups: "experiment_groups e = Some n"
    and from_json: "sp_from_json P json = Inr e"
    and uris: "s \<in> set ss \<Longrightarrow> sp_uri_ok P (''http://'' @ sp_addr P s) \<and> sp_uri_ok P (''https://'' @ sp_addr P s)"
    and times: "sp_parse P (sp_to_rfc3339 P t) = Inr t"
    and clients: "finite clients" "inj_on client_idx clients"
    and fresh: "worker_from_experiment T e = Some ws0"
begin

abbreviation procs :: "('fr, 'sp) service set" where
  "procs \<equiv> procs_of ss clients"

definition inv :: "('st, 's, 't, 'm, 'r, 'fr, 'sp) startup \<Rightarrow> bool" where
  "inv su \<longleftrightarrow> store_wf (su_store su) \<and> startup_inv P W T e json ss clients ws0 (entries (su_store su)) su"

text \<open>A step of a process: the invariant holds afterwards, or the process gives up.\<close>

definition stepped where
  "stepped su s Q r \<longleftrightarrow>
     (\<exists>su' p. r = Some su' \<and> inv su' \<and> su_phase su' = (su_phase su)(s := p) \<and> su_now su' = su_now su \<and> Q p)
   \<or> r = None \<and> gives_up (entries (su_store su)) s (su_phase su s)"

lemma services_set: "set ss = {Publisher PublisherInfo}
    \<union> {Worker w | w. group_idx (worker_group w) < n \<and> worker_idx w < ex_group_size e}
    \<union> {Leader l | l. \<not> ex_hammer e \<and> group_idx (leader_group l) < n}"
  by (rule iter_services_set[OF services groups])

lemma no_client_service: "Client c \<notin> set ss"
  by (simp add: services_set)

lemma service_key: "s \<in> set ss \<Longrightarrow> \<exists>k. to_config_key s = Some k"
  using no_client_service by (cases s) (auto simp: to_config_key_def)

lemma invD:
  assumes "inv su"
  shows "store_wf (su_store su)" "store_ok P json ss (entries (su_store su))"
    "s \<in> procs \<Longrightarrow> phase_ok ss e (entries (su_store su)) su s (su_phase su s)" "worker_ok W ws0 su w"
    "su_shards su i = Some shards \<Longrightarrow> i \<in> client_idx ` clients \<and> shards_ok ss shards"
    "\<exists>pub. su_leaders su g = leader_from_protocol T (ex_group_size e) pub"
  using assms unfolding inv_def startup_inv_def by blast+

text \<open>Only the services of the experiment are registered.\<close>

lemma registered_service:
  assumes "nodes_only (set ss) m" "registered m s"
  shows "s \<in> set ss"
proof -
  obtain k v where k: "to_config_key s = Some k" "m k = Some v" using assms(2) by (auto simp: registered_def)
  then obtain s' where "s' \<in> set ss" "to_config_key s' = Some k"
    using assms(1) config_key_path[OF k(1)] unfolding nodes_only_def by blast
  then show ?thesis using config_key_inject[OF k(1)] by blast
qed

lemma registered_node: "registered m s \<longleftrightarrow> s \<in> node_service ` store_nodes m"
proof -
  have "registered m s \<longleftrightarrow> (\<exists>a. \<lparr> node_service = s, node_addr = a \<rparr> \<in> store_nodes m)"
    by (auto simp: registered_def store_nodes_def)
  then show ?thesis using bex_node[of "store_nodes m" s] by (auto simp: image_iff)
qed

lemma all_registered_nodes:
  assumes "nodes_only (set ss) m"
  shows "all_registered ss m \<longleftrightarrow> node_service ` (store_nodes m :: ('fr, 'sp) node set) = set ss"
  using registered_service[OF assms] unfolding all_registered_def registered_node by blast

lemma keys_ok: "key_ok [''experiment'', ''config'']" "key_ok start_key"
  by (rule path_ok, simp add: path_key_def start_key_def)+

lemma service_key_other:
  "to_config_key s = Some k \<Longrightarrow> k \<noteq> [''experiment'', ''config''] \<and> k \<noteq> start_key"
  using config_key_path by (fastforce simp: start_key_def)

text \<open>A step that changes only the phase.\<close>

lemma stepped_phase:
  assumes "inv su" "phase_ok ss e (entries (su_store su)) su s p" "Q p"
    and "su_phase su s \<noteq> Running" "p = Running \<Longrightarrow> \<exists>c. s = Client c \<or> (\<exists>i. s = Publisher i)"
  shows "stepped su s Q (Some (set_phase s p su))"
proof -
  have own: "phase_ok ss e (entries (su_store su)) (set_phase s p su) s p"
    by (rule phase_ok_unaffected[OF assms(2)]) (auto simp: unaffected_def split: service.splits)
  have "startup_inv P W T e json ss clients ws0 (entries (su_store su)) (set_phase s p su)"
  proof (rule startup_inv_phase[where s = s and p = p and su = su])
    show "phase_ok ss e (entries (su_store su)) (set_phase s p su) s p" by (rule own)
    show "startup_inv P W T e json ss clients ws0 (entries (su_store su)) su" using assms(1) by (simp add: inv_def)
    show "store_ok P json ss (entries (su_store su))" by (rule invD(2)[OF assms(1)])
    show "p = Running \<longleftrightarrow> su_phase su s = Running" if "s = Worker w" for w using assms(4,5) that by auto
  qed simp_all
  then have "inv (set_phase s p su)" using assms(1) by (simp add: inv_def)
  then show ?thesis using assms(3) unfolding stepped_def by auto
qed

lemma stepped_failed:
  "inv su \<Longrightarrow> su_phase su s \<noteq> Running \<Longrightarrow> Q (Failed err) \<Longrightarrow> stepped su s Q (Some (set_phase s (Failed err) su))"
  by (rule stepped_phase) (auto simp: phase_ok_def)

lemma stepped_poll_failed:
  assumes "inv su" "su_phase su s = Polling left" "s \<in> procs" "\<And>p. Q p"
    and "entries (su_store su) start_key = None \<or> (\<exists>i. s = Publisher i)"
  shows "stepped su s Q (poll_failed s err left su)"
proof (cases "left \<le> 1")
  case True
  have "gives_up (entries (su_store su)) s (su_phase su s)" if "s = Worker w \<or> s = Leader l" for w l
    using that assms(2,5) True by (auto simp: gives_up_def)
  then have "stepped su s Q None" if "s = Worker w \<or> s = Leader l" for w l using that unfolding stepped_def by blast
  then show ?thesis
    using stepped_failed[of su s Q] assms(1,2,4) True by (cases s) (auto simp: poll_failed_def error_policy_def)
next
  case False
  have "phase_ok ss e (entries (su_store su)) su s (Polling left')" for left'
    using invD(3)[OF assms(1,3)] assms(2) by (simp add: phase_ok_def)
  then show ?thesis
    using stepped_phase[OF assms(1), of s _ Q] False assms(2,4) by (auto simp: poll_failed_def error_policy_def)
qed

subsection \<open>Registration and the store\<close>

lemma store_ok_register:
  assumes "store_ok P json ss m" "s \<in> set ss" "to_config_key s = Some k" "a = sp_addr P s"
  shows "store_ok P json ss (m(k \<mapsto> a))" "dom m \<subseteq> dom (m(k \<mapsto> a))" "registered (m(k \<mapsto> a)) s"
proof -
  have "nodes_only (set ss) (m(k \<mapsto> a))" using assms(1-3) by (auto simp: store_ok_def nodes_only_def)
  moreover have "addressed P (m(k \<mapsto> a))"
    using assms(1,4) config_key_inject[OF assms(3)] unfolding store_ok_def addressed_def by auto
  moreover have "all_registered ss m \<Longrightarrow> all_registered ss (m(k \<mapsto> a))"
    by (auto simp: all_registered_def registered_def) (metis option.distinct(1))
  ultimately show "store_ok P json ss (m(k \<mapsto> a))"
    using assms(1) service_key_other[OF assms(3)] by (auto simp: store_ok_def)
qed (use assms(3) in \<open>auto simp: registered_def\<close>)

lemma boot_service_ok:
  assumes "inv su" "s \<in> set ss" "su_phase su s = Booting"
  shows "stepped su s (\<lambda>p. good_input inp \<longrightarrow> p = (case s of Publisher _ \<Rightarrow> Loading | _ \<Rightarrow> Polling RETRY_ATTEMPTS))
    (boot_service P inp s su)"
    (is "stepped su s ?Q _")
proof (cases "wait_for_health (si_health inp)")
  case (Inl err)
  then have "\<not> health_loop (si_health inp) 0 HEALTH_RETRY_ATTEMPTS"
    by (auto simp: wait_for_health_def wait_for_health_helper_def)
  then have "\<not> good_input inp"
    unfolding health_loop_iff good_input_def HEALTH_RETRY_ATTEMPTS_def by (metis zero_less_numeral)
  then show ?thesis using Inl stepped_failed[OF assms(1), of s ?Q] assms(3) uris[OF assms(2)] by (simp add: boot_service_def)
next
  case (Inr u)
  obtain k where k: "to_config_key s = Some k" using service_key[OF assms(2)] by blast
  obtain st where st: "register S (su_store su) \<lparr> node_service = s, node_addr = sp_addr P s \<rparr> = Some (Inr st)"
      "store_wf st" "entries st = (entries (su_store su))(k \<mapsto> sp_addr P s)"
    using register_ok[OF invD(1)[OF assms(1)], of "\<lparr> node_service = s, node_addr = sp_addr P s \<rparr>" k] k by auto
  define p where "p = (case s of Publisher _ \<Rightarrow> Loading | _ \<Rightarrow> Polling RETRY_ATTEMPTS)"
  define su' where "su' = set_phase s p (su\<lparr> su_store := st \<rparr>)"
  note upd = store_ok_register[OF invD(2)[OF assms(1)] assms(2) k refl, folded st(3)]
  have "startup_inv P W T e json ss clients ws0 (entries st) su'"
  proof (rule startup_inv_phase[where s = s and p = p and su = su])
    show "startup_inv P W T e json ss clients ws0 (entries (su_store su)) su" using assms(1) by (simp add: inv_def)
    show "phase_ok ss e (entries st) su' s p"
      using upd(3) no_client_service assms(2) by (auto simp: phase_ok_def p_def split: service.splits)
    show "p = Running \<longleftrightarrow> su_phase su s = Running" for w using assms(3) by (simp add: p_def split: service.splits)
  qed (use upd in \<open>simp_all add: su'_def\<close>)
  then have "inv su'" using st(2) by (simp add: inv_def su'_def)
  then show ?thesis using Inr st(1) uris[OF assms(2)] unfolding stepped_def by (auto simp: boot_service_def store su'_def p_def)
qed

lemma load_experiment_ok:
  assumes "inv su" "s \<in> set ss" "su_phase su s = Loading"
  shows "stepped su s (\<lambda>p. p = Polling RETRY_ATTEMPTS) (load_experiment P s su)"
proof -
  define su' where "su' = set_phase s (Polling RETRY_ATTEMPTS) (su\<lparr> su_experiment := Some e \<rparr>)"
  have phase: "(\<exists>i. s = Publisher i) \<and> registered (entries (su_store su)) s"
    using invD(3)[OF assms(1), of s] assms(2,3) by (simp add: phase_ok_def)
  have "startup_inv P W T e json ss clients ws0 (entries (su_store su)) su'"
  proof (rule startup_inv_phase[where s = s and p = "Polling RETRY_ATTEMPTS" and su = su])
    show "startup_inv P W T e json ss clients ws0 (entries (su_store su)) su" using assms(1) by (simp add: inv_def)
    show "phase_ok ss e (entries (su_store su)) su' s (Polling RETRY_ATTEMPTS)"
      using phase by (auto simp: phase_ok_def su'_def)
    show "store_ok P json ss (entries (su_store su))" by (rule invD(2)[OF assms(1)])
  qed (use phase assms(3) in \<open>auto simp: su'_def\<close>)
  then have "inv su'" using assms(1) by (simp add: inv_def su'_def)
  moreover have "read_from_store S (sp_from_json P) (su_store su) = Some (Inr e)"
    using get_eq[OF invD(1)[OF assms(1)] keys_ok(1)] invD(2)[OF assms(1)] from_json
    by (simp add: read_from_store_def store_ok_def)
  ultimately show ?thesis unfolding stepped_def by (auto simp: load_experiment_def store su'_def)
qed

lemma poll_start_time_ok:
  assumes "inv su" "s \<in> procs" "su_phase su s = Polling left" "\<And>i. s \<noteq> Publisher i"
  shows "stepped su s (\<lambda>p. entries (su_store su) start_key \<noteq> None \<longrightarrow> (\<exists>t. p = Found t)) (poll_start_time P s left su)"
    (is "stepped su s ?Q _")
proof -
  have get: "get_start_time S (sp_parse P) (su_store su) = Some (case entries (su_store su) start_key of
      None \<Rightarrow> Inl (error_new ''Empty start time.'')
    | Some v \<Rightarrow> (case sp_parse P v of Inl err \<Rightarrow> Inl (error_new err) | Inr d \<Rightarrow> Inr d))"
    using get_eq[OF invD(1)[OF assms(1)] keys_ok(2)] by (simp add: get_start_time_def start_key_def)
  show ?thesis
  proof (cases "entries (su_store su) start_key")
    case None
    then show ?thesis
      using stepped_poll_failed[OF assms(1,3,2), of ?Q] get by (simp add: poll_start_time_def store)
  next
    case (Some v)
    then obtain t where v: "v = sp_to_rfc3339 P t" "all_registered ss (entries (su_store su))"
      using invD(2)[OF assms(1)] unfolding store_ok_def by blast
    have "phase_ok ss e (entries (su_store su)) su s (Found t)"
      using invD(3)[OF assms(1,2)] assms(3) v(2) by (simp add: phase_ok_def)
    then show ?thesis
      using stepped_phase[OF assms(1), of s "Found t" ?Q] assms(3) get Some v(1) times by (simp add: poll_start_time_def store)
  qed
qed

lemma poll_quorum_ok:
  assumes "inv su" "s \<in> procs" "su_phase su s = Polling left" "s = Publisher i"
  shows "stepped su s (\<lambda>p. all_registered ss (entries (su_store su)) \<longrightarrow> (\<exists>t. p = Found t)) (poll_quorum P s left su)"
    (is "stepped su s ?Q _")
proof -
  have exp: "su_experiment su = Some e" using invD(3)[OF assms(1,2)] assms(3,4) by (simp add: phase_ok_def)
  have only: "nodes_only (set ss) (entries (su_store su))" using invD(2)[OF assms(1)] by (simp add: store_ok_def)
  obtain res where res: "has_quorum S (sp_debug P) (su_store su) e = Some res"
      "res = Inr () \<longleftrightarrow> all_registered ss (entries (su_store su))"
    using has_quorum_iff[OF invD(1)[OF assms(1)] only services, of "sp_debug P"] all_registered_nodes[OF only] by auto
  show ?thesis
  proof (cases res)
    case (Inl err)
    then have "stepped su s ?Q (poll_failed s err left su)"
      using res(2) assms(4) by (intro stepped_poll_failed[OF assms(1,3,2)]) simp_all
    then show ?thesis using Inl res(1) exp by (simp add: poll_quorum_def store)
  next
    case (Inr u)
    then have "phase_ok ss e (entries (su_store su)) su s (Found (su_now su))" using res(2) assms(4) by (simp add: phase_ok_def)
    then show ?thesis
      using stepped_phase[OF assms(1), of s "Found (su_now su)" ?Q] Inr res(1) exp assms(3) by (simp add: poll_quorum_def store)
  qed
qed

lemma publisher_found_ok:
  assumes "inv su" "s \<in> procs" "su_phase su s = Found t0" "s = Publisher i"
  shows "stepped su s (\<lambda>p. \<exists>t. p = Delaying t) (publisher_found P s su)"
proof -
  define t where "t = su_now su + sp_delay_ms P"
  let ?m = "entries (su_store su)"
  obtain st where st: "set_start_time S (sp_to_rfc3339 P) (su_store su) t = Inr st" "store_wf st"
      "entries st = ?m(start_key \<mapsto> sp_to_rfc3339 P t)"
    using put_ok[OF invD(1)[OF assms(1)] keys_ok(2)] by (auto simp: set_start_time_def start_key_def)
  define su' where "su' = set_phase s (Delaying t) (su\<lparr> su_store := st \<rparr>)"
  have all: "all_registered ss ?m" using invD(3)[OF assms(1,2)] assms(3) by (simp add: phase_ok_def)
  have m: "dom ?m \<subseteq> dom (entries st)" "all_registered ss (entries st)" "store_ok P json ss (entries st)"
  proof -
    show dom: "dom ?m \<subseteq> dom (entries st)" by (auto simp: st(3))
    show all': "all_registered ss (entries st)"
      using all dom by (fastforce simp: all_registered_def registered_def)
    show "store_ok P json ss (entries st)"
      using invD(2)[OF assms(1)] all' service_key_other unfolding store_ok_def addressed_def st(3)
      by (auto simp: nodes_only_def start_key_def split: if_splits)
  qed
  have "startup_inv P W T e json ss clients ws0 (entries st) su'"
  proof (rule startup_inv_phase[where s = s and p = "Delaying t" and su = su])
    show "startup_inv P W T e json ss clients ws0 (entries (su_store su)) su" using assms(1) by (simp add: inv_def)
    show "phase_ok ss e (entries st) su' s (Delaying t)"
      using m(2) assms(4) by (simp add: phase_ok_def ready_def st(3))
  qed (use m assms(4) in \<open>simp_all add: su'_def\<close>)
  then have "inv su'" using st(2) by (simp add: inv_def su'_def)
  then show ?thesis using st(1) unfolding stepped_def by (auto simp: publisher_found_def store su'_def t_def)
qed

subsection \<open>Leaders and workers\<close>

lemma leader_found_ok:
  assumes "inv su" "s \<in> procs" "su_phase su s = Found t0" "s = Leader l"
  shows "stepped su s (\<lambda>p. good_input inp \<longrightarrow> p = Running)
    (leader_found P inp TYPE('fr \<times> 'sp) s (leader_group l) su)" (is "stepped su s ?Q _")
proof -
  let ?m = "entries (su_store su)" and ?g = "leader_group l"
  have only: "nodes_only (set ss) ?m" using invD(2)[OF assms(1)] by (simp add: store_ok_def)
  have all: "all_registered ss ?m" using invD(3)[OF assms(1,2)] assms(3) by (simp add: phase_ok_def)
  then have "Publisher PublisherInfo \<in> node_service ` (store_nodes ?m :: ('fr, 'sp) node set)"
    using all_registered_nodes[OF only] services_set by blast
  then obtain addr where run: "leader_startup S (si_connect inp) TYPE('fr \<times> 'sp) (su_store su) (su_leaders su ?g)
      = Some (case si_connect inp (''http://'' @ addr) of
          Inl err \<Rightarrow> Inl err | Inr publisher \<Rightarrow> Inr ((su_leaders su ?g)\<lparr> ml_publisher := Some publisher \<rparr>))"
    using leader_startup_eq[OF invD(1)[OF assms(1)] only] by blast
  show ?thesis
  proof (cases "si_connect inp (''http://'' @ addr)")
    case (Inl err)
    then have "\<not> good_input inp" unfolding good_input_def by (metis sum.distinct(1))
    then show ?thesis using Inl run stepped_failed[OF assms(1), of s ?Q err] assms(3) by (simp add: leader_found_def store)
  next
    case (Inr pub)
    define ml where "ml = (su_leaders su ?g)\<lparr> ml_publisher := Some pub \<rparr>"
    define su' where "su' = set_phase s Running (su\<lparr> su_leaders := (su_leaders su)(?g := ml) \<rparr>)"
    have "startup_inv P W T e json ss clients ws0 ?m su'"
    proof (rule startup_inv_update[where s = s and p = Running and su = su])
      show "startup_inv P W T e json ss clients ws0 ?m su" using assms(1) by (simp add: inv_def)
      show "phase_ok ss e ?m su' s Running" using all assms(4) by (simp add: phase_ok_def ready_def su'_def ml_def)
      show "store_ok P json ss ?m" by (rule invD(2)[OF assms(1)])
      show "unaffected su su' s'" if "s' \<noteq> s" for s'
        using that assms(4) by (auto simp: unaffected_def su'_def split: service.splits)
      show "worker_ok W ws0 su' w" for w
        by (rule worker_ok_cong[OF invD(4)[OF assms(1)]]) (use assms(4) in \<open>simp_all add: su'_def\<close>)
      show "\<exists>pub. su_leaders su' g = leader_from_protocol T (ex_group_size e) pub" for g
        using invD(6)[OF assms(1), of g] by (cases "g = ?g") (auto simp: su'_def ml_def leader_from_protocol_def)
    qed (use invD(5)[OF assms(1)] in \<open>simp_all add: su'_def\<close>)
    then have "inv su'" using assms(1) by (simp add: inv_def su'_def)
    then show ?thesis using run Inr unfolding stepped_def by (auto simp: leader_found_def store su'_def ml_def)
  qed
qed

text \<open>The entry of a service, whatever the types of the keys of clients.\<close>

lemma registered_entry:
  "entries st (the (to_config_key (Worker w :: ('fr, 'sp) service))) \<noteq> None \<longleftrightarrow> registered (entries st) (Worker w :: ('fr, 'sp) service)"
  "entries st (the (to_config_key (Leader l :: ('fr, 'sp) service))) \<noteq> None \<longleftrightarrow> registered (entries st) (Leader l :: ('fr, 'sp) service)"
  by (simp_all add: registered_def to_config_key_def)

lemma worker_found_ok:
  assumes "inv su" "s \<in> procs" "su_phase su s = Found t" "s = Worker w"
  shows "stepped su s (\<lambda>p. good_input inp \<longrightarrow> p = Delaying t) (worker_found P inp s w t su)" (is "stepped su s ?Q _")
proof -
  let ?m = "entries (su_store su)"
  have only: "nodes_only (set ss) ?m" using invD(2)[OF assms(1)] by (simp add: store_ok_def)
  have all: "all_registered ss ?m" using invD(3)[OF assms(1,2)] assms(3) by (simp add: phase_ok_def)
  have reg: "registered ?m s' \<longleftrightarrow> s' \<in> set ss" for s'
    using registered_service[OF only, of s'] all by (auto simp: all_registered_def)
  have uri: "\<forall>w' a. ?m (the (to_config_key (Worker w' :: ('fr, 'sp) service))) = Some a \<longrightarrow> sp_uri_ok P (''https://'' @ a)"
  proof (intro allI impI)
    fix w' a
    assume that: "?m (the (to_config_key (Worker w' :: ('fr, 'sp) service))) = Some a"
    let ?s = "Worker w' :: ('fr, 'sp) service"
    have k: "to_config_key ?s = Some (the (to_config_key ?s))" by (simp add: to_config_key_def)
    then have "a = sp_addr P ?s" using that invD(2)[OF assms(1)] unfolding store_ok_def addressed_def by blast
    moreover have "?s \<in> set ss" using reg[of ?s] that k by (auto simp: registered_def)
    ultimately show "sp_uri_ok P (''https://'' @ a)" using uris by simp
  qed
  obtain res where res: "service_map_from_config S (sp_uri_ok P) (si_connect inp) (si_connect inp) w (su_store su) = Some res"
    "\<And>m. res = Inr m \<Longrightarrow> services_known ss w m" "good_input inp \<Longrightarrow> \<exists>m. res = Inr m"
    using service_map_total[OF invD(1)[OF assms(1)] only uri, of "si_connect inp" "si_connect inp" w, unfolded registered_entry reg]
    unfolding services_known_def good_input_def by blast
  show ?thesis
  proof (cases res)
    case (Inl err)
    then have "\<not> good_input inp" using res(3) by auto
    then show ?thesis using Inl res(1) stepped_failed[OF assms(1), of s ?Q err] assms(3) by (simp add: worker_found_def store)
  next
    case (Inr m)
    define su' where "su' = set_phase s (Delaying t)
      (su\<lparr> su_workers := (su_workers su)(w := (su_workers su w)\<lparr> mw_services := Some m \<rparr>) \<rparr>)"
    have "startup_inv P W T e json ss clients ws0 ?m su'"
    proof (rule startup_inv_update[where s = s and p = "Delaying t" and su = su])
      show "startup_inv P W T e json ss clients ws0 ?m su" using assms(1) by (simp add: inv_def)
      show "phase_ok ss e ?m su' s (Delaying t)"
        using all assms(4) res(2)[OF Inr] by (simp add: phase_ok_def ready_def su'_def)
      show "store_ok P json ss ?m" by (rule invD(2)[OF assms(1)])
      show "unaffected su su' s'" if "s' \<noteq> s" for s'
        using that assms(4) by (auto simp: unaffected_def su'_def split: service.splits)
      show "worker_ok W ws0 su' w'" for w'
        by (rule worker_ok_cong[OF invD(4)[OF assms(1)]]) (use assms(3,4) in \<open>simp_all add: su'_def\<close>)
    qed (use invD(5,6)[OF assms(1)] in \<open>simp_all add: su'_def\<close>)
    then have "inv su'" using assms(1) by (simp add: inv_def su'_def)
    then show ?thesis using Inr res(1) unfolding stepped_def by (auto simp: worker_found_def store su'_def)
  qed
qed

subsection \<open>Clients\<close>

text \<open>With all services registered, what a client picks are shards.\<close>

lemma picked_shards:
  assumes "store_wf st" "nodes_only (set ss) (entries st)" "all_registered ss (entries st)"
  shows "\<exists>nodes shards r' ws. resolve_all S st = Some (Inr (nodes :: ('fr, 'sp) node list))
    \<and> pick_worker_shards (sp_order P) (sp_pick P) nodes r = Some (shards, r') \<and> try_map node_worker shards = Some ws
    \<and> shards_ok ss ws"
proof -
  obtain nodes :: "('fr, 'sp) node list" where nodes: "resolve_all S st = Some (Inr nodes)" "set nodes = store_nodes (entries st)"
    using resolve_all_ok[OF assms(1,2)] by blast
  have svc: "node_service ` set nodes = set ss" using all_registered_nodes[OF assms(2)] assms(3) nodes(2) by simp
  obtain shards r' ws where sh: "pick_worker_shards (sp_order P) (sp_pick P) nodes r = Some (shards, r')" "set shards \<subseteq> set nodes"
      "map node_worker shards = map Some ws" "distinct (map worker_group ws)"
      "worker_group ` set ws = {worker_group w | w n. n \<in> set nodes \<and> node_worker n = Some w}"
    using pick_worker_shards_ok[of nodes r] by blast
  have "Worker w \<in> set ss" if "w \<in> set ws" for w
  proof -
    have "Some w \<in> node_worker ` set shards" using that sh(3) by (metis imageI list.set_map)
    then obtain nd where "nd \<in> set shards" "node_worker nd = Some w" by force
    then have "nd \<in> set nodes" "node_service nd = Worker w" using sh(2) by (auto simp: node_worker_iff)
    then show ?thesis using svc by (metis imageI)
  qed
  moreover have "{worker_group w | w n. n \<in> set nodes \<and> node_worker n = Some w} = {worker_group w | w. Worker w \<in> set ss}"
    unfolding node_worker_iff svc[symmetric] by force
  ultimately have "shards_ok ss ws" using sh(4,5) by (auto simp: shards_ok_def)
  then show ?thesis using nodes(1) sh(1) try_map_all_Some[OF sh(3)] by blast
qed

lemma other_client_idx:
  "Client c \<in> procs \<Longrightarrow> Client c' \<in> procs \<Longrightarrow> Client c' \<noteq> Client c \<Longrightarrow> client_idx c' \<noteq> client_idx c"
  using clients(2) no_client_service by (auto dest: inj_onD)

lemma client_step_unaffected:
  assumes "Client c \<in> procs" "s \<in> procs" "s \<noteq> Client c"
    and "su_experiment su' = su_experiment su" "su_leaders su' = su_leaders su"
    and "\<And>w. mw_services (su_workers su' w) = mw_services (su_workers su w)"
    and "\<And>i. i \<noteq> client_idx c \<Longrightarrow> su_shards su' i = su_shards su i"
    and "\<And>i w. i \<noteq> client_idx c \<Longrightarrow> map_of (cr_peers (ws_client_registry (mw_state (su_workers su' w)))) i
      = map_of (cr_peers (ws_client_registry (mw_state (su_workers su w)))) i"
  shows "unaffected su su' s"
proof (cases s)
  case (Client c')
  then have "client_idx c' \<noteq> client_idx c" using other_client_idx[OF assms(1), of c'] assms(2,3) by simp
  then show ?thesis using Client assms(7,8) by (simp add: unaffected_def)
qed (simp_all add: unaffected_def assms(4-6))

lemma phase_ok_joining:
  "all_registered ss m \<Longrightarrow> joined su (client_idx c) (ws @ rest) ws \<Longrightarrow> phase_ok ss e m su (Client c) (Joining t rest)"
  by (simp add: phase_ok_def) blast

lemma client_found_ok:
  assumes "inv su" "s \<in> procs" "su_phase su s = Found t" "s = Client c"
  shows "stepped su s (\<lambda>p. \<exists>ws. p = Joining t ws) (client_found P inp s c t su)"
proof -
  let ?m = "entries (su_store su)" and ?i = "client_idx c"
  have only: "nodes_only (set ss) ?m" using invD(2)[OF assms(1)] by (simp add: store_ok_def)
  have all: "all_registered ss ?m" and none: "su_shards su ?i = None"
    using invD(3)[OF assms(1,2)] assms(3,4) by (simp_all add: phase_ok_def)
  obtain nodes :: "('fr, 'sp) node list" and shards r' ws where sh: "resolve_all S (su_store su) = Some (Inr nodes)"
      "pick_worker_shards (sp_order P) (sp_pick P) nodes (si_random inp) = Some (shards, r')"
      "try_map node_worker shards = Some ws" "shards_ok ss ws"
    using picked_shards[OF invD(1)[OF assms(1)] only all] by blast
  define su' where "su' = set_phase s (Joining t ws) (su\<lparr> su_shards := (su_shards su)(?i \<mapsto> ws) \<rparr>)"
  have "startup_inv P W T e json ss clients ws0 ?m su'"
  proof (rule startup_inv_update[where s = s and p = "Joining t ws" and su = su])
    show "startup_inv P W T e json ss clients ws0 ?m su" using assms(1) by (simp add: inv_def)
    show "phase_ok ss e ?m su' s (Joining t ws)"
      using phase_ok_joining[OF all, of su' c "[]" ws] assms(4) by (simp add: joined_def su'_def)
    show "store_ok P json ss ?m" by (rule invD(2)[OF assms(1)])
    show "unaffected su su' s'" if "s' \<in> procs" "s' \<noteq> s" for s'
      by (rule client_step_unaffected[of c]) (use that assms(2,4) in \<open>simp_all add: su'_def\<close>)
    show "worker_ok W ws0 su' w" for w
      by (rule worker_ok_cong[OF invD(4)[OF assms(1)]]) (use assms(4) none in \<open>auto simp: su'_def\<close>)
    show "i \<in> client_idx ` clients \<and> shards_ok ss shards'" if "su_shards su' i = Some shards'" for i shards'
      using that invD(5)[OF assms(1), of i shards'] sh(4) assms(2,4) no_client_service
      by (auto simp: su'_def split: if_splits)
  qed (use invD(6)[OF assms(1)] in \<open>simp_all add: su'_def\<close>)
  then have "inv su'" using assms(1) by (simp add: inv_def su'_def)
  then show ?thesis using sh(1-3) unfolding stepped_def by (auto simp: client_found_def store su'_def)
qed

text \<open>Registering once more.\<close>

lemma worker_ok_register:
  assumes "worker_ok W ws0 su w" "su_shards su i = Some shards" "w \<in> set shards" "mw_start_rx (su_workers su w) = None"
    and "su' = set_phase (Client c) p (su\<lparr> su_workers := (su_workers su)(w := (su_workers su w)
          \<lparr> mw_state := worker_register_client i shards (mw_state (su_workers su w)) \<rparr>) \<rparr>)"
  shows "worker_ok W ws0 su' w"
proof -
  let ?reg = "ws_client_registry (mw_state (su_workers su w))"
  have w: "mw_state (su_workers su w) = ws0\<lparr> ws_client_registry := ?reg \<rparr>" "distinct (map fst (cr_peers ?reg))"
    "\<And>j sh. map_of (cr_peers ?reg) j = Some sh \<Longrightarrow> su_shards su j = Some sh \<and> w \<in> set sh"
    "su_phase su (Worker w) \<noteq> Running" "su_sent su w = []"
    using worker_okD[OF assms(1)] assms(4) by auto
  have reg': "ws_client_registry (mw_state (su_workers su' w)) = registry_register_client i shards ?reg"
    by (simp add: assms(5) worker_register_client_def)
  have state: "mw_state (su_workers su' w) = ws0\<lparr> ws_client_registry := registry_register_client i shards ?reg \<rparr>"
  proof -
    have "mw_state (su_workers su' w) = (mw_state (su_workers su w))\<lparr> ws_client_registry := registry_register_client i shards ?reg \<rparr>"
      by (simp add: assms(5) worker_register_client_def)
    also have "\<dots> = ws0\<lparr> ws_client_registry := registry_register_client i shards ?reg \<rparr>" by (subst (1) w(1)) simp
    finally show ?thesis .
  qed
  have lookup: "map_of (cr_peers (registry_register_client i shards ?reg)) = (map_of (cr_peers ?reg))(i \<mapsto> shards)"
    by (simp add: registry_register_client_def map_of_update_fun)
  have "distinct (map fst (cr_peers (registry_register_client i shards ?reg)))"
    using w(2) by (simp add: registry_register_client_def AList.distinct_update)
  moreover have "su_shards su' j = Some sh \<and> w \<in> set sh" if "((map_of (cr_peers ?reg))(i \<mapsto> shards)) j = Some sh" for j sh
    using that w(3)[of j sh] assms(2,3,5) by (auto split: if_splits)
  moreover have "mw_start_rx (su_workers su' w) = None" "su_phase su' (Worker w) \<noteq> Running" "su_sent su' w = []"
    using assms(4,5) w(4,5) by simp_all
  ultimately show ?thesis unfolding worker_ok_def Let_def reg' lookup using state by auto
qed

lemma joined_register:
  assumes "joined su i shards ws" "su_shards su' = su_shards su"
    and "su_workers su' = (su_workers su)(w := (su_workers su w)\<lparr> mw_state := worker_register_client i shards (mw_state (su_workers su w)) \<rparr>)"
  shows "joined su' i shards (ws @ [w])"
  using assms by (auto simp: joined_def worker_register_client_def registry_register_client_def map_of_update_fun)

lemma client_connect_good: "good_input inp \<Longrightarrow> \<exists>c. client_connect (si_attempt inp addr) = Inr c"
  by (auto simp: good_input_def client_connect_def connect_loop.simps[of _ 0] split: sum.splits) (metis sum.distinct(1))

lemma client_join_ok:
  assumes "inv su" "s \<in> procs" "su_phase su s = Joining t ws" "s = Client c"
  shows "stepped su s (\<lambda>p. good_input inp \<longrightarrow> (\<forall>w. Worker w \<in> set ss \<longrightarrow> su_phase su (Worker w) \<noteq> Running) \<longrightarrow>
      p = (if ws = [] then Delaying t else Joining t (tl ws))) (client_join P inp s c t ws su)" (is "stepped su s ?Q _")
proof -
  let ?m = "entries (su_store su)" and ?i = "client_idx c"
  obtain before where ph: "all_registered ss ?m" "joined su ?i (before @ ws) before"
    using invD(3)[OF assms(1,2)] assms(3,4) by (auto simp: phase_ok_def)
  show ?thesis
  proof (cases ws)
    case Nil
    then have "phase_ok ss e ?m su s (Delaying t)" using ph assms(4) by (auto simp: phase_ok_def ready_def)
    then show ?thesis
      using Nil stepped_phase[OF assms(1), of s "Delaying t" ?Q] assms(3) by (simp add: client_join_def)
  next
    case (Cons w rest)
    let ?shards = "before @ ws"
    have shards: "su_shards su ?i = Some ?shards" "w \<in> set ?shards" using ph(2) Cons by (auto simp: joined_def)
    have "Worker w \<in> set ss" using invD(5)[OF assms(1) shards(1)] shards(2) by (auto simp: shards_ok_def)
    then have uri: "sp_uri_ok P (''http://'' @ sp_addr P (Worker w))" using uris by simp
    have fail: "stepped su s ?Q (Some (set_phase s (Failed err) su))"
      if "good_input inp \<Longrightarrow> Worker w \<in> set ss \<and> su_phase su (Worker w) = Running" for err
      using that by (intro stepped_failed[OF assms(1)]) (use assms(3) in auto)
    show ?thesis
    proof (cases "client_connect (si_attempt inp (sp_addr P (Worker w)))")
      case (Inl err)
      then have "\<not> good_input inp" using client_connect_good[of inp "sp_addr P (Worker w)"] by auto
      then show ?thesis using Inl Cons fail[of err] uri by (simp add: client_join_def)
    next
      case (Inr conn)
      show ?thesis
      proof (cases "mw_start_rx (su_workers su w)")
        case (Some t1)
        have "shards_ok ss ?shards" using invD(5)[OF assms(1) shards(1)] by blast
        then have "Worker w \<in> set ss" using shards(2) by (auto simp: shards_ok_def)
        moreover have "su_phase su (Worker w) = Running" using Some invD(4)[OF assms(1), of w] by (simp add: worker_ok_def Let_def)
        ultimately show ?thesis
          using Cons Inr Some shards(1) uri fail[of "''Registration refused.''"] by (simp add: client_join_def register_after_start)
      next
        case None
        define mw where "mw = (su_workers su w)\<lparr> mw_state := worker_register_client ?i ?shards (mw_state (su_workers su w)) \<rparr>"
        define su' where "su' = set_phase s (Joining t rest) (su\<lparr> su_workers := (su_workers su)(w := mw) \<rparr>)"
        have "startup_inv P W T e json ss clients ws0 ?m su'"
        proof (rule startup_inv_update[where s = s and p = "Joining t rest" and su = su])
          show "startup_inv P W T e json ss clients ws0 ?m su" using assms(1) by (simp add: inv_def)
          have "joined su' ?i ((before @ [w]) @ rest) (before @ [w])"
            using joined_register[OF ph(2), of su' w] Cons by (simp add: su'_def mw_def)
          then show "phase_ok ss e ?m su' s (Joining t rest)" unfolding assms(4) by (rule phase_ok_joining[OF ph(1)])
          show "store_ok P json ss ?m" by (rule invD(2)[OF assms(1)])
          show "unaffected su su' s'" if "s' \<in> procs" "s' \<noteq> s" for s'
            by (rule client_step_unaffected[of c])
              (use that assms(2,4) in \<open>simp_all add: su'_def mw_def worker_register_client_def registry_register_client_def map_of_update_fun\<close>)
          show "worker_ok W ws0 su' w'" for w'
          proof (cases "w' = w")
            case True
            then show ?thesis
              using worker_ok_register[OF invD(4)[OF assms(1)] shards None, of su' c "Joining t rest"] assms(4)
              by (simp add: su'_def mw_def)
          qed (rule worker_ok_cong[OF invD(4)[OF assms(1)]], use assms(4) in \<open>simp_all add: su'_def\<close>)
        qed (use invD(5,6)[OF assms(1)] in \<open>simp_all add: su'_def\<close>)
        then have "inv su'" using assms(1) by (simp add: inv_def su'_def)
        then show ?thesis
          using Cons Inr shards(1) uri register_before_start[OF None, of c ?shards] unfolding stepped_def
          by (auto simp: client_join_def su'_def mw_def)
      qed
    qed
  qed
qed

subsection \<open>The start of a process\<close>

lemma start_process_ok:
  assumes "inv su" "s \<in> procs" "su_phase su s = Delaying t"
  shows "stepped su s (\<lambda>p. t \<le> su_now su \<longrightarrow> p = Running) (start_process W s t su)" (is "stepped su s ?Q _")
proof -
  let ?m = "entries (su_store su)"
  have ph: "all_registered ss ?m" "ready ss su s" "\<And>i. s = Publisher i \<Longrightarrow> ?m start_key \<noteq> None" "\<And>l. s \<noteq> Leader l"
    using invD(3)[OF assms(1,2)] assms(3) by (auto simp: phase_ok_def)
  show ?thesis
  proof (cases "su_now su < t")
    case True
    have "su_phase su = (su_phase su)(s := Delaying t)" using assms(3) by auto
    then show ?thesis using True assms(1) unfolding stepped_def by (auto simp: start_process_def)
  next
    case False
    show ?thesis
    proof (cases s)
      case (Worker w)
      then obtain m where m: "mw_services (su_workers su w) = Some m" "services_known ss w m" using ph(2) by (auto simp: ready_def)
      let ?mw = "su_workers su w" let ?reg = "ws_client_registry (mw_state ?mw)"
      have w: "mw_state ?mw = ws0\<lparr> ws_client_registry := ?reg \<rparr>" "distinct (map fst (cr_peers ?reg))"
        "\<And>j sh. map_of (cr_peers ?reg) j = Some sh \<Longrightarrow> su_shards su j = Some sh \<and> w \<in> set sh"
        using worker_okD[OF invD(4)[OF assms(1), of w]] by blast+
      have sel: "worker_hammer (mw_state ?mw) = worker_hammer ws0" "worker_hammer ws0 = ex_hammer e"
        "ws_accumulator (mw_state ?mw) = ws_accumulator ws0"
        by (simp add: worker_hammer_def, subst w(1), simp)
          (use fresh in \<open>auto simp: worker_hammer_def worker_from_experiment_def bind_eq_Some_conv\<close>, subst w(1), simp)
      define idle where "idle \<longleftrightarrow> \<not> worker_hammer ws0 \<and> cr_peers ?reg = []"
      define mw where "mw = ?mw\<lparr> mw_services := Some m, mw_start_rx := Some (su_now su) \<rparr>"
      obtain l where l: "idle \<Longrightarrow> sm_leader m = Some l"
      proof (cases "ex_hammer e")
        case True
        then show ?thesis using that sel(2) by (simp add: idle_def)
      next
        case False
        have "Worker w \<in> set ss" using assms(2) Worker by auto
        then have "Leader \<lparr> leader_group = worker_group w \<rparr> \<in> set ss" using False by (auto simp: services_set)
        then show ?thesis using that m(2) by (auto simp: services_known_def)
      qed
      define msgs where "msgs = (if idle then [(l, \<lparr> ag_share = Some (share_of_accumulator (wire_acc_into W)
        (accumulator_get (ws_accumulator ws0))) \<rparr>)] else [])"
      have run: "worker_begin W (su_now su) m ?mw = Some (msgs, mw)"
        using sel l by (auto simp: worker_begin_def Let_def msgs_def mw_def idle_def registry_num_clients_def service_get_my_leader_def)
      define su' where "su' = set_phase s Running (su\<lparr> su_workers := (su_workers su)(w := mw), su_sent := (su_sent su)(w := msgs) \<rparr>)"
      have "startup_inv P W T e json ss clients ws0 ?m su'"
      proof (rule startup_inv_update[where s = s and p = Running and su = su])
        show "startup_inv P W T e json ss clients ws0 ?m su" using assms(1) by (simp add: inv_def)
        show "phase_ok ss e ?m su' s Running" using ph(1) Worker m(2) by (simp add: phase_ok_def ready_def su'_def mw_def)
        show "store_ok P json ss ?m" by (rule invD(2)[OF assms(1)])
        show "unaffected su su' s'" if "s' \<in> procs" "s' \<noteq> s" for s'
          using that Worker by (cases s') (auto simp: unaffected_def su'_def mw_def)
        show "worker_ok W ws0 su' w'" for w'
        proof (cases "w' = w")
          case True
          have "mw_state (su_workers su' w) = mw_state ?mw" "mw_start_rx (su_workers su' w) = Some (su_now su)"
            "su_phase su' (Worker w) = Running" "su_sent su' w = msgs" "su_shards su' = su_shards su"
            using Worker by (simp_all add: su'_def mw_def)
          then show ?thesis unfolding True worker_ok_def Let_def using w by (simp add: msgs_def idle_def)
        qed (rule worker_ok_cong[OF invD(4)[OF assms(1)]], use Worker in \<open>simp_all add: su'_def\<close>)
      qed (use invD(5,6)[OF assms(1)] in \<open>simp_all add: su'_def\<close>)
      then have "inv su'" using assms(1) by (simp add: inv_def su'_def)
      then show ?thesis
        using False m(1) run Worker unfolding stepped_def by (auto simp: start_process_def su'_def)
    qed (use False ph stepped_phase[OF assms(1), of s Running ?Q] assms(3) in \<open>auto simp: start_process_def phase_ok_def\<close>)
  qed
qed

subsection \<open>Every step\<close>

lemma stepped_weaken: "stepped su s Q r \<Longrightarrow> (\<And>p. Q p \<Longrightarrow> Q' p) \<Longrightarrow> stepped su s Q' r"
  unfolding stepped_def by blast

lemma stepped_same: "inv su \<Longrightarrow> Q (su_phase su s) \<Longrightarrow> stepped su s Q (Some su)"
  unfolding stepped_def by (metis fun_upd_triv)

text \<open>What a step of a process does when nothing outside fails.\<close>

definition next_ok where
  "next_ok su s p \<longleftrightarrow> (case su_phase su s of
      Booting \<Rightarrow> p = Loading \<or> p = Polling RETRY_ATTEMPTS
    | Loading \<Rightarrow> p = Polling RETRY_ATTEMPTS
    | Polling _ \<Rightarrow> (if s = Publisher PublisherInfo then all_registered ss (entries (su_store su))
        else entries (su_store su) start_key \<noteq> None) \<longrightarrow> (\<exists>t. p = Found t)
    | Found t \<Rightarrow> p = Running \<and> (\<exists>l. s = Leader l) \<or> (\<exists>t. p = Delaying t) \<or> (\<exists>c ws. s = Client c \<and> p = Joining t ws)
    | Joining t ws \<Rightarrow> (\<forall>w. Worker w \<in> set ss \<longrightarrow> su_phase su (Worker w) \<noteq> Running) \<longrightarrow>
        p = (if ws = [] then Delaying t else Joining t (tl ws))
    | Delaying t \<Rightarrow> t \<le> su_now su \<longrightarrow> p = Running
    | Running \<Rightarrow> p = Running
    | Failed err \<Rightarrow> True
    | Panicked \<Rightarrow> True)"

lemma booting_ok:
  assumes "inv su" "s \<in> procs" "su_phase su s = Booting"
  shows "stepped su s (\<lambda>p. good_input inp \<longrightarrow> next_ok su s p) (process_step P W inp s su)"
proof (cases s)
  case (Client c)
  have "phase_ok ss e (entries (su_store su)) su s (Polling RETRY_ATTEMPTS)"
    using invD(3)[OF assms(1,2)] assms(3) Client no_client_service by (simp add: phase_ok_def)
  then show ?thesis
    using Client assms(3) by (auto simp: process_step_def next_ok_def intro!: stepped_phase[OF assms(1)])
qed (use assms no_client_service in \<open>auto simp: process_step_def next_ok_def intro!: stepped_weaken[OF boot_service_ok[OF assms(1)]]\<close>)

lemma polling_ok:
  assumes "inv su" "s \<in> procs" "su_phase su s = Polling left"
  shows "stepped su s (\<lambda>p. good_input inp \<longrightarrow> next_ok su s p) (process_step P W inp s su)"
proof (cases s)
  case (Publisher i)
  show ?thesis
    using stepped_weaken[OF poll_quorum_ok[OF assms Publisher], of "\<lambda>p. good_input inp \<longrightarrow> next_ok su s p"] assms(3) Publisher
      publisher_unique[of i] by (simp add: process_step_def next_ok_def)
qed (use stepped_weaken[OF poll_start_time_ok[OF assms], of "\<lambda>p. good_input inp \<longrightarrow> next_ok su s p"] assms(3)
    in \<open>simp_all add: process_step_def next_ok_def\<close>)

lemma found_ok:
  assumes "inv su" "s \<in> procs" "su_phase su s = Found t"
  shows "stepped su s (\<lambda>p. good_input inp \<longrightarrow> next_ok su s p) (process_step P W inp s su)"
proof (cases s)
  case (Publisher i)
  show ?thesis
    using stepped_weaken[OF publisher_found_ok[OF assms Publisher], of "\<lambda>p. good_input inp \<longrightarrow> next_ok su s p"] assms(3) Publisher
    by (simp add: process_step_def next_ok_def)
next
  case (Leader l)
  show ?thesis
    using stepped_weaken[OF leader_found_ok[OF assms Leader, of inp], of "\<lambda>p. good_input inp \<longrightarrow> next_ok su s p"] assms(3) Leader
    by (simp add: process_step_def next_ok_def)
next
  case (Worker w)
  show ?thesis
    using stepped_weaken[OF worker_found_ok[OF assms Worker, of inp], of "\<lambda>p. good_input inp \<longrightarrow> next_ok su s p"] assms(3) Worker
    by (simp add: process_step_def next_ok_def)
next
  case (Client c)
  show ?thesis
    using stepped_weaken[OF client_found_ok[OF assms Client, of inp], of "\<lambda>p. good_input inp \<longrightarrow> next_ok su s p"] assms(3) Client
    by (auto simp: process_step_def next_ok_def)
qed

lemma process_ok:
  assumes "inv su" "s \<in> procs"
  shows "stepped su s (\<lambda>p. good_input inp \<longrightarrow> next_ok su s p) (process_step P W inp s su)" (is "stepped su s ?Q _")
proof (cases "su_phase su s")
  case Loading
  have "s \<in> set ss" using invD(3)[OF assms] Loading assms(2) by (auto simp: phase_ok_def)
  then show ?thesis
    using stepped_weaken[OF load_experiment_ok[OF assms(1) _ Loading], of ?Q] Loading by (simp add: process_step_def next_ok_def)
next
  case (Joining t ws)
  then obtain c where c: "s = Client c" using invD(3)[OF assms] by (auto simp: phase_ok_def)
  show ?thesis
    using stepped_weaken[OF client_join_ok[OF assms Joining c, of inp], of ?Q] Joining c by (simp add: process_step_def next_ok_def)
next
  case (Delaying t)
  show ?thesis
    using stepped_weaken[OF start_process_ok[OF assms Delaying], of ?Q] Delaying by (simp add: process_step_def next_ok_def)
qed (use booting_ok[OF assms] polling_ok[OF assms] found_ok[OF assms] stepped_same[OF assms(1)] in
    \<open>simp_all add: process_step_def next_ok_def\<close>)

text \<open>Which steps panic.\<close>

lemma panics_iff:
  assumes "inv su" "s \<in> procs"
  shows "process_step P W inp s su = None \<longleftrightarrow> gives_up (entries (su_store su)) s (su_phase su s)"
proof
  assume up: "gives_up (entries (su_store su)) s (su_phase su s)"
  then obtain left where left: "su_phase su s = Polling left" "left \<le> 1" by (auto simp: gives_up_def split: phase.splits)
  have "get_start_time S (sp_parse P) (su_store su) = Some (Inl (error_new ''Empty start time.''))"
    using get_eq[OF invD(1)[OF assms(1)] keys_ok(2)] up by (simp add: get_start_time_def start_key_def gives_up_def)
  then show "process_step P W inp s su = None"
    using up left by (cases s) (simp_all add: process_step_def poll_start_time_def poll_failed_def error_policy_def store gives_up_def)
qed (use process_ok[OF assms, of inp] in \<open>auto simp: stepped_def\<close>)

lemma inv_tick: "inv su \<Longrightarrow> inv (su\<lparr> su_now := t \<rparr>)"
proof -
  assume i: "inv su"
  let ?m = "entries (su_store su)"
  have "phase_ok ss e ?m (su\<lparr> su_now := t \<rparr>) s (su_phase su s)" if "s \<in> procs" for s
    by (rule phase_ok_unaffected[OF invD(3)[OF i that]]) (auto simp: unaffected_def split: service.splits)
  moreover have "worker_ok W ws0 (su\<lparr> su_now := t \<rparr>) w" for w by (rule worker_ok_cong[OF invD(4)[OF i]]) simp_all
  ultimately have "startup_inv P W T e json ss clients ws0 ?m (su\<lparr> su_now := t \<rparr>)"
    unfolding startup_inv_def using invD(2,5,6)[OF i] by (auto intro!: allI)
  then show ?thesis using i by (simp add: inv_def)
qed

abbreviation steps where
  "steps \<equiv> (startup_step P W procs)\<^sup>*\<^sup>*"

lemma step_inv:
  assumes "startup_step P W procs su su'" "inv su"
  shows "inv su'"
  using assms(1)
proof (rule startup_stepE)
  fix s inp
  assume "s \<in> procs" "process_step P W inp s su = Some su'"
  then show ?thesis using process_ok[OF assms(2), of s inp] unfolding stepped_def by auto
next
  fix s inp
  assume s: "s \<in> procs" "process_step P W inp s su = None" and su': "su' = set_phase s Panicked su"
  have "su_phase su s \<noteq> Running" using process_ok[OF assms(2) s(1), of inp] s(2) unfolding stepped_def gives_up_def by auto
  then have "stepped su s (\<lambda>p. True) (Some (set_phase s Panicked su))" by (intro stepped_phase[OF assms(2)]) (simp_all add: phase_ok_def)
  then show ?thesis using su' unfolding stepped_def by auto
qed (use inv_tick[OF assms(2)] in simp)

lemma steps_inv: "steps su su' \<Longrightarrow> inv su \<Longrightarrow> inv su'"
  by (induction rule: rtranclp_induct) (auto intro: step_inv)

lemma init_inv:
  assumes st: "store_wf st" "entries st = [[''experiment'', ''config''] \<mapsto> json]"
  shows "\<exists>su. startup_init T e now st = Some su \<and> inv su \<and> (\<forall>s. su_phase su s = Booting)"
proof -
  have mw: "my_worker_new None None T e = Some \<lparr> mw_start_rx = None, mw_start_time = None, mw_services = None, mw_state = ws0 \<rparr>"
    by (simp add: my_worker_new_def fresh)
  have reg: "ws0 = ws0\<lparr> ws_client_registry := client_registry_new \<rparr>" "ws_client_registry ws0 = client_registry_new"
    using fresh by (auto simp: worker_from_experiment_def bind_eq_Some_conv)
  let ?su = "\<lparr> su_store = st, su_now = now, su_phase = (\<lambda>_. Booting), su_experiment = None,
    su_workers = (\<lambda>_. \<lparr> mw_start_rx = None, mw_start_time = None, mw_services = None, mw_state = ws0 \<rparr>),
    su_leaders = (\<lambda>_. leader_from_protocol T (ex_group_size e) None), su_shards = (\<lambda>_. None), su_sent = (\<lambda>_. []) \<rparr>"
  have "addressed P (entries st)" using service_key_other by (auto simp: addressed_def st(2) split: if_splits)
  then have "store_ok P json ss (entries st)" by (simp add: st(2) store_ok_def nodes_only_def start_key_def)
  moreover have "worker_ok W ws0 ?su w" for w
    using reg by (simp add: worker_ok_def Let_def client_registry_new_def)
  ultimately have "inv ?su" unfolding inv_def startup_inv_def using st(1) by (simp add: phase_ok_def) blast
  then show ?thesis by (simp add: startup_init_def mw)
qed

end

subsection \<open>The start completes\<close>

text \<open>No process has failed or panicked, and no worker has started before all clients have registered.\<close>

definition has_joined :: "phase \<Rightarrow> bool" where
  "has_joined p \<longleftrightarrow> p = Running \<or> (\<exists>t. p = Delaying t)"

definition on_time where
  "on_time ss clients su \<longleftrightarrow> (\<forall>s \<in> procs_of ss clients. \<forall>err. su_phase su s \<noteq> Failed err \<and> su_phase su s \<noteq> Panicked)
     \<and> ((\<exists>w. Worker w \<in> set ss \<and> su_phase su (Worker w) = Running) \<longrightarrow> (\<forall>c \<in> clients. has_joined (su_phase su (Client c))))"

text \<open>The work a process has before it runs, where a client has at most \<open>k\<close> shards.\<close>

fun phase_work :: "nat \<Rightarrow> phase \<Rightarrow> nat" where
  "phase_work k Booting = 6 + k"
| "phase_work k Loading = 5 + k"
| "phase_work k (Polling left) = 4 + k"
| "phase_work k (Found t) = 3 + k"
| "phase_work k (Joining t ws) = 2 + length ws"
| "phase_work k (Delaying t) = 1"
| "phase_work k Running = 0"
| "phase_work k (Failed err) = 0"
| "phase_work k Panicked = 0"

context startup_system
begin

definition work :: "('st, 's, 't, 'm, 'r, 'fr, 'sp) startup \<Rightarrow> nat" where
  "work su = (\<Sum>s\<in>procs. phase_work (length ss) (su_phase su s))"

text \<open>A process that can go on.\<close>

definition enabled where
  "enabled su s \<longleftrightarrow> (case su_phase su s of
      Polling _ \<Rightarrow> (if s = Publisher PublisherInfo then all_registered ss (entries (su_store su))
        else entries (su_store su) start_key \<noteq> None)
    | Delaying t \<Rightarrow> t \<le> su_now su \<and> (\<forall>c \<in> clients. has_joined (su_phase su (Client c)))
    | Running \<Rightarrow> False
    | Failed err \<Rightarrow> False
    | Panicked \<Rightarrow> False
    | _ \<Rightarrow> True)"

lemma enabled_stays: "enabled su s \<Longrightarrow> \<not> gives_up (entries (su_store su)) s (su_phase su s)"
  by (auto simp: enabled_def gives_up_def split: phase.splits service.splits if_splits)

lemma shards_length: "shards_ok ss ws \<Longrightarrow> length ws \<le> length ss"
proof -
  assume ok: "shards_ok ss ws"
  then have "distinct ws" by (simp add: shards_ok_def distinct_map)
  then have "length ws = card (Worker ` set ws :: ('fr, 'sp) service set)" by (simp add: distinct_card card_image inj_on_def)
  also have "\<dots> \<le> card (set ss)" using ok by (intro card_mono) (auto simp: shards_ok_def)
  also have "\<dots> \<le> length ss" by (rule card_length)
  finally show ?thesis .
qed

lemma joining_length:
  assumes "inv su" "s \<in> procs" "su_phase su s = Joining t ws"
  shows "length ws \<le> length ss"
proof -
  obtain i before where "joined su i (before @ ws) before"
    using invD(3)[OF assms(1,2)] assms(3) by (auto simp: phase_ok_def)
  then have "shards_ok ss (before @ ws)" using invD(5)[OF assms(1)] by (auto simp: joined_def)
  from shards_length[OF this] show ?thesis by simp
qed

lemma enabled_next:
  assumes "inv su" "on_time ss clients su" "s \<in> procs" "enabled su s" "next_ok su s p"
    and "\<And>t ws. p = Joining t ws \<Longrightarrow> length ws \<le> length ss"
  shows "phase_work (length ss) p < phase_work (length ss) (su_phase su s) \<and> (\<forall>err. p \<noteq> Failed err \<and> p \<noteq> Panicked)
    \<and> (p = Running \<longrightarrow> (\<exists>l. s = Leader l) \<or> (\<forall>c \<in> clients. has_joined (su_phase su (Client c))))"
proof (cases "su_phase su s")
  case (Found t)
  then consider (leader) l where "p = Running" "s = Leader l" | (delay) t where "p = Delaying t" | (join) ws where "p = Joining t ws"
    using assms(5) by (auto simp: next_ok_def)
  then show ?thesis
  proof cases
    case join
    then show ?thesis using Found assms(6) by fastforce
  qed (use Found in auto)
next
  case (Joining t ws)
  then obtain c where c: "s = Client c" "c \<in> clients"
    using invD(3)[OF assms(1,3)] assms(3) no_client_service by (auto simp: phase_ok_def)
  then have "\<not> has_joined (su_phase su (Client c))" using Joining by (simp add: has_joined_def)
  then have "\<forall>w. Worker w \<in> set ss \<longrightarrow> su_phase su (Worker w) \<noteq> Running" using assms(2) c(2) unfolding on_time_def by blast
  then have "p = (if ws = [] then Delaying t else Joining t (tl ws))" using assms(5) Joining by (simp add: next_ok_def)
  then show ?thesis using Joining by (cases ws) auto
qed (use assms(4,5) in \<open>auto simp: next_ok_def enabled_def\<close>)

lemma work_upd:
  assumes "s \<in> procs" "su_phase su' = (su_phase su)(s := p)" "phase_work (length ss) p < phase_work (length ss) (su_phase su s)"
  shows "work su' < work su"
  unfolding work_def
proof (rule sum_strict_mono_ex1)
  show "finite procs" using clients(1) by simp
  show "\<forall>x\<in>procs. phase_work (length ss) (su_phase su' x) \<le> phase_work (length ss) (su_phase su x)"
    using assms(2,3) by auto
  show "\<exists>x\<in>procs. phase_work (length ss) (su_phase su' x) < phase_work (length ss) (su_phase su x)"
    using assms(2,3) by (intro bexI[OF _ assms(1)]) simp
qed

lemma good_input_exists: "good_input \<lparr> si_health = \<lambda>_. Inr True, si_connect = Inr, si_attempt = \<lambda>a _. Inr a, si_random = r \<rparr>"
  by (simp add: good_input_def)

lemma enabled_step:
  assumes "inv su" "on_time ss clients su" "s \<in> procs" "enabled su s" and inp: "good_input inp"
  shows "\<exists>su'. process_step P W inp s su = Some su' \<and> inv su' \<and> on_time ss clients su' \<and> work su' < work su"
proof -
  obtain su' p where su': "process_step P W inp s su = Some su'" "inv su'" "su_phase su' = (su_phase su)(s := p)" "next_ok su s p"
    using process_ok[OF assms(1,3), of inp] inp enabled_stays[OF assms(4)] unfolding stepped_def by blast
  have len: "\<And>t ws. p = Joining t ws \<Longrightarrow> length ws \<le> length ss"
    using joining_length[OF su'(2) assms(3)] su'(3) by simp
  have nx: "phase_work (length ss) p < phase_work (length ss) (su_phase su s)" "\<And>err. p \<noteq> Failed err \<and> p \<noteq> Panicked"
    "p = Running \<Longrightarrow> (\<exists>l. s = Leader l) \<or> (\<forall>c \<in> clients. has_joined (su_phase su (Client c)))"
    using enabled_next[OF assms(1-4) su'(4)] len by blast+
  have "on_time ss clients su'"
  proof -
    have "\<forall>c \<in> clients. has_joined (su_phase su' (Client c))" if run: "Worker w \<in> set ss" "su_phase su' (Worker w) = Running" for w
    proof -
      have all: "\<forall>c \<in> clients. has_joined (su_phase su (Client c))"
      proof (cases "s = Worker w")
        case True
        then show ?thesis using nx(3) run(2) su'(3) by auto
      next
        case False
        then show ?thesis using run su'(3) assms(2) unfolding on_time_def by auto
      qed
      show ?thesis
      proof
        fix c
        assume c: "c \<in> clients"
        show "has_joined (su_phase su' (Client c))"
        proof (cases "s = Client c")
          case True
          then have "has_joined (su_phase su s)" using all c by blast
          then have "p = Running" using assms(4) su'(4) by (auto simp: has_joined_def enabled_def next_ok_def)
          then show ?thesis using True su'(3) by (simp add: has_joined_def)
        qed (use all c su'(3) in auto)
      qed
    qed
    moreover have "su_phase su' s' \<noteq> Failed err \<and> su_phase su' s' \<noteq> Panicked" if "s' \<in> procs" for s' err
      using that nx(2) su'(3) assms(2) unfolding on_time_def by (cases "s' = s") auto
    ultimately show ?thesis unfolding on_time_def by blast
  qed
  then show ?thesis using su'(1,2) work_upd[OF assms(3) su'(3) nx(1)] by blast
qed

text \<open>Some process can go on, if time passes.\<close>

lemma some_enabled:
  assumes "inv su" "on_time ss clients su" "s0 \<in> procs" "su_phase su s0 \<noteq> Running"
  shows "\<exists>s \<in> procs. \<exists>d \<ge> 0. enabled (su\<lparr> su_now := su_now su + d \<rparr>) s"
proof (rule ccontr)
  let ?m = "entries (su_store su)"
  assume none: "\<not> ?thesis"
  have stuck: "\<not> enabled (su\<lparr> su_now := su_now su + d \<rparr>) s" if "s \<in> procs" "0 \<le> d" for s d
    using none that by blast
  have early: "su_phase su s \<noteq> Booting" "su_phase su s \<noteq> Loading" "su_phase su s \<noteq> Found t" "su_phase su s \<noteq> Joining t ws"
    if "s \<in> procs" for s t ws
    using stuck[OF that, of 0] by (auto simp: enabled_def)
  have nofail: "su_phase su s \<noteq> Failed err \<and> su_phase su s \<noteq> Panicked" if "s \<in> procs" for s err using assms(2) that unfolding on_time_def by blast
  have phases: "(\<exists>left. su_phase su s = Polling left) \<or> (\<exists>t. su_phase su s = Delaying t) \<or> su_phase su s = Running" if "s \<in> procs" for s
    using early[OF that] nofail[OF that] by (cases "su_phase su s") auto
  have "registered ?m s" if s: "s \<in> set ss" for s
  proof -
    have "s \<in> procs" using s by simp
    from invD(3)[OF assms(1) this] phases[OF this] s show ?thesis by (auto simp: phase_ok_def all_registered_def)
  qed
  then have all: "all_registered ss ?m" by (simp add: all_registered_def)
  let ?p = "Publisher PublisherInfo :: ('fr, 'sp) service"
  have p: "?p \<in> procs" using services_set by auto
  have "su_phase su ?p \<noteq> Polling left" for left using stuck[OF p, of 0] all by (auto simp: enabled_def)
  then have "?m start_key \<noteq> None" using phases[OF p] invD(3)[OF assms(1) p] by (auto simp: phase_ok_def)
  then have "su_phase su s \<noteq> Polling left" if "s \<in> procs" for s left
    using stuck[OF that, of 0] all by (auto simp: enabled_def split: if_splits)
  then have late: "(\<exists>t. su_phase su s = Delaying t) \<or> su_phase su s = Running" if "s \<in> procs" for s using phases[OF that] that by blast
  then have "\<forall>c \<in> clients. has_joined (su_phase su (Client c))" by (auto simp: has_joined_def)
  moreover obtain t where "su_phase su s0 = Delaying t" using late[OF assms(3)] assms(4) by blast
  ultimately have "enabled (su\<lparr> su_now := su_now su + max 0 (t - su_now su) \<rparr>) s0" by (simp add: enabled_def)
  then show False using stuck[OF assms(3), of "max 0 (t - su_now su)"] by simp
qed

text \<open>It completes by steps of any kind that contain those with one good input.\<close>

lemma completes_by:
  assumes "inv su" "on_time ss clients su" and inp: "good_input inp"
    and run: "\<And>s su su'. s \<in> procs \<Longrightarrow> process_step P W inp s su = Some su' \<Longrightarrow> R su su'"
    and tick: "\<And>su d. 0 \<le> d \<Longrightarrow> R su (su\<lparr> su_now := su_now su + d \<rparr>)"
  shows "\<exists>su'. R\<^sup>*\<^sup>* su su' \<and> (\<forall>s \<in> procs. su_phase su' s = Running)"
  using assms(1,2)
proof (induction "work su" arbitrary: su rule: less_induct)
  case less
  show ?case
  proof (cases "\<forall>s \<in> procs. su_phase su s = Running")
    case False
    then obtain s d where s: "s \<in> procs" "0 \<le> d" "enabled (su\<lparr> su_now := su_now su + d \<rparr>) s"
      using some_enabled[OF less.prems] by blast
    let ?su = "su\<lparr> su_now := su_now su + d \<rparr>"
    have "on_time ss clients ?su" using less.prems(2) by (simp add: on_time_def)
    then obtain su1 where su1: "process_step P W inp s ?su = Some su1" "inv su1" "on_time ss clients su1" "work su1 < work ?su"
      using enabled_step[OF inv_tick[OF less.prems(1)] _ s(1,3) inp] by blast
    have "work ?su = work su" by (simp add: work_def)
    then obtain su' where "R\<^sup>*\<^sup>* su1 su'" "\<forall>s \<in> procs. su_phase su' s = Running" using less.hyps[OF _ su1(2,3)] su1(4) by auto
    moreover have "R\<^sup>*\<^sup>* su su1" using tick[OF s(2), of su] run[OF s(1) su1(1)] by (meson r_into_rtranclp rtranclp_trans)
    ultimately show ?thesis by (meson rtranclp_trans)
  qed blast
qed

lemma completes:
  assumes "inv su" "on_time ss clients su"
  shows "\<exists>su'. steps su su' \<and> (\<forall>s \<in> procs. su_phase su' s = Running)"
  by (rule completes_by[OF assms good_input_exists]) (rule startup_step.intros, assumption+)+

end

end
