(* ===== verification/Instances.thy ===== *)
theory Instances
  imports Processes
begin

text \<open>
  Small concrete instances on which the properties of the workers and of the command line are exercised: a worker
  with the insecure protocol, and the arguments of an experiment.
\<close>

section \<open>A worker with the insecure protocol\<close>

text \<open>A worker with the insecure protocol of one channel and two servers: it holds the token of client 5 and
  the share of the other server.\<close>

definition tiny_protocol :: "(nat, bytes, bool, ((bytes \<times> nat) option, bool) write_token, bool audit_share) protocol_ops" where
  "tiny_protocol = wrapper_protocol (insecure_vdpf_ops [0] (insecure_new 1 2))"

definition tiny_token :: "((bytes \<times> nat) option, bool) write_token" where
  "tiny_token = write_token_new (Some ([7], 0)) False"

definition tiny_worker :: "(bool audit_share, ((bytes \<times> nat) option, bool) write_token, bytes, nat, nat, nat) worker_state" where
  "tiny_worker =
     snd (verify_add 5 (AuditShare True) (upload_init 5 tiny_token
       (worker_register_client 5 [] (the (worker_from_experiment tiny_protocol demo_experiment)))))"

lemma demo_groups: "experiment_groups demo_experiment = Some 2"
  by (rule demo_ok(3))

lemma tiny_protocol_sel [simp]:
  "proto_num_parties tiny_protocol = 2" "proto_num_channels tiny_protocol = 1"
  "proto_new_accumulator tiny_protocol = [[0]]"
  "proto_check_audit tiny_protocol = (\<lambda>ts. if length ts = 2 then Some (list_all share_token ts) else None)"
  "proto_to_accumulator tiny_protocol t = insecure_eval [0] (insecure_new 1 2) (wt_key t)"
  by (simp_all add: tiny_protocol_def insecure_vdpf_ops_def insecure_new_def wrapper_new_accumulator_def wrapper_check_audit_def
      wrapper_to_accumulator_def insecure_check_audit_def fun_eq_iff rust_assert_def list_all_iff list_all_length)

lemma tiny_worker_sel [simp]:
  "worker_entry tiny_worker 5 = (Some tiny_token, [AuditShare True])" "ws_accumulator tiny_worker = \<lparr> acc_state = [[0]], acc_count = 0 \<rparr>"
  "ws_experiment tiny_worker = demo_experiment" "ws_client_registry tiny_worker = \<lparr> cr_peers = [(5, [])] \<rparr>"
proof -
  let ?ws = "worker_register_client 5 [] (the (worker_from_experiment tiny_protocol demo_experiment))"
  have sel: "ws_accumulator ?ws = \<lparr> acc_state = [[0]], acc_count = 0 \<rparr>" "ws_experiment ?ws = demo_experiment"
    "ws_client_registry ?ws = \<lparr> cr_peers = [(5, [])] \<rparr>"
    by (simp_all add: worker_from_experiment_def demo_groups worker_register_client_def client_registry_new_def
        registry_register_client_def accumulator_new_def)
  have "worker_entry ?ws 5 = (None, [])"
    by (simp add: worker_entry_def worker_from_experiment_def demo_groups worker_register_client_def audit_registry_new_def
        audit_entry_def)
  then show "worker_entry tiny_worker 5 = (Some tiny_token, [AuditShare True])" by (simp add: tiny_worker_def)
  show "ws_accumulator tiny_worker = \<lparr> acc_state = [[0]], acc_count = 0 \<rparr>" "ws_experiment tiny_worker = demo_experiment"
    "ws_client_registry tiny_worker = \<lparr> cr_peers = [(5, [])] \<rparr>"
    by (simp_all add: tiny_worker_def sel)
qed

lemma tiny_last_share:
  "acc_combine (vec_acc bytes_acc) [[0]] [[7]] = Some [[7]]" "proto_to_accumulator tiny_protocol tiny_token = Some [[7]]"
proof -
  show "acc_combine (vec_acc bytes_acc) [[0]] [[7]] = Some [[7]]"
    using bytes_accumulator.vec_combine[of 1 1 "[[0]]" "[[7]]"] by (simp add: vec_valid_def bytes_xor.xor_def bytes_bitxor_eq)
  show "proto_to_accumulator tiny_protocol tiny_token = Some [[7]]"
    by (simp add: tiny_token_def write_token_new_def insecure_eval_def insecure_new_def)
qed

section \<open>Arguments\<close>

definition demo_args :: experiment_args where
  "demo_args = \<lparr> arg_clients = 3, arg_group_size = 1, arg_channels = 2, arg_groups = 2, arg_msg_size = 16, arg_security_bytes = None,
     arg_security_multi_key_bytes = None, arg_no_security = False, arg_public = False, arg_hammer = False \<rparr>"

end
