(* ===== verification/Composition.thy ===== *)
theory Composition
  imports Launch Instances
begin

text \<open>
  The start and the round, composed. When every process of a start runs, the processes are in a state in which a round of
  \<open>Rounds\<close> starts, with the shards that the clients have picked and the registrations in whatever order they were made
  (\<open>started_is_start\<close>). What is shown of rounds holds then of the execution that follows the start (\<open>started_round\<close>,
  \<open>two_key_started\<close>). The locale \<open>startup_system\<close> is interpreted on the definitions of the model with the in-memory store and
  a concrete experiment.
\<close>

section \<open>From the start to the round\<close>

text \<open>The system at the end of the start: the processes in the states the start has left them in, the clients' uploads, and
  the accumulators that workers without clients have sent. A group of no leader has no process; the system has a state for it
  all the same.\<close>

definition leader_connected :: "('m, 'pc) my_leader \<Rightarrow> ('m, unit) my_leader" where
  "leader_connected ml = \<lparr> ml_accumulator = ml_accumulator ml, ml_total_workers = ml_total_workers ml,
     ml_publisher = map_option (\<lambda>_. ()) (ml_publisher ml) \<rparr>"

definition started_system ::
    "('r, 'm, 'k, 't, 's, 'x) protocol_ops_scheme \<Rightarrow> ('fr, 'sp) service list \<Rightarrow> 't client_plan list
     \<Rightarrow> ('st, 's, 't, 'm, 'r, 'fr, 'sp) startup \<Rightarrow> ('s, 't, 'm, 'r, 'fr, 'sp) config_state" where
  "started_system T ss plan su =
     (\<lparr> sys_workers = (\<lambda>w. mw_state (su_workers su w)),
        sys_leaders = (\<lambda>g. if Leader \<lparr> leader_group = g \<rparr> \<in> set ss then leader_connected (su_leaders su g)
          else (leader_connected (su_leaders su g))\<lparr> ml_publisher := Some () \<rparr>),
        sys_publisher = publisher_from_protocol T, sys_result = None \<rparr>,
      mset (plan_uploads plan)
      + mset (map (\<lambda>w. ToLeader (worker_group w) (accumulator_get (ws_accumulator (mw_state (su_workers su w)))))
          (filter (\<lambda>w. su_sent su w \<noteq> []) (service_workers ss))))"

text \<open>A plan in which every client uses the shards it has picked.\<close>

definition plan_follows where
  "plan_follows clients plan su \<longleftrightarrow> distinct (map fst plan) \<and> fst ` set plan = client_idx ` clients
     \<and> (\<forall>(c, shards, tokens) \<in> set plan. su_shards su c = Some shards)"

context startup_system
begin

lemma plan_registers:
  assumes "inv su" "\<forall>s \<in> procs. su_phase su s = Running" "plan_follows clients plan su"
  shows "plan_registered plan (\<lambda>w. ws_client_registry (mw_state (su_workers su w)))"
proof -
  have follows: "su_shards su c = Some shards" if "(c, shards, tokens) \<in> set plan" for c shards tokens
    using that assms(3) unfolding plan_follows_def by blast
  have "map_of (cr_peers (ws_client_registry (mw_state (su_workers su w)))) i = map_of (rev (registrations plan w)) i" (is "?l = ?r") for w i
  proof -
    have "distinct (map fst (registrations plan w))"
    proof -
      have "map fst (registrations plan w) = map fst (filter (\<lambda>(c, shards, tokens). w \<in> set shards) plan)" by (auto simp: registrations_def)
      then show ?thesis using assms(3) by (simp add: plan_follows_def distinct_map_filter)
    qed
    then have r: "?r = Some sh \<longleftrightarrow> (i, sh) \<in> set (registrations plan w)" for sh
      using map_of_eq_Some_iff[of "rev (registrations plan w)" i sh] by (simp flip: rev_map)
    have reg: "(i, sh) \<in> set (registrations plan w) \<longleftrightarrow> (\<exists>tk. (i, sh, tk) \<in> set plan) \<and> w \<in> set sh" for sh
      by (force simp: registrations_def)
    have "?l = Some sh \<longleftrightarrow> (\<exists>tk. (i, sh, tk) \<in> set plan) \<and> w \<in> set sh" for sh
    proof
      assume l: "?l = Some sh"
      then have sh: "su_shards su i = Some sh" "w \<in> set sh" using worker_okD(3)[OF invD(4)[OF assms(1)]] by blast+
      then have "i \<in> client_idx ` clients" using invD(5)[OF assms(1) sh(1)] by simp
      then have "i \<in> fst ` set plan" using assms(3) by (simp add: plan_follows_def)
      then obtain sh' tk where "(i, sh', tk) \<in> set plan" by force
      moreover then have "su_shards su i = Some sh'" by (rule follows)
      ultimately show "(\<exists>tk. (i, sh, tk) \<in> set plan) \<and> w \<in> set sh" using sh by auto
    next
      assume "(\<exists>tk. (i, sh, tk) \<in> set plan) \<and> w \<in> set sh"
      then obtain tk where p: "(i, sh, tk) \<in> set plan" "w \<in> set sh" by blast
      have "i \<in> fst ` set plan" using p(1) by force
      then have "i \<in> client_idx ` clients" using assms(3) by (simp add: plan_follows_def)
      moreover have "su_shards su i = Some sh" using p(1) by (rule follows)
      ultimately obtain c where c: "c \<in> clients" "i = client_idx c" "su_shards su (client_idx c) = Some sh" by blast
      have "Client c \<in> procs" using c(1) by simp
      then have "phase_ok ss e (entries (su_store su)) su (Client c) Running" using invD(3)[OF assms(1)] assms(2) by metis
      then have "joined su (client_idx c) sh sh" using c(3) by (auto simp: phase_ok_def ready_def joined_def)
      then show "?l = Some sh" using p(2) c(2) by (simp add: joined_def)
    qed
    then have "?l = Some sh \<longleftrightarrow> ?r = Some sh" for sh using r reg by blast
    then show ?thesis by (metis option.exhaust)
  qed
  then show ?thesis using worker_okD(2)[OF invD(4)[OF assms(1)]] unfolding plan_registered_def by blast
qed

lemma started_is_start:
  assumes "inv su" "\<forall>s \<in> procs. su_phase su s = Running" "plan_follows clients plan su" "\<not> ex_hammer e"
  shows "started_system T ss plan su
    = start_state T e (service_workers ss) plan ws0 (\<lambda>w. ws_client_registry (mw_state (su_workers su w)))"
proof -
  let ?reg = "\<lambda>w. ws_client_registry (mw_state (su_workers su w))"
  have worker: "mw_state (su_workers su w) = ws0\<lparr> ws_client_registry := ?reg w \<rparr>" for w by (rule worker_okD(1)[OF invD(4)[OF assms(1)]])
  have acc: "ws_accumulator (mw_state (su_workers su w)) = ws_accumulator ws0" for w by (subst worker) simp
  have leader: "(if Leader \<lparr> leader_group = g \<rparr> \<in> set ss then leader_connected (su_leaders su g)
      else (leader_connected (su_leaders su g))\<lparr> ml_publisher := Some () \<rparr>) = leader_from_protocol T (ex_group_size e) (Some ())" for g
  proof -
    obtain pub where pub: "su_leaders su g = leader_from_protocol T (ex_group_size e) pub" using invD(6)[OF assms(1)] by blast
    have "pub \<noteq> None" if l: "Leader \<lparr> leader_group = g \<rparr> \<in> set ss"
    proof -
      have "Leader \<lparr> leader_group = g \<rparr> \<in> procs" using l by simp
      then have "phase_ok ss e (entries (su_store su)) su (Leader \<lparr> leader_group = g \<rparr>) Running" using invD(3)[OF assms(1)] assms(2) by metis
      then show ?thesis using pub by (simp add: phase_ok_def leader_from_protocol_def)
    qed
    then show ?thesis by (auto simp: pub leader_connected_def leader_from_protocol_def)
  qed
  have idle: "su_sent su w \<noteq> [] \<longleftrightarrow> (\<forall>(c, shards, tokens) \<in> set plan. w \<notin> set shards)" if w: "w \<in> set (service_workers ss)" for w
  proof -
    have "Worker w \<in> procs" using w by (simp add: set_service_workers)
    then have "su_phase su (Worker w) = Running" using assms(2) by blast
    then have "mw_start_rx (su_workers su w) \<noteq> None" using worker_okD(4)[OF invD(4)[OF assms(1)], of w] by blast
    then have "su_sent su w \<noteq> [] \<longleftrightarrow> \<not> worker_hammer ws0 \<and> cr_peers (?reg w) = []" by (rule worker_okD(6)[OF invD(4)[OF assms(1)]])
    moreover have "\<not> worker_hammer ws0"
      using assms(4) fresh by (auto simp: worker_hammer_def worker_from_experiment_def bind_eq_Some_conv)
    moreover have "cr_peers (?reg w) = [] \<longleftrightarrow> registrations plan w = []"
    proof -
      have "map_of (cr_peers (?reg w)) = map_of (rev (registrations plan w))"
        using plan_registers[OF assms(1-3)] unfolding plan_registered_def by blast
      then have "dom (map_of (cr_peers (?reg w))) = dom (map_of (rev (registrations plan w)))" by simp
      then show ?thesis unfolding dom_map_of_conv_image_fst by auto
    qed
    moreover have "registrations plan w = [] \<longleftrightarrow> (\<forall>(c, shards, tokens) \<in> set plan. w \<notin> set shards)"
      by (force simp: registrations_def filter_empty_conv)
    ultimately show ?thesis by blast
  qed
  have "filter (\<lambda>w. su_sent su w \<noteq> []) (service_workers ss) = idle_workers (service_workers ss) plan"
    unfolding idle_workers_def by (rule filter_cong[OF refl idle])
  then show ?thesis
    unfolding started_system_def start_state_def leader acc using worker by (simp flip: worker)
qed

end

context startup_system
begin

text \<open>The shards that the clients have picked are inputs of a round.\<close>

lemma picked_inputs:
  assumes "inv su" "\<forall>s \<in> procs. su_phase su s = Running" "1 \<le> ex_group_size e"
    and ids: "distinct ids" "set ids = client_idx ` clients" "length acts = length ids" "length rs = length ids"
  shows "inputs_ok (unat n) (service_workers ss) acts rs ids (map (\<lambda>i. the (su_shards su i)) ids)"
    "i \<in> set ids \<Longrightarrow> \<exists>ws. su_shards su i = Some ws"
proof -
  show some: "\<exists>ws. su_shards su i = Some ws" if "i \<in> set ids" for i
  proof -
    obtain c where c: "c \<in> clients" "i = client_idx c" using \<open>i \<in> set ids\<close> ids(2) by auto
    then have "Client c \<in> procs" by simp
    then have "phase_ok ss e (entries (su_store su)) su (Client c) Running" using invD(3)[OF assms(1)] assms(2) by metis
    then show ?thesis using c(2) by (auto simp: phase_ok_def ready_def joined_def)
  qed
  have pos: "0 < ex_group_size e" using assms(3) by (simp add: word_le_nat_alt word_less_nat_alt)
  have groups_eq: "{worker_group w | w. Worker w \<in> set ss} = set (round_groups n)"
  proof -
    have "\<exists>w. g = worker_group w \<and> Worker w \<in> set ss" if "group_idx g < n" for g
      using that assms(3) by (intro exI[of _ "\<lparr> worker_group = g, worker_idx = 0 \<rparr>"]) (simp add: services_set pos)
    then show ?thesis unfolding round_groups_ok(3) by (auto simp: services_set)
  qed
  have "distinct ws \<and> length ws = unat n \<and> list_all (\<lambda>w. w \<in> set (service_workers ss)) ws" if ok: "shards_ok ss ws" for ws
  proof -
    have d: "distinct (map worker_group ws)" "set (map worker_group ws) = set (round_groups n)"
      using ok groups_eq by (simp_all add: shards_ok_def)
    then have "length ws = length (round_groups n)" using round_groups_ok(1)[of n] by (metis distinct_card length_map)
    then show ?thesis
      using ok d(1) round_groups_ok(2)[of n] by (auto simp: shards_ok_def set_service_workers list_all_iff distinct_map)
  qed
  then have "list_all (\<lambda>s. distinct s \<and> length s = unat n \<and> list_all (\<lambda>w. w \<in> set (service_workers ss)) s) (map (\<lambda>i. the (su_shards su i)) ids)"
    using some invD(5)[OF assms(1)] by (fastforce simp: list_all_iff)
  then show "inputs_ok (unat n) (service_workers ss) acts rs ids (map (\<lambda>i. the (su_shards su i)) ids)"
    using ids by (simp add: inputs_ok_def)
qed

lemma honest_plan_follows:
  assumes "honest_plan T keys acts rs ids shards = Some plan" "all_clients T keys acts rs = Some tokens" "length tokens = length ids"
    and "shards = map (\<lambda>i. the (su_shards su i)) ids" "distinct ids" "set ids = client_idx ` clients"
    and "\<And>i. i \<in> set ids \<Longrightarrow> \<exists>ws. su_shards su i = Some ws"
  shows "plan_follows clients plan su"
proof -
  have plan: "plan = zip ids (zip shards tokens)" using assms(1,2) by (simp add: honest_plan_def)
  have "map fst plan = ids" using assms(3,4) by (simp add: plan)
  moreover have "su_shards su c = Some s" if c: "(c, s, tk) \<in> set plan" for c s tk
  proof -
    obtain j where "j < length ids" "c = ids ! j" "s = shards ! j" using c assms(3,4) by (auto simp: plan set_zip)
    then show ?thesis using assms(4) assms(7)[of c] by force
  qed
  ultimately show ?thesis
    using assms(5,6) unfolding plan_follows_def by (metis (mono_tags, lifting) case_prodI2 list.set_map)
qed

text \<open>Honest clients of a start follow their plan, with the workers they have picked.\<close>

lemma started_plan:
  assumes "inv su" "\<forall>s \<in> procs. su_phase su s = Running" "1 \<le> ex_group_size e"
    and ids: "distinct ids" "set ids = client_idx ` clients" "length acts = length ids" "length rs = length ids"
    and rounds: "\<And>shards. inputs_ok (unat n) (service_workers ss) acts rs ids shards \<Longrightarrow>
      \<exists>plan. honest_plan T keys acts rs ids shards = Some plan \<and> Q plan"
  shows "\<exists>plan. honest_plan T keys acts rs ids (map (\<lambda>i. the (su_shards su i)) ids) = Some plan \<and> plan_follows clients plan su \<and> Q plan"
proof -
  note I = picked_inputs[OF assms(1-3) ids]
  obtain plan where plan: "honest_plan T keys acts rs ids (map (\<lambda>i. the (su_shards su i)) ids) = Some plan" "Q plan"
    using rounds[OF I(1)] by blast
  obtain tokens where tokens: "all_clients T keys acts rs = Some tokens"
    using plan(1) by (auto simp: honest_plan_def bind_eq_Some_conv)
  have "length tokens = length ids"
    using list_all2_lengthD[OF try_map_list_all2[OF tokens[unfolded all_clients_def]]] ids(3,4) by simp
  then have "plan_follows clients plan su" using honest_plan_follows[OF plan(1) tokens _ refl ids(1,2)] I(2) by blast
  then show ?thesis using plan by blast
qed

text \<open>A start that has completed is followed by the round of the clients.\<close>

lemma started_round:
  assumes "inv su" "\<forall>s \<in> procs. su_phase su s = Running" "\<not> ex_hammer e"
    and "plan_follows clients plan su" "round_correct T A key_from e (service_workers ss) plan res"
  shows "round_from T A key_from (started_system T ss plan su) res"
  using assms(5) plan_registers[OF assms(1,2,4)] fresh
  unfolding round_correct_def started_is_start[OF assms(1,2,4,3)] by blast

end

context startup_system
begin

lemma reach_inv:
  assumes "store_wf st" "entries st = [[''experiment'', ''config''] \<mapsto> json]" "startup_init T e now st = Some su0" "steps su0 su"
  shows "inv su"
  using init_inv[OF assms(1,2), of now] assms(3) steps_inv[OF assms(4)] by simp

lemma inv_facts:
  assumes "inv su"
  shows "\<forall>s \<in> procs. \<forall>inp. process_step P W inp s su = None \<longleftrightarrow> gives_up (entries (su_store su)) s (su_phase su s)"
    "entries (su_store su) start_key \<noteq> None \<Longrightarrow> all_registered ss (entries (su_store su))"
    "Worker w \<in> set ss \<Longrightarrow> su_phase su (Worker w) = Running \<Longrightarrow>
      \<exists>m. mw_services (su_workers su w) = Some m \<and> services_known ss w m"
    "c \<in> clients \<Longrightarrow> su_phase su (Client c) = Running \<Longrightarrow>
      \<exists>shards. shards_ok ss shards \<and> joined su (client_idx c) shards shards"
proof -
  show "\<forall>s \<in> procs. \<forall>inp. process_step P W inp s su = None \<longleftrightarrow> gives_up (entries (su_store su)) s (su_phase su s)"
    by (intro ballI allI) (rule panics_iff[OF assms])
  show "all_registered ss (entries (su_store su))" if "entries (su_store su) start_key \<noteq> None"
    using that invD(2)[OF assms] by (auto simp: store_ok_def)
  show "\<exists>m. mw_services (su_workers su w) = Some m \<and> services_known ss w m"
    if "Worker w \<in> set ss" "su_phase su (Worker w) = Running" for w
    using invD(3)[OF assms, of "Worker w"] that by (auto simp: phase_ok_def ready_def)
  show "\<exists>shards. shards_ok ss shards \<and> joined su (client_idx c) shards shards"
    if c: "c \<in> clients" "su_phase su (Client c) = Running" for c
  proof -
    obtain shards where "joined su (client_idx c) shards shards"
      using invD(3)[OF assms, of "Client c"] c by (auto simp: phase_ok_def ready_def)
    moreover then have "shards_ok ss shards" using invD(5)[OF assms] unfolding joined_def by blast
    ultimately show ?thesis by blast
  qed
qed

end

text \<open>The two-server protocol: the round that follows the start gives the sums of the messages.\<close>

lemma two_key_started:
  fixes W :: "(((bytes, aes_seed) two_key, 'fr scalar proof_share) write_token, 'fr scalar token audit_share, 'fr scalar, bytes, 'fr, 'sp) wire_ops"
  assumes sys: "startup_system S store_wf key_ok entries P (wrapper_protocol V) e ss n json clients ws0"
    and V: "crypto env validR frv validQ" "two_key_vdpf env channels msg_size = Some V"
    and acts: "list_all (action_valid (\<lambda>b. length b = msg_size) channels) acts"
    and keys: "vec_valid (\<lambda>k. validR (scalar_inner k)) channels keys"
    and e: "experiment_new (Secure V) group_size total_clients False (map wrapper_from_auth_key keys) = Some e"
    and start: "store_wf st" "entries st = [[''experiment'', ''config''] \<mapsto> json]" "startup_init (wrapper_protocol V) e now st = Some su0"
      "(startup_step P W (procs_of ss clients))\<^sup>*\<^sup>* su0 su" "\<forall>s \<in> procs_of ss clients. su_phase su s = Running"
    and ids: "distinct ids" "set ids = client_idx ` clients" "length acts = length ids" "length rs = length ids"
  shows "\<exists>plan. honest_plan (wrapper_protocol V) keys acts rs ids (map (\<lambda>i. the (su_shards su i)) ids) = Some plan
    \<and> round_from (wrapper_protocol V) bytes_acc auth_key_try_from (started_system (wrapper_protocol V) ss plan su)
        (map (\<lambda>j. bytes_sum msg_size (channel_messages j acts)) [0..<channels])"
proof -
  have inv: "startup_system.inv store_wf entries P W (wrapper_protocol V) e ss json clients ws0 su"
    by (rule startup_system.reach_inv[OF sys start(1-4)])
  have svc: "iter_services e = Some ss" "experiment_groups e = Some n"
    using sys by (simp_all add: startup_system_def startup_system_axioms_def)
  have "dpf_keys V = 2" using two_key_vdpf_sizes[OF V(2)] by blast
  then have n: "unat n = 2" using experiment_round[OF e] svc(2) by simp
  note E = experiment_round[OF e]
  have "\<not> ex_hammer e" "1 \<le> ex_group_size e" using E(2,3) \<open>dpf_keys V = 2\<close> by simp_all
  have "\<exists>plan. honest_plan (wrapper_protocol V) keys acts rs ids shards = Some plan
      \<and> round_correct (wrapper_protocol V) bytes_acc auth_key_try_from e (service_workers ss) plan
          (map (\<lambda>j. bytes_sum msg_size (channel_messages j acts)) [0..<channels])"
    if "inputs_ok (unat n) (service_workers ss) acts rs ids shards" for shards
    using crypto.two_key_system[OF V(1,2) acts keys e svc(1)] that n by simp
  from startup_system.started_plan[OF sys inv start(5) \<open>1 \<le> ex_group_size e\<close> ids this]
  show ?thesis using startup_system.started_round[OF sys inv start(5) \<open>\<not> ex_hammer e\<close>] by blast
qed

section \<open>A concrete start\<close>

text \<open>The conversions of the two-server protocol.\<close>

definition two_key_wire_ops where
  "two_key_wire_ops R =
     \<lparr> wire_token_from = write_token_try_from (\<lambda>k. Some (two_key_key_try_from (\<lambda>b. b) aes_seed_try_from k))
         (two_key_proof_try_from (scalar_try_from_vec R)),
       wire_share_into = audit_share_into (two_key_token_into (scalar_to_bytes R)),
       wire_share_from = (\<lambda>s. Some (audit_share_try_from (two_key_token_try_from (scalar_try_from_vec R)) s)),
       wire_key_from = auth_key_try_from, wire_acc_into = (\<lambda>b. b) \<rparr>"

text \<open>Dates as unary numbers.\<close>

definition unary_date :: "int \<Rightarrow> string" where
  "unary_date t = (if t < 0 then replicate (nat (- t)) (CHR ''-'') else replicate (nat t) (CHR ''+''))"

definition parse_unary :: "string \<Rightarrow> string + int" where
  "parse_unary s = (if take 1 s = ''-'' then Inr (- int (length s)) else Inr (int (length s)))"

lemma parse_unary_date: "parse_unary (unary_date t) = Inr t"
proof (cases "t < 0")
  case True
  then show ?thesis by (cases "nat (- t)") (auto simp: parse_unary_def unary_date_def)
next
  case False
  then show ?thesis by (cases "nat t") (auto simp: parse_unary_def unary_date_def)
qed

text \<open>Every process has an address of its own.\<close>

definition demo_addr :: "(nat, nat) service \<Rightarrow> string" where
  "demo_addr s = (case s of
      Publisher _ \<Rightarrow> ''localhost''
    | Leader l \<Rightarrow> replicate (unat (group_idx (leader_group l))) (CHR ''l'')
    | Worker w \<Rightarrow> replicate (unat (group_idx (worker_group w))) (CHR ''g'') @ replicate (unat (worker_idx w)) (CHR ''i'')
    | Client _ \<Rightarrow> '''')"

definition demo_params :: "(inmem_store, nat, nat, nat, nat) startup_params" where
  "demo_params = \<lparr> sp_store = inmem_ops (\<lambda>m. m), sp_addr = demo_addr,
     sp_uri_ok = (\<lambda>uri. take 4 uri = ''http''), sp_parse = parse_unary, sp_to_rfc3339 = unary_date,
     sp_debug = (\<lambda>_. ''''), sp_from_json = (\<lambda>_. Inr demo_experiment), sp_delay_ms = 3000, sp_order = (\<lambda>gs. gs), sp_pick = choose_nth \<rparr>"

definition demo_clients :: "(nat, nat) client_info set" where
  "demo_clients = {client_info_new 0, client_info_new 1}"

definition demo_store :: inmem_store where
  "demo_store = \<lparr> im_map = [([''experiment'', ''config''], ''demo'')] \<rparr>"

abbreviation demo_protocol where
  "demo_protocol \<equiv> wrapper_protocol (residue_vdpf 2 0)"

abbreviation demo_wire where
  "demo_wire \<equiv> two_key_wire_ops residue_fr"

definition demo_fresh where
  "demo_fresh = the (worker_from_experiment demo_protocol demo_experiment)"

interpretation demo_startup: startup_system "inmem_ops (\<lambda>m. m)" "\<lambda>st. distinct (map fst (im_map st))" "\<lambda>_. True"
  "\<lambda>st. map_of (im_map st)" demo_params demo_wire demo_protocol demo_experiment demo_services 2 "''demo''" demo_clients demo_fresh
proof (intro startup_system.intro startup_system_axioms.intro)
  show "discovery_store (inmem_ops (\<lambda>m. m)) (\<lambda>st. distinct (map fst (im_map st))) (\<lambda>_. True) (\<lambda>st. map_of (im_map st))"
    by (rule inmem_discovery_store) simp
  show "shard_choice (sp_pick demo_params) (sp_order demo_params)"
    using shards_nth.shard_choice_axioms by (simp add: demo_params_def)
  show "worker_from_experiment demo_protocol demo_experiment = Some demo_fresh"
    by (simp add: demo_fresh_def worker_from_experiment_def demo_ok(3))
  show "inj_on client_idx demo_clients" by (simp add: demo_clients_def client_info_new_def)
qed (simp_all add: demo_params_def demo_ok parse_unary_date demo_clients_def)

definition demo_start where
  "demo_start = the (startup_init demo_protocol demo_experiment 0 demo_store)"

lemma demo_start_ok:
  "distinct (map fst (im_map demo_store))" "map_of (im_map demo_store) = [[''experiment'', ''config''] \<mapsto> ''demo'']"
  "startup_init demo_protocol demo_experiment 0 demo_store = Some demo_start"
  using demo_startup.init_inv[of demo_store 0] by (auto simp: demo_store_def demo_start_def)

lemma demo_completes:
  "\<exists>su. (startup_step demo_params demo_wire (procs_of demo_services demo_clients))\<^sup>*\<^sup>* demo_start su
    \<and> (\<forall>s \<in> procs_of demo_services demo_clients. su_phase su s = Running)"
proof -
  have "demo_startup.inv demo_start" "\<forall>s. su_phase demo_start s = Booting"
    using demo_startup.init_inv[OF demo_start_ok(1,2), of 0] demo_start_ok(3) by auto
  moreover then have "on_time demo_services demo_clients demo_start" by (simp add: on_time_def)
  ultimately show ?thesis using demo_startup.completes by blast
qed

end
