(* ===== verification/Sums.thy ===== *)
theory Sums
  imports Delivery
begin

text \<open>
  What the messages of a round carry. Every sum that a worker sends to its leader, or a leader to the publisher, and the
  result of the publisher are values of the protocol: as many messages as there are channels, each of the size and form of a
  message. So they can be encoded and decoded again.
\<close>

section \<open>Sums in transit\<close>

fun sum_ok :: "('m list \<Rightarrow> bool) \<Rightarrow> ('t, 's, 'm) task \<Rightarrow> bool" where
  "sum_ok ok (ToLeader g acc) = ok acc"
| "sum_ok ok (ToPublisher acc) = ok acc"
| "sum_ok ok t = True"

text \<open>In every state that is reached from \<open>st0\<close>.\<close>

definition sums_from where
  "sums_from ok T A key_from st0 \<longleftrightarrow> (\<forall>st. (sys_step T A key_from)\<^sup>*\<^sup>* st0 st \<longrightarrow>
     (\<forall>t. t \<in># snd st \<longrightarrow> sum_ok ok t) \<and> pred_option ok (sys_result (fst st)))"

text \<open>From every start in which the clients of the plan are registered.\<close>

definition sums_correct where
  "sums_correct ok T A key_from e workers plan \<longleftrightarrow>
     (\<forall>ws0 regs. worker_from_experiment T e = Some ws0 \<longrightarrow> plan_registered plan regs \<longrightarrow>
        sums_from ok T A key_from (start_state T e workers plan ws0 regs))"

lemma sum_ok_True [simp]: "sum_ok (\<lambda>_. True) t"
  by (cases t) simp_all

lemma sums_correct_True: "sums_correct (\<lambda>_. True) T A key_from e workers plan"
  by (simp add: sums_correct_def sums_from_def option.pred_True)

lemma sums_result:
  assumes "round_from T A key_from st0 res" "sums_from ok T A key_from st0"
  shows "ok res"
proof -
  obtain sys where "(sys_step T A key_from)\<^sup>*\<^sup>* st0 (sys, {#})" using assms(1) unfolding round_from_def by blast
  moreover then have "sys_result sys = Some res" using assms(1) unfolding round_from_def by (metis fst_conv snd_conv)
  ultimately show ?thesis using assms(2) unfolding sums_from_def by (metis fst_conv option.pred_inject(2))
qed

context round_system
begin

lemma inv_sums:
  assumes "sys_inv (sys, pool)"
  shows "t \<in># pool \<Longrightarrow> sum_ok vvalid t" "pred_option vvalid (sys_result sys)"
proof -
  show "pred_option vvalid (sys_result sys)" using assms
  proof (rule sys_invE)
    fix gl pg ap gp
    assume "publishing gl pg ap gp (sys_publisher sys) (sys_result sys) (stage 0 pool)"
    then have "sys_result sys = (if ap = set groups \<and> \<not> gp then Some (msum (tasks_of gsum (set groups))) else None)"
      unfolding publishing_def by blast
    then show ?thesis using msum_valid[of "tasks_of gsum (set groups)"] gsum_valid by auto
  qed
  assume t: "t \<in># pool"
  show "sum_ok vvalid t" using assms
  proof (rule sys_invE)
    fix lw ag gl pg ap gp
    assume lead: "leading lw ag (gl \<union> pg \<union> ap) (sys_leaders sys) (stage 1 pool)"
      and pub: "publishing gl pg ap gp (sys_publisher sys) (sys_result sys) (stage 0 pool)"
    have L: "lw \<subseteq> set workers" "stage 1 pool = tasks_of (\<lambda>w. ToLeader (worker_group w) (full w)) lw"
      using lead unfolding leading_def by blast+
    have P: "stage 0 pool = tasks_of LeaderGet gl + tasks_of (\<lambda>g. ToPublisher (gsum g)) pg + (if gp then {#PublisherGet#} else {#})"
      using pub unfolding publishing_def by blast
    show ?thesis
    proof (cases t)
      case (ToLeader g acc)
      then have "t \<in># stage 1 pool" using t by simp
      then show ?thesis using ToLeader full_valid finite_subset[OF L(1)] unfolding L(2) by auto
    next
      case (ToPublisher acc)
      then have "t \<in># stage 0 pool" using t by simp
      then show ?thesis using ToPublisher gsum_valid publishing_finite[OF pub] unfolding P by (auto split: if_splits)
    qed simp_all
  qed
qed

lemma sums_ok: "sums_correct vvalid T A key_from e workers plan"
proof -
  have "(\<forall>t. t \<in># snd st \<longrightarrow> sum_ok vvalid t) \<and> pred_option vvalid (sys_result (fst st))" if "sys_inv st0" "steps st0 st" for st0 st
    using inv_sums[of "fst st" "snd st"] steps_inv[OF that(2,1)] by simp
  then show ?thesis using start_inv unfolding sums_correct_def sums_from_def by blast
qed

end

context protocol_round
begin

lemma honest_sums:
  assumes acts: "list_all (action_valid valid (dpf_points V)) acts" and keys: "vec_valid validA (dpf_points V) keys"
    and check: "\<And>ts. length ts = dpf_keys V \<Longrightarrow> vdpf_check_audit V ts \<noteq> None"
    and e: "collect_result key_from (ex_keys e) = Inr keys" "\<not> ex_hammer e" "1 \<le> ex_group_size e"
    and n: "experiment_groups e = Some n" "unat n = dpf_keys V" "0 < dpf_keys V"
    and ss: "iter_services e = Some ss"
    and ok: "inputs_ok (dpf_keys V) (service_workers ss) acts rs ids shards"
    and plan: "honest_plan T keys acts rs ids shards = Some plan"
  shows "sums_correct (vec_valid valid (dpf_points V)) T A key_from e (service_workers ss) plan"
  using round_system.sums_ok[OF honest_round_system(1)[OF assms]] .

end

context crypto
begin

lemma multi_key_sums:
  assumes V: "multi_key_vdpf env channels groups msg_size r = (V, r')" "2 \<le> groups" "groups < 2 ^ 16" "0 < channels"
    and acts: "list_all (action_valid (vec_valid validP (msg_size div 32 + 1)) channels) acts" and keys: "vec_valid validS channels keys"
    and e: "experiment_new (SecureMultiKey V) group_size clients False (map wrapper_from_auth_key keys) = Some e"
    and ss: "iter_services e = Some ss" and ok: "inputs_ok groups (service_workers ss) acts rs ids shards"
    and plan: "honest_plan (wrapper_protocol V) keys acts rs ids shards = Some plan"
  shows "sums_correct (vec_valid (vec_valid validP (msg_size div 32 + 1)) channels) (wrapper_protocol V) (ev_acc (curve_exp (env_sp env)))
    auth_key_try_from e (service_workers ss) plan"
proof -
  obtain validK out where R: "protocol_round V (vec_valid validP (msg_size div 32 + 1)) validS
      (vec_monoid (curve_exp (env_sp env)) (msg_size div 32 + 1)) validK out
      (ev_acc (curve_exp (env_sp env))) (Some (msg_size div 32 + 1))"
    and sizes: "dpf_points V = channels" "dpf_keys V = groups"
    using multi_key_vdpf_round[OF V(1,2,4)] by blast
  have check: "vdpf_check_audit V ts \<noteq> None" if "length ts = dpf_keys V" for ts
    using check_total_multi[OF V(1)] that V(2) sizes by simp
  note E = experiment_round[OF e]
  obtain n where n: "experiment_groups e = Some n" "unat n = dpf_keys V" using E(1) sizes V(3) by auto
  have kf: "collect_result auth_key_try_from (ex_keys e) = Inr keys"
    using E(4) sizes V(3) auth_keys.collect_keys by simp
  show ?thesis
    using protocol_round.honest_sums[OF R _ _ check kf _ _ n _ ss _ plan] acts keys ok E(2,3) sizes V(2,3) by simp
qed

end

end
