(* ===== verification/Wire.thy ===== *)
theory Wire
  imports Composition Sums
begin

text \<open>
  The round on the wire. In \<open>System\<close> requests carry tokens, shares and accumulators, and processes are addressed directly.
  Here requests are the messages of the protocol buffers, they are sent to client handles, and the handlers and tasks
  of \<open>Worker\<close> and \<open>Aggregation\<close> run: they decode what they get and encode what they send. \<open>verify\<close> is cut where it releases a
  lock, as in \<open>System\<close>. A simulation shows that what holds of every round of \<open>System\<close> holds of the round on the wire
  (\<open>net_round\<close>). The laws that it needs of the messages are the locale \<open>wire_protocol\<close>, which \<open>Messages\<close> discharges for the
  three protocols.
\<close>

section \<open>Packets\<close>

text \<open>Requests on their way to a handle, and tasks of a process. The tasks of \<open>verify\<close> keep what its handler has looked up: the
  leader's handle and the start time. The task of a leader keeps the publisher's handle.\<close>

type_synonym verify_context = "string option \<times> int option"

datatype ('s, 'm) packet =
    UploadReq string upload_request
  | UploadTask worker_info "u128 \<times> proto_client_id \<times> proto_write_token \<times> string list"
  | VerifyReq string verify_request
  | VerifyTask worker_info u128 's verify_context
  | DrainTask worker_info u128 verify_context
  | AccumulateTask worker_info u128 "'m list" verify_context
  | ReportTask worker_info nat verify_context
  | LeaderReq string aggregate_request
  | LeaderTask group "proto_share \<times> string"
  | LeaderGetTask group string
  | PublisherReq string aggregate_request
  | PublisherTask proto_share
  | PublisherGetTask

record ('s, 't, 'm, 'r, 'fr, 'sp) net =
  net_workers :: "worker_info \<Rightarrow> (string, string, int, 's, 't, 'm, 'r, 'fr, 'sp) my_worker"
  net_leaders :: "group \<Rightarrow> ('m, string) my_leader"
  net_publisher :: "'m my_publisher"
  net_result :: "bytes list option"

text \<open>Which process is behind a handle, and the conversions of accumulators: from the message of a request, into its bytes, and
  into the \<open>Bytes\<close> that the publisher recovers.\<close>

record 'm routes =
  rt_worker :: "string \<Rightarrow> worker_info"
  rt_leader :: "string \<Rightarrow> group"
  rt_from_share :: "proto_share \<Rightarrow> unit + 'm list"
  rt_into :: "'m \<Rightarrow> bytes"
  rt_publish :: "'m \<Rightarrow> bytes option"

definition set_my_worker where
  "set_my_worker w mw net = net\<lparr> net_workers := (net_workers net)(w := mw) \<rparr>"

definition set_state where
  "set_state w ws net = set_my_worker w ((net_workers net w)\<lparr> mw_state := ws \<rparr>) net"

section \<open>Handlers and tasks\<close>

text \<open>A client sends a refused upload again.\<close>

definition net_upload where
  "net_upload Rt h req net =
     (let w = rt_worker Rt h in
      do { res \<leftarrow> handle_upload req (net_workers net w);
           Some (case res of Inl status \<Rightarrow> [UploadReq h req] | Inr task \<Rightarrow> [UploadTask w task], net) })"

definition net_upload_task where
  "net_upload_task T W w task net =
     do { (msgs, ws) \<leftarrow> upload_task T W task (mw_state (net_workers net w));
          Some (map (\<lambda>(peer, req). VerifyReq peer req) msgs, set_state w ws net) }"

text \<open>A worker or leader that has sent a request unwraps the answer, as the last action of its task: a request that is refused, or
  whose handler panics, is the panic of that task.\<close>

definition net_verify where
  "net_verify Rt W h req net =
     (let w = rt_worker Rt h in
      do { res \<leftarrow> handle_verify W req (net_workers net w);
           case res of
             Inl status \<Rightarrow> None
           | Inr ((c, share, leader, start_time), mw) \<Rightarrow> Some ([VerifyTask w c share (leader, start_time)], set_my_worker w mw net) })"

definition net_verify_task where
  "net_verify_task T w c share ctx net =
     (let (n, ws) = verify_add c share (mw_state (net_workers net w))
      in Some (if n < proto_num_parties T then [] else [DrainTask w c ctx], set_state w ws net))"

definition net_drain where
  "net_drain T w c ctx net =
     do { ((verify, token), ws) \<leftarrow> verify_drain T c (mw_state (net_workers net w));
          expanded \<leftarrow> verify_expand T token;
          Some (case expanded of Inl err \<Rightarrow> [] | Inr acc \<Rightarrow> [AccumulateTask w c acc ctx], set_state w ws net) }"

definition net_accumulate where
  "net_accumulate A w acc ctx net =
     do { (n, ws) \<leftarrow> verify_accumulate A acc (mw_state (net_workers net w));
          Some ([ReportTask w n ctx], set_state w ws net) }"

text \<open>\<open>elapsed_ms\<close> gives the milliseconds since a start time when the task runs.\<close>

definition net_report where
  "net_report W elapsed_ms w n ctx net =
     (case ctx of (leader, start_time) \<Rightarrow>
       (case verify_report n (mw_state (net_workers net w)) of
          AllClientsVerified acc \<Rightarrow>
            do { l \<leftarrow> leader; Some ([LeaderReq l \<lparr> ag_share = Some (share_of_accumulator (wire_acc_into W) acc) \<rparr>], net) }
        | ShareVerified clients \<Rightarrow> do { log_qps clients (map_option elapsed_ms start_time); Some ([], net) }
        | _ \<Rightarrow> Some ([], net)))"

definition net_leader where
  "net_leader Rt h req net =
     (let g = rt_leader Rt h in
      do { res \<leftarrow> handle_aggregate_worker req (net_leaders net g);
           case res of Inl status \<Rightarrow> None | Inr task \<Rightarrow> Some ([LeaderTask g task], net) })"

definition net_leader_task where
  "net_leader_task A Rt g task net =
     do { (forward, ml) \<leftarrow> aggregate_worker_task A (rt_from_share Rt) task (net_leaders net g);
          Some (case forward of None \<Rightarrow> [] | Some publisher \<Rightarrow> [LeaderGetTask g publisher],
                net\<lparr> net_leaders := (net_leaders net)(g := ml) \<rparr>) }"

definition net_leader_get where
  "net_leader_get Rt g publisher net =
     (let (h, req) = forward_group_share (rt_into Rt) publisher (net_leaders net g) in Some ([PublisherReq h req], net))"

definition net_publish where
  "net_publish req net = (case handle_aggregate_group req of Inl status \<Rightarrow> None | Inr share \<Rightarrow> Some ([PublisherTask share], net))"

definition net_publisher_task where
  "net_publisher_task A Rt share net =
     do { (complete, mp) \<leftarrow> aggregate_group_task A (rt_from_share Rt) share (net_publisher net);
          Some (if complete then [PublisherGetTask] else [], net\<lparr> net_publisher := mp \<rparr>) }"

definition net_publisher_get where
  "net_publisher_get Rt net =
     do { result \<leftarrow> recover_result (rt_publish Rt) (net_publisher net); Some ([], net\<lparr> net_result := Some result \<rparr>) }"

fun net_run ::
    "('r, 'm, 'k, 't, 's, 'x) protocol_ops_scheme \<Rightarrow> ('m, 'p) acc_ops \<Rightarrow> ('t, 's, 'k, 'm, 'fr, 'sp) wire_ops \<Rightarrow> 'm routes \<Rightarrow> (int \<Rightarrow> nat)
     \<Rightarrow> ('s, 'm) packet \<Rightarrow> ('s, 't, 'm, 'r, 'fr, 'sp) net \<Rightarrow> (('s, 'm) packet list \<times> ('s, 't, 'm, 'r, 'fr, 'sp) net) option" where
  "net_run T A W Rt elapsed_ms (UploadReq h req) net = net_upload Rt h req net"
| "net_run T A W Rt elapsed_ms (UploadTask w task) net = net_upload_task T W w task net"
| "net_run T A W Rt elapsed_ms (VerifyReq h req) net = net_verify Rt W h req net"
| "net_run T A W Rt elapsed_ms (VerifyTask w c share ctx) net = net_verify_task T w c share ctx net"
| "net_run T A W Rt elapsed_ms (DrainTask w c ctx) net = net_drain T w c ctx net"
| "net_run T A W Rt elapsed_ms (AccumulateTask w c acc ctx) net = net_accumulate A w acc ctx net"
| "net_run T A W Rt elapsed_ms (ReportTask w n ctx) net = net_report W elapsed_ms w n ctx net"
| "net_run T A W Rt elapsed_ms (LeaderReq h req) net = net_leader Rt h req net"
| "net_run T A W Rt elapsed_ms (LeaderTask g task) net = net_leader_task A Rt g task net"
| "net_run T A W Rt elapsed_ms (LeaderGetTask g publisher) net = net_leader_get Rt g publisher net"
| "net_run T A W Rt elapsed_ms (PublisherReq h req) net = net_publish req net"
| "net_run T A W Rt elapsed_ms (PublisherTask share) net = net_publisher_task A Rt share net"
| "net_run T A W Rt elapsed_ms PublisherGetTask net = net_publisher_get Rt net"

text \<open>A step runs a packet, at any time; a packet whose task panics is gone.\<close>

inductive net_step for T A W Rt where
  run: "net_run T A W Rt elapsed_ms p net = Some (ps, net') \<Longrightarrow> net_step T A W Rt (net, add_mset p pool) (net', pool + mset ps)"
| panic: "net_run T A W Rt elapsed_ms p net = None \<Longrightarrow> net_step T A W Rt (net, add_mset p pool) (net, pool)"

text \<open>The division by zero in the log of the throughput.\<close>

fun net_log_panics :: "(int \<Rightarrow> nat) \<Rightarrow> ('s, 'm) packet \<Rightarrow> ('s, 't, 'm, 'r, 'fr, 'sp) net \<Rightarrow> bool" where
  "net_log_panics elapsed_ms (ReportTask w n ctx) net \<longleftrightarrow>
     (case verify_report n (mw_state (net_workers net w)) of
        ShareVerified clients \<Rightarrow> clients mod 10 = 0 \<and> map_option elapsed_ms (snd ctx) = Some 0
      | _ \<Rightarrow> False)"
| "net_log_panics elapsed_ms p net \<longleftrightarrow> False"

text \<open>Later than in the first millisecond there is none.\<close>

abbreviation net_runs where
  "net_runs T A W Rt \<equiv> net_run T A W Rt (\<lambda>_. 1)"

lemma net_report_eq:
  "net_report W elapsed_ms w n ctx net = (if net_log_panics elapsed_ms (ReportTask w n ctx :: ('s, 'm) packet) net then None
     else case verify_report n (mw_state (net_workers net w)) of
        AllClientsVerified acc \<Rightarrow> do { l \<leftarrow> fst ctx; Some ([LeaderReq l \<lparr> ag_share = Some (share_of_accumulator (wire_acc_into W) acc) \<rparr>], net) }
      | _ \<Rightarrow> Some ([], net))"
  for net :: "('s, 't, 'm, 'r, 'fr, 'sp) net"
  by (cases "verify_report n (mw_state (net_workers net w))"; cases "snd ctx")
    (auto simp: net_report_def log_qps_def rust_assert_def split_def)

lemma net_run_elapsed:
  "net_run T A W Rt elapsed_ms p net = (if net_log_panics elapsed_ms p net then None else net_runs T A W Rt p net)"
  by (cases p) (auto simp: net_report_eq split: verify_status.splits)

lemma net_log_panics_last: "net_log_panics elapsed_ms p net \<Longrightarrow> net_runs T A W Rt p net = Some ([], net)"
  by (cases p) (auto simp: net_report_eq split: verify_status.splits)

lemma net_step_quiet:
  assumes "net_step T A W Rt c c'" and total: "\<And>p. p \<in># snd c \<Longrightarrow> net_runs T A W Rt p (fst c) \<noteq> None"
  obtains net p pool ps net' where "c = (net, add_mset p pool)" "c' = (net', pool + mset ps)" "net_runs T A W Rt p net = Some (ps, net')"
  using assms(1)
proof (cases rule: net_step.cases)
  case (run elapsed_ms p net ps net' pool)
  then have "net_runs T A W Rt p net = Some (ps, net')" using net_run_elapsed[of T A W Rt elapsed_ms p net] by (auto split: if_splits)
  then show ?thesis using that run(1,2) by blast
next
  case (panic elapsed_ms p net pool)
  have "net_runs T A W Rt p net \<noteq> None" using total panic(1) by simp
  then have "net_log_panics elapsed_ms p net" using panic(3) net_run_elapsed[of T A W Rt elapsed_ms p net] by (auto split: if_splits)
  then have "net_runs T A W Rt p net = Some ([], net)" by (rule net_log_panics_last)
  moreover have "c' = (net, pool + mset [])" using panic(2) by simp
  ultimately show ?thesis using that panic(1) by blast
qed

section \<open>What a packet means\<close>

definition leader_ok :: "'m routes \<Rightarrow> worker_info \<Rightarrow> string option \<Rightarrow> bool" where
  "leader_ok Rt w l \<longleftrightarrow> (\<exists>h. l = Some h \<and> rt_leader Rt h = worker_group w)"

text \<open>The task of \<open>System\<close> that a packet stands for. The workers of the experiment, the shards that clients have registered
  with, and a property of the tokens in flight are given.\<close>

fun denotes ::
    "('t, 's, 'k, 'm, 'fr, 'sp) wire_ops \<Rightarrow> 'm routes \<Rightarrow> worker_info set \<Rightarrow> (worker_info \<Rightarrow> u128 \<Rightarrow> worker_info list option) \<Rightarrow> ('t \<Rightarrow> bool)
     \<Rightarrow> ('s, 'm) packet \<Rightarrow> ('t, 's, 'm) task \<Rightarrow> bool" where
  "denotes W Rt WS peers token_ok (UploadReq h req) t \<longleftrightarrow>
     (\<exists>cid c wt tok. ur_client_id req = Some cid \<and> (client_from_proto cid :: ('fr, 'sp) client_info option) = Some c
       \<and> ur_write_token req = Some wt \<and> wire_token_from W wt = Some (Inr tok) \<and> token_ok tok
       \<and> rt_worker Rt h \<in> WS \<and> peers (rt_worker Rt h) (client_idx c) \<noteq> None \<and> t = Upload (rt_worker Rt h) (client_idx c) tok)"
| "denotes W Rt WS peers token_ok (UploadTask w task) t \<longleftrightarrow>
     (\<exists>c cid wt tok hs. task = (client_idx c, cid, wt, hs) \<and> (client_from_proto cid :: ('fr, 'sp) client_info option) = Some c
       \<and> wire_token_from W wt = Some (Inr tok) \<and> token_ok tok \<and> w \<in> WS \<and> peers w (client_idx c) = Some (map (rt_worker Rt) hs)
       \<and> t = Upload w (client_idx c) tok)"
| "denotes W Rt WS peers token_ok (VerifyReq h req) t \<longleftrightarrow>
     (\<exists>cid c as s. vr_client_id req = Some cid \<and> (client_from_proto cid :: ('fr, 'sp) client_info option) = Some c
       \<and> vr_audit_share req = Some as \<and> wire_share_from W as = Some (Inr s) \<and> rt_worker Rt h \<in> WS
       \<and> t = Verify (rt_worker Rt h) (client_idx c) s)"
| "denotes W Rt WS peers token_ok (VerifyTask w c s ctx) t \<longleftrightarrow> w \<in> WS \<and> leader_ok Rt w (fst ctx) \<and> t = Verify w c s"
| "denotes W Rt WS peers token_ok (DrainTask w c ctx) t \<longleftrightarrow> w \<in> WS \<and> leader_ok Rt w (fst ctx) \<and> t = Drain w c"
| "denotes W Rt WS peers token_ok (AccumulateTask w c acc ctx) t \<longleftrightarrow> w \<in> WS \<and> leader_ok Rt w (fst ctx) \<and> t = Accumulate w c acc"
| "denotes W Rt WS peers token_ok (ReportTask w n ctx) t \<longleftrightarrow> w \<in> WS \<and> leader_ok Rt w (fst ctx) \<and> t = Report w n"
| "denotes W Rt WS peers token_ok (LeaderReq h req) t \<longleftrightarrow>
     (\<exists>share acc. ag_share req = Some share \<and> rt_from_share Rt share = Inr acc \<and> rt_leader Rt h \<in> worker_group ` WS
       \<and> t = ToLeader (rt_leader Rt h) acc)"
| "denotes W Rt WS peers token_ok (LeaderTask g task) t \<longleftrightarrow>
     (\<exists>acc. rt_from_share Rt (fst task) = Inr acc \<and> g \<in> worker_group ` WS \<and> t = ToLeader g acc)"
| "denotes W Rt WS peers token_ok (LeaderGetTask g h) t \<longleftrightarrow> g \<in> worker_group ` WS \<and> t = LeaderGet g"
| "denotes W Rt WS peers token_ok (PublisherReq h req) t \<longleftrightarrow>
     (\<exists>share acc. ag_share req = Some share \<and> rt_from_share Rt share = Inr acc \<and> t = ToPublisher acc)"
| "denotes W Rt WS peers token_ok (PublisherTask share) t \<longleftrightarrow> (\<exists>acc. rt_from_share Rt share = Inr acc \<and> t = ToPublisher acc)"
| "denotes W Rt WS peers token_ok PublisherGetTask t \<longleftrightarrow> t = PublisherGet"

fun is_request :: "('s, 'm) packet \<Rightarrow> bool" where
  "is_request (UploadReq h req) = True"
| "is_request (VerifyReq h req) = True"
| "is_request (LeaderReq h req) = True"
| "is_request (PublisherReq h req) = True"
| "is_request p = False"

text \<open>What the publisher makes of the result.\<close>

definition published :: "'m routes \<Rightarrow> 'm list \<Rightarrow> bytes list" where
  "published Rt acc = the (try_map (rt_publish Rt) acc)"

text \<open>The state of the system that a network stands for.\<close>

definition sys_of :: "('s, 't, 'm, 'r, 'fr, 'sp) net \<Rightarrow> 'm list option \<Rightarrow> ('s, 't, 'm, 'r, 'fr, 'sp) system" where
  "sys_of net res =
     \<lparr> sys_workers = (\<lambda>w. mw_state (net_workers net w)),
       sys_leaders = (\<lambda>g. \<lparr> ml_accumulator = ml_accumulator (net_leaders net g), ml_total_workers = ml_total_workers (net_leaders net g),
         ml_publisher = Some () \<rparr>),
       sys_publisher = net_publisher net, sys_result = res \<rparr>"

text \<open>A worker that knows the handles of all workers and of its leader.\<close>

definition worker_wired where
  "worker_wired W Rt WS peers keys w mw \<longleftrightarrow>
     (\<exists>m. mw_services mw = Some m \<and> leader_ok Rt w (sm_leader m)
       \<and> (\<forall>w' \<in> WS. \<exists>h. map_of (sm_workers m) w' = Some h \<and> rt_worker Rt h = w'))
     \<and> \<not> worker_hammer (mw_state mw)
     \<and> collect_result (wire_key_from W) (ex_keys (ws_experiment (mw_state mw))) = Inr keys
     \<and> map_of (cr_peers (ws_client_registry (mw_state mw))) = peers w"

definition net_ok where
  "net_ok W Rt WS peers keys net \<longleftrightarrow> (\<forall>w \<in> WS. worker_wired W Rt WS peers keys w (net_workers net w))
     \<and> (\<forall>g \<in> worker_group ` WS. ml_publisher (net_leaders net g) \<noteq> None)"

lemma sys_of_sel [simp]:
  "sys_workers (sys_of net res) w = mw_state (net_workers net w)" "sys_publisher (sys_of net res) = net_publisher net"
  "ml_accumulator (sys_leaders (sys_of net res) g) = ml_accumulator (net_leaders net g)"
  "ml_total_workers (sys_leaders (sys_of net res) g) = ml_total_workers (net_leaders net g)"
  "sys_result (sys_of net res) = res"
  by (simp_all add: sys_of_def)

lemma sys_of_set_state [simp]: "sys_of (set_state w ws net) res = set_worker w ws (sys_of net res)"
  by (simp add: sys_of_def set_state_def set_my_worker_def set_worker_def fun_eq_iff)

lemma net_result_set_state [simp]: "net_result (set_state w ws net) = net_result net"
  by (simp add: set_state_def set_my_worker_def)

section \<open>The simulation\<close>

text \<open>What the conversions of a protocol promise: good tokens, the shares made from them, and good accumulators arrive as
  they were sent.\<close>

locale wire_protocol =
  fixes T :: "('r, 'm, 'k, 't, 's) protocol_ops" and W :: "('t, 's, 'k, 'm, 'fr, 'sp) wire_ops" and Rt :: "'m routes"
    and keys :: "'k list" and token_ok :: "'t \<Rightarrow> bool" and acc_ok :: "'m list \<Rightarrow> bool" and token_into :: "'t \<Rightarrow> proto_write_token"
  assumes token_wire: "token_ok t \<Longrightarrow> wire_token_from W (token_into t) = Some (Inr t)"
    and share_wire: "token_ok t \<Longrightarrow> proto_gen_audit T keys t = Some ss \<Longrightarrow> s \<in> set ss \<Longrightarrow>
      wire_share_from W (wire_share_into W s) = Some (Inr s)"
    and acc_wire: "acc_ok acc \<Longrightarrow> rt_from_share Rt (share_of_accumulator (rt_into Rt) acc) = Inr acc"
    and into_eq: "wire_acc_into W = rt_into Rt"
    and publish_ok: "acc_ok acc \<Longrightarrow> try_map (rt_publish Rt) acc = Some (map (rt_into Rt) acc)"

text \<open>The protocol among workers, with the shards that clients have registered with.\<close>

locale wire_system = wire_protocol T W Rt keys token_ok acc_ok token_into
  for T :: "('r, 'm, 'k, 't, 's) protocol_ops" and W :: "('t, 's, 'k, 'm, 'fr, 'sp) wire_ops" and Rt :: "'m routes"
    and keys :: "'k list" and token_ok :: "'t \<Rightarrow> bool" and acc_ok :: "'m list \<Rightarrow> bool" and token_into :: "'t \<Rightarrow> proto_write_token" +
  fixes A :: "('m, 'p) acc_ops" and WS :: "worker_info set" and peers :: "worker_info \<Rightarrow> u128 \<Rightarrow> worker_info list option"
  assumes peers_ok: "w \<in> WS \<Longrightarrow> peers w c = Some shards \<Longrightarrow> set shards \<subseteq> WS \<and> length shards = proto_num_parties T"
begin

abbreviation means :: "('s, 'm) packet \<Rightarrow> ('t, 's, 'm) task \<Rightarrow> bool" where
  "means \<equiv> denotes W Rt WS peers token_ok"

abbreviation wired :: "('s, 't, 'm, 'r, 'fr, 'sp) net \<Rightarrow> bool" where
  "wired \<equiv> net_ok W Rt WS peers keys"

abbreviation runs where
  "runs \<equiv> run_task T A (wire_key_from W) None"

text \<open>A packet either becomes another one for the same task, or does what the task does (and sends what the task sends, as long
  as the sums in it are good). It does not panic when the task does not, as long as the result is good.\<close>

definition simulates :: "('s, 't, 'm, 'r, 'fr, 'sp) net \<Rightarrow> 'm list option \<Rightarrow> ('s, 'm) packet \<Rightarrow> ('t, 's, 'm) task \<Rightarrow> bool" where
  "simulates net res p t \<longleftrightarrow>
     (\<forall>ts sys. runs t (sys_of net res) = Some (ts, sys) \<longrightarrow> pred_option acc_ok (sys_result sys) \<longrightarrow> net_runs T A W Rt p net \<noteq> None)
   \<and> (\<forall>ps net'. net_runs T A W Rt p net = Some (ps, net') \<longrightarrow> wired net'
       \<and> (\<exists>res'. net_result net' = map_option (published Rt) res'
           \<and> ((\<exists>p'. ps = [p'] \<and> is_request p \<and> \<not> is_request p' \<and> means p' t \<and> sys_of net' res' = sys_of net res)
             \<or> (\<exists>ts. runs t (sys_of net res) = Some (ts, sys_of net' res')
                 \<and> ((\<forall>u \<in> set ts. sum_ok acc_ok u) \<longrightarrow> list_all2 means ps ts)))))"

lemma simulatesI:
  assumes "net_runs T A W Rt p net = Some (ps, net')" "runs t (sys_of net res) = Some (ts, sys_of net' res')"
    "(\<forall>u \<in> set ts. sum_ok acc_ok u) \<longrightarrow> list_all2 means ps ts" "wired net'" "net_result net' = map_option (published Rt) res'"
  shows "simulates net res p t"
proof -
  have "wired net'' \<and> (\<exists>res''. net_result net'' = map_option (published Rt) res''
      \<and> ((\<exists>p'. qs = [p'] \<and> is_request p \<and> \<not> is_request p' \<and> means p' t \<and> sys_of net'' res'' = sys_of net res)
        \<or> (\<exists>ts. runs t (sys_of net res) = Some (ts, sys_of net'' res'') \<and> ((\<forall>u \<in> set ts. sum_ok acc_ok u) \<longrightarrow> list_all2 means qs ts))))"
    if "net_runs T A W Rt p net = Some (qs, net'')" for qs net''
  proof -
    have "qs = ps" "net'' = net'" using that assms(1) by simp_all
    then show ?thesis using assms(2-5) by (intro conjI exI[of _ res'] disjI2 exI[of _ ts]) simp_all
  qed
  then show ?thesis using assms(1) unfolding simulates_def by blast
qed

lemma wiredD:
  assumes "wired net" "w \<in> WS"
  shows "\<exists>m. mw_services (net_workers net w) = Some m \<and> leader_ok Rt w (sm_leader m)
      \<and> (\<forall>w' \<in> WS. \<exists>h. map_of (sm_workers m) w' = Some h \<and> rt_worker Rt h = w')"
    "\<not> worker_hammer (mw_state (net_workers net w))"
    "collect_result (wire_key_from W) (ex_keys (ws_experiment (mw_state (net_workers net w)))) = Inr keys"
    "map_of (cr_peers (ws_client_registry (mw_state (net_workers net w)))) = peers w"
  using assms by (auto simp: net_ok_def worker_wired_def)

lemma wired_set_my_worker:
  assumes "wired net" "mw_services mw = mw_services (net_workers net w)"
    "ws_experiment (mw_state mw) = ws_experiment (mw_state (net_workers net w))"
    "ws_client_registry (mw_state mw) = ws_client_registry (mw_state (net_workers net w))"
  shows "wired (set_my_worker w mw net)"
  using assms by (auto simp: net_ok_def set_my_worker_def worker_wired_def worker_hammer_def)

lemma wired_set_state:
  assumes "wired net" "ws_experiment ws = ws_experiment (mw_state (net_workers net w))"
    "ws_client_registry ws = ws_client_registry (mw_state (net_workers net w))"
  shows "wired (set_state w ws net)"
  unfolding set_state_def using assms by (intro wired_set_my_worker) simp_all

end

context wire_system
begin

lemma sim_upload_req:
  assumes net: "wired net" "net_result net = map_option (published Rt) res" and m: "means (UploadReq h req) t"
  shows "simulates net res (UploadReq h req) t"
proof -
  let ?w = "rt_worker Rt h"
  obtain cid c wt tok where req: "ur_client_id req = Some cid" "(client_from_proto cid :: ('fr, 'sp) client_info option) = Some c"
      "ur_write_token req = Some wt" "wire_token_from W wt = Some (Inr tok)" "token_ok tok" "?w \<in> WS"
      "peers ?w (client_idx c) \<noteq> None" "t = Upload ?w (client_idx c) tok"
    using m by auto
  obtain shards where sh: "peers ?w (client_idx c) = Some shards" using req(7) by blast
  obtain m where m: "mw_services (net_workers net ?w) = Some m" "\<forall>w' \<in> WS. \<exists>h. map_of (sm_workers m) w' = Some h \<and> rt_worker Rt h = w'"
    using wiredD(1)[OF net(1) req(6)] by blast
  have reg: "map_of (cr_peers (ws_client_registry (mw_state (net_workers net ?w)))) (client_idx c) = Some shards"
    using wiredD(4)[OF net(1) req(6)] sh by simp
  let ?hs = "map (\<lambda>w. the (map_of (sm_workers m) w)) shards"
  have "set shards \<subseteq> WS" using peers_ok[OF req(6) sh] by simp
  then have "\<forall>w \<in> set shards. \<exists>h. map_of (sm_workers m) w = Some h \<and> rt_worker Rt h = w" using m(2) by blast
  then have "\<forall>w \<in> set shards. map_of (sm_workers m) w \<noteq> None \<and> rt_worker Rt (the (map_of (sm_workers m) w)) = w" by auto
  then have known: "\<forall>w \<in> set shards. map_of (sm_workers m) w \<noteq> None" "map (rt_worker Rt) ?hs = shards"
    by (simp_all add: map_idI)
  have "handle_upload req (net_workers net ?w) = Some (Inr (client_idx c, cid, wt, ?hs))"
    using req(1-3) known(1) reg m(1)
    by (simp add: handle_upload_def expect_field_def and_then_def my_worker_get_peers_def registry_get_peers_def collect_peers_ok)
  then have run: "net_runs T A W Rt (UploadReq h req) net = Some ([UploadTask ?w (client_idx c, cid, wt, ?hs)], net)"
    by (simp add: net_upload_def)
  moreover have "means (UploadTask ?w (client_idx c, cid, wt, ?hs)) t" using req sh known(2) by auto
  ultimately show ?thesis using net unfolding simulates_def by auto
qed

lemma sim_upload_task:
  assumes net: "wired net" "net_result net = map_option (published Rt) res" and m: "means (UploadTask w task) t"
  shows "simulates net res (UploadTask w task) t"
proof -
  obtain c cid wt tok hs where task: "task = (client_idx c, cid, wt, hs)" "(client_from_proto cid :: ('fr, 'sp) client_info option) = Some c"
      "wire_token_from W wt = Some (Inr tok)" "token_ok tok" "w \<in> WS" "peers w (client_idx c) = Some (map (rt_worker Rt) hs)"
      "t = Upload w (client_idx c) tok"
    using m by auto
  let ?ws = "upload_init (client_idx c) tok (mw_state (net_workers net w))"
  have reg: "registry_get_peers (client_idx c) (ws_client_registry (mw_state (net_workers net w))) = Inr (map (rt_worker Rt) hs)"
    using wiredD(4)[OF net(1) task(5)] task(6) by (simp add: registry_get_peers_def)
  have sub: "set (map (rt_worker Rt) hs) \<subseteq> WS" using peers_ok[OF task(5,6)] by simp
  show ?thesis
  proof (cases "proto_gen_audit T keys tok")
    case None
    then have "net_runs T A W Rt (UploadTask w task) net = None" "runs t (sys_of net res) = None"
      using task reg wiredD(3)[OF net(1) task(5)]
      by (simp_all add: net_upload_task_def upload_task_def worker_upload_def Let_def run_upload_def)
    then show ?thesis by (simp add: simulates_def)
  next
    case (Some ss)
    have up: "worker_upload T (wire_key_from W) (client_idx c) tok (mw_state (net_workers net w)) = Some (ss, ?ws)"
      using Some wiredD(3)[OF net(1) task(5)] by (simp add: worker_upload_def Let_def)
    let ?ps = "map (\<lambda>(h, s). VerifyReq h \<lparr> vr_client_id = Some cid, vr_audit_share = Some (wire_share_into W s) \<rparr>) (zip hs ss)"
    have run: "net_runs T A W Rt (UploadTask w task) net = Some (?ps, set_state w ?ws net)"
      using up task by (simp add: net_upload_task_def upload_task_def comp_def split_def)
    have abs: "runs t (sys_of net res) = Some (map (\<lambda>(p, s). Verify p (client_idx c) s) (zip (map (rt_worker Rt) hs) ss),
        set_worker w ?ws (sys_of net res))"
      using up task(7) reg by (simp add: run_upload_def)
    have "list_all2 means ?ps (map (\<lambda>(p, s). Verify p (client_idx c) s) (zip (map (rt_worker Rt) hs) ss))"
    proof (intro list_all2_all_nthI)
      fix i
      assume "i < length ?ps"
      then have i: "i < length hs" "i < length ss" by simp_all
      have "rt_worker Rt (hs ! i) \<in> WS" using sub i(1) by (auto simp: subset_iff)
      moreover have "wire_share_from W (wire_share_into W (ss ! i)) = Some (Inr (ss ! i))" using share_wire[OF task(4) Some] i(2) by simp
      ultimately show "means (?ps ! i) (map (\<lambda>(p, s). Verify p (client_idx c) s) (zip (map (rt_worker Rt) hs) ss) ! i)"
        using i task(2) by simp
    qed simp
    moreover have "wired (set_state w ?ws net)" using net(1) by (intro wired_set_state) simp_all
    ultimately show ?thesis using run abs net(2) unfolding simulates_def by auto
  qed
qed

lemma sim_verify_req:
  assumes net: "wired net" "net_result net = map_option (published Rt) res" and m: "means (VerifyReq h req) t"
  shows "simulates net res (VerifyReq h req) t"
proof -
  let ?w = "rt_worker Rt h"
  obtain cid c as s where req: "vr_client_id req = Some cid" "(client_from_proto cid :: ('fr, 'sp) client_info option) = Some c"
      "vr_audit_share req = Some as" "wire_share_from W as = Some (Inr s)" "?w \<in> WS" "t = Verify ?w (client_idx c) s"
    using m by auto
  obtain m where m: "mw_services (net_workers net ?w) = Some m" "leader_ok Rt ?w (sm_leader m)" using wiredD(1)[OF net(1) req(5)] by blast
  obtain st mw where st: "my_worker_get_start_time (net_workers net ?w) = (st, mw)" by fastforce
  have mw: "mw_state mw = mw_state (net_workers net ?w)" "mw_services mw = mw_services (net_workers net ?w)"
    using start_time_cached[OF st] by simp_all
  obtain l where l: "sm_leader m = Some l" using m(2) by (auto simp: leader_ok_def)
  have "handle_verify W req (net_workers net ?w) = Some (Inr ((client_idx c, s, Some l, st), mw))"
    using req(1-4) st mw m(1) l wiredD(2)[OF net(1) req(5)]
    by (simp add: handle_verify_def expect_field_def and_then_def service_get_my_leader_def)
  then have run: "net_runs T A W Rt (VerifyReq h req) net = Some ([VerifyTask ?w (client_idx c) s (Some l, st)], set_my_worker ?w mw net)"
    by (simp add: net_verify_def Let_def)
  moreover have "means (VerifyTask ?w (client_idx c) s (Some l, st)) t" using req m(2) l by simp
  moreover have "wired (set_my_worker ?w mw net)" using net(1) mw by (intro wired_set_my_worker) simp_all
  moreover have "sys_of (set_my_worker ?w mw net) res = sys_of net res" "net_result (set_my_worker ?w mw net) = net_result net"
    using mw by (simp_all add: sys_of_def set_my_worker_def fun_eq_iff)
  ultimately show ?thesis using net(2) unfolding simulates_def by auto
qed

end

context wire_system
begin

text \<open>The pieces of \<open>verify\<close>: the same on both sides, up to the leader's handle.\<close>

lemma simulates_local:
  assumes net: "wired net" "net_result net = map_option (published Rt) res"
    and run: "net_runs T A W Rt p net = map_option (\<lambda>(x, ws). (f x, set_state w ws net)) r"
    and abs: "runs t (sys_of net res) = map_option (\<lambda>(x, ws). (g x, set_worker w ws (sys_of net res))) r"
    and ok: "\<And>x ws. r = Some (x, ws) \<Longrightarrow> list_all2 means (f x) (g x)
      \<and> ws_experiment ws = ws_experiment (mw_state (net_workers net w))
      \<and> ws_client_registry ws = ws_client_registry (mw_state (net_workers net w))"
  shows "simulates net res p t"
proof (cases r)
  case None
  then show ?thesis using run abs by (simp add: simulates_def)
next
  case (Some xw)
  obtain x ws where xw: "xw = (x, ws)" by fastforce
  have "wired (set_state w ws net)" using ok[of x ws] Some xw net(1) by (intro wired_set_state) simp_all
  then show ?thesis using run abs ok[of x ws] Some xw net(2) unfolding simulates_def by auto
qed

lemma sim_verify_task:
  assumes net: "wired net" "net_result net = map_option (published Rt) res" and m: "means (VerifyTask w c s ctx) t"
  shows "simulates net res (VerifyTask w c s ctx) t"
  using net
proof (rule simulates_local)
  let ?r = "Some (verify_add c s (mw_state (net_workers net w)))"
  show "net_runs T A W Rt (VerifyTask w c s ctx) net
      = map_option (\<lambda>(n, ws). (if n < proto_num_parties T then [] else [DrainTask w c ctx], set_state w ws net)) ?r"
    by (simp add: net_verify_task_def Let_def split_def)
  show "runs t (sys_of net res)
      = map_option (\<lambda>(n, ws). (if n < proto_num_parties T then [] else [Drain w c], set_worker w ws (sys_of net res))) ?r"
    using m by (simp add: run_verify_def Let_def split_def)
  fix n ws
  assume r: "?r = Some (n, ws)"
  have "ws = snd (verify_add c s (mw_state (net_workers net w)))" using r by simp
  then show "list_all2 means (if n < proto_num_parties T then [] else [DrainTask w c ctx]) (if n < proto_num_parties T then [] else [Drain w c])
      \<and> ws_experiment ws = ws_experiment (mw_state (net_workers net w))
      \<and> ws_client_registry ws = ws_client_registry (mw_state (net_workers net w))"
    using m by simp
qed

lemma sim_drain:
  assumes net: "wired net" "net_result net = map_option (published Rt) res" and m: "means (DrainTask w c ctx) t"
  shows "simulates net res (DrainTask w c ctx) t"
  using net
proof (rule simulates_local)
  let ?r = "do { ((verify, token), ws) \<leftarrow> verify_drain T c (mw_state (net_workers net w)); expanded \<leftarrow> verify_expand T token; Some (expanded, ws) }"
  show "net_runs T A W Rt (DrainTask w c ctx) net = map_option (\<lambda>(x, ws). (case x of Inl err \<Rightarrow> [] | Inr acc \<Rightarrow> [AccumulateTask w c acc ctx], set_state w ws net)) ?r"
    by (simp add: net_drain_def split_def map_conv_bind_option comp_def)
  show "runs t (sys_of net res) = map_option (\<lambda>(x, ws). (case x of Inl err \<Rightarrow> [] | Inr acc \<Rightarrow> [Accumulate w c acc], set_worker w ws (sys_of net res))) ?r"
    using m by (simp add: run_drain_def split_def map_conv_bind_option comp_def)
  fix x ws
  assume "?r = Some (x, ws)"
  then obtain v token where "verify_drain T c (mw_state (net_workers net w)) = Some ((v, token), ws)" by (auto simp: bind_eq_Some_conv)
  then show "list_all2 means (case x of Inl err \<Rightarrow> [] | Inr acc \<Rightarrow> [AccumulateTask w c acc ctx]) (case x of Inl err \<Rightarrow> [] | Inr acc \<Rightarrow> [Accumulate w c acc])
      \<and> ws_experiment ws = ws_experiment (mw_state (net_workers net w))
      \<and> ws_client_registry ws = ws_client_registry (mw_state (net_workers net w))"
    using m by (auto simp: verify_drain_def bind_eq_Some_conv split: sum.splits)
qed

lemma sim_accumulate:
  assumes net: "wired net" "net_result net = map_option (published Rt) res" and m: "means (AccumulateTask w c acc ctx) t"
  shows "simulates net res (AccumulateTask w c acc ctx) t"
  using net
proof (rule simulates_local)
  let ?r = "verify_accumulate A acc (mw_state (net_workers net w))"
  show "net_runs T A W Rt (AccumulateTask w c acc ctx) net = map_option (\<lambda>(n, ws). ([ReportTask w n ctx], set_state w ws net)) ?r"
    by (simp add: net_accumulate_def split_def map_conv_bind_option comp_def)
  show "runs t (sys_of net res) = map_option (\<lambda>(n, ws). ([Report w n], set_worker w ws (sys_of net res))) ?r"
    using m by (simp add: run_accumulate_def split_def map_conv_bind_option comp_def)
  fix n ws
  assume "?r = Some (n, ws)"
  then show "list_all2 means [ReportTask w n ctx] [Report w n] \<and> ws_experiment ws = ws_experiment (mw_state (net_workers net w))
      \<and> ws_client_registry ws = ws_client_registry (mw_state (net_workers net w))"
    using m by (auto simp: verify_accumulate_def bind_eq_Some_conv)
qed

lemma sim_report:
  assumes net: "wired net" "net_result net = map_option (published Rt) res" and m: "means (ReportTask w n ctx) t"
  shows "simulates net res (ReportTask w n ctx) t"
proof -
  obtain h where h: "fst ctx = Some h" "rt_leader Rt h = worker_group w" and t: "t = Report w n" and w: "w \<in> WS"
    using m by (auto simp: leader_ok_def)
  let ?ws = "mw_state (net_workers net w)"
  let ?ps = "\<lambda>v. case v of AllClientsVerified acc \<Rightarrow> [LeaderReq h \<lparr> ag_share = Some (share_of_accumulator (wire_acc_into W) acc) \<rparr>] | _ \<Rightarrow> []"
    and ?ts = "\<lambda>v. case v of AllClientsVerified acc \<Rightarrow> [ToLeader (worker_group w) acc] | _ \<Rightarrow> []"
  have "net_runs T A W Rt (ReportTask w n ctx) net = Some (?ps (verify_report n ?ws), net)"
    using h by (simp add: net_report_eq split: verify_status.splits)
  moreover have "runs t (sys_of net res) = Some (?ts (verify_report n ?ws), sys_of net res)"
    by (simp add: t run_report_eq split: verify_status.splits)
  moreover have "(\<forall>u \<in> set (?ts v). sum_ok acc_ok u) \<longrightarrow> list_all2 means (?ps v) (?ts v)" for v
    using h w by (cases v) (auto simp: into_eq acc_wire)
  ultimately show ?thesis using net by (rule simulatesI)
qed

lemma sim_leader_req:
  assumes net: "wired net" "net_result net = map_option (published Rt) res" and m: "means (LeaderReq h req) t"
  shows "simulates net res (LeaderReq h req) t"
proof -
  let ?g = "rt_leader Rt h"
  obtain share acc where req: "ag_share req = Some share" "rt_from_share Rt share = Inr acc" "?g \<in> worker_group ` WS" "t = ToLeader ?g acc"
    using m by auto
  obtain pub where "ml_publisher (net_leaders net ?g) = Some pub" using net(1) req(3) unfolding net_ok_def by blast
  then have "net_runs T A W Rt (LeaderReq h req) net = Some ([LeaderTask ?g (share, pub)], net)"
    using req(1) by (simp add: net_leader_def handle_aggregate_worker_def expect_field_def and_then_def Let_def)
  moreover have "means (LeaderTask ?g (share, pub)) t" using req by simp
  ultimately show ?thesis using net unfolding simulates_def by auto
qed

lemma sim_leader_task:
  assumes net: "wired net" "net_result net = map_option (published Rt) res" and m: "means (LeaderTask g task) t"
  shows "simulates net res (LeaderTask g task) t"
proof -
  obtain share pub where task: "task = (share, pub)" by fastforce
  obtain data where data: "rt_from_share Rt share = Inr data" "t = ToLeader g data" "g \<in> worker_group ` WS" using m task by auto
  let ?ml = "net_leaders net g"
  show ?thesis
  proof (cases "aggregate_share A (ml_total_workers ?ml) data (ml_accumulator ?ml)")
    case None
    then show ?thesis
      using data task by (simp add: simulates_def net_leader_task_def aggregate_worker_task_def run_leader_def)
  next
    case (Some fa)
    obtain complete acc where fa: "fa = (complete, acc)" by fastforce
    let ?net = "net\<lparr> net_leaders := (net_leaders net)(g := ?ml\<lparr> ml_accumulator := acc \<rparr>) \<rparr>"
    let ?ps = "if complete then [LeaderGetTask g pub] else []" and ?ts = "if complete then [LeaderGet g] else []"
    have "net_runs T A W Rt (LeaderTask g task) net = Some (?ps, ?net)"
      using data(1) task Some fa by (cases complete) (simp_all add: net_leader_task_def aggregate_worker_task_def)
    moreover have "runs t (sys_of net res) = Some (?ts, sys_of ?net res)"
      using data(2) Some fa by (simp add: run_leader_def Let_def) (simp add: sys_of_def fun_eq_iff)
    moreover have "(\<forall>u \<in> set ?ts. sum_ok acc_ok u) \<longrightarrow> list_all2 means ?ps ?ts" using data(3) by simp
    moreover have "wired ?net" using net(1) by (auto simp: net_ok_def)
    moreover have "net_result ?net = map_option (published Rt) res" using net(2) by simp
    ultimately show ?thesis by (rule simulatesI)
  qed
qed

lemma sim_leader_get:
  assumes net: "wired net" "net_result net = map_option (published Rt) res" and m: "means (LeaderGetTask g h) t"
  shows "simulates net res (LeaderGetTask g h) t"
proof -
  let ?acc = "accumulator_get (ml_accumulator (net_leaders net g))"
  have "net_runs T A W Rt (LeaderGetTask g h) net
      = Some ([PublisherReq h \<lparr> ag_share = Some (share_of_accumulator (rt_into Rt) ?acc) \<rparr>], net)"
    by (simp add: net_leader_get_def forward_group_share_def)
  moreover have "runs t (sys_of net res) = Some ([ToPublisher ?acc], sys_of net res)" using m by (simp add: run_leader_get_def)
  moreover have "(\<forall>u \<in> set [ToPublisher ?acc]. sum_ok acc_ok u) \<longrightarrow>
      list_all2 means [PublisherReq h \<lparr> ag_share = Some (share_of_accumulator (rt_into Rt) ?acc) \<rparr>] [ToPublisher ?acc]"
    by (simp add: acc_wire)
  ultimately show ?thesis using net by (rule simulatesI)
qed

lemma sim_publisher_req:
  assumes net: "wired net" "net_result net = map_option (published Rt) res" and m: "means (PublisherReq h req) t"
  shows "simulates net res (PublisherReq h req) t"
proof -
  obtain share acc where req: "ag_share req = Some share" "rt_from_share Rt share = Inr acc" "t = ToPublisher acc" using m by auto
  then have "net_runs T A W Rt (PublisherReq h req) net = Some ([PublisherTask share], net)"
    by (simp add: net_publish_def handle_aggregate_group_def expect_field_def)
  then show ?thesis using net req unfolding simulates_def by auto
qed

lemma sim_publisher_task:
  assumes net: "wired net" "net_result net = map_option (published Rt) res" and m: "means (PublisherTask share) t"
  shows "simulates net res (PublisherTask share) t"
proof -
  obtain data where data: "rt_from_share Rt share = Inr data" "t = ToPublisher data" using m by auto
  let ?mp = "net_publisher net"
  show ?thesis
  proof (cases "aggregate_share A (mp_total_groups ?mp) data (mp_accumulator ?mp)")
    case None
    then show ?thesis using data by (simp add: simulates_def net_publisher_task_def aggregate_group_task_def run_publisher_def)
  next
    case (Some fa)
    obtain complete acc where fa: "fa = (complete, acc)" by fastforce
    let ?net = "net\<lparr> net_publisher := ?mp\<lparr> mp_accumulator := acc \<rparr> \<rparr>"
    let ?ps = "if complete then [PublisherGetTask] else []" and ?ts = "if complete then [PublisherGet] else []"
    have "net_runs T A W Rt (PublisherTask share) net = Some (?ps, ?net)"
      using data(1) Some fa by (simp add: net_publisher_task_def aggregate_group_task_def)
    moreover have "runs t (sys_of net res) = Some (?ts, sys_of ?net res)"
      using data(2) Some fa by (simp add: run_publisher_def Let_def sys_of_def)
    moreover have "(\<forall>u \<in> set ?ts. sum_ok acc_ok u) \<longrightarrow> list_all2 means ?ps ?ts" by simp
    moreover have "wired ?net" using net(1) by (auto simp: net_ok_def)
    moreover have "net_result ?net = map_option (published Rt) res" using net(2) by simp
    ultimately show ?thesis by (rule simulatesI)
  qed
qed

lemma sim_publisher_get:
  assumes net: "wired net" "net_result net = map_option (published Rt) res" and m: "means PublisherGetTask t"
  shows "simulates net res PublisherGetTask t"
proof -
  let ?acc = "accumulator_get (mp_accumulator (net_publisher net))"
  let ?net = "net\<lparr> net_result := Some (published Rt ?acc) \<rparr>"
  have abs: "runs t (sys_of net res) = Some ([], sys_of ?net (Some ?acc))" using m by (simp add: run_publisher_get_def sys_of_def)
  show ?thesis
  proof (cases "try_map (rt_publish Rt) ?acc")
    case None
    then have "\<not> acc_ok ?acc" using publish_ok by force
    moreover have "net_runs T A W Rt PublisherGetTask net = None" using None by (simp add: net_publisher_get_def recover_result_def)
    ultimately show ?thesis using abs by (simp add: simulates_def)
  next
    case (Some r)
    then have "net_runs T A W Rt PublisherGetTask net = Some ([], ?net)"
      by (simp add: net_publisher_get_def recover_result_def published_def)
    moreover note abs
    moreover have "(\<forall>u \<in> set []. sum_ok acc_ok u) \<longrightarrow> list_all2 means [] []" by simp
    moreover have "wired ?net" using net(1) by (auto simp: net_ok_def)
    moreover have "net_result ?net = map_option (published Rt) (Some ?acc)" by simp
    ultimately show ?thesis by (rule simulatesI)
  qed
qed

lemmas packet_sims = sim_upload_req sim_upload_task sim_verify_req sim_verify_task sim_drain sim_accumulate sim_report
  sim_leader_req sim_leader_task sim_leader_get sim_publisher_req sim_publisher_task sim_publisher_get

lemma packet_simulates:
  assumes "wired net" "net_result net = map_option (published Rt) res" "means p t"
  shows "simulates net res p t"
  using assms by (cases p) (simp_all only: packet_sims)

end

section \<open>Rounds on the wire\<close>

text \<open>What is promised of a round: it is bounded; in every state of it a packet makes a handler or task panic exactly if it divides by
  zero in the log of the throughput; the end can be reached; and at the end the publisher has the result.\<close>

definition net_round_from where
  "net_round_from T A W Rt c0 res \<longleftrightarrow>
     (\<exists>bound. \<forall>n c. (net_step T A W Rt ^^ n) c0 c \<longrightarrow> n \<le> bound)
   \<and> (\<forall>c. (net_step T A W Rt)\<^sup>*\<^sup>* c0 c \<longrightarrow>
        (\<forall>p elapsed_ms. p \<in># snd c \<longrightarrow> (net_run T A W Rt elapsed_ms p (fst c) = None \<longleftrightarrow> net_log_panics elapsed_ms p (fst c)))
      \<and> (\<exists>net. (net_step T A W Rt)\<^sup>*\<^sup>* c (net, {#}))
      \<and> (snd c = {#} \<longrightarrow> net_result (fst c) = Some res))"

lemma rel_mset_list: "list_all2 R xs ys \<Longrightarrow> rel_mset R (mset xs) (mset ys)"
  unfolding rel_mset_def by blast

lemma rel_mset_union: "rel_mset R M N \<Longrightarrow> rel_mset R M' N' \<Longrightarrow> rel_mset R (M + M') (N + N')"
  unfolding rel_mset_def by (metis list_all2_appendI mset_append)

context wire_system
begin

definition related :: "('s, 't, 'm, 'r, 'fr, 'sp) net \<times> ('s, 'm) packet multiset \<Rightarrow> ('s, 't, 'm, 'r, 'fr, 'sp) config_state \<Rightarrow> bool" where
  "related c s \<longleftrightarrow> wired (fst c) \<and> rel_mset means (snd c) (snd s)
     \<and> (\<exists>res. fst s = sys_of (fst c) res \<and> net_result (fst c) = map_option (published Rt) res)"

abbreviation (input) wire_step where
  "wire_step \<equiv> net_step T A W Rt"

abbreviation (input) system_step where
  "system_step \<equiv> sys_step T A (wire_key_from W)"

text \<open>The requests that have not been handled yet.\<close>

definition requests :: "('s, 't, 'm, 'r, 'fr, 'sp) net \<times> ('s, 'm) packet multiset \<Rightarrow> nat" where
  "requests c = size (filter_mset is_request (snd c))"

lemma upload_peers:
  assumes "wired net" "means p (Upload w c tok)"
  shows "\<exists>ps. map_of (cr_peers (ws_client_registry (sys_workers (sys_of net res) w))) c = Some ps \<and> length ps \<le> proto_num_parties T"
proof -
  have "w \<in> WS \<and> peers w c \<noteq> None" using assms(2) by (cases p) auto
  then show ?thesis using wiredD(4)[OF assms(1), of w] peers_ok[of w c] by auto
qed

lemma packet_runs:
  assumes rel: "related c s" and p: "p \<in># snd c" and total: "\<And>t. t \<in># snd s \<Longrightarrow> runs t (fst s) \<noteq> None"
    and sums: "\<And>s'. system_step s s' \<Longrightarrow> pred_option acc_ok (sys_result (fst s'))"
  shows "net_runs T A W Rt p (fst c) \<noteq> None"
proof -
  obtain pool where pool: "snd c = add_mset p pool" using p by (metis mset_add)
  obtain res where net: "wired (fst c)" "fst s = sys_of (fst c) res" "net_result (fst c) = map_option (published Rt) res"
    using rel by (auto simp: related_def)
  obtain t tasks where t: "snd s = add_mset t tasks" "means p t"
    using rel pool msed_rel_invL[of means p pool "snd s"] by (auto simp: related_def)
  then obtain ts sys where run: "runs t (fst s) = Some (ts, sys)" using total[of t] by auto
  have "system_step s (sys, tasks + mset ts)" using sys_step.run[OF run] t(1) by (metis prod.collapse)
  then have "pred_option acc_ok (sys_result sys)" using sums by fastforce
  then show ?thesis using packet_simulates[OF net(1,3) t(2)] run net(2) unfolding simulates_def by metis
qed

text \<open>A step on the wire takes up a request, or is a step of the system, which sends as many requests as there are parties at most.\<close>

lemma step_simulated:
  assumes rel: "related c s" and step: "wire_step c c'"
    and total: "\<And>t. t \<in># snd s \<Longrightarrow> runs t (fst s) \<noteq> None"
    and sums: "\<And>s'. system_step s s' \<Longrightarrow> (\<forall>t. t \<in># snd s' \<longrightarrow> sum_ok acc_ok t) \<and> pred_option acc_ok (sys_result (fst s'))"
  shows "\<exists>s'. related c' s' \<and> (s' = s \<and> requests c' < requests c \<or> system_step s s' \<and> requests c' \<le> requests c + proto_num_parties T + 1)"
proof -
  obtain net p pool ps net' where c: "c = (net, add_mset p pool)" "c' = (net', pool + mset ps)" "net_runs T A W Rt p net = Some (ps, net')"
    using step
  proof (rule net_step_quiet)
    fix p
    assume "p \<in># snd c"
    then show "net_runs T A W Rt p (fst c) \<noteq> None" using packet_runs[OF rel _ total] sums by blast
  qed
  obtain res where net: "wired net" "fst s = sys_of net res" "net_result net = map_option (published Rt) res"
    using rel c(1) by (auto simp: related_def)
  obtain t tasks where t: "snd s = add_mset t tasks" "means p t" "rel_mset means pool tasks"
    using rel c(1) msed_rel_invL[of means p pool "snd s"] by (auto simp: related_def)
  obtain res' where res': "wired net'" "net_result net' = map_option (published Rt) res'"
    "(\<exists>p'. ps = [p'] \<and> is_request p \<and> \<not> is_request p' \<and> means p' t \<and> sys_of net' res' = sys_of net res)
     \<or> (\<exists>ts. runs t (sys_of net res) = Some (ts, sys_of net' res') \<and> ((\<forall>u \<in> set ts. sum_ok acc_ok u) \<longrightarrow> list_all2 means ps ts))"
    using packet_simulates[OF net(1,3) t(2)] c(3) unfolding simulates_def by blast
  from res'(3) show ?thesis
  proof (elim disjE exE conjE)
    fix p'
    assume p': "ps = [p']" "is_request p" "\<not> is_request p'" "means p' t" "sys_of net' res' = sys_of net res"
    have "fst s = sys_of net' res'" using net(2) p'(5) by simp
    then have "related c' s"
      using res'(1,2) rel_mset_Plus[OF p'(4) t(3)] unfolding related_def c(2) t(1) p'(1) by auto
    moreover have "requests c' < requests c" using p' by (simp add: requests_def c)
    ultimately show ?thesis by blast
  next
    fix ts
    assume run: "runs t (sys_of net res) = Some (ts, sys_of net' res')" "(\<forall>u \<in> set ts. sum_ok acc_ok u) \<longrightarrow> list_all2 means ps ts"
    have step': "system_step s (sys_of net' res', tasks + mset ts)"
      using sys_step.run[OF run(1)] t(1) net(2) by (metis prod.collapse)
    have ts: "list_all2 means ps ts" using run(2) sums[OF step'] by simp
    have "related c' (sys_of net' res', tasks + mset ts)"
      using res'(1,2) rel_mset_union[OF t(3) rel_mset_list[OF ts]] by (auto simp: related_def c(2))
    moreover have "length ts \<le> proto_num_parties T + 1"
      by (rule run_task_length[OF run(1)], rule upload_peers[OF net(1)]) (use t(2) in simp)
    then have "requests c' \<le> requests c + proto_num_parties T + 1"
      using list_all2_lengthD[OF ts] size_filter_mset_lesseq[of is_request "mset ps"] by (simp add: requests_def c)
    ultimately show ?thesis using step' by blast
  qed
qed

text \<open>What a round of the system promises, for the simulation.\<close>

lemma round_runs:
  assumes "round_from T A (wire_key_from W) s0 res" "system_step\<^sup>*\<^sup>* s0 s" "t \<in># snd s"
  shows "runs t (fst s) \<noteq> None"
proof -
  have "\<not> log_panics None t (fst s)" by (cases t) (simp_all split: verify_status.splits)
  then show ?thesis using assms unfolding round_from_def by blast
qed

lemma sums_step:
  assumes "sums_from acc_ok T A (wire_key_from W) s0" "system_step\<^sup>*\<^sup>* s0 s" "system_step s s'"
  shows "(\<forall>t. t \<in># snd s' \<longrightarrow> sum_ok acc_ok t) \<and> pred_option acc_ok (sys_result (fst s'))"
  using assms unfolding sums_from_def by (meson rtranclp.rtrancl_into_rtrancl)

lemma steps_simulated:
  assumes "(wire_step ^^ n) c0 c" "related c0 s0"
    and rnd: "round_from T A (wire_key_from W) s0 res" "sums_from acc_ok T A (wire_key_from W) s0"
  shows "\<exists>s k. related c s \<and> (system_step ^^ k) s0 s \<and> n + requests c \<le> k * (proto_num_parties T + 2) + requests c0"
  using assms(1)
proof (induction n arbitrary: c)
  case 0
  then have "c = c0" by simp
  then show ?case using assms(2) by (intro exI[of _ s0] exI[of _ 0]) simp
next
  case (Suc n)
  let ?P = "proto_num_parties T + 2"
  obtain c1 where c1: "(wire_step ^^ n) c0 c1" "wire_step c1 c" using Suc.prems by auto
  obtain s1 k where s1: "related c1 s1" "(system_step ^^ k) s0 s1" "n + requests c1 \<le> k * ?P + requests c0"
    using Suc.IH[OF c1(1)] by blast
  have reach: "system_step\<^sup>*\<^sup>* s0 s1" using s1(2) by (rule relpowp_imp_rtranclp)
  from step_simulated[OF s1(1) c1(2) round_runs[OF rnd(1) reach] sums_step[OF rnd(2) reach]]
  obtain s where "related c s" "s = s1 \<and> requests c < requests c1 \<or> system_step s1 s \<and> requests c \<le> requests c1 + proto_num_parties T + 1"
    by blast
  then show ?case
  proof (elim conjE disjE)
    assume "related c s" "s = s1" "requests c < requests c1"
    then show ?thesis using s1(2,3) by (intro exI[of _ s1] exI[of _ k]) simp
  next
    assume s: "related c s" "system_step s1 s" "requests c \<le> requests c1 + proto_num_parties T + 1"
    have "Suc n + requests c \<le> n + requests c1 + ?P" using s(3) by simp
    also have "\<dots> \<le> Suc k * ?P + requests c0" using s1(3) by simp
    finally have bound: "Suc n + requests c \<le> Suc k * ?P + requests c0" .
    have "(system_step ^^ Suc k) s0 s" using s1(2) s(2) by auto
    then show ?thesis using s(1) bound by blast
  qed
qed

text \<open>Everything that holds of the round of the system holds of the round on the wire.\<close>

lemma net_round:
  assumes rel: "related c0 s0" and rnd: "round_from T A (wire_key_from W) s0 res" and sums: "sums_from acc_ok T A (wire_key_from W) s0"
  shows "net_round_from T A W Rt c0 (map (rt_into Rt) res)"
proof -
  obtain B where B: "\<And>k s. (system_step ^^ k) s0 s \<Longrightarrow> k \<le> B" using rnd unfolding round_from_def by blast
  let ?B = "B * (proto_num_parties T + 2) + requests c0"
  have bound: "n \<le> ?B" if n: "(wire_step ^^ n) c0 c" for n c
  proof -
    obtain s k where "(system_step ^^ k) s0 s" "n + requests c \<le> k * (proto_num_parties T + 2) + requests c0"
      using steps_simulated[OF n rel rnd sums] by blast
    moreover then have "k * (proto_num_parties T + 2) \<le> B * (proto_num_parties T + 2)" using B by (intro mult_le_mono1) blast
    ultimately show ?thesis by linarith
  qed
  have reach: "\<exists>s. related c s \<and> system_step\<^sup>*\<^sup>* s0 s" if "wire_step\<^sup>*\<^sup>* c0 c" for c
    using that steps_simulated[OF _ rel rnd sums] by (metis rtranclp_imp_relpowp relpowp_imp_rtranclp)
  have total: "net_runs T A W Rt p (fst c) \<noteq> None" if c: "wire_step\<^sup>*\<^sup>* c0 c" "p \<in># snd c" for c p
  proof -
    obtain s where s: "related c s" "system_step\<^sup>*\<^sup>* s0 s" using reach[OF c(1)] by blast
    show ?thesis using packet_runs[OF s(1) c(2) round_runs[OF rnd s(2)]] sums_step[OF sums s(2)] by blast
  qed
  have panics: "net_run T A W Rt elapsed_ms p (fst c) = None \<longleftrightarrow> net_log_panics elapsed_ms p (fst c)"
    if c: "wire_step\<^sup>*\<^sup>* c0 c" "p \<in># snd c" for c p elapsed_ms
    using total[OF c] net_run_elapsed[of T A W Rt elapsed_ms p "fst c"] by auto
  have result: "net_result (fst c) = Some (map (rt_into Rt) res)" if c: "wire_step\<^sup>*\<^sup>* c0 c" "snd c = {#}" for c
  proof -
    obtain s where s: "related c s" "system_step\<^sup>*\<^sup>* s0 s" using reach[OF c(1)] by blast
    then have "snd s = {#}" using c(2) by (simp add: related_def)
    then have "sys_result (fst s) = Some res" using s(2) rnd unfolding round_from_def by blast
    then show ?thesis using s(1) publish_ok[OF sums_result[OF rnd sums]] by (auto simp: related_def published_def)
  qed
  have ending: "\<exists>net. wire_step\<^sup>*\<^sup>* c (net, {#})" if c: "(wire_step ^^ n) c0 c" for n c
    using c
  proof (induction "?B - n" arbitrary: n c rule: less_induct)
    case less
    have c: "wire_step\<^sup>*\<^sup>* c0 c" using less.prems by (rule relpowp_imp_rtranclp)
    show ?case
    proof (cases "snd c = {#}")
      case True
      then show ?thesis by (metis prod.collapse rtranclp.rtrancl_refl)
    next
      case False
      then obtain p pool where p: "snd c = add_mset p pool" by (meson multiset_cases)
      then obtain ps net' where "net_runs T A W Rt p (fst c) = Some (ps, net')" using total[OF c, of p] by auto
      then have step: "wire_step c (net', pool + mset ps)" using net_step.run[of T A W Rt "\<lambda>_. 1" p "fst c"] p by (metis prod.collapse)
      then have n: "(wire_step ^^ Suc n) c0 (net', pool + mset ps)" using less.prems by auto
      have "?B - Suc n < ?B - n" using bound[OF n] by linarith
      from less.hyps[OF this n] show ?thesis using step by (meson converse_rtranclp_into_rtranclp)
    qed
  qed
  have "\<exists>net. wire_step\<^sup>*\<^sup>* c (net, {#})" if "wire_step\<^sup>*\<^sup>* c0 c" for c
    using ending that by (metis rtranclp_imp_relpowp)
  then show ?thesis unfolding net_round_from_def using bound panics result by blast
qed

end

section \<open>The uploads of a round\<close>

text \<open>The uploads of the clients, each given by its description, the handles of its workers and its tokens.\<close>

definition wire_uploads ::
    "('t \<Rightarrow> proto_write_token) \<Rightarrow> (('fr, 'sp) client_info \<times> string list \<times> 't list) list \<Rightarrow> ('s, 'm) packet list" where
  "wire_uploads token_into cs =
     concat (map (\<lambda>(info, hs, tokens). map (\<lambda>(h, req). UploadReq h req) (viewer_uploads token_into info hs tokens)) cs)"

text \<open>The plan of \<open>System\<close> for these clients.\<close>

definition wire_plan :: "'m routes \<Rightarrow> (('fr, 'sp) client_info \<times> string list \<times> 't list) list \<Rightarrow> 't client_plan list" where
  "wire_plan Rt cs = map (\<lambda>(info, hs, tokens). (client_idx info, map (rt_worker Rt) hs, tokens)) cs"

lemma list_all2_concat_map: "(\<And>x. x \<in> set xs \<Longrightarrow> list_all2 R (f x) (g x)) \<Longrightarrow> list_all2 R (concat (map f xs)) (concat (map g xs))"
  by (induction xs) (auto intro: list_all2_appendI)

context wire_system
begin

lemma uploads_related:
  assumes "\<And>info hs tokens h t. (info, hs, tokens) \<in> set cs \<Longrightarrow> (h, t) \<in> set (zip hs tokens) \<Longrightarrow>
      token_ok t \<and> rt_worker Rt h \<in> WS \<and> peers (rt_worker Rt h) (client_idx info) \<noteq> None"
  shows "list_all2 means (wire_uploads token_into (cs :: (('fr, 'sp) client_info \<times> string list \<times> 't list) list)) (plan_uploads (wire_plan Rt cs))"
proof -
  have plan: "plan_uploads (wire_plan Rt cs)
      = concat (map (\<lambda>(info, hs, tokens). map (\<lambda>(w, t). Upload w (client_idx info) t) (zip (map (rt_worker Rt) hs) tokens)) cs)"
    by (simp add: plan_uploads_def wire_plan_def comp_def split_def)
  show ?thesis
    unfolding wire_uploads_def plan
  proof (rule list_all2_concat_map)
    fix x
    assume x: "x \<in> set cs"
    obtain info hs tokens where [simp]: "x = (info, hs, tokens)" by (cases x)
    have "list_all2 means (map (\<lambda>(h, req). UploadReq h req) (viewer_uploads token_into info hs tokens))
        (map (\<lambda>(w, t). Upload w (client_idx info) t) (zip (map (rt_worker Rt) hs) tokens))"
    proof (rule list_all2_all_nthI)
      fix i
      assume "i < length (map (\<lambda>(h, req). UploadReq h req) (viewer_uploads token_into info hs tokens))"
      then have i: "i < length hs" "i < length tokens" by (simp_all add: viewer_uploads_def)
      then have "(hs ! i, tokens ! i) \<in> set (zip hs tokens)" by (auto simp: set_zip)
      from assms[OF x[unfolded \<open>x = (info, hs, tokens)\<close>] this]
      show "means (map (\<lambda>(h, req). UploadReq h req) (viewer_uploads token_into info hs tokens) ! i)
          (map (\<lambda>(w, t). Upload w (client_idx info) t) (zip (map (rt_worker Rt) hs) tokens) ! i)"
        using i token_wire by (simp add: viewer_uploads_def client_info_new_def)
    qed (simp add: viewer_uploads_def)
    then show "list_all2 means (case x of (info, hs, tokens) \<Rightarrow> map (\<lambda>(h, req). UploadReq h req) (viewer_uploads token_into info hs tokens))
        (case x of (info, hs, tokens) \<Rightarrow> map (\<lambda>(w, t). Upload w (client_idx info) t) (zip (map (rt_worker Rt) hs) tokens))"
      by simp
  qed
qed

end

text \<open>The plan of honest clients.\<close>

lemma honest_plan_wire:
  assumes "honest_plan T keys acts rs (map client_idx infos) (map (map (rt_worker Rt)) hss) = Some plan"
  shows "\<exists>tokens. all_clients T keys acts rs = Some tokens \<and> plan = wire_plan Rt (zip infos (zip hss tokens))"
  using assms by (auto simp: honest_plan_def bind_eq_Some_conv wire_plan_def zip_map1 zip_map2 zip_map_map comp_def split_def)

context wire_protocol
begin

text \<open>With the clients registered, their tokens can be sent, and the workers can send each other shares.\<close>

lemma wire_ready:
  fixes infos :: "('fr, 'sp) client_info list"
  assumes ok: "inputs_ok (proto_num_parties T) workers acts rs (map client_idx infos) (map (map (rt_worker Rt)) hss)"
    and tokens: "\<forall>tk \<in> set tokens. \<forall>t \<in> set tk. token_ok t"
    and peers: "\<And>w. peers w = map_of (rev (registrations (wire_plan Rt (zip infos (zip hss tokens))) w))"
  shows "wire_system T W Rt keys token_ok acc_ok token_into (set workers) peers"
    and "(info, hs, tk) \<in> set (zip infos (zip hss tokens)) \<Longrightarrow> (h, t) \<in> set (zip hs tk) \<Longrightarrow>
      token_ok t \<and> rt_worker Rt h \<in> set workers \<and> peers (rt_worker Rt h) (client_idx info) \<noteq> None"
proof -
  let ?cs = "zip infos (zip hss tokens)" let ?plan = "wire_plan Rt ?cs"
  have shards: "set s \<subseteq> set workers \<and> length s = proto_num_parties T" if p: "(c, s, tk) \<in> set ?plan" for c s tk
  proof -
    obtain info hs where "(info, hs, tk) \<in> set ?cs" "s = map (rt_worker Rt) hs" using p unfolding wire_plan_def by auto
    then have "s \<in> set (map (map (rt_worker Rt)) hss)" by (metis imageI list.set_map set_zip_leftD set_zip_rightD)
    then show ?thesis using ok unfolding inputs_ok_def list_all_iff by blast
  qed
  have "set s \<subseteq> set workers \<and> length s = proto_num_parties T" if "peers w c = Some s" for w c s
  proof -
    have "(c, s) \<in> set (registrations ?plan w)" using that peers by (auto dest: map_of_SomeD)
    then show ?thesis using shards by (auto simp: registrations_def)
  qed
  then show "wire_system T W Rt keys token_ok acc_ok token_into (set workers) peers"
    by (intro wire_system.intro wire_protocol_axioms wire_system_axioms.intro) blast
  show "token_ok t \<and> rt_worker Rt h \<in> set workers \<and> peers (rt_worker Rt h) (client_idx info) \<noteq> None"
    if cs: "(info, hs, tk) \<in> set ?cs" "(h, t) \<in> set (zip hs tk)"
  proof -
    have p: "(client_idx info, map (rt_worker Rt) hs, tk) \<in> set ?plan" using cs(1) unfolding wire_plan_def by force
    have tk: "tk \<in> set tokens" "t \<in> set tk" "h \<in> set hs" using cs by (auto dest: set_zip_leftD set_zip_rightD)
    have "rt_worker Rt h \<in> set workers" using shards[OF p] tk(3) by auto
    moreover have "(client_idx info, map (rt_worker Rt) hs) \<in> set (registrations ?plan (rt_worker Rt h))"
      using p tk(3) by (force simp: registrations_def)
    then have "client_idx info \<in> fst ` set (rev (registrations ?plan (rt_worker Rt h)))" by force
    then have "peers (rt_worker Rt h) (client_idx info) \<noteq> None" unfolding peers by (simp only: map_of_eq_None_iff not_not)
    ultimately show ?thesis using tokens tk(1,2) by blast
  qed
qed

end

end
