(* ===== verification/Messages.thy ===== *)
theory Messages
  imports Wire
begin

text \<open>
  The messages of the three protocols on the wire: the conversions of \<open>secure.rs\<close> keep the promises of \<open>wire_protocol\<close>, for
  the tokens that honest clients send, the shares that workers make from them and the sums they aggregate. Tokens are good
  when their parts are of the right number and reduced; honest clients send good tokens, and the shares made from good
  tokens are reduced.
\<close>

section \<open>The tokens of honest clients\<close>

lemma wrapper_tokens:
  assumes tokens: "all_clients (wrapper_protocol V) keys acts rs = Some tokens" "ts \<in> set tokens" "t \<in> set ts"
    and acts: "list_all (action_valid valid n) acts" and keys: "vec_valid validA n keys"
    and broadcast: "\<And>m j key r ts r'. valid m \<Longrightarrow> j < n \<Longrightarrow> validA key \<Longrightarrow> wrapper_broadcast V m j key r = Some (ts, r') \<Longrightarrow>
      t \<in> set ts \<Longrightarrow> ok t"
    and cover: "\<And>r ts r'. wrapper_cover V r = Some (ts, r') \<Longrightarrow> t \<in> set ts \<Longrightarrow> ok t"
  shows "ok t"
proof -
  have "list_all2 (\<lambda>x y. (\<lambda>(a, r). map_option fst (client_tokens (wrapper_protocol V) keys a r)) x = Some y) (zip acts rs) tokens"
    using tokens(1) unfolding all_clients_def by (rule try_map_list_all2)
  then have all: "length (zip acts rs) = length tokens"
    "\<And>i. i < length (zip acts rs) \<Longrightarrow> map_option fst (client_tokens (wrapper_protocol V) keys (acts ! i) (rs ! i)) = Some (tokens ! i)"
    unfolding list_all2_conv_all_nth by simp_all
  obtain i where "i < length tokens" "ts = tokens ! i" using tokens(2) by (auto simp: in_set_conv_nth)
  then have i: "i < length (zip acts rs)" "map_option fst (client_tokens (wrapper_protocol V) keys (acts ! i) (rs ! i)) = Some ts"
    using all by simp_all
  then obtain r' where run: "client_tokens (wrapper_protocol V) keys (acts ! i) (rs ! i) = Some (ts, r')" by auto
  have act: "action_valid valid n (acts ! i)" using acts i(1) by (simp add: list_all_length)
  show ?thesis
  proof (cases "acts ! i")
    case (Broadcast j m)
    then have m: "j < n" "valid m" using act by simp_all
    then have "validA (keys ! j)" "vec_get keys j = Some (keys ! j)" using keys by (auto simp: vec_valid_def list_all_length)
    moreover then have "wrapper_broadcast V m j (keys ! j) (rs ! i) = Some (ts, r')" using run Broadcast by simp
    ultimately show ?thesis using broadcast m tokens(3) by blast
  next
    case Cover
    then have "wrapper_cover V (rs ! i) = Some (ts, r')" using run by simp
    then show ?thesis using cover tokens(3) by blast
  qed
qed

section \<open>The messages of the two-server protocol\<close>

text \<open>Tokens whose parts can be sent: as many bits and seeds as channels, seeds of the right size and reduced scalars.\<close>

definition two_key_token_ok ::
    "('s \<Rightarrow> bool) \<Rightarrow> ('f \<Rightarrow> bool) \<Rightarrow> nat \<Rightarrow> (('o, 's) two_key, 'f proof_share) write_token \<Rightarrow> bool" where
  "two_key_token_ok validS validF n t \<longleftrightarrow> length (tk_bits (wt_key t)) = n \<and> length (tk_seeds (wt_key t)) = n
     \<and> list_all validS (tk_seeds (wt_key t)) \<and> validF (ps_seed (wt_proof t)) \<and> validF (ps_bit (wt_proof t))"

context two_key_vdpf_setup
begin

lemma audit_share_valid:
  assumes auths: "vec_valid validF n auths" and t: "two_key_token_ok validS validF n t"
    and ss: "wrapper_gen_audit V auths t = Some ss" "s \<in> set ss"
  shows "validF (tok_seed (share_token s))" "validF (tok_bit (share_token s))"
proof -
  let ?k = "wt_key t"
  have key: "?k = two_key_key (tk_encoded_msg ?k) (tk_bits ?k) (tk_seeds ?k)" by (simp add: two_key_key_def)
  have auths': "length auths = n" "list_all validF auths" using auths by (simp_all add: vec_valid_def)
  have "vdpf_gen_audit V auths ?k (wt_proof t) = two_key_gen_audit F to_field H as_ref auths ?k (wt_proof t)"
    by (simp add: two_key_vdpf_ops_def)
  also have "\<dots> = Some (token_new (m_add F (dot F (map toF (tk_seeds ?k)) auths) (ps_seed (wt_proof t)))
      (m_add F (dot_bits F (tk_bits ?k) auths) (ps_bit (wt_proof t))) (message_hash H (as_ref (tk_encoded_msg ?k))))"
    using t auths'(1) by (subst key, subst gen_audit_eq) (simp_all add: two_key_token_ok_def)
  finally have "share_token s = token_new (m_add F (dot F (map toF (tk_seeds ?k)) auths) (ps_seed (wt_proof t)))
      (m_add F (dot_bits F (tk_bits ?k) auths) (ps_bit (wt_proof t))) (message_hash H (as_ref (tk_encoded_msg ?k)))"
    using ss by (auto simp: wrapper_gen_audit_def bind_eq_Some_conv)
  moreover have "list_all validF (map toF (tk_seeds ?k))" using t toF_valid by (auto simp: two_key_token_ok_def list_all_iff)
  ultimately show "validF (tok_seed (share_token s))" "validF (tok_bit (share_token s))"
    using t auths'(2) by (simp_all add: token_new_def two_key_token_ok_def F.add_valid F.dot_valid F.dot_bits_valid)
qed

lemma broadcast_tokens_ok:
  assumes run: "wrapper_broadcast V msg idx key r = Some (tokens, r')" and key: "validF key" and t: "t \<in> set tokens"
  shows "two_key_token_ok validS validF n t"
proof -
  obtain ks r1 ps where ks: "dpf_gen V msg idx r = Some (ks, r1)" "vdpf_gen_proofs V key idx ks r1 = Some (ps, r')"
      "tokens = map2 write_token_new ks ps"
    using run by (auto simp: wrapper_broadcast_def bind_eq_Some_conv)
  have "two_key_gen X g (two_key_new P n) msg idx r = Some (ks, r1)" using ks(1) by (simp add: two_key_vdpf_ops_def)
  then obtain m bits seeds fresh where k: "length bits = n" "length seeds = n" "list_all validS seeds" "validS fresh" "idx < n"
    "ks = [two_key_key m bits seeds, two_key_key m (bits[idx := \<not> bits ! idx]) (seeds[idx := fresh])]"
    by (rule two_key_gen_shape)
  obtain p r2 where p: "sample r1 = (p, r2)" by fastforce
  obtain q r3 where q: "sample r2 = (q, r3)" by fastforce
  have pq: "validF p" "validF q" using sample_valid p q by (auto dest: sampler_inD)
  have seed: "validS (seeds ! idx)" using k by (simp add: list_all_length)
  have "two_key_gen_proofs F sample to_field key idx ks r1 = Some (ps, r')" using ks(2) by (simp add: two_key_vdpf_ops_def)
  then have "ps = [proof_share_new (m_add F q (f_mul F (toF fresh) key)) p,
      proof_share_new (m_add F q (f_mul F (toF (seeds ! idx)) key)) (if bits ! idx then m_add F p key else g_sub F p key)]"
    using k seed by (simp add: two_key_gen_proofs_def p q to_field_eq)
  then show ?thesis
    using t ks(3) k seed key pq
    by (auto simp: two_key_token_ok_def write_token_new_def two_key_key_def proof_share_new_def list_all_update F.add_valid
        F.mul_valid F.sub_valid toF_valid)
qed

lemma cover_tokens_ok:
  assumes run: "wrapper_cover V r = Some (tokens, r')" and t: "t \<in> set tokens"
  shows "two_key_token_ok validS validF n t"
proof -
  obtain ks r1 ps where ks: "dpf_gen_empty V r = Some (ks, r1)" "vdpf_gen_proofs_noop V r1 = Some (ps, r')"
      "tokens = map2 write_token_new ks ps"
    using run by (auto simp: wrapper_cover_def bind_eq_Some_conv)
  have "two_key_gen_empty g (two_key_new P n) r = Some (ks, r1)" using ks(1) by (simp add: two_key_vdpf_ops_def)
  then obtain m bits seeds where k: "length bits = n" "length seeds = n" "list_all validS seeds"
      "ks = replicate 2 (two_key_key m bits seeds)" by (rule two_key_gen_empty_shape)
  obtain p r2 where p: "sample r1 = (p, r2)" by fastforce
  obtain q r3 where q: "sample r2 = (q, r3)" by fastforce
  have "validF p" "validF q" using sample_valid p q by (auto dest: sampler_inD)
  moreover have "ps = replicate 2 (proof_share_new p q)" using ks(2) by (simp add: two_key_vdpf_ops_def two_key_gen_proofs_noop_def p q)
  ultimately show ?thesis
    using t ks(3) k by (auto simp: two_key_token_ok_def write_token_new_def two_key_key_def proof_share_new_def numeral_2_eq_2)
qed

end

text \<open>The encoder of the clients.\<close>

definition two_key_write_token_into where
  "two_key_write_token_into R = write_token_into (two_key_key_into (\<lambda>b. b) seed_bytes) (two_key_proof_into (scalar_to_bytes R))"

definition bytes_routes :: "bytes routes \<Rightarrow> bool" where
  "bytes_routes Rt \<longleftrightarrow> rt_from_share Rt = bytes_try_from_share \<and> rt_into Rt = (\<lambda>b. b) \<and> rt_publish Rt = Some"

context crypto
begin

lemma two_key_setup_of:
  assumes "two_key_vdpf env channels msg_size = Some V"
  obtains prg where "V = two_key_vdpf_ops F sample (aes_seed_to_auth_key (env_fr env)) (env_hasher env) (\<lambda>b. b) bytes_xor_ops
      (env_gen_bool env) (two_key_new (aes_prg_ops (env_encrypt env) (env_fill env) prg) channels)"
    "two_key_vdpf_setup bytes_bitxor bytes_bitxor_assign (bytes_empty (eval_size prg)) (\<lambda>b. length b = eval_size prg)
     (aes_prg_ops (env_encrypt env) (env_fill env) prg) aes_seed_valid F validS sample
     (aes_seed_to_auth_key (env_fr env)) (\<lambda>s. the (scalar_from_aes_seed (env_fr env) s))"
  using assms two_key_setup by (auto simp: two_key_vdpf_def bind_eq_Some_conv)

text \<open>Honest clients send tokens of this kind.\<close>

lemma two_key_tokens_ok:
  assumes V: "two_key_vdpf env channels msg_size = Some V" and keys: "vec_valid validS channels keys"
    and acts: "list_all (action_valid (\<lambda>b. length b = msg_size) channels) acts"
    and tokens: "all_clients (wrapper_protocol V) keys acts rs = Some tokens" "ts \<in> set tokens" "t \<in> set ts"
  shows "two_key_token_ok aes_seed_valid validS channels t"
proof -
  obtain prg where prg: "V = two_key_vdpf_ops F sample (aes_seed_to_auth_key (env_fr env)) (env_hasher env) (\<lambda>b. b) bytes_xor_ops
      (env_gen_bool env) (two_key_new (aes_prg_ops (env_encrypt env) (env_fill env) prg) channels)"
    and inst: "two_key_vdpf_setup bytes_bitxor bytes_bitxor_assign (bytes_empty (eval_size prg)) (\<lambda>b. length b = eval_size prg)
     (aes_prg_ops (env_encrypt env) (env_fill env) prg) aes_seed_valid F validS sample
     (aes_seed_to_auth_key (env_fr env)) (\<lambda>s. the (scalar_from_aes_seed (env_fr env) s))"
    using V by (rule two_key_setup_of)
  show ?thesis
  proof (rule wrapper_tokens[OF tokens acts keys])
    fix m j key r ts r'
    assume "validS key" "wrapper_broadcast V m j key r = Some (ts, r')" "t \<in> set ts"
    then show "two_key_token_ok aes_seed_valid validS channels t"
      using two_key_vdpf_setup.broadcast_tokens_ok[OF inst] by (simp add: prg bytes_xor_ops_def)
  next
    fix r ts r'
    assume "wrapper_cover V r = Some (ts, r')" "t \<in> set ts"
    then show "two_key_token_ok aes_seed_valid validS channels t"
      using two_key_vdpf_setup.cover_tokens_ok[OF inst] by (simp add: prg bytes_xor_ops_def)
  qed
qed

lemma two_key_wire_protocol:
  assumes V: "two_key_vdpf env channels msg_size = Some V" and keys: "vec_valid validS channels keys" and Rt: "bytes_routes Rt"
  shows "wire_protocol (wrapper_protocol V) (two_key_wire_ops (env_fr env)) Rt keys (two_key_token_ok aes_seed_valid validS channels)
    (\<lambda>_. True) (two_key_write_token_into (env_fr env))"
proof
  obtain prg where prg: "V = two_key_vdpf_ops F sample (aes_seed_to_auth_key (env_fr env)) (env_hasher env) (\<lambda>b. b) bytes_xor_ops
      (env_gen_bool env) (two_key_new (aes_prg_ops (env_encrypt env) (env_fill env) prg) channels)"
    and inst: "two_key_vdpf_setup bytes_bitxor bytes_bitxor_assign (bytes_empty (eval_size prg)) (\<lambda>b. length b = eval_size prg)
     (aes_prg_ops (env_encrypt env) (env_fill env) prg) aes_seed_valid F validS sample
     (aes_seed_to_auth_key (env_fr env)) (\<lambda>s. the (scalar_from_aes_seed (env_fr env) s))"
    using V by (rule two_key_setup_of)
  fix t :: "((bytes, aes_seed) two_key, 'fr scalar proof_share) write_token" and ss s
  assume t: "two_key_token_ok aes_seed_valid validS channels t"
  then show "wire_token_from (two_key_wire_ops (env_fr env)) (two_key_write_token_into (env_fr env) t) = Some (Inr t)"
    using two_key_wire[of t] by (simp add: two_key_token_ok_def two_key_wire_ops_def two_key_write_token_into_def)
  assume ss: "proto_gen_audit (wrapper_protocol V) keys t = Some ss" "s \<in> set ss"
  have "wrapper_gen_audit V keys t = Some ss" using ss(1) by simp
  then have "validS (tok_seed (share_token s))" "validS (tok_bit (share_token s))"
    using two_key_vdpf_setup.audit_share_valid[OF inst keys t _ ss(2)] by (simp_all add: prg bytes_xor_ops_def)
  from audit_share_wire(1)[OF this]
  show "wire_share_from (two_key_wire_ops (env_fr env)) (wire_share_into (two_key_wire_ops (env_fr env)) s) = Some (Inr s)"
    by (simp add: two_key_wire_ops_def)
qed (use Rt in \<open>simp_all add: bytes_routes_def bytes_try_from_share_def share_of_accumulator_def two_key_wire_ops_def try_map_Some\<close>)

end

section \<open>The messages of the protocol with public keys\<close>

text \<open>Tokens have the keys of the two-server protocol, and points as proofs.\<close>

context pub_vdpf_setup
begin

lemma point_laws:
  "validP a \<Longrightarrow> validP b \<Longrightarrow> validP (point_add Q a b)" "validP (point_zero Q)" "validP a \<Longrightarrow> validS s \<Longrightarrow> validP (point_pow Q a s)"
  "validS s \<Longrightarrow> validP (point_from_scalar Q s)"
proof -
  have laws: "comm_monoid_laws (curve_exp Q) validP" using curve_exp_laws by (simp add: exp_laws_def ab_group_laws_def)
  show "validP a \<Longrightarrow> validP b \<Longrightarrow> validP (point_add Q a b)" "validP (point_zero Q)"
    using comm_monoid_laws.add_valid[OF laws] comm_monoid_laws.zero_valid[OF laws] by simp_all
  show pow: "validP a \<Longrightarrow> validS s \<Longrightarrow> validP (point_pow Q a s)" for a s
    using exp_laws.pow_valid[OF curve_exp_laws, of a s] by simp
  show "validS s \<Longrightarrow> validP (point_from_scalar Q s)"
    using pow[of "point_generator Q" s] by (simp add: point_from_scalar_eq point_generator_def sp_consts)
qed

lemma point_fold_valid: "list_all validP ps \<Longrightarrow> validP a \<Longrightarrow> validP (foldl (point_add Q) a ps)"
  by (induction ps arbitrary: a) (simp_all add: point_laws)

lemma pub_share_valid:
  assumes auths: "vec_valid key_pair_valid n auths" and t: "two_key_token_ok validSeed validP n t"
    and ss: "wrapper_gen_audit V auths t = Some ss" "s \<in> set ss"
  shows "validP (tok_seed (share_token s))" "validP (tok_bit (share_token s))"
proof -
  let ?k = "wt_key t" and ?p = "wt_proof t"
  have pub: "validP (kp_public a)" if "a \<in> set auths" for a
    using that auths point_laws(4)[of "kp_private a"] key_pair_public[of a]
    by (auto simp: vec_valid_def list_all_iff key_pair_valid_def point_from_scalar_eq)
  have seeds: "try_map (\<lambda>seed. result_unwrap (to_scalar seed)) (tk_seeds ?k) = Some (map toF (tk_seeds ?k))"
    using t by (intro try_map_eq_map) (auto simp: two_key_token_ok_def list_all_iff to_scalar_eq)
  let ?bits = "map2 (\<lambda>b key. if b then kp_public key else point_zero Q) (tk_bits ?k) auths"
  let ?pows = "map2 (\<lambda>seed key. point_pow Q (kp_public key) seed) (map toF (tk_seeds ?k)) auths"
  have "vdpf_gen_audit V auths ?k ?p = pub_gen_audit Q to_scalar H as_ref auths ?k ?p" by (simp add: pub_vdpf_ops_def)
  also have "\<dots> = Some (token_new (point_add Q (foldl (point_add Q) (point_zero Q) ?pows) (ps_seed ?p))
      (point_add Q (foldl (point_add Q) (point_zero Q) ?bits) (ps_bit ?p)) (message_hash H (as_ref (tk_encoded_msg ?k))))"
    using t auths by (simp add: pub_gen_audit_def two_key_token_ok_def vec_valid_def seeds)
  finally have share: "share_token s = token_new (point_add Q (foldl (point_add Q) (point_zero Q) ?pows) (ps_seed ?p))
      (point_add Q (foldl (point_add Q) (point_zero Q) ?bits) (ps_bit ?p)) (message_hash H (as_ref (tk_encoded_msg ?k)))"
    using ss by (auto simp: wrapper_gen_audit_def bind_eq_Some_conv)
  have "list_all validP ?bits"
    using pub by (auto simp: list_all_iff point_laws dest: set_zip_rightD)
  moreover have "list_all validP ?pows"
  proof -
    have "validP (point_pow Q (kp_public a) x)" if "(x, a) \<in> set (zip (map toF (tk_seeds ?k)) auths)" for x a
      using set_zip_leftD[OF that] set_zip_rightD[OF that] pub t toF_valid by (auto simp: two_key_token_ok_def list_all_iff point_laws)
    then show ?thesis by (auto simp: list_all_iff)
  qed
  ultimately show "validP (tok_seed (share_token s))" "validP (tok_bit (share_token s))"
    using t by (simp_all add: share token_new_def two_key_token_ok_def point_laws point_fold_valid)
qed

lemma pub_broadcast_tokens_ok:
  assumes run: "wrapper_broadcast V msg idx key r = Some (tokens, r')" and key: "validS (kp_private key)" and t: "t \<in> set tokens"
  shows "two_key_token_ok validSeed validP n t"
proof -
  obtain ks r1 ps where ks: "dpf_gen V msg idx r = Some (ks, r1)" "vdpf_gen_proofs V key idx ks r1 = Some (ps, r')"
      "tokens = map2 write_token_new ks ps"
    using run by (auto simp: wrapper_broadcast_def bind_eq_Some_conv)
  have "two_key_gen X g (two_key_new P n) msg idx r = Some (ks, r1)" using ks(1) by (simp add: pub_vdpf_ops_def)
  then obtain m bits seeds fresh where k: "length bits = n" "length seeds = n" "list_all validSeed seeds" "validSeed fresh" "idx < n"
    "ks = [two_key_key m bits seeds, two_key_key m (bits[idx := \<not> bits ! idx]) (seeds[idx := fresh])]"
    by (rule two_key_gen_shape)
  obtain p r2 where p: "sample_p r1 = (p, r2)" by fastforce
  obtain q r3 where q: "sample_p r2 = (q, r3)" by fastforce
  have pq: "validP p" "validP q" using sample_p_valid p q by (auto dest: sampler_inD)
  have seed: "validSeed (seeds ! idx)" using k by (simp add: list_all_length)
  have mul: "validS (scalar_mul R (toF x) (kp_private key))" if "validSeed x" for x
    using comm_ring_laws.mul_valid[OF scalar_ring toF_valid[OF that] key] by simp
  have "pub_gen_proofs R Q sample_p to_scalar key idx ks r1 = Some (ps, r')" using ks(2) by (simp add: pub_vdpf_ops_def)
  then obtain ba bb where ps: "ps = [proof_share_new (point_add Q q (point_from_scalar Q (scalar_mul R (toF fresh) (kp_private key)))) ba,
      proof_share_new (point_add Q q (point_from_scalar Q (scalar_mul R (toF (seeds ! idx)) (kp_private key)))) bb]"
      "validP ba" "validP bb"
    using k seed pq key point_laws(1,4)
    by (cases "bits ! idx") (auto simp: pub_gen_proofs_def p q to_scalar_eq)
  then show ?thesis
    using t ks(3) k seed pq mul
    by (auto simp: two_key_token_ok_def write_token_new_def two_key_key_def proof_share_new_def list_all_update point_laws)
qed

lemma pub_cover_tokens_ok:
  assumes run: "wrapper_cover V r = Some (tokens, r')" and t: "t \<in> set tokens"
  shows "two_key_token_ok validSeed validP n t"
proof -
  obtain ks r1 ps where ks: "dpf_gen_empty V r = Some (ks, r1)" "vdpf_gen_proofs_noop V r1 = Some (ps, r')"
      "tokens = map2 write_token_new ks ps"
    using run by (auto simp: wrapper_cover_def bind_eq_Some_conv)
  have "two_key_gen_empty g (two_key_new P n) r = Some (ks, r1)" using ks(1) by (simp add: pub_vdpf_ops_def)
  then obtain m bits seeds where k: "length bits = n" "length seeds = n" "list_all validSeed seeds"
      "ks = replicate 2 (two_key_key m bits seeds)" by (rule two_key_gen_empty_shape)
  obtain p r2 where p: "sample_p r1 = (p, r2)" by fastforce
  obtain q r3 where q: "sample_p r2 = (q, r3)" by fastforce
  have "validP p" "validP q" using sample_p_valid p q by (auto dest: sampler_inD)
  moreover have "ps = replicate 2 (proof_share_new p q)" using ks(2) by (simp add: pub_vdpf_ops_def pub_gen_proofs_noop_def p q)
  ultimately show ?thesis
    using t ks(3) k by (auto simp: two_key_token_ok_def write_token_new_def two_key_key_def proof_share_new_def numeral_2_eq_2)
qed

end

text \<open>The conversions of this protocol.\<close>

definition pub_wire_ops where
  "pub_wire_ops Q =
     \<lparr> wire_token_from = write_token_try_from (\<lambda>k. Some (two_key_key_try_from (\<lambda>b. b) aes_seed_try_from k)) (pub_proof_try_from Q),
       wire_share_into = audit_share_into (pub_token_into Q),
       wire_share_from = (\<lambda>s. Some (audit_share_try_from (pub_token_try_from Q) s)),
       wire_key_from = pub_auth_key_try_from, wire_acc_into = (\<lambda>b. b) \<rparr>"

definition pub_write_token_into where
  "pub_write_token_into Q = write_token_into (two_key_key_into (\<lambda>b. b) seed_bytes) (pub_proof_into Q)"

text \<open>They are those of the two-server protocol, with points for scalars.\<close>

lemma pub_conversions:
  "pub_proof_try_from Q = two_key_proof_try_from (point_try_from_vec Q)" "pub_proof_into Q = two_key_proof_into (point_to_vec Q)"
  "pub_token_try_from Q = two_key_token_try_from (point_try_from_vec Q)" "pub_token_into Q = two_key_token_into (point_to_vec Q)"
  by (simp_all add: fun_eq_iff pub_proof_try_from_def two_key_proof_try_from_def pub_proof_into_def two_key_proof_into_def
      pub_token_try_from_def two_key_token_try_from_def pub_token_into_def two_key_token_into_def)

context jubjub_crate
begin

lemma pub_wire:
  assumes "two_key_token_ok aes_seed_valid validP n t"
  shows "write_token_try_from (\<lambda>k. Some (two_key_key_try_from (\<lambda>b. b) aes_seed_try_from k)) (pub_proof_try_from Q)
      (write_token_into (two_key_key_into (\<lambda>b. b) seed_bytes) (pub_proof_into Q) t) = Some (Inr t)"
proof (rule write_token_roundtrip)
  have "codec (\<lambda>b. b) (\<lambda>b. Inr b :: unit + bytes) (\<lambda>_. True)" by unfold_locales simp
  from codec.roundtrip[OF two_key_key_codec[OF this aes_seeds.codec_axioms]]
  show "Some (two_key_key_try_from (\<lambda>b. b) aes_seed_try_from (two_key_key_into (\<lambda>b. b) seed_bytes (wt_key t))) = Some (Inr (wt_key t))"
    using assms by (simp add: two_key_token_ok_def)
  show "pub_proof_try_from Q (pub_proof_into Q (wt_proof t)) = Inr (wt_proof t)"
    unfolding pub_conversions using assms
    by (intro codec.roundtrip[OF proof_share_codec(1)[OF points.codec_axioms]]) (simp add: two_key_token_ok_def)
qed

lemma pub_share_wire:
  assumes "validP (tok_seed (share_token s))" "validP (tok_bit (share_token s))"
  shows "audit_share_try_from (pub_token_try_from Q) (audit_share_into (pub_token_into Q) s) = Inr s"
  unfolding pub_conversions using assms by (intro codec.roundtrip[OF audit_share_codec[OF token_codec(1)[OF points.codec_axioms]]]) simp

end

context crypto
begin

lemma pub_setup_of:
  assumes "two_key_pub_vdpf env channels msg_size = Some V"
  obtains prg where "V = pub_vdpf_ops (env_fr env) (env_sp env) sample (point_sample (env_random_sp env))
      (aes_seed_to_auth_key (env_fr env)) (env_hasher env) (\<lambda>b. b) bytes_xor_ops
      (env_gen_bool env) (two_key_new (aes_prg_ops (env_encrypt env) (env_fill env) prg) channels)"
    "pub_vdpf_setup (env_fr env) (env_sp env) validR frv validQ
     bytes_bitxor bytes_bitxor_assign (bytes_empty (eval_size prg)) (\<lambda>b. length b = eval_size prg)
     (aes_prg_ops (env_encrypt env) (env_fill env) prg) aes_seed_valid sample (point_sample (env_random_sp env))
     (aes_seed_to_auth_key (env_fr env)) (\<lambda>s. the (scalar_from_aes_seed (env_fr env) s))"
    "pub_vdpf_setup.key_pair_valid (env_sp env) validR = (\<lambda>k. validS (kp_private k) \<and> k = key_pair_from (env_sp env) (kp_private k))"
proof -
  obtain prg where "V = pub_vdpf_ops (env_fr env) (env_sp env) sample (point_sample (env_random_sp env))
      (aes_seed_to_auth_key (env_fr env)) (env_hasher env) (\<lambda>b. b) bytes_xor_ops
      (env_gen_bool env) (two_key_new (aes_prg_ops (env_encrypt env) (env_fill env) prg) channels)"
    using assms by (auto simp: two_key_pub_vdpf_def bind_eq_Some_conv)
  then show ?thesis
    using that[OF _ pub_setup] pub_vdpf_setup.key_pair_valid_def[OF pub_setup[of prg]] by (simp add: fun_eq_iff)
qed

lemma pub_tokens_ok:
  assumes V: "two_key_pub_vdpf env channels msg_size = Some V" and privates: "vec_valid validS channels privates"
    and acts: "list_all (action_valid (\<lambda>b. length b = msg_size) channels) acts"
    and tokens: "all_clients (wrapper_protocol V) (map (key_pair_from (env_sp env)) privates) acts rs = Some tokens" "ts \<in> set tokens" "t \<in> set ts"
  shows "two_key_token_ok aes_seed_valid validP channels t"
proof -
  obtain prg where prg: "V = pub_vdpf_ops (env_fr env) (env_sp env) sample (point_sample (env_random_sp env))
      (aes_seed_to_auth_key (env_fr env)) (env_hasher env) (\<lambda>b. b) bytes_xor_ops
      (env_gen_bool env) (two_key_new (aes_prg_ops (env_encrypt env) (env_fill env) prg) channels)"
    and inst: "pub_vdpf_setup (env_fr env) (env_sp env) validR frv validQ
     bytes_bitxor bytes_bitxor_assign (bytes_empty (eval_size prg)) (\<lambda>b. length b = eval_size prg)
     (aes_prg_ops (env_encrypt env) (env_fill env) prg) aes_seed_valid sample (point_sample (env_random_sp env))
     (aes_seed_to_auth_key (env_fr env)) (\<lambda>s. the (scalar_from_aes_seed (env_fr env) s))"
    using V by (rule pub_setup_of)
  have keys: "vec_valid (\<lambda>k. validS (kp_private k)) channels (map (key_pair_from (env_sp env)) privates)"
    using privates by (auto simp: vec_valid_def list_all_iff key_pair_from_def)
  show ?thesis
  proof (rule wrapper_tokens[OF tokens acts keys])
    fix m j key r ts r'
    assume "validS (kp_private key)" "wrapper_broadcast V m j key r = Some (ts, r')" "t \<in> set ts"
    then show "two_key_token_ok aes_seed_valid validP channels t"
      using pub_vdpf_setup.pub_broadcast_tokens_ok[OF inst] by (simp add: prg bytes_xor_ops_def)
  next
    fix r ts r'
    assume "wrapper_cover V r = Some (ts, r')" "t \<in> set ts"
    then show "two_key_token_ok aes_seed_valid validP channels t"
      using pub_vdpf_setup.pub_cover_tokens_ok[OF inst] by (simp add: prg bytes_xor_ops_def)
  qed
qed

lemma pub_wire_protocol:
  assumes V: "two_key_pub_vdpf env channels msg_size = Some V" and privates: "vec_valid validS channels privates" and Rt: "bytes_routes Rt"
  shows "wire_protocol (wrapper_protocol V) (pub_wire_ops (env_sp env)) Rt (map (key_pair_from (env_sp env)) privates)
    (two_key_token_ok aes_seed_valid validP channels) (\<lambda>_. True) (pub_write_token_into (env_sp env))"
proof
  obtain prg where prg: "V = pub_vdpf_ops (env_fr env) (env_sp env) sample (point_sample (env_random_sp env))
      (aes_seed_to_auth_key (env_fr env)) (env_hasher env) (\<lambda>b. b) bytes_xor_ops
      (env_gen_bool env) (two_key_new (aes_prg_ops (env_encrypt env) (env_fill env) prg) channels)"
    and inst: "pub_vdpf_setup (env_fr env) (env_sp env) validR frv validQ
     bytes_bitxor bytes_bitxor_assign (bytes_empty (eval_size prg)) (\<lambda>b. length b = eval_size prg)
     (aes_prg_ops (env_encrypt env) (env_fill env) prg) aes_seed_valid sample (point_sample (env_random_sp env))
     (aes_seed_to_auth_key (env_fr env)) (\<lambda>s. the (scalar_from_aes_seed (env_fr env) s))"
    and valid: "pub_vdpf_setup.key_pair_valid (env_sp env) validR = (\<lambda>k. validS (kp_private k) \<and> k = key_pair_from (env_sp env) (kp_private k))"
    using V by (rule pub_setup_of)
  have keys: "vec_valid (pub_vdpf_setup.key_pair_valid (env_sp env) validR) channels (map (key_pair_from (env_sp env)) privates)"
    using privates by (auto simp: valid vec_valid_def list_all_iff key_pair_from_def)
  fix t :: "((bytes, aes_seed) two_key, 'sp curve_point proof_share) write_token" and ss s
  assume t: "two_key_token_ok aes_seed_valid validP channels t"
  then show "wire_token_from (pub_wire_ops (env_sp env)) (pub_write_token_into (env_sp env) t) = Some (Inr t)"
    using pub_wire by (simp add: pub_wire_ops_def pub_write_token_into_def)
  assume ss: "proto_gen_audit (wrapper_protocol V) (map (key_pair_from (env_sp env)) privates) t = Some ss" "s \<in> set ss"
  have "wrapper_gen_audit V (map (key_pair_from (env_sp env)) privates) t = Some ss" using ss(1) by simp
  then have "validP (tok_seed (share_token s))" "validP (tok_bit (share_token s))"
    using pub_vdpf_setup.pub_share_valid[OF inst keys t _ ss(2)] by (simp_all add: prg bytes_xor_ops_def)
  from pub_share_wire[OF this]
  show "wire_share_from (pub_wire_ops (env_sp env)) (wire_share_into (pub_wire_ops (env_sp env)) s) = Some (Inr s)"
    by (simp add: pub_wire_ops_def)
qed (use Rt in \<open>simp_all add: bytes_routes_def bytes_try_from_share_def share_of_accumulator_def pub_wire_ops_def try_map_Some\<close>)

end

section \<open>The messages of the multi-server protocol\<close>

definition multi_key_token_ok ::
    "('g \<Rightarrow> bool) \<Rightarrow> ('f \<Rightarrow> bool) \<Rightarrow> nat \<Rightarrow> nat \<Rightarrow> (('g list, 'f) multi_key, 'f proof_share) write_token \<Rightarrow> bool" where
  "multi_key_token_ok validG validF k n t \<longleftrightarrow> multi_key_valid validF n (wt_key t) \<and> vec_valid validG k (mk_encoded_msg (wt_key t))
     \<and> validF (ps_seed (wt_proof t)) \<and> validF (ps_bit (wt_proof t))"

context multi_key_vdpf_setup
begin

text \<open>The shares of a proof are reduced.\<close>

lemma proof_shares_valid:
  assumes share: "proof_share_share S (multi_proof_share_new b s) k r = Some (ps, r')" "pf \<in> set ps"
    and spec: "\<And>r. \<exists>shares r'. group_share F sample s k r = Some (shares, r') \<and> length shares = k
        \<and> list_all validS shares \<and> fold_add F shares = s'"
      "\<And>r. \<exists>shares r'. group_share F sample b k r = Some (shares, r') \<and> length shares = k
        \<and> list_all validS shares \<and> fold_add F shares = b'"
  shows "validS (ps_seed pf)" "validS (ps_bit pf)"
proof -
  have "vec_valid validS k (map ps_seed ps)" "vec_valid validS k (map ps_bit ps)"
    using seed.proof_share_share_spec[of sample "multi_proof_share_new b s" k s' b' r] spec share(1) by (auto simp: multi_proof_share_new_def)
  then show "validS (ps_seed pf)" "validS (ps_bit pf)" using share(2) by (auto simp: vec_valid_def list_all_iff)
qed

lemma gen_proofs_valid:
  assumes "multi_key_gen_proofs F S keys a idx ks r = Some (ps, r')" "list_all mk_valid ks" "idx < n" "validS a" "pf \<in> set ps"
  shows "validS (ps_seed pf)" "validS (ps_bit pf)"
proof -
  let ?seeds = "map (\<lambda>k. mk_seeds k ! idx) ks"
  have "try_map (\<lambda>k. vec_get (mk_seeds k) idx) ks = Some ?seeds"
    using assms(2,3) by (intro try_map_eq_map) (auto simp: list_all_iff mk_valid_lens)
  then have ps: "proof_share_share S (multi_proof_share_new (g_neg F a) (g_neg F (f_mul F (fold_add F ?seeds) a))) keys r = Some (ps, r')"
    using assms(1) by (simp add: multi_key_gen_proofs_def fold_add_def)
  have "list_all validS ?seeds" using assms(2,3) by (auto simp: list_all_iff mk_valid_nth)
  then have "validS (f_mul F (fold_add F ?seeds) a)" using assms(4) by (simp add: seed.mul_valid seed.fold_add_valid)
  note spec = seed.group_share_neg[OF this keys2 sample_valid] seed.group_share_neg[OF assms(4) keys2 sample_valid]
  show "validS (ps_seed pf)" "validS (ps_bit pf)"
    using proof_shares_valid[OF ps assms(5) spec] by blast+
qed

lemma gen_proofs_noop_valid:
  assumes "multi_key_gen_proofs_noop F S keys r = Some (ps, r')" "pf \<in> set ps"
  shows "validS (ps_seed pf)" "validS (ps_bit pf)"
proof -
  have spec: "\<exists>shares r'. group_share F sample (m_zero F) keys r = Some (shares, r') \<and> length shares = keys
      \<and> list_all validS shares \<and> fold_add F shares = m_zero F" for r
    using seed.group_share_spec[OF seed.zero_valid keys2 sample_valid, of r] by blast
  note ps = assms(1)[unfolded multi_key_gen_proofs_noop_def]
  show "validS (ps_seed pf)" "validS (ps_bit pf)"
    using proof_shares_valid[OF ps assms(2) spec spec] by blast+
qed

lemma multi_share_valid:
  assumes auths: "vec_valid validS n auths" and key: "multi_key_valid validS n (wt_key t)"
    and pf: "validS (ps_seed (wt_proof t))" "validS (ps_bit (wt_proof t))"
    and ss: "wrapper_gen_audit V auths t = Some ss" "s \<in> set ss"
  shows "validS (tok_seed (share_token s))" "validS (tok_bit (share_token s))"
proof -
  have "vdpf_gen_audit V auths (wt_key t) (wt_proof t) = multi_key_gen_audit F H enc auths (wt_key t) (wt_proof t)"
    by (simp add: multi_key_vdpf_ops_def)
  also have "\<dots> = Some (mk_token auths (wt_key t) (wt_proof t))"
    using key auths by (simp add: multi_key_gen_audit_def mk_token_def multi_key_valid_def vec_valid_def dot_def fold_add_def)
  finally have "share_token s = mk_token auths (wt_key t) (wt_proof t)"
    using ss by (auto simp: wrapper_gen_audit_def bind_eq_Some_conv)
  then show "validS (tok_seed (share_token s))" "validS (tok_bit (share_token s))"
    using key auths pf by (simp_all add: mk_token_def token_new_def multi_key_valid_def vec_valid_def seed.add_valid seed.dot_valid)
qed

lemma multi_broadcast_tokens_ok:
  assumes run: "wrapper_broadcast V msg idx key r = Some (tokens, r')" and msg: "validO msg" "idx < n" and key: "validS key"
    and t: "t \<in> set tokens"
  shows "mk_valid (wt_key t)" "validS (ps_seed (wt_proof t))" "validS (ps_bit (wt_proof t))"
proof -
  obtain ks r1 ps where ks: "dpf_gen V msg idx r = Some (ks, r1)" "vdpf_gen_proofs V key idx ks r1 = Some (ps, r')"
      "tokens = map2 write_token_new ks ps"
    using run by (auto simp: wrapper_broadcast_def bind_eq_Some_conv)
  have "multi_key_gen F S D msg idx r = Some (ks, r1)" using ks(1) by (simp add: multi_key_vdpf_ops_def)
  then have valid: "list_all mk_valid ks" using multi_key_gen_spec[OF msg, of r] by auto
  have ps: "multi_key_gen_proofs F S keys key idx ks r1 = Some (ps, r')" using ks(2) by (simp add: multi_key_vdpf_ops_def)
  obtain k pf where kp: "(k, pf) \<in> set (zip ks ps)" "t = write_token_new k pf" using t ks(3) by auto
  then have "k \<in> set ks" "pf \<in> set ps" by (auto dest: set_zip_leftD set_zip_rightD)
  then show "mk_valid (wt_key t)" "validS (ps_seed (wt_proof t))" "validS (ps_bit (wt_proof t))"
    using valid gen_proofs_valid[OF ps valid msg(2) key] kp(2) by (auto simp: write_token_new_def list_all_iff)
qed

lemma multi_cover_tokens_ok:
  assumes run: "wrapper_cover V r = Some (tokens, r')" and t: "t \<in> set tokens"
  shows "mk_valid (wt_key t)" "validS (ps_seed (wt_proof t))" "validS (ps_bit (wt_proof t))"
proof -
  obtain ks r1 ps where ks: "dpf_gen_empty V r = Some (ks, r1)" "vdpf_gen_proofs_noop V r1 = Some (ps, r')"
      "tokens = map2 write_token_new ks ps"
    using run by (auto simp: wrapper_cover_def bind_eq_Some_conv)
  have "multi_key_gen_empty S D r = Some (ks, r1)" using ks(1) by (simp add: multi_key_vdpf_ops_def)
  then have valid: "list_all mk_valid ks" using multi_key_gen_empty_spec[of r] by auto
  have ps: "multi_key_gen_proofs_noop F S keys r1 = Some (ps, r')" using ks(2) by (simp add: multi_key_vdpf_ops_def)
  obtain k pf where kp: "(k, pf) \<in> set (zip ks ps)" "t = write_token_new k pf" using t ks(3) by auto
  then have "k \<in> set ks" "pf \<in> set ps" by (auto dest: set_zip_leftD set_zip_rightD)
  then show "mk_valid (wt_key t)" "validS (ps_seed (wt_proof t))" "validS (ps_bit (wt_proof t))"
    using valid gen_proofs_noop_valid[OF ps] kp(2) by (auto simp: write_token_new_def list_all_iff)
qed

end

text \<open>The conversions of this protocol.\<close>

definition multi_key_wire_ops where
  "multi_key_wire_ops R Q =
     \<lparr> wire_token_from = write_token_try_from (multi_key_key_try_from (ev_try_from_vec (point_try_from_vec Q)) (scalar_try_from_vec R))
         (multi_key_proof_try_from (scalar_try_from_vec R)),
       wire_share_into = audit_share_into (multi_key_token_into (scalar_to_bytes R)),
       wire_share_from = (\<lambda>s. Some (audit_share_try_from (multi_key_token_try_from (scalar_try_from_vec R)) s)),
       wire_key_from = auth_key_try_from, wire_acc_into = ev_to_vec (point_to_vec Q) \<rparr>"

definition multi_key_write_token_into where
  "multi_key_write_token_into R Q =
     write_token_into (multi_key_key_into (ev_to_vec (point_to_vec Q)) (scalar_to_bytes R)) (multi_key_proof_into (scalar_to_bytes R))"

text \<open>An error of the conversion of sums is unwrapped, so that its text does not matter.\<close>

definition element_routes :: "('fr, 'sp) sp_ops \<Rightarrow> 'sp curve_point list routes \<Rightarrow> bool" where
  "element_routes Q Rt \<longleftrightarrow> rt_from_share Rt = (\<lambda>s. map_sum (\<lambda>_. ()) id (elements_try_from_share (point_try_from_vec Q) s))
     \<and> rt_into Rt = ev_to_vec (point_to_vec Q) \<and> rt_publish Rt = ev_to_bytes (point_to_bytes Q)"

text \<open>Elements of 32 bytes have the same bytes in both conversions.\<close>

lemma ev_to_bytes_vec:
  assumes "\<And>x. x \<in> set v \<Longrightarrow> length (enc x) = 32"
  shows "ev_to_bytes enc v = Some (ev_to_vec enc v)"
proof -
  have "try_fold (\<lambda>all_bytes element. do { b \<leftarrow> vec_slice (enc element) 0 32; Some (all_bytes @ b) }) acc v
      = Some (foldl (\<lambda>all_bytes element. all_bytes @ enc element) acc v)" for acc
    using assms by (induction v arbitrary: acc) (auto simp: vec_slice_def)
  then show ?thesis by (simp add: ev_to_bytes_def ev_to_vec_def)
qed

context crypto
begin

lemma multi_setup_of:
  assumes "multi_key_vdpf env channels groups msg_size r = (V, r')" "2 \<le> groups" "0 < channels"
  obtains prg where "V = multi_key_vdpf_ops F sample (group_shareable F sample) (env_hasher env) (point_to_vec (env_sp env))
      (ev_pow (curve_exp (env_sp env))) (multi_key_new (group_prg_ops (curve_exp (env_sp env)) F sample prg) channels groups)"
    "multi_key_vdpf_setup (vec_monoid (curve_exp (env_sp env)) (msg_size div 32 + 1)) (vec_valid validP (msg_size div 32 + 1)) F validS
     (group_prg_ops (curve_exp (env_sp env)) F sample prg) (ev_pow (curve_exp (env_sp env)))
     (group_prg_eval (curve_exp (env_sp env)) prg) sample channels groups"
proof -
  obtain prg r1 where prg: "group_prg_random (point_sample (env_random_sp env)) (msg_size div 32 + 1) r = (prg, r1)" by fastforce
  show ?thesis
    by (rule that[OF _ multi_setup[OF prg assms(2,3)]]) (use assms(1) prg in \<open>simp add: multi_key_vdpf_def Let_def\<close>)
qed

lemma multi_key_tokens_ok:
  assumes V: "multi_key_vdpf env channels groups msg_size r = (V, r')" "2 \<le> groups" "0 < channels" and keys: "vec_valid validS channels keys"
    and acts: "list_all (action_valid (vec_valid validP (msg_size div 32 + 1)) channels) acts"
    and tokens: "all_clients (wrapper_protocol V) keys acts rs = Some tokens" "ts \<in> set tokens" "t \<in> set ts"
  shows "multi_key_token_ok validP validS (msg_size div 32 + 1) channels t"
proof -
  obtain prg where prg: "V = multi_key_vdpf_ops F sample (group_shareable F sample) (env_hasher env) (point_to_vec (env_sp env))
      (ev_pow (curve_exp (env_sp env))) (multi_key_new (group_prg_ops (curve_exp (env_sp env)) F sample prg) channels groups)"
    and inst: "multi_key_vdpf_setup (vec_monoid (curve_exp (env_sp env)) (msg_size div 32 + 1)) (vec_valid validP (msg_size div 32 + 1)) F validS
     (group_prg_ops (curve_exp (env_sp env)) F sample prg) (ev_pow (curve_exp (env_sp env)))
     (group_prg_eval (curve_exp (env_sp env)) prg) sample channels groups"
    using V by (rule multi_setup_of)
  note valid = multi_key_setup.mk_valid_def[OF multi_key_vdpf_setup.axioms(1)[OF inst]]
  show ?thesis
  proof (rule wrapper_tokens[OF tokens acts keys])
    fix m j key r ts r'
    assume a: "vec_valid validP (msg_size div 32 + 1) m" "j < channels" "validS key" "wrapper_broadcast V m j key r = Some (ts, r')" "t \<in> set ts"
    show "multi_key_token_ok validP validS (msg_size div 32 + 1) channels t"
      using multi_key_vdpf_setup.multi_broadcast_tokens_ok[OF inst a(4)[unfolded prg] a(1-3,5)]
      unfolding multi_key_token_ok_def valid by blast
  next
    fix r ts r'
    assume a: "wrapper_cover V r = Some (ts, r')" "t \<in> set ts"
    show "multi_key_token_ok validP validS (msg_size div 32 + 1) channels t"
      using multi_key_vdpf_setup.multi_cover_tokens_ok[OF inst a(1)[unfolded prg] a(2)]
      unfolding multi_key_token_ok_def valid by blast
  qed
qed

lemma multi_key_wire_protocol:
  assumes V: "multi_key_vdpf env channels groups msg_size r = (V, r')" "2 \<le> groups" "0 < channels" and keys: "vec_valid validS channels keys"
    and Rt: "element_routes (env_sp env) Rt"
  shows "wire_protocol (wrapper_protocol V) (multi_key_wire_ops (env_fr env) (env_sp env)) Rt keys
    (multi_key_token_ok validP validS (msg_size div 32 + 1) channels) (vec_valid (vec_valid validP (msg_size div 32 + 1)) channels)
    (multi_key_write_token_into (env_fr env) (env_sp env))"
proof
  obtain prg where prg: "V = multi_key_vdpf_ops F sample (group_shareable F sample) (env_hasher env) (point_to_vec (env_sp env))
      (ev_pow (curve_exp (env_sp env))) (multi_key_new (group_prg_ops (curve_exp (env_sp env)) F sample prg) channels groups)"
    and inst: "multi_key_vdpf_setup (vec_monoid (curve_exp (env_sp env)) (msg_size div 32 + 1)) (vec_valid validP (msg_size div 32 + 1)) F validS
     (group_prg_ops (curve_exp (env_sp env)) F sample prg) (ev_pow (curve_exp (env_sp env)))
     (group_prg_eval (curve_exp (env_sp env)) prg) sample channels groups"
    using V by (rule multi_setup_of)
  let ?W = "multi_key_wire_ops (env_fr env) (env_sp env)"
  fix t :: "(('sp curve_point list, 'fr scalar) multi_key, 'fr scalar proof_share) write_token" and ss s
  assume t: "multi_key_token_ok validP validS (msg_size div 32 + 1) channels t"
  then show "wire_token_from ?W (multi_key_write_token_into (env_fr env) (env_sp env) t) = Some (Inr t)"
    using multi_key_wire[of t]
    by (simp add: multi_key_token_ok_def multi_key_valid_def vec_valid_def multi_key_wire_ops_def multi_key_write_token_into_def)
  assume ss: "proto_gen_audit (wrapper_protocol V) keys t = Some ss" "s \<in> set ss"
  have audit: "wrapper_gen_audit V keys t = Some ss" using ss(1) by simp
  have "validS (tok_seed (share_token s))" "validS (tok_bit (share_token s))"
    using multi_key_vdpf_setup.multi_share_valid[OF inst keys _ _ _ audit[unfolded prg] ss(2)] t unfolding multi_key_token_ok_def by blast+
  from audit_share_wire(2)[OF this]
  show "wire_share_from ?W (wire_share_into ?W s) = Some (Inr s)" by (simp add: multi_key_wire_ops_def)
next
  fix acc :: "'sp curve_point list list"
  assume "vec_valid (vec_valid validP (msg_size div 32 + 1)) channels acc"
  then have acc: "list_all (list_all validP) acc" by (auto simp: vec_valid_def list_all_iff)
  have "try_map (ev_to_bytes (point_to_bytes (env_sp env))) acc = Some (map (ev_to_vec (point_to_vec (env_sp env))) acc)"
  proof (rule try_map_eq_map)
    fix v
    assume "v \<in> set acc"
    then have len: "length (point_to_vec (env_sp env) x) = 32" if "x \<in> set v" for x
      using acc that by (simp add: list_all_iff point_to_vec_def sp_bytes)
    have "point_to_bytes (env_sp env) = point_to_vec (env_sp env)" by (simp add: fun_eq_iff point_to_bytes_def point_to_vec_def)
    then show "ev_to_bytes (point_to_bytes (env_sp env)) v = Some (ev_to_vec (point_to_vec (env_sp env)) v)"
      using ev_to_bytes_vec[of v "point_to_vec (env_sp env)"] len by simp
  qed
  then show "try_map (rt_publish Rt) acc = Some (map (rt_into Rt) acc)" using Rt by (simp add: element_routes_def)
  have "elements_try_from_share (point_try_from_vec (env_sp env)) (share_of_accumulator (ev_to_vec (point_to_vec (env_sp env))) acc) = Inr acc"
    using point_vectors.list_roundtrip[OF acc] by (simp add: elements_try_from_share_def share_of_accumulator_def map_err_def)
  then show "rt_from_share Rt (share_of_accumulator (rt_into Rt) acc) = Inr acc" using Rt by (simp add: element_routes_def)
qed (use Rt in \<open>simp add: element_routes_def multi_key_wire_ops_def\<close>)

end

section \<open>A concrete network\<close>

text \<open>Handles are the URLs of the processes.\<close>

definition demo_routes :: "bytes routes" where
  "demo_routes =
     \<lparr> rt_worker = (\<lambda>h. demo_worker (of_nat (count_list h (CHR ''g''))) (of_nat (count_list h (CHR ''i'')))),
       rt_leader = (\<lambda>h. \<lparr> group_idx = of_nat (count_list h (CHR ''l'')) \<rparr>), rt_from_share = bytes_try_from_share, rt_into = (\<lambda>b. b),
       rt_publish = Some \<rparr>"

definition demo_url :: "worker_info \<Rightarrow> string" where
  "demo_url w = ''https://'' @ demo_addr (Worker w)"

lemma count_list_replicate: "count_list (replicate k x) y = (if x = y then k else 0)"
  by (induction k) auto

lemma demo_routed:
  "rt_worker demo_routes (''https://'' @ demo_addr (Worker w)) = w"
  "rt_leader demo_routes (''http://'' @ demo_addr (Leader l)) = leader_group l"
  by (simp_all add: demo_routes_def demo_addr_def demo_worker_def count_list_replicate)

definition demo_peers :: "worker_info \<Rightarrow> u128 \<Rightarrow> worker_info list option" where
  "demo_peers w = (\<lambda>c. if c = 0 then Some (demo_shards ! 0) else if c = 1 then Some (demo_shards ! 1) else None)"

lemma u16_less_2: "(x :: u16) < 2 \<longleftrightarrow> x = 0 \<or> x = 1"
proof -
  have "x < 2 \<longleftrightarrow> unat x < 2" by (simp add: word_less_nat_alt)
  also have "\<dots> \<longleftrightarrow> unat x = 0 \<or> unat x = 1" by linarith
  also have "\<dots> \<longleftrightarrow> x = 0 \<or> x = 1" by (simp add: word_unat_eq_iff)
  finally show ?thesis .
qed

lemma demo_workers: "set (service_workers demo_services) = {demo_worker 0 0, demo_worker 0 1, demo_worker 1 0, demo_worker 1 1}"
proof -
  have "w \<in> set (service_workers demo_services) \<longleftrightarrow> group_idx (worker_group w) < 2 \<and> worker_idx w < 2" for w
    unfolding experiment_workers(2)[OF demo_ok(2,3)] by (simp add: demo_experiment_def)
  moreover have "w = demo_worker g i \<longleftrightarrow> group_idx (worker_group w) = g \<and> worker_idx w = i" for w g i
    unfolding demo_worker_def by (cases w; cases "worker_group w") simp
  ultimately show ?thesis by (auto simp: u16_less_2)
qed

lemma demo_bytes: "bytes_routes demo_routes"
  by (simp add: bytes_routes_def demo_routes_def)

interpretation demo_net: wire_system demo_protocol demo_wire demo_routes demo_keys
  "two_key_token_ok aes_seed_valid (\<lambda>k. scalar_inner k < jubjub_order) 2" "\<lambda>_. True" "two_key_write_token_into residue_fr" bytes_acc
  "set (service_workers demo_services)" demo_peers
proof (intro wire_system.intro wire_system_axioms.intro)
  show "wire_protocol demo_protocol demo_wire demo_routes demo_keys (two_key_token_ok aes_seed_valid (\<lambda>k. scalar_inner k < jubjub_order) 2)
      (\<lambda>_. True) (two_key_write_token_into residue_fr)"
    using residue_crypto.two_key_wire_protocol[OF demo_vdpf _ demo_bytes, of demo_keys] demo_ok(5) by simp
  show "set shards \<subseteq> set (service_workers demo_services) \<and> length shards = proto_num_parties demo_protocol"
    if "demo_peers w c = Some shards" for w c shards
    using that two_key_vdpf_sizes[OF demo_vdpf] unfolding demo_workers by (auto simp: demo_peers_def demo_shards_def split: if_splits)
qed

end
