(* ===== verification/Deployment.thy ===== *)
theory Deployment
  imports Messages
begin

text \<open>
  From an empty store to the published bytes. The handles that processes get during the start of \<open>Startup\<close> are those over
  which the requests of \<open>Wire\<close> go: the workers' registries of services, which the start has filled from the addresses in the
  store, lead to the right processes (\<open>routed\<close>, an invariant of the start), so that the network in the state that the start
  has left it in stands for the system of \<open>Composition\<close> (\<open>started_related\<close>). What is assumed of the network is that a
  connection to the address of a process leads to this process (\<open>reaches\<close>).
\<close>

section \<open>Connections\<close>

definition reaches :: "'m routes \<Rightarrow> ('st, 'rnd, 'r, 'fr, 'sp) startup_params \<Rightarrow> 'rnd step_input \<Rightarrow> bool" where
  "reaches Rt P inp \<longleftrightarrow>
     (\<forall>w h. si_connect inp (''https://'' @ sp_addr P (Worker w)) = Inr h \<longrightarrow> rt_worker Rt h = w)
   \<and> (\<forall>l h. si_connect inp (''http://'' @ sp_addr P (Leader l)) = Inr h \<longrightarrow> rt_leader Rt h = leader_group l)"

text \<open>Steps of the start on such a network.\<close>

inductive routed_step for Rt P W procs where
  run: "s \<in> procs \<Longrightarrow> reaches Rt P inp \<Longrightarrow> process_step P W inp s su = Some su' \<Longrightarrow> routed_step Rt P W procs su su'"
| panic: "s \<in> procs \<Longrightarrow> process_step P W inp s su = None \<Longrightarrow> routed_step Rt P W procs su (set_phase s Panicked su)"
| tick: "0 \<le> d \<Longrightarrow> routed_step Rt P W procs su (su\<lparr> su_now := su_now su + d \<rparr>)"

inductive_cases routed_stepE: "routed_step Rt P W procs su su'"

lemma routed_startup: "routed_step Rt P W procs su su' \<Longrightarrow> startup_step P W procs su su'"
  by (erule routed_stepE) (auto intro: startup_step.intros)

lemma routed_startups: "(routed_step Rt P W procs)\<^sup>*\<^sup>* su su' \<Longrightarrow> (startup_step P W procs)\<^sup>*\<^sup>* su su'"
  by (induction rule: rtranclp_induct) (auto dest: routed_startup)

section \<open>Where a connection of a worker leads\<close>

lemma connect_workers_in:
  "connect_workers uri_ok connect peers = Some (Inr ws) \<Longrightarrow> (w, h) \<in> set ws \<Longrightarrow>
   \<exists>a. (w, a) \<in> set peers \<and> connect (''https://'' @ a) = Inr h"
proof (induction peers arbitrary: ws)
  case (Cons p peers)
  obtain info addr where p: "p = (info, addr)" by fastforce
  obtain c cs where c: "connect (''https://'' @ addr) = Inr c" "connect_workers uri_ok connect peers = Some (Inr cs)" "ws = (info, c) # cs"
    using Cons.prems(1) unfolding p connect_workers_Cons by blast
  then show ?case using Cons.IH[OF c(2)] Cons.prems(2) p by (cases "(w, h) \<in> set cs") auto
qed simp

context discovery_store
begin

lemma service_map_routes:
  assumes st: "store_wf st" "nodes_only (ss :: ('fr, 'sp) service set) (entries st)"
    and run: "service_map_from_config S uri_ok connect connect_leader worker st = Some (Inr m)"
  shows "map_of (sm_workers m) w = Some h \<Longrightarrow>
      \<exists>a. entries st (the (to_config_key (Worker w :: ('fr, 'sp) service))) = Some a \<and> connect (''https://'' @ a) = Inr h"
    "sm_leader m = Some h \<Longrightarrow>
      \<exists>a. entries st (the (to_config_key (Leader \<lparr> leader_group = worker_group worker \<rparr> :: ('fr, 'sp) service))) = Some a
        \<and> connect_leader (''http://'' @ a) = Inr h"
proof -
  obtain ns :: "(unit, unit) node list" where ns: "resolve_all S st = Some (Inr ns)" "set ns = store_nodes (entries st)"
    using resolve_all_ok[OF st(1) nodes_only_retype[OF st(2)]] by blast
  have key: "to_config_key (Worker w :: (unit, unit) service) = Some (the (to_config_key (Worker w :: ('fr, 'sp) service)))"
    "to_config_key (Leader l :: (unit, unit) service) = Some (the (to_config_key (Leader l :: ('fr, 'sp) service)))" for w l
    by (simp_all add: to_config_key_def)
  obtain ws where ws1: "connect_workers uri_ok connect (peer_workers ns) = Some (Inr ws)"
  proof (cases "connect_workers uri_ok connect (peer_workers ns)")
    case (Some conns)
    then show ?thesis using run that by (cases conns) (simp_all add: service_map_from_config_def ns(1))
  qed (use run in \<open>simp add: service_map_from_config_def ns(1)\<close>)
  have ws: "connect_workers uri_ok connect (peer_workers ns) = Some (Inr ws)" "sm_workers m = foldl (\<lambda>m (w, c). AList.update w c m) [] ws"
      "sm_leader m = Some h \<Longrightarrow> \<exists>a. leader_addr worker ns = Some a \<and> connect_leader (''http://'' @ a) = Inr h" for h
    using run ws1 by (auto simp: service_map_from_config_def ns(1) split: sum.splits option.splits)
  show "\<exists>a. entries st (the (to_config_key (Worker w :: ('fr, 'sp) service))) = Some a \<and> connect (''https://'' @ a) = Inr h"
    if "map_of (sm_workers m) w = Some h"
  proof -
    have "(w, h) \<in> set ws" using that map_of_SomeD[of "rev ws" w h] by (simp add: ws(2) map_of_foldl_update)
    then obtain a where a: "(w, a) \<in> set (peer_workers ns)" "connect (''https://'' @ a) = Inr h" using connect_workers_in[OF ws(1)] by blast
    then obtain nd where "nd \<in> set ns" "node_service nd = Worker w" "node_addr nd = a"
      by (auto simp: peer_workers_def split: service.splits)
    then have "\<lparr> node_service = Worker w, node_addr = a \<rparr> \<in> set ns" using node_eta[of nd] by (metis (no_types))
    then show ?thesis using entry_node[OF key(1) ns(2), of w a] a(2) by blast
  qed
  show "\<exists>a. entries st (the (to_config_key (Leader \<lparr> leader_group = worker_group worker \<rparr> :: ('fr, 'sp) service))) = Some a
      \<and> connect_leader (''http://'' @ a) = Inr h" if "sm_leader m = Some h"
  proof -
    obtain a where a: "leader_addr worker ns = Some a" "connect_leader (''http://'' @ a) = Inr h"
      using ws(3)[OF \<open>sm_leader m = Some h\<close>] by blast
    let ?is = "\<lambda>n :: (unit, unit) node. case node_service n of Leader l \<Rightarrow> leader_group l = worker_group worker | _ \<Rightarrow> False"
    have is_iff: "?is nd \<longleftrightarrow> node_service nd = Leader \<lparr> leader_group = worker_group worker \<rparr>" for nd by (auto split: service.splits)
    obtain nd where "find ?is ns = Some nd" "node_addr nd = a" using a(1) by (auto simp: leader_addr_def)
    then have "nd \<in> set ns" "node_service nd = Leader \<lparr> leader_group = worker_group worker \<rparr>" "node_addr nd = a"
      using is_iff by (auto simp: find_Some_iff)
    then have "\<lparr> node_service = Leader \<lparr> leader_group = worker_group worker \<rparr>, node_addr = a \<rparr> \<in> set ns"
      using node_eta[of nd] by (metis (no_types))
    then show ?thesis using entry_node[OF key(2) ns(2)] a(2) by blast
  qed
qed

end

section \<open>What a step changes\<close>

lemma handle_register_services: "handle_register_client req mw = Some (Inr mw') \<Longrightarrow> mw_services mw' = mw_services mw"
  by (auto simp: handle_register_client_def and_then_def bind_eq_Some_conv split: sum.splits)


text \<open>The services that a worker knows come from the store, and what it sends goes to its leader.\<close>

definition worker_change where
  "worker_change P inp s su su' w \<longleftrightarrow>
     mw_services (su_workers su' w) = mw_services (su_workers su w) \<and> su_sent su' w = su_sent su w
   \<or> (\<exists>m. service_map_from_config (sp_store P) (sp_uri_ok P) (si_connect inp) (si_connect inp) w (su_store su) = Some (Inr m)
        \<and> mw_services (su_workers su' w) = Some m \<and> su_sent su' w = su_sent su w)
   \<or> (\<exists>m. mw_services (su_workers su w) = Some m \<and> mw_services (su_workers su' w) = Some m
        \<and> (\<forall>x \<in> set (su_sent su' w). sm_leader m = Some (fst x)))"

lemma worker_begin_services:
  "worker_begin W now m mw = Some (msgs, mw') \<Longrightarrow> mw_services mw' = Some m \<and> (\<forall>x \<in> set msgs. sm_leader m = Some (fst x))"
  by (auto simp: worker_begin_def Let_def service_get_my_leader_def bind_eq_Some_conv split: if_splits)

definition changes where
  "changes P inp s su su' \<longleftrightarrow> (\<forall>w. worker_change P inp s su su' w)"

lemma changes_set_phase [simp]: "changes P inp s su (set_phase s' p su') = changes P inp s su su'"
  by (simp add: changes_def worker_change_def)

lemma changes_same:
  "(\<And>w. mw_services (su_workers su' w) = mw_services (su_workers su w)) \<Longrightarrow> su_sent su' = su_sent su
   \<Longrightarrow> changes P inp s su su'"
  by (simp add: changes_def worker_change_def)

lemma changes_refl [simp]: "changes P inp s su su"
  by (rule changes_same) simp_all

lemma pred_option_bind: "pred_option Q (Option.bind m f) \<longleftrightarrow> (\<forall>x. m = Some x \<longrightarrow> pred_option Q (f x))"
  by (cases m) simp_all

lemma service_changes:
  "pred_option (changes P inp s su) (boot_service P inp s su)"
  "pred_option (changes P inp s su) (load_experiment P s su)"
  "pred_option (changes P inp s su) (poll_start_time P s left su)"
  "pred_option (changes P inp s su) (poll_quorum P s left su)"
  "pred_option (changes P inp s su) (publisher_found P s su)"
proof -
  show "pred_option (changes P inp s su) (boot_service P inp s su)"
    by (auto simp: boot_service_def pred_option_bind intro!: changes_same split: sum.splits)
  show "pred_option (changes P inp s su) (publisher_found P s su)"
    by (auto simp: publisher_found_def Let_def intro!: changes_same split: sum.splits)
  show "pred_option (changes P inp s su) (load_experiment P s su)"
    by (auto simp: load_experiment_def pred_option_bind intro!: changes_same split: sum.splits)
  have poll: "pred_option (changes P inp s su) (poll_failed s err left su)" for err
    by (simp add: poll_failed_def split: prod.splits retry_policy.splits service.splits)
  show "pred_option (changes P inp s su) (poll_start_time P s left su)"
    by (auto simp: poll_start_time_def pred_option_bind poll split: sum.splits)
  show "pred_option (changes P inp s su) (poll_quorum P s left su)"
    by (auto simp: poll_quorum_def pred_option_bind poll split: sum.splits)
qed

lemma found_changes:
  "pred_option (changes P inp s su) (leader_found P inp ty s g su)"
  "pred_option (changes P inp s su) (worker_found P inp s w t su)"
  "pred_option (changes P inp s su) (client_found P inp s c t su)"
proof -
  show "pred_option (changes P inp s su) (leader_found P inp ty s g su)"
    by (auto simp: leader_found_def pred_option_bind intro!: changes_same split: sum.splits)
  have "changes P inp s su (su\<lparr> su_workers := (su_workers su)(w := (su_workers su w)\<lparr> mw_services := Some m \<rparr>) \<rparr>)"
    if "service_map_from_config (sp_store P) (sp_uri_ok P) (si_connect inp) (si_connect inp) w (su_store su) = Some (Inr m)" for m
    using that by (auto simp: changes_def worker_change_def)
  then show "pred_option (changes P inp s su) (worker_found P inp s w t su)"
    by (auto simp: worker_found_def pred_option_bind split: sum.splits)
  show "pred_option (changes P inp s su) (client_found P inp s c t su)"
    by (auto simp: client_found_def pred_option_bind intro!: changes_same split: sum.splits)
qed

lemma join_changes:
  "pred_option (changes P inp s su) (client_join P inp s c t ws su)"
  "pred_option (changes P inp s su) (start_process W s t su)"
proof -
  have "changes P inp s su (su\<lparr> su_workers := (su_workers su)(w := mw) \<rparr>)"
    if "handle_register_client req (su_workers su w) = Some (Inr mw)" for req w mw
    using handle_register_services[OF that] by (intro changes_same) simp_all
  then show "pred_option (changes P inp s su) (client_join P inp s c t ws su)"
    by (auto simp: client_join_def pred_option_bind split: sum.splits list.splits)
  have "changes P inp s su (su\<lparr> su_workers := (su_workers su)(w := mw), su_sent := (su_sent su)(w := msgs) \<rparr>)"
    if "mw_services (su_workers su w) = Some m" "worker_begin W now m (su_workers su w) = Some (msgs, mw)" for w m mw msgs now
    using that(1) worker_begin_services[OF that(2)] by (auto simp: changes_def worker_change_def)
  then show "pred_option (changes P inp s su) (start_process W s t su)"
    by (auto simp: start_process_def pred_option_bind split: service.splits)
qed

lemma process_step_changes:
  assumes "process_step P W inp s su = Some su'"
  shows "worker_change P inp s su su' w"
proof -
  have "pred_option (changes P inp s su) (process_step P W inp s su)"
    by (simp add: process_step_def service_changes found_changes join_changes split: phase.splits service.splits)
  then show ?thesis using assms by (simp add: changes_def)
qed

section \<open>The invariant\<close>

text \<open>The handles of a worker lead to the processes they were got for.\<close>

definition worker_routed where
  "worker_routed Rt su w \<longleftrightarrow>
     (\<forall>m. mw_services (su_workers su w) = Some m \<longrightarrow>
        (\<forall>w' h. map_of (sm_workers m) w' = Some h \<longrightarrow> rt_worker Rt h = w')
      \<and> (\<forall>h. sm_leader m = Some h \<longrightarrow> rt_leader Rt h = worker_group w))
   \<and> (\<forall>x \<in> set (su_sent su w). rt_leader Rt (fst x) = worker_group w)"

context startup_system
begin

definition routed where
  "routed Rt su \<longleftrightarrow> (\<forall>w. worker_routed Rt su w)"

lemma worker_routed_step:
  assumes i: "inv su" and inp: "reaches Rt P inp" and w: "worker_routed Rt su w"
    and change: "worker_change P inp s su su' w"
  shows "worker_routed Rt su' w"
  using change unfolding worker_change_def store
proof (elim disjE exE conjE)
  fix m
  assume m: "service_map_from_config S (sp_uri_ok P) (si_connect inp) (si_connect inp) w (su_store su) = Some (Inr m)"
    "mw_services (su_workers su' w) = Some m" "su_sent su' w = su_sent su w"
  have only: "nodes_only (set ss) (entries (su_store su))" "addressed P (entries (su_store su))"
    using invD(2)[OF i] by (simp_all add: store_ok_def)
  note R = service_map_routes[OF invD(1)[OF i] only(1) m(1)]
  have addr: "a = sp_addr P s'" if "entries (su_store su) (the (to_config_key s')) = Some a" "\<forall>c. s' \<noteq> Client c" for s' a
  proof -
    have "to_config_key s' = Some (the (to_config_key s'))" using that(2) by (cases s') (simp_all add: to_config_key_def)
    then show ?thesis using that(1) only(2) unfolding addressed_def by blast
  qed
  have "rt_worker Rt h = w'" if "map_of (sm_workers m) w' = Some h" for w' h
    using R(1)[OF that] addr[of "Worker w'"] inp unfolding reaches_def by blast
  moreover have "rt_leader Rt h = worker_group w" if "sm_leader m = Some h" for h
  proof -
    have "si_connect inp (''http://'' @ sp_addr P (Leader \<lparr> leader_group = worker_group w \<rparr>)) = Inr h"
      using R(2)[OF that] addr[of "Leader \<lparr> leader_group = worker_group w \<rparr>"] by blast
    then show ?thesis using inp unfolding reaches_def by (metis leader_info.select_convs(1))
  qed
  ultimately show ?thesis using w m(2,3) unfolding worker_routed_def by auto
next
  fix m
  assume "mw_services (su_workers su w) = Some m" "mw_services (su_workers su' w) = Some m" "\<forall>x \<in> set (su_sent su' w). sm_leader m = Some (fst x)"
  then show ?thesis using w unfolding worker_routed_def by auto
qed (use w in \<open>simp add: worker_routed_def\<close>)

lemma routed_steps:
  assumes "(routed_step Rt P W procs)\<^sup>*\<^sup>* su su'" "inv su" "routed Rt su"
  shows "routed Rt su'"
  using assms(1)
proof (induction rule: rtranclp_induct)
  case (step su1 su2)
  have inv: "inv su1" using steps_inv[OF routed_startups[OF step(1)] assms(2)] .
  from step(2) show ?case
  proof (rule routed_stepE)
    fix s inp
    assume s: "s \<in> procs" "reaches Rt P inp" "process_step P W inp s su1 = Some su2"
    have "worker_routed Rt su2 w" for w
      using worker_routed_step[OF inv s(2) _ process_step_changes[OF s(3)]] step.IH unfolding routed_def by blast
    then show ?thesis unfolding routed_def by blast
  qed (use step.IH in \<open>simp_all add: routed_def worker_routed_def\<close>)
qed (rule assms(3))

lemma init_routed:
  assumes "entries st = [[''experiment'', ''config''] \<mapsto> json]" "startup_init T e now st = Some su"
  shows "routed Rt su"
proof -
  have "su_store su = st" "mw_services (su_workers su w) = None" "su_sent su w = []" for w
    using assms(2) by (auto simp: startup_init_def my_worker_new_def bind_eq_Some_conv)
  then show ?thesis by (simp add: routed_def worker_routed_def)
qed

end

section \<open>The network at the end of the start\<close>

text \<open>The processes in the states the start has left them in, the uploads of the clients, and what workers without clients
  have sent.\<close>

definition started_net ::
    "('r, 'm, 'k, 't, 's, 'x) protocol_ops_scheme \<Rightarrow> ('fr, 'sp) service list \<Rightarrow> (('fr, 'sp) client_info \<times> string list \<times> 't list) list
     \<Rightarrow> ('t \<Rightarrow> proto_write_token) \<Rightarrow> ('st, 's, 't, 'm, 'r, 'fr, 'sp) startup
     \<Rightarrow> ('s, 't, 'm, 'r, 'fr, 'sp) net \<times> ('s, 'm) packet multiset" where
  "started_net T ss cs token_into su =
     (\<lparr> net_workers = su_workers su, net_leaders = su_leaders su, net_publisher = publisher_from_protocol T, net_result = None \<rparr>,
      mset (wire_uploads token_into cs) + mset (concat (map (\<lambda>w. map (\<lambda>(h, req). LeaderReq h req) (su_sent su w)) (service_workers ss))))"

lemma list_all2_filter_map:
  "(\<And>x. x \<in> set xs \<Longrightarrow> if Q x then \<exists>y. f x = [y] \<and> R y (g x) else f x = []) \<Longrightarrow> list_all2 R (concat (map f xs)) (map g (filter Q xs))"
proof (induction xs)
  case (Cons x xs)
  then have "list_all2 R (concat (map f xs)) (map g (filter Q xs))" by simp
  then show ?case using Cons.prems[of x] by (auto split: if_splits)
qed simp

context startup_system
begin

abbreviation reg_peers where
  "reg_peers su w \<equiv> map_of (cr_peers (ws_client_registry (mw_state (su_workers su w))))"

lemma started_related:
  fixes cs :: "(('fr, 'sp) client_info \<times> string list \<times> 't list) list"
  assumes su: "inv su" "\<forall>s \<in> procs. su_phase su s = Running" "routed Rt su" and hammer: "\<not> ex_hammer e"
    and keys: "collect_result (wire_key_from W) (ex_keys e) = Inr keys"
    and sys: "wire_system T W Rt keys token_ok acc_ok token_into (set (service_workers ss)) (reg_peers su)"
    and cs: "\<And>info hs tokens h t. (info, hs, tokens) \<in> set cs \<Longrightarrow> (h, t) \<in> set (zip hs tokens) \<Longrightarrow>
      token_ok t \<and> rt_worker Rt h \<in> set (service_workers ss) \<and> reg_peers su (rt_worker Rt h) (client_idx info) \<noteq> None"
    and sums: "\<And>t. t \<in># snd (started_system T ss (wire_plan Rt cs) su) \<Longrightarrow> sum_ok acc_ok t"
  shows "wire_system.related W Rt keys token_ok (set (service_workers ss)) (reg_peers su)
    (started_net T ss cs token_into su) (started_system T ss (wire_plan Rt cs) su)"
proof -
  let ?WS = "set (service_workers ss)" let ?net = "fst (started_net T ss cs token_into su)"
  have ws0: "ws_experiment ws0 = e" "worker_hammer ws0 = ex_hammer e"
    using fresh by (auto simp: worker_hammer_def worker_from_experiment_def bind_eq_Some_conv)
  have state: "ws_experiment (mw_state (su_workers su w)) = e" "ws_accumulator (mw_state (su_workers su w)) = ws_accumulator ws0" for w
    by (subst worker_okD(1)[OF invD(4)[OF su(1)]], simp add: ws0)+
  have running: "phase_ok ss e (entries (su_store su)) su s Running" if "s \<in> procs" for s using invD(3)[OF su(1) that] su(2) that by simp
  have leaders: "Leader \<lparr> leader_group = worker_group w \<rparr> \<in> set ss" if "w \<in> ?WS" for w
    using that hammer by (auto simp: set_service_workers services_set)
  have svc: "\<exists>m. mw_services (su_workers su w) = Some m \<and> leader_ok Rt w (sm_leader m)
      \<and> (\<forall>w' \<in> ?WS. \<exists>h. map_of (sm_workers m) w' = Some h \<and> rt_worker Rt h = w')" if w: "w \<in> ?WS" for w
  proof -
    have "Worker w \<in> procs" using w by (simp add: set_service_workers)
    then obtain m where m: "mw_services (su_workers su w) = Some m" "services_known ss w m"
      using running by (force simp: phase_ok_def ready_def)
    have r: "worker_routed Rt su w" using su(3) unfolding routed_def by blast
    obtain h where "sm_leader m = Some h" using m(2) leaders[OF w] unfolding services_known_def by blast
    moreover then have "rt_leader Rt h = worker_group w" using r m(1) unfolding worker_routed_def by blast
    moreover have "\<exists>h. map_of (sm_workers m) w' = Some h \<and> rt_worker Rt h = w'" if w': "w' \<in> ?WS" for w'
    proof -
      obtain h where "map_of (sm_workers m) w' = Some h" using m(2) w' by (auto simp: services_known_def set_service_workers)
      then show ?thesis using r m(1) unfolding worker_routed_def by blast
    qed
    ultimately show ?thesis using m(1) unfolding leader_ok_def by blast
  qed
  have "ml_publisher (su_leaders su (worker_group w)) \<noteq> None" if "w \<in> ?WS" for w
    using running[of "Leader \<lparr> leader_group = worker_group w \<rparr>"] leaders[OF that] by (simp add: phase_ok_def)
  then have net: "net_ok W Rt ?WS (reg_peers su) keys ?net"
    using svc state hammer keys by (auto simp: net_ok_def worker_wired_def started_net_def worker_hammer_def)
  have sys_eq: "fst (started_system T ss (wire_plan Rt cs) su) = sys_of ?net None"
  proof -
    have "(if Leader \<lparr> leader_group = g \<rparr> \<in> set ss then leader_connected (su_leaders su g)
        else (leader_connected (su_leaders su g))\<lparr> ml_publisher := Some () \<rparr>)
      = \<lparr> ml_accumulator = ml_accumulator (su_leaders su g), ml_total_workers = ml_total_workers (su_leaders su g), ml_publisher = Some () \<rparr>" for g
      using running[of "Leader \<lparr> leader_group = g \<rparr>"] by (auto simp: leader_connected_def phase_ok_def)
    then show ?thesis by (simp add: started_system_def started_net_def sys_of_def)
  qed
  let ?means = "denotes W Rt ?WS (reg_peers su) token_ok"
  have idle: "list_all2 ?means (concat (map (\<lambda>w. map (\<lambda>(h, req). LeaderReq h req) (su_sent su w)) (service_workers ss)))
      (map (\<lambda>w. ToLeader (worker_group w) (accumulator_get (ws_accumulator (mw_state (su_workers su w)))))
        (filter (\<lambda>w. su_sent su w \<noteq> []) (service_workers ss)))"
  proof (rule list_all2_filter_map)
    fix w
    assume w: "w \<in> ?WS"
    let ?req = "\<lparr> ag_share = Some (share_of_accumulator (wire_acc_into W) (accumulator_get (ws_accumulator ws0))) \<rparr>"
    have "map snd (su_sent su w) = [?req] \<or> su_sent su w = []"
      using invD(4)[OF su(1), of w] unfolding worker_ok_def Let_def by (simp split: if_splits)
    moreover have "\<exists>y. map (\<lambda>(h, req). LeaderReq h req) (su_sent su w) = [y]
        \<and> ?means y (ToLeader (worker_group w) (accumulator_get (ws_accumulator ws0)))" if one: "map snd (su_sent su w) = [?req]"
    proof -
      obtain h where h: "su_sent su w = [(h, ?req)]" using one by auto
      moreover have "worker_routed Rt su w" using su(3) unfolding routed_def by blast
      ultimately have "rt_leader Rt h = worker_group w" by (simp add: worker_routed_def)
      moreover have "ToLeader (worker_group w) (accumulator_get (ws_accumulator ws0)) \<in># snd (started_system T ss (wire_plan Rt cs) su)"
        using w h by (auto simp: started_system_def state)
      then have "acc_ok (accumulator_get (ws_accumulator ws0))" using sums by fastforce
      ultimately show ?thesis
        using h w wire_protocol.acc_wire[OF wire_system.axioms(1)[OF sys]] wire_protocol.into_eq[OF wire_system.axioms(1)[OF sys]] by simp
    qed
    ultimately show "if su_sent su w \<noteq> []
      then \<exists>y. map (\<lambda>(h, req). LeaderReq h req) (su_sent su w) = [y]
        \<and> ?means y (ToLeader (worker_group w) (accumulator_get (ws_accumulator (mw_state (su_workers su w)))))
      else map (\<lambda>(h, req). LeaderReq h req) (su_sent su w) = []"
      by (auto simp: state)
  qed
  have "list_all2 ?means (wire_uploads token_into cs) (plan_uploads (wire_plan Rt cs))"
    using cs by (rule wire_system.uploads_related[OF sys])
  from rel_mset_union[OF rel_mset_list[OF this] rel_mset_list[OF idle]]
  have "rel_mset ?means (snd (started_net T ss cs token_into su)) (snd (started_system T ss (wire_plan Rt cs) su))"
    by (simp add: started_net_def started_system_def del: mset_map mset_concat)
  moreover have "net_result ?net = None" by (simp add: started_net_def)
  ultimately show ?thesis
    unfolding wire_system.related_def[OF sys] using net sys_eq by (intro conjI exI[of _ None]) simp_all
qed

end

section \<open>From the start to the result\<close>

context startup_system
begin

lemma deployed_start:
  assumes "store_wf st" "entries st = [[''experiment'', ''config''] \<mapsto> json]" "startup_init T e now st = Some su0"
    "(routed_step Rt P W procs)\<^sup>*\<^sup>* su0 su"
  shows "inv su" "routed Rt su"
proof -
  show "inv su" using reach_inv[OF assms(1-3) routed_startups[OF assms(4)]] .
  show "routed Rt su" using routed_steps[OF assms(4)] init_routed[OF assms(2,3)] init_inv[OF assms(1,2), of now] assms(3) by auto
qed

text \<open>\<open>infos\<close> are the clients, in some order; \<open>hss\<close> are their handles, which lead to the workers they have picked.\<close>

lemma deployed:
  fixes infos :: "('fr, 'sp) client_info list"
  assumes su: "inv su" "\<forall>s \<in> procs. su_phase su s = Running" "routed Rt su"
    and e: "\<not> ex_hammer e" "1 \<le> ex_group_size e" "collect_result (wire_key_from W) (ex_keys e) = Inr keys"
    and proto: "wire_protocol T W Rt keys token_ok acc_ok token_into" "proto_num_parties T = unat n"
    and infos: "distinct infos" "set infos = clients" "length acts = length infos" "length rs = length infos"
    and hss: "map (map (rt_worker Rt)) hss = map (\<lambda>c. the (su_shards su (client_idx c))) infos"
    and good: "\<And>tokens tk t. all_clients T keys acts rs = Some tokens \<Longrightarrow> tk \<in> set tokens \<Longrightarrow> t \<in> set tk \<Longrightarrow> token_ok t"
    and rounds: "\<And>shards. inputs_ok (unat n) (service_workers ss) acts rs (map client_idx infos) shards \<Longrightarrow>
      \<exists>plan. honest_plan T keys acts rs (map client_idx infos) shards = Some plan
        \<and> round_correct T A (wire_key_from W) e (service_workers ss) plan res
        \<and> sums_correct acc_ok T A (wire_key_from W) e (service_workers ss) plan"
  shows "\<exists>tokens. all_clients T keys acts rs = Some tokens
    \<and> net_round_from T A W Rt (started_net T ss (zip infos (zip hss tokens)) token_into su) (map (rt_into Rt) res)"
proof -
  let ?ids = "map client_idx infos"
  have ids: "distinct ?ids" "set ?ids = client_idx ` clients" "length acts = length ?ids" "length rs = length ?ids"
    using infos clients(2) by (auto simp: distinct_map)
  have shards: "map (\<lambda>i. the (su_shards su i)) ?ids = map (map (rt_worker Rt)) hss" by (simp add: hss comp_def)
  obtain plan where plan: "honest_plan T keys acts rs ?ids (map (map (rt_worker Rt)) hss) = Some plan" "plan_follows clients plan su"
      "round_correct T A (wire_key_from W) e (service_workers ss) plan res"
      "sums_correct acc_ok T A (wire_key_from W) e (service_workers ss) plan"
    using started_plan[OF su(1,2) e(2) ids rounds] unfolding shards by blast
  obtain tokens where tokens: "all_clients T keys acts rs = Some tokens" "plan = wire_plan Rt (zip infos (zip hss tokens))"
    using honest_plan_wire[OF plan(1)] by blast
  have peers: "reg_peers su w = map_of (rev (registrations plan w))" for w
    using plan_registers[OF su(1,2) plan(2)] unfolding plan_registered_def by blast
  have sums: "sums_from acc_ok T A (wire_key_from W) (started_system T ss plan su)"
    using plan(4) plan_registers[OF su(1,2) plan(2)] fresh
    unfolding sums_correct_def started_is_start[OF su(1,2) plan(2) e(1)] by blast
  note I = picked_inputs(1)[OF su(1,2) e(2) ids, folded proto(2), unfolded shards]
  have "\<forall>tk \<in> set tokens. \<forall>t \<in> set tk. token_ok t" using good[OF tokens(1)] by blast
  note ready = wire_protocol.wire_ready[OF proto(1) I this peers[unfolded tokens(2)]]
  have "wire_system.related W Rt keys token_ok (set (service_workers ss)) (reg_peers su)
      (started_net T ss (zip infos (zip hss tokens)) token_into su) (started_system T ss plan su)"
    unfolding tokens(2)
  proof (rule started_related[OF su e(1,3) ready(1)])
    fix t
    assume "t \<in># snd (started_system T ss (wire_plan Rt (zip infos (zip hss tokens))) su)"
    then show "sum_ok acc_ok t" using sums unfolding sums_from_def tokens(2) by blast
  qed (erule (1) ready(2))
  then have "net_round_from T A W Rt (started_net T ss (zip infos (zip hss tokens)) token_into su) (map (rt_into Rt) res)"
    using wire_system.net_round[OF ready(1)] started_round[OF su(1,2) e(1) plan(2,3)] sums by blast
  then show ?thesis using tokens(1) by blast
qed

text \<open>The same for an experiment of the constructor, from the store with the experiment in it.\<close>

lemma deployed_experiment:
  fixes infos :: "('fr, 'sp) client_info list"
  assumes e: "experiment_new protocol group_size total_clients False ks = Some e" "wrapper_num_parties protocol < 2 ^ 16"
      "proto_num_parties T = wrapper_num_parties protocol" "collect_result (wire_key_from W) ks = Inr keys"
    and start: "store_wf st" "entries st = [[''experiment'', ''config''] \<mapsto> json]" "startup_init T e now st = Some su0"
      "(routed_step Rt P W procs)\<^sup>*\<^sup>* su0 su" "\<forall>s \<in> procs. su_phase su s = Running"
    and proto: "wire_protocol T W Rt keys token_ok acc_ok token_into"
    and infos: "distinct infos" "set infos = clients" "length acts = length infos" "length rs = length infos"
    and hss: "map (map (rt_worker Rt)) hss = map (\<lambda>c. the (su_shards su (client_idx c))) infos"
    and good: "\<And>tokens tk t. all_clients T keys acts rs = Some tokens \<Longrightarrow> tk \<in> set tokens \<Longrightarrow> t \<in> set tk \<Longrightarrow> token_ok t"
    and rounds: "\<And>shards. inputs_ok (proto_num_parties T) (service_workers ss) acts rs (map client_idx infos) shards \<Longrightarrow>
      \<exists>plan. honest_plan T keys acts rs (map client_idx infos) shards = Some plan
        \<and> round_correct T A (wire_key_from W) e (service_workers ss) plan res
        \<and> sums_correct acc_ok T A (wire_key_from W) e (service_workers ss) plan"
  shows "\<exists>tokens. all_clients T keys acts rs = Some tokens
    \<and> net_round_from T A W Rt (started_net T ss (zip infos (zip hss tokens)) token_into su) (map (rt_into Rt) res)"
proof -
  note E = experiment_round[OF e(1,2)] and D = deployed_start[OF start(1-4)]
  have n: "proto_num_parties T = unat n" using E(1) e(3) groups by simp
  have keys: "collect_result (wire_key_from W) (ex_keys e) = Inr keys" using E(4) e(4) by simp
  show ?thesis
    by (rule deployed[OF D(1) start(5) D(2) E(2,3) keys proto n infos hss]) (use good rounds n in simp_all)
qed

end

section \<open>The three protocols\<close>

lemma two_key_deployed:
  fixes e :: "('r, 'fr, 'sp) experiment_spec" and env :: "('r, 'fr, 'sp, 'h, 'e) crypto_env"
  assumes sys: "startup_system S store_wf key_ok entries P (wrapper_protocol V) e ss n json clients ws0"
    and V: "crypto env validR frv validQ" "two_key_vdpf env channels msg_size = Some V"
    and acts: "list_all (action_valid (\<lambda>b. length b = msg_size) channels) acts"
    and keys: "vec_valid (\<lambda>k. validR (scalar_inner k)) channels keys"
    and e: "experiment_new (Secure V) group_size total_clients False (map wrapper_from_auth_key keys) = Some e"
    and start: "store_wf st" "entries st = [[''experiment'', ''config''] \<mapsto> json]" "startup_init (wrapper_protocol V) e now st = Some su0"
      "(routed_step Rt P (two_key_wire_ops (env_fr env)) (procs_of ss clients))\<^sup>*\<^sup>* su0 su" "\<forall>s \<in> procs_of ss clients. su_phase su s = Running"
    and Rt: "bytes_routes Rt"
    and infos: "distinct infos" "set infos = clients" "length acts = length infos" "length rs = length infos"
    and hss: "map (map (rt_worker Rt)) hss = map (\<lambda>c. the (su_shards su (client_idx c))) infos"
  shows "\<exists>tokens. all_clients (wrapper_protocol V) keys acts rs = Some tokens
    \<and> net_round_from (wrapper_protocol V) bytes_acc (two_key_wire_ops (env_fr env)) Rt
        (started_net (wrapper_protocol V) ss (zip infos (zip hss tokens)) (two_key_write_token_into (env_fr env)) su)
        (map (\<lambda>j. bytes_sum msg_size (channel_messages j acts)) [0..<channels])"
proof -
  let ?res = "map (\<lambda>j. bytes_sum msg_size (channel_messages j acts)) [0..<channels]"
  have sizes: "wrapper_num_parties (Secure V) < 2 ^ 16" "proto_num_parties (wrapper_protocol V) = wrapper_num_parties (Secure V)"
    using two_key_vdpf_sizes[OF V(2)] by simp_all
  have kf: "wire_key_from (two_key_wire_ops (env_fr env) :: (_, _, 'fr scalar, bytes, 'fr, 'sp) wire_ops) = auth_key_try_from"
    by (simp add: two_key_wire_ops_def)
  have ks: "collect_result (wire_key_from (two_key_wire_ops (env_fr env) :: (_, _, 'fr scalar, bytes, 'fr, 'sp) wire_ops))
      (map wrapper_from_auth_key keys) = Inr keys" by (simp add: kf auth_keys.collect_keys)
  have ss: "iter_services e = Some ss" using sys by (simp add: startup_system_def startup_system_axioms_def)
  have into: "map (rt_into Rt) ?res = ?res" using Rt by (simp add: bytes_routes_def)
  have rounds: "\<exists>plan. honest_plan (wrapper_protocol V) keys acts rs (map client_idx infos) shards = Some plan
      \<and> round_correct (wrapper_protocol V) bytes_acc auth_key_try_from e (service_workers ss) plan ?res
      \<and> sums_correct (\<lambda>_. True) (wrapper_protocol V) bytes_acc auth_key_try_from e (service_workers ss) plan"
    if "inputs_ok (proto_num_parties (wrapper_protocol V)) (service_workers ss) acts rs (map client_idx infos) shards" for shards
    using crypto.two_key_system[OF V acts keys e ss] that two_key_vdpf_sizes[OF V(2)] sums_correct_True by simp blast
  show ?thesis
    by (rule startup_system.deployed_experiment[where res = ?res and Rt = Rt, unfolded into, OF sys e sizes ks start
          crypto.two_key_wire_protocol[OF V keys Rt] infos hss])
      (erule (2) crypto.two_key_tokens_ok[OF V keys acts], unfold kf, erule rounds)
qed

lemma pub_deployed:
  fixes e :: "('r, 'fr, 'sp) experiment_spec" and env :: "('r, 'fr, 'sp, 'h, 'e) crypto_env"
  assumes sys: "startup_system S store_wf key_ok entries P (wrapper_protocol V) e ss n json clients ws0"
    and V: "crypto env validR frv validQ" "two_key_pub_vdpf env channels msg_size = Some V"
    and acts: "list_all (action_valid (\<lambda>b. length b = msg_size) channels) acts"
    and privates: "vec_valid (\<lambda>k. validR (scalar_inner k)) channels privates"
    and e: "experiment_new (SecurePub V) group_size total_clients False
      (map wrapper_from_pub_auth_key (map (key_pair_from (env_sp env)) privates)) = Some e"
    and start: "store_wf st" "entries st = [[''experiment'', ''config''] \<mapsto> json]" "startup_init (wrapper_protocol V) e now st = Some su0"
      "(routed_step Rt P (pub_wire_ops (env_sp env)) (procs_of ss clients))\<^sup>*\<^sup>* su0 su" "\<forall>s \<in> procs_of ss clients. su_phase su s = Running"
    and Rt: "bytes_routes Rt"
    and infos: "distinct infos" "set infos = clients" "length acts = length infos" "length rs = length infos"
    and hss: "map (map (rt_worker Rt)) hss = map (\<lambda>c. the (su_shards su (client_idx c))) infos"
  shows "\<exists>tokens. all_clients (wrapper_protocol V) (map (key_pair_from (env_sp env)) privates) acts rs = Some tokens
    \<and> net_round_from (wrapper_protocol V) bytes_acc (pub_wire_ops (env_sp env)) Rt
        (started_net (wrapper_protocol V) ss (zip infos (zip hss tokens)) (pub_write_token_into (env_sp env)) su)
        (map (\<lambda>j. bytes_sum msg_size (channel_messages j acts)) [0..<channels])"
proof -
  let ?res = "map (\<lambda>j. bytes_sum msg_size (channel_messages j acts)) [0..<channels]" and ?keys = "map (key_pair_from (env_sp env)) privates"
  have sizes: "wrapper_num_parties (SecurePub V) < 2 ^ 16" "proto_num_parties (wrapper_protocol V) = wrapper_num_parties (SecurePub V)"
    using two_key_pub_vdpf_sizes[OF V(2)] by simp_all
  have kf: "wire_key_from (pub_wire_ops (env_sp env) :: (_, _, ('fr, 'sp) key_pair, bytes, 'fr, 'sp) wire_ops) = pub_auth_key_try_from"
    by (simp add: pub_wire_ops_def)
  have ks: "collect_result (wire_key_from (pub_wire_ops (env_sp env) :: (_, _, ('fr, 'sp) key_pair, bytes, 'fr, 'sp) wire_ops))
      (map wrapper_from_pub_auth_key ?keys) = Inr ?keys" unfolding kf by (rule pub_auth_keys.collect_keys)
  have ss: "iter_services e = Some ss" using sys by (simp add: startup_system_def startup_system_axioms_def)
  have into: "map (rt_into Rt) ?res = ?res" using Rt by (simp add: bytes_routes_def)
  have rounds: "\<exists>plan. honest_plan (wrapper_protocol V) ?keys acts rs (map client_idx infos) shards = Some plan
      \<and> round_correct (wrapper_protocol V) bytes_acc pub_auth_key_try_from e (service_workers ss) plan ?res
      \<and> sums_correct (\<lambda>_. True) (wrapper_protocol V) bytes_acc pub_auth_key_try_from e (service_workers ss) plan"
    if "inputs_ok (proto_num_parties (wrapper_protocol V)) (service_workers ss) acts rs (map client_idx infos) shards" for shards
    using crypto.two_key_pub_system[OF V acts privates e ss] that two_key_pub_vdpf_sizes[OF V(2)] sums_correct_True by simp blast
  show ?thesis
    by (rule startup_system.deployed_experiment[where res = ?res and Rt = Rt, unfolded into, OF sys e sizes ks start
          crypto.pub_wire_protocol[OF V privates Rt] infos hss])
      (erule (2) crypto.pub_tokens_ok[OF V privates acts], unfold kf, erule rounds)
qed

lemma multi_key_deployed:
  fixes e :: "('r, 'fr, 'sp) experiment_spec" and env :: "('r, 'fr, 'sp, 'h, 'e) crypto_env"
  assumes sys: "startup_system S store_wf key_ok entries P (wrapper_protocol V) e ss n json clients ws0"
    and V: "crypto env validR frv validQ" "multi_key_vdpf env channels groups msg_size r = (V, r')" "2 \<le> groups" "groups < 2 ^ 16" "0 < channels"
    and acts: "list_all (action_valid (vec_valid (\<lambda>p. validQ (point_inner p)) (msg_size div 32 + 1)) channels) acts"
    and keys: "vec_valid (\<lambda>k. validR (scalar_inner k)) channels keys"
    and e: "experiment_new (SecureMultiKey V) group_size total_clients False (map wrapper_from_auth_key keys) = Some e"
    and start: "store_wf st" "entries st = [[''experiment'', ''config''] \<mapsto> json]" "startup_init (wrapper_protocol V) e now st = Some su0"
      "(routed_step Rt P (multi_key_wire_ops (env_fr env) (env_sp env)) (procs_of ss clients))\<^sup>*\<^sup>* su0 su"
      "\<forall>s \<in> procs_of ss clients. su_phase su s = Running"
    and Rt: "element_routes (env_sp env) Rt"
    and infos: "distinct infos" "set infos = clients" "length acts = length infos" "length rs = length infos"
    and hss: "map (map (rt_worker Rt)) hss = map (\<lambda>c. the (su_shards su (client_idx c))) infos"
  shows "\<exists>tokens. all_clients (wrapper_protocol V) keys acts rs = Some tokens
    \<and> net_round_from (wrapper_protocol V) (ev_acc (curve_exp (env_sp env))) (multi_key_wire_ops (env_fr env) (env_sp env)) Rt
        (started_net (wrapper_protocol V) ss (zip infos (zip hss tokens)) (multi_key_write_token_into (env_fr env) (env_sp env)) su)
        (map (\<lambda>j. ev_to_vec (point_to_vec (env_sp env))
            (fold_add (vec_monoid (curve_exp (env_sp env)) (msg_size div 32 + 1)) (channel_messages j acts))) [0..<channels])"
proof -
  let ?sums = "map (\<lambda>j. fold_add (vec_monoid (curve_exp (env_sp env)) (msg_size div 32 + 1)) (channel_messages j acts)) [0..<channels]"
  let ?ok = "vec_valid (vec_valid (\<lambda>p. validQ (point_inner p)) (msg_size div 32 + 1)) channels"
  have sizes: "wrapper_num_parties (SecureMultiKey V) < 2 ^ 16" "proto_num_parties (wrapper_protocol V) = wrapper_num_parties (SecureMultiKey V)"
    using multi_key_vdpf_sizes[OF V(2)] V(4) by simp_all
  have kf: "wire_key_from (multi_key_wire_ops (env_fr env) (env_sp env) :: (_, _, 'fr scalar, 'sp curve_point list, 'fr, 'sp) wire_ops) = auth_key_try_from"
    by (simp add: multi_key_wire_ops_def)
  have ks: "collect_result (wire_key_from (multi_key_wire_ops (env_fr env) (env_sp env) :: (_, _, 'fr scalar, 'sp curve_point list, 'fr, 'sp) wire_ops))
      (map wrapper_from_auth_key keys) = Inr keys" by (simp add: kf auth_keys.collect_keys)
  have ss: "iter_services e = Some ss" using sys by (simp add: startup_system_def startup_system_axioms_def)
  have into: "map (\<lambda>j. ev_to_vec (point_to_vec (env_sp env))
      (fold_add (vec_monoid (curve_exp (env_sp env)) (msg_size div 32 + 1)) (channel_messages j acts))) [0..<channels] = map (rt_into Rt) ?sums"
    using Rt by (simp add: element_routes_def)
  have rounds: "\<exists>plan. honest_plan (wrapper_protocol V) keys acts rs (map client_idx infos) shards = Some plan
      \<and> round_correct (wrapper_protocol V) (ev_acc (curve_exp (env_sp env))) auth_key_try_from e (service_workers ss) plan ?sums
      \<and> sums_correct ?ok (wrapper_protocol V) (ev_acc (curve_exp (env_sp env))) auth_key_try_from e (service_workers ss) plan"
    if "inputs_ok (proto_num_parties (wrapper_protocol V)) (service_workers ss) acts rs (map client_idx infos) shards" for shards
  proof -
    have ok: "inputs_ok groups (service_workers ss) acts rs (map client_idx infos) shards" using that multi_key_vdpf_sizes[OF V(2)] by simp
    show ?thesis
      using crypto.multi_key_system[OF V acts keys e ss ok] crypto.multi_key_sums[OF V acts keys e ss ok] by blast
  qed
  show ?thesis
    unfolding into
    by (rule startup_system.deployed_experiment[OF sys e sizes ks start
          crypto.multi_key_wire_protocol[OF V(1,2,3,5) keys Rt] infos hss])
      (erule (2) crypto.multi_key_tokens_ok[OF V(1,2,3,5) keys acts], unfold kf, erule rounds)
qed

section \<open>Concrete deployments\<close>

context startup_system
begin

text \<open>On a network on which connections succeed and lead to the right processes, a start completes.\<close>

lemma deploys:
  assumes "store_wf st" "entries st = [[''experiment'', ''config''] \<mapsto> json]" "startup_init T e now st = Some su0"
    and inp: "good_input inp" "reaches Rt P inp"
  shows "\<exists>su. (routed_step Rt P W procs)\<^sup>*\<^sup>* su0 su \<and> (\<forall>s \<in> procs. su_phase su s = Running)"
proof (rule completes_by[OF _ _ inp(1)])
  have "inv su0" "\<forall>s. su_phase su0 s = Booting" using init_inv[OF assms(1,2), of now] assms(3) by auto
  then show "inv su0" "on_time ss clients su0" by (simp_all add: on_time_def)
qed (use inp(2) in \<open>auto intro: routed_step.intros\<close>)

end

text \<open>The start of \<open>Composition\<close> on the network of \<open>Messages\<close>, where a connection to a URL succeeds and its handle is the URL.\<close>

definition demo_input :: "nat step_input" where
  "demo_input = \<lparr> si_health = \<lambda>_. Inr True, si_connect = Inr, si_attempt = \<lambda>a _. Inr a, si_random = 0 \<rparr>"

lemma demo_reaches: "reaches demo_routes demo_params demo_input"
  unfolding reaches_def by (simp only: demo_input_def demo_params_def step_input.simps startup_params.simps sum.inject) (use demo_routed in blast)

lemma demo_good_input: "good_input demo_input"
  unfolding demo_input_def by (rule demo_startup.good_input_exists)

lemmas demo_deploys = demo_startup.deploys[OF demo_start_ok demo_good_input demo_reaches]

text \<open>The same for the other two protocols.\<close>

definition demo_params_of :: "(nat, nat, nat) experiment_spec \<Rightarrow> (inmem_store, nat, nat, nat, nat) startup_params" where
  "demo_params_of e = demo_params\<lparr> sp_from_json := (\<lambda>_. Inr e) \<rparr>"

definition demo_element_routes :: "nat curve_point list routes" where
  "demo_element_routes = \<lparr> rt_worker = rt_worker demo_routes, rt_leader = rt_leader demo_routes,
     rt_from_share = (\<lambda>s. map_sum (\<lambda>_. ()) id (elements_try_from_share (point_try_from_vec residue_sp) s)),
     rt_into = ev_to_vec (point_to_vec residue_sp), rt_publish = ev_to_bytes (point_to_bytes residue_sp) \<rparr>"

lemma demo_elements: "element_routes residue_sp demo_element_routes"
  by (simp add: element_routes_def demo_element_routes_def)

lemma demo_reaches_of: "reaches demo_routes (demo_params_of e) demo_input" "reaches demo_element_routes (demo_params_of e) demo_input"
  using demo_reaches by (simp_all add: reaches_def demo_params_of_def demo_element_routes_def)

lemma demo_handles:
  assumes "rt_worker Rt = rt_worker demo_routes"
  shows "map (map (rt_worker Rt)) (map (\<lambda>c. map demo_url (the (f c))) cs) = map (\<lambda>c. the (f c)) cs"
  unfolding assms map_map comp_def demo_url_def demo_routed(1) by simp

lemma demo_infos:
  "distinct [client_info_new 0, client_info_new 1 :: (nat, nat) client_info]" "set [client_info_new 0, client_info_new 1] = demo_clients"
  by (simp_all add: demo_clients_def client_info_new_def)

definition demo_pub_fresh where
  "demo_pub_fresh = the (worker_from_experiment (wrapper_protocol demo_pub) demo_pub_experiment)"

definition demo_multi_fresh where
  "demo_multi_fresh = the (worker_from_experiment (wrapper_protocol demo_multi) demo_multi_experiment)"

lemma demo_system:
  assumes "iter_services e = Some ss" "experiment_groups e = Some n" "worker_from_experiment T e = Some ws0"
  shows "startup_system (inmem_ops (\<lambda>m. m)) (\<lambda>st. distinct (map fst (im_map st))) (\<lambda>_. True) (\<lambda>st. map_of (im_map st))
    (demo_params_of e) T e ss n ''demo'' demo_clients ws0"
proof (intro startup_system.intro startup_system_axioms.intro)
  show "discovery_store (inmem_ops (\<lambda>m. m)) (\<lambda>st. distinct (map fst (im_map st))) (\<lambda>_. True) (\<lambda>st. map_of (im_map st))"
    by (rule inmem_discovery_store) simp
  show "shard_choice (sp_pick (demo_params_of e)) (sp_order (demo_params_of e))"
    using shards_nth.shard_choice_axioms by (simp add: demo_params_of_def demo_params_def)
qed (use assms demo_startup.clients in \<open>simp_all add: demo_params_of_def demo_params_def parse_unary_date\<close>)

lemma demo_other_groups: "experiment_groups demo_pub_experiment = Some 2" "experiment_groups demo_multi_experiment = Some 3"
  using two_key_pub_vdpf_sizes[OF demo_pub_ok(1)] multi_key_vdpf_sizes[OF demo_multi_ok(1)]
  by (simp_all add: experiment_groups_def demo_pub_experiment_def demo_multi_experiment_def)

abbreviation demo_pub_wire where
  "demo_pub_wire \<equiv> pub_wire_ops residue_sp"

abbreviation demo_multi_wire where
  "demo_multi_wire \<equiv> multi_key_wire_ops residue_fr residue_sp"

interpretation demo_pub_startup: startup_system "inmem_ops (\<lambda>m. m)" "\<lambda>st. distinct (map fst (im_map st))" "\<lambda>_. True"
  "\<lambda>st. map_of (im_map st)" "demo_params_of demo_pub_experiment" demo_pub_wire "wrapper_protocol demo_pub" demo_pub_experiment
  demo_pub_services 2 "''demo''" demo_clients demo_pub_fresh
  by (rule demo_system[OF demo_pub_ok(3) demo_other_groups(1)]) (simp add: demo_pub_fresh_def worker_from_experiment_def demo_other_groups)

interpretation demo_multi_startup: startup_system "inmem_ops (\<lambda>m. m)" "\<lambda>st. distinct (map fst (im_map st))" "\<lambda>_. True"
  "\<lambda>st. map_of (im_map st)" "demo_params_of demo_multi_experiment" demo_multi_wire "wrapper_protocol demo_multi" demo_multi_experiment
  demo_multi_services 3 "''demo''" demo_clients demo_multi_fresh
  by (rule demo_system[OF demo_multi_ok(3) demo_other_groups(2)]) (simp add: demo_multi_fresh_def worker_from_experiment_def demo_other_groups)

definition demo_pub_start where
  "demo_pub_start = the (startup_init (wrapper_protocol demo_pub) demo_pub_experiment 0 demo_store)"

definition demo_multi_start where
  "demo_multi_start = the (startup_init (wrapper_protocol demo_multi) demo_multi_experiment 0 demo_store)"

lemma demo_starts_ok:
  "startup_init (wrapper_protocol demo_pub) demo_pub_experiment 0 demo_store = Some demo_pub_start"
  "startup_init (wrapper_protocol demo_multi) demo_multi_experiment 0 demo_store = Some demo_multi_start"
  using demo_pub_startup.init_inv[OF demo_start_ok(1,2), of 0] demo_multi_startup.init_inv[OF demo_start_ok(1,2), of 0]
  by (auto simp: demo_pub_start_def demo_multi_start_def)

lemmas demo_pub_deploys = demo_pub_startup.deploys[OF demo_start_ok(1,2) demo_starts_ok(1) demo_good_input demo_reaches_of(1)]

lemmas demo_multi_deploys = demo_multi_startup.deploys[OF demo_start_ok(1,2) demo_starts_ok(2) demo_good_input demo_reaches_of(2)]

end
