(* ===== verification/Suites.thy ===== *)
theory Suites
  imports Delivery
begin

text \<open>
  The repository's own specification of its traits: the property-based test suites that the macros \<open>check_*!\<close> expand to, and
  the tests of \<open>config/store.rs\<close> that every store has to pass. A test is an executable function of its random inputs that
  returns whether its assertions hold, \<open>None\<close> being a panic. The lemmas show that the implementations of the traits pass
  these tests on all inputs, not only on those that were tried.

  The tests that ask for different results of random draws (\<open>test_share_randomized\<close>, \<open>test_seed_random\<close>,
  \<open>test_not_deterministic\<close>, \<open>test_eval_pseudorandom\<close>) hold with high probability only and have no counterpart here.
\<close>

section \<open>Algebra\<close>

definition monoid_test_associative :: "('g, 'x) monoid_ops_scheme \<Rightarrow> 'g \<Rightarrow> 'g \<Rightarrow> 'g \<Rightarrow> bool" where
  "monoid_test_associative M a b c \<longleftrightarrow> m_add M (m_add M a b) c = m_add M a (m_add M b c)"

definition monoid_test_zero :: "('g, 'x) monoid_ops_scheme \<Rightarrow> 'g \<Rightarrow> bool" where
  "monoid_test_zero M a \<longleftrightarrow> a = m_add M a (m_zero M) \<and> a = m_add M (m_zero M) a"

definition exponent_test_sum :: "('g, 'e, 'x) exp_ops_scheme \<Rightarrow> ('e, 'y) field_ops_scheme \<Rightarrow> 'g \<Rightarrow> 'e \<Rightarrow> 'e \<Rightarrow> bool" where
  "exponent_test_sum G E base exp1 exp2 \<longleftrightarrow>
     m_add G (e_pow G base exp1) (e_pow G base exp2) = e_pow G base (m_add E exp1 exp2)"

definition exponent_test_product :: "('g, 'e, 'x) exp_ops_scheme \<Rightarrow> ('e, 'y) field_ops_scheme \<Rightarrow> 'g \<Rightarrow> 'e \<Rightarrow> 'e \<Rightarrow> bool" where
  "exponent_test_product G E base exp1 exp2 \<longleftrightarrow> e_pow G (e_pow G base exp1) exp2 = e_pow G base (f_mul E exp1 exp2)"

definition exponent_test_distributive :: "('g, 'e, 'x) exp_ops_scheme \<Rightarrow> 'g \<Rightarrow> 'g \<Rightarrow> 'e \<Rightarrow> bool" where
  "exponent_test_distributive G base1 base2 exp \<longleftrightarrow>
     e_pow G (m_add G base1 base2) exp = m_add G (e_pow G base1 exp) (e_pow G base2 exp)"

definition group_test_commutative :: "('g, 'x) monoid_ops_scheme \<Rightarrow> 'g \<Rightarrow> 'g \<Rightarrow> bool" where
  "group_test_commutative G a b \<longleftrightarrow> m_add G a b = m_add G b a"

definition group_test_inverse :: "('g, 'x) group_ops_scheme \<Rightarrow> 'g \<Rightarrow> bool" where
  "group_test_inverse G a \<longleftrightarrow> m_add G a (g_neg G a) = m_zero G"

definition field_test_mul_associative :: "('g, 'x) field_ops_scheme \<Rightarrow> 'g \<Rightarrow> 'g \<Rightarrow> 'g \<Rightarrow> bool" where
  "field_test_mul_associative F a b c \<longleftrightarrow> f_mul F (f_mul F a b) c = f_mul F a (f_mul F b c)"

definition field_test_mul_commutative :: "('g, 'x) field_ops_scheme \<Rightarrow> 'g \<Rightarrow> 'g \<Rightarrow> bool" where
  "field_test_mul_commutative F a b \<longleftrightarrow> f_mul F a b = f_mul F b a"

definition field_test_mul_identity :: "('g, 'x) field_ops_scheme \<Rightarrow> 'g \<Rightarrow> bool" where
  "field_test_mul_identity F a \<longleftrightarrow> f_mul F a (f_one F) = a"

definition field_test_mul_inverse :: "('g, 'x) field_ops_scheme \<Rightarrow> 'g \<Rightarrow> bool option" where
  "field_test_mul_inverse F a =
     (if a = m_zero F then Some True else do { inv \<leftarrow> f_inv F a; Some (f_mul F a inv = f_one F) })"

definition field_test_distributive :: "('g, 'x) field_ops_scheme \<Rightarrow> 'g \<Rightarrow> 'g \<Rightarrow> 'g \<Rightarrow> bool" where
  "field_test_distributive F a b c \<longleftrightarrow> f_mul F a (m_add F b c) = m_add F (f_mul F a b) (f_mul F a c)"

text \<open>The suites: \<open>check_group_laws!\<close>, \<open>check_field_laws!\<close> and \<open>check_monoid_custom_exponent!\<close> on given inputs.\<close>

definition group_suite :: "('g, 'x) group_ops_scheme \<Rightarrow> 'g \<Rightarrow> 'g \<Rightarrow> 'g \<Rightarrow> bool" where
  "group_suite G a b c \<longleftrightarrow> monoid_test_associative G a b c \<and> monoid_test_zero G a \<and> group_test_commutative G a b
     \<and> group_test_inverse G a"

definition field_suite :: "('g, 'x) field_ops_scheme \<Rightarrow> 'g \<Rightarrow> 'g \<Rightarrow> 'g \<Rightarrow> bool" where
  "field_suite F a b c \<longleftrightarrow> field_test_mul_associative F a b c \<and> field_test_mul_commutative F a b \<and> field_test_mul_identity F a
     \<and> field_test_mul_inverse F a = Some True \<and> field_test_distributive F a b c"

definition exponent_suite :: "('g, 'e, 'x) exp_ops_scheme \<Rightarrow> ('e, 'y) field_ops_scheme \<Rightarrow> 'g \<Rightarrow> 'g \<Rightarrow> 'g \<Rightarrow> 'e \<Rightarrow> 'e \<Rightarrow> bool" where
  "exponent_suite G E a b c x y \<longleftrightarrow> monoid_test_associative G a b c \<and> monoid_test_zero G a
     \<and> exponent_test_sum G E a x y \<and> exponent_test_product G E a x y \<and> exponent_test_distributive G a b x"

section \<open>Sharing\<close>

definition transpose_test_self_inverse :: "'a list list \<Rightarrow> bool option" where
  "transpose_test_self_inverse vec = do { t \<leftarrow> vec_transpose vec; t' \<leftarrow> vec_transpose t; Some (t' = vec) }"

definition transpose_test_dims :: "'a list list \<Rightarrow> bool option" where
  "transpose_test_dims vec =
     do { rust_assert (length (remdups_adj (map length vec)) = 1);
          rust_assert (length vec \<noteq> 0);
          inner \<leftarrow> vec_get (map length vec) 0;
          rust_assert (inner \<noteq> 0);
          transposed \<leftarrow> vec_transpose vec;
          Some (length transposed = inner \<and> (case map length transposed of [] \<Rightarrow> 0 | n # _ \<Rightarrow> n) = length vec) }"

definition test_share_recover_identity :: "('r, 'v, 's) share_ops \<Rightarrow> 'v \<Rightarrow> nat \<Rightarrow> 'r \<Rightarrow> bool option" where
  "test_share_recover_identity S v num_shares r =
     do { (shares, r') \<leftarrow> sh_share S v num_shares r; v' \<leftarrow> sh_recover S shares; Some (v' = v) }"

text \<open>\<open>#[should_panic]\<close>.\<close>

definition test_one_share_invalid :: "('r, 'v, 's) share_ops \<Rightarrow> 'v \<Rightarrow> 'r \<Rightarrow> bool" where
  "test_one_share_invalid S v r \<longleftrightarrow> sh_share S v 1 r = None"

definition test_constant_add ::
    "('r, 'g, 'g) share_ops \<Rightarrow> ('g, 'x) monoid_ops_scheme \<Rightarrow> 'g \<Rightarrow> 'g \<Rightarrow> nat \<Rightarrow> nat \<Rightarrow> 'r \<Rightarrow> bool option" where
  "test_constant_add S G v constant num_shares idx r =
     do { (shares, r') \<leftarrow> sh_share S v num_shares r;
          s \<leftarrow> vec_get shares idx;
          shares' \<leftarrow> vec_set shares idx (m_add G s constant);
          v' \<leftarrow> sh_recover S shares';
          Some (v' = m_add G v constant) }"

definition test_share_add ::
    "('r, 'g, 'g) share_ops \<Rightarrow> ('g, 'x) monoid_ops_scheme \<Rightarrow> 'g \<Rightarrow> 'g \<Rightarrow> nat \<Rightarrow> 'r \<Rightarrow> bool option" where
  "test_share_add S G v1 v2 num_shares r =
     do { (shares1, r1) \<leftarrow> sh_share S v1 num_shares r;
          (shares2, r2) \<leftarrow> sh_share S v2 num_shares r1;
          v' \<leftarrow> sh_recover S (map2 (m_add G) shares1 shares2);
          Some (v' = m_add G v1 v2) }"

definition test_constant_mul ::
    "('r, 'g, 'g) share_ops \<Rightarrow> ('g, 'x) field_ops_scheme \<Rightarrow> 'g \<Rightarrow> 'g \<Rightarrow> nat \<Rightarrow> 'r \<Rightarrow> bool option" where
  "test_constant_mul S F v constant num_shares r =
     do { (shares, r') \<leftarrow> sh_share S v num_shares r;
          v' \<leftarrow> sh_recover S (map (\<lambda>x. f_mul F x constant) shares);
          Some (v' = f_mul F v constant) }"

section \<open>Generators\<close>

definition test_null_seed_identity :: "('r, 's, 'o) sh_prg_ops \<Rightarrow> ('s, 'x) monoid_ops_scheme \<Rightarrow> 's \<Rightarrow> bool" where
  "test_null_seed_identity P F seed \<longleftrightarrow> m_add F seed (prg_null_seed P) = seed"

definition test_null_seed_maps_to_null_output :: "('r, 's, 'o) sh_prg_ops \<Rightarrow> bool option" where
  "test_null_seed_maps_to_null_output P = do { v \<leftarrow> prg_eval P (prg_null_seed P); Some (v = prg_null_output P) }"

definition test_null_output_identity :: "('r, 's, 'o) sh_prg_ops \<Rightarrow> 's \<Rightarrow> bool option" where
  "test_null_output_identity P seed =
     do { v \<leftarrow> prg_eval P seed;
          Some (prg_null_output P = prg_combine_outputs P [prg_null_output P, prg_null_output P]
            \<and> v = prg_combine_outputs P [v, prg_null_output P] \<and> v = prg_combine_outputs P [prg_null_output P, v]) }"

definition test_evaluation_preserves_operation :: "('r, 's, 'o) sh_prg_ops \<Rightarrow> 's \<Rightarrow> 's \<Rightarrow> bool option" where
  "test_evaluation_preserves_operation P seed1 seed2 =
     do { v1 \<leftarrow> prg_eval P seed1; v2 \<leftarrow> prg_eval P seed2; v \<leftarrow> prg_eval P (prg_combine_seeds P [seed1, seed2]);
          Some (prg_combine_outputs P [v1, v2] = v) }"

section \<open>Point functions\<close>

definition dpf_test_correct :: "('r, 'k, 'm, 'x) dpf_ops_scheme \<Rightarrow> 'm \<Rightarrow> nat \<Rightarrow> 'r \<Rightarrow> bool option" where
  "dpf_test_correct D data index r =
     do { (ks, r') \<leftarrow> dpf_gen D data index r;
          shares \<leftarrow> try_map (dpf_eval D) ks;
          output \<leftarrow> dpf_combine D shares;
          Some (list_all (\<lambda>(chunk_idx, chunk). chunk = (if chunk_idx = index then data else dpf_null_message D))
            (enumerate 0 output)) }"

definition dpf_test_correct_empty :: "('r, 'k, 'm, 'x) dpf_ops_scheme \<Rightarrow> 'r \<Rightarrow> bool option" where
  "dpf_test_correct_empty D r =
     do { (ks, r') \<leftarrow> dpf_gen_empty D r;
          shares \<leftarrow> try_map (dpf_eval D) ks;
          output \<leftarrow> dpf_combine D shares;
          Some (list_all (\<lambda>chunk. chunk = dpf_null_message D) output) }"

definition test_gen_proofs_complete ::
    "('r, 'k, 'm, 'a, 'p, 't, 'x) vdpf_ops_scheme \<Rightarrow> 'a list \<Rightarrow> 'm \<Rightarrow> nat \<Rightarrow> 'r \<Rightarrow> bool option" where
  "test_gen_proofs_complete V auth_keys data point_idx r =
     do { (ks, r1) \<leftarrow> dpf_gen V data point_idx r;
          auth_key \<leftarrow> vec_get auth_keys point_idx;
          (proof_shares, r2) \<leftarrow> vdpf_gen_proofs V auth_key point_idx ks r1;
          audit_tokens \<leftarrow> try_map (\<lambda>(k, p). vdpf_gen_audit V auth_keys k p) (zip ks proof_shares);
          vdpf_check_audit V audit_tokens }"

definition test_gen_proofs_noop_complete ::
    "('r, 'k, 'm, 'a, 'p, 't, 'x) vdpf_ops_scheme \<Rightarrow> 'a list \<Rightarrow> 'r \<Rightarrow> bool option" where
  "test_gen_proofs_noop_complete V auth_keys r =
     do { (ks, r1) \<leftarrow> dpf_gen_empty V r;
          (proof_shares, r2) \<leftarrow> vdpf_gen_proofs_noop V r1;
          audit_tokens \<leftarrow> try_map (\<lambda>(k, p). vdpf_gen_audit V auth_keys k p) (zip ks proof_shares);
          vdpf_check_audit V audit_tokens }"

section \<open>Private information retrieval\<close>

definition test_pir :: "('r, 'row, 'q, 'resp, 'x) pir_ops_scheme \<Rightarrow> nat \<Rightarrow> 'r \<Rightarrow> bool option" where
  "test_pir D idx r =
     (if pir_len D = 0 then Some True
      else do { qs \<leftarrow> pir_queries D idx (pir_len D) r;
                (queries, r') \<leftarrow> result_unwrap qs;
                responses \<leftarrow> try_map (\<lambda>q. do { a \<leftarrow> pir_answer D q; result_unwrap a }) queries;
                row \<leftarrow> pir_combine D responses;
                expected \<leftarrow> pir_get D idx;
                Some (row = expected) })"

section \<open>Accumulators\<close>

definition acc_test_same_params :: "('m, 'p) acc_ops \<Rightarrow> 'm \<Rightarrow> 'm \<Rightarrow> bool" where
  "acc_test_same_params A a b \<longleftrightarrow> acc_params A a = acc_params A b"

definition acc_test_associative :: "('m, 'p) acc_ops \<Rightarrow> 'm \<Rightarrow> 'm \<Rightarrow> 'm \<Rightarrow> bool option" where
  "acc_test_associative A a b c =
     do { ab \<leftarrow> acc_combine A a b; abc \<leftarrow> acc_combine A ab c;
          bc \<leftarrow> acc_combine A b c; abc' \<leftarrow> acc_combine A a bc;
          Some (abc = abc') }"

definition acc_test_commutative :: "('m, 'p) acc_ops \<Rightarrow> 'm \<Rightarrow> 'm \<Rightarrow> bool option" where
  "acc_test_commutative A a b = do { ab \<leftarrow> acc_combine A a b; ba \<leftarrow> acc_combine A b a; Some (ab = ba) }"

definition acc_test_empty :: "('m, 'p) acc_ops \<Rightarrow> 'm \<Rightarrow> bool option" where
  "acc_test_empty A a = do { p \<leftarrow> acc_params A a; acc \<leftarrow> acc_combine A a (acc_empty A p); Some (acc = a) }"

definition accumulatable_suite :: "('m, 'p) acc_ops \<Rightarrow> 'm \<Rightarrow> 'm \<Rightarrow> 'm \<Rightarrow> bool" where
  "accumulatable_suite A a b c \<longleftrightarrow> acc_test_same_params A a b \<and> acc_test_associative A a b c = Some True
     \<and> acc_test_commutative A a b = Some True \<and> acc_test_empty A a = Some True"

section \<open>Protocols\<close>

text \<open>\<open>get_server_shares\<close>: every server gets the shares addressed to it, by token.\<close>

definition get_server_shares ::
    "('r, 'm, 'k, 'w, 't, 'x) protocol_ops_scheme \<Rightarrow> 'w list \<Rightarrow> 'k list \<Rightarrow> 't list list option" where
  "get_server_shares T tokens keys =
     try_fold (\<lambda>server_shares token. do { shares \<leftarrow> proto_gen_audit T keys token; push_row server_shares 0 shares })
       (replicate (proto_num_parties T) []) tokens"

definition test_cover_complete :: "('r, 'm, 'k, 'w, 't, 'x) protocol_ops_scheme \<Rightarrow> 'k list \<Rightarrow> 'r \<Rightarrow> bool option" where
  "test_cover_complete T keys r =
     do { (tokens, r') \<leftarrow> proto_cover T r;
          if length tokens \<noteq> proto_num_parties T then Some False
          else do { shares \<leftarrow> get_server_shares T tokens keys;
                    verdicts \<leftarrow> try_map (proto_check_audit T) shares;
                    Some (list_all (\<lambda>b. b) verdicts) } }"

definition test_broadcast_complete ::
    "('r, 'm, 'k, 'w, 't, 'x) protocol_ops_scheme \<Rightarrow> 'k list \<Rightarrow> 'm \<Rightarrow> nat \<Rightarrow> 'r \<Rightarrow> bool option" where
  "test_broadcast_complete T keys msg idx r =
     do { good_key \<leftarrow> vec_get keys idx;
          (tokens, r') \<leftarrow> proto_broadcast T msg idx good_key r;
          if length tokens \<noteq> proto_num_parties T then Some False
          else do { shares \<leftarrow> get_server_shares T tokens keys;
                    verdicts \<leftarrow> try_map (proto_check_audit T) shares;
                    Some (list_all (\<lambda>b. b) verdicts) } }"

definition test_broadcast_soundness ::
    "('r, 'm, 'k, 'w, 't, 'x) protocol_ops_scheme \<Rightarrow> 'k list \<Rightarrow> 'm \<Rightarrow> 'k \<Rightarrow> nat \<Rightarrow> 'r \<Rightarrow> bool option" where
  "test_broadcast_soundness T good_keys msg bad_key idx r =
     (if bad_key \<in> set good_keys then Some True
      else do { (tokens, r') \<leftarrow> proto_broadcast T msg idx bad_key r;
                if length tokens \<noteq> proto_num_parties T then Some False
                else do { shares \<leftarrow> get_server_shares T tokens good_keys;
                          verdicts \<leftarrow> try_map (proto_check_audit T) shares;
                          Some (list_all Not verdicts) } })"

definition combine_tokens ::
    "('r, 'm, 'k, 'w, 't, 'x) protocol_ops_scheme \<Rightarrow> ('m, 'p) acc_ops \<Rightarrow> 'm list \<Rightarrow> 'w list \<Rightarrow> 'm list option" where
  "combine_tokens T A acc tokens =
     try_fold (\<lambda>acc token. do { v \<leftarrow> proto_to_accumulator T token; acc_combine (vec_acc A) acc v }) acc tokens"

definition test_cover_correct ::
    "('r, 'm, 'k, 'w, 't, 'x) protocol_ops_scheme \<Rightarrow> ('m, 'p) acc_ops \<Rightarrow> 'm list \<Rightarrow> 'r \<Rightarrow> bool option" where
  "test_cover_correct T A accumulator r =
     (if length accumulator \<noteq> proto_num_channels T then Some False
      else do { (tokens, r') \<leftarrow> proto_cover T r;
                res \<leftarrow> combine_tokens T A accumulator tokens;
                Some (res = accumulator) })"

definition test_broadcast_correct ::
    "('r, 'm, 'k, 'w, 't, 'x) protocol_ops_scheme \<Rightarrow> ('m, 'p) acc_ops \<Rightarrow> 'p \<Rightarrow> 'k list \<Rightarrow> 'm \<Rightarrow> nat \<Rightarrow> 'r \<Rightarrow> bool option" where
  "test_broadcast_correct T A params keys msg key_idx r =
     do { good_key \<leftarrow> vec_get keys key_idx;
          (tokens, r') \<leftarrow> proto_broadcast T msg key_idx good_key r;
          recovered_msgs \<leftarrow> combine_tokens T A (proto_new_accumulator T) tokens;
          Some (length recovered_msgs = proto_num_channels T
            \<and> list_all (\<lambda>(msg_idx, actual_msg). actual_msg = (if msg_idx = key_idx then msg else acc_empty A params))
                (enumerate 0 recovered_msgs)) }"

definition protocol_suite ::
    "('r, 'm, 'k, 'w, 't, 'x) protocol_ops_scheme \<Rightarrow> ('m, 'p) acc_ops \<Rightarrow> 'p \<Rightarrow> 'k list \<Rightarrow> 'm \<Rightarrow> nat \<Rightarrow> 'k \<Rightarrow> 'm list \<Rightarrow> 'r \<Rightarrow> bool" where
  "protocol_suite T A params keys msg idx bad_key acc r \<longleftrightarrow>
     test_cover_complete T keys r = Some True \<and> test_broadcast_complete T keys msg idx r = Some True
     \<and> test_broadcast_soundness T keys msg bad_key idx r = Some True
     \<and> test_cover_correct T A acc r = Some True \<and> test_broadcast_correct T A params keys msg idx r = Some True"

section \<open>Stores\<close>

definition run_test_put_and_get :: "('st, 'x) store_ops_scheme \<Rightarrow> 'st \<Rightarrow> config_key \<Rightarrow> config_value \<Rightarrow> bool option" where
  "run_test_put_and_get S st key v =
     (case store_put S st key v of
        Inl err \<Rightarrow> Some False
      | Inr st' \<Rightarrow> do { res \<leftarrow> store_get S st' key; Some (res = Inr (Some v)) })"

definition run_test_get_empty :: "('st, 'x) store_ops_scheme \<Rightarrow> 'st \<Rightarrow> config_key \<Rightarrow> bool option" where
  "run_test_get_empty S st key = do { res \<leftarrow> store_get S st key; Some (res = Inr None) }"

fun put_all :: "('st, 'x) store_ops_scheme \<Rightarrow> 'st \<Rightarrow> config_key list \<Rightarrow> config_value \<Rightarrow> crate_error + 'st" where
  "put_all S st [] v = Inr st"
| "put_all S st (k # ks) v = (case store_put S st k v of Inl err \<Rightarrow> Inl err | Inr st' \<Rightarrow> put_all S st' ks v)"

definition run_test_put_and_get_keep_latter ::
    "('st, 'x) store_ops_scheme \<Rightarrow> 'st \<Rightarrow> config_key \<Rightarrow> config_value \<Rightarrow> config_value \<Rightarrow> bool option" where
  "run_test_put_and_get_keep_latter S st key v1 v2 =
     (case store_put S st key v1 of
        Inl err \<Rightarrow> Some False
      | Inr st1 \<Rightarrow>
          (case store_put S st1 key v2 of
             Inl err \<Rightarrow> Some False
           | Inr st2 \<Rightarrow> do { res \<leftarrow> store_get S st2 key; Some (res = Inr (Some v2)) }))"

text \<open>The sets of keys are given in the order in which they are iterated.\<close>

definition run_test_list ::
    "('st, 'x) store_ops_scheme \<Rightarrow> 'st \<Rightarrow> config_key \<Rightarrow> config_key list \<Rightarrow> config_key list \<Rightarrow> config_value \<Rightarrow> bool" where
  "run_test_list S st pre sufs other_keys v =
     (case put_all S st (map (\<lambda>suffix. pre @ suffix) sufs) v of
        Inl err \<Rightarrow> False
      | Inr st1 \<Rightarrow>
          (case put_all S st1 (filter (\<lambda>key. \<not> prefix pre key) other_keys) v of
             Inl err \<Rightarrow> False
           | Inr st2 \<Rightarrow>
               (case store_list S st2 pre of
                  Inl err \<Rightarrow> False
                | Inr result \<Rightarrow> set (map fst result) = set (map (\<lambda>s. pre @ s) sufs) \<and> list_all (\<lambda>(k, u). u = v) result)))"


section \<open>The implementations pass\<close>

context ab_group_laws
begin

lemma group_suite_passes: "valid a \<Longrightarrow> valid b \<Longrightarrow> valid c \<Longrightarrow> group_suite M a b c"
  unfolding group_suite_def monoid_test_associative_def monoid_test_zero_def group_test_commutative_def group_test_inverse_def
  by (metis add_assoc add_commute add_zero zero_add add_neg sub_self)

end

context field_laws
begin

lemma field_suite_passes:
  assumes "valid a" "valid b" "valid c"
  shows "field_suite M a b c"
proof -
  have "field_test_mul_inverse M a = Some True" using inv_nonzero[OF assms(1)] by (auto simp: field_test_mul_inverse_def)
  then show ?thesis
    using mul_assoc[OF assms] mul_commute[OF assms(1,2)] mul_one[OF assms(1)] distrib[OF assms]
    unfolding field_suite_def field_test_mul_associative_def field_test_mul_commutative_def field_test_mul_identity_def
      field_test_distributive_def by blast
qed

end

context exp_laws
begin

lemma exponent_suite_passes:
  "validG a \<Longrightarrow> validG b \<Longrightarrow> validG c \<Longrightarrow> validE x \<Longrightarrow> validE y \<Longrightarrow> exponent_suite G E a b c x y"
  by (simp add: exponent_suite_def monoid_test_associative_def monoid_test_zero_def exponent_test_sum_def exponent_test_product_def
      exponent_test_distributive_def G.add_assoc G.add_zero G.zero_add pow_add pow_mul pow_distrib)

end

text \<open>Transposition of nonempty rectangular matrices.\<close>

lemma transpose_suite_passes:
  assumes "rect m n t" "0 < m" "0 < n"
  shows "transpose_test_self_inverse t = Some True" "transpose_test_dims t = Some True"
proof -
  show "transpose_test_self_inverse t = Some True"
    using vec_transpose_involution[OF assms] by (auto simp: transpose_test_self_inverse_def bind_eq_Some_conv)
  have t: "t \<noteq> []" "map length t \<noteq> []" "length t = m" "length (hd t) = n" "t ! 0 = hd t"
    using assms by (auto simp: rect_def hd_conv_nth)
  have adj: "remdups_adj (map length t) = [n]" using assms t by (intro remdups_adj_all_same) (auto simp: rect_def)
  show "transpose_test_dims t = Some True"
    using t adj assms(2,3)
    by (simp add: transpose_test_dims_def rust_assert_def vec_transpose_rect[OF assms] columns_def comp_def map_replicate_const)
      (cases n, simp_all)
qed

context shareable
begin

lemma shareable_suite_passes:
  assumes "valid v"
  shows "2 \<le> num_shares \<Longrightarrow> test_share_recover_identity S v num_shares r = Some True" "test_one_share_invalid S v r"
proof -
  show "test_share_recover_identity S v num_shares r = Some True" if "2 \<le> num_shares"
    using share_spec[OF assms that, of r] by (auto simp: test_share_recover_identity_def)
qed (simp add: test_one_share_invalid_def share_too_few)

end

context comm_ring_laws
begin

lemma linearly_shareable_suite_passes:
  assumes "valid v" "valid cst" "valid w" "2 \<le> num_shares" "sampler_in valid sample"
  shows "idx < num_shares \<Longrightarrow> test_constant_add (group_shareable M sample) M v cst num_shares idx r = Some True"
    "test_share_add (group_shareable M sample) M v w num_shares r = Some True"
    "test_constant_mul (group_shareable M sample) M v cst num_shares r = Some True"
proof -
  obtain xs r1 where xs: "group_share M sample v num_shares r = Some (xs, r1)" "length xs = num_shares" "list_all valid xs" "fold_add M xs = v"
    using group_share_spec[OF assms(1,4,5), of r] by blast
  obtain ys r2 where ys: "group_share M sample w num_shares r1 = Some (ys, r2)" "length ys = num_shares" "list_all valid ys" "fold_add M ys = w"
    using group_share_spec[OF assms(3,4,5), of r1] by blast
  have recover: "group_recover M zs = Some (fold_add M zs)" if "length zs = num_shares" for zs
    using that assms(4) by (simp add: group_recover_def fold_add_def)
  show "test_constant_add (group_shareable M sample) M v cst num_shares idx r = Some True" if idx: "idx < num_shares"
  proof -
    have "fold_add M (xs[idx := m_add M (xs ! idx) cst]) = m_add M v cst"
      using fold_add_update[of idx xs cst] xs idx assms(2) by simp
    then show ?thesis using xs recover idx by (simp add: test_constant_add_def group_shareable_def)
  qed
  show "test_share_add (group_shareable M sample) M v w num_shares r = Some True"
    using xs ys recover[of "map2 (m_add M) xs ys"] fold_add_map2[of xs ys] by (simp add: test_share_add_def group_shareable_def)
  show "test_constant_mul (group_shareable M sample) M v cst num_shares r = Some True"
    using xs recover[of "map (\<lambda>x. f_mul M x cst) xs"] fold_add_mul[OF xs(3) assms(2)] by (simp add: test_constant_mul_def group_shareable_def)
qed

end

context seed_homomorphic_prg
begin

lemma shprg_suite_passes:
  assumes "validS s" "validS t"
  shows "test_null_seed_identity P F s" "test_null_seed_maps_to_null_output P = Some True"
    "test_null_output_identity P s = Some True" "test_evaluation_preserves_operation P s t = Some True"
proof -
  show "test_null_seed_identity P F s" using assms by (simp add: test_null_seed_identity_def null_seed seed.add_zero)
  show "test_null_seed_maps_to_null_output P = Some True"
    by (simp add: test_null_seed_maps_to_null_output_def null_seed eval_eq seed.zero_valid expand_zero null_output)
  show "test_null_output_identity P s = Some True"
    using assms by (simp add: test_null_output_identity_def eval_eq null_output combine_pair out.zero_valid out.add_zero out.zero_add expand_valid)
  show "test_evaluation_preserves_operation P s t = Some True"
    using assms eval_combine_seeds[of "[s, t]"] by (simp add: test_evaluation_preserves_operation_def eval_eq)
qed

end

context dpf_contract
begin

lemma dpf_suite_passes:
  shows "valid msg \<Longrightarrow> idx < dpf_points D \<Longrightarrow> dpf_test_correct D msg idx r = Some True" "dpf_test_correct_empty D r = Some True"
proof -
  show "dpf_test_correct D msg idx r = Some True" if ok: "valid msg" "idx < dpf_points D"
  proof -
    obtain ks r' where ks: "dpf_gen D msg idx r = Some (ks, r')" "dpf_run D ks = Some (point_vec D idx msg)" using gen_correct[OF ok] by blast
    have "list_all (\<lambda>(i, chunk). chunk = (if i = idx then msg else dpf_null_message D)) (enumerate 0 (point_vec D idx msg))"
      using ok(2) by (auto simp: list_all_length nth_enumerate_eq point_vec_def nth_list_update)
    then show ?thesis using ks by (auto simp: dpf_test_correct_def dpf_run_def bind_eq_Some_conv)
  qed
  obtain ks r' where "dpf_gen_empty D r = Some (ks, r')" "dpf_run D ks = Some (null_vec D)" using gen_empty_correct[of r] by blast
  then show "dpf_test_correct_empty D r = Some True"
    by (auto simp: dpf_test_correct_empty_def dpf_run_def bind_eq_Some_conv null_vec_def list_all_iff)
qed

end

context vdpf_contract
begin

lemma vdpf_suite_passes:
  assumes "vec_valid validA (dpf_points V) auths"
  shows "valid msg \<Longrightarrow> idx < dpf_points V \<Longrightarrow> test_gen_proofs_complete V auths msg idx r = Some True"
    "test_gen_proofs_noop_complete V auths r = Some True"
proof -
  have len: "length auths = dpf_points V" using assms by (simp add: vec_valid_def)
  show "test_gen_proofs_complete V auths msg idx r = Some True" if ok: "valid msg" "idx < dpf_points V"
    using broadcast_run[OF ok assms, of r] ok(2) len by (auto simp: test_gen_proofs_complete_def vdpf_audit_def)
  show "test_gen_proofs_noop_complete V auths r = Some True"
    using cover_run[OF assms, of r] by (auto simp: test_gen_proofs_noop_complete_def vdpf_audit_def)
qed

end

context pir_contract
begin

lemma pir_suite_passes: "idx < pir_len D \<Longrightarrow> test_pir D idx r = Some True"
  using fetch_correct[of idx r] by (auto simp: test_pir_def pir_fetch_def bind_eq_Some_conv)

end

context accumulatable
begin

lemma accumulatable_suite_passes:
  assumes "valid a" "valid b" "valid c"
  shows "accumulatable_suite A a b c"
  using add_assoc[OF assms] add_commute[OF assms(1,2)] add_zero[OF assms(1)] assms
  by (simp add: accumulatable_suite_def acc_test_same_params_def acc_test_associative_def acc_test_commutative_def acc_test_empty_def
      combine_eq empty_eq params_eq add_valid zero_valid)

end


subsection \<open>Protocols\<close>

lemma get_server_shares_eq:
  assumes "\<And>token. token \<in> set tokens \<Longrightarrow> \<exists>shares. proto_gen_audit T keys token = Some shares \<and> length shares = proto_num_parties T"
  shows "get_server_shares T tokens keys = server_shares T keys tokens"
proof -
  let ?k = "proto_num_parties T"
  obtain f where f: "\<And>token. token \<in> set tokens \<Longrightarrow> proto_gen_audit T keys token = Some (f token) \<and> length (f token) = ?k"
    using assms by metis
  have "try_fold (\<lambda>ss token. do { shares \<leftarrow> proto_gen_audit T keys token; push_row ss 0 shares }) ss ts = try_fold (\<lambda>t row. push_row t 0 row) ss (map f ts)"
    if "set ts \<subseteq> set tokens" for ss ts
    using that f by (induction ts arbitrary: ss) auto
  moreover have "try_fold (\<lambda>t row. push_row t 0 row) (columns ?k []) (map f tokens) = Some (columns ?k ([] @ map f tokens))"
    using f by (intro push_rows_columns) auto
  moreover have "replicate ?k [] = columns ?k ([] :: 'b list list)" by (simp add: columns_def map_replicate_const)
  moreover have "try_map (proto_gen_audit T keys) tokens = Some (map f tokens)" using f by (intro try_map_eq_map) auto
  ultimately show ?thesis by (simp add: get_server_shares_def server_shares_def)
qed

text \<open>The servers' shares in the test are those of the model of a round, so its verdicts are too.\<close>

lemma server_shares_verdicts:
  assumes "audit_verdicts (wrapper_protocol V) keys tokens = Some bs"
  shows "(get_server_shares (wrapper_protocol V) tokens keys \<bind> try_map (wrapper_check_audit V)) = Some bs"
proof -
  have "try_map (wrapper_gen_audit V keys) tokens \<noteq> None" using assms by (auto simp: audit_verdicts_def server_shares_def bind_eq_Some_conv)
  then have "wrapper_gen_audit V keys token \<noteq> None" if "token \<in> set tokens" for token
    using that by (auto simp: try_map_None_iff)
  then have "\<exists>shares. wrapper_gen_audit V keys token = Some shares \<and> length shares = dpf_keys V" if "token \<in> set tokens" for token
    using that by (force simp: wrapper_gen_audit_def bind_eq_Some_conv)
  then have "get_server_shares (wrapper_protocol V) tokens keys = server_shares (wrapper_protocol V) keys tokens"
    by (intro get_server_shares_eq) simp
  then show ?thesis using assms by (simp add: audit_verdicts_def)
qed

context protocol_round
begin

lemma combine_tokens_eq:
  assumes "list_all (\<lambda>t. validK (wt_key t)) tokens" "vec_valid valid (dpf_points V) acc"
  shows "combine_tokens T A acc tokens = Some (map2 (m_add M) acc (fold_add VM (map (\<lambda>t. out (wt_key t)) tokens)))"
proof -
  have "combine_tokens T A a tokens = try_fold (acc_combine (vec_acc A)) a (map (\<lambda>t. out (wt_key t)) tokens)" for a
    using assms(1) unfolding combine_tokens_def by (induction tokens arbitrary: a) (simp_all add: wrapper_to_accumulator_def eval_eq)
  moreover have "list_all (vec_valid valid (dpf_points V)) (map (\<lambda>t. out (wt_key t)) tokens)"
    using assms(1) by (auto simp: list_all_iff out_valid)
  ultimately show ?thesis using acc.fold_vec_combine[OF assms(2)] by simp
qed

text \<open>An honest broadcaster and cover traffic: the tests of completeness and correctness.\<close>

lemma broadcast_suite_passes:
  assumes msg: "valid msg" "idx < dpf_points V" and keys: "vec_valid validA (dpf_points V) keys"
  shows "test_broadcast_complete T keys msg idx r = Some True" "test_broadcast_correct T A params keys msg idx r = Some True"
proof -
  obtain ks r1 where ks: "dpf_gen V msg idx r = Some (ks, r1)" "length ks = dpf_keys V" "list_all validK ks"
      "fold_add VM (map out ks) = point_vec V idx msg"
    using gen_spec[OF msg, of r] by blast
  obtain ps r2 where ps: "vdpf_gen_proofs V (keys ! idx) idx ks r1 = Some (ps, r2)" "length ps = dpf_keys V" "vdpf_audit V keys ks ps = Some True"
    using proofs_complete[OF msg keys ks(1)] by blast
  define ts where "ts = map2 write_token_new ks ps"
  have ts: "map wt_key ts = ks" "map wt_proof ts = ps" "length ts = dpf_keys V"
    using tokens_unzip[of ks ps] ks(2) ps(2) by (simp_all add: ts_def)
  have key: "vec_get keys idx = Some (keys ! idx)" using keys msg(2) by (simp add: vec_valid_def)
  have run: "wrapper_broadcast V msg idx (keys ! idx) r = Some (ts, r2)" using ks(1) ps(1) by (simp add: wrapper_broadcast_def ts_def)
  show "test_broadcast_complete T keys msg idx r = Some True"
    using server_shares_verdicts[OF wrapper_verdicts[of ts V keys True]] ts ps(3) key run
    by (auto simp: test_broadcast_complete_def bind_eq_Some_conv list_all_iff)
  have "list_all (\<lambda>t. validK (wt_key t)) ts" using ks(3) ts(1) by (metis list_all_map_iff)
  moreover have "map (\<lambda>t. out (wt_key t)) ts = map out ks" using arg_cong[OF ts(1), of "map out"] by (simp only: map_map comp_def)
  moreover have pv: "vec_valid valid (dpf_points V) (point_vec V idx msg)" using action_vec_valid[of "Broadcast idx msg"] msg by (simp add: action_vec_def)
  ultimately have "combine_tokens T A (wrapper_new_accumulator V) ts = Some (point_vec V idx msg)"
    using combine_tokens_eq[of ts "m_zero VM"] ks(4) vec_zero_valid vec_zero_add[OF pv] by (simp add: new_accumulator_eq)
  moreover have "list_all (\<lambda>(i, m). m = (if i = idx then msg else acc_empty A params)) (enumerate 0 (point_vec V idx msg))"
    by (auto simp: list_all_length nth_enumerate_eq point_vec_def nth_list_update null_message acc.empty_eq)
  ultimately show "test_broadcast_correct T A params keys msg idx r = Some True"
    using key run by (simp add: test_broadcast_correct_def point_vec_def)
qed

lemma cover_suite_passes:
  assumes keys: "vec_valid validA (dpf_points V) keys" and acc: "vec_valid valid (dpf_points V) acc"
  shows "test_cover_complete T keys r = Some True" "test_cover_correct T A acc r = Some True"
proof -
  obtain ks r1 where ks: "dpf_gen_empty V r = Some (ks, r1)" "length ks = dpf_keys V" "list_all validK ks"
      "fold_add VM (map out ks) = null_vec V"
    using gen_empty_spec[of r] by blast
  obtain ps r2 where ps: "vdpf_gen_proofs_noop V r1 = Some (ps, r2)" "length ps = dpf_keys V" "vdpf_audit V keys ks ps = Some True"
    using noop_complete[OF keys ks(1)] by blast
  define ts where "ts = map2 write_token_new ks ps"
  have ts: "map wt_key ts = ks" "map wt_proof ts = ps" "length ts = dpf_keys V"
    using tokens_unzip[of ks ps] ks(2) ps(2) by (simp_all add: ts_def)
  have run: "wrapper_cover V r = Some (ts, r2)" using ks(1) ps(1) by (simp add: wrapper_cover_def ts_def)
  show "test_cover_complete T keys r = Some True"
    using server_shares_verdicts[OF wrapper_verdicts[of ts V keys True]] ts ps(3) run
    by (auto simp: test_cover_complete_def bind_eq_Some_conv list_all_iff)
  have "list_all (\<lambda>t. validK (wt_key t)) ts" using ks(3) ts(1) by (metis list_all_map_iff)
  moreover have "map (\<lambda>t. out (wt_key t)) ts = map out ks" using arg_cong[OF ts(1), of "map out"] by (simp only: map_map comp_def)
  ultimately have "combine_tokens T A acc ts = Some (map2 (m_add M) acc (m_zero VM))"
    using combine_tokens_eq[of ts acc] ks(4) acc by (simp add: null_vec_eq)
  moreover have "map2 (m_add M) acc (m_zero VM) = acc" using vec_add_zero[OF acc] by simp
  ultimately show "test_cover_correct T A acc r = Some True"
    using run acc by (simp add: test_cover_correct_def vec_valid_def)
qed

end

text \<open>A wrong key: the test of soundness needs the verdict on it.\<close>

lemma soundness_passes:
  assumes "wrapper_broadcast V msg idx bad_key r = Some (tokens, r')" "length tokens = dpf_keys V"
    and "(get_server_shares (wrapper_protocol V) tokens keys \<bind> try_map (wrapper_check_audit V)) = Some (replicate k False)"
  shows "test_broadcast_soundness (wrapper_protocol V) keys msg bad_key idx r = Some True"
  using assms by (auto simp: test_broadcast_soundness_def bind_eq_Some_conv list_all_iff)

subsection \<open>Stores\<close>

context config_store
begin

lemma put_all_ok:
  assumes "store_wf st" "\<forall>k \<in> set ks. key_ok k"
  shows "\<exists>st'. put_all S st ks v = Inr st' \<and> store_wf st' \<and> entries st' = (\<lambda>k. if k \<in> set ks then Some v else entries st k)"
  using assms
proof (induction ks arbitrary: st)
  case (Cons k ks)
  obtain st1 where st1: "store_put S st k v = Inr st1" "store_wf st1" "entries st1 = (entries st)(k \<mapsto> v)"
    using put_ok[of st k v] Cons.prems by auto
  then show ?case using Cons.IH[of st1] Cons.prems(2) by (auto simp: fun_eq_iff)
qed simp

lemma store_suite_passes:
  assumes "store_wf st" "entries st = (\<lambda>_. None)" "key_ok key"
  shows "run_test_put_and_get S st key v = Some True" "run_test_get_empty S st key = Some True"
    "run_test_put_and_get_keep_latter S st key v w = Some True"
proof -
  obtain st1 where st1: "store_put S st key v = Inr st1" "store_wf st1" "entries st1 = (entries st)(key \<mapsto> v)"
    using put_ok[OF assms(1,3)] by blast
  obtain st2 where st2: "store_put S st1 key w = Inr st2" "store_wf st2" "entries st2 = (entries st1)(key \<mapsto> w)"
    using put_ok[OF st1(2) assms(3)] by blast
  show "run_test_put_and_get S st key v = Some True" using st1 get_eq[OF st1(2) assms(3)] by (simp add: run_test_put_and_get_def)
  show "run_test_get_empty S st key = Some True" using get_eq[OF assms(1,3)] assms(2) by (simp add: run_test_get_empty_def)
  show "run_test_put_and_get_keep_latter S st key v w = Some True"
    using st1 st2 get_eq[OF st2(2) assms(3)] by (simp add: run_test_put_and_get_keep_latter_def)
qed

lemma list_test_passes:
  assumes st: "store_wf st" "entries st = (\<lambda>_. None)"
    and keys: "key_ok pre" "\<forall>s \<in> set sufs. s \<noteq> [] \<and> key_ok (pre @ s)" "\<forall>k \<in> set other_keys. key_ok k"
  shows "run_test_list S st pre sufs other_keys v"
proof -
  obtain st1 where st1: "put_all S st (map (\<lambda>s. pre @ s) sufs) v = Inr st1" "store_wf st1"
      "entries st1 = (\<lambda>k. if k \<in> set (map (\<lambda>s. pre @ s) sufs) then Some v else entries st k)"
    using put_all_ok[OF st(1), of "map (\<lambda>s. pre @ s) sufs" v] keys(2) by auto
  let ?others = "filter (\<lambda>key. \<not> prefix pre key) other_keys"
  obtain st2 where st2: "put_all S st1 ?others v = Inr st2" "store_wf st2"
      "entries st2 = (\<lambda>k. if k \<in> set ?others then Some v else entries st1 k)"
    using put_all_ok[OF st1(2), of ?others v] keys(3) by auto
  have ent: "entries st2 k = Some u \<longleftrightarrow> u = v \<and> (k \<in> set ?others \<or> k \<in> set (map (\<lambda>s. pre @ s) sufs))" for k u
    by (auto simp: st2(3) st1(3) st(2))
  have "entries st2 pre = None"
  proof (cases "entries st2 pre")
    case (Some u)
    then have "pre \<in> set ?others \<or> pre \<in> set (map (\<lambda>s. pre @ s) sufs)" using ent by blast
    then show ?thesis using keys(2) by auto
  qed
  then obtain es where es: "store_list S st2 pre = Inr es" "set es = {(k, u). entries st2 k = Some u \<and> prefix pre k}"
    using list_ok[OF st2(2) keys(1)] by blast
  have "set es = {(k, u). u = v \<and> k \<in> set (map (\<lambda>s. pre @ s) sufs)}" unfolding es(2) ent by auto
  then show ?thesis using st1(1) st2(1) es(1) by (auto simp: run_test_list_def list_all_iff image_iff)
qed

end

context crypto
begin

lemma two_key_protocol_suite:
  assumes V: "two_key_vdpf env channels msg_size = Some V" and msg: "length msg = msg_size" "idx < channels"
    and keys: "vec_valid validS channels keys" "validS bad_key" and acc: "vec_valid (\<lambda>b. length b = msg_size) channels acc"
  shows "protocol_suite (wrapper_protocol V) bytes_acc msg_size keys msg idx bad_key acc r"
proof -
  obtain validK out where rnd: "protocol_round V (\<lambda>b. length b = msg_size) validS
      \<lparr> m_zero = bytes_empty msg_size, m_add = bytes_xor.xor \<rparr> validK out bytes_acc msg_size"
    using two_key_vdpf_round(1)[OF V] by blast
  note sizes = two_key_vdpf_round(2,3)[OF V]
  have "test_broadcast_soundness (wrapper_protocol V) keys msg bad_key idx r = Some True"
  proof (cases "bad_key \<in> set keys")
    case False
    then have "bad_key \<noteq> keys ! idx" using keys(1) msg(2) by (auto simp: vec_valid_def)
    then obtain tokens r' where w: "wrapper_broadcast V msg idx bad_key r = Some (tokens, r')" "length tokens = 2"
        "audit_verdicts (wrapper_protocol V) keys tokens = Some (replicate 2 False)"
      using two_key_broadcast_verdict[OF V msg keys, of r] by (auto simp: numeral_2_eq_2)
    show ?thesis using w(2) sizes(2) by (intro soundness_passes[OF w(1) _ server_shares_verdicts[OF w(3)]]) simp
  qed (simp add: test_broadcast_soundness_def)
  then show ?thesis
    using protocol_round.broadcast_suite_passes[OF rnd, of msg idx keys r] protocol_round.cover_suite_passes[OF rnd, of keys acc r]
      msg keys(1) acc sizes by (simp add: protocol_suite_def)
qed

lemma multi_key_protocol_suite:
  assumes V: "multi_key_vdpf env channels groups msg_size s = (V, s')" "2 \<le> groups"
    and msg: "vec_valid validP (msg_size div 32 + 1) msg" "idx < channels"
    and keys: "vec_valid validS channels keys" "validS bad_key"
    and acc: "vec_valid (vec_valid validP (msg_size div 32 + 1)) channels acc"
  shows "protocol_suite (wrapper_protocol V) (ev_acc (curve_exp (env_sp env))) (Some (msg_size div 32 + 1)) keys msg idx bad_key acc r"
proof -
  have pos: "0 < channels" using msg(2) by simp
  obtain validK out where rnd: "protocol_round V (vec_valid validP (msg_size div 32 + 1)) validS
      (vec_monoid (curve_exp (env_sp env)) (msg_size div 32 + 1)) validK out
      (ev_acc (curve_exp (env_sp env))) (Some (msg_size div 32 + 1))"
    using multi_key_vdpf_round(1)[OF V pos] by blast
  note sizes = multi_key_vdpf_round(2,3)[OF V pos]
  have "test_broadcast_soundness (wrapper_protocol V) keys msg bad_key idx r = Some True"
  proof (cases "bad_key \<in> set keys")
    case False
    then have "bad_key \<noteq> keys ! idx" using keys(1) msg(2) by (auto simp: vec_valid_def)
    then obtain tokens r' where w: "wrapper_broadcast V msg idx bad_key r = Some (tokens, r')" "length tokens = groups"
        "audit_verdicts (wrapper_protocol V) keys tokens = Some (replicate groups False)"
      using multi_key_broadcast_verdict[OF V msg keys, of r] by auto
    show ?thesis using w(2) sizes(2) by (intro soundness_passes[OF w(1) _ server_shares_verdicts[OF w(3)]]) simp
  qed (simp add: test_broadcast_soundness_def)
  then show ?thesis
    using protocol_round.broadcast_suite_passes[OF rnd, of msg idx keys r] protocol_round.cover_suite_passes[OF rnd, of keys acc r]
      msg keys(1) acc sizes by (simp add: protocol_suite_def)
qed

end

subsection \<open>The stores\<close>

text \<open>The keys that the tests draw: between one and nine components of letters, digits, underscores and hyphens.\<close>

definition word_char :: "char \<Rightarrow> bool" where
  "word_char c \<longleftrightarrow> c \<in> set ''abcdefghijklmnopqrstuvwxyzABCDEFGHIJKLMNOPQRSTUVWXYZ0123456789_-''"

definition test_key :: "config_key \<Rightarrow> bool" where
  "test_key key \<longleftrightarrow> 1 \<le> length key \<and> length key < 10 \<and> list_all (\<lambda>w. w \<noteq> '''' \<and> list_all word_char w) key"

lemma slash_no_word_char: "\<not> word_char (CHR ''/'')"
  by (simp add: word_char_def)

lemma test_key_path: "test_key k \<Longrightarrow> path_key k"
  unfolding test_key_def path_key_def list_all_iff using slash_no_word_char by auto

lemma path_key_append: "path_key k \<Longrightarrow> path_key l \<Longrightarrow> path_key (k @ l)"
  by (auto simp: path_key_def append_eq_Cons_conv)

definition store_suite ::
    "('st, 'x) store_ops_scheme \<Rightarrow> 'st \<Rightarrow> config_key \<Rightarrow> config_key list \<Rightarrow> config_key list \<Rightarrow> config_value \<Rightarrow> config_value \<Rightarrow> bool" where
  "store_suite S st key sufs other_keys v1 v2 \<longleftrightarrow>
     run_test_put_and_get S st key v1 = Some True \<and> run_test_get_empty S st key = Some True
     \<and> run_test_put_and_get_keep_latter S st key v1 v2 = Some True \<and> run_test_list S st key sufs other_keys v1"

context config_store
begin

lemma store_tests_pass:
  assumes "store_wf st" "entries st = (\<lambda>_. None)" "\<And>k. path_key k \<Longrightarrow> key_ok k"
    and "test_key key" "list_all test_key sufs" "list_all test_key other_keys"
  shows "store_suite S st key sufs other_keys v w"
proof -
  have "key_ok key" using assms(3,4) test_key_path by blast
  moreover have "\<forall>s \<in> set sufs. s \<noteq> [] \<and> key_ok (key @ s)"
    using assms(3-5) test_key_path path_key_append unfolding list_all_iff by (metis list.size(3) not_one_le_zero test_key_def)
  moreover have "\<forall>k \<in> set other_keys. key_ok k" using assms(3,6) test_key_path by (auto simp: list_all_iff)
  ultimately show ?thesis using store_suite_passes[OF assms(1,2)] list_test_passes[OF assms(1,2)] by (simp add: store_suite_def)
qed

end

lemma inmem_store_suite:
  assumes "hash_order iter" "test_key key" "list_all test_key sufs" "list_all test_key other_keys"
  shows "store_suite (inmem_ops iter) inmem_new key sufs other_keys v w"
  by (rule config_store.store_tests_pass[OF inmem_contract[OF assms(1)]]) (simp_all add: inmem_new_def assms)

context etcd_service
begin

lemma etcd_store_suite:
  assumes "contents c = (\<lambda>_. None)" "test_key key" "list_all test_key sufs" "list_all test_key other_keys"
  shows "store_suite (etcd_ops K) c key sufs other_keys v w"
  using etcd_empty[OF assms(1)] assms by (intro store_tests_pass) auto

end

subsection \<open>The curve group and its scalars\<close>


definition sharing_suite :: "('r, 'g, 'g) share_ops \<Rightarrow> ('g, 'x) field_ops_scheme \<Rightarrow> 'g \<Rightarrow> 'g \<Rightarrow> nat \<Rightarrow> nat \<Rightarrow> 'r \<Rightarrow> bool" where
  "sharing_suite S F v w num_shares idx r \<longleftrightarrow>
     test_share_recover_identity S v num_shares r = Some True \<and> test_one_share_invalid S v r
     \<and> test_constant_add S F v w num_shares idx r = Some True \<and> test_share_add S F v w num_shares r = Some True
     \<and> test_constant_mul S F v w num_shares r = Some True"

definition shprg_suite :: "('r, 's, 'o) sh_prg_ops \<Rightarrow> ('s, 'x) monoid_ops_scheme \<Rightarrow> 's \<Rightarrow> 's \<Rightarrow> bool" where
  "shprg_suite P F s t \<longleftrightarrow> test_null_seed_identity P F s \<and> test_null_seed_maps_to_null_output P = Some True
     \<and> test_null_output_identity P s = Some True \<and> test_evaluation_preserves_operation P s t = Some True"

context comm_ring_laws
begin

text \<open>The tests of \<open>check_field_laws!\<close> that do not invert.\<close>

lemma ring_tests_pass:
  assumes "valid a" "valid b" "valid c"
  shows "field_test_mul_associative M a b c" "field_test_mul_commutative M a b" "field_test_mul_identity M a"
    "field_test_distributive M a b c"
  unfolding field_test_mul_associative_def field_test_mul_commutative_def field_test_mul_identity_def field_test_distributive_def
  by (rule mul_assoc[OF assms] mul_commute[OF assms(1,2)] mul_one[OF assms(1)] distrib[OF assms])+

lemma sharing_suite_passes:
  assumes "valid v" "valid w" "2 \<le> num_shares" "idx < num_shares" "sampler_in valid sample"
  shows "sharing_suite (group_shareable M sample) M v w num_shares idx r"
  using linearly_shareable_suite_passes[OF assms(1,2,2,3,5)] assms(3,4)
    shareable.shareable_suite_passes[OF group_shareable[OF assms(5)] assms(1)]
  unfolding sharing_suite_def by blast

end

context seed_homomorphic_prg
begin

lemma shprg_tests_pass: "validS s \<Longrightarrow> validS t \<Longrightarrow> shprg_suite P F s t"
  unfolding shprg_suite_def using shprg_suite_passes by blast

end

context crypto
begin

lemma curve_suites:
  assumes scalars: "validS a" "validS b" "validS c"
    and sharing: "2 \<le> num_shares" "idx < num_shares"
    and prg: "group_prg_random (point_sample (env_random_sp env)) k s = (prg, s')"
  shows "field_test_mul_associative F a b c" "field_test_mul_commutative F a b" "field_test_mul_identity F a"
    "field_test_distributive F a b c"
    "sharing_suite (group_shareable F sample) F a b num_shares idx r"
    "shprg_suite (group_prg_ops (curve_exp (env_sp env)) F sample prg) F a b"
proof -
  show "field_test_mul_associative F a b c" "field_test_mul_commutative F a b" "field_test_mul_identity F a"
    "field_test_distributive F a b c"
    by (rule comm_ring_laws.ring_tests_pass[OF scalar_ring scalars])+
  show "sharing_suite (group_shareable F sample) F a b num_shares idx r"
    by (rule comm_ring_laws.sharing_suite_passes[OF scalar_ring scalars(1,2) sharing sample_valid])
  have inst: "multi_key_vdpf_setup (vec_monoid (curve_exp (env_sp env)) k) (vec_valid validP k) F validS
     (group_prg_ops (curve_exp (env_sp env)) F sample prg) (ev_pow (curve_exp (env_sp env)))
     (group_prg_eval (curve_exp (env_sp env)) prg) sample 1 2"
    by (rule multi_setup[OF prg]) simp_all
  show "shprg_suite (group_prg_ops (curve_exp (env_sp env)) F sample prg) F a b"
    by (rule seed_homomorphic_prg.shprg_tests_pass[OF multi_key_setup.axioms(1)[OF multi_key_vdpf_setup.axioms(1)[OF inst]] scalars(1,2)])
qed

end

subsection \<open>The integers modulo eleven\<close>

text \<open>\<open>IntModP\<close>: the field suite with inverses, the exponent suite, and sharing.\<close>

lemma int_mod_p_suites:
  assumes "intmod_valid 11 a" "intmod_valid 11 b" "intmod_valid 11 c" "2 \<le> num_shares" "idx < num_shares"
    and "sampler_in (intmod_valid 11) sample" "intmod_valid 11 x" "intmod_valid 11 y"
  shows "group_suite (intmod_field 11) a b c" "field_suite (intmod_field 11) a b c"
    "exponent_suite (intmod_exp 11) (intmod_field 11) a b c x y"
    "sharing_suite (group_shareable (intmod_field 11) sample) (intmod_field 11) a b num_shares idx r"
  by (rule ints_mod_p.group_suite_passes[OF assms(1-3)], rule ints_mod_p.field_suite_passes[OF assms(1-3)],
      rule ints_mod_p_exp.exponent_suite_passes[OF assms(1-3,7,8)], rule ints_mod_p.sharing_suite_passes[OF assms(1,2,4-6)])

end
