(* ===== verification/UnitTests.thy ===== *)
theory UnitTests
  imports Suites
begin

text \<open>
  The unit tests of the processes: start time, quorum and retries (\<open>services/quorum.rs\<close>, \<open>services/retry.rs\<close>), discovery
  (\<open>services/discovery.rs\<close>), the choice of shards (\<open>client/connections.rs\<close>), the registry of audit shares
  (\<open>worker/audit_registry.rs\<close>), the accumulator (\<open>accumulator.rs\<close>), the choice of a store (\<open>config/factory.rs\<close>) and byte strings
  (\<open>bytes.rs\<close>). As in \<open>Suites\<close> a test is an executable function of its inputs; \<open>Some True\<close> is a test that passes, and one that
  should panic passes when it is \<open>None\<close>. The lemmas show for which inputs the tests pass.

  \<open>test_pick_worker_shards_different\<close> and \<open>test_bytes_random_nonzero\<close> hold with high probability only and have no counterpart.
  \<open>test_from_string_does_not_crash\<close> drops the future that it makes, so it runs no code.
\<close>

section \<open>Tests\<close>

fun expect_err :: "'e + 'a \<Rightarrow> 'e option" where
  "expect_err (Inl e) = Some e"
| "expect_err (Inr x) = None"

subsection \<open>Start time\<close>

definition test_set_and_get_start_time ::
    "('st, 'x) store_ops_scheme \<Rightarrow> ('d \<Rightarrow> string) \<Rightarrow> (string \<Rightarrow> string + 'd) \<Rightarrow> 'st \<Rightarrow> 'd \<Rightarrow> bool option" where
  "test_set_and_get_start_time S to_rfc3339 parse config dt =
     do { config' \<leftarrow> result_unwrap (set_start_time S to_rfc3339 config dt);
          res \<leftarrow> get_start_time S parse config';
          d \<leftarrow> result_unwrap res;
          Some (d = dt) }"

text \<open>The tests that make their store with \<open>from_string("")\<close>; \<open>S\<close> are the operations of the stores it can make.\<close>

definition test_get_start_time_missing_entry ::
    "(string \<Rightarrow> string + 'c) \<Rightarrow> ((inmem_store, 'c) store_wrapper, 'x) store_ops_scheme \<Rightarrow> (string \<Rightarrow> string + 'd) \<Rightarrow> bool option" where
  "test_get_start_time_missing_entry connect S parse =
     do { config \<leftarrow> result_unwrap (store_from_string connect '''');
          res \<leftarrow> get_start_time S parse config;
          expect_err res;
          Some True }"

definition test_get_start_time_malformed_entry ::
    "(string \<Rightarrow> string + 'c) \<Rightarrow> ((inmem_store, 'c) store_wrapper, 'x) store_ops_scheme \<Rightarrow> (string \<Rightarrow> string + 'd) \<Rightarrow> bool option" where
  "test_get_start_time_malformed_entry connect S parse =
     do { config \<leftarrow> result_unwrap (store_from_string connect '''');
          config' \<leftarrow> result_unwrap (store_put S config [''experiment'', ''start-time''] ''not a valid RFC 3339 date'');
          res \<leftarrow> get_start_time S parse config';
          expect_err res;
          Some True }"

definition test_wait_for_start_time_set_unset ::
    "(crate_error, 'd) retry_combinator \<Rightarrow> (string \<Rightarrow> string + 'c) \<Rightarrow> ((inmem_store, 'c) store_wrapper, 'x) store_ops_scheme
     \<Rightarrow> (string \<Rightarrow> string + 'd) \<Rightarrow> bool option" where
  "test_wait_for_start_time_set_unset retry connect S parse =
     do { config \<leftarrow> result_unwrap (store_from_string connect '''');
          res \<leftarrow> wait_for_start_time_set_helper retry S parse (\<lambda>_. config) 0 10;
          expect_err res;
          Some True }"

definition test_wait_for_start_time_set_okay ::
    "(crate_error, 'd) retry_combinator \<Rightarrow> (string \<Rightarrow> string + 'c) \<Rightarrow> ((inmem_store, 'c) store_wrapper, 'x) store_ops_scheme
     \<Rightarrow> ('d \<Rightarrow> string) \<Rightarrow> (string \<Rightarrow> string + 'd) \<Rightarrow> 'd \<Rightarrow> bool option" where
  "test_wait_for_start_time_set_okay retry connect S to_rfc3339 parse now =
     do { config \<leftarrow> result_unwrap (store_from_string connect '''');
          config' \<leftarrow> result_unwrap (set_start_time S to_rfc3339 config now);
          res \<leftarrow> wait_for_start_time_set_helper retry S parse (\<lambda>_. config') 0 10;
          result_unwrap res;
          Some True }"

subsection \<open>Discovery and quorum\<close>

text \<open>A set of nodes is given as a list in the order of its iteration.\<close>

definition test_register_and_resolve :: "('st, 'x) store_ops_scheme \<Rightarrow> 'st \<Rightarrow> ('fr, 'sp) node list \<Rightarrow> bool option" where
  "test_register_and_resolve S st nodes =
     do { res \<leftarrow> register_all S st nodes;
          st' \<leftarrow> result_unwrap res;
          res \<leftarrow> resolve_all S st';
          actual \<leftarrow> result_unwrap res;
          Some (set actual = set nodes) }"

definition run_quorum_test ::
    "('st, 'x) store_ops_scheme \<Rightarrow> (('fr, 'sp) service set \<Rightarrow> string) \<Rightarrow> 'st \<Rightarrow> ('r, 'fr, 'sp) experiment_spec \<Rightarrow> ('fr, 'sp) node list
     \<Rightarrow> (crate_error + unit) option" where
  "run_quorum_test S debug config e nodes =
     do { res \<leftarrow> register_all S config nodes;
          case res of Inl err \<Rightarrow> Some (Inl err) | Inr config' \<Rightarrow> has_quorum S debug config' e }"

definition nodes_of_experiment :: "string \<Rightarrow> ('r, 'fr, 'sp) experiment_spec \<Rightarrow> ('fr, 'sp) node list option" where
  "nodes_of_experiment addr e =
     do { services \<leftarrow> iter_services e; Some (map (\<lambda>service. \<lparr> node_service = service, node_addr = addr \<rparr>) services) }"

definition test_has_quorum_too_many ::
    "('st, 'x) store_ops_scheme \<Rightarrow> (('fr, 'sp) service set \<Rightarrow> string) \<Rightarrow> 'st \<Rightarrow> ('r, 'fr, 'sp) experiment_spec \<Rightarrow> ('fr, 'sp) service
     \<Rightarrow> string \<Rightarrow> bool option" where
  "test_has_quorum_too_many S debug config e extra_service addr =
     do { nodes \<leftarrow> nodes_of_experiment ''localhost:8080'' e;
          services \<leftarrow> iter_services e;
          if extra_service \<in> set services then Some True
          else do { res \<leftarrow> run_quorum_test S debug config e (nodes @ [\<lparr> node_service = extra_service, node_addr = addr \<rparr>]);
                    expect_err res;
                    Some True } }"

text \<open>The nodes are a subsequence of those of the experiment, shorter than the whole.\<close>

definition test_has_quorum_too_few ::
    "('st, 'x) store_ops_scheme \<Rightarrow> (('fr, 'sp) service set \<Rightarrow> string) \<Rightarrow> 'st \<Rightarrow> ('r, 'fr, 'sp) experiment_spec \<Rightarrow> ('fr, 'sp) node list
     \<Rightarrow> bool option" where
  "test_has_quorum_too_few S debug config e nodes =
     do { res \<leftarrow> run_quorum_test S debug config e nodes; expect_err res; Some True }"

definition test_has_quorum_just_right ::
    "('st, 'x) store_ops_scheme \<Rightarrow> (('fr, 'sp) service set \<Rightarrow> string) \<Rightarrow> 'st \<Rightarrow> ('r, 'fr, 'sp) experiment_spec \<Rightarrow> bool option" where
  "test_has_quorum_just_right S debug config e =
     do { nodes \<leftarrow> nodes_of_experiment ''localhost:8080'' e;
          res \<leftarrow> run_quorum_test S debug config e nodes;
          result_unwrap res;
          Some True }"

subsection \<open>Retries\<close>

definition test_error_policy_zero_attempts :: "nat option" where
  "test_error_policy_zero_attempts = error_policy_new 0"

text \<open>\<open>FutureIterator\<close>: each attempt takes the next of the prepared results.\<close>

definition test_error_policy_many_attempts_success :: "(unit, unit) retry_combinator \<Rightarrow> nat \<Rightarrow> bool option" where
  "test_error_policy_many_attempts_success retry attempts =
     (let results = replicate (attempts - 1) (Inl ()) @ [Inr ()]
      in do { counter \<leftarrow> error_policy_new attempts;
              res \<leftarrow> retry (vec_get results) (error_policy 0 attempts) counter;
              result_unwrap res;
              Some True })"

definition test_error_policy_many_attempts_failure :: "(unit, unit) retry_combinator \<Rightarrow> nat \<Rightarrow> bool option" where
  "test_error_policy_many_attempts_failure retry attempts =
     (let results = replicate attempts (Inl ()) @ [Inr ()]
      in do { counter \<leftarrow> error_policy_new attempts;
              res \<leftarrow> retry (vec_get results) (error_policy 0 attempts) counter;
              expect_err res;
              Some True })"

subsection \<open>Choice of shards\<close>

text \<open>\<open>iter\<close> is the order of the iteration over the set of the services.\<close>

definition test_pick_worker_shards_subset ::
    "(('fr, 'sp) service list \<Rightarrow> ('fr, 'sp) service list) \<Rightarrow> (group list \<Rightarrow> group list) \<Rightarrow> ('r, ('fr, 'sp) node) chooser
     \<Rightarrow> ('x, 'fr, 'sp) experiment_spec \<Rightarrow> 'r \<Rightarrow> bool option" where
  "test_pick_worker_shards_subset iter order pickr e r =
     do { services \<leftarrow> iter_services e;
          let nodes = map (\<lambda>service. \<lparr> node_service = service, node_addr = ''127.0.0.1:22'' \<rparr>) (iter (remdups services));
          (shards, r') \<leftarrow> pick_worker_shards order pickr nodes r;
          Some (set (map node_service shards) \<subseteq> set services) }"

definition test_pick_worker_shards_distinct_groups ::
    "(group list \<Rightarrow> group list) \<Rightarrow> ('r, ('fr, 'sp) node) chooser \<Rightarrow> ('x, 'fr, 'sp) experiment_spec \<Rightarrow> 'r \<Rightarrow> bool option" where
  "test_pick_worker_shards_distinct_groups order pickr e r =
     do { nodes \<leftarrow> nodes_of_experiment ''127.0.0.1:22'' e;
          (shards, r') \<leftarrow> pick_worker_shards order pickr nodes r;
          infos \<leftarrow> try_map node_worker shards;
          Some (length (remdups (map worker_group infos)) = length shards) }"

definition test_pick_worker_shards_all_groups ::
    "(group list \<Rightarrow> group list) \<Rightarrow> ('r, ('fr, 'sp) node) chooser \<Rightarrow> ('x, 'fr, 'sp) experiment_spec \<Rightarrow> 'r \<Rightarrow> bool option" where
  "test_pick_worker_shards_all_groups order pickr e r =
     do { services \<leftarrow> iter_services e;
          nodes \<leftarrow> nodes_of_experiment ''127.0.0.1:22'' e;
          (shards, r') \<leftarrow> pick_worker_shards order pickr nodes r;
          infos \<leftarrow> try_map node_worker shards;
          let original_groups = concat (map (\<lambda>service. case service of Worker info \<Rightarrow> [worker_group info] | _ \<Rightarrow> []) services);
          Some (length (remdups (map worker_group infos)) = length (remdups original_groups)) }"

subsection \<open>Audit shares\<close>

definition NUM_CLIENTS :: u128 where "NUM_CLIENTS = 10"

definition NUM_SHARES :: u16 where "NUM_SHARES = 100"

definition test_clients :: "u128 list" where
  "test_clients = map of_nat [0..<unat NUM_CLIENTS]"

definition test_audit_registry_bad_client_idx :: "((unit, unit) client_audit \<times> (unit, unit) audit_registry) option" where
  "test_audit_registry_bad_client_idx = audit_registry_drain 0 (audit_registry_new 0 NUM_SHARES)"

definition test_audit_registry_drain_before_init :: "((unit, unit) client_audit \<times> (unit, unit) audit_registry) option" where
  "test_audit_registry_drain_before_init =
     do { client \<leftarrow> vec_get test_clients 0; audit_registry_drain client (audit_registry_new NUM_CLIENTS NUM_SHARES) }"


text \<open>The bodies of the two loops over the clients.\<close>

definition put_shares :: "nat \<Rightarrow> 's list \<Rightarrow> ('s, 't) audit_registry \<Rightarrow> u128 \<Rightarrow> ('s, 't) audit_registry option" where
  "put_shares start shares reg client =
     try_fold (\<lambda>reg (idx, share).
         let (n, reg) = audit_registry_add client share reg
         in do { rust_assert (n = idx + 1); Some reg })
       reg (enumerate start shares)"

definition drain_expect :: "'s list \<Rightarrow> ('s, u128) audit_registry \<Rightarrow> u128 \<Rightarrow> ('s, u128) audit_registry option" where
  "drain_expect expected_shares reg client =
     do { (state, reg) \<leftarrow> audit_registry_drain client (audit_registry_init client client reg);
          rust_assert (ca_write_token state = client);
          rust_assert (ca_audit_shares state = expected_shares);
          Some reg }"

definition test_audit_registry_empty :: "(unit, u128) audit_registry option" where
  "test_audit_registry_empty = try_fold (drain_expect []) (audit_registry_new NUM_CLIENTS NUM_SHARES) test_clients"

definition test_audit_registry_put_shares :: "(unit, u128) audit_registry option" where
  "test_audit_registry_put_shares =
     (let expected_shares = replicate (unat NUM_SHARES) ()
      in do { reg \<leftarrow> try_fold (put_shares 0 expected_shares) (audit_registry_new NUM_CLIENTS NUM_SHARES) test_clients;
              try_fold (drain_expect expected_shares) reg test_clients })"

definition test_audit_registry_drain_twice_panics :: "((unit, u128) client_audit \<times> (unit, u128) audit_registry) option" where
  "test_audit_registry_drain_twice_panics =
     do { reg \<leftarrow> try_fold (\<lambda>reg client. map_option snd (audit_registry_drain client (audit_registry_init client client reg)))
            (audit_registry_new NUM_CLIENTS NUM_SHARES) test_clients;
          client \<leftarrow> (if test_clients = [] then None else Some (last test_clients));
          audit_registry_drain client reg }"

definition test_audit_registry_can_reinit_after_drain :: "(unit, u128) audit_registry option" where
  "test_audit_registry_can_reinit_after_drain =
     try_fold (\<lambda>reg client.
         do { (state, reg) \<leftarrow> audit_registry_drain client (audit_registry_init client client reg);
              rust_assert (ca_write_token state = client);
              (state, reg) \<leftarrow> audit_registry_drain client (audit_registry_init client (client + 1) reg);
              rust_assert (ca_write_token state = client + 1);
              Some reg })
       (audit_registry_new NUM_CLIENTS NUM_SHARES) test_clients"

definition test_audit_registry_can_reinit_no_drain :: "(unit, u128) audit_registry option" where
  "test_audit_registry_can_reinit_no_drain =
     try_fold (\<lambda>reg client.
         do { (state, reg) \<leftarrow> audit_registry_drain client
                (audit_registry_init client (client + 1) (audit_registry_init client client reg));
              rust_assert (ca_write_token state = client + 1);
              Some reg })
       (audit_registry_new NUM_CLIENTS NUM_SHARES) test_clients"

subsection \<open>Accumulator\<close>

text \<open>\<open>MyData\<close>: an addition of bytes that panics when it overflows, as tests are built with overflow checks.\<close>

definition my_data_acc :: "(u8, unit) acc_ops" where
  "my_data_acc = \<lparr> acc_combine = (\<lambda>a b. if unat a + unat b < 2 ^ 8 then Some (a + b) else None),
     acc_empty = (\<lambda>_. 0), acc_params = (\<lambda>_. Some ()) \<rparr>"

definition test_accumulator_get_empty :: bool where
  "test_accumulator_get_empty \<longleftrightarrow> accumulator_get (accumulator_new (acc_empty my_data_acc ())) = 0"

definition test_accumulator_accumulate_identity :: "bool option" where
  "test_accumulator_accumulate_identity =
     do { (n, acc) \<leftarrow> accumulate my_data_acc (acc_empty my_data_acc ()) (accumulator_new (acc_empty my_data_acc ()));
          Some (accumulator_get acc = 0) }"

definition test_accumulator_accumulate_unit :: "bool option" where
  "test_accumulator_accumulate_unit =
     (let times = 10
      in do { acc \<leftarrow> try_fold (\<lambda>acc _. map_option snd (accumulate my_data_acc 1 acc))
                (accumulator_new (acc_empty my_data_acc ())) [0..<times];
              Some (accumulator_get acc = of_nat times) })"

definition test_accumulator_vec :: "bool option" where
  "test_accumulator_vec =
     do { let accumulator = accumulator_new (replicate 3 0);
          let data = [0, 1, 2];
          (n, accumulator) \<leftarrow> accumulate (vec_acc my_data_acc) data accumulator;
          (n, accumulator) \<leftarrow> accumulate (vec_acc my_data_acc) data accumulator;
          Some (accumulator_get accumulator = [0, 2, 4]) }"

subsection \<open>Choice of a store\<close>

definition test_from_string_empty :: "(string \<Rightarrow> string + 'c) \<Rightarrow> bool option" where
  "test_from_string_empty connect =
     do { store \<leftarrow> result_unwrap (store_from_string connect '''');
          case store of InMem _ \<Rightarrow> Some True | Etcd _ \<Rightarrow> None }"

definition test_from_string_mem :: "(string \<Rightarrow> string + 'c) \<Rightarrow> bool option" where
  "test_from_string_mem connect =
     do { store \<leftarrow> result_unwrap (store_from_string connect ''mem://'');
          case store of InMem _ \<Rightarrow> Some True | Etcd _ \<Rightarrow> None }"

definition test_from_string_etcd :: "(string \<Rightarrow> string + 'c) \<Rightarrow> bool option" where
  "test_from_string_etcd connect =
     do { store \<leftarrow> result_unwrap (store_from_string connect ''etcd://127.0.0.1:2379''); Some True }"

definition test_from_string_mem_nonempty :: "(string \<Rightarrow> string + 'c) \<Rightarrow> string \<Rightarrow> bool option" where
  "test_from_string_mem_nonempty connect s =
     do { err \<leftarrow> expect_err (store_from_string connect (''mem://'' @ s)); Some True }"

definition test_from_string_other :: "(string \<Rightarrow> string + 'c) \<Rightarrow> string \<Rightarrow> bool option" where
  "test_from_string_other connect s =
     (if s = ''mem://'' then Some True
      else do { err \<leftarrow> expect_err (store_from_string connect s); Some True })"

subsection \<open>Byte strings\<close>

definition is_all_zero :: "bytes \<Rightarrow> bool" where
  "is_all_zero b \<longleftrightarrow> list_all (\<lambda>x. x = 0) b"

definition test_bytes_random_correct_size :: "(bytes \<Rightarrow> ('r, bytes) sampler) \<Rightarrow> nat \<Rightarrow> 'r \<Rightarrow> bool option" where
  "test_bytes_random_correct_size fill n r = do { (b, r') \<leftarrow> bytes_random fill n r; Some (bytes_len b = n) }"

definition test_bytes_empty_correct_size :: "nat \<Rightarrow> bool" where
  "test_bytes_empty_correct_size n \<longleftrightarrow> bytes_len (bytes_empty n) = n"

definition test_bytes_empty_zero :: "nat \<Rightarrow> bool" where
  "test_bytes_empty_zero n \<longleftrightarrow> is_all_zero (bytes_empty n)"

definition test_bytes_xor_zero :: "(bytes \<Rightarrow> ('r, bytes) sampler) \<Rightarrow> nat \<Rightarrow> 'r \<Rightarrow> bool option" where
  "test_bytes_xor_zero fill n r =
     do { (val, r') \<leftarrow> bytes_random fill n r; val' \<leftarrow> bytes_bitxor_assign val val; Some (is_all_zero val') }"

section \<open>They pass\<close>

subsection \<open>Start time\<close>

lemma store_from_string_empty: "store_from_string connect '''' = Inr (InMem inmem_new)"
  by (simp add: store_from_string_def)

context discovery_store
begin

lemma start_time_test_passes:
  assumes "store_wf st" "parse (to_rfc3339 d) = Inr d"
  shows "test_set_and_get_start_time S to_rfc3339 parse st d = Some True"
  using start_time_roundtrip[of st parse to_rfc3339 d] assms by (auto simp: test_set_and_get_start_time_def)

end

text \<open>The start time in a new in-memory store.\<close>

lemma inmem_start_time:
  "get_start_time (wrapper_store_ops (inmem_ops iter) B) parse (InMem inmem_new) = Some (Inl (error_new ''Empty start time.''))"
  "\<exists>st. store_put (wrapper_store_ops (inmem_ops iter) B) (InMem inmem_new) [''experiment'', ''start-time''] v = Inr st
    \<and> get_start_time (wrapper_store_ops (inmem_ops iter) B) parse st
      = Some (case parse v of Inl err \<Rightarrow> Inl (error_new err) | Inr d \<Rightarrow> Inr d)"
  by (simp_all add: get_start_time_def wrapper_store_ops_def inmem_ops_def inmem_get_def inmem_put_def inmem_new_def)

lemma start_time_entry_tests_pass:
  assumes "parse ''not a valid RFC 3339 date'' = Inl err"
  shows "test_get_start_time_missing_entry connect (wrapper_store_ops (inmem_ops iter) B) parse = Some True"
    and "test_get_start_time_malformed_entry connect (wrapper_store_ops (inmem_ops iter) B) parse = Some True"
  using inmem_start_time(1)[of iter B parse] inmem_start_time(2)[of iter B "''not a valid RFC 3339 date''" parse] assms
  by (auto simp: test_get_start_time_missing_entry_def test_get_start_time_malformed_entry_def store_from_string_empty)

context future_retry
begin

lemma retries_of_tests:
  assumes "0 < attempts"
  shows "(\<And>j. j < attempts \<Longrightarrow> \<exists>e. attempt j = Some (Inl e)) \<Longrightarrow>
      \<exists>e. retry attempt (error_policy delay attempts) attempts = Some (Inl e)"
    and "attempt 0 = Some (Inr x) \<Longrightarrow> retry attempt (error_policy delay attempts) attempts = Some (Inr x)"
  using retry_failure[OF assms] retry_success[OF assms] by blast+

end

lemma wait_tests_pass:
  assumes "future_retry retry" "parse (to_rfc3339 now) = Inr now"
  shows "test_wait_for_start_time_set_unset retry connect (wrapper_store_ops (inmem_ops iter) B) parse = Some True"
    and "test_wait_for_start_time_set_okay retry connect (wrapper_store_ops (inmem_ops iter) B) to_rfc3339 parse now = Some True"
proof -
  let ?S = "wrapper_store_ops (inmem_ops iter) B"
  obtain e where "retry (\<lambda>n. get_start_time ?S parse (InMem inmem_new)) (error_policy 0 10) 10 = Some (Inl e)"
    using future_retry.retries_of_tests(1)[OF assms(1), of 10 "\<lambda>n. get_start_time ?S parse (InMem inmem_new)"]
    by (auto simp: inmem_start_time(1))
  then show "test_wait_for_start_time_set_unset retry connect ?S parse = Some True"
    by (simp add: test_wait_for_start_time_set_unset_def wait_for_start_time_set_helper_def error_policy_new_def
        store_from_string_empty)
  obtain st where st: "set_start_time ?S to_rfc3339 (InMem inmem_new) now = Inr st" "get_start_time ?S parse st = Some (Inr now)"
    using inmem_start_time(2)[of iter B "to_rfc3339 now" parse] assms(2) by (auto simp: set_start_time_def)
  then have "retry (\<lambda>n. get_start_time ?S parse st) (error_policy 0 10) 10 = Some (Inr now)"
    using future_retry.retries_of_tests(2)[OF assms(1)] by simp
  then show "test_wait_for_start_time_set_okay retry connect ?S to_rfc3339 parse now = Some True"
    using st(1) by (simp add: test_wait_for_start_time_set_okay_def wait_for_start_time_set_helper_def error_policy_new_def
        store_from_string_empty)
qed


subsection \<open>Discovery and quorum\<close>

lemma service_has_key: "\<forall>c. s \<noteq> Client c \<Longrightarrow> \<exists>k. to_config_key s = Some k"
  by (cases s) (auto simp: to_config_key_def)

lemma services_have_keys:
  assumes "iter_services e = Some ss" "s \<in> set ss"
  shows "\<exists>k. to_config_key s = Some k"
proof -
  obtain n where "experiment_groups e = Some n" using assms(1) by (auto simp: iter_services_def bind_eq_Some_conv)
  then have "\<forall>c. s \<noteq> Client c" using iter_services_set[OF assms(1)] assms(2) by auto
  then show ?thesis by (rule service_has_key)
qed

lemma services_distinct: "iter_services e = Some ss \<Longrightarrow> distinct ss"
  using iter_services_distinct by (fastforce simp: iter_services_def bind_eq_Some_conv)

lemma nodes_of_experiment_ok:
  assumes "iter_services e = Some ss"
  shows "\<exists>nodes. nodes_of_experiment addr e = Some nodes \<and> map node_service nodes = ss \<and> distinct (map node_service nodes)
    \<and> list_all (\<lambda>n. \<exists>k. to_config_key (node_service n) = Some k) nodes"
  using assms services_have_keys[OF assms] services_distinct[OF assms]
  by (simp add: nodes_of_experiment_def comp_def list_all_iff)

context discovery_store
begin

lemma register_and_resolve_passes:
  assumes "store_wf st" "entries st = (\<lambda>_. None)" "list_all (\<lambda>n. \<exists>k. to_config_key (node_service n) = Some k) nodes"
    and "distinct (map node_service nodes)"
  shows "test_register_and_resolve S st nodes = Some True"
  using register_resolve_all[OF assms] by (auto simp: test_register_and_resolve_def)

lemma run_quorum_test_iff:
  assumes "store_wf st" "entries st = (\<lambda>_. None)" "iter_services e = Some ss"
    and "list_all (\<lambda>n. \<exists>k. to_config_key (node_service n) = Some k) nodes" "distinct (map node_service nodes)"
  shows "\<exists>res. run_quorum_test S debug st e nodes = Some res \<and> (res = Inr () \<longleftrightarrow> set (map node_service nodes) = set ss)"
proof -
  have "nodes_only {} (entries st)" using assms(2) by (simp add: nodes_only_def)
  from quorum_after_register[OF assms(1) this assms(3-5), of debug] show ?thesis
    unfolding run_quorum_test_def by (metis (no_types, lifting) bind.bind_lunit sum.case(2))
qed

lemma run_quorum_test_err:
  assumes "store_wf st" "entries st = (\<lambda>_. None)" "iter_services e = Some ss"
    and "list_all (\<lambda>n. \<exists>k. to_config_key (node_service n) = Some k) nodes" "distinct (map node_service nodes)"
    and "set (map node_service nodes) \<noteq> set ss"
  shows "\<exists>err. run_quorum_test S debug st e nodes = Some (Inl err)"
  using run_quorum_test_iff[OF assms(1-5), of debug] assms(6) by (metis (full_types) old.sum.exhaust unit.exhaust)

lemma quorum_tests_pass:
  assumes st: "store_wf st" "entries st = (\<lambda>_. None)" and e: "iter_services e = Some ss"
    and extra: "to_config_key extra = Some k"
    and few: "nodes_of_experiment ''localhost:8080'' e = Some all" "few \<in> set (subseqs all)" "length few < length all"
  shows "test_has_quorum_too_many S debug st e extra addr = Some True" (is ?many)
    and "test_has_quorum_too_few S debug st e few = Some True" (is ?few)
    and "test_has_quorum_just_right S debug st e = Some True" (is ?right)
proof -
  have all: "map node_service all = ss" "distinct (map node_service all)"
    "list_all (\<lambda>n. \<exists>k. to_config_key (node_service n) = Some k) all"
    using nodes_of_experiment_ok[OF e, of "''localhost:8080''"] few(1) by auto
  obtain res where "run_quorum_test S debug st e all = Some res" "res = Inr ()"
    using run_quorum_test_iff[OF st e all(3,2), of debug] all(1) by auto
  then show ?right using few(1) by (simp add: test_has_quorum_just_right_def)
  have sub: "subseq few all" using few(2) by simp
  have "set few \<subseteq> set all" using list_emb_set[OF sub] by auto
  then have "list_all (\<lambda>n. \<exists>k. to_config_key (node_service n) = Some k) few" using all(3) by (auto simp: list_all_iff)
  moreover have "distinct (map node_service few)"
    using subseqs_distinctD[OF _ all(2)] subseq_map[OF sub, of node_service] by simp
  moreover have "set (map node_service few) \<noteq> set ss"
    using few(3) distinct_card[OF \<open>distinct (map node_service few)\<close>] distinct_card[OF all(2)] all(1) by auto
  ultimately show ?few using run_quorum_test_err[OF st e, of few debug] by (auto simp: test_has_quorum_too_few_def)
  show ?many
  proof (cases "extra \<in> set ss")
    case False
    let ?nodes = "all @ [\<lparr> node_service = extra, node_addr = addr \<rparr>]"
    have "list_all (\<lambda>n. \<exists>k. to_config_key (node_service n) = Some k) ?nodes" "distinct (map node_service ?nodes)"
      "set (map node_service ?nodes) \<noteq> set ss"
      using all extra False by auto
    from run_quorum_test_err[OF st e this, of debug] show ?thesis
      using few(1) e False by (auto simp: test_has_quorum_too_many_def)
  qed (use few(1) e in \<open>simp add: test_has_quorum_too_many_def\<close>)
qed

end

subsection \<open>Retries\<close>

lemma zero_attempts_panics: "test_error_policy_zero_attempts = None"
  by (simp add: test_error_policy_zero_attempts_def error_policy_new_def)

lemma retry_tests_pass:
  assumes "future_retry retry" "0 < attempts"
  shows "test_error_policy_many_attempts_success retry attempts = Some True"
    and "test_error_policy_many_attempts_failure retry attempts = Some True"
proof -
  let ?good = "replicate (attempts - 1) (Inl ()) @ [Inr ()] :: (unit + unit) list"
  have "retry (vec_get ?good) (error_policy 0 attempts) attempts = Some (Inr ())"
    using assms(2) by (intro future_retry.retry_success[OF assms(1), of "attempts - 1"]) (auto simp: nth_append)
  then show "test_error_policy_many_attempts_success retry attempts = Some True"
    using assms(2) by (simp add: test_error_policy_many_attempts_success_def error_policy_new_def Let_def)
  let ?bad = "replicate attempts (Inl ()) @ [Inr ()] :: (unit + unit) list"
  obtain e where "retry (vec_get ?bad) (error_policy 0 attempts) attempts = Some (Inl e)"
    using future_retry.retries_of_tests(1)[OF assms, of "vec_get ?bad" 0] by (auto simp: nth_append)
  then show "test_error_policy_many_attempts_failure retry attempts = Some True"
    using assms(2) by (simp add: test_error_policy_many_attempts_failure_def error_policy_new_def Let_def)
qed


subsection \<open>Choice of shards\<close>

lemma length_remdups_set: "distinct xs \<Longrightarrow> set xs = set ys \<Longrightarrow> length (remdups xs) = length (remdups ys)"
  by (metis length_remdups_card_conv)

context shard_choice
begin

lemma pick_tests_pass:
  assumes e: "iter_services e = Some ss" and iter: "\<And>xs. set (iter xs) = set xs"
  shows "test_pick_worker_shards_subset iter order pickr e r = Some True" (is ?subset)
    and "test_pick_worker_shards_distinct_groups order pickr e r = Some True" (is ?distinct)
    and "test_pick_worker_shards_all_groups order pickr e r = Some True" (is ?all)
proof -
  let ?nodes = "map (\<lambda>service. \<lparr> node_service = service, node_addr = ''127.0.0.1:22'' \<rparr>) (iter (remdups ss))"
  obtain shards r' where "pick_worker_shards order pickr ?nodes r = Some (shards, r')" "set shards \<subseteq> set ?nodes"
    using pick_worker_shards_ok[of ?nodes r] by blast
  then show ?subset using e by (auto simp: test_pick_worker_shards_subset_def iter)
  obtain nodes where nodes: "nodes_of_experiment ''127.0.0.1:22'' e = Some nodes" "map node_service nodes = ss"
    using nodes_of_experiment_ok[OF e] by blast
  obtain shards r' ws where sh: "pick_worker_shards order pickr nodes r = Some (shards, r')"
    "map node_worker shards = map Some ws" "distinct (map worker_group ws)"
    "worker_group ` set ws = {worker_group w | w n. n \<in> set nodes \<and> node_worker n = Some w}"
    using pick_worker_shards_ok[of nodes r] by blast
  have "try_map node_worker shards = Some ws" using sh(2) by (induction shards arbitrary: ws) (auto simp: Cons_eq_map_conv)
  moreover have "length shards = length ws" using sh(2) by (metis length_map)
  ultimately show ?distinct using nodes(1) sh(1,3)
    by (simp add: test_pick_worker_shards_distinct_groups_def distinct_remdups_id)
  let ?groups = "concat (map (\<lambda>service. case service of Worker info \<Rightarrow> [worker_group info] | _ \<Rightarrow> []) ss)"
  have worker: "node_worker n = Some w \<longleftrightarrow> node_service n = Worker w" for n w by (auto simp: node_worker_def split: service.splits)
  have "set ?groups = {worker_group w | w. Worker w \<in> set ss}" by (force split: service.splits)
  also have "\<dots> = set (map worker_group ws)"
    unfolding set_map sh(4) worker nodes(2)[symmetric] by (metis (mono_tags, lifting) image_iff)
  finally have "set (map worker_group ws) = set ?groups" by simp
  from length_remdups_set[OF sh(3) this] show ?all
    using e nodes(1) sh(1) \<open>try_map node_worker shards = Some ws\<close> by (simp add: test_pick_worker_shards_all_groups_def)
qed

end

subsection \<open>Audit shares\<close>

text \<open>A loop keeps an invariant that may speak of the elements it has handled.\<close>

lemma try_fold_invariant:
  assumes "P [] acc" "\<And>ys x zs acc. xs = ys @ x # zs \<Longrightarrow> P ys acc \<Longrightarrow> \<exists>acc'. f acc x = Some acc' \<and> P (ys @ [x]) acc'"
  shows "\<exists>acc'. try_fold f acc xs = Some acc' \<and> P xs acc'"
  using assms
proof (induction xs arbitrary: acc P)
  case (Cons x xs)
  obtain acc1 where acc1: "f acc x = Some acc1" "P [x] acc1" using Cons.prems(2)[of "[]" x xs acc] Cons.prems(1) by auto
  have "\<exists>acc'. try_fold f acc1 xs = Some acc' \<and> P (x # xs) acc'"
    using Cons.IH[of "\<lambda>ys. P (x # ys)" acc1] acc1(2) Cons.prems(2)[of "x # _"] by auto
  then show ?case using acc1(1) by simp
qed simp

lemma audit_entry_new: "audit_entry (audit_registry_new n m) c = (None, [])"
  by (simp add: audit_entry_def audit_registry_new_def)

text \<open>A token that is stored can be drained, with the shares of the client.\<close>

lemma drain_after_init:
  "\<exists>reg'. audit_registry_drain c (audit_registry_init c t reg)
      = Some (\<lparr> ca_write_token = t, ca_audit_shares = snd (audit_entry reg c) \<rparr>, reg')
    \<and> (\<forall>d. audit_entry reg' d = (if d = c then (None, []) else audit_entry reg d))"
proof -
  have "fst (audit_entry (audit_registry_init c t reg) c) = Some t" by (simp add: audit.entry_init)
  from audit.drain_ok[OF this] obtain reg' where "audit_registry_drain c (audit_registry_init c t reg)
        = Some (\<lparr> ca_write_token = t, ca_audit_shares = snd (audit_entry reg c) \<rparr>, reg')"
      "\<forall>d. audit_entry reg' d = (if d = c then (None, []) else audit_entry (audit_registry_init c t reg) d)"
    by (auto simp: audit.entry_init)
  moreover have "(if d = c then (None, []) else audit_entry (audit_registry_init c t reg) d) =
      (if d = c then (None, []) else audit_entry reg d)" for d by (simp add: audit.entry_init)
  ultimately show ?thesis by auto
qed

lemma drain_expect_ok:
  "snd (audit_entry reg c) = shares \<Longrightarrow>
   \<exists>reg'. drain_expect shares reg c = Some reg' \<and> (\<forall>d. audit_entry reg' d = (if d = c then (None, []) else audit_entry reg d))"
  using drain_after_init[of c c reg] by (auto simp: drain_expect_def)

lemma distinct_test_clients: "distinct test_clients"
proof -
  have "inj_on (of_nat :: nat \<Rightarrow> u128) {0..<10}"
    by (rule inj_onI) (simp add: unsigned_of_nat take_bit_nat_eq_self word_of_nat_eq_iff)
  then show ?thesis by (simp add: test_clients_def NUM_CLIENTS_def distinct_map)
qed

lemma drain_expect_all:
  assumes "distinct clients" "\<forall>d \<in> set clients. snd (audit_entry reg d) = shares"
  shows "try_fold (drain_expect shares) reg clients \<noteq> None"
proof -
  have "\<exists>reg'. try_fold (drain_expect shares) reg clients = Some reg'
      \<and> (\<forall>d \<in> set clients - set clients. snd (audit_entry reg' d) = shares)"
  proof (rule try_fold_invariant[where P = "\<lambda>ys reg. \<forall>d \<in> set clients - set ys. snd (audit_entry reg d) = shares"])
    fix ys c zs and reg :: "('a, u128) audit_registry"
    assume "clients = ys @ c # zs" and reg: "\<forall>d \<in> set clients - set ys. snd (audit_entry reg d) = shares"
    then have "snd (audit_entry reg c) = shares" using assms(1) by simp
    from drain_expect_ok[OF this] reg
    show "\<exists>reg'. drain_expect shares reg c = Some reg' \<and> (\<forall>d \<in> set clients - set (ys @ [c]). snd (audit_entry reg' d) = shares)"
      by auto
  qed (use assms(2) in simp)
  then show ?thesis by auto
qed

lemma audit_panic_tests:
  "test_audit_registry_bad_client_idx = None" "test_audit_registry_drain_before_init = None"
  "test_audit_registry_drain_twice_panics = None"
proof -
  show "test_audit_registry_bad_client_idx = None" "test_audit_registry_drain_before_init = None"
    unfolding test_audit_registry_bad_client_idx_def test_audit_registry_drain_before_init_def
    by (simp_all add: audit.drain_panics audit_entry_new bind_eq_None_conv)
  let ?f = "\<lambda>reg client. map_option snd (audit_registry_drain client (audit_registry_init client client reg))"
  have "\<exists>reg :: (unit, u128) audit_registry. try_fold ?f (audit_registry_new NUM_CLIENTS NUM_SHARES) test_clients = Some reg
      \<and> (\<forall>d. audit_entry reg d = (None, []))"
    by (rule try_fold_invariant) (use drain_after_init in \<open>fastforce simp: audit_entry_new\<close>)+
  then show "test_audit_registry_drain_twice_panics = None"
    unfolding test_audit_registry_drain_twice_panics_def by (auto simp: audit.drain_panics)
qed

lemma audit_empty_tests:
  "test_audit_registry_empty \<noteq> None" "test_audit_registry_can_reinit_after_drain \<noteq> None"
  "test_audit_registry_can_reinit_no_drain \<noteq> None"
proof -
  show "test_audit_registry_empty \<noteq> None"
    unfolding test_audit_registry_empty_def by (rule drain_expect_all[OF distinct_test_clients]) (simp add: audit_entry_new)
  have "\<exists>reg. test_audit_registry_can_reinit_after_drain = Some reg \<and> True"
    unfolding test_audit_registry_can_reinit_after_drain_def
  proof (rule try_fold_invariant[where P = "\<lambda>_ _. True"], simp)
    fix client :: u128 and reg :: "(unit, u128) audit_registry"
    obtain reg1 where "audit_registry_drain client (audit_registry_init client client reg)
        = Some (\<lparr> ca_write_token = client, ca_audit_shares = snd (audit_entry reg client) \<rparr>, reg1)"
      using drain_after_init[of client client reg] by blast
    moreover obtain reg2 where "audit_registry_drain client (audit_registry_init client (client + 1) reg1)
        = Some (\<lparr> ca_write_token = client + 1, ca_audit_shares = snd (audit_entry reg1 client) \<rparr>, reg2)"
      using drain_after_init[of client "client + 1" reg1] by blast
    ultimately show "\<exists>acc'. do { (state, reg) \<leftarrow> audit_registry_drain client (audit_registry_init client client reg);
        rust_assert (ca_write_token state = client);
        (state, reg) \<leftarrow> audit_registry_drain client (audit_registry_init client (client + 1) reg);
        rust_assert (ca_write_token state = client + 1);
        Some reg } = Some acc' \<and> True" by simp
  qed
  then show "test_audit_registry_can_reinit_after_drain \<noteq> None" by auto
  have "\<exists>reg. test_audit_registry_can_reinit_no_drain = Some reg \<and> True"
    unfolding test_audit_registry_can_reinit_no_drain_def
    apply (rule try_fold_invariant[where P = "\<lambda>_ _. True"], simp)
    subgoal for ys x zs reg using drain_after_init[of x "x + 1" "audit_registry_init x x reg"] by auto
    done
  then show "test_audit_registry_can_reinit_no_drain \<noteq> None" by auto
qed


text \<open>Putting shares appends them, with the counts that the test expects.\<close>

lemma put_shares_ok:
  "\<exists>reg'. put_shares (length (snd (audit_entry reg c))) shares reg c = Some reg'
    \<and> (\<forall>d. audit_entry reg' d =
        (if d = c then (fst (audit_entry reg c), snd (audit_entry reg c) @ shares) else audit_entry reg d))"
proof (induction shares arbitrary: reg)
  case (Cons share shares)
  obtain n reg1 where add: "audit_registry_add c share reg = (n, reg1)" by fastforce
  have n: "n = length (snd (audit_entry reg c)) + 1" using audit.add_count[of c share reg] add by simp
  have e: "audit_entry reg1 d =
      (if d = c then (fst (audit_entry reg c), snd (audit_entry reg c) @ [share]) else audit_entry reg d)" for d
    using audit.entry_add[of c share reg d] add by simp
  obtain reg' where "put_shares (length (snd (audit_entry reg c)) + 1) shares reg1 c = Some reg'"
      "\<forall>d. audit_entry reg' d = (if d = c then (fst (audit_entry reg1 c), snd (audit_entry reg1 c) @ shares) else audit_entry reg1 d)"
    using Cons.IH[of reg1] e[of c] by auto
  moreover have "(if d = c then (fst (audit_entry reg1 c), snd (audit_entry reg1 c) @ shares) else audit_entry reg1 d) =
      (if d = c then (fst (audit_entry reg c), snd (audit_entry reg c) @ share # shares) else audit_entry reg d)" for d
    by (simp add: e)
  ultimately show ?case using add n by (auto simp: put_shares_def)
qed (simp add: put_shares_def)

lemma put_shares_all:
  assumes "distinct clients"
  shows "\<exists>reg. try_fold (put_shares 0 shares) (audit_registry_new n m) clients = Some reg
    \<and> (\<forall>d. audit_entry reg d = (None, if d \<in> set clients then shares else []))"
proof (rule try_fold_invariant)
  fix ys c zs and reg :: "('a, 'b) audit_registry"
  assume c: "clients = ys @ c # zs" and reg: "\<forall>d. audit_entry reg d = (None, if d \<in> set ys then shares else [])"
  have "audit_entry reg c = (None, [])" using assms c reg by auto
  then obtain reg' where "put_shares 0 shares reg c = Some reg'"
      "\<forall>d. audit_entry reg' d = (if d = c then (None, shares) else audit_entry reg d)"
    using put_shares_ok[of reg c shares] by auto
  then show "\<exists>reg'. put_shares 0 shares reg c = Some reg' \<and> (\<forall>d. audit_entry reg' d = (None, if d \<in> set (ys @ [c]) then shares else []))"
    using reg by auto
qed (simp add: audit_entry_new)

lemma audit_put_shares_test: "test_audit_registry_put_shares \<noteq> None"
proof -
  let ?shares = "replicate (unat NUM_SHARES) ()"
  obtain reg :: "(unit, u128) audit_registry" where reg:
      "try_fold (put_shares 0 ?shares) (audit_registry_new NUM_CLIENTS NUM_SHARES) test_clients = Some reg"
      "\<forall>d. audit_entry reg d = (None, if d \<in> set test_clients then ?shares else [])"
    using put_shares_all[OF distinct_test_clients] by blast
  have "try_fold (drain_expect ?shares) reg test_clients \<noteq> None"
    by (rule drain_expect_all[OF distinct_test_clients]) (simp add: reg(2))
  then show ?thesis using reg(1) by (simp add: test_audit_registry_put_shares_def Let_def)
qed

subsection \<open>Accumulator, stores and byte strings\<close>

lemma accumulator_tests_pass:
  "test_accumulator_get_empty" "test_accumulator_accumulate_identity = Some True"
  "test_accumulator_accumulate_unit = Some True" "test_accumulator_vec = Some True"
  by code_simp+

lemma from_string_tests_pass:
  "test_from_string_empty connect = Some True" "test_from_string_mem connect = Some True"
  "test_from_string_etcd connect = Some True \<longleftrightarrow> (\<exists>c. connect ''http://127.0.0.1:2379'' = Inr c)"
  "s \<noteq> '''' \<Longrightarrow> test_from_string_mem_nonempty connect s = Some True"
  by (auto simp: test_from_string_empty_def test_from_string_mem_def test_from_string_etcd_def test_from_string_mem_nonempty_def
      store_from_string_def prefix_def split: sum.splits)

text \<open>The test of all other texts fails exactly for an etcd server that answers.\<close>

lemma from_string_other_iff:
  assumes "s \<noteq> ''''"
  shows "test_from_string_other connect s = Some True \<longleftrightarrow> (\<forall>c. store_from_string connect s \<noteq> Inr (Etcd c))"
proof (cases "store_from_string connect s")
  case (Inr st)
  then show ?thesis
    using assms store_from_string_mem_iff[of connect s] by (cases st) (auto simp: test_from_string_other_def)
qed (simp add: test_from_string_other_def)

lemma bytes_random_length:
  assumes "fill_in_place fill"
  shows "\<exists>b r'. bytes_random fill n r = Some (b, r') \<and> length b = n"
proof -
  obtain len' buf r1 where loop: "bytes_random_loop fill n [] r = (len', buf, r1)" by (metis prod_cases3)
  obtain chunk r2 where chunk: "fill (replicate 4096 0) r1 = (chunk, r2)" by fastforce
  then have "length chunk = 4096" using assms by (metis fill_in_place_def fst_conv length_replicate)
  then show ?thesis using bytes_random_loop_spec[OF assms loop] loop chunk by (simp add: bytes_random_def vec_slice_def)
qed

lemma bytes_tests_pass:
  assumes "fill_in_place fill"
  shows "test_bytes_random_correct_size fill n r = Some True" "test_bytes_empty_correct_size n" "test_bytes_empty_zero n"
    "test_bytes_xor_zero fill n r = Some True"
proof -
  obtain b r' where b: "bytes_random fill n r = Some (b, r')" "length b = n" using bytes_random_length[OF assms] by blast
  then show "test_bytes_random_correct_size fill n r = Some True"
    by (simp add: test_bytes_random_correct_size_def bytes_len_def)
  show "test_bytes_xor_zero fill n r = Some True"
    using b by (simp add: test_bytes_xor_zero_def bytes_bitxor_assign_eq map2_xor_self is_all_zero_def list_all_iff)
qed (simp_all add: test_bytes_empty_correct_size_def test_bytes_empty_zero_def bytes_len_def bytes_empty_def is_all_zero_def
    list_all_iff)

end
