(* ===== verification/Conversions.thy ===== *)
theory Conversions
  imports Messages UnitTests
begin

text \<open>
  The tests of conversions and samplers: \<open>check_roundtrip!\<close> and \<open>check_sampleable!\<close> (\<open>util.rs\<close>) and their uses in
  \<open>constructions/jubjub.rs\<close>, \<open>constructions/baby.rs\<close> and \<open>wrapper.rs\<close>, and the module \<open>proto\<close> of \<open>check_protocol!\<close>
  (\<open>definition.rs\<close>), which sends tokens, audit shares and accumulators of a protocol through their messages. Random curve
  points and scalars are made from random bytes, as the tests do.

  \<open>test_not_deterministic\<close> holds with high probability only and has no counterpart. That two draws from one seed are equal
  says no more than that neither panics, as a draw is a function of the seed.
\<close>

section \<open>Tests\<close>

definition check_roundtrip :: "('a \<Rightarrow> 'b option) \<Rightarrow> ('b \<Rightarrow> 'a option) \<Rightarrow> 'a \<Rightarrow> bool option" where
  "check_roundtrip to from x = do { y \<leftarrow> to x; z \<leftarrow> from y; Some (z = x) }"

subsection \<open>Samplers\<close>

text \<open>The default of the trait: the last of one element.\<close>

definition sample_from_seed :: "('s \<Rightarrow> nat \<Rightarrow> 'a list option) \<Rightarrow> 's \<Rightarrow> 'a option" where
  "sample_from_seed sample_many seed =
     do { xs \<leftarrow> sample_many seed 1; if xs = [] then None else Some (last xs) }"

definition test_from_seed_deterministic :: "('s \<Rightarrow> nat \<Rightarrow> 'a list option) \<Rightarrow> 's \<Rightarrow> bool option" where
  "test_from_seed_deterministic sample_many seed =
     do { x \<leftarrow> sample_from_seed sample_many seed; y \<leftarrow> sample_from_seed sample_many seed; Some (x = y) }"

definition test_many_from_seed_deterministic :: "('s \<Rightarrow> nat \<Rightarrow> 'a list option) \<Rightarrow> 's \<Rightarrow> nat \<Rightarrow> bool option" where
  "test_many_from_seed_deterministic sample_many seed n =
     do { xs \<leftarrow> sample_many seed n; ys \<leftarrow> sample_many seed n; Some (xs = ys) }"

definition test_many_from_seed_correct_count :: "('s \<Rightarrow> nat \<Rightarrow> 'a list option) \<Rightarrow> 's \<Rightarrow> nat \<Rightarrow> bool option" where
  "test_many_from_seed_correct_count sample_many seed n = do { xs \<leftarrow> sample_many seed n; Some (length xs = n) }"

definition sampleable_suite :: "('s \<Rightarrow> nat \<Rightarrow> 'a list option) \<Rightarrow> 's \<Rightarrow> nat \<Rightarrow> bool" where
  "sampleable_suite sample_many seed n \<longleftrightarrow> test_from_seed_deterministic sample_many seed = Some True
     \<and> test_many_from_seed_deterministic sample_many seed n = Some True
     \<and> test_many_from_seed_correct_count sample_many seed n = Some True"

subsection \<open>Curve points and scalars\<close>

text \<open>\<open>subgroup_points\<close> and \<open>jubjubs\<close>: the elements that the tests draw, from a random byte and from 64 random bytes.\<close>

function subgroup_points_loop :: "('fr, 'sp) sp_ops \<Rightarrow> u8 \<Rightarrow> 'sp \<Rightarrow> 'sp" where
  "subgroup_points_loop Q e p =
     (let p1 = (if e mod 2 = 1 then sp_add Q p (sp_generator Q) else p); e1 = e div 2
      in if e1 \<le> 1 then p1 else subgroup_points_loop Q e1 (sp_add Q p1 p1))"
  by pat_completeness auto
termination
  by (relation "measure (\<lambda>(Q, e, p). unat e)") (auto simp: unat_div word_le_nat_alt not_le)

declare subgroup_points_loop.simps [simp del]

definition subgroup_points :: "('fr, 'sp) sp_ops \<Rightarrow> u8 \<Rightarrow> 'sp" where
  "subgroup_points Q e = subgroup_points_loop Q e (sp_generator Q)"

definition point_arbitrary :: "('fr, 'sp) sp_ops \<Rightarrow> u8 \<Rightarrow> 'sp curve_point" where
  "point_arbitrary Q e = CurvePoint (subgroup_points Q e)"

definition scalar_arbitrary :: "'fr fr_ops \<Rightarrow> bytes \<Rightarrow> 'fr scalar" where
  "scalar_arbitrary R v = Scalar (fr_from_bytes_wide R v)"

definition point_to_vec_u8_rt :: "('fr, 'sp) sp_ops \<Rightarrow> 'sp curve_point \<Rightarrow> bool option" where
  "point_to_vec_u8_rt Q = check_roundtrip (\<lambda>p. Some (point_to_vec Q p)) (\<lambda>v. result_unwrap (point_try_from_vec Q v))"

text \<open>Both types are serialised through \<open>Vec<u8>\<close>, whose JSON text is an argument.\<close>

definition point_to_json_rt ::
    "('fr, 'sp) sp_ops \<Rightarrow> (bytes \<Rightarrow> string) \<Rightarrow> (string \<Rightarrow> bytes option) \<Rightarrow> 'sp curve_point \<Rightarrow> bool option" where
  "point_to_json_rt Q to_json from_json =
     check_roundtrip (\<lambda>p. Some (to_json (point_to_vec Q p)))
       (\<lambda>s. do { v \<leftarrow> from_json s; result_unwrap (point_try_from_vec Q v) })"

definition scalar_to_vec_u8 :: "'fr fr_ops \<Rightarrow> 'fr scalar \<Rightarrow> bool option" where
  "scalar_to_vec_u8 R = check_roundtrip (\<lambda>s. Some (scalar_to_bytes R s)) (\<lambda>v. result_unwrap (scalar_try_from_vec R v))"

definition scalar_to_json_rt ::
    "'fr fr_ops \<Rightarrow> (bytes \<Rightarrow> string) \<Rightarrow> (string \<Rightarrow> bytes option) \<Rightarrow> 'fr scalar \<Rightarrow> bool option" where
  "scalar_to_json_rt R to_json from_json =
     check_roundtrip (\<lambda>s. Some (to_json (scalar_to_bytes R s)))
       (\<lambda>s. do { v \<leftarrow> from_json s; result_unwrap (scalar_try_from_vec R v) })"

definition element_vector_vec_u8_rt :: "('fr, 'sp) sp_ops \<Rightarrow> 'sp curve_point list \<Rightarrow> bool option" where
  "element_vector_vec_u8_rt Q =
     check_roundtrip (\<lambda>v. Some (ev_to_vec (point_to_vec Q) v)) (\<lambda>b. result_unwrap (ev_try_from_vec (point_try_from_vec Q) b))"

text \<open>The one input of this test are the bytes of the generator.\<close>

definition bytes_element_vector_rt :: "('fr, 'sp) sp_ops \<Rightarrow> bool option" where
  "bytes_element_vector_rt Q =
     check_roundtrip (\<lambda>b. do { res \<leftarrow> ev_try_from_bytes (point_try_from_bytes Q) b; result_unwrap res })
       (ev_to_bytes (point_to_bytes Q)) (sp_to_bytes Q (sp_generator Q))"


definition authkey_channelkeywrapper_rt :: "'fr scalar \<Rightarrow> bool option" where
  "authkey_channelkeywrapper_rt =
     check_roundtrip (\<lambda>k. Some (wrapper_from_auth_key k :: ('fr, unit) channel_key_wrapper)) (\<lambda>w. result_unwrap (auth_key_try_from w))"

subsection \<open>Messages\<close>

definition write_token_rt :: "('t \<Rightarrow> proto_write_token) \<Rightarrow> ('t, 's, 'k, 'm, 'fr, 'sp) wire_ops \<Rightarrow> 't \<Rightarrow> bool option" where
  "write_token_rt token_into W =
     check_roundtrip (\<lambda>t. Some (token_into t)) (\<lambda>p. do { res \<leftarrow> wire_token_from W p; result_unwrap res })"

definition audit_share_rt :: "('t, 's, 'k, 'm, 'fr, 'sp) wire_ops \<Rightarrow> 's \<Rightarrow> bool option" where
  "audit_share_rt W =
     check_roundtrip (\<lambda>s. Some (wire_share_into W s)) (\<lambda>p. do { res \<leftarrow> wire_share_from W p; result_unwrap res })"

definition share_rt :: "('m list \<Rightarrow> proto_share) \<Rightarrow> (proto_share \<Rightarrow> 'e + 'm list) \<Rightarrow> 'm list \<Rightarrow> bool option" where
  "share_rt share_into share_from = check_roundtrip (\<lambda>a. Some (share_into a)) (\<lambda>p. result_unwrap (share_from p))"

definition message_suite where
  "message_suite W token_into share_into share_from t s acc \<longleftrightarrow>
     write_token_rt token_into W t = Some True \<and> audit_share_rt W s = Some True \<and> share_rt share_into share_from acc = Some True"


section \<open>They pass\<close>

lemma roundtrip_passes: "to x = Some y \<Longrightarrow> from y = Some x \<Longrightarrow> check_roundtrip to from x = Some True"
  by (simp add: check_roundtrip_def)

lemma codec_roundtrip_passes:
  "codec enc dec valid \<Longrightarrow> valid x \<Longrightarrow> check_roundtrip (\<lambda>x. Some (enc x)) (\<lambda>y. result_unwrap (dec y)) x = Some True"
  by (rule roundtrip_passes) (auto simp: codec.roundtrip)

subsection \<open>Samplers\<close>

lemma sampleable_suite_passes:
  assumes "\<And>n. \<exists>xs. sample_many seed n = Some xs \<and> length xs = n"
  shows "sampleable_suite sample_many seed n"
proof -
  obtain xs where "sample_many seed n = Some xs" "length xs = n" using assms by blast
  moreover obtain ys where "sample_many seed 1 = Some ys" "length ys = 1" using assms by blast
  ultimately show ?thesis
    by (auto simp: sampleable_suite_def test_from_seed_deterministic_def test_many_from_seed_deterministic_def
        test_many_from_seed_correct_count_def sample_from_seed_def)
qed

lemma intmod_sampleable_suite:
  assumes "sampler_in (\<lambda>v. v < N) (gen_range N)"
  shows "sampleable_suite (intmod_sample_many_from_seed from_seed gen_range N) seed n"
proof (rule sampleable_suite_passes)
  fix n
  let ?vs = "fst (repeat_with_take (gen_range N) n (from_seed seed))"
  have "list_all (\<lambda>v. v < N) ?vs" using repeat_with_take_in[OF assms] by (metis prod.collapse)
  then have "try_map (\<lambda>v. case intmod_try_from N v of Inl _ \<Rightarrow> None | Inr x \<Rightarrow> Some x) ?vs = Some (map IntMod ?vs)"
    by (intro try_map_eq_map) (auto simp: list_all_iff intmod_try_from_def intmod_order_def word_less_nat_alt)
  then show "\<exists>xs. intmod_sample_many_from_seed from_seed gen_range N seed n = Some xs \<and> length xs = n"
    by (simp add: intmod_sample_many_from_seed_def)
qed

subsection \<open>Curve points, scalars and messages\<close>

text \<open>What \<open>subgroup_points\<close> computes is not the multiple of the generator by its byte: even the smallest bytes collide.\<close>

lemma subgroup_points_collide: "subgroup_points Q 0 = sp_generator Q" "subgroup_points Q 2 = sp_generator Q"
  by (simp_all add: subgroup_points_def subgroup_points_loop.simps)

context jubjub_crate
begin

lemma subgroup_points_valid: "validQ (subgroup_points Q e)"
proof -
  have "validQ p \<longrightarrow> validQ (subgroup_points_loop Q e p)" for p
  proof (induction "unat e" arbitrary: e p rule: less_induct)
    case less
    show ?case
    proof (cases "e div 2 \<le> 1")
      case False
      then have "unat (e div 2) < unat e" by (simp add: unat_div word_le_nat_alt)
      from less[OF this] show ?thesis
        by (subst subgroup_points_loop.simps) (simp add: Let_def False sp_closed sp_consts)
    qed (subst subgroup_points_loop.simps, simp add: Let_def sp_closed sp_consts)
  qed
  then show ?thesis by (simp add: subgroup_points_def sp_consts)
qed

lemma point_tests_pass:
  shows "validP p \<Longrightarrow> point_to_vec_u8_rt Q p = Some True" "list_all validP ps \<Longrightarrow> element_vector_vec_u8_rt Q ps = Some True"
    "bytes_element_vector_rt Q = Some True"
proof -
  show "point_to_vec_u8_rt Q p = Some True" if "validP p"
    unfolding point_to_vec_u8_rt_def using that by (rule codec_roundtrip_passes[OF points.codec_axioms])
  show "element_vector_vec_u8_rt Q ps = Some True" if "list_all validP ps"
    unfolding element_vector_vec_u8_rt_def using that by (rule codec_roundtrip_passes[OF point_vectors.codec_axioms])
  have g: "length (sp_to_bytes Q (sp_generator Q)) = 32" "sp_from_bytes Q (sp_to_bytes Q (sp_generator Q)) = Some (sp_generator Q)"
    using sp_bytes sp_consts by simp_all
  have "vec_chunks 32 (sp_to_bytes Q (sp_generator Q)) = [sp_to_bytes Q (sp_generator Q)]"
    using vec_chunks_concat[of 32 "[sp_to_bytes Q (sp_generator Q)]"] g(1) by simp
  then show "bytes_element_vector_rt Q = Some True"
    unfolding bytes_element_vector_rt_def using g
    by (intro roundtrip_passes[where y = "[CurvePoint (sp_generator Q)]"])
      (simp_all add: ev_try_from_bytes_def point_try_from_bytes_def bytes_len_def ev_to_bytes_def point_to_bytes_def vec_slice_def)
qed

lemma scalar_test_passes: "validS s \<Longrightarrow> scalar_to_vec_u8 R s = Some True"
  unfolding scalar_to_vec_u8_def by (rule codec_roundtrip_passes[OF scalars.codec_axioms])

lemma json_tests_pass:
  assumes "\<And>v. from_json (to_json v) = Some v"
  shows "validP p \<Longrightarrow> point_to_json_rt Q to_json from_json p = Some True"
    and "validS s \<Longrightarrow> scalar_to_json_rt R to_json from_json s = Some True"
  by (simp_all add: point_to_json_rt_def scalar_to_json_rt_def check_roundtrip_def assms point_vec_roundtrip scalar_vec_roundtrip)

text \<open>The elements that the tests draw are valid; of \<open>from_bytes_wide\<close> this is the contract of the crate.\<close>

lemma arbitrary_valid:
  "validP (point_arbitrary Q e)"
  "(\<And>b. length b = 64 \<Longrightarrow> validR (fr_from_bytes_wide R b)) \<Longrightarrow> length v = 64 \<Longrightarrow> validS (scalar_arbitrary R v)"
  by (simp_all add: point_arbitrary_def scalar_arbitrary_def subgroup_points_valid)

lemma scalar_sampleable_suite:
  "ctr_mode encrypt \<Longrightarrow> aes_seed_valid seed \<Longrightarrow> sampleable_suite (scalar_sample_many_from_seed R encrypt) seed n"
  using scalar_sample_many_ok by (intro sampleable_suite_passes) blast

end

context crypto
begin


lemma scalar_samples:
  "aes_seed_valid seed \<Longrightarrow> sampleable_suite (scalar_sample_many_from_seed (env_fr env) (env_encrypt env)) seed n"
  by (rule scalar_sampleable_suite[OF ctr])

end

text \<open>The messages of the three protocols.\<close>

lemma message_suite_passes:
  assumes "wire_token_from W (token_into t) = Some (Inr t)" "wire_share_from W (wire_share_into W s) = Some (Inr s)"
    and "share_from (share_into acc) = Inr acc"
  shows "message_suite W token_into share_into share_from t s acc"
  using assms
  by (simp add: message_suite_def write_token_rt_def audit_share_rt_def share_rt_def check_roundtrip_def)

definition audit_share_ok :: "('s \<Rightarrow> bool) \<Rightarrow> 's token audit_share \<Rightarrow> bool" where
  "audit_share_ok valid s \<longleftrightarrow> valid (tok_seed (share_token s)) \<and> valid (tok_bit (share_token s))"

context jubjub_crate
begin

lemma two_key_message_suite:
  assumes "two_key_token_ok aes_seed_valid validS n t" "audit_share_ok validS s"
  shows "message_suite (two_key_wire_ops R) (two_key_write_token_into R) share_from_bytes bytes_try_from_share t s acc"
  using assms two_key_wire[of t] audit_share_wire(1)[of s]
  by (intro message_suite_passes)
    (simp_all add: two_key_wire_ops_def two_key_write_token_into_def two_key_token_ok_def audit_share_ok_def share_from_bytes_def
      bytes_try_from_share_def)

lemma pub_message_suite:
  assumes "two_key_token_ok aes_seed_valid validP n t" "audit_share_ok validP s"
  shows "message_suite (pub_wire_ops Q) (pub_write_token_into Q) share_from_bytes bytes_try_from_share t s acc"
  using pub_wire[OF assms(1)] pub_share_wire[of s] assms(2)
  by (intro message_suite_passes)
    (simp_all add: pub_wire_ops_def pub_write_token_into_def audit_share_ok_def share_from_bytes_def bytes_try_from_share_def)

lemma multi_key_message_suite:
  assumes "multi_key_token_ok validP validS k n t" "audit_share_ok validS s" "list_all (list_all validP) acc"
  shows "message_suite (multi_key_wire_ops R Q) (multi_key_write_token_into R Q) (share_from_elements (point_to_vec Q))
    (elements_try_from_share (point_try_from_vec Q)) t s acc"
  using assms multi_key_wire[of t] audit_share_wire(2)[of s] point_vectors.list_roundtrip[OF assms(3)]
  by (intro message_suite_passes)
    (simp_all add: multi_key_wire_ops_def multi_key_write_token_into_def multi_key_token_ok_def multi_key_valid_def vec_valid_def
      audit_share_ok_def share_from_elements_def elements_try_from_share_def map_err_def)

end

lemma authkey_test_passes: "authkey_channelkeywrapper_rt k = Some True"
  unfolding authkey_channelkeywrapper_rt_def
  by (simp add: check_roundtrip_def wrapper_from_auth_key_def auth_key_try_from_def)

end
