(* ===== verification/InProcess.thy ===== *)
theory InProcess
  imports Processes
begin

text \<open>
  The end of an experiment.

  \<^item> The upload loop of \<open>client/viewer.rs\<close>: every write token is sent until the worker accepts it, and a hammering client
    starts again with cover traffic.
  \<^item> \<open>run_in_process\<close> of \<open>lib.rs\<close>, which runs all processes of an experiment as tasks of one program. A barrier keeps them
    running until the publisher is done; a task measures the time, and another one gives up after ten seconds. The
    tasks are the parties of a state machine. Its events are what the tasks do; in which order they happen, and which
    of the processes fail, is left open.
\<close>

section \<open>The upload loop\<close>

text \<open>The outcome of the \<open>k\<close>-th attempt of an upload is given; the loop may run for ever.\<close>

partial_function (option) upload_loop :: "(nat \<Rightarrow> 'e + 'resp) \<Rightarrow> nat \<Rightarrow> 'resp option" where
  "upload_loop send k = (case send k of Inr resp \<Rightarrow> Some resp | Inl err \<Rightarrow> upload_loop send (k + 1))"

text \<open>One task per upload; all of them are awaited.\<close>

definition upload_round ::
    "('c \<Rightarrow> upload_request \<Rightarrow> nat \<Rightarrow> 'e + 'resp) \<Rightarrow> ('c \<times> upload_request) list \<Rightarrow> 'resp list option" where
  "upload_round send uploads = try_map (\<lambda>(client, req). upload_loop (send client req) 0) uploads"

text \<open>The outer loop: the number of rounds it makes before it ends.\<close>

partial_function (option) viewer_loop ::
    "('r, 'm, 'k, 'w, 't, 'x) protocol_ops_scheme \<Rightarrow> ('w \<Rightarrow> proto_write_token) \<Rightarrow> ('fr, 'sp) client_info \<Rightarrow> 'c list \<Rightarrow> bool
     \<Rightarrow> (nat \<Rightarrow> 'c \<Rightarrow> upload_request \<Rightarrow> nat \<Rightarrow> 'e + 'resp) \<Rightarrow> nat \<Rightarrow> 'w list \<Rightarrow> 'r \<Rightarrow> nat option" where
  "viewer_loop T token_into info clients hammer send n tokens r =
     do { responses \<leftarrow> upload_round (send n) (viewer_uploads token_into info clients tokens);
          if \<not> hammer then Some (n + 1)
          else do { (tokens', r') \<leftarrow> proto_cover T r; viewer_loop T token_into info clients hammer send (n + 1) tokens' r' } }"

lemma upload_loop_first:
  assumes "send (k + d) = Inr resp" "\<forall>j < d. \<exists>err. send (k + j) = Inl err"
  shows "upload_loop send k = Some resp"
  using assms
proof (induction d arbitrary: k)
  case (Suc d)
  obtain err where "send k = Inl err" using Suc.prems(2) by force
  moreover have "upload_loop send (k + 1) = Some resp"
  proof (rule Suc.IH)
    show "\<forall>j < d. \<exists>err. send (k + 1 + j) = Inl err"
    proof (intro allI impI)
      fix j
      assume "j < d"
      then show "\<exists>err. send (k + 1 + j) = Inl err" using Suc.prems(2)[rule_format, of "j + 1"] by simp
    qed
  qed (use Suc.prems(1) in simp)
  ultimately show ?case by (subst upload_loop.simps) simp
qed (subst upload_loop.simps, simp)

lemma upload_loop_sound:
  fixes send :: "nat \<Rightarrow> 'a + 'b"
  assumes "upload_loop send k = Some resp"
  shows "\<exists>j \<ge> k. send j = Inr resp"
proof (rule upload_loop.raw_induct[where P = "\<lambda>send k resp. \<exists>j \<ge> k. send j = Inr resp", OF _ assms])
  fix loop :: "(nat \<Rightarrow> 'a + 'b) \<Rightarrow> nat \<Rightarrow> 'b option" and send k resp
  assume IH: "\<And>send k resp. loop send k = Some resp \<Longrightarrow> \<exists>j \<ge> k. send j = Inr resp"
    and step: "(case send k of Inr resp \<Rightarrow> Some resp | Inl err \<Rightarrow> loop send (k + 1)) = Some resp"
  show "\<exists>j \<ge> k. send j = Inr resp"
  proof (cases "send k")
    case (Inl err)
    then have "loop send (k + 1) = Some resp" using step by simp
    from IH[OF this] show ?thesis by (meson add_leD1)
  qed (use step in auto)
qed

text \<open>The loop ends exactly when some attempt is accepted.\<close>

lemma upload_loop_iff: "(\<exists>resp. upload_loop send k = Some resp) \<longleftrightarrow> (\<exists>j \<ge> k. \<exists>resp. send j = Inr resp)"
proof
  assume ex: "\<exists>j \<ge> k. \<exists>resp. send j = Inr resp"
  define d where "d = (LEAST d. \<exists>resp. send (k + d) = Inr resp)"
  from ex have "\<exists>d resp. send (k + d) = Inr resp" by (metis le_Suc_ex)
  then obtain resp where hit: "send (k + d) = Inr resp" unfolding d_def using LeastI_ex[of "\<lambda>d. \<exists>resp. send (k + d) = Inr resp"] by blast
  have "\<forall>j < d. \<exists>err. send (k + j) = Inl err"
  proof (intro allI impI)
    fix j
    assume "j < d"
    then have "\<not> (\<exists>resp. send (k + j) = Inr resp)" unfolding d_def by (rule not_less_Least)
    then show "\<exists>err. send (k + j) = Inl err" by (cases "send (k + j)") auto
  qed
  from upload_loop_first[OF hit this] show "\<exists>resp. upload_loop send k = Some resp" ..
next
  assume "\<exists>resp. upload_loop send k = Some resp"
  then obtain resp where "upload_loop send k = Some resp" ..
  from upload_loop_sound[OF this] show "\<exists>j \<ge> k. \<exists>resp. send j = Inr resp" by auto
qed

lemma upload_round_iff:
  "(\<exists>rs. upload_round send uploads = Some rs) \<longleftrightarrow> (\<forall>(client, req) \<in> set uploads. \<exists>j resp. send client req j = Inr resp)"
proof -
  have "(\<exists>rs. upload_round send uploads = Some rs) \<longleftrightarrow> (\<forall>(client, req) \<in> set uploads. \<exists>resp. upload_loop (send client req) 0 = Some resp)"
    unfolding upload_round_def by (simp flip: not_None_eq add: try_map_None_iff split_def)
  then show ?thesis by (simp add: upload_loop_iff)
qed

lemma hammer_never_ends: "viewer_loop T token_into info clients True send n tokens r = None"
proof -
  have "\<not> hammer" if "viewer_loop T token_into info clients hammer send n tokens r = Some y" for hammer y
    by (rule viewer_loop.raw_induct[where P = "\<lambda>T token_into info clients hammer send n tokens r y. \<not> hammer", OF _ that])
      (fastforce simp: bind_eq_Some_conv split: if_splits)
  then show ?thesis by (metis not_None_eq)
qed

text \<open>A client that does not hammer makes one round, and ends when all of its tokens have been accepted.\<close>

lemma viewer_loop_iff:
  "(\<exists>m. viewer_loop T token_into info clients hammer send n tokens r = Some m) \<longleftrightarrow>
   \<not> hammer \<and> (\<forall>(client, req) \<in> set (viewer_uploads token_into info clients tokens). \<exists>j resp. send n client req j = Inr resp)"
proof (cases hammer)
  case False
  have "(\<exists>m. viewer_loop T token_into info clients False send n tokens r = Some m)
      \<longleftrightarrow> (\<exists>rs. upload_round (send n) (viewer_uploads token_into info clients tokens) = Some rs)"
    by (subst viewer_loop.simps) (auto simp: bind_eq_Some_conv)
  then show ?thesis using False by (simp only: upload_round_iff simp_thms)
qed (simp add: hammer_never_ends)

section \<open>The barrier\<close>

text \<open>The parties: the future \<open>shutdown\<close> of the \<open>i\<close>-th process, the publisher's call of \<open>done\<close>, and the timer.\<close>

datatype party = Shutdown nat | Done | Timer

text \<open>The barrier of the runtime library is a parameter: a new barrier for a number of parties, a party's call of \<open>wait\<close>, and the
  parties whose calls have returned. It is used once by every party.\<close>

record 'b barrier_ops =
  br_new :: "nat \<Rightarrow> 'b"
  br_wait :: "party \<Rightarrow> 'b \<Rightarrow> 'b"
  br_passed :: "'b \<Rightarrow> party set"

text \<open>No call returns before the number of parties have called \<open>wait\<close>; then all do.\<close>

locale runtime_barrier =
  fixes B :: "'b barrier_ops"
  assumes passed: "distinct ps \<Longrightarrow> length ps \<le> n \<Longrightarrow>
    br_passed B (foldl (\<lambda>b p. br_wait B p b) (br_new B n) ps) = (if length ps < n then {} else set ps)"

text \<open>A barrier that counts.\<close>

definition counting_barrier :: "(nat \<times> party list) barrier_ops" where
  "counting_barrier = \<lparr> br_new = (\<lambda>n. (n, [])), br_wait = (\<lambda>p (n, ps). (n, ps @ [p])),
     br_passed = (\<lambda>(n, ps). if length ps < n then {} else set ps) \<rparr>"

interpretation counting: runtime_barrier counting_barrier
proof
  fix ps :: "party list" and n
  have "foldl (\<lambda>b p. br_wait counting_barrier p b) (n, qs) ps = (n, qs @ ps)" for qs
    by (induction ps arbitrary: qs) (simp_all add: counting_barrier_def)
  from this[of "[]"]
  show "br_passed counting_barrier (foldl (\<lambda>b p. br_wait counting_barrier p b) (br_new counting_barrier n) ps)
      = (if length ps < n then {} else set ps)"
    by (simp add: counting_barrier_def)
qed

section \<open>The processes of one program\<close>

definition TIMEOUT :: int where
  "TIMEOUT = 10000"

text \<open>A process: not yet at its first suspension; serving; a client with uploads that are not accepted yet, and one that has
  no more; ended after the barrier; ended with an error, before it served anything or while its server runs on.\<close>

datatype ip_proc = Starting | Serving | Uploading nat | Uploaded | Stopped | Broken | Orphaned

datatype ip_timer = Unnotified | Timing int | Elapsed int

record 'b in_process =
  ip_barrier :: 'b
  ip_started :: bool
  ip_permit :: bool
  ip_timer :: ip_timer
  ip_now :: int
  ip_shares :: nat
  ip_procs :: "ip_proc list"
  ip_result :: "(string + int) option"

definition is_client :: "('fr, 'sp) service \<Rightarrow> bool" where
  "is_client s = (case s of Client _ \<Rightarrow> True | _ \<Rightarrow> False)"

text \<open>\<open>run_in_process\<close> up to the \<open>select!\<close>.\<close>

definition run_in_process ::
    "'b barrier_ops \<Rightarrow> ('st, 'x) store_ops_scheme \<Rightarrow> (('r, 'fr, 'sp) experiment_spec \<Rightarrow> string + string) \<Rightarrow> 'st \<Rightarrow> ('r, 'fr, 'sp) experiment_spec
     \<Rightarrow> (crate_error + 'st \<times> ('fr, 'sp) service list \<times> 'b in_process) option" where
  "run_in_process B S to_json st e =
     (case write_to_store S to_json st e of
        Inl err \<Rightarrow> Some (Inl err)
      | Inr st' \<Rightarrow>
          do { n \<leftarrow> barrier_size e;
               services \<leftarrow> iter_services e;
               let procs = services @ iter_clients e;
               Some (Inr (st', procs,
                 \<lparr> ip_barrier = br_new B n, ip_started = False, ip_permit = False, ip_timer = Unnotified, ip_now = 0,
                   ip_shares = 0, ip_procs = replicate (length procs) Starting, ip_result = None \<rparr>)) })"

definition ip_set :: "nat \<Rightarrow> ip_proc \<Rightarrow> 'b in_process \<Rightarrow> 'b in_process" where
  "ip_set i p ip = ip\<lparr> ip_procs := (ip_procs ip)[i := p] \<rparr>"

definition ip_wait :: "'b barrier_ops \<Rightarrow> party \<Rightarrow> 'b in_process \<Rightarrow> 'b in_process" where
  "ip_wait B p ip = ip\<lparr> ip_barrier := br_wait B p (ip_barrier ip) \<rparr>"

text \<open>A server is spawned and waits for its shutdown.\<close>

definition ip_serve :: "'b barrier_ops \<Rightarrow> nat \<Rightarrow> 'b in_process \<Rightarrow> 'b in_process" where
  "ip_serve B i ip = ip_wait B (Shutdown i) (ip_set i Serving ip)"

text \<open>\<open>PublisherRemote::start\<close>, when the start time is reached.\<close>

definition ip_start :: "'b in_process \<Rightarrow> 'b in_process" where
  "ip_start ip = ip\<lparr> ip_started := True, ip_permit := True \<rparr>"

text \<open>The timer is notified, takes the time and waits.\<close>

definition ip_notified :: "'b barrier_ops \<Rightarrow> 'b in_process \<Rightarrow> 'b in_process" where
  "ip_notified B ip = ip_wait B Timer (ip\<lparr> ip_permit := False, ip_timer := Timing (ip_now ip) \<rparr>)"

text \<open>A worker accepts an upload of the \<open>i\<close>-th process.\<close>

definition ip_accept :: "'b barrier_ops \<Rightarrow> bool \<Rightarrow> nat \<Rightarrow> nat \<Rightarrow> nat \<Rightarrow> 'b in_process \<Rightarrow> 'b in_process" where
  "ip_accept B hammer parties i k ip =
     (if 1 < k then ip_set i (Uploading (k - 1)) ip
      else if hammer then ip_set i (Uploading parties) ip
      else ip_wait B (Shutdown i) (ip_set i Uploaded ip))"

text \<open>The publisher gets the share of a group, at whatever time; with the last one it calls \<open>PublisherRemote::done\<close>.\<close>

definition ip_share :: "'b barrier_ops \<Rightarrow> nat \<Rightarrow> 'b in_process \<Rightarrow> 'b in_process" where
  "ip_share B parties ip =
     (let ip' = ip\<lparr> ip_shares := ip_shares ip + 1 \<rparr> in if ip_shares ip' = parties then ip_wait B Done ip' else ip')"

text \<open>The timer's task ends.\<close>

definition ip_elapsed :: "int \<Rightarrow> 'b in_process \<Rightarrow> 'b in_process" where
  "ip_elapsed t ip = ip\<lparr> ip_timer := Elapsed (ip_now ip - t) \<rparr>"

text \<open>The two branches of the \<open>select!\<close>.\<close>

definition ip_return :: "(string + int) \<Rightarrow> 'b in_process \<Rightarrow> 'b in_process" where
  "ip_return res ip = ip\<lparr> ip_result := Some res \<rparr>"

text \<open>The steps allow more than the program does: a share may come in and an upload may be accepted at any time before the return, also
  before the publisher serves. Left out is a panic in the one task that polls all the processes (those panics that start-up can
  have are in \<open>Startup\<close>), which would drop the other processes with it.\<close>

inductive ip_step for B :: "'b barrier_ops" and hammer parties and procs :: "('fr, 'sp) service list" where
  serve: "i < length procs \<Longrightarrow> \<not> is_client (procs ! i) \<Longrightarrow> ip_procs ip ! i = Starting \<Longrightarrow> ip_result ip = None \<Longrightarrow>
    ip_step B hammer parties procs ip (ip_serve B i ip)"
| start: "i < length procs \<Longrightarrow> procs ! i = Publisher PublisherInfo \<Longrightarrow> ip_procs ip ! i = Serving \<Longrightarrow> \<not> ip_started ip \<Longrightarrow>
    ip_result ip = None \<Longrightarrow> ip_step B hammer parties procs ip (ip_start ip)"
| notified: "ip_permit ip \<Longrightarrow> ip_timer ip = Unnotified \<Longrightarrow> ip_result ip = None \<Longrightarrow>
    ip_step B hammer parties procs ip (ip_notified B ip)"
| begin_uploads: "i < length procs \<Longrightarrow> is_client (procs ! i) \<Longrightarrow> ip_procs ip ! i = Starting \<Longrightarrow> ip_result ip = None \<Longrightarrow>
    ip_step B hammer parties procs ip (ip_set i (Uploading parties) ip)"
| accept: "i < length procs \<Longrightarrow> ip_procs ip ! i = Uploading k \<Longrightarrow> ip_result ip = None \<Longrightarrow>
    ip_step B hammer parties procs ip (ip_accept B hammer parties i k ip)"
| share: "ip_result ip = None \<Longrightarrow> ip_step B hammer parties procs ip (ip_share B parties ip)"
| stop: "i < length procs \<Longrightarrow> ip_procs ip ! i \<in> {Serving, Uploaded} \<Longrightarrow> Shutdown i \<in> br_passed B (ip_barrier ip) \<Longrightarrow>
    ip_result ip = None \<Longrightarrow> ip_step B hammer parties procs ip (ip_set i Stopped ip)"
| fail: "i < length procs \<Longrightarrow> ip_procs ip ! i = Starting \<Longrightarrow> ip_result ip = None \<Longrightarrow>
    ip_step B hammer parties procs ip (ip_set i Broken ip)"
| fail_serving: "i < length procs \<Longrightarrow> ip_procs ip ! i = Serving \<Longrightarrow> ip_result ip = None \<Longrightarrow>
    ip_step B hammer parties procs ip (ip_set i Orphaned ip)"
| elapsed: "ip_timer ip = Timing t \<Longrightarrow> Timer \<in> br_passed B (ip_barrier ip) \<Longrightarrow> ip_result ip = None \<Longrightarrow>
    ip_step B hammer parties procs ip (ip_elapsed t ip)"
| finished: "ip_timer ip = Elapsed d \<Longrightarrow> ip_result ip = None \<Longrightarrow> ip_step B hammer parties procs ip (ip_return (Inr d) ip)"
| timed_out: "TIMEOUT \<le> ip_now ip \<Longrightarrow> ip_result ip = None \<Longrightarrow>
    ip_step B hammer parties procs ip (ip_return (Inl ''Task timed out after 10s.'') ip)"
| tick: "0 \<le> d \<Longrightarrow> ip_result ip = None \<Longrightarrow> ip_step B hammer parties procs ip (ip\<lparr> ip_now := ip_now ip + d \<rparr>)"

inductive_cases ip_stepE: "ip_step B hammer parties procs ip ip'"

section \<open>The barrier opens when all parties have arrived\<close>

text \<open>The parties, and those that have arrived at the barrier.\<close>

definition parties_of :: "'p list \<Rightarrow> party set" where
  "parties_of procs = Shutdown ` {..<length procs} \<union> {Done, Timer}"

fun has_arrived :: "nat \<Rightarrow> 'b in_process \<Rightarrow> party \<Rightarrow> bool" where
  "has_arrived parties ip (Shutdown i) \<longleftrightarrow> i < length (ip_procs ip) \<and> ip_procs ip ! i \<in> {Serving, Uploaded, Stopped, Orphaned}"
| "has_arrived parties ip Done \<longleftrightarrow> parties \<le> ip_shares ip"
| "has_arrived parties ip Timer \<longleftrightarrow> ip_timer ip \<noteq> Unnotified"

definition proc_ok :: "bool \<Rightarrow> bool \<Rightarrow> ('fr, 'sp) service \<Rightarrow> ip_proc \<Rightarrow> bool" where
  "proc_ok hammer is_open s p \<longleftrightarrow>
     (case p of
        Starting \<Rightarrow> True
      | Serving \<Rightarrow> \<not> is_client s
      | Orphaned \<Rightarrow> \<not> is_client s
      | Broken \<Rightarrow> True
      | Uploading k \<Rightarrow> is_client s
      | Uploaded \<Rightarrow> is_client s \<and> \<not> hammer
      | Stopped \<Rightarrow> (is_client s \<longrightarrow> \<not> hammer) \<and> is_open)"

context runtime_barrier
begin

definition bar_ok :: "nat \<Rightarrow> party set \<Rightarrow> 'b \<Rightarrow> bool" where
  "bar_ok n P b \<longleftrightarrow> (\<exists>ps. b = foldl (\<lambda>b p. br_wait B p b) (br_new B n) ps \<and> distinct ps \<and> set ps = P \<and> length ps \<le> n)"

lemma bar_ok_passed: "bar_ok n P b \<Longrightarrow> finite P \<and> card P \<le> n \<and> br_passed B b = (if card P < n then {} else P)"
  unfolding bar_ok_def using passed by (auto simp: distinct_card)

lemma bar_open_iff:
  assumes "bar_ok n P b" "P \<subseteq> U" "finite U" "card U = n" "0 < n"
  shows "br_passed B b \<noteq> {} \<longleftrightarrow> P = U"
proof -
  have "br_passed B b \<noteq> {} \<longleftrightarrow> card P = n"
    using bar_ok_passed[OF assms(1)] assms(5) by (cases "card P < n") auto
  also have "\<dots> \<longleftrightarrow> P = U" using assms(4) card_subset_eq[OF assms(3,2)] by auto
  finally show ?thesis .
qed

lemma bar_wait_ok:
  assumes ok: "bar_ok n P b" and p: "p \<notin> P" and U: "insert p P \<subseteq> U" "finite U" "card U = n"
  shows "bar_ok n (insert p P) (br_wait B p b)"
proof -
  obtain ps where ps: "b = foldl (\<lambda>b p. br_wait B p b) (br_new B n) ps" "distinct ps" "set ps = P" using ok by (auto simp: bar_ok_def)
  have "length (ps @ [p]) = card (insert p P)" using ps p distinct_card[of "ps @ [p]"] by simp
  also have "\<dots> \<le> n" using U card_mono by blast
  finally show ?thesis using ps p unfolding bar_ok_def by (intro exI[of _ "ps @ [p]"]) simp
qed

subsection \<open>The invariant\<close>

definition timer_ok :: "'b in_process \<Rightarrow> bool" where
  "timer_ok ip \<longleftrightarrow> (ip_started ip \<longleftrightarrow> ip_permit ip \<or> ip_timer ip \<noteq> Unnotified)
     \<and> (case ip_timer ip of
          Unnotified \<Rightarrow> True
        | Timing t \<Rightarrow> t \<le> ip_now ip
        | Elapsed d \<Rightarrow> 0 \<le> d \<and> br_passed B (ip_barrier ip) \<noteq> {})
     \<and> (\<forall>d. ip_result ip = Some (Inr d) \<longrightarrow> ip_timer ip = Elapsed d)"

definition ip_inv :: "bool \<Rightarrow> nat \<Rightarrow> ('fr, 'sp) service list \<Rightarrow> 'b in_process \<Rightarrow> bool" where
  "ip_inv hammer parties procs ip \<longleftrightarrow> length (ip_procs ip) = length procs
     \<and> bar_ok (length procs + 2) (Collect (has_arrived parties ip)) (ip_barrier ip)
     \<and> (\<forall>i < length procs. proc_ok hammer (br_passed B (ip_barrier ip) \<noteq> {}) (procs ! i) (ip_procs ip ! i)) \<and> timer_ok ip"

lemma parties_of_card: "finite (parties_of procs)" "card (parties_of procs) = length procs + 2"
proof -
  have "card (Shutdown ` {..<length procs}) = length procs" by (subst card_image) (auto simp: inj_on_def)
  moreover have "Shutdown ` {..<length procs} \<inter> {Done, Timer} = {}" by auto
  ultimately show "card (parties_of procs) = length procs + 2" unfolding parties_of_def by (subst card_Un_disjoint) auto
qed (simp add: parties_of_def)

lemma arrived_parties: "length (ip_procs ip) = length procs \<Longrightarrow> Collect (has_arrived parties ip) \<subseteq> parties_of procs"
proof
  fix p
  assume "length (ip_procs ip) = length procs" "p \<in> Collect (has_arrived parties ip)"
  then show "p \<in> parties_of procs" by (cases p) (auto simp: parties_of_def)
qed

lemma ip_open_iff:
  assumes "ip_inv hammer parties procs ip"
  shows "br_passed B (ip_barrier ip) \<noteq> {} \<longleftrightarrow> Collect (has_arrived parties ip) = parties_of procs"
proof -
  have "bar_ok (length procs + 2) (Collect (has_arrived parties ip)) (ip_barrier ip)" "length (ip_procs ip) = length procs"
    using assms by (auto simp: ip_inv_def)
  then show ?thesis using bar_open_iff[OF _ arrived_parties parties_of_card] by simp
qed

lemma ip_set_sel [simp]:
  "ip_barrier (ip_set i p ip) = ip_barrier ip" "ip_procs (ip_set i p ip) = (ip_procs ip)[i := p]" "ip_now (ip_set i p ip) = ip_now ip"
  "ip_timer (ip_set i p ip) = ip_timer ip" "ip_shares (ip_set i p ip) = ip_shares ip" "ip_result (ip_set i p ip) = ip_result ip"
  "ip_started (ip_set i p ip) = ip_started ip" "ip_permit (ip_set i p ip) = ip_permit ip"
  by (simp_all add: ip_set_def)

lemma ip_wait_sel [simp]:
  "ip_barrier (ip_wait B p ip) = br_wait B p (ip_barrier ip)" "ip_procs (ip_wait B p ip) = ip_procs ip" "ip_now (ip_wait B p ip) = ip_now ip"
  "ip_timer (ip_wait B p ip) = ip_timer ip" "ip_shares (ip_wait B p ip) = ip_shares ip" "ip_result (ip_wait B p ip) = ip_result ip"
  "ip_started (ip_wait B p ip) = ip_started ip" "ip_permit (ip_wait B p ip) = ip_permit ip"
  by (simp_all add: ip_wait_def)

lemma timer_ok_set [simp]: "timer_ok (ip_set i p ip) = timer_ok ip"
  by (cases "ip_timer ip") (simp_all add: timer_ok_def)

lemma proc_ok_mono: "proc_ok hammer b s p \<Longrightarrow> (b \<Longrightarrow> b') \<Longrightarrow> proc_ok hammer b' s p"
  by (auto simp: proc_ok_def split: ip_proc.splits)

lemma arrived_set:
  assumes "i < length (ip_procs ip)"
  shows "Collect (has_arrived parties (ip_set i p ip)) =
    (if p \<in> {Serving, Uploaded, Stopped, Orphaned} then insert (Shutdown i) (Collect (has_arrived parties ip))
     else Collect (has_arrived parties ip) - {Shutdown i})"
proof (rule set_eqI)
  fix q
  show "q \<in> Collect (has_arrived parties (ip_set i p ip)) \<longleftrightarrow>
      q \<in> (if p \<in> {Serving, Uploaded, Stopped, Orphaned} then insert (Shutdown i) (Collect (has_arrived parties ip))
     else Collect (has_arrived parties ip) - {Shutdown i})"
    using assms by (cases q) (auto simp: nth_list_update)
qed

lemma arrived_same:
  assumes "ip_procs ip' = ip_procs ip" "ip_shares ip' = ip_shares ip" "ip_timer ip' = Unnotified \<longleftrightarrow> ip_timer ip = Unnotified"
  shows "Collect (has_arrived parties ip') = Collect (has_arrived parties ip)"
proof (rule Collect_cong)
  fix p
  show "has_arrived parties ip' p \<longleftrightarrow> has_arrived parties ip p" using assms by (cases p) simp_all
qed

text \<open>A process changes and does not arrive; a process changes and arrives.\<close>

lemma inv_set:
  assumes inv: "ip_inv hammer parties procs ip" and i: "i < length procs"
    and ok: "proc_ok hammer (br_passed B (ip_barrier ip) \<noteq> {}) (procs ! i) p"
    and same: "p \<in> {Serving, Uploaded, Stopped, Orphaned} \<longleftrightarrow> ip_procs ip ! i \<in> {Serving, Uploaded, Stopped, Orphaned}"
  shows "ip_inv hammer parties procs (ip_set i p ip)"
proof -
  have "Collect (has_arrived parties (ip_set i p ip)) = Collect (has_arrived parties ip)"
    using arrived_set[of i ip parties p] inv i same unfolding ip_inv_def by (auto simp del: insert_iff)
  then show ?thesis using inv i ok unfolding ip_inv_def by (auto simp: nth_list_update)
qed

lemma inv_wait:
  assumes inv: "ip_inv hammer parties procs ip" and p: "p \<in> parties_of procs" "\<not> has_arrived parties ip p"
    and arr: "Collect (has_arrived parties ip') = insert p (Collect (has_arrived parties ip))"
    and eq: "ip_barrier ip' = ip_barrier ip" "length (ip_procs ip') = length procs"
    and procs: "\<And>i. i < length procs \<Longrightarrow> proc_ok hammer (br_passed B (ip_barrier ip) \<noteq> {}) (procs ! i) (ip_procs ip' ! i)"
    and timer: "timer_ok ip'"
  shows "ip_inv hammer parties procs (ip_wait B p ip')"
proof -
  let ?b = "br_wait B p (ip_barrier ip)"
  have same: "Collect (has_arrived parties (ip_wait B p ip')) = Collect (has_arrived parties ip')"
    by (rule arrived_same) simp_all
  have closed: "br_passed B (ip_barrier ip) = {}" using ip_open_iff[OF inv] p by blast
  have "bar_ok (length procs + 2) (insert p (Collect (has_arrived parties ip))) ?b"
    using bar_wait_ok[OF _ _ _ parties_of_card] inv p arrived_parties[of ip procs parties] unfolding ip_inv_def by blast
  moreover have "\<forall>i < length procs. proc_ok hammer (br_passed B ?b \<noteq> {}) (procs ! i) (ip_procs ip' ! i)"
    using procs proc_ok_mono closed by blast
  moreover have "timer_ok (ip_wait B p ip')"
    using timer closed eq(1) unfolding timer_ok_def by (auto simp: ip_wait_def split: ip_timer.splits)
  ultimately show ?thesis using eq unfolding ip_inv_def same arr by (simp add: ip_wait_def)
qed

lemma inv_arrive:
  assumes inv: "ip_inv hammer parties procs ip" and i: "i < length procs"
    and p: "p \<in> {Serving, Uploaded}" "proc_ok hammer (br_passed B (ip_barrier ip) \<noteq> {}) (procs ! i) p"
    and old: "ip_procs ip ! i \<notin> {Serving, Uploaded, Stopped, Orphaned}"
  shows "ip_inv hammer parties procs (ip_wait B (Shutdown i) (ip_set i p ip))"
proof (rule inv_wait[OF inv])
  show "Shutdown i \<in> parties_of procs" using i by (simp add: parties_of_def)
  show "\<not> has_arrived parties ip (Shutdown i)" using old by simp
  show "Collect (has_arrived parties (ip_set i p ip)) = insert (Shutdown i) (Collect (has_arrived parties ip))"
    using arrived_set[of i ip parties p] inv i p(1) by (auto simp: ip_inv_def)
qed (use inv i p(2) in \<open>auto simp: ip_inv_def nth_list_update\<close>)

lemma inv_same:
  assumes inv: "ip_inv hammer parties procs ip"
    and "ip_procs ip' = ip_procs ip" "ip_shares ip' = ip_shares ip" "ip_barrier ip' = ip_barrier ip"
    and "ip_timer ip' = Unnotified \<longleftrightarrow> ip_timer ip = Unnotified" "timer_ok ip'"
  shows "ip_inv hammer parties procs ip'"
  using inv arrived_same[of ip' ip parties] assms(2-) unfolding ip_inv_def by simp

lemma share_inv:
  assumes inv: "ip_inv hammer parties procs ip"
  shows "ip_inv hammer parties procs (ip_share B parties ip)"
proof -
  let ?ip = "ip\<lparr> ip_shares := ip_shares ip + 1 \<rparr>"
  have timer: "timer_ok ?ip" using inv by (cases "ip_timer ip") (simp_all add: ip_inv_def timer_ok_def)
  have arr: "has_arrived parties ?ip p \<longleftrightarrow> (if p = Done then parties \<le> ip_shares ip + 1 else has_arrived parties ip p)" for p
    by (cases p) simp_all
  show ?thesis
  proof (cases "ip_shares ip + 1 = parties")
    case True
    have "ip_inv hammer parties procs (ip_wait B Done ?ip)"
    proof (rule inv_wait[OF inv])
      show "Collect (has_arrived parties ?ip) = insert Done (Collect (has_arrived parties ip))" unfolding set_eq_iff mem_Collect_eq insert_iff arr using True by simp
    qed (use True inv timer in \<open>auto simp: parties_of_def ip_inv_def\<close>)
    then show ?thesis using True by (simp add: ip_share_def)
  next
    case False
    then have "Collect (has_arrived parties ?ip) = Collect (has_arrived parties ip)" unfolding set_eq_iff mem_Collect_eq arr by auto
    then show ?thesis using False inv timer unfolding ip_inv_def by (simp add: ip_share_def)
  qed
qed

lemma notified_inv:
  assumes inv: "ip_inv hammer parties procs ip" and ip: "ip_permit ip" "ip_timer ip = Unnotified" "ip_result ip = None"
  shows "ip_inv hammer parties procs (ip_notified B ip)"
  unfolding ip_notified_def
proof (rule inv_wait[OF inv])
  let ?ip = "ip\<lparr> ip_permit := False, ip_timer := Timing (ip_now ip) \<rparr>"
  have "has_arrived parties ?ip p \<longleftrightarrow> p = Timer \<or> has_arrived parties ip p" for p by (cases p) simp_all
  then show "Collect (has_arrived parties ?ip) = insert Timer (Collect (has_arrived parties ip))" by auto
  show "timer_ok ?ip" using inv ip by (simp add: ip_inv_def timer_ok_def)
qed (use inv ip in \<open>auto simp: parties_of_def ip_inv_def\<close>)

lemma step_inv:
  assumes "ip_step B hammer parties procs ip ip'" "ip_inv hammer parties procs ip"
  shows "ip_inv hammer parties procs ip'"
  using assms
proof (induction rule: ip_step.induct)
  case (serve i ip)
  then show ?case unfolding ip_serve_def by (intro inv_arrive) (simp_all add: proc_ok_def)
next
  case (start i ip)
  then show ?case
    by (intro inv_same[OF start.prems]) (auto simp: ip_start_def ip_inv_def timer_ok_def split: ip_timer.splits)
next
  case (notified ip)
  then show ?case by (intro notified_inv)
next
  case (begin_uploads i ip)
  then show ?case by (intro inv_set) (simp_all add: proc_ok_def)
next
  case (accept i ip k)
  then have client: "is_client (procs ! i)" by (auto simp: ip_inv_def proc_ok_def split: ip_proc.splits)
  show ?case
  proof (cases "1 < k \<or> hammer")
    case True
    then show ?thesis using accept client by (auto simp: ip_accept_def proc_ok_def intro!: inv_set)
  next
    case False
    then show ?thesis using accept client by (auto simp: ip_accept_def proc_ok_def intro!: inv_arrive)
  qed
next
  case (share ip)
  then show ?case by (intro share_inv)
next
  case (stop i ip)
  have "br_passed B (ip_barrier ip) \<noteq> {}" using stop.hyps(3) by auto
  moreover have "is_client (procs ! i) \<longrightarrow> \<not> hammer"
    using stop by (auto simp: ip_inv_def proc_ok_def split: ip_proc.splits)
  ultimately show ?case using stop by (intro inv_set) (auto simp: proc_ok_def)
next
  case (fail i ip)
  then show ?case by (intro inv_set) (simp_all add: proc_ok_def)
next
  case (fail_serving i ip)
  then have "\<not> is_client (procs ! i)" by (auto simp: ip_inv_def proc_ok_def split: ip_proc.splits)
  then show ?case using fail_serving by (intro inv_set) (simp_all add: proc_ok_def)
next
  case (elapsed ip t)
  then show ?case by (intro inv_same[OF elapsed.prems]) (auto simp: ip_elapsed_def ip_inv_def timer_ok_def)
next
  case (finished ip d)
  then show ?case by (intro inv_same[OF finished.prems]) (auto simp: ip_return_def ip_inv_def timer_ok_def)
next
  case (timed_out ip)
  then show ?case by (intro inv_same[OF timed_out.prems]) (auto simp: ip_return_def ip_inv_def timer_ok_def split: ip_timer.splits)
next
  case (tick d ip)
  then show ?case by (intro inv_same[OF tick.prems]) (auto simp: ip_inv_def timer_ok_def split: ip_timer.splits)
qed

lemma steps_inv: "(ip_step B hammer parties procs)\<^sup>*\<^sup>* ip ip' \<Longrightarrow> ip_inv hammer parties procs ip \<Longrightarrow> ip_inv hammer parties procs ip'"
  by (induction rule: rtranclp_induct) (auto intro: step_inv)

lemma run_in_process_inv:
  assumes "run_in_process B S to_json st e = Some (Inr (st', procs, ip))" "0 < parties"
  shows "ip_inv hammer parties procs ip" "ip_result ip = None"
proof -
  obtain ss where ss: "iter_services e = Some ss" "procs = ss @ iter_clients e"
    and ip: "ip = \<lparr> ip_barrier = br_new B (length procs + 2), ip_started = False, ip_permit = False, ip_timer = Unnotified, ip_now = 0,
                   ip_shares = 0, ip_procs = replicate (length procs) Starting, ip_result = None \<rparr>"
    using assms(1) by (auto simp: run_in_process_def barrier_size_def bind_eq_Some_conv Let_def add.commute split: sum.splits)
  have "\<not> has_arrived parties ip p" for p using assms(2) ip by (cases p) auto
  then have none: "Collect (has_arrived parties ip) = {}" by blast
  have "bar_ok (length procs + 2) {} (ip_barrier ip)" unfolding bar_ok_def by (intro exI[of _ "[]"]) (simp add: ip)
  then show "ip_inv hammer parties procs ip" unfolding ip_inv_def none by (simp add: ip proc_ok_def timer_ok_def)
  show "ip_result ip = None" using ip by simp
qed

subsection \<open>What the barrier waits for\<close>

text \<open>When the barrier is open the publisher is done, the timer has been started, and every client has had all its tokens accepted.\<close>

lemma opened:
  assumes inv: "ip_inv hammer parties procs ip" and released: "br_passed B (ip_barrier ip) \<noteq> {}"
  shows "parties \<le> ip_shares ip" "ip_timer ip \<noteq> Unnotified" "ip_started ip"
    "i < length procs \<Longrightarrow> is_client (procs ! i) \<Longrightarrow> \<not> hammer \<and> ip_procs ip ! i \<in> {Uploaded, Stopped}"
    "i < length procs \<Longrightarrow> ip_procs ip ! i \<noteq> Broken" "p \<in> parties_of procs \<Longrightarrow> p \<in> br_passed B (ip_barrier ip)"
proof -
  have all: "Collect (has_arrived parties ip) = parties_of procs" using ip_open_iff[OF inv] released by blast
  have arrived: "has_arrived parties ip p" if "p \<in> parties_of procs" for p using all that by blast
  show "parties \<le> ip_shares ip" using arrived[of Done] by (simp add: parties_of_def)
  show timer: "ip_timer ip \<noteq> Unnotified" using arrived[of Timer] by (simp add: parties_of_def)
  show "ip_started ip" using inv timer by (auto simp: ip_inv_def timer_ok_def)
  have proc: "ip_procs ip ! i \<in> {Serving, Uploaded, Stopped, Orphaned}" "proc_ok hammer (br_passed B (ip_barrier ip) \<noteq> {}) (procs ! i) (ip_procs ip ! i)"
    if "i < length procs" for i
    using arrived[of "Shutdown i"] that inv by (simp_all add: parties_of_def ip_inv_def)
  show "i < length procs \<Longrightarrow> is_client (procs ! i) \<Longrightarrow> \<not> hammer \<and> ip_procs ip ! i \<in> {Uploaded, Stopped}"
    "i < length procs \<Longrightarrow> ip_procs ip ! i \<noteq> Broken"
    using proc[of i] by (auto simp: proc_ok_def)
  have "br_passed B (ip_barrier ip) = parties_of procs"
    using inv released bar_ok_passed[of _ "parties_of procs" "ip_barrier ip"] unfolding ip_inv_def all by (auto split: if_splits)
  then show "p \<in> parties_of procs \<Longrightarrow> p \<in> br_passed B (ip_barrier ip)" by simp
qed

text \<open>Nothing ends before the barrier opens.\<close>

lemma ended_open:
  assumes inv: "ip_inv hammer parties procs ip"
    and "i < length procs \<and> ip_procs ip ! i = Stopped \<or> ip_result ip = Some (Inr d)"
  shows "br_passed B (ip_barrier ip) \<noteq> {}"
  using assms by (auto simp: ip_inv_def proc_ok_def timer_ok_def)

subsection \<open>Progress\<close>

fun proc_work :: "nat \<Rightarrow> ip_proc \<Rightarrow> nat" where
  "proc_work parties Starting = parties + 2"
| "proc_work parties (Uploading k) = k + 1"
| "proc_work parties _ = 0"

definition ip_work :: "nat \<Rightarrow> 'b in_process \<Rightarrow> nat" where
  "ip_work parties ip = sum_list (map (proc_work parties) (ip_procs ip)) + (parties - ip_shares ip)
     + (if ip_started ip then 0 else 1) + (if ip_timer ip = Unnotified then 1 else 0)"

text \<open>No process has failed, up to the publisher's start, and the \<open>pub\<close>-th process is the publisher.\<close>

definition ip_good :: "nat \<Rightarrow> ('fr, 'sp) service list \<Rightarrow> nat \<Rightarrow> 'b in_process \<Rightarrow> bool" where
  "ip_good parties procs pub ip \<longleftrightarrow> ip_inv False parties procs ip \<and> ip_result ip = None \<and> Broken \<notin> set (ip_procs ip)
     \<and> pub < length procs \<and> procs ! pub = Publisher PublisherInfo \<and> (ip_started ip \<or> ip_procs ip ! pub \<noteq> Orphaned)"

lemma work_update:
  assumes "i < length (ip_procs ip)" "proc_work parties p < proc_work parties (ip_procs ip ! i)"
  shows "ip_work parties (ip_set i p ip) < ip_work parties ip"
proof -
  let ?w = "map (proc_work parties) (ip_procs ip)"
  have "sum_list ?w = sum_list (?w[i := 0]) + ?w ! i" "sum_list (?w[i := proc_work parties p]) = sum_list (?w[i := 0]) + proc_work parties p"
    using assms(1) elem_le_sum_list[of i ?w] by (simp_all add: sum_list_update)
  then show ?thesis using assms by (simp add: ip_work_def map_update)
qed

lemma work_wait [simp]: "ip_work parties (ip_wait B p ip) = ip_work parties ip"
  by (simp add: ip_work_def)

lemma good_step:
  assumes good: "ip_good parties procs pub ip" and step: "ip_step B False parties procs ip ip'"
    and "ip_result ip' = None" "Broken \<notin> set (ip_procs ip')" "ip_started ip' \<or> ip_procs ip' ! pub \<noteq> Orphaned"
  shows "ip_good parties procs pub ip'"
  using assms step_inv[OF step] unfolding ip_good_def by blast

text \<open>A process that has not arrived can go on.\<close>

lemma process_progress:
  assumes good: "ip_good parties procs pub ip" and i: "i < length procs" "\<not> has_arrived parties ip (Shutdown i)"
  shows "\<exists>ip'. ip_step B False parties procs ip ip' \<and> ip_good parties procs pub ip' \<and> ip_work parties ip' < ip_work parties ip"
proof -
  have len: "i < length (ip_procs ip)" and res: "ip_result ip = None" and nb: "Broken \<notin> set (ip_procs ip)"
    using good i by (auto simp: ip_good_def ip_inv_def)
  then have "ip_procs ip ! i \<noteq> Broken" by (metis nth_mem)
  then consider "ip_procs ip ! i = Starting" "is_client (procs ! i)" | "ip_procs ip ! i = Starting" "\<not> is_client (procs ! i)"
    | k where "ip_procs ip ! i = Uploading k"
    using i(2) len by (cases "ip_procs ip ! i") auto
  then obtain p ip' where p: "ip_step B False parties procs ip ip'" "ip' = ip_set i p ip \<or> ip' = ip_wait B (Shutdown i) (ip_set i p ip)"
    "proc_work parties p < proc_work parties (ip_procs ip ! i)" "p \<noteq> Broken" "p \<noteq> Orphaned"
  proof cases
    case 1
    then show thesis using begin_uploads[OF i(1) 1(2,1) res] by (intro that[of _ "Uploading parties"]) auto
  next
    case 2
    then show thesis using serve[OF i(1) 2(2,1) res] by (intro that[of _ Serving]) (auto simp: ip_serve_def)
  next
    case (3 k)
    then show thesis
      using accept[OF i(1) 3 res, of B False parties]
      by (intro that[of _ "if 1 < k then Uploading (k - 1) else Uploaded"]) (auto simp: ip_accept_def)
  qed
  have "set (ip_procs ip') \<subseteq> insert p (set (ip_procs ip))" using p(2) set_update_subset_insert by fastforce
  moreover have "ip_started ip' \<or> ip_procs ip' ! pub \<noteq> Orphaned"
    using p(2,5) good len by (cases "pub = i") (auto simp: ip_good_def)
  moreover have "ip_result ip' = None" using p(2) res by auto
  ultimately have "ip_good parties procs pub ip'" using good_step[OF good p(1)] nb p(4) by auto
  moreover have "ip_work parties ip' < ip_work parties ip" using work_update[OF len p(3)] p(2) by auto
  ultimately show ?thesis using p(1) by blast
qed

lemma party_progress:
  assumes good: "ip_good parties procs pub ip" and p: "p \<in> parties_of procs" "\<not> has_arrived parties ip p"
  shows "\<exists>ip'. ip_step B False parties procs ip ip' \<and> ip_good parties procs pub ip' \<and> ip_work parties ip' < ip_work parties ip"
proof (cases p)
  case (Shutdown i)
  then show ?thesis using process_progress[OF good, of i] p by (simp add: parties_of_def image_iff)
next
  case Done
  have res: "ip_result ip = None" using good by (simp add: ip_good_def)
  have step: "ip_step B False parties procs ip (ip_share B parties ip)" by (rule share[OF res])
  have sel: "ip_result (ip_share B parties ip) = ip_result ip" "ip_procs (ip_share B parties ip) = ip_procs ip"
    "ip_started (ip_share B parties ip) = ip_started ip" "ip_timer (ip_share B parties ip) = ip_timer ip"
    "ip_shares (ip_share B parties ip) = ip_shares ip + 1" by (simp_all add: ip_share_def Let_def)
  have "ip_good parties procs pub (ip_share B parties ip)" using good by (intro good_step[OF good step]) (simp_all add: sel ip_good_def)
  moreover have "ip_work parties (ip_share B parties ip) < ip_work parties ip" using p(2) Done by (simp add: ip_work_def sel)
  ultimately show ?thesis using step by blast
next
  case Timer
  have res: "ip_result ip = None" and timer: "ip_timer ip = Unnotified" "ip_started ip \<longleftrightarrow> ip_permit ip"
    and pub: "pub < length procs" "procs ! pub = Publisher PublisherInfo"
    using good p(2) Timer by (auto simp: ip_good_def ip_inv_def timer_ok_def)
  show ?thesis
  proof (cases "ip_permit ip")
    case True
    have step: "ip_step B False parties procs ip (ip_notified B ip)" by (rule notified[OF True timer(1) res])
    have "ip_good parties procs pub (ip_notified B ip)"
      using good by (intro good_step[OF good step]) (simp_all add: ip_notified_def ip_good_def)
    moreover have "ip_work parties (ip_notified B ip) < ip_work parties ip" using timer(1) by (simp add: ip_notified_def ip_work_def)
    ultimately show ?thesis using step by blast
  next
    case False
    show ?thesis
    proof (cases "ip_procs ip ! pub = Serving")
      case True
      have step: "ip_step B False parties procs ip (ip_start ip)" using start[OF pub True _ res] timer(2) False by blast
      have "ip_good parties procs pub (ip_start ip)" using good by (intro good_step[OF good step]) (simp_all add: ip_start_def ip_good_def)
      moreover have "ip_work parties (ip_start ip) < ip_work parties ip" using timer(2) False by (simp add: ip_start_def ip_work_def)
      ultimately show ?thesis using step by blast
    next
      case not_serving: False
      have closed: "br_passed B (ip_barrier ip) = {}"
        using opened(2)[of False parties procs ip] good timer(1) by (auto simp: ip_good_def)
      have "\<not> has_arrived parties ip (Shutdown pub)"
        using good not_serving timer(2) False pub closed
        by (auto simp: ip_good_def ip_inv_def proc_ok_def is_client_def dest!: spec[of _ pub])
      then show ?thesis by (rule process_progress[OF good pub(1)])
    qed
  qed
qed

lemma can_open:
  assumes "ip_good parties procs pub ip"
  shows "\<exists>ip'. (ip_step B False parties procs)\<^sup>*\<^sup>* ip ip' \<and> ip_good parties procs pub ip' \<and> br_passed B (ip_barrier ip') \<noteq> {}"
  using assms
proof (induction "ip_work parties ip" arbitrary: ip rule: less_induct)
  case less
  have inv: "ip_inv False parties procs ip" using less.prems by (simp add: ip_good_def)
  show ?case
  proof (cases "br_passed B (ip_barrier ip) = {}")
    case True
    then have "Collect (has_arrived parties ip) \<noteq> parties_of procs" using ip_open_iff[OF inv] by blast
    moreover have "Collect (has_arrived parties ip) \<subseteq> parties_of procs" using arrived_parties inv by (auto simp: ip_inv_def)
    ultimately obtain p where "p \<in> parties_of procs" "\<not> has_arrived parties ip p" by blast
    then obtain ip' where "ip_step B False parties procs ip ip'" "ip_good parties procs pub ip'" "ip_work parties ip' < ip_work parties ip"
      using party_progress[OF less.prems] by blast
    then show ?thesis using less.hyps by (meson converse_rtranclp_into_rtranclp)
  next
    case False
    then show ?thesis using less.prems by blast
  qed
qed

lemma can_finish:
  assumes "ip_good parties procs pub ip"
  shows "\<exists>ip' d. (ip_step B False parties procs)\<^sup>*\<^sup>* ip ip' \<and> ip_result ip' = Some (Inr d) \<and> 0 \<le> d"
proof -
  obtain ip1 where ip1: "(ip_step B False parties procs)\<^sup>*\<^sup>* ip ip1" "ip_good parties procs pub ip1" "br_passed B (ip_barrier ip1) \<noteq> {}"
    using can_open[OF assms] by blast
  have inv: "ip_inv False parties procs ip1" and res: "ip_result ip1 = None" using ip1(2) by (simp_all add: ip_good_def)
  have rel: "Timer \<in> br_passed B (ip_barrier ip1)" using opened(6)[OF inv ip1(3)] by (simp add: parties_of_def)
  have ok: "timer_ok ip1" using inv by (simp add: ip_inv_def)
  show ?thesis
  proof (cases "ip_timer ip1")
    case Unnotified
    then show ?thesis using opened(2)[OF inv ip1(3)] by simp
  next
    case (Timing t)
    let ?d = "ip_now ip1 - t" and ?ip2 = "ip_elapsed t ip1"
    have "ip_step B False parties procs ip1 ?ip2" by (rule elapsed[OF Timing rel res])
    moreover have "ip_step B False parties procs ?ip2 (ip_return (Inr ?d) ?ip2)" by (rule finished) (simp_all add: ip_elapsed_def res)
    ultimately have "(ip_step B False parties procs)\<^sup>*\<^sup>* ip (ip_return (Inr ?d) ?ip2)" using ip1(1) by (meson rtranclp.rtrancl_into_rtrancl)
    moreover have "0 \<le> ?d" using ok Timing by (simp add: timer_ok_def)
    ultimately show ?thesis by (intro exI[of _ "ip_return (Inr ?d) ?ip2"] exI[of _ ?d]) (simp add: ip_return_def)
  next
    case (Elapsed d)
    have "ip_step B False parties procs ip1 (ip_return (Inr d) ip1)" by (rule finished[OF Elapsed res])
    then have "(ip_step B False parties procs)\<^sup>*\<^sup>* ip (ip_return (Inr d) ip1)" using ip1(1) by (meson rtranclp.rtrancl_into_rtrancl)
    moreover have "0 \<le> d" using ok Elapsed by (simp add: timer_ok_def)
    ultimately show ?thesis by (intro exI[of _ "ip_return (Inr d) ip1"] exI[of _ d]) (simp add: ip_return_def)
  qed
qed

text \<open>The first process is the publisher.\<close>

lemma run_in_process_publisher:
  assumes "run_in_process B S to_json st e = Some (Inr (st', procs, ip))"
  shows "0 < length procs" "procs ! 0 = Publisher PublisherInfo"
proof -
  obtain ss where ss: "iter_services e = Some ss" "procs = ss @ iter_clients e"
    using assms by (auto simp: run_in_process_def bind_eq_Some_conv Let_def split: sum.splits)
  then have "ss \<noteq> [] \<and> hd ss = Publisher PublisherInfo" by (auto simp: iter_services_def bind_eq_Some_conv Let_def split: if_splits)
  then show "0 < length procs" "procs ! 0 = Publisher PublisherInfo" using ss(2) by (auto simp: nth_append hd_conv_nth)
qed

lemma run_good:
  assumes "run_in_process B S to_json st e = Some (Inr (st', procs, ip))" "0 < parties"
  shows "ip_good parties procs 0 ip"
proof -
  have "set (ip_procs ip) \<subseteq> {Starting}"
    using assms(1) by (auto simp: run_in_process_def bind_eq_Some_conv Let_def split: sum.splits)
  moreover have "length (ip_procs ip) = length procs" using run_in_process_inv(1)[OF assms] by (simp add: ip_inv_def)
  ultimately have "ip_procs ip ! 0 = Starting" using run_in_process_publisher[OF assms(1)] by (metis nth_mem singletonD subsetD)
  then show ?thesis
    using run_in_process_inv[OF assms] run_in_process_publisher[OF assms(1)] \<open>set (ip_procs ip) \<subseteq> {Starting}\<close>
    by (auto simp: ip_good_def)
qed

lemma ip_error_text:
  assumes "(ip_step B hammer parties procs)\<^sup>*\<^sup>* ip ip'" "ip_result ip = None"
  shows "\<forall>r. ip_result ip' = Some (Inl r) \<longrightarrow> r = ''Task timed out after 10s.''"
  using assms
proof (induction rule: rtranclp_induct)
  case (step ip1 ip2)
  from step.hyps(2) show ?case
    by cases (simp_all add: ip_serve_def ip_start_def ip_notified_def ip_accept_def ip_share_def Let_def ip_elapsed_def ip_return_def)
qed simp

text \<open>What is shown of a run in one process.\<close>

lemma ends_after_publisher:
  assumes "run_in_process B S to_json st e = Some (Inr (st', procs, ip0))" "0 < parties"
    and "(ip_step B (ex_hammer e) parties procs)\<^sup>*\<^sup>* ip0 ip"
    and "i < length procs \<and> ip_procs ip ! i = Stopped \<or> ip_result ip = Some (Inr d)"
  shows "parties \<le> ip_shares ip \<and> ip_started ip
    \<and> (\<forall>j < length procs. is_client (procs ! j) \<longrightarrow> \<not> ex_hammer e \<and> ip_procs ip ! j \<in> {Uploaded, Stopped})"
proof -
  have inv: "ip_inv (ex_hammer e) parties procs ip" by (rule steps_inv[OF assms(3) run_in_process_inv(1)[OF assms(1,2)]])
  show ?thesis using opened(1,3,4)[OF inv ended_open[OF inv assms(4)]] by blast
qed

lemma may_finish:
  assumes "run_in_process B S to_json st e = Some (Inr (st', procs, ip0))" "0 < parties" "\<not> ex_hammer e"
    and "(ip_step B (ex_hammer e) parties procs)\<^sup>*\<^sup>* ip0 ip" "ip_result ip = None" "set (ip_procs ip) \<inter> {Broken, Orphaned} = {}"
  shows "\<exists>ip' d. (ip_step B (ex_hammer e) parties procs)\<^sup>*\<^sup>* ip ip' \<and> ip_result ip' = Some (Inr d) \<and> 0 \<le> d"
proof -
  have inv: "ip_inv (ex_hammer e) parties procs ip" by (rule steps_inv[OF assms(4) run_in_process_inv(1)[OF assms(1,2)]])
  then have "ip_procs ip ! 0 \<in> set (ip_procs ip)" using run_in_process_publisher(1)[OF assms(1)] by (simp add: ip_inv_def)
  then have "ip_good parties procs 0 ip"
    using inv run_in_process_publisher[OF assms(1)] assms(3,5,6) by (auto simp: ip_good_def)
  from can_finish[OF this] show ?thesis using assms(3) by simp
qed

lemma failure_times_out:
  assumes "run_in_process B S to_json st e = Some (Inr (st', procs, ip0))" "0 < parties"
    and "(ip_step B (ex_hammer e) parties procs)\<^sup>*\<^sup>* ip0 ip" "j < length procs" "is_client (procs ! j)"
    and "ex_hammer e \<or> ip_procs ip ! j = Broken" "ip_result ip = Some res"
  shows "res = Inl ''Task timed out after 10s.''"
proof -
  have inv: "ip_inv (ex_hammer e) parties procs ip" by (rule steps_inv[OF assms(3) run_in_process_inv(1)[OF assms(1,2)]])
  have "\<not> (\<exists>d. res = Inr d)"
    using opened(4)[OF inv ended_open[OF inv, of j], of _ j] assms(4-7) by auto
  moreover have "\<forall>r. ip_result ip = Some (Inl r) \<longrightarrow> r = ''Task timed out after 10s.''"
    using assms(3) run_in_process_inv(2)[OF assms(1,2)] by (rule ip_error_text)
  ultimately show ?thesis using assms(7) by (cases res) auto
qed

end

section \<open>An example\<close>

text \<open>The experiment of the examples, run in one process.\<close>

lemma demo_in_process:
  "\<exists>st' ip. run_in_process counting_barrier (inmem_ops (\<lambda>m. m)) (\<lambda>_. Inr ''demo'') inmem_new demo_experiment
     = Some (Inr (st', demo_services @ iter_clients demo_experiment, ip))"
  by (simp add: run_in_process_def write_to_store_def inmem_ops_def inmem_put_def barrier_size_def demo_ok(2) Let_def)

lemma demo_finishes:
  "\<exists>st' ip ip' d. run_in_process counting_barrier (inmem_ops (\<lambda>m. m)) (\<lambda>_. Inr ''demo'') inmem_new demo_experiment
       = Some (Inr (st', demo_services @ iter_clients demo_experiment, ip))
     \<and> (ip_step counting_barrier False 2 (demo_services @ iter_clients demo_experiment))\<^sup>*\<^sup>* ip ip' \<and> ip_result ip' = Some (Inr d) \<and> 0 \<le> d"
proof -
  obtain st' ip where run: "run_in_process counting_barrier (inmem_ops (\<lambda>m. m)) (\<lambda>_. Inr ''demo'') inmem_new demo_experiment
     = Some (Inr (st', demo_services @ iter_clients demo_experiment, ip))" using demo_in_process by blast
  from counting.can_finish[OF counting.run_good[OF run]] show ?thesis using run by fastforce
qed

lemma demo_first_client:
  "length demo_services < length (demo_services @ iter_clients demo_experiment)"
  "is_client ((demo_services @ iter_clients demo_experiment) ! length demo_services)"
proof -
  show first: "length demo_services < length (demo_services @ iter_clients demo_experiment)"
    by (simp add: iter_clients_def demo_experiment_def demo_keys_def experiment_channels_def) arith
  then have "iter_clients demo_experiment ! 0 \<in> set (iter_clients demo_experiment)" by (intro nth_mem) simp
  then have "is_client (iter_clients demo_experiment ! 0)" by (auto simp: iter_clients_def is_client_def)
  then show "is_client ((demo_services @ iter_clients demo_experiment) ! length demo_services)" by (simp add: nth_append)
qed

text \<open>A client that fails at once, and the timeout.\<close>

lemma demo_times_out:
  "\<exists>st' ip0 ip. run_in_process counting_barrier (inmem_ops (\<lambda>m. m)) (\<lambda>_. Inr ''demo'') inmem_new demo_experiment
       = Some (Inr (st', demo_services @ iter_clients demo_experiment, ip0))
     \<and> (ip_step counting_barrier False 2 (demo_services @ iter_clients demo_experiment))\<^sup>*\<^sup>* ip0 ip
     \<and> ip_procs ip ! length demo_services = Broken \<and> ip_result ip = Some (Inl ''Task timed out after 10s.'')"
proof -
  let ?procs = "demo_services @ iter_clients demo_experiment" and ?i = "length demo_services"
  obtain st' ip where run: "run_in_process counting_barrier (inmem_ops (\<lambda>m. m)) (\<lambda>_. Inr ''demo'') inmem_new demo_experiment
     = Some (Inr (st', ?procs, ip))" using demo_in_process by blast
  note i = demo_first_client(1)
  have ip: "ip_procs ip = replicate (length ?procs) Starting" "ip_result ip = None" "ip_now ip = 0"
    using run by (auto simp: run_in_process_def bind_eq_Some_conv Let_def split: sum.splits)
  let ?ip1 = "ip_set ?i Broken ip"
  let ?ip2 = "?ip1\<lparr> ip_now := ip_now ?ip1 + TIMEOUT \<rparr>"
  have "ip_step counting_barrier False 2 ?procs ip ?ip1" using i ip by (intro ip_step.fail) simp_all
  moreover have "ip_step counting_barrier False 2 ?procs ?ip1 ?ip2" using ip by (intro ip_step.tick) (simp_all add: TIMEOUT_def)
  moreover have "ip_step counting_barrier False 2 ?procs ?ip2 (ip_return (Inl ''Task timed out after 10s.'') ?ip2)"
    using ip by (intro ip_step.timed_out) (simp_all add: TIMEOUT_def)
  ultimately have "(ip_step counting_barrier False 2 ?procs)\<^sup>*\<^sup>* ip (ip_return (Inl ''Task timed out after 10s.'') ?ip2)"
    by (meson converse_rtranclp_into_rtranclp r_into_rtranclp)
  moreover have "ip_procs (ip_return (Inl ''Task timed out after 10s.'') ?ip2) ! ?i = Broken"
    using i ip(1) by (simp add: ip_return_def)
  ultimately show ?thesis using run by (intro exI[of _ st'] exI[of _ ip] exI[of _ "ip_return (Inl ''Task timed out after 10s.'') ?ip2"])
      (simp add: ip_return_def)
qed

end
