(* ===== verification/Mains.thy ===== *)
theory Mains
  imports Processes
begin

text \<open>
  The programs under \<open>spectrum/src/bin\<close>, from their parsed arguments to the main loop of a process: each takes the
  store that the environment names, reads the experiment from it and calls \<open>run\<close> of its module, which chooses the instance of
  \<open>inner_run\<close> for the protocol of the experiment. \<open>inner_run\<close> itself, whose parts are in \<open>Startup\<close>, \<open>System\<close> and \<open>InProcess\<close>, is
  a parameter here, one function for each of the three protocols; the lemmas show with what it is called.
\<close>

section \<open>The choice of the protocol\<close>

text \<open>The instances of \<open>inner_run\<close>; \<open>'a\<close> are its other arguments.\<close>

record ('r, 'fr, 'sp, 'a, 'z) inner_runs =
  run_secure :: "('r, 'fr) two_key_protocol \<Rightarrow> 'a \<Rightarrow> 'z"
  run_secure_pub :: "('r, 'fr, 'sp) two_key_pub_protocol \<Rightarrow> 'a \<Rightarrow> 'z"
  run_secure_multi_key :: "('r, 'fr, 'sp) multi_key_protocol \<Rightarrow> 'a \<Rightarrow> 'z"

definition worker_run where
  "worker_run runs config e protocol info net =
     (case protocol of
        Secure p \<Rightarrow> run_secure runs p (config, e, info :: worker_info, net)
      | SecurePub p \<Rightarrow> run_secure_pub runs p (config, e, info, net)
      | SecureMultiKey p \<Rightarrow> run_secure_multi_key runs p (config, e, info, net))"

definition leader_run where
  "leader_run runs config e protocol info net =
     (case protocol of
        Secure p \<Rightarrow> run_secure runs p (config, e, info :: leader_info, net)
      | SecurePub p \<Rightarrow> run_secure_pub runs p (config, e, info, net)
      | SecureMultiKey p \<Rightarrow> run_secure_multi_key runs p (config, e, info, net))"

definition publisher_run where
  "publisher_run runs config protocol info net remote delay_ms =
     (case protocol of
        Secure p \<Rightarrow> run_secure runs p (config, info :: publisher_info, net, remote, delay_ms :: int)
      | SecurePub p \<Rightarrow> run_secure_pub runs p (config, info, net, remote, delay_ms)
      | SecureMultiKey p \<Rightarrow> run_secure_multi_key runs p (config, info, net, remote, delay_ms))"

definition viewer_run where
  "viewer_run runs config protocol info hammer cert max_jitter =
     (case protocol of
        Secure p \<Rightarrow> run_secure runs p (config, info, hammer, cert, max_jitter :: u64)
      | SecurePub p \<Rightarrow> run_secure_pub runs p (config, info, hammer, cert, max_jitter)
      | SecureMultiKey p \<Rightarrow> run_secure_multi_key runs p (config, info, hammer, cert, max_jitter))"

section \<open>Programs\<close>

text \<open>What the arguments of a server refer to: a free port, files and the text formats of keys and certificates.\<close>

record ('ident, 'cert) host =
  host_free_port :: "u16 option"
  host_read_file :: "string \<Rightarrow> string option"
  host_ident_from_pem :: "string \<Rightarrow> string \<Rightarrow> 'ident"
  host_cert_from_pem :: "string \<Rightarrow> 'cert"

definition host_net :: "('ident, 'cert) host \<Rightarrow> net_args \<Rightarrow> ('ident, 'cert) net_config option" where
  "host_net host args =
     net_from_args (host_free_port host) (host_read_file host) (host_ident_from_pem host) (host_cert_from_pem host) args"

text \<open>How every program but \<open>setup\<close> begins: the store, and the experiment in it.\<close>

definition main_experiment where
  "main_experiment S connect from_json var =
     (case store_from_env connect var of
        Inl err \<Rightarrow> Some (Inl err)
      | Inr config \<Rightarrow>
          do { res \<leftarrow> read_from_store S from_json config;
               Some (case res of Inl err \<Rightarrow> Inl (err_message err) | Inr e \<Rightarrow> Inr (config, e)) })"

definition worker_main where
  "worker_main runs S connect from_json var host net_args group_arg idx_arg =
     do { res \<leftarrow> main_experiment S connect from_json var;
          case res of
            Inl err \<Rightarrow> Some (Inl err)
          | Inr (config, e) \<Rightarrow>
              do { info \<leftarrow> worker_info_from_args group_arg idx_arg;
                   net \<leftarrow> host_net host net_args;
                   worker_run runs config e (ex_protocol e) info net } }"

definition leader_main where
  "leader_main runs S connect from_json var host net_args group_arg =
     do { res \<leftarrow> main_experiment S connect from_json var;
          case res of
            Inl err \<Rightarrow> Some (Inl err)
          | Inr (config, e) \<Rightarrow>
              do { info \<leftarrow> leader_info_from_args group_arg;
                   net \<leftarrow> host_net host net_args;
                   leader_run runs config e (ex_protocol e) info net } }"

text \<open>The remote of the publisher has not been started yet.\<close>

definition publisher_main where
  "publisher_main runs S connect from_json var host net_args delay_ms =
     do { res \<leftarrow> main_experiment S connect from_json var;
          case res of
            Inl err \<Rightarrow> Some (Inl err)
          | Inr (config, e) \<Rightarrow>
              do { net \<leftarrow> host_net host net_args;
                   publisher_run runs config (ex_protocol e) PublisherInfo net (None :: nat option) delay_ms } }"

definition broadcaster_main where
  "broadcaster_main runs S connect from_json var read_file key_from_json args max_jitter random =
     do { res \<leftarrow> main_experiment S connect from_json var;
          case res of
            Inl err \<Rightarrow> Some (Inl err)
          | Inr (config, e) \<Rightarrow>
              (case broadcaster_from_args read_file key_from_json args random of
                 Inl err \<Rightarrow> Some (Inl err)
               | Inr info \<Rightarrow> viewer_run runs config (ex_protocol e) info (ex_hammer e) None max_jitter) }"

text \<open>The viewer runs \<open>threads\<close> clients with random numbers as tasks and unwraps their results: it ends without a panic
  exactly when all of them succeed, in whatever order they end.\<close>

definition viewer_main where
  "viewer_main runs S connect from_json var tls max_jitter threads (draw :: ('rng, u128) sampler) r =
     do { res \<leftarrow> main_experiment S connect from_json var;
          (config, e) \<leftarrow> result_unwrap res;
          cert \<leftarrow> tls;
          rust_assert (list_all (\<lambda>idx. viewer_run runs config (ex_protocol e) (client_info_new idx) (ex_hammer e) cert max_jitter
              = Some (Inr ())) (fst (repeat_with_take draw (unat (threads :: u16)) r)));
          Some () }"

section \<open>Correctness\<close>

lemma split_scheme_etcd: "split_scheme (''etcd://'' @ addr) = Some (''etcd'', addr)"
  by (simp add: prefix_def)

lemma store_from_env_etcd:
  "store_from_env connect (Some (''etcd://'' @ addr)) = (case connect (''http://'' @ addr) of Inl e \<Rightarrow> Inl e | Inr c \<Rightarrow> Inr (Etcd c))"
  using split_scheme_etcd[of addr] by (simp add: store_from_env_def store_from_string_def del: split_scheme.simps)

text \<open>Without a server the store is one of the process itself, which holds no experiment.\<close>

definition no_server :: "string option \<Rightarrow> bool" where
  "no_server var \<longleftrightarrow> var = None \<or> var = Some '''' \<or> var = Some ''mem://''"

lemma no_experiment_without_server:
  assumes "no_server var"
  shows "main_experiment (wrapper_store_ops (inmem_ops iter) B) connect from_json var = Some (Inl ''No experiment string in store.'')"
proof -
  have "store_from_env connect var = Inr (InMem inmem_new)"
    using assms by (auto simp: no_server_def store_from_env_def store_from_string_def prefix_def)
  then show ?thesis
    by (simp add: main_experiment_def read_from_store_def wrapper_store_ops_def inmem_ops_def inmem_get_def inmem_new_def error_new_def)
qed

lemma programs_fail_without_server:
  assumes "no_server var"
  shows "worker_main runs (wrapper_store_ops (inmem_ops iter) B) connect from_json var host net_args g i
      = Some (Inl ''No experiment string in store.'')"
    and "leader_main runs' (wrapper_store_ops (inmem_ops iter) B) connect from_json var host net_args g
      = Some (Inl ''No experiment string in store.'')"
    and "publisher_main runs'' (wrapper_store_ops (inmem_ops iter) B) connect from_json var host net_args delay_ms
      = Some (Inl ''No experiment string in store.'')"
    and "viewer_main runs''' (wrapper_store_ops (inmem_ops iter) B) connect from_json var tls max_jitter threads draw r = None"
  by (simp_all add: worker_main_def leader_main_def publisher_main_def viewer_main_def no_experiment_without_server[OF assms])

context etcd_service
begin

text \<open>What \<open>setup\<close> writes, the programs read.\<close>

lemma setup_main_ok:
  assumes "connect (''http://'' @ addr) = Inr c" "etcd_wf c" "experiment_from_args env args r = Some (e, r')" "to_json e = Inr json"
  shows "\<exists>c'. setup_main env (wrapper_store_ops (inmem_ops iter) (etcd_ops K)) connect to_json (Some (''etcd://'' @ addr)) args r
      = Some (Inr (Etcd c')) \<and> etcd_wf c' \<and> etcd_entries c' [''experiment'', ''config''] = Some json"
proof -
  have k: "path_key [''experiment'', ''config'']" by (simp add: path_key_def)
  obtain c' where c': "etcd_put K c [''experiment'', ''config''] json = Inr c'" "etcd_wf c'"
      "etcd_entries c' = (etcd_entries c)([''experiment'', ''config''] \<mapsto> json)"
    using etcd_map[OF assms(2) k k] by blast
  moreover have "store_from_env connect (Some (''etcd://'' @ addr)) = Inr (Etcd c)" unfolding store_from_env_etcd assms(1) by simp
  ultimately show ?thesis
    using assms(3,4) by (auto simp: setup_main_def write_to_store_def wrapper_store_ops_def etcd_ops_def)
qed

lemma main_experiment_reads:
  assumes "connect (''http://'' @ addr) = Inr c" "etcd_wf c" "etcd_entries c [''experiment'', ''config''] = Some json"
    and "from_json json = Inr e"
  shows "main_experiment (wrapper_store_ops (inmem_ops iter) (etcd_ops K)) connect from_json (Some (''etcd://'' @ addr)) = Some (Inr (Etcd c, e))"
proof -
  have "path_key [''experiment'', ''config'']" by (simp add: path_key_def)
  then have "store_get (etcd_ops K) c [''experiment'', ''config''] = Some (Inr (Some json))"
    using get_eq[OF assms(2)] assms(3) by simp
  moreover have "store_from_env connect (Some (''etcd://'' @ addr)) = Inr (Etcd c)" unfolding store_from_env_etcd assms(1) by simp
  ultimately show ?thesis
    using assms(4) by (simp add: main_experiment_def read_from_store_def wrapper_store_ops_def)
qed

end


text \<open>The numbers in the command of a service are those that its program subtracts one from.\<close>

lemma worker_command_words:
  assumes "service_command to_json dir (Worker w) = Some (cmd, files)"
  shows "\<exists>g i. cmd_args cmd = [''--log-level'', ''info'', ''--group'', nat_to_string (unat g), ''--index'', nat_to_string (unat i)]
    \<and> worker_info_from_args g i = Some w"
proof -
  obtain g i where "u16_checked_add (group_idx (worker_group w)) 1 = Some g" "u16_checked_add (worker_idx w) 1 = Some i"
      "cmd_args cmd = [''--log-level'', ''info'', ''--group'', nat_to_string (unat g), ''--index'', nat_to_string (unat i)]"
    using assms by (auto simp: service_command_def bind_eq_Some_conv)
  then show ?thesis using checked_add_sub by (fastforce simp: worker_info_from_args_def)
qed

lemma leader_command_words:
  assumes "service_command to_json dir (Leader l) = Some (cmd, files)"
  shows "\<exists>g. cmd_args cmd = [''--log-level'', ''info'', ''--group'', nat_to_string (unat g)] \<and> leader_info_from_args g = Some l"
proof -
  obtain g where "u16_checked_add (group_idx (leader_group l)) 1 = Some g"
      "cmd_args cmd = [''--log-level'', ''info'', ''--group'', nat_to_string (unat g)]"
    using assms by (auto simp: service_command_def bind_eq_Some_conv)
  then show ?thesis using checked_add_sub by (fastforce simp: leader_info_from_args_def)
qed

text \<open>A program that finds the experiment runs its part of it.\<close>

lemma programs_run:
  assumes "main_experiment S connect from_json var = Some (Inr (config, e))" "host_net host nargs = Some net"
  shows "service_command to_json dir (Worker w) = Some (cmd, files) \<Longrightarrow>
      \<exists>g i. cmd_args cmd = [''--log-level'', ''info'', ''--group'', nat_to_string (unat g), ''--index'', nat_to_string (unat i)]
        \<and> worker_main wruns S connect from_json var host nargs g i = worker_run wruns config e (ex_protocol e) w net"
    and "service_command to_json dir (Leader l) = Some (cmd, files) \<Longrightarrow>
      \<exists>g. cmd_args cmd = [''--log-level'', ''info'', ''--group'', nat_to_string (unat g)]
        \<and> leader_main lruns S connect from_json var host nargs g = leader_run lruns config e (ex_protocol e) l net"
    and "publisher_main pruns S connect from_json var host nargs delay_ms
      = publisher_run pruns config (ex_protocol e) PublisherInfo net None delay_ms"
  using assms worker_command_words[of to_json dir w cmd files] leader_command_words[of to_json dir l cmd files]
  by (force simp: worker_main_def leader_main_def publisher_main_def)+

text \<open>The files that a broadcaster is given hold its message and its key.\<close>

lemma broadcaster_command_words:
  assumes "client_broadcast info = Some (msg, key)" "service_command key_json dir (Client info) = Some (cmd, files)"
    and "\<forall>(file, b) \<in> set files. read_file file = Inr b" "key_from_json (key_json key) = Inr key"
  shows "\<exists>key_file msg_file. cmd_program cmd = ''broadcaster''
    \<and> cmd_args cmd = [''--log-level'', ''info'', ''--key-file'', key_file, ''--message-file'', msg_file]
    \<and> broadcaster_from_args read_file key_from_json \<lparr> ba_msg = None, ba_msg_file = Some msg_file, ba_key_file = key_file \<rparr> random
      = Inr (new_broadcaster random msg key)"
  using assms by (auto simp: service_command_def Let_def broadcaster_from_args_def)

text \<open>The clients: a viewer runs with the numbers that it draws, a broadcaster with the message and the key that it was given
  and a number that it draws.\<close>

lemma clients_run:
  assumes "main_experiment S connect from_json var = Some (Inr (config, e))"
  shows "broadcaster_from_args read_file key_from_json args random = Inr info \<Longrightarrow>
      broadcaster_main runs S connect from_json var read_file key_from_json args max_jitter random
      = viewer_run runs config (ex_protocol e) info (ex_hammer e) None max_jitter"
    and "viewer_main runs' S connect from_json var (Some cert) max_jitter threads draw r = Some () \<longleftrightarrow>
      (\<forall>idx \<in> set (fst (repeat_with_take draw (unat threads) r)).
        viewer_run runs' config (ex_protocol e) (client_info_new idx) (ex_hammer e) cert max_jitter = Some (Inr ()))"
  by (simp_all add: broadcaster_main_def viewer_main_def assms list_all_iff rust_assert_def)

end
