(* ===== verification/Spec2Isabelle.thy ===== *)
theory Spec2Isabelle
  imports Deployment Conversions InProcess Mains
begin

text \<open>
  Spectrum: a broadcasting system with anonymous broadcasters. Clients send write tokens to the workers of several
  groups; only a client that knows the access key of a channel should be able to write to it, and no group learns who
  wrote. The development models the primitives (\<open>src/spectrum_primitives\<close>), the protocol layer
  (\<open>src/spectrum_protocol\<close>) and the distributed system (\<open>src/spectrum\<close>), and proves that rounds of the whole system
  deliver what was broadcast.

  \<^bold>\<open>How the parts interact.\<close> \<open>setup\<close> writes an experiment to the configuration store; publisher, leaders and
  workers register there, wait for the quorum and the start time. A client picks one worker of every group, registers
  with these shards, makes one write token for each (a distributed point function key and a proof share) and uploads
  it. A worker that gets a token stores it, makes an audit share for every group and sends it to the client's other
  shards; once it has all shares of a client it checks the audit, expands the token and adds it to its accumulator. With
  all its clients accumulated it sends the accumulator to the leader of its group, which adds up its workers and sends
  the sum to the publisher, which adds up the groups: the result of the round.

  \<^bold>\<open>Theories and sources.\<close>
  \<^item> \<open>Prelude\<close>: fixed-width integers, panics as \<open>None\<close>, results as sums, loops over vectors (\<open>try_fold\<close>, \<open>try_map\<close>,
    \<open>vec_get\<close>, \<open>vec_chunks\<close>) and samplers, which are functions of the state of the random generator.
  \<^item> \<open>Algebra\<close> (\<open>algebra.rs\<close>), \<open>IntMod\<close> (\<open>constructions/baby.rs\<close>), \<open>Bytes\<close> (\<open>bytes.rs\<close>), \<open>Sharing\<close> (\<open>sharing.rs\<close>),
    \<open>Jubjub\<close> (\<open>constructions/jubjub.rs\<close>), \<open>Prg\<close> (\<open>prg\<close>, \<open>constructions/aes_prg.rs\<close>): a trait is a record of its
    operations and its laws, those of the \<open>check_\<close> macros, are a locale, interpreted for the implementations.
  \<^item> \<open>Dpf\<close>, \<open>Dpf_TwoKey\<close>, \<open>Dpf_MultiKey\<close> (\<open>dpf\<close>) and \<open>Vdpf\<close>, \<open>Vdpf_TwoKey\<close>, \<open>Vdpf_TwoKeyPub\<close>, \<open>Vdpf_MultiKey\<close> (\<open>vdpf\<close>):
    the point functions and their verification; \<open>Constructions\<close> (\<open>lib.rs\<close>) are the instances that the system uses.
    \<open>Pir\<close> (\<open>pir\<close>): private information retrieval.
  \<^item> \<open>Protocol\<close> (\<open>accumulator.rs\<close>, \<open>definition.rs\<close>, \<open>secure.rs\<close>), \<open>Codec\<close> (the conversions of \<open>secure.rs\<close>) and
    \<open>Wrapper\<close> (\<open>wrapper.rs\<close>): the protocol of a verifiable point function, its messages and the choice of a protocol.
  \<^item> \<open>Config\<close> (\<open>config\<close>), \<open>Services\<close> (\<open>services/mod.rs\<close>, \<open>discovery.rs\<close>), \<open>Experiment\<close> (\<open>experiment.rs\<close>), \<open>Cli\<close>
    (\<open>cli.rs\<close>, \<open>net.rs\<close>), \<open>Quorum\<close> (\<open>services/quorum.rs\<close>, \<open>retry.rs\<close>, \<open>health.rs\<close>): the start of an experiment. A store is a
    state that is passed along; \<open>config_store\<close> is the contract of the trait, which the in-memory store and etcd keep.
  \<^item> \<open>Registries\<close> (\<open>accumulator.rs\<close>, \<open>worker/audit_registry.rs\<close>, \<open>client_registry.rs\<close>, \<open>service_registry.rs\<close>),
    \<open>Worker\<close> (\<open>worker/mod.rs\<close>), \<open>Aggregation\<close> (\<open>leader.rs\<close>, \<open>publisher.rs\<close>), \<open>Client\<close> (\<open>client\<close>): the state of each
    process is a record; a handler and the task that it spawns are functions from the state to the answer, the messages
    sent and the next state.
  \<^item> \<open>System\<close>: all processes together. A state is the record of the processes with the multiset of the tasks in
    flight: requests on their way and the rests of spawned tasks, cut where a lock is released. A step runs one task,
    so the executions of \<open>sys_step\<close> are all interleavings. \<open>Rounds\<close> holds the invariant of the executions and
    \<open>Delivery\<close> the rounds of the three protocols with the workers of an experiment; \<open>Sums\<close> bounds what is in flight.
  \<^item> \<open>Processes\<close> (\<open>lib.rs\<close>, \<open>bin\<close>): the programs' arguments and command lines. \<open>Mains\<close> (\<open>bin\<close>, and the functions \<open>run\<close>): the main
    functions of the programs, up to the instance of \<open>inner_run\<close> that they choose. \<open>Instances\<close>: concrete states for the
    examples below.
  \<^item> \<open>Startup\<close> (the first half of every \<open>inner_run\<close>): what the processes do until the round begins, as steps on the shared
    store that interleave; \<open>Launch\<close> has the locale \<open>startup_system\<close>, the invariant and the progress of the start.
    \<open>Composition\<close>: a start that has completed is the beginning of a round of \<open>System\<close>.
  \<^item> \<open>Wire\<close>: the round once more, with the handlers and tasks of \<open>Worker\<close> and \<open>Aggregation\<close> on encoded requests, sent to
    handles; it simulates \<open>System\<close> for every protocol whose messages keep the laws of \<open>wire_protocol\<close>. \<open>Messages\<close> shows
    them for the messages of the three protocols, with the publisher's conversion of the sums into bytes. \<open>Deployment\<close>: the
    start on a network, followed by the round on the wire.
  \<^item> \<open>InProcess\<close> (\<open>run_in_process\<close> of \<open>lib.rs\<close>, the upload loop of \<open>client/viewer.rs\<close>): the end of an experiment, with the
    barrier, the timer and the timeout.
  \<^item> \<open>Suites\<close>: the property tests of the repository (the \<open>check_\<close> macros, and the tests of \<open>config/store.rs\<close>) as functions of
    their inputs, which return what the test asserts. \<open>UnitTests\<close>: the tests of single parts of the processes (start time,
    quorum, retries, discovery, shards, registry, accumulator, choice of a store, byte strings). \<open>Conversions\<close>: the tests of
    samplers and conversions, among them the messages of the protocols.

  \<^bold>\<open>What is shown.\<close>
  \<^item> From the start to the result: the processes start in any order and interleaving, the start time is
    set only with the quorum, a process panics exactly if it is a worker or leader that runs out of attempts to read the start time,
    and a start in which nothing fails can be completed; the network it leaves behind runs a round
    on encoded requests that is bounded and ends with the sums of the messages, and in which a task panics exactly if it logs the
    throughput of a worker in the first millisecond. This holds of all three protocols.
  \<^item> The whole system: with clients that follow the protocol, every execution of a round ends, a task panics only in the log of the
    throughput, with which nothing is lost, no counter exceeds its expected number, and at the end the publisher holds the sum of the
    messages of each channel. The invariant describes the state by the set of the sources of each stage (shares, tokens, accumulators,
    sums) that are still in flight; each task moves one source to the next stage.
  \<^item> Rounds and access control: the same on the level of the protocol, for every order of arrival; a broadcast is
    accepted by the audit exactly when it was made with the key of the channel. With public keys it is not.
  \<^item> The worker: the behaviour on the last share, on missing tokens and of the registries.
    The verdict of the audit has no effect, since the code only logs it. Leader and publisher: exactly one sum is taken, of at least
    the expected shares, although the lock is released between the last share and the sum.
  \<^item> Start-up: stores, discovery, quorum and retries; services, clients and arguments of an experiment; round trips
    of experiments, command lines and messages. The programs that are started after \<open>setup\<close> run the experiment that was set up, the
    broadcasters among them under drawn numbers. The stores differ in listing a prefix that is itself a key.
  \<^item> The end: nothing stops before the publisher is done; a run without failures can be continued to its return, and with a
    failed or hammering client it can only time out.
  \<^item> Primitives: retrieval, sharing, the chunked exclusive or, the generator and reduced integers. The property tests pass
    for all inputs: of the protocols and their messages, the stores, quorum, discovery and retries, the scalars of the curve (but for
    inverses) and the integers modulo 11.

  \<^bold>\<open>Bounds.\<close> A run is bounded by \<open>work_left\<close>: an upload counts five for each party and one, its parts five to one for
  what is left of their way to the leader (\<open>pool_weight\<close>), and every sum that a leader or the publisher has still to take and send
  counts two or one. On the wire every request counts one more, as its handler only starts the task. The
  start is measured by the work of each process up to its round. The loop of a client may run for ever and is a
  \<open>partial_function\<close>; when it returns is characterised. \<open>connect_loop\<close> ends by a measure; the retry loop of the futures library is
  a parameter whose contract (\<open>future_retry\<close>) is its unfolding, and the attempts are bounded by the policy. Counters of
  type \<open>usize\<close> are natural numbers; \<open>u8\<close>, \<open>u16\<close>, \<open>u32\<close> and \<open>u128\<close> values whose conversions matter are words.

  \<^bold>\<open>Parameters.\<close> Code outside the sources is an argument with its documented behaviour as a hypothesis: the field and
  the curve of the jubjub crate (\<open>jubjub_crate\<close>), the block cipher in counter mode, the random generators and the hash
  (\<open>crypto\<close>), the etcd service (\<open>etcd_service\<close>), the iteration order of hash maps (\<open>hash_order\<close>), the choice of a random
  element (\<open>random_choice\<close>), the barrier of the runtime (\<open>runtime_barrier\<close>), where a connection leads (\<open>reaches\<close>), which addresses
  are parsed as URIs, JSON, dates, files and connections. Every hypothesis is met by a concrete instance, among
  them the residues modulo the order of the curve group.

  \<^bold>\<open>Not modelled.\<close> Serving and sending gRPC, TLS, logging and operating-system processes, which only pass on what the
  handlers compute; the parsing of the command line by clap; serialisation by prost and serde; the privacy of the
  protocol, which is a probabilistic statement, and so the tests that two samples differ; the \<open>Runner\<close> that starts an etcd
  process for tests, benchmarks, tests that are commented out, and the Python scripts that rent machines. In \<open>System\<close> a message
  holds the value that was sent and a peer is named by its \<open>worker_info\<close>; \<open>Wire\<close> justifies both. Once the round has begun,
  requests arrive, and the elapsed time that \<open>log_qps\<close> divides by is chosen freely at each step. Inverses of scalars need the
  primality of the order of the curve group, which is not shown, and the group laws of the points are hypotheses on the crate.
\<close>

section \<open>The whole system\<close>

text \<open>C6. The system delivers. Clients that follow the two-server protocol have chosen workers for their tokens; the
  workers are those of the experiment. The round starts without a panic, and whatever the interleaving of all
  requests and tasks of workers, leaders and publisher, once nothing is in flight any more the publisher holds in
  every channel the exclusive or of the messages broadcast to it.\<close>

theorem two_key_system_result:
  assumes "crypto env validR frv validQ" "two_key_vdpf env channels msg_size = Some V"
    and "list_all (action_valid (\<lambda>b. length b = msg_size) channels) acts"
    and "vec_valid (\<lambda>k. validR (scalar_inner k)) channels keys"
    and "experiment_new (Secure V) group_size clients False (map wrapper_from_auth_key keys) = Some e"
    and "iter_services e = Some ss" "inputs_ok 2 (service_workers ss) acts rs ids shards"
  shows "\<exists>plan st0. honest_plan (wrapper_protocol V) keys acts rs ids shards = Some plan
    \<and> sys_init (wrapper_protocol V) e (service_workers ss) plan = Some st0
    \<and> (\<forall>sys. (sys_step (wrapper_protocol V) bytes_acc auth_key_try_from)\<^sup>*\<^sup>* st0 (sys, {#}) \<longrightarrow>
        sys_result sys = Some (map (\<lambda>j. bytes_sum msg_size (channel_messages j acts)) [0..<channels]))"
  using crypto.two_key_system[OF assms] unfolding round_correct_def round_delivers_def round_from_def by fastforce

theorem two_key_system_result_witness:
  "\<exists>plan st0. honest_plan (wrapper_protocol (residue_vdpf 2 0)) demo_keys demo_actions [10, 20] [0, 1] demo_shards = Some plan
    \<and> sys_init (wrapper_protocol (residue_vdpf 2 0)) demo_experiment (service_workers demo_services) plan = Some st0
    \<and> (\<forall>sys. (sys_step (wrapper_protocol (residue_vdpf 2 0)) bytes_acc auth_key_try_from)\<^sup>*\<^sup>* st0 (sys, {#}) \<longrightarrow>
        sys_result sys = Some [replicate 16 0, replicate 16 7])"
  using two_key_system_result[OF residue_crypto.crypto_axioms demo_vdpf demo_ok(4,5,1,2,6)]
  unfolding demo_sums .

text \<open>C7. Progress. In every state that a round can reach, a request or task in flight panics when it runs exactly if it logs the
  throughput of its worker in the first millisecond after the start (the elapsed time, which a step may choose freely, divides). Such a
  task has nothing else left to do: whatever has panicked before, the execution can be continued to the end.\<close>

theorem two_key_system_progress:
  assumes "crypto env validR frv validQ" "two_key_vdpf env channels msg_size = Some V"
    and "list_all (action_valid (\<lambda>b. length b = msg_size) channels) acts"
    and "vec_valid (\<lambda>k. validR (scalar_inner k)) channels keys"
    and "experiment_new (Secure V) group_size clients False (map wrapper_from_auth_key keys) = Some e"
    and "iter_services e = Some ss" "inputs_ok 2 (service_workers ss) acts rs ids shards"
  shows "\<exists>plan st0. honest_plan (wrapper_protocol V) keys acts rs ids shards = Some plan
    \<and> sys_init (wrapper_protocol V) e (service_workers ss) plan = Some st0
    \<and> (\<forall>st. (sys_step (wrapper_protocol V) bytes_acc auth_key_try_from)\<^sup>*\<^sup>* st0 st \<longrightarrow>
        (\<forall>task elapsed. task \<in># snd st \<longrightarrow>
          (run_task (wrapper_protocol V) bytes_acc auth_key_try_from elapsed task (fst st) = None \<longleftrightarrow> log_panics elapsed task (fst st)))
        \<and> (\<exists>sys. (sys_step (wrapper_protocol V) bytes_acc auth_key_try_from)\<^sup>*\<^sup>* st (sys, {#})))"
  using crypto.two_key_system[OF assms] unfolding round_correct_def round_delivers_def round_from_def by blast

theorem two_key_system_progress_witness:
  "\<exists>plan st0. honest_plan (wrapper_protocol (residue_vdpf 2 0)) demo_keys demo_actions [10, 20] [0, 1] demo_shards = Some plan
    \<and> sys_init (wrapper_protocol (residue_vdpf 2 0)) demo_experiment (service_workers demo_services) plan = Some st0
    \<and> (\<forall>st. (sys_step (wrapper_protocol (residue_vdpf 2 0)) bytes_acc auth_key_try_from)\<^sup>*\<^sup>* st0 st \<longrightarrow>
        (\<forall>task elapsed. task \<in># snd st \<longrightarrow>
          (run_task (wrapper_protocol (residue_vdpf 2 0)) bytes_acc auth_key_try_from elapsed task (fst st) = None
            \<longleftrightarrow> log_panics elapsed task (fst st)))
        \<and> (\<exists>sys. (sys_step (wrapper_protocol (residue_vdpf 2 0)) bytes_acc auth_key_try_from)\<^sup>*\<^sup>* st (sys, {#})))"
  using two_key_system_progress[OF residue_crypto.crypto_axioms demo_vdpf demo_ok(4,5,1,2,6)] .

text \<open>C8. Termination. Every execution of a round ends: it is not longer than eleven steps for each of the two uploads of a client,
  one for each worker (those without clients start with a share for their leader), two for each of the two leaders and one for the
  publisher.\<close>

theorem two_key_system_terminates:
  assumes "crypto env validR frv validQ" "two_key_vdpf env channels msg_size = Some V"
    and "list_all (action_valid (\<lambda>b. length b = msg_size) channels) acts"
    and "vec_valid (\<lambda>k. validR (scalar_inner k)) channels keys"
    and "experiment_new (Secure V) group_size clients False (map wrapper_from_auth_key keys) = Some e"
    and "iter_services e = Some ss" "inputs_ok 2 (service_workers ss) acts rs ids shards"
  shows "\<exists>plan st0. honest_plan (wrapper_protocol V) keys acts rs ids shards = Some plan
    \<and> sys_init (wrapper_protocol V) e (service_workers ss) plan = Some st0
    \<and> (\<forall>n st. (sys_step (wrapper_protocol V) bytes_acc auth_key_try_from ^^ n) st0 st \<longrightarrow>
        n \<le> 22 * length acts + length (service_workers ss) + 5)"
proof -
  obtain plan where plan: "honest_plan (wrapper_protocol V) keys acts rs ids shards = Some plan"
    and R: "round_delivers (wrapper_protocol V) bytes_acc auth_key_try_from e (service_workers ss) plan
      (map (\<lambda>j. bytes_sum msg_size (channel_messages j acts)) [0..<channels])"
    using crypto.two_key_system[OF assms] unfolding round_correct_def by blast
  obtain st0 where st0: "sys_init (wrapper_protocol V) e (service_workers ss) plan = Some st0"
    and n: "\<And>n st. (sys_step (wrapper_protocol V) bytes_acc auth_key_try_from ^^ n) st0 st \<Longrightarrow> n \<le> pool_weight 2 (snd st0) + 5"
    using round_delivers_bound[OF R] two_key_vdpf_sizes[OF assms(2)] by force
  have "pool_weight 2 (snd st0) + 5 \<le> 22 * length acts + length (service_workers ss) + 5"
    using sys_init_weight[OF st0, of 2] honest_plan_size[OF plan assms(7)] by simp
  then show ?thesis using plan st0 n by (meson le_trans)
qed

theorem two_key_system_terminates_witness:
  "\<exists>plan st0. honest_plan (wrapper_protocol (residue_vdpf 2 0)) demo_keys demo_actions [10, 20] [0, 1] demo_shards = Some plan
    \<and> sys_init (wrapper_protocol (residue_vdpf 2 0)) demo_experiment (service_workers demo_services) plan = Some st0
    \<and> (\<forall>n st. (sys_step (wrapper_protocol (residue_vdpf 2 0)) bytes_acc auth_key_try_from ^^ n) st0 st \<longrightarrow>
        n \<le> 22 * 2 + length (service_workers demo_services) + 5)"
  using two_key_system_terminates[OF residue_crypto.crypto_axioms demo_vdpf demo_ok(4,5,1,2,6)]
  by (simp add: demo_actions_def)

text \<open>C9. In every state that a round can reach, no worker has counted more clients than have registered with it, no
  leader more workers than its group has, and the publisher not more groups than there are.\<close>

theorem two_key_system_counts:
  assumes "crypto env validR frv validQ" "two_key_vdpf env channels msg_size = Some V"
    and "list_all (action_valid (\<lambda>b. length b = msg_size) channels) acts"
    and "vec_valid (\<lambda>k. validR (scalar_inner k)) channels keys"
    and "experiment_new (Secure V) group_size clients False (map wrapper_from_auth_key keys) = Some e"
    and "iter_services e = Some ss" "inputs_ok 2 (service_workers ss) acts rs ids shards"
  shows "\<exists>plan st0. honest_plan (wrapper_protocol V) keys acts rs ids shards = Some plan
    \<and> sys_init (wrapper_protocol V) e (service_workers ss) plan = Some st0
    \<and> (\<forall>st. (sys_step (wrapper_protocol V) bytes_acc auth_key_try_from)\<^sup>*\<^sup>* st0 st \<longrightarrow> counts_ok (fst st))"
  using crypto.two_key_system[OF assms] unfolding round_correct_def round_delivers_def round_from_def by blast

theorem two_key_system_counts_witness:
  "\<exists>plan st0. honest_plan (wrapper_protocol (residue_vdpf 2 0)) demo_keys demo_actions [10, 20] [0, 1] demo_shards = Some plan
    \<and> sys_init (wrapper_protocol (residue_vdpf 2 0)) demo_experiment (service_workers demo_services) plan = Some st0
    \<and> (\<forall>st. (sys_step (wrapper_protocol (residue_vdpf 2 0)) bytes_acc auth_key_try_from)\<^sup>*\<^sup>* st0 st \<longrightarrow> counts_ok (fst st))"
  using two_key_system_counts[OF residue_crypto.crypto_axioms demo_vdpf demo_ok(4,5,1,2,6)] .

text \<open>The system delivers with any number of groups of workers over the curve group: the round starts, it ends
  after a bounded number of steps whatever the interleaving, nothing but the log of the throughput panics on the way, and the
  publisher then holds the sum of the messages of every channel.\<close>

theorem multi_key_system_delivers:
  assumes "crypto env validR frv validQ" "multi_key_vdpf env channels groups msg_size r = (V, r')"
    and "2 \<le> groups" "groups < 2 ^ 16" "0 < channels"
    and "list_all (action_valid (vec_valid (\<lambda>p. validQ (point_inner p)) (msg_size div 32 + 1)) channels) acts"
    and "vec_valid (\<lambda>k. validR (scalar_inner k)) channels keys"
    and "experiment_new (SecureMultiKey V) group_size clients False (map wrapper_from_auth_key keys) = Some e"
    and "iter_services e = Some ss" "inputs_ok groups (service_workers ss) acts rs ids shards"
  shows "\<exists>plan. honest_plan (wrapper_protocol V) keys acts rs ids shards = Some plan
    \<and> round_delivers (wrapper_protocol V) (ev_acc (curve_exp (env_sp env))) auth_key_try_from e (service_workers ss) plan
        (map (\<lambda>j. fold_add (vec_monoid (curve_exp (env_sp env)) (msg_size div 32 + 1)) (channel_messages j acts)) [0..<channels])"
  using crypto.multi_key_system[OF assms] unfolding round_correct_def by blast

theorem multi_key_system_delivers_witness:
  "\<exists>plan. honest_plan (wrapper_protocol demo_multi) demo_keys [Broadcast 1 [CurvePoint 5], Cover] [10, 20] [0, 1] demo_multi_shards = Some plan
    \<and> round_delivers (wrapper_protocol demo_multi) (ev_acc (curve_exp residue_sp)) auth_key_try_from demo_multi_experiment
        (service_workers demo_multi_services) plan
        (map (\<lambda>j. fold_add (vec_monoid (curve_exp residue_sp) 1) (channel_messages j [Broadcast 1 [CurvePoint 5], Cover])) [0..<2])"
  using multi_key_system_delivers[OF residue_crypto.crypto_axioms demo_multi_ok(1) _ _ _ _ demo_ok(5) demo_multi_ok(2,3),
      of "[Broadcast 1 [CurvePoint 5], Cover]" "[10, 20]" "[0, 1]" demo_multi_shards] demo_multi_ok(4)
  by (simp add: vec_valid_def jubjub_order_eq)

text \<open>The same for the two-server protocol with public keys.\<close>

theorem pub_system_delivers:
  assumes "crypto env validR frv validQ" "two_key_pub_vdpf env channels msg_size = Some V"
    and "list_all (action_valid (\<lambda>b. length b = msg_size) channels) acts"
    and "vec_valid (\<lambda>s. validR (scalar_inner s)) channels privates"
    and "experiment_new (SecurePub V) group_size clients False
      (map wrapper_from_pub_auth_key (map (key_pair_from (env_sp env)) privates)) = Some e"
    and "iter_services e = Some ss" "inputs_ok 2 (service_workers ss) acts rs ids shards"
  shows "\<exists>plan. honest_plan (wrapper_protocol V) (map (key_pair_from (env_sp env)) privates) acts rs ids shards = Some plan
    \<and> round_delivers (wrapper_protocol V) bytes_acc pub_auth_key_try_from e (service_workers ss) plan
        (map (\<lambda>j. bytes_sum msg_size (channel_messages j acts)) [0..<channels])"
  using crypto.two_key_pub_system[OF assms] unfolding round_correct_def by blast

theorem pub_system_delivers_witness:
  "\<exists>plan. honest_plan (wrapper_protocol demo_pub) (map (key_pair_from residue_sp) demo_keys) demo_actions [10, 20] [0, 1] demo_shards = Some plan
    \<and> round_delivers (wrapper_protocol demo_pub) bytes_acc pub_auth_key_try_from demo_pub_experiment (service_workers demo_pub_services) plan
        [replicate 16 0, replicate 16 7]"
  using pub_system_delivers[OF residue_crypto.crypto_axioms demo_pub_ok(1) demo_ok(4,5), unfolded residue_env_sel, OF demo_pub_ok(2,3,4)]
  unfolding demo_sums .

section \<open>The start of an experiment\<close>



text \<open>C5. As long as no process has failed or panicked and no worker has started before every client was registered, the start can be
  completed: there is a continuation after which every service and every client runs.\<close>

theorem startup_completes:
  fixes W :: "('t, 's, 'k, 'm, 'fr, 'sp) wire_ops" and T :: "('r, 'm, 'k, 't, 's) protocol_ops"
  assumes "startup_system S store_wf key_ok entries P T e ss n json clients ws0"
    and "store_wf st" "entries st = [[''experiment'', ''config''] \<mapsto> json]" "startup_init T e now st = Some su0"
    and "(startup_step P W (procs_of ss clients))\<^sup>*\<^sup>* su0 su" "on_time ss clients su"
  shows "\<exists>su'. (startup_step P W (procs_of ss clients))\<^sup>*\<^sup>* su su' \<and> (\<forall>s \<in> procs_of ss clients. su_phase su' s = Running)"
  using startup_system.completes[OF assms(1) startup_system.reach_inv[OF assms(1-5)] assms(6)] .

theorem startup_completes_witness:
  "\<exists>su. (startup_step demo_params demo_wire (procs_of demo_services demo_clients))\<^sup>*\<^sup>* demo_start su
    \<and> (\<forall>s \<in> procs_of demo_services demo_clients. su_phase su s = Running)"
proof -
  have "\<forall>s. su_phase demo_start s = Booting" using demo_startup.init_inv[OF demo_start_ok(1,2), of 0] demo_start_ok(3) by auto
  then have "on_time demo_services demo_clients demo_start" by (simp add: on_time_def)
  then show ?thesis using startup_completes[OF demo_startup.startup_system_axioms demo_start_ok rtranclp.rtrancl_refl] by blast
qed

text \<open>The start and the round of the two-server protocol together: from the registration of the services to the
  published result. Once every process runs, the clients upload their tokens to the workers they have picked, and
  whatever the interleaving from then on, a task panics only in the log of the throughput, the execution is bounded, it can always be
  continued to the end, and at the end the publisher has in every channel the exclusive or of the messages broadcast to it.\<close>

theorem started_round_delivers:
  fixes W :: "(((bytes, aes_seed) two_key, 'fr scalar proof_share) write_token, 'fr scalar token audit_share, 'fr scalar, bytes, 'fr, 'sp) wire_ops"
  assumes "startup_system S store_wf key_ok entries P (wrapper_protocol V) e ss n json clients ws0"
    and "crypto env validR frv validQ" "two_key_vdpf env channels msg_size = Some V"
    and "list_all (action_valid (\<lambda>b. length b = msg_size) channels) acts"
    and "vec_valid (\<lambda>k. validR (scalar_inner k)) channels keys"
    and "experiment_new (Secure V) group_size total_clients False (map wrapper_from_auth_key keys) = Some e"
    and "store_wf st" "entries st = [[''experiment'', ''config''] \<mapsto> json]" "startup_init (wrapper_protocol V) e now st = Some su0"
    and "(startup_step P W (procs_of ss clients))\<^sup>*\<^sup>* su0 su" "\<forall>s \<in> procs_of ss clients. su_phase su s = Running"
    and "distinct ids" "set ids = client_idx ` clients" "length acts = length ids" "length rs = length ids"
  shows "\<exists>plan. honest_plan (wrapper_protocol V) keys acts rs ids (map (\<lambda>i. the (su_shards su i)) ids) = Some plan
    \<and> round_from (wrapper_protocol V) bytes_acc auth_key_try_from (started_system (wrapper_protocol V) ss plan su)
        (map (\<lambda>j. bytes_sum msg_size (channel_messages j acts)) [0..<channels])"
  using two_key_started[OF assms] .

theorem started_round_delivers_witness:
  "\<exists>su plan. (startup_step demo_params demo_wire (procs_of demo_services demo_clients))\<^sup>*\<^sup>* demo_start su
    \<and> honest_plan demo_protocol demo_keys demo_actions [10, 20] [0, 1] (map (\<lambda>i. the (su_shards su i)) [0, 1]) = Some plan
    \<and> round_from demo_protocol bytes_acc auth_key_try_from (started_system demo_protocol demo_services plan su)
        [replicate 16 0, replicate 16 7]"
proof -
  obtain su where su: "(startup_step demo_params demo_wire (procs_of demo_services demo_clients))\<^sup>*\<^sup>* demo_start su"
      "\<forall>s \<in> procs_of demo_services demo_clients. su_phase su s = Running"
    using demo_completes by blast
  have "set [0, 1] = client_idx ` demo_clients" "length demo_actions = length [0 :: u128, 1]"
    by (simp_all add: demo_clients_def client_info_new_def demo_actions_def)
  then show ?thesis
    using started_round_delivers[OF demo_startup.startup_system_axioms residue_crypto.crypto_axioms demo_vdpf demo_ok(4,5,1)
        demo_start_ok su, of "[0, 1]" "[10, 20]"] su(1) unfolding demo_sums by auto
qed

text \<open>C1. From the start to the published bytes, on the wire. The processes of an experiment with the two-server protocol start in any
  order over the configuration store, on a network on which a connection to the address of a process leads to this process.
  Once every process runs, the clients send their encoded tokens over their connections to the workers they have picked; workers,
  leaders and the publisher decode every request, work on it and send encoded requests on. Whatever the interleaving and the times
  that pass, a handler or task panics exactly if it is a task that logs the throughput of its worker within the first millisecond,
  where it divides by zero with nothing else left to do; the execution is bounded and can always be continued, also after such
  panics, until no request is left; and then the publisher has published in every channel the exclusive or of the messages
  broadcast to it.\<close>

theorem deployed_round_delivers:
  fixes e :: "('r, 'fr, 'sp) experiment_spec" and env :: "('r, 'fr, 'sp, 'h, 'e) crypto_env"
  assumes "startup_system S store_wf key_ok entries P (wrapper_protocol V) e ss n json clients ws0"
    and "crypto env validR frv validQ" "two_key_vdpf env channels msg_size = Some V"
    and "list_all (action_valid (\<lambda>b. length b = msg_size) channels) acts"
    and "vec_valid (\<lambda>k. validR (scalar_inner k)) channels keys"
    and "experiment_new (Secure V) group_size total_clients False (map wrapper_from_auth_key keys) = Some e"
    and "store_wf st" "entries st = [[''experiment'', ''config''] \<mapsto> json]" "startup_init (wrapper_protocol V) e now st = Some su0"
    and "(routed_step Rt P (two_key_wire_ops (env_fr env)) (procs_of ss clients))\<^sup>*\<^sup>* su0 su"
      "\<forall>s \<in> procs_of ss clients. su_phase su s = Running"
    and "bytes_routes Rt" "distinct infos" "set infos = clients" "length acts = length infos" "length rs = length infos"
    and "map (map (rt_worker Rt)) hss = map (\<lambda>c. the (su_shards su (client_idx c))) infos"
  shows "\<exists>tokens. all_clients (wrapper_protocol V) keys acts rs = Some tokens
    \<and> net_round_from (wrapper_protocol V) bytes_acc (two_key_wire_ops (env_fr env)) Rt
        (started_net (wrapper_protocol V) ss (zip infos (zip hss tokens)) (two_key_write_token_into (env_fr env)) su)
        (map (\<lambda>j. bytes_sum msg_size (channel_messages j acts)) [0..<channels])"
  using two_key_deployed[OF assms] .

theorem deployed_round_delivers_witness:
  "\<exists>su hss tokens. (routed_step demo_routes demo_params demo_wire (procs_of demo_services demo_clients))\<^sup>*\<^sup>* demo_start su
    \<and> all_clients demo_protocol demo_keys demo_actions [10, 20] = Some tokens
    \<and> net_round_from demo_protocol bytes_acc demo_wire demo_routes
        (started_net demo_protocol demo_services (zip [client_info_new 0, client_info_new 1] (zip hss tokens))
          (two_key_write_token_into residue_fr) su)
        [replicate 16 0, replicate 16 7]"
proof -
  obtain su where su: "(routed_step demo_routes demo_params demo_wire (procs_of demo_services demo_clients))\<^sup>*\<^sup>* demo_start su"
      "\<forall>s \<in> procs_of demo_services demo_clients. su_phase su s = Running"
    using demo_deploys by blast
  let ?infos = "[client_info_new 0, client_info_new 1] :: (nat, nat) client_info list"
  let ?hss = "map (\<lambda>c. map demo_url (the (su_shards su (client_idx c)))) ?infos"
  have infos: "distinct ?infos" "set ?infos = demo_clients" "length demo_actions = length ?infos" "length [10 :: nat, 20] = length ?infos"
    by (simp_all add: demo_clients_def client_info_new_def demo_actions_def)
  have hss: "map (map (rt_worker demo_routes)) ?hss = map (\<lambda>c. the (su_shards su (client_idx c))) ?infos"
    unfolding map_map comp_def demo_url_def demo_routed(1) by simp
  have "env_fr residue_env = residue_fr" by (simp add: residue_env_def)
  then show ?thesis
    using deployed_round_delivers[OF demo_startup.startup_system_axioms residue_crypto.crypto_axioms demo_vdpf demo_ok(4,5,1)
        demo_start_ok, of demo_routes su, unfolded \<open>env_fr residue_env = residue_fr\<close>, OF su demo_bytes infos hss] su(1)
    unfolding demo_sums by blast
qed



text \<open>C3. The same with the two-server protocol with public keys, whose proofs and audit shares are points of the curve: the same
  exact condition for a panic, the bound, the progress to the end and the published messages.\<close>

theorem pub_deployed_round_delivers:
  fixes e :: "('r, 'fr, 'sp) experiment_spec" and env :: "('r, 'fr, 'sp, 'h, 'e) crypto_env"
  assumes "startup_system S store_wf key_ok entries P (wrapper_protocol V) e ss n json clients ws0"
    and "crypto env validR frv validQ" "two_key_pub_vdpf env channels msg_size = Some V"
    and "list_all (action_valid (\<lambda>b. length b = msg_size) channels) acts"
    and "vec_valid (\<lambda>k. validR (scalar_inner k)) channels privates"
    and "experiment_new (SecurePub V) group_size total_clients False
      (map wrapper_from_pub_auth_key (map (key_pair_from (env_sp env)) privates)) = Some e"
    and "store_wf st" "entries st = [[''experiment'', ''config''] \<mapsto> json]" "startup_init (wrapper_protocol V) e now st = Some su0"
    and "(routed_step Rt P (pub_wire_ops (env_sp env)) (procs_of ss clients))\<^sup>*\<^sup>* su0 su"
      "\<forall>s \<in> procs_of ss clients. su_phase su s = Running"
    and "bytes_routes Rt" "distinct infos" "set infos = clients" "length acts = length infos" "length rs = length infos"
    and "map (map (rt_worker Rt)) hss = map (\<lambda>c. the (su_shards su (client_idx c))) infos"
  shows "\<exists>tokens. all_clients (wrapper_protocol V) (map (key_pair_from (env_sp env)) privates) acts rs = Some tokens
    \<and> net_round_from (wrapper_protocol V) bytes_acc (pub_wire_ops (env_sp env)) Rt
        (started_net (wrapper_protocol V) ss (zip infos (zip hss tokens)) (pub_write_token_into (env_sp env)) su)
        (map (\<lambda>j. bytes_sum msg_size (channel_messages j acts)) [0..<channels])"
  using pub_deployed[OF assms] .

theorem pub_deployed_round_delivers_witness:
  "\<exists>su hss tokens. (routed_step demo_routes (demo_params_of demo_pub_experiment) demo_pub_wire
        (procs_of demo_pub_services demo_clients))\<^sup>*\<^sup>* demo_pub_start su
    \<and> all_clients (wrapper_protocol demo_pub) (map (key_pair_from residue_sp) demo_keys) demo_actions [10, 20] = Some tokens
    \<and> net_round_from (wrapper_protocol demo_pub) bytes_acc demo_pub_wire demo_routes
        (started_net (wrapper_protocol demo_pub) demo_pub_services (zip [client_info_new 0, client_info_new 1] (zip hss tokens))
          (pub_write_token_into residue_sp) su)
        [replicate 16 0, replicate 16 7]"
proof -
  obtain su where su: "(routed_step demo_routes (demo_params_of demo_pub_experiment) demo_pub_wire
        (procs_of demo_pub_services demo_clients))\<^sup>*\<^sup>* demo_pub_start su"
      "\<forall>s \<in> procs_of demo_pub_services demo_clients. su_phase su s = Running"
    using demo_pub_deploys by blast
  have len: "length demo_actions = length [client_info_new 0, client_info_new 1 :: (nat, nat) client_info]"
    "length [10 :: nat, 20] = length [client_info_new 0, client_info_new 1 :: (nat, nat) client_info]" by (simp_all add: demo_actions_def)
  from pub_deployed_round_delivers[OF demo_pub_startup.startup_system_axioms residue_crypto.crypto_axioms demo_pub_ok(1) demo_ok(4,5),
      unfolded residue_env_sel, OF demo_pub_ok(2) demo_start_ok(1,2) demo_starts_ok(1) su demo_bytes demo_infos len demo_handles[OF refl]]
  show ?thesis using su(1) unfolding demo_sums by blast
qed

section \<open>Rounds\<close>

text \<open>A round of the two-server protocol with secret access keys. Whatever randomness the clients
  draw, no client and no server panics, every honest client passes the audit of both servers, and, in
  whatever order the tokens arrive at each server, the combined result holds in every channel the
  exclusive or of the messages broadcast to it.\<close>

theorem two_key_round_delivers:
  assumes "crypto env validR frv validQ" "two_key_vdpf env channels msg_size = Some V"
    and acts: "list_all (action_valid (\<lambda>b. length b = msg_size) channels) acts"
    and "vec_valid (\<lambda>k. validR (scalar_inner k)) channels keys" "length rs = length acts"
  shows "\<exists>clients. all_clients (wrapper_protocol V) keys acts rs = Some clients
    \<and> list_all (\<lambda>tokens. audit_verdicts (wrapper_protocol V) keys tokens = Some [True, True]) clients
    \<and> (\<forall>inboxes. delivered 2 clients inboxes \<longrightarrow>
        round_result (wrapper_protocol V) bytes_acc inboxes
          = Some (map (\<lambda>j. bytes_sum msg_size (channel_messages j acts)) [0..<channels]))"
proof -
  obtain validK out where R: "protocol_round V (\<lambda>b. length b = msg_size) (\<lambda>k. validR (scalar_inner k))
      \<lparr> m_zero = bytes_empty msg_size, m_add = bytes_xor.xor \<rparr> validK out bytes_acc msg_size"
    and V: "dpf_points V = channels" "dpf_keys V = 2"
    using crypto.two_key_vdpf_round[OF assms(1,2)] by blast
  have "fold_add \<lparr> m_zero = bytes_empty msg_size, m_add = bytes_xor.xor \<rparr> (channel_messages j acts)
      = bytes_sum msg_size (channel_messages j acts)" for j
    using protocol_round.channel_messages_valid[OF R acts] by (intro bytes_sum_eq)
  then show ?thesis
    using protocol_round.round_run[OF R, of acts keys rs] assms(3-5) V by (simp add: numeral_2_eq_2)
qed

theorem two_key_round_delivers_witness:
  "\<exists>clients. all_clients (wrapper_protocol (the (two_key_vdpf residue_env 2 16))) [Scalar 3, Scalar 4]
      [Broadcast 1 (replicate 16 7), Cover] [10, 20] = Some clients
    \<and> list_all (\<lambda>tokens. audit_verdicts (wrapper_protocol (the (two_key_vdpf residue_env 2 16))) [Scalar 3, Scalar 4] tokens
        = Some [True, True]) clients
    \<and> (\<forall>inboxes. delivered 2 clients inboxes \<longrightarrow>
        round_result (wrapper_protocol (the (two_key_vdpf residue_env 2 16))) bytes_acc inboxes
          = Some [replicate 16 0, replicate 16 7])"
proof -
  have V: "two_key_vdpf residue_env 2 16 = Some (the (two_key_vdpf residue_env 2 16))"
    by (simp add: two_key_vdpf_def aes_prg_new_def SEED_SIZE_def)
  have sums: "map (\<lambda>j. bytes_sum 16 (channel_messages j [Broadcast 1 (replicate 16 7), Cover])) [0..<2]
      = [replicate 16 0, replicate 16 7]"
    by code_simp
  show ?thesis
    using two_key_round_delivers[OF residue_crypto.crypto_axioms V,
        of "[Broadcast 1 (replicate 16 7), Cover]" "[Scalar 3, Scalar 4]" "[10, 20]"]
    unfolding sums by (simp add: vec_valid_def jubjub_order_eq)
qed

text \<open>A round of the protocol with any number of servers over the curve group: messages are vectors of
  curve points, added pointwise.\<close>

theorem multi_key_round_delivers:
  assumes "crypto env validR frv validQ" "multi_key_vdpf env channels groups msg_size r = (V, r')"
    and "2 \<le> groups" "0 < channels"
    and acts: "list_all (action_valid (vec_valid (\<lambda>p. validQ (point_inner p)) (msg_size div 32 + 1)) channels) acts"
    and "vec_valid (\<lambda>k. validR (scalar_inner k)) channels keys" "length rs = length acts"
  shows "\<exists>clients. all_clients (wrapper_protocol V) keys acts rs = Some clients
    \<and> list_all (\<lambda>tokens. audit_verdicts (wrapper_protocol V) keys tokens = Some (replicate groups True)) clients
    \<and> (\<forall>inboxes. delivered groups clients inboxes \<longrightarrow>
        round_result (wrapper_protocol V) (ev_acc (curve_exp (env_sp env))) inboxes
          = Some (map (\<lambda>j. fold_add (vec_monoid (curve_exp (env_sp env)) (msg_size div 32 + 1)) (channel_messages j acts))
              [0..<channels]))"
proof -
  obtain validK out where R: "protocol_round V (vec_valid (\<lambda>p. validQ (point_inner p)) (msg_size div 32 + 1))
      (\<lambda>k. validR (scalar_inner k)) (vec_monoid (curve_exp (env_sp env)) (msg_size div 32 + 1)) validK out
      (ev_acc (curve_exp (env_sp env))) (Some (msg_size div 32 + 1))"
    and V: "dpf_points V = channels" "dpf_keys V = groups"
    using crypto.multi_key_vdpf_round[OF assms(1-4)] by blast
  show ?thesis
    using protocol_round.round_run[OF R, of acts keys rs] assms(5-7) V by simp
qed

theorem multi_key_round_delivers_witness:
  "\<exists>clients. all_clients (wrapper_protocol (fst (multi_key_vdpf residue_env 2 3 16 1))) [Scalar 3, Scalar 4]
      [Broadcast 1 [CurvePoint 5], Cover, Broadcast 1 [CurvePoint 6]] [10, 20, 30] = Some clients
    \<and> list_all (\<lambda>tokens. audit_verdicts (wrapper_protocol (fst (multi_key_vdpf residue_env 2 3 16 1))) [Scalar 3, Scalar 4] tokens
        = Some [True, True, True]) clients
    \<and> (\<forall>inboxes. delivered 3 clients inboxes \<longrightarrow>
        round_result (wrapper_protocol (fst (multi_key_vdpf residue_env 2 3 16 1))) (ev_acc (curve_exp residue_sp)) inboxes
          = Some [[CurvePoint 0], [CurvePoint 11]])"
proof -
  have V: "multi_key_vdpf residue_env 2 3 16 1
      = (fst (multi_key_vdpf residue_env 2 3 16 1), snd (multi_key_vdpf residue_env 2 3 16 1))" by simp
  have sums: "map (\<lambda>j. fold_add (vec_monoid (curve_exp residue_sp) 1)
        (channel_messages j [Broadcast 1 [CurvePoint 5], Cover, Broadcast 1 [CurvePoint 6]])) [0..<2]
      = [[CurvePoint 0], [CurvePoint 11]]"
    by (simp add: numeral_2_eq_2 fold_add_def point_zero_def point_add_def residue_sp_def jubjub_order_eq)
  show ?thesis
    using multi_key_round_delivers[OF residue_crypto.crypto_axioms V,
        of "[Broadcast 1 [CurvePoint 5], Cover, Broadcast 1 [CurvePoint 6]]" "[Scalar 3, Scalar 4]" "[10, 20, 30]"]
    unfolding residue_env_sel
    by (simp add: sums[simplified] vec_valid_def jubjub_order_eq numeral_3_eq_3)
qed

text \<open>A round of the two-server protocol with public keys, whose servers hold the key pairs.\<close>

theorem pub_round_delivers:
  assumes "crypto env validR frv validQ" "two_key_pub_vdpf env channels msg_size = Some V"
    and acts: "list_all (action_valid (\<lambda>b. length b = msg_size) channels) acts"
    and keys: "vec_valid (\<lambda>s. validR (scalar_inner s)) channels privates" "length rs = length acts"
  shows "\<exists>clients. all_clients (wrapper_protocol V) (map (key_pair_from (env_sp env)) privates) acts rs = Some clients
    \<and> list_all (\<lambda>tokens. audit_verdicts (wrapper_protocol V) (map (key_pair_from (env_sp env)) privates) tokens
        = Some [True, True]) clients
    \<and> (\<forall>inboxes. delivered 2 clients inboxes \<longrightarrow>
        round_result (wrapper_protocol V) bytes_acc inboxes
          = Some (map (\<lambda>j. bytes_sum msg_size (channel_messages j acts)) [0..<channels]))"
proof -
  let ?ok = "\<lambda>k. validR (scalar_inner (kp_private k)) \<and> k = key_pair_from (env_sp env) (kp_private k)"
  obtain validK out where R: "protocol_round V (\<lambda>b. length b = msg_size) ?ok
      \<lparr> m_zero = bytes_empty msg_size, m_add = bytes_xor.xor \<rparr> validK out bytes_acc msg_size"
    and V: "dpf_points V = channels" "dpf_keys V = 2"
    using crypto.two_key_pub_vdpf_round[OF assms(1,2)] by blast
  have "fold_add \<lparr> m_zero = bytes_empty msg_size, m_add = bytes_xor.xor \<rparr> (channel_messages j acts)
      = bytes_sum msg_size (channel_messages j acts)" for j
    using protocol_round.channel_messages_valid[OF R acts] by (intro bytes_sum_eq)
  moreover have "vec_valid ?ok channels (map (key_pair_from (env_sp env)) privates)"
    using keys(1) by (auto simp: vec_valid_def list_all_iff key_pair_from_def)
  ultimately show ?thesis
    using protocol_round.round_run[OF R, of acts "map (key_pair_from (env_sp env)) privates" rs] acts keys(2) V
    by (simp add: numeral_2_eq_2)
qed

theorem pub_round_delivers_witness:
  "\<exists>clients. all_clients (wrapper_protocol (the (two_key_pub_vdpf residue_env 2 16)))
      (map (key_pair_from residue_sp) [Scalar 3, Scalar 4]) [Broadcast 0 (replicate 16 9), Cover] [10, 20] = Some clients
    \<and> list_all (\<lambda>tokens. audit_verdicts (wrapper_protocol (the (two_key_pub_vdpf residue_env 2 16)))
        (map (key_pair_from residue_sp) [Scalar 3, Scalar 4]) tokens = Some [True, True]) clients
    \<and> (\<forall>inboxes. delivered 2 clients inboxes \<longrightarrow>
        round_result (wrapper_protocol (the (two_key_pub_vdpf residue_env 2 16))) bytes_acc inboxes
          = Some [replicate 16 9, replicate 16 0])"
proof -
  have V: "two_key_pub_vdpf residue_env 2 16 = Some (the (two_key_pub_vdpf residue_env 2 16))"
    by (simp add: two_key_pub_vdpf_def aes_prg_new_def SEED_SIZE_def)
  have sums: "map (\<lambda>j. bytes_sum 16 (channel_messages j [Broadcast 0 (replicate 16 9), Cover])) [0..<2]
      = [replicate 16 9, replicate 16 0]"
    by code_simp
  show ?thesis
    using pub_round_delivers[OF residue_crypto.crypto_axioms V,
        of "[Broadcast 0 (replicate 16 9), Cover]" "[Scalar 3, Scalar 4]" "[10, 20]"]
    unfolding sums by (simp add: vec_valid_def jubjub_order_eq)
qed

section \<open>Access control\<close>

text \<open>C10. In the two-server protocol with secret keys, both servers accept a broadcast to channel \<open>idx\<close>
  exactly when the client used the access key of that channel.\<close>

theorem two_key_broadcast_accepted_iff:
  assumes "crypto env validR frv validQ" "two_key_vdpf env channels msg_size = Some V"
    and "length msg = msg_size" "idx < channels"
    and "vec_valid (\<lambda>k. validR (scalar_inner k)) channels keys" "validR (scalar_inner key)"
  shows "\<exists>tokens r'. wrapper_broadcast V msg idx key r = Some (tokens, r')
    \<and> audit_verdicts (wrapper_protocol V) keys tokens = Some [key = keys ! idx, key = keys ! idx]"
  using crypto.two_key_broadcast_verdict[OF assms] by blast

theorem two_key_broadcast_accepted_iff_witness:
  "\<exists>tokens r'. wrapper_broadcast (the (two_key_vdpf residue_env 2 16)) (replicate 16 7) 1 (Scalar 3) 10 = Some (tokens, r')
    \<and> audit_verdicts (wrapper_protocol (the (two_key_vdpf residue_env 2 16))) [Scalar 3, Scalar 4] tokens
      = Some [False, False]"
proof -
  have V: "two_key_vdpf residue_env 2 16 = Some (the (two_key_vdpf residue_env 2 16))"
    by (simp add: two_key_vdpf_def aes_prg_new_def SEED_SIZE_def)
  show ?thesis
    using two_key_broadcast_accepted_iff[OF residue_crypto.crypto_axioms V,
        of "replicate 16 7" 1 "[Scalar 3, Scalar 4]" "Scalar 3" 10]
    by (simp add: vec_valid_def jubjub_order_eq)
qed

text \<open>C13. The same with any number of servers over the curve group.\<close>

theorem multi_key_broadcast_accepted_iff:
  assumes "crypto env validR frv validQ" "multi_key_vdpf env channels groups msg_size r = (V, r')" "2 \<le> groups"
    and "vec_valid (\<lambda>p. validQ (point_inner p)) (msg_size div 32 + 1) msg" "idx < channels"
    and "vec_valid (\<lambda>k. validR (scalar_inner k)) channels keys" "validR (scalar_inner key)"
  shows "\<exists>tokens s'. wrapper_broadcast V msg idx key s = Some (tokens, s')
    \<and> audit_verdicts (wrapper_protocol V) keys tokens = Some (replicate groups (key = keys ! idx))"
  using crypto.multi_key_broadcast_verdict[OF assms] by blast

theorem multi_key_broadcast_accepted_iff_witness:
  "\<exists>tokens s'. wrapper_broadcast (fst (multi_key_vdpf residue_env 2 3 16 1)) [CurvePoint 5] 0 (Scalar 4) 10 = Some (tokens, s')
    \<and> audit_verdicts (wrapper_protocol (fst (multi_key_vdpf residue_env 2 3 16 1))) [Scalar 3, Scalar 4] tokens
      = Some [False, False, False]"
proof -
  have V: "multi_key_vdpf residue_env 2 3 16 1
      = (fst (multi_key_vdpf residue_env 2 3 16 1), snd (multi_key_vdpf residue_env 2 3 16 1))" by simp
  show ?thesis
    using multi_key_broadcast_accepted_iff[OF residue_crypto.crypto_axioms V,
        of "[CurvePoint 5]" 0 "[Scalar 3, Scalar 4]" "Scalar 4" 10]
    by (simp add: vec_valid_def jubjub_order_eq numeral_3_eq_3)
qed

text \<open>C14. With public keys the audit does not protect the channels: \<open>check_audit\<close> compares the seeds only. A
  client without any access key that gives both servers the same seeds, flips one bit and attaches the proofs
  of a cover message passes the audit and writes its message to the channel of its choice.\<close>

theorem pub_forged_write:
  assumes "crypto env validR frv validQ" "two_key_pub_vdpf env channels msg_size = Some V"
    and "length msg = msg_size" "idx < channels"
    and "vec_valid (\<lambda>s. validR (scalar_inner s)) channels privates"
    and "length bits = channels" "length seeds = channels" "list_all aes_seed_valid seeds"
    and "vdpf_gen_proofs_noop V r = Some (ps, r')"
  shows "vdpf_audit V (map (key_pair_from (env_sp env)) privates)
      [two_key_key msg bits seeds, two_key_key msg (bits[idx := \<not> bits ! idx]) seeds] ps = Some True
    \<and> dpf_run V [two_key_key msg bits seeds, two_key_key msg (bits[idx := \<not> bits ! idx]) seeds]
      = Some ((replicate channels (bytes_empty msg_size))[idx := msg])"
  using crypto.pub_forged_round[OF assms] .

theorem pub_forged_write_witness:
  "vdpf_audit (the (two_key_pub_vdpf residue_env 2 16)) (map (key_pair_from residue_sp) [Scalar 3, Scalar 4])
      [two_key_key (replicate 16 9) [True, False] [AesSeed (replicate 16 1), AesSeed (replicate 16 2)],
       two_key_key (replicate 16 9) [True, True] [AesSeed (replicate 16 1), AesSeed (replicate 16 2)]]
      (fst (pub_gen_proofs_noop (point_sample (env_random_sp residue_env)) 0)) = Some True
    \<and> dpf_run (the (two_key_pub_vdpf residue_env 2 16))
      [two_key_key (replicate 16 9) [True, False] [AesSeed (replicate 16 1), AesSeed (replicate 16 2)],
       two_key_key (replicate 16 9) [True, True] [AesSeed (replicate 16 1), AesSeed (replicate 16 2)]]
      = Some [replicate 16 0, replicate 16 9]"
proof -
  have V: "two_key_pub_vdpf residue_env 2 16 = Some (the (two_key_pub_vdpf residue_env 2 16))"
    by (simp add: two_key_pub_vdpf_def aes_prg_new_def SEED_SIZE_def)
  have noop: "vdpf_gen_proofs_noop (the (two_key_pub_vdpf residue_env 2 16)) 0
      = Some (fst (pub_gen_proofs_noop (point_sample (env_random_sp residue_env)) 0),
          snd (pub_gen_proofs_noop (point_sample (env_random_sp residue_env)) 0))"
    by (simp add: two_key_pub_vdpf_def aes_prg_new_def SEED_SIZE_def pub_vdpf_ops_def)
  show ?thesis
    using pub_forged_write[OF residue_crypto.crypto_axioms V, of "replicate 16 9" 1 "[Scalar 3, Scalar 4]"
        "[True, False]" "[AesSeed (replicate 16 1), AesSeed (replicate 16 2)]", OF _ _ _ _ _ _ noop]
    by (simp add: vec_valid_def jubjub_order_eq aes_seed_valid_def SEED_SIZE_def bytes_empty_def numeral_2_eq_2)
qed

section \<open>The worker\<close>

text \<open>C15. The last audit share of a client: its token is added to the accumulator, once, the entry of the client is
  removed and all other entries stay. This happens whatever the verdict \<open>b\<close> of the audit is, and the worker reports
  all clients as verified when the number of accumulated tokens is that of the registered clients.\<close>

theorem last_share_accumulates:
  assumes "length (snd (worker_entry ws c)) + 1 = proto_num_parties T" "fst (worker_entry ws c) = Some t"
    and "proto_check_audit T (snd (worker_entry ws c) @ [s]) = Some b"
    and "proto_to_accumulator T t = Some v" "length v = proto_num_channels T"
    and "acc_combine (vec_acc A) (acc_state (ws_accumulator ws)) v = Some v'"
  shows "\<exists>ws'. worker_verify T A c s ws = Some (Inr (verify_report (acc_count (ws_accumulator ws) + 1) ws'), ws')
    \<and> ws_accumulator ws' = \<lparr> acc_state = v', acc_count = acc_count (ws_accumulator ws) + 1 \<rparr>
    \<and> (\<forall>d. worker_entry ws' d = (if d = c then (None, []) else worker_entry ws d))
    \<and> ws_experiment ws' = ws_experiment ws \<and> ws_client_registry ws' = ws_client_registry ws"
  using worker_verify_last[OF assms] .

theorem last_share_accumulates_witness:
  "\<exists>ws'. worker_verify tiny_protocol bytes_acc 5 (AuditShare False) tiny_worker = Some (Inr (verify_report 1 ws'), ws')
    \<and> ws_accumulator ws' = \<lparr> acc_state = [[7]], acc_count = 1 \<rparr>"
  using last_share_accumulates[of tiny_worker 5 tiny_protocol tiny_token "AuditShare False" False "[[7]]" bytes_acc "[[7]]"] tiny_last_share
  by auto

text \<open>C16. The verdict of the audit has no influence on a worker: with a protocol whose \<open>check_audit\<close> always answers
  \<open>b\<close>, \<open>verify\<close> answers the same and leaves the same state behind. A token that fails its audit is accumulated like any
  other.\<close>

theorem audit_verdict_has_no_effect:
  assumes "\<And>ts. proto_check_audit T ts \<noteq> None"
  shows "worker_verify (T\<lparr> proto_check_audit := \<lambda>_. Some b \<rparr>) A c s ws = worker_verify T A c s ws"
  using verdict_ignored[OF assms] .

theorem audit_verdict_has_no_effect_witness:
  "worker_verify (tiny_protocol\<lparr> proto_check_audit := \<lambda>_. Some True \<rparr>) bytes_acc 5 (AuditShare False) tiny_worker
    = worker_verify (tiny_protocol\<lparr> proto_check_audit := \<lambda>_. Some False \<rparr>) bytes_acc 5 (AuditShare False) tiny_worker"
  using audit_verdict_has_no_effect[of "tiny_protocol\<lparr> proto_check_audit := \<lambda>_. Some False \<rparr>" True bytes_acc 5 "AuditShare False" tiny_worker]
  by simp

text \<open>C17. The registry of audit shares, over any sequence of uploads and shares of any clients: draining a client
  returns its last token and all of its shares in the order of their arrival, and a second drain panics.\<close>

theorem audit_registry_drains_all:
  assumes "audit_entry reg c = (None, [])" "audit.client_tokens_of c es \<noteq> []"
  shows "\<exists>reg'. audit_registry_drain c (audit.run_events es reg)
      = Some (\<lparr> ca_write_token = last (audit.client_tokens_of c es), ca_audit_shares = audit.client_shares_of c es \<rparr>, reg')
    \<and> audit_entry reg' c = (None, []) \<and> audit_registry_drain c reg' = None"
  using audit.drain_after_events[OF assms] .

theorem audit_registry_drains_all_witness:
  "\<exists>reg'. audit_registry_drain 5 (audit.run_events [(5, Inr 11), (6, Inr 12), (5, Inl 7), (5, Inr 13)] (audit_registry_new 2 2))
      = Some (\<lparr> ca_write_token = 7 :: nat, ca_audit_shares = [11 :: nat, 13] \<rparr>, reg')
    \<and> audit_entry reg' 5 = (None, []) \<and> audit_registry_drain 5 reg' = None"
  using audit_registry_drains_all[of "audit_registry_new 2 2" 5 "[(5, Inr 11), (6, Inr 12), (5, Inl 7), (5, Inr 13)]"]
  by (simp add: audit_registry_new_def audit_entry_def audit.client_tokens_of_def audit.client_shares_of_def)

text \<open>The last share of a client whose token is not stored panics, because \<open>drain\<close> unwraps the token. (In a
  round the worker's own share is among those it waits for, and it is made after the token is stored.)\<close>

theorem share_before_token_panics:
  assumes "proto_num_parties T \<le> length (snd (worker_entry ws c)) + 1" "fst (worker_entry ws c) = None"
  shows "worker_verify T A c s ws = None"
  using worker_verify_panics[OF assms] .

theorem share_before_token_panics_witness:
  "worker_verify tiny_protocol bytes_acc 5 (AuditShare True)
    (snd (verify_add 5 (AuditShare True) (the (worker_from_experiment tiny_protocol demo_experiment)))) = None"
proof -
  have "worker_entry (the (worker_from_experiment tiny_protocol demo_experiment)) 5 = (None, [])"
    by (simp add: worker_entry_def worker_from_experiment_def demo_groups audit_registry_new_def audit_entry_def)
  then show ?thesis by (intro share_before_token_panics) simp_all
qed

text \<open>The number of clients of a worker is the number of different clients that registered, however often each
  did, and the shards of a client are those of its last registration.\<close>

theorem client_registration:
  "registry_num_clients (register_clients cs client_registry_new) = card (fst ` set cs)
    \<and> registry_get_peers c (register_clients cs client_registry_new)
      = (case map_of (rev cs) c of None \<Rightarrow> Inl (FailedPrecondition ''Client info not registered.'') | Some shards \<Rightarrow> Inr shards)"
  using register_clients_count[of cs] by (simp add: registry_get_peers_def register_clients_map) (simp add: client_registry_new_def)

section \<open>Aggregation and clients\<close>

text \<open>C18. A leader and the publisher forward exactly once. The task that adds the last share of the expected number releases the
  lock before it takes the sum, so that surplus shares can come in between. Over any sequence of shares that come in and sums
  that are taken: once the expected number of shares is in, one sum has been taken or one task is about to take it, and never
  more; the sum taken is that of the first \<open>m\<close> shares, where \<open>m\<close> counts those that were in when it was taken, at least the
  expected number. Without surplus shares it is the sum of all shares.\<close>

theorem aggregator_forwards_once:
  assumes "accumulatable M valid A params" "vec_valid valid n (acc_state acc)" "list_all (vec_valid valid n) (shares_in es)"
    and "acc_count acc < expected"
  shows "\<exists>sums acc' waiting. aggregate_run A expected (acc, 0) es = Some (sums, acc', waiting)
    \<and> acc_count acc' = acc_count acc + length (shares_in es)
    \<and> length sums + waiting = (if expected \<le> acc_count acc + length (shares_in es) then 1 else 0)
    \<and> (case taken_at expected (acc_count acc) es of
         None \<Rightarrow> sums = []
       | Some m \<Rightarrow> expected \<le> m \<and> m \<le> acc_count acc + length (shares_in es)
           \<and> sums = [foldl (map2 (m_add M)) (acc_state acc) (take (m - acc_count acc) (shares_in es))])
    \<and> (acc_count acc + length (shares_in es) = expected \<longrightarrow>
        set sums \<subseteq> {foldl (map2 (m_add M)) (acc_state acc) (shares_in es)})"
  using accumulatable.aggregate_run_eq[OF assms(1-3), of 0 False expected] taken_at_bounds[of expected "acc_count acc" es] assms(4)
  by (auto split: option.splits)

theorem aggregator_forwards_once_witness:
  "\<exists>acc' waiting. aggregate_run bytes_acc 2 (accumulator_new [[0]], 0) [ShareIn [[1]], SumOut, ShareIn [[2]], ShareIn [[4]], SumOut]
    = Some ([[[7]]], acc', waiting) \<and> waiting = 0"
  using aggregator_forwards_once[OF bytes_accumulator.accumulatable_axioms[of 1],
      of 1 "accumulator_new [[0]]" "[ShareIn [[1]], SumOut, ShareIn [[2]], ShareIn [[4]], SumOut]" 2]
  by (fastforce simp: vec_valid_def accumulator_new_def bytes_xor.xor_def bytes_bitxor_eq numeral_2_eq_2)

text \<open>C11. A client picks one worker of every group: whatever the random choices and the order in which the groups
  are visited, it gets registered workers of pairwise different groups, and of every group that has a worker.\<close>

theorem picks_one_worker_per_group:
  assumes "shard_choice pickr order"
  shows "\<exists>shards r'. pick_worker_shards order pickr nodes r = Some (shards, r') \<and> set shards \<subseteq> set nodes
    \<and> (\<exists>ws. map node_worker shards = map Some ws \<and> distinct (map worker_group ws)
        \<and> worker_group ` set ws = {worker_group w | w n. n \<in> set nodes \<and> node_worker n = Some w})"
  using shard_choice.pick_worker_shards_ok[OF assms] .

theorem picks_one_worker_per_group_witness:
  "\<exists>shards r'. pick_worker_shards (\<lambda>gs. gs) choose_nth
      [\<lparr> node_service = Worker (demo_worker 0 0) :: (nat, nat) service, node_addr = ''a'' \<rparr>,
       \<lparr> node_service = Publisher PublisherInfo, node_addr = ''b'' \<rparr>] 7 = Some (shards, r')
    \<and> (\<exists>ws. map node_worker shards = map Some ws \<and> distinct (map worker_group ws)
        \<and> worker_group ` set ws = {\<lparr> group_idx = 0 \<rparr>})"
proof -
  have groups: "{worker_group w | w n. n \<in> set [\<lparr> node_service = Worker (demo_worker 0 0) :: (nat, nat) service, node_addr = ''a'' \<rparr>,
       \<lparr> node_service = Publisher PublisherInfo, node_addr = ''b'' \<rparr>] \<and> node_worker n = Some w} = {\<lparr> group_idx = 0 \<rparr>}"
    by (force simp: node_worker_def demo_worker_def)
  show ?thesis
    using picks_one_worker_per_group[OF shards_nth.shard_choice_axioms,
        of "[\<lparr> node_service = Worker (demo_worker 0 0) :: (nat, nat) service, node_addr = ''a'' \<rparr>,
           \<lparr> node_service = Publisher PublisherInfo, node_addr = ''b'' \<rparr>]" 7]
    unfolding groups by blast
qed

text \<open>C37. Connecting to a worker makes at most ten attempts and uses the first that succeeds.\<close>

theorem client_connects_within_ten:
  "client_connect attempt = Inr c \<longleftrightarrow> (\<exists>k < 10. attempt k = Inr c \<and> (\<forall>j < k. \<exists>e. attempt j = Inl e))"
  using connect_loop_first[of 0 attempt c] by (simp add: client_connect_def)

theorem client_connects_within_ten_witness:
  "client_connect (\<lambda>n. if n < 9 then Inl ''refused'' else Inr n) = Inr (9 :: nat)"
  by (subst client_connects_within_ten) (intro exI[of _ 9], simp)

section \<open>Configuration and discovery\<close>

text \<open>C12. The etcd store implements a finite map. Over any service that keeps its contract (range requests for keys that are not
  empty return what was put), on keys whose components have no slash and which are not empty: reading after a write returns the
  value written or the old entry of another key, and listing a prefix, whether or not it is itself a key, returns the entries
  strictly below it, each once. The in-memory store with the same entries lists these and, unlike etcd, the entry of the
  prefix itself.\<close>

theorem etcd_implements_map:
  assumes "etcd_service K contents" "etcd_service.etcd_wf contents c" "path_key k" "path_key k'"
  shows "\<exists>c'. etcd_put K c k v = Inr c' \<and> etcd_service.etcd_wf contents c'
    \<and> etcd_service.etcd_entries contents c' = (etcd_service.etcd_entries contents c)(k \<mapsto> v)
    \<and> etcd_get K c' k' = Some (Inr (if k' = k then Some v else etcd_service.etcd_entries contents c k'))
    \<and> (\<exists>es. etcd_list K c' k' = Inr es \<and> distinct (map fst es)
        \<and> set es = {(l, u). etcd_service.etcd_entries contents c' l = Some u \<and> strict_prefix k' l}
        \<and> (\<forall>iter st. hash_order iter \<and> distinct (map fst (im_map st)) \<and> map_of (im_map st) = etcd_service.etcd_entries contents c' \<longrightarrow>
            (\<exists>es'. inmem_list iter st k' = Inr es' \<and> set es' = set es \<union> {(k', u) | u. etcd_service.etcd_entries contents c' k' = Some u})))"
  using etcd_service.etcd_map[OF assms] .

theorem etcd_implements_map_witness:
  "\<exists>c'. etcd_put list_kv [] [''experiment'', ''config''] ''x'' = Inr c'
    \<and> etcd_get list_kv c' [''experiment'', ''config''] = Some (Inr (Some ''x''))
    \<and> (\<exists>es. etcd_list list_kv c' [''experiment'', ''config''] = Inr es \<and> ([''experiment'', ''config''], ''x'') \<notin> set es)"
proof -
  have "etcd_service.etcd_wf map_of []" "path_key [''experiment'', ''config'']"
    by (simp_all add: list_etcd.etcd_wf_def path_key_def)
  then show ?thesis
    using etcd_implements_map[OF list_etcd.etcd_service_axioms, of "[]" "[''experiment'', ''config'']" "[''experiment'', ''config'']" "''x''"]
    by auto
qed

text \<open>C22. Discovery over the in-memory store, whatever the order in which its hash map iterates, and over any etcd
  service: after the registration of nodes with different services in an empty store, \<open>resolve_all\<close> returns exactly the
  registered nodes, each once.\<close>

theorem register_resolve:
  fixes ns :: "('fr, 'sp) node list"
  assumes "hash_order iter" "etcd_service K contents" "contents c = (\<lambda>_. None)"
    and "list_all (\<lambda>n. to_config_key (node_service n) \<noteq> None) ns" "distinct (map node_service ns)"
  shows "(\<exists>st. register_all (inmem_ops iter) inmem_new ns = Some (Inr st)
      \<and> (\<exists>res. resolve_all (inmem_ops iter) st = Some (Inr res) \<and> distinct res \<and> set res = set ns))
    \<and> (\<exists>st. register_all (etcd_ops K) c ns = Some (Inr st)
      \<and> (\<exists>res. resolve_all (etcd_ops K) st = Some (Inr res) \<and> distinct res \<and> set res = set ns))"
proof
  have keys: "list_all (\<lambda>n. \<exists>k. to_config_key (node_service n) = Some k) ns" using assms(4) by (auto simp: list_all_iff)
  show "\<exists>st. register_all (inmem_ops iter) inmem_new ns = Some (Inr st)
      \<and> (\<exists>res. resolve_all (inmem_ops iter) st = Some (Inr res) \<and> distinct res \<and> set res = set ns)"
    using discovery_store.register_resolve_all[OF inmem_discovery_store[OF assms(1)] _ _ keys assms(5), of inmem_new]
    by (simp add: inmem_new_def)
  show "\<exists>st. register_all (etcd_ops K) c ns = Some (Inr st)
      \<and> (\<exists>res. resolve_all (etcd_ops K) st = Some (Inr res) \<and> distinct res \<and> set res = set ns)"
    using discovery_store.register_resolve_all[OF etcd_service.etcd_discovery_store[OF assms(2)] _ _ keys assms(5), of c]
      etcd_service.etcd_empty[OF assms(2,3)] by simp
qed

theorem register_resolve_witness:
  "(\<exists>st. register_all (inmem_ops rev) inmem_new [\<lparr> node_service = Worker (demo_worker 0 0) :: (nat, nat) service, node_addr = ''a'' \<rparr>]
        = Some (Inr st)
      \<and> (\<exists>res. resolve_all (inmem_ops rev) st = Some (Inr res) \<and> distinct res
          \<and> set res = {\<lparr> node_service = Worker (demo_worker 0 0) :: (nat, nat) service, node_addr = ''a'' \<rparr>}))
    \<and> (\<exists>st. register_all (etcd_ops list_kv) [] [\<lparr> node_service = Worker (demo_worker 0 0) :: (nat, nat) service, node_addr = ''a'' \<rparr>]
        = Some (Inr st)
      \<and> (\<exists>res. resolve_all (etcd_ops list_kv) st = Some (Inr res) \<and> distinct res
          \<and> set res = {\<lparr> node_service = Worker (demo_worker 0 0) :: (nat, nat) service, node_addr = ''a'' \<rparr>}))"
  using register_resolve[OF hash_order_rev list_etcd.etcd_service_axioms, of "[]"
      "[\<lparr> node_service = Worker (demo_worker 0 0) :: (nat, nat) service, node_addr = ''a'' \<rparr>]"]
  by (simp add: to_config_key_def)

text \<open>C23. Quorum. After the registration of nodes in an empty etcd store there is a quorum for the experiment exactly
  when the registered services are those of the experiment: none missing and none else.\<close>

theorem quorum_iff_all_services:
  fixes e :: "('r, 'fr, 'sp) experiment_spec" and ns :: "('fr, 'sp) node list"
  assumes "etcd_service K contents" "contents c = (\<lambda>_. None)" "iter_services e = Some services"
    and "list_all (\<lambda>n. to_config_key (node_service n) \<noteq> None) ns" "distinct (map node_service ns)"
  shows "\<exists>st res. register_all (etcd_ops K) c ns = Some (Inr st) \<and> has_quorum (etcd_ops K) debug st e = Some res
    \<and> (res = Inr () \<longleftrightarrow> set (map node_service ns) = set services)"
proof -
  have "nodes_only ({} :: ('fr, 'sp) service set) (etcd_service.etcd_entries contents c)"
    using etcd_service.etcd_empty[OF assms(1,2)] by (simp add: nodes_only_def)
  moreover have "list_all (\<lambda>n. \<exists>k. to_config_key (node_service n) = Some k) ns" using assms(4) by (auto simp: list_all_iff)
  ultimately show ?thesis
    using discovery_store.quorum_after_register[OF etcd_service.etcd_discovery_store[OF assms(1)], of c e services ns debug]
      etcd_service.etcd_empty[OF assms(1,2)] assms(3,5) by blast
qed

theorem quorum_iff_all_services_witness:
  "\<exists>st res. register_all (etcd_ops list_kv) [] (map (\<lambda>s. \<lparr> node_service = s, node_addr = ''a'' \<rparr>) demo_services) = Some (Inr st)
    \<and> has_quorum (etcd_ops list_kv) (\<lambda>_. '''') st demo_experiment = Some res \<and> res = Inr ()"
proof -
  have s: "set demo_services = {Publisher PublisherInfo}
      \<union> {Worker w | w. group_idx (worker_group w) < 2 \<and> worker_idx w < ex_group_size demo_experiment}
      \<union> {Leader l | l. \<not> ex_hammer demo_experiment \<and> group_idx (leader_group l) < 2}" "distinct demo_services"
    using iter_services_set[OF demo_ok(2,3)] iter_services_distinct[OF demo_ok(2,3)] by simp_all
  then have "list_all (\<lambda>n. to_config_key (node_service n) \<noteq> None) (map (\<lambda>s. \<lparr> node_service = s, node_addr = ''a'' \<rparr>) demo_services)"
    by (auto simp: list_all_iff to_config_key_def)
  then show ?thesis
    using quorum_iff_all_services[OF list_etcd.etcd_service_axioms _ demo_ok(2),
        of "[]" "map (\<lambda>s. \<lparr> node_service = s, node_addr = ''a'' \<rparr>) demo_services" "\<lambda>_. ''''"] s(2)
    by (auto simp: comp_def)
qed

text \<open>C24. Waiting for the quorum ends after the fixed number of attempts, and succeeds exactly when one of the stores
  seen by these attempts has a quorum. This holds for every retry loop that calls the attempt again while the policy says
  so.\<close>

theorem wait_for_quorum_bounded:
  assumes "future_retry retry" "\<And>n. has_quorum S debug (config n) e \<noteq> None"
  shows "\<exists>res. wait_for_quorum retry S debug config e = Some res
    \<and> (res = Inr () \<longleftrightarrow> (\<exists>k < RETRY_ATTEMPTS. has_quorum S debug (config k) e = Some (Inr ())))"
proof -
  have pos: "0 < RETRY_ATTEMPTS" by (simp add: RETRY_ATTEMPTS_def)
  let ?run = "retry (\<lambda>n. has_quorum S debug (config n) e) (error_policy RETRY_DELAY RETRY_ATTEMPTS) RETRY_ATTEMPTS"
  have "(\<exists>x. ?run = Some (Inr x)) \<longleftrightarrow> (\<exists>k < RETRY_ATTEMPTS. \<exists>x. has_quorum S debug (config k) e = Some (Inr x))"
    by (rule future_retry.retry_result[OF assms(1) pos assms(2)])
  moreover have "?run \<noteq> None" by (rule future_retry.retry_returns[OF assms(1) pos assms(2)])
  moreover have "wait_for_quorum retry S debug config e = ?run"
    using pos by (simp add: wait_for_quorum_def wait_for_quorum_helper_def error_policy_new_def)
  ultimately show ?thesis by (auto simp: unit_eq)
qed

theorem wait_for_quorum_bounded_witness:
  "\<exists>res. wait_for_quorum run_retry (inmem_ops (\<lambda>m. m)) (\<lambda>_. '''') (\<lambda>_. inmem_new) demo_experiment = Some res
    \<and> (res = Inr () \<longleftrightarrow> (\<exists>k < RETRY_ATTEMPTS. has_quorum (inmem_ops (\<lambda>m. m)) (\<lambda>_. '''') inmem_new demo_experiment = Some (Inr ())))"
proof -
  have "nodes_only ({} :: (nat, nat) service set) (map_of (im_map inmem_new))" by (simp add: nodes_only_def inmem_new_def)
  then have "has_quorum (inmem_ops (\<lambda>m. m)) (\<lambda>_. '''') inmem_new demo_experiment \<noteq> None"
    using inmem_discovery.has_quorum_iff[of inmem_new "{}" demo_experiment demo_services "\<lambda>_. ''''"] demo_ok(2)
    by (auto simp: inmem_new_def)
  then show ?thesis
    using wait_for_quorum_bounded[OF run_retry.future_retry_axioms, of "inmem_ops (\<lambda>m. m)" "\<lambda>_. ''''" "\<lambda>_. inmem_new" demo_experiment]
    by blast
qed

text \<open>The specification of a store selects the in-memory store exactly for the empty string and for \<open>mem://\<close>, and
  connects to etcd exactly for a string of the form \<open>etcd://address\<close>, at that address over HTTP.\<close>

theorem store_specification:
  "((\<exists>st. store_from_string connect s = Inr (InMem st)) \<longleftrightarrow> s = '''' \<or> s = ''mem://'')
    \<and> (store_from_string connect s = Inr (Etcd c) \<longleftrightarrow> (\<exists>a. s = ''etcd://'' @ a \<and> connect (''http://'' @ a) = Inr c))"
proof
  show "(\<exists>st. store_from_string connect s = Inr (InMem st)) \<longleftrightarrow> s = '''' \<or> s = ''mem://''" by (rule store_from_string_mem_iff)
  have split: "split_scheme s = Some (''etcd'', a) \<longleftrightarrow> s = ''etcd://'' @ a" for a
  proof
    assume "s = ''etcd://'' @ a"
    then show "split_scheme s = Some (''etcd'', a)" by simp
  qed (simp add: split_scheme_iff)
  have "store_from_string connect s = Inr (Etcd c)
      \<longleftrightarrow> (\<exists>a. split_scheme s = Some (''etcd'', a) \<and> connect (''http://'' @ a) = Inr c)"
  proof (cases "split_scheme s")
    case (Some p)
    then show ?thesis by (cases p; cases "connect (''http://'' @ snd p)") (auto simp: store_from_string_def)
  qed (simp add: store_from_string_def)
  then show "store_from_string connect s = Inr (Etcd c) \<longleftrightarrow> (\<exists>a. s = ''etcd://'' @ a \<and> connect (''http://'' @ a) = Inr c)"
    unfolding split .
qed

section \<open>Experiments\<close>

text \<open>C38. The programs run the experiment that was set up. \<open>setup\<close> writes the experiment of its arguments to the etcd server
  that the environment names. As long as nothing else overwrites it, every program that is started later with the same
  environment reads that experiment and runs with its protocol: a worker and a leader, started with the command line of
  \<open>run_new_processes\<close>, as that very service, the publisher as the publisher, a broadcaster as a client with the message and the key
  of the client that it was started for but under a number that it draws (so not that of its channel), and a viewer as
  so many clients without a message as it has threads, under numbers that it draws; it ends without a panic exactly if they all succeed.\<close>

theorem programs_run_experiment:
  fixes c0 :: 'c and connect :: "string \<Rightarrow> string + 'c"
  assumes "etcd_service K contents" "connect (''http://'' @ addr) = Inr c0" "etcd_service.etcd_wf contents c0"
    and "experiment_from_args env args r = Some (e, r')" "to_json e = Inr json" "from_json json = Inr e"
    and "host_net host nargs = Some net"
  shows "\<exists>c. setup_main env (wrapper_store_ops (inmem_ops iter) (etcd_ops K)) connect to_json (Some (''etcd://'' @ addr)) args r
      = Some (Inr (Etcd c)) \<and> etcd_service.etcd_wf contents c
    \<and> (\<forall>c' connect'. etcd_service.etcd_wf contents c' \<longrightarrow> connect' (''http://'' @ addr) = Inr c' \<longrightarrow>
        etcd_service.etcd_entries contents c' [''experiment'', ''config''] = etcd_service.etcd_entries contents c [''experiment'', ''config''] \<longrightarrow>
        (\<forall>w cmd files. service_command key_json dir (Worker w) = Some (cmd, files) \<longrightarrow>
          (\<exists>g i. cmd_args cmd = [''--log-level'', ''info'', ''--group'', nat_to_string (unat g), ''--index'', nat_to_string (unat i)]
            \<and> worker_main wruns (wrapper_store_ops (inmem_ops iter) (etcd_ops K)) connect' from_json (Some (''etcd://'' @ addr)) host nargs g i
              = worker_run wruns (Etcd c') e (ex_protocol e) w net))
        \<and> (\<forall>l cmd files. service_command key_json dir (Leader l) = Some (cmd, files) \<longrightarrow>
          (\<exists>g. cmd_args cmd = [''--log-level'', ''info'', ''--group'', nat_to_string (unat g)]
            \<and> leader_main lruns (wrapper_store_ops (inmem_ops iter) (etcd_ops K)) connect' from_json (Some (''etcd://'' @ addr)) host nargs g
              = leader_run lruns (Etcd c') e (ex_protocol e) l net))
        \<and> publisher_main pruns (wrapper_store_ops (inmem_ops iter) (etcd_ops K)) connect' from_json (Some (''etcd://'' @ addr)) host nargs delay_ms
            = publisher_run pruns (Etcd c') (ex_protocol e) PublisherInfo net None delay_ms
        \<and> (\<forall>info msg key cmd files random. client_broadcast info = Some (msg, key) \<longrightarrow>
          service_command key_json dir (Client info) = Some (cmd, files) \<longrightarrow>
          (\<forall>(file, b) \<in> set files. read_file file = Inr b) \<longrightarrow> key_from_json (key_json key) = Inr key \<longrightarrow>
          (\<exists>key_file msg_file. cmd_program cmd = ''broadcaster''
            \<and> cmd_args cmd = [''--log-level'', ''info'', ''--key-file'', key_file, ''--message-file'', msg_file]
            \<and> broadcaster_main cruns (wrapper_store_ops (inmem_ops iter) (etcd_ops K)) connect' from_json (Some (''etcd://'' @ addr)) read_file
                key_from_json \<lparr> ba_msg = None, ba_msg_file = Some msg_file, ba_key_file = key_file \<rparr> max_jitter random
              = viewer_run cruns (Etcd c') (ex_protocol e) (new_broadcaster random msg key) (ex_hammer e) None max_jitter))
        \<and> (\<forall>threads cert (draw :: ('rng, u128) sampler) s.
            viewer_main vruns (wrapper_store_ops (inmem_ops iter) (etcd_ops K)) connect' from_json (Some (''etcd://'' @ addr)) (Some cert)
              max_jitter threads draw s = Some ()
            \<longleftrightarrow> (\<forall>idx \<in> set (fst (repeat_with_take draw (unat threads) s)).
              viewer_run vruns (Etcd c') (ex_protocol e) (client_info_new idx) (ex_hammer e) cert max_jitter = Some (Inr ()))))"
proof -
  obtain c where c: "setup_main env (wrapper_store_ops (inmem_ops iter) (etcd_ops K)) connect to_json (Some (''etcd://'' @ addr)) args r
      = Some (Inr (Etcd c))"
    "etcd_service.etcd_entries contents c [''experiment'', ''config''] = Some json" "etcd_service.etcd_wf contents c"
    using etcd_service.setup_main_ok[OF assms(1), where connect = connect and addr = addr and c = c0 and env = env and e = e
        and to_json = to_json and json = json and iter = iter] assms(2-5) by blast
  show ?thesis
  proof (intro exI[of _ c] conjI allI impI)
    fix c' and connect' :: "string \<Rightarrow> string + 'c"
    assume c': "etcd_service.etcd_wf contents c'" "connect' (''http://'' @ addr) = Inr c'"
      "etcd_service.etcd_entries contents c' [''experiment'', ''config''] = etcd_service.etcd_entries contents c [''experiment'', ''config'']"
    then have "etcd_service.etcd_entries contents c' [''experiment'', ''config''] = Some json" using c(2) by simp
    with c'(1,2) assms(6) have main: "main_experiment (wrapper_store_ops (inmem_ops iter) (etcd_ops K)) connect' from_json
        (Some (''etcd://'' @ addr)) = Some (Inr (Etcd c', e))"
      using etcd_service.main_experiment_reads[OF assms(1), where connect = connect' and c = c' and from_json = from_json] by blast
    show "publisher_main pruns (wrapper_store_ops (inmem_ops iter) (etcd_ops K)) connect' from_json (Some (''etcd://'' @ addr)) host nargs delay_ms
        = publisher_run pruns (Etcd c') (ex_protocol e) PublisherInfo net None delay_ms"
      by (rule programs_run(3)[OF main assms(7)])
    show "\<exists>g i. cmd_args cmd = [''--log-level'', ''info'', ''--group'', nat_to_string (unat g), ''--index'', nat_to_string (unat i)]
        \<and> worker_main wruns (wrapper_store_ops (inmem_ops iter) (etcd_ops K)) connect' from_json (Some (''etcd://'' @ addr)) host nargs g i
          = worker_run wruns (Etcd c') e (ex_protocol e) w net"
      if "service_command key_json dir (Worker w) = Some (cmd, files)" for w cmd files
      by (rule programs_run(1)[OF main assms(7) that])
    show "\<exists>g. cmd_args cmd = [''--log-level'', ''info'', ''--group'', nat_to_string (unat g)]
        \<and> leader_main lruns (wrapper_store_ops (inmem_ops iter) (etcd_ops K)) connect' from_json (Some (''etcd://'' @ addr)) host nargs g
          = leader_run lruns (Etcd c') e (ex_protocol e) l net"
      if "service_command key_json dir (Leader l) = Some (cmd, files)" for l cmd files
      by (rule programs_run(2)[OF main assms(7) that])
    show "\<exists>key_file msg_file. cmd_program cmd = ''broadcaster''
        \<and> cmd_args cmd = [''--log-level'', ''info'', ''--key-file'', key_file, ''--message-file'', msg_file]
        \<and> broadcaster_main cruns (wrapper_store_ops (inmem_ops iter) (etcd_ops K)) connect' from_json (Some (''etcd://'' @ addr)) read_file
            key_from_json \<lparr> ba_msg = None, ba_msg_file = Some msg_file, ba_key_file = key_file \<rparr> max_jitter random
          = viewer_run cruns (Etcd c') (ex_protocol e) (new_broadcaster random msg key) (ex_hammer e) None max_jitter"
      if given: "client_broadcast info = Some (msg, key)" "service_command key_json dir (Client info) = Some (cmd, files)"
        "\<forall>(file, b) \<in> set files. read_file file = Inr b" "key_from_json (key_json key) = Inr key" for info msg key cmd files random
    proof -
      obtain key_file msg_file where "cmd_program cmd = ''broadcaster''"
          "cmd_args cmd = [''--log-level'', ''info'', ''--key-file'', key_file, ''--message-file'', msg_file]"
          and args: "broadcaster_from_args read_file key_from_json \<lparr> ba_msg = None, ba_msg_file = Some msg_file, ba_key_file = key_file \<rparr> random
            = Inr (new_broadcaster random msg key)"
        using broadcaster_command_words[where key_from_json = key_from_json and key_json = key_json and key = key and random = random, OF given]
        by (elim exE conjE)
      with clients_run(1)[OF main args] show ?thesis by (intro exI conjI)
    qed
    show "viewer_main vruns (wrapper_store_ops (inmem_ops iter) (etcd_ops K)) connect' from_json (Some (''etcd://'' @ addr)) (Some cert)
          max_jitter threads draw s = Some ()
        \<longleftrightarrow> (\<forall>idx \<in> set (fst (repeat_with_take draw (unat threads) s)).
          viewer_run vruns (Etcd c') (ex_protocol e) (client_info_new idx) (ex_hammer e) cert max_jitter = Some (Inr ()))"
      for threads cert s and draw :: "('rng, u128) sampler"
      by (rule clients_run(2)[OF main])
  qed (rule c(1,3))+
qed

text \<open>The host, arguments and results of a concrete run.\<close>

definition demo_host :: "(unit, unit) host" where
  "demo_host = \<lparr> host_free_port = Some 8080, host_read_file = (\<lambda>_. None), host_ident_from_pem = (\<lambda>_ _. ()), host_cert_from_pem = (\<lambda>_. ()) \<rparr>"

definition demo_net_args :: net_args where
  "demo_net_args = \<lparr> na_local_port = None, na_public_addr = None,
     na_tls = \<lparr> tls_cert_file = None, tls_key_file = None, tls_ca_file = None \<rparr> \<rparr>"

definition demo_runs :: "('r, 'fr, 'sp, 'a, (string + bool) option) inner_runs" where
  "demo_runs = \<lparr> run_secure = (\<lambda>_ _. Some (Inr True)), run_secure_pub = (\<lambda>_ _. None), run_secure_multi_key = (\<lambda>_ _. None) \<rparr>"

definition demo_client_runs :: "('r, 'fr, 'sp, 'a, (string + unit) option) inner_runs" where
  "demo_client_runs = \<lparr> run_secure = (\<lambda>_ _. Some (Inr ())), run_secure_pub = (\<lambda>_ _. Some (Inr ())),
     run_secure_multi_key = (\<lambda>_ _. Some (Inr ())) \<rparr>"

theorem programs_run_experiment_witness:
  "\<exists>e r' c. experiment_from_args residue_env demo_args 10 = Some (e, r')
    \<and> setup_main residue_env (wrapper_store_ops (inmem_ops rev) (etcd_ops list_kv)) (\<lambda>_. Inr []) (\<lambda>_. Inr ''demo'') (Some ''etcd://host'') demo_args 10
      = Some (Inr (Etcd c))
    \<and> publisher_main demo_runs
        (wrapper_store_ops (inmem_ops rev) (etcd_ops list_kv)) (\<lambda>_. Inr c) (\<lambda>_. Inr e) (Some ''etcd://host'') demo_host demo_net_args 5000
      = publisher_run demo_runs
        (Etcd c :: (inmem_store, (string \<times> string) list) store_wrapper) (ex_protocol e) PublisherInfo
        (net_new_localhost 8080 None :: (unit, unit) net_config) (None :: nat option) 5000
    \<and> viewer_main (demo_client_runs :: (nat, nat, nat, (inmem_store, (string \<times> string) list) store_wrapper \<times> (nat, nat) client_info \<times> bool
          \<times> unit option \<times> u64, (string + unit) option) inner_runs)
        (wrapper_store_ops (inmem_ops rev) (etcd_ops list_kv)) (\<lambda>_. Inr c) (\<lambda>_. Inr e) (Some ''etcd://host'')
        (Some None) 100 3 (\<lambda>s. (of_nat s, s + 1)) (0 :: nat) = Some ()"
proof -
  have "\<exists>e r'. experiment_from_args residue_env demo_args 10 = Some (e, r')"
    unfolding experiment_from_args_exists by (simp add: demo_args_def SEED_SIZE_def)
  then obtain e r' where e: "experiment_from_args residue_env demo_args 10 = Some (e, r')" by blast
  have net: "host_net demo_host demo_net_args = Some (net_new_localhost 8080 None)"
    by (simp add: host_net_def demo_host_def demo_net_args_def net_from_args_def tls_from_args_def net_with_free_port_localhost_def)
  let ?runs = "demo_client_runs :: (nat, nat, nat, (inmem_store, (string \<times> string) list) store_wrapper \<times> (nat, nat) client_info \<times> bool
      \<times> unit option \<times> u64, (string + unit) option) inner_runs"
  have "list_etcd.etcd_wf []" by (simp add: list_etcd.etcd_wf_def)
  from programs_run_experiment[where 'rng = nat and connect = "\<lambda>_. Inr []" and addr = "''host''" and to_json = "\<lambda>_. Inr ''demo''"
      and from_json = "\<lambda>_. Inr e" and json = "''demo''" and iter = rev and delay_ms = 5000
      and pruns = demo_runs and wruns = demo_runs and lruns = demo_runs and key_json = "\<lambda>_. []" and dir = "''d''"
      and cruns = ?runs and vruns = ?runs and read_file = "\<lambda>_. Inl ''''" and key_from_json = "\<lambda>_. Inl ''''" and max_jitter = 100,
      OF list_etcd.etcd_service_axioms refl this e refl refl net]
  show ?thesis
  proof (elim exE conjE, goal_cases)
    case (1 c)
    note run = mp[OF mp[OF mp[OF spec[OF spec[OF 1(3), of c], of "\<lambda>_. Inr c"] 1(2)] refl] refl]
    have "viewer_run ?runs config p info h cert j = Some (Inr ())" for config p info h cert j
      by (simp add: viewer_run_def demo_client_runs_def split: protocol_wrapper.splits)
    then have "viewer_main ?runs (wrapper_store_ops (inmem_ops rev) (etcd_ops list_kv)) (\<lambda>_. Inr c) (\<lambda>_. Inr e) (Some ''etcd://host'')
        (Some None) 100 3 (\<lambda>s. (of_nat s, s + 1)) (0 :: nat) = Some ()"
      using run[THEN conjunct2, THEN conjunct2, THEN conjunct2, THEN conjunct2] by simp
    with run[THEN conjunct2, THEN conjunct2, THEN conjunct1] 1(1) e show ?case by auto
  qed
qed

text \<open>An experiment survives the store: what is written is read back, by any process, and neither the nodes in
  the store nor their registration is affected. The text of the experiment is that of the JSON library.\<close>

theorem experiment_survives_store:
  fixes e :: "('r, 'fr, 'sp) experiment_spec"
  assumes "etcd_service K contents" "etcd_service.etcd_wf contents c" "to_json e = Inr s" "from_json s = Inr e"
  shows "\<exists>c'. write_to_store (etcd_ops K) to_json c e = Inr c' \<and> read_from_store (etcd_ops K) from_json c' = Some (Inr e)
    \<and> store_nodes (etcd_service.etcd_entries contents c')
      = (store_nodes (etcd_service.etcd_entries contents c) :: ('fr, 'sp) node set)"
  using discovery_store.experiment_roundtrip[OF etcd_service.etcd_discovery_store[OF assms(1)] assms(2), of to_json e s from_json] assms(3,4)
  by blast

text \<open>The services of an experiment: the publisher, the workers of every group and index below the sizes, and
  a leader for every group unless the experiment hammers the workers; each exactly once.\<close>

theorem services_of_experiment:
  fixes e :: "('r, 'fr, 'sp) experiment_spec"
  assumes "wrapper_num_parties (ex_protocol e) < 2 ^ 16"
  shows "\<exists>ss n. iter_services e = Some ss \<and> unat n = wrapper_num_parties (ex_protocol e) \<and> distinct ss
    \<and> length ss = 1 + unat n * unat (ex_group_size e) + (if ex_hammer e then 0 else unat n)
    \<and> set ss = {Publisher PublisherInfo}
      \<union> {Worker w | w. group_idx (worker_group w) < n \<and> worker_idx w < ex_group_size e}
      \<union> {Leader l | l. \<not> ex_hammer e \<and> group_idx (leader_group l) < n}"
proof -
  obtain n where n: "experiment_groups e = Some n" "unat n = wrapper_num_parties (ex_protocol e)"
    using experiment_groups_eq[OF assms] by blast
  note ss = demo_services_ok[OF n(1)]
  show ?thesis
    using ss n(2) iter_services_distinct[OF ss n(1)] iter_services_count[OF ss n(1)] iter_services_set[OF ss n(1)] by blast
qed

theorem services_of_experiment_witness:
  "\<exists>ss. iter_services demo_experiment = Some ss \<and> distinct ss \<and> length ss = 7"
proof -
  have "unat n = 2 \<Longrightarrow> 1 + unat n * unat (2 :: u16) + unat n = 7" for n :: u16 by simp
  moreover have p: "wrapper_num_parties (ex_protocol demo_experiment) = 2"
    using two_key_vdpf_sizes[OF demo_vdpf] by (simp add: demo_experiment_def)
  ultimately show ?thesis
    using services_of_experiment[of demo_experiment] by (auto simp: demo_experiment_def)
qed

text \<open>The clients of an experiment that its constructor accepts: one for every channel and at least as many as
  configured, with consecutive indices; client \<open>i\<close> broadcasts with the key of channel \<open>i\<close> if there is such a channel, and
  only views otherwise.\<close>

theorem clients_of_experiment:
  assumes "experiment_new protocol group_size clients hammer keys = Some e"
  shows "\<exists>cs. iter_clients e = map Client cs
    \<and> map client_idx cs = map of_nat [0..<max (length keys) (unat clients)]
    \<and> (\<forall>i < length cs. client_broadcast (cs ! i)
        = (if i < length keys then Some (broadcaster_msg e i, keys ! i) else None))"
proof -
  have "experiment_valid e" "experiment_channels e = length keys" "ex_clients e = clients" "ex_keys e = keys"
    using assms by (auto simp: experiment_new_iff experiment_valid_def experiment_channels_def)
  then show ?thesis using iter_clients_eq[of e] by simp metis
qed

theorem clients_of_experiment_witness:
  "\<exists>cs. iter_clients demo_experiment = map Client cs \<and> map client_idx cs = [0, 1]"
proof -
  have "map of_nat [0..<max (length (map wrapper_from_auth_key demo_keys)) (unat (2 :: u128))] = [0, 1 :: u128]"
    by (simp add: demo_keys_def upt_rec)
  then show ?thesis using clients_of_experiment[OF demo_ok(1)] by auto
qed

text \<open>C34. Which arguments of the command line give an experiment: security is on; with the multi-key protocol any
  number of groups, otherwise two groups and messages that are at least one seed long; and a group has a worker and there
  is a client. All other arguments panic, those with \<open>--no-security\<close> among them, although its documentation says that it runs the
  insecure protocol. The experiment has the groups, channels, group size, clients and hammering of the arguments; its message size is
  theirs in bytes, but with the multi-key protocol the number of elements of 32 bytes that one byte more needs at least; and, whether
  or not there are as many clients as channels (which the documentation asks for), it lists the greater number of clients.\<close>

theorem experiment_arguments:
  "((\<exists>e r'. experiment_from_args env args r = Some (e, r')) \<longleftrightarrow>
      \<not> arg_no_security args \<and> (arg_security_multi_key_bytes args \<noteq> None \<or> arg_groups args = 2 \<and> SEED_SIZE \<le> arg_msg_size args)
      \<and> 1 \<le> arg_group_size args \<and> 1 \<le> arg_clients args)
    \<and> (experiment_from_args env args r = Some (e, r') \<longrightarrow>
        experiment_valid e \<and> wrapper_num_parties (ex_protocol e) = arg_groups args \<and> experiment_channels e = arg_channels args
        \<and> ex_group_size e = arg_group_size args \<and> ex_clients e = arg_clients args \<and> ex_hammer e = arg_hammer args
        \<and> (is_multi_key (ex_protocol e) \<longleftrightarrow> arg_security_multi_key_bytes args \<noteq> None)
        \<and> experiment_msg_size e = (if arg_security_multi_key_bytes args = None then arg_msg_size args else arg_msg_size args div 32 + 1)
        \<and> length (iter_clients e) = max (arg_channels args) (unat (arg_clients args)))"
  using experiment_from_args_exists[of env args r] experiment_from_args_spec[of env args r e r'] by blast

theorem experiment_arguments_witness:
  "\<exists>e r'. experiment_from_args residue_env demo_args 10 = Some (e, r') \<and> experiment_valid e
    \<and> wrapper_num_parties (ex_protocol e) = 2 \<and> experiment_channels e = 2"
proof -
  have "\<exists>e r'. experiment_from_args residue_env demo_args 10 = Some (e, r')"
    using experiment_arguments[of residue_env demo_args 10] by (simp add: demo_args_def SEED_SIZE_def)
  then obtain e r' where e: "experiment_from_args residue_env demo_args 10 = Some (e, r')" by blast
  then show ?thesis using experiment_arguments[of residue_env demo_args 10 e r'] by (simp add: demo_args_def)
qed

text \<open>C19. The clients that an experiment lists, as \<open>run_in_process\<close> runs them. With a two-server protocol, with secret or with
  public keys, client \<open>i\<close> makes the tokens of a broadcast of its message to channel \<open>i\<close> with the key of that channel, or of cover
  traffic if there is no such channel, and the message has the size of the protocol: what a round assumes of it. With the
  multi-key protocol it makes the tokens of a broadcast of copies of one point, where the crate decodes the bytes of that point;
  but they are only as many as the protocol's number of elements divided by 32 (rounded up), fewer than a message has
  whenever it has more than one element.\<close>

theorem experiment_clients_act:
  assumes "iter_clients e = map Client cs" "i < length cs" "length (ex_keys e) \<le> 2 ^ 64"
  shows "(\<forall>V keys. experiment_new (Secure V) group_size clients hammer (map wrapper_from_auth_key keys) = Some e \<longrightarrow>
        viewer_tokens (wrapper_protocol V) (\<lambda>b. Some (Inr b)) auth_key_try_from (cs ! i) r
          = client_tokens (wrapper_protocol V) keys (if i < length keys then Broadcast i (broadcaster_msg e i) else Cover) r
        \<and> length (broadcaster_msg e i) = dpf_msg_size V)
    \<and> (\<forall>V keys. experiment_new (SecurePub V) group_size clients hammer (map wrapper_from_pub_auth_key keys) = Some e \<longrightarrow>
        viewer_tokens (wrapper_protocol V) (\<lambda>b. Some (Inr b)) pub_auth_key_try_from (cs ! i) r
          = client_tokens (wrapper_protocol V) keys (if i < length keys then Broadcast i (broadcaster_msg e i) else Cover) r
        \<and> length (broadcaster_msg e i) = dpf_msg_size V)
    \<and> (\<forall>V keys Q x. experiment_new (SecureMultiKey V) group_size clients hammer (map wrapper_from_auth_key keys) = Some e \<longrightarrow>
        sp_from_bytes Q good_elem = Some x \<longrightarrow>
        viewer_tokens (wrapper_protocol V) (ev_try_from_bytes (point_try_from_bytes Q)) auth_key_try_from (cs ! i) r
          = client_tokens (wrapper_protocol V) keys
              (if i < length keys then Broadcast i (replicate ((dpf_msg_size V + 31) div 32) (CurvePoint x)) else Cover) r
        \<and> (1 < dpf_msg_size V \<longrightarrow> (dpf_msg_size V + 31) div 32 < dpf_msg_size V))"
proof (intro conjI allI impI, goal_cases)
  case (1 V keys)
  have "length keys \<le> 2 ^ 64" using 1 assms(3) by (auto simp: experiment_new_iff)
  then show ?case by (rule experiment_client_tokens[OF 1 auth_keys.key_wrapping_axioms _ assms(1,2)]) simp
next
  case (2 V keys)
  then show ?case
    using broadcaster_msg_length[of e i] by (auto simp: experiment_new_iff experiment_msg_size_def wrapper_message_len_sel)
next
  case (3 V keys)
  have "length keys \<le> 2 ^ 64" using 3 assms(3) by (auto simp: experiment_new_iff)
  then show ?case by (rule experiment_client_tokens[OF 3 pub_auth_keys.key_wrapping_axioms _ assms(1,2)]) simp
next
  case (4 V keys)
  then show ?case
    using broadcaster_msg_length[of e i] by (auto simp: experiment_new_iff experiment_msg_size_def wrapper_message_len_sel)
next
  case (5 V keys Q x)
  have "length keys \<le> 2 ^ 64" and e: "ex_protocol e = SecureMultiKey V" using 5(1) assms(3) by (auto simp: experiment_new_iff)
  moreover have "ev_try_from_bytes (point_try_from_bytes Q) (broadcaster_msg e i)
      = Some (Inr (replicate ((dpf_msg_size V + 31) div 32) (CurvePoint x)))"
    using multi_key_broadcaster_message[OF _ 5(2), of e i] e by (simp add: experiment_msg_size_def wrapper_message_len_sel)
  ultimately show ?case by (intro experiment_client_tokens[OF 5(1) auth_keys.key_wrapping_axioms _ assms(1,2)]) simp_all
next
  case (6 V keys Q x)
  then show ?case by simp
qed

theorem experiment_clients_act_witness:
  "(\<exists>cs. iter_clients demo_experiment = map Client cs
      \<and> viewer_tokens (wrapper_protocol (residue_vdpf 2 0)) (\<lambda>b. Some (Inr b)) auth_key_try_from (cs ! 1) 10
        = client_tokens (wrapper_protocol (residue_vdpf 2 0)) demo_keys (Broadcast 1 (broadcaster_msg demo_experiment 1)) 10)
    \<and> (\<exists>cs. iter_clients demo_multi_experiment = map Client cs
      \<and> viewer_tokens (wrapper_protocol demo_multi) (ev_try_from_bytes (point_try_from_bytes (residue_sp\<lparr> sp_from_bytes := \<lambda>_. Some 5 \<rparr>)))
          auth_key_try_from (cs ! 1) 10
        = client_tokens (wrapper_protocol demo_multi) demo_keys
            (Broadcast 1 (replicate ((dpf_msg_size demo_multi + 31) div 32) (CurvePoint 5))) 10)"
proof
  have clients: "\<exists>cs. iter_clients e = map Client cs \<and> 1 < length cs" if e: "experiment_valid e" "ex_clients e = 2"
    for e :: "(nat, nat, nat) experiment_spec"
  proof -
    obtain cs where cs: "iter_clients e = map Client cs" "map client_idx cs = map of_nat [0..<max (experiment_channels e) 2]"
      using iter_clients_eq[OF e(1)] e(2) by auto
    then show ?thesis using map_eq_imp_length_eq[OF cs(2)] by auto
  qed
  show "\<exists>cs. iter_clients demo_experiment = map Client cs
      \<and> viewer_tokens (wrapper_protocol (residue_vdpf 2 0)) (\<lambda>b. Some (Inr b)) auth_key_try_from (cs ! 1) 10
        = client_tokens (wrapper_protocol (residue_vdpf 2 0)) demo_keys (Broadcast 1 (broadcaster_msg demo_experiment 1)) 10"
  proof -
    obtain cs where cs: "iter_clients demo_experiment = map Client cs" "1 < length cs"
      using clients[of demo_experiment] demo_ok(1) by (auto simp: experiment_new_iff)
    then show ?thesis
      using experiment_clients_act[OF cs, THEN conjunct1, rule_format, OF _ demo_ok(1), of 10]
      by (auto simp: demo_keys_def demo_experiment_def)
  qed
  show "\<exists>cs. iter_clients demo_multi_experiment = map Client cs
      \<and> viewer_tokens (wrapper_protocol demo_multi) (ev_try_from_bytes (point_try_from_bytes (residue_sp\<lparr> sp_from_bytes := \<lambda>_. Some 5 \<rparr>)))
          auth_key_try_from (cs ! 1) 10
        = client_tokens (wrapper_protocol demo_multi) demo_keys
            (Broadcast 1 (replicate ((dpf_msg_size demo_multi + 31) div 32) (CurvePoint 5))) 10"
  proof -
    obtain cs where cs: "iter_clients demo_multi_experiment = map Client cs" "1 < length cs"
      using clients[of demo_multi_experiment] demo_multi_ok(2) by (auto simp: experiment_new_iff)
    then show ?thesis
      using experiment_clients_act[OF cs, THEN conjunct2, THEN conjunct2, rule_format, OF _ demo_multi_ok(2),
          of "residue_sp\<lparr> sp_from_bytes := \<lambda>_. Some 5 \<rparr>" 5 10]
      by (auto simp: demo_keys_def demo_multi_experiment_def)
  qed
qed

section \<open>Messages on the wire\<close>

text \<open>Write tokens and audit shares of the two-server protocol arrive as they were sent: decoding an encoded
  token gives the token back, without an error and without a panic.\<close>

theorem two_key_messages_roundtrip:
  assumes "jubjub_crate R Q validR frv validQ" "list_all aes_seed_valid (tk_seeds (wt_key t))"
    and "validR (scalar_inner (ps_seed (wt_proof t)))" "validR (scalar_inner (ps_bit (wt_proof t)))"
    and "validR (scalar_inner (tok_seed (share_token s)))" "validR (scalar_inner (tok_bit (share_token s)))"
  shows "write_token_try_from (\<lambda>k. Some (two_key_key_try_from (\<lambda>b. b) aes_seed_try_from k)) (two_key_proof_try_from (scalar_try_from_vec R))
      (write_token_into (two_key_key_into (\<lambda>b. b) seed_bytes) (two_key_proof_into (scalar_to_bytes R)) t) = Some (Inr t)
    \<and> audit_share_try_from (two_key_token_try_from (scalar_try_from_vec R)) (audit_share_into (two_key_token_into (scalar_to_bytes R)) s) = Inr s"
  using jubjub_crate.two_key_wire[OF assms(1-4)] jubjub_crate.audit_share_wire(1)[OF assms(1,5,6)] by blast

text \<open>The same for the multi-key protocol, whose messages are vectors of curve points.\<close>

theorem multi_key_messages_roundtrip:
  assumes "jubjub_crate R Q validR frv validQ"
    and "list_all (\<lambda>p. validQ (point_inner p)) (mk_encoded_msg (wt_key t))"
    and "list_all (\<lambda>s. validR (scalar_inner s)) (mk_bits (wt_key t))" "list_all (\<lambda>s. validR (scalar_inner s)) (mk_seeds (wt_key t))"
    and "length (mk_bits (wt_key t)) = length (mk_seeds (wt_key t))"
    and "validR (scalar_inner (ps_seed (wt_proof t)))" "validR (scalar_inner (ps_bit (wt_proof t)))"
    and "validR (scalar_inner (tok_seed (share_token s)))" "validR (scalar_inner (tok_bit (share_token s)))"
  shows "write_token_try_from (multi_key_key_try_from (ev_try_from_vec (point_try_from_vec Q)) (scalar_try_from_vec R))
      (multi_key_proof_try_from (scalar_try_from_vec R))
      (write_token_into (multi_key_key_into (ev_to_vec (point_to_vec Q)) (scalar_to_bytes R))
        (multi_key_proof_into (scalar_to_bytes R)) t) = Some (Inr t)
    \<and> audit_share_try_from (multi_key_token_try_from (scalar_try_from_vec R))
        (audit_share_into (multi_key_token_into (scalar_to_bytes R)) s) = Inr s"
  using jubjub_crate.multi_key_wire[OF assms(1-7)] jubjub_crate.audit_share_wire(2)[OF assms(1,8,9)] by blast

text \<open>C20. Messages arrive as they were sent. The module \<open>proto\<close> of \<open>check_protocol!\<close> passes for all three protocols: write tokens,
  audit shares and accumulators that are encoded and decoded again are the same, without an error and without a panic.\<close>

theorem message_suites_pass:
  assumes "jubjub_crate R Q validR frv validQ"
    and "two_key_token_ok aes_seed_valid (\<lambda>a. validR (scalar_inner a)) n t" "audit_share_ok (\<lambda>a. validR (scalar_inner a)) s"
    and "two_key_token_ok aes_seed_valid (\<lambda>p. validQ (point_inner p)) n tp" "audit_share_ok (\<lambda>p. validQ (point_inner p)) sp"
    and "multi_key_token_ok (\<lambda>p. validQ (point_inner p)) (\<lambda>a. validR (scalar_inner a)) k n tm"
    and "list_all (list_all (\<lambda>p. validQ (point_inner p))) accm"
  shows "message_suite (two_key_wire_ops R) (two_key_write_token_into R) share_from_bytes bytes_try_from_share t s acc
    \<and> message_suite (pub_wire_ops Q) (pub_write_token_into Q) share_from_bytes bytes_try_from_share tp sp acc
    \<and> message_suite (multi_key_wire_ops R Q) (multi_key_write_token_into R Q) (share_from_elements (point_to_vec Q))
        (elements_try_from_share (point_try_from_vec Q)) tm s accm"
  by (intro conjI jubjub_crate.two_key_message_suite[OF assms(1-3)] jubjub_crate.pub_message_suite[OF assms(1,4,5)]
      jubjub_crate.multi_key_message_suite[OF assms(1,6,3,7)])

theorem message_suites_pass_witness:
  "message_suite (two_key_wire_ops residue_fr) (two_key_write_token_into residue_fr) share_from_bytes bytes_try_from_share
      (write_token_new (two_key_key [9] [True] [AesSeed (replicate 16 1)]) (proof_share_new (Scalar 3) (Scalar 4)))
      (AuditShare (token_new (Scalar 5) (Scalar 6) [1])) [[7]]
    \<and> message_suite (pub_wire_ops residue_sp) (pub_write_token_into residue_sp) share_from_bytes bytes_try_from_share
      (write_token_new (two_key_key [9] [True] [AesSeed (replicate 16 1)]) (proof_share_new (CurvePoint 3) (CurvePoint 4)))
      (AuditShare (token_new (CurvePoint 5) (CurvePoint 6) [1])) [[7]]
    \<and> message_suite (multi_key_wire_ops residue_fr residue_sp) (multi_key_write_token_into residue_fr residue_sp)
      (share_from_elements (point_to_vec residue_sp)) (elements_try_from_share (point_try_from_vec residue_sp))
      (write_token_new (the (multi_key_key [CurvePoint 9] [Scalar 1] [Scalar 2])) (proof_share_new (Scalar 3) (Scalar 4)))
      (AuditShare (token_new (Scalar 5) (Scalar 6) [1])) [[CurvePoint 8]]"
  by (rule message_suites_pass[OF residues.jubjub_crate_axioms, where n = 1 and k = 1])
    (simp_all add: two_key_token_ok_def multi_key_token_ok_def multi_key_valid_def audit_share_ok_def vec_valid_def write_token_new_def
      two_key_key_def multi_key_key_def proof_share_new_def token_new_def jubjub_order_eq aes_seed_valid_def SEED_SIZE_def)

text \<open>C21. The tests of \<open>services/quorum.rs\<close>, \<open>services/discovery.rs\<close> and \<open>services/retry.rs\<close> pass. With every store that keeps its
  contract: for all experiments there is a quorum with every service registered and none with one more or with fewer; any nodes
  with different services, as \<open>node_sets\<close> draws them, are resolved as they were registered; and the start time is read as it was
  written. With the store of \<open>from_string("")\<close> reading the start time fails when it is missing or malformed, and waiting for it
  fails when it is never set and succeeds when it is set. With every retry loop that keeps its contract an error policy of any
  positive number of attempts succeeds with a last attempt that succeeds and fails with one failure more, and one of no attempts
  panics. The texts of dates are those of the date library.\<close>

theorem quorum_suites_pass:
  assumes "discovery_store S store_wf key_ok entries" "store_wf st" "entries st = (\<lambda>_. None)"
    and "iter_services e = Some ss" "nodes_of_experiment ''localhost:8080'' e = Some nodes"
    and "to_config_key extra = Some key" "few \<in> set (subseqs nodes)" "length few < length nodes"
    and "parse (to_rfc3339 dt) = Inr dt" "parse ''not a valid RFC 3339 date'' = Inl err"
    and "list_all (\<lambda>n. \<nexists>c. node_service n = Client c) node_set" "distinct (map node_service node_set)"
    and "future_retry retry" "future_retry retry_unit" "0 < attempts"
  shows "test_has_quorum_just_right S debug st e = Some True \<and> test_has_quorum_too_few S debug st e few = Some True
    \<and> test_has_quorum_too_many S debug st e extra addr = Some True
    \<and> test_register_and_resolve S st node_set = Some True
    \<and> test_set_and_get_start_time S to_rfc3339 parse st dt = Some True
    \<and> test_get_start_time_missing_entry connect (wrapper_store_ops (inmem_ops iter) B) parse = Some True
    \<and> test_get_start_time_malformed_entry connect (wrapper_store_ops (inmem_ops iter) B) parse = Some True
    \<and> test_wait_for_start_time_set_unset retry connect (wrapper_store_ops (inmem_ops iter) B) parse = Some True
    \<and> test_wait_for_start_time_set_okay retry connect (wrapper_store_ops (inmem_ops iter) B) to_rfc3339 parse dt = Some True
    \<and> test_error_policy_zero_attempts = None
    \<and> test_error_policy_many_attempts_success retry_unit attempts = Some True
    \<and> test_error_policy_many_attempts_failure retry_unit attempts = Some True"
proof -
  have "list_all (\<lambda>n. \<exists>k. to_config_key (node_service n) = Some k) node_set"
    using assms(11) by (simp add: list_all_iff service_has_key)
  then have "test_register_and_resolve S st node_set = Some True"
    by (rule discovery_store.register_and_resolve_passes[OF assms(1-3) _ assms(12)])
  moreover have "test_set_and_get_start_time S to_rfc3339 parse st dt = Some True"
    using discovery_store.start_time_test_passes[OF assms(1,2), of parse to_rfc3339 dt] assms(9) by blast
  ultimately show ?thesis
    using discovery_store.quorum_tests_pass[OF assms(1-4,6,5,7,8)] zero_attempts_panics retry_tests_pass[OF assms(14,15)]
      start_time_entry_tests_pass[where parse = parse and connect = connect and iter = iter and B = B, OF assms(10)]
      wait_tests_pass[where parse = parse and ?to_rfc3339.0 = to_rfc3339 and now = dt and connect = connect and iter = iter and B = B,
        OF assms(13,9)]
    by simp
qed

definition demo_parse :: "string \<Rightarrow> string + nat" where
  "demo_parse s = (case parse_uint 1000 s of None \<Rightarrow> Inl ''?'' | Some n \<Rightarrow> Inr n)"

theorem quorum_suites_pass_witness:
  "test_has_quorum_just_right (inmem_ops rev) (\<lambda>_. ''?'') inmem_new demo_experiment = Some True
    \<and> test_has_quorum_too_few (inmem_ops rev) (\<lambda>_. ''?'') inmem_new demo_experiment [] = Some True
    \<and> test_has_quorum_too_many (inmem_ops rev) (\<lambda>_. ''?'') inmem_new demo_experiment (Leader \<lparr> leader_group = \<lparr> group_idx = 7 \<rparr> \<rparr>) ''a:1'' = Some True
    \<and> test_register_and_resolve (inmem_ops rev) inmem_new
        [\<lparr> node_service = Leader \<lparr> leader_group = \<lparr> group_idx = 9 \<rparr> \<rparr> :: (nat, nat) service, node_addr = ''b:2'' \<rparr>] = Some True
    \<and> test_set_and_get_start_time (inmem_ops rev) nat_to_string demo_parse inmem_new 42 = Some True
    \<and> test_wait_for_start_time_set_okay run_retry (\<lambda>_. Inl ''?'') (wrapper_store_ops (inmem_ops rev) (etcd_ops list_kv)) nat_to_string
        demo_parse 42 = Some True
    \<and> test_error_policy_many_attempts_success run_retry 3 = Some True"
proof -
  let ?nodes = "map (\<lambda>s. \<lparr> node_service = s, node_addr = ''localhost:8080'' \<rparr>) demo_services"
  have nodes: "nodes_of_experiment ''localhost:8080'' demo_experiment = Some ?nodes"
    using demo_ok(2) by (simp add: nodes_of_experiment_def)
  have "0 < length demo_services" using iter_services_count[OF demo_ok(2,3)] by simp
  moreover have "demo_parse (nat_to_string 42) = Inr 42"
    using parse_nat_to_string[of 42 1000] by (simp add: demo_parse_def)
  moreover have "demo_parse ''not a valid RFC 3339 date'' = Inl ''?''" by code_simp
  ultimately show ?thesis
    using quorum_suites_pass[OF inmem_discovery_store[OF hash_order_rev] _ _ demo_ok(2) nodes, of inmem_new
        "Leader \<lparr> leader_group = \<lparr> group_idx = 7 \<rparr> \<rparr>" _ "[]" demo_parse nat_to_string 42 "''?''"
        "[\<lparr> node_service = Leader \<lparr> leader_group = \<lparr> group_idx = 9 \<rparr> \<rparr>, node_addr = ''b:2'' \<rparr>]" run_retry run_retry 3 "\<lambda>_. ''?''" "''a:1''"
        "\<lambda>_. Inl ''?''" rev "etcd_ops list_kv"]
    by (auto simp: inmem_new_def to_config_key_def run_retry.future_retry_axioms)
qed

text \<open>The command line of a worker names it: the numbers that \<open>run_new_processes\<close> prints, parsed by the worker's
  program, give the group and the index of the worker that was to be started.\<close>

theorem worker_command_names_worker:
  assumes "service_command to_json dir (Worker w) = Some (cmd, files)"
  shows "\<exists>g i g' i'. cmd_args cmd = [''--log-level'', ''info'', ''--group'', g, ''--index'', i]
    \<and> parse_uint (2 ^ 16) g = Some g' \<and> parse_uint (2 ^ 16) i = Some i' \<and> worker_info_from_args (of_nat g') (of_nat i') = Some w"
  using worker_command_args[OF assms] .

theorem worker_command_names_worker_witness:
  "\<exists>g i g' i'. [''--log-level'', ''info'', ''--group'', ''2'', ''--index'', ''1''] = [''--log-level'', ''info'', ''--group'', g, ''--index'', i]
    \<and> parse_uint (2 ^ 16) g = Some g' \<and> parse_uint (2 ^ 16) i = Some i'
    \<and> worker_info_from_args (of_nat g') (of_nat i') = Some (demo_worker 1 0)"
proof -
  have "service_command (\<lambda>_. []) ''/tmp'' (Worker (demo_worker 1 0) :: (nat, nat) service)
      = Some (\<lparr> cmd_program = ''worker'', cmd_args = [''--log-level'', ''info'', ''--group'', ''2'', ''--index'', ''1''] \<rparr>, [])"
    by (simp add: service_command_def demo_worker_def u16_checked_add_def) (code_simp)
  from worker_command_names_worker[OF this] show ?thesis by simp
qed

text \<open>C39. The program of a broadcaster draws a random 128-bit index instead of being given that of its channel. With
  an index of more than 64 bits, making the write tokens panics.\<close>

theorem broadcaster_random_index_panics:
  assumes "broadcaster_from_args read_file from_json args random = Inr info" "2 ^ 64 \<le> unat random"
  shows "viewer_tokens T msg_from key_from info r = None"
  using broadcaster_index_panics[OF assms] .

theorem broadcaster_random_index_panics_witness:
  "viewer_tokens tiny_protocol (\<lambda>b. Some (Inr b)) (\<lambda>_. Inr True)
    (new_broadcaster (2 ^ 64) [7] (wrapper_from_auth_key (Scalar (3 :: nat)) :: (nat, nat) channel_key_wrapper)) 10 = None"
proof -
  have "broadcaster_from_args (\<lambda>_. Inr []) (\<lambda>_. Inr (wrapper_from_auth_key (Scalar (3 :: nat)) :: (nat, nat) channel_key_wrapper))
      \<lparr> ba_msg = Some [7], ba_msg_file = None, ba_key_file = ''key'' \<rparr> (2 ^ 64)
    = Inr (new_broadcaster (2 ^ 64) [7] (wrapper_from_auth_key (Scalar (3 :: nat))))"
    by (simp add: broadcaster_from_args_def)
  from broadcaster_random_index_panics[OF this] show ?thesis by simp
qed

section \<open>Primitives\<close>

text \<open>C35. Private information retrieval with the linear scheme: a database is made exactly of a non-empty list of rows of
  equal length; combining the answers of the servers to the queries for a row gives that row, whatever the random bits
  of the queries, and a row that is not there is refused.\<close>

theorem linear_pir_fetches_row:
  assumes "linear_db_new data = Some D" "0 < N"
  shows "(idx < length data \<longrightarrow> pir_fetch (linear_pir gen N D) idx r = Some (data ! idx))
    \<and> (length data \<le> idx \<longrightarrow> linear_queries gen N idx (length data) r = Some (Inl ()))"
proof -
  have D: "linear_db_valid D" "ldb_data D = data" using linear_db_new_valid[OF assms(1)] by blast+
  obtain M where N: "N = Suc M" using assms(2) gr0_implies_Suc by blast
  have "pir_fetch (linear_pir gen N D) idx r = Some (data ! idx)" if "idx < length data"
    using pir_contract.fetch_correct[OF linear_pir_contract[OF D(1)], of idx gen M r] that D(2)
    by (simp add: N linear_pir_def)
  then show ?thesis by (simp add: linear_queries_def)
qed

theorem linear_pir_fetches_row_witness:
  "pir_fetch (linear_pir (\<lambda>r. (even r, r + 3 :: nat)) 3 \<lparr> row_len = 2, ldb_data = [[1, 2], [3, 4], [5, 6]] \<rparr>) 1 10 = Some [3, 4]"
proof -
  have "linear_db_new [[1, 2], [3, 4], [5, 6]] = Some \<lparr> row_len = 2, ldb_data = [[1, 2], [3, 4], [5, 6]] \<rparr>"
    by (simp add: linear_db_new_def)
  from linear_pir_fetches_row[OF this, of 3 1] show ?thesis by simp
qed

text \<open>Secret sharing of vectors over an abelian group: any two or more shares of a vector recover it, whatever
  the randomness, and fewer than two are refused.\<close>

theorem vector_shares_recover:
  assumes "ab_group_laws G valid" "sampler_in valid sample" "list_all valid vs"
  shows "(2 \<le> n \<longrightarrow> (\<exists>shares r'. vec_share (group_shareable G sample) vs n r = Some (shares, r')
      \<and> vec_recover (group_shareable G sample) shares = Some vs))
    \<and> (n < 2 \<longrightarrow> vec_share (group_shareable G sample) vs n r = None)"
  using shareable.vec_share_recover[OF ab_group_laws.group_shareable[OF assms(1,2)] assms(3)]
    shareable.vec_share_too_few[OF ab_group_laws.group_shareable[OF assms(1,2)]] by blast

theorem vector_shares_recover_witness:
  "\<exists>shares r'. vec_share (group_shareable (intmod_field 11) (\<lambda>r. (intmod_reduce 11 r, r + 4))) [IntMod 3, IntMod 10] 3 7 = Some (shares, r')
    \<and> vec_recover (group_shareable (intmod_field 11) (\<lambda>r. (intmod_reduce 11 r, r + 4))) shares = Some [IntMod 3, IntMod 10]"
proof -
  have "sampler_in (intmod_valid 11) (\<lambda>r. (intmod_reduce 11 r, r + 4 :: nat))" by (simp add: sampler_in_def intmod_reduce_valid)
  from vector_shares_recover[OF ints_mod_p.ab_group_laws_axioms this, of "[IntMod 3, IntMod 10]" 3 7]
  show ?thesis by (simp add: intmod_valid_def)
qed

text \<open>C36. \<open>^=\<close> on byte strings, which works in chunks of 128 bytes on long strings, computes the same as \<open>^\<close>, and panics
  for the same operands.\<close>

theorem xor_assign_equals_xor: "bytes_bitxor_assign a b = bytes_bitxor a b"
proof (cases "length a = length b")
  case True
  then show ?thesis by (simp add: bytes_bitxor_assign_eq bytes_bitxor_eq)
next
  case False
  then show ?thesis by (simp add: bytes_bitxor_assign_def bytes_bitxor_def bytes_len_def)
qed

text \<open>The generator over the curve group is seed homomorphic: evaluated at a sum of seeds it gives the sum of the
  values at the seeds, which is what lets servers combine their shares.\<close>

theorem group_prg_homomorphic:
  assumes "jubjub_crate R Q validR frv validQ" "list_all (\<lambda>g. validQ (point_inner g)) (generators prg)"
    and "list_all (\<lambda>s. validR (scalar_inner s)) ss"
  shows "group_prg_eval (curve_exp Q) prg (fold_add (scalar_field R) ss)
    = fold_add (vec_monoid (curve_exp Q) (group_prg_len prg)) (map (group_prg_eval (curve_exp Q) prg) ss)"
proof -
  let ?sample = "\<lambda>r :: unit. (m_zero (scalar_field R), r)"
  have "sampler_in (\<lambda>s. validR (scalar_inner s)) ?sample"
    using jubjub_crate.fr_consts(1)[OF assms(1)] by (simp add: sampler_in_def scalar_zero_def)
  then have "group_prg_setup (curve_exp Q) (\<lambda>p. validQ (point_inner p)) (scalar_field R) (\<lambda>s. validR (scalar_inner s)) ?sample prg"
    by (intro group_prg_setup.intro group_prg_setup_axioms.intro jubjub_crate.curve_exp_laws[OF assms(1)] assms(2))
  from seed_homomorphic_prg.expand_fold[OF group_prg_setup.group_prg_seed_homomorphic[OF this] assms(3)]
  show ?thesis by simp
qed

theorem group_prg_homomorphic_witness:
  "group_prg_eval (curve_exp residue_sp) (group_prg_new [CurvePoint 2, CurvePoint 5]) (fold_add (scalar_field residue_fr) [Scalar 3, Scalar 4])
    = fold_add (vec_monoid (curve_exp residue_sp) 2)
        (map (group_prg_eval (curve_exp residue_sp) (group_prg_new [CurvePoint 2, CurvePoint 5])) [Scalar 3, Scalar 4])"
  using group_prg_homomorphic[OF residues.jubjub_crate_axioms, of "group_prg_new [CurvePoint 2, CurvePoint 5]" "[Scalar 3, Scalar 4]"]
  by (simp add: group_prg_new_def group_prg_len_def jubjub_order_eq numeral_2_eq_2)

text \<open>C40. Integers modulo \<open>N\<close> stay reduced: addition, subtraction and multiplication of reduced representatives give the
  reduced representative of the result; negation does so exactly for a non-zero operand, as it stores \<open>N\<close> for minus zero.\<close>

theorem intmod_reduced:
  assumes "1 < N" "intmod_valid N a" "intmod_valid N b"
  shows "\<exists>s d p n. intmod_add N a b = Some s \<and> intmod_valid N s \<and> unat (inner s) = (unat (inner a) + unat (inner b)) mod unat N
    \<and> intmod_sub N a b = Some d \<and> intmod_valid N d \<and> unat (inner d) = (unat (inner a) + unat N - unat (inner b)) mod unat N
    \<and> intmod_mul N a b = Some p \<and> intmod_valid N p \<and> unat (inner p) = (unat (inner a) * unat (inner b)) mod unat N
    \<and> intmod_neg N a = Some n \<and> (intmod_valid N n \<longleftrightarrow> inner a \<noteq> 0)"
proof -
  have N: "N \<noteq> 0" "0 < unat N" using assms(1) by (auto simp: word_less_nat_alt)
  have le: "inner a \<le> N" "inner b \<le> N" using assms by (simp_all add: intmod_valid_def)
  have sub: "\<exists>d. intmod_sub N a b = Some d" using N le by (simp add: intmod_sub_def intmod_neg_def intmod_add_eq)
  have "intmod_valid N (IntMod (N - inner a)) \<longleftrightarrow> inner a \<noteq> 0"
    using le(1) N unat_eq_zero[of "inner a"] by (auto simp: intmod_valid_def word_less_nat_alt unat_sub word_le_nat_alt)
  then show ?thesis
    using N le sub repr_add[OF N(1), of a b] repr_mul[OF N(1), of a b] repr_sub[OF N(1) le(2), of a]
    by (auto simp: intmod_add_eq intmod_mul_eq intmod_neg_def intmod_valid_iff le_imp_diff_is_add word_le_nat_alt)
qed

theorem intmod_reduced_witness:
  "\<exists>s d p n. intmod_add 11 (IntMod 0) (IntMod 3) = Some s \<and> intmod_valid 11 s \<and> intmod_sub 11 (IntMod 0) (IntMod 3) = Some d
    \<and> unat (inner d) = 8 \<and> intmod_mul 11 (IntMod 0) (IntMod 3) = Some p \<and> intmod_neg 11 (IntMod 0) = Some n \<and> \<not> intmod_valid 11 n"
  using intmod_reduced[of 11 "IntMod 0" "IntMod 3"] by (auto simp: intmod_valid_def)

section \<open>The end of an experiment\<close>

text \<open>C25. When all processes run in one program, none of them stops, and the program does not return successfully, before the
  publisher has the shares of all groups, has been started, and every client has had all its write tokens accepted.\<close>

theorem in_process_ends_after_publisher:
  assumes "runtime_barrier B" "run_in_process B S to_json st e = Some (Inr (st', procs, ip0))" "0 < parties"
    and "(ip_step B (ex_hammer e) parties procs)\<^sup>*\<^sup>* ip0 ip"
    and "i < length procs \<and> ip_procs ip ! i = Stopped \<or> ip_result ip = Some (Inr d)"
  shows "parties \<le> ip_shares ip \<and> ip_started ip
    \<and> (\<forall>j < length procs. is_client (procs ! j) \<longrightarrow> \<not> ex_hammer e \<and> ip_procs ip ! j \<in> {Uploaded, Stopped})"
  by (rule runtime_barrier.ends_after_publisher[OF assms])

theorem in_process_ends_after_publisher_witness:
  "\<exists>ip :: (nat \<times> party list) in_process. 2 \<le> ip_shares ip \<and> ip_started ip
    \<and> (\<forall>j < length (demo_services @ iter_clients demo_experiment). is_client ((demo_services @ iter_clients demo_experiment) ! j) \<longrightarrow>
        \<not> ex_hammer demo_experiment \<and> ip_procs ip ! j \<in> {Uploaded, Stopped})"
proof -
  have hammer: "\<not> ex_hammer demo_experiment" by (simp add: demo_experiment_def)
  obtain st' ip0 ip d where run: "run_in_process counting_barrier (inmem_ops (\<lambda>m. m)) (\<lambda>_. Inr ''demo'') inmem_new demo_experiment
       = Some (Inr (st', demo_services @ iter_clients demo_experiment, ip0))"
     "(ip_step counting_barrier False 2 (demo_services @ iter_clients demo_experiment))\<^sup>*\<^sup>* ip0 ip" "ip_result ip = Some (Inr d)"
    using demo_finishes by blast
  have steps: "(ip_step counting_barrier (ex_hammer demo_experiment) 2 (demo_services @ iter_clients demo_experiment))\<^sup>*\<^sup>* ip0 ip"
    using run(2) hammer by simp
  show ?thesis by (rule exI[of _ ip], rule in_process_ends_after_publisher[OF counting.runtime_barrier_axioms run(1) _ steps disjI2[OF run(3)]]) simp
qed

text \<open>C26. Unless the experiment hammers or a process has failed, such a run can be continued from every state it reaches to
  a successful return.\<close>

theorem in_process_can_finish:
  assumes "runtime_barrier B" "run_in_process B S to_json st e = Some (Inr (st', procs, ip0))" "0 < parties" "\<not> ex_hammer e"
    and "(ip_step B (ex_hammer e) parties procs)\<^sup>*\<^sup>* ip0 ip" "ip_result ip = None" "set (ip_procs ip) \<inter> {Broken, Orphaned} = {}"
  shows "\<exists>ip' d. (ip_step B (ex_hammer e) parties procs)\<^sup>*\<^sup>* ip ip' \<and> ip_result ip' = Some (Inr d) \<and> 0 \<le> d"
  by (rule runtime_barrier.may_finish[OF assms])

theorem in_process_can_finish_witness:
  "\<exists>st' ip ip' d. run_in_process counting_barrier (inmem_ops (\<lambda>m. m)) (\<lambda>_. Inr ''demo'') inmem_new demo_experiment
       = Some (Inr (st', demo_services @ iter_clients demo_experiment, ip))
     \<and> (ip_step counting_barrier False 2 (demo_services @ iter_clients demo_experiment))\<^sup>*\<^sup>* ip ip' \<and> ip_result ip' = Some (Inr d) \<and> 0 \<le> d"
proof -
  obtain st' ip where run: "run_in_process counting_barrier (inmem_ops (\<lambda>m. m)) (\<lambda>_. Inr ''demo'') inmem_new demo_experiment
     = Some (Inr (st', demo_services @ iter_clients demo_experiment, ip))" using demo_in_process by blast
  have "set (ip_procs ip) \<subseteq> {Starting}"
    using run by (auto simp: run_in_process_def bind_eq_Some_conv Let_def split: sum.splits)
  then show ?thesis
    using in_process_can_finish[OF counting.runtime_barrier_axioms run, of 2 ip] run counting.run_in_process_inv(2)[OF run, of 2] by (fastforce simp: demo_experiment_def)
qed

text \<open>C27. A client that failed before its uploads, and hammering when there is a client, exclude a successful return: the
  barrier is never opened, and what remains is the timeout.\<close>

theorem in_process_failure_times_out:
  assumes "runtime_barrier B" "run_in_process B S to_json st e = Some (Inr (st', procs, ip0))" "0 < parties"
    and "(ip_step B (ex_hammer e) parties procs)\<^sup>*\<^sup>* ip0 ip" "j < length procs" "is_client (procs ! j)"
    and "ex_hammer e \<or> ip_procs ip ! j = Broken" "ip_result ip = Some res"
  shows "res = Inl ''Task timed out after 10s.''"
  by (rule runtime_barrier.failure_times_out[OF assms])

theorem in_process_failure_times_out_witness:
  "\<exists>ip :: (nat \<times> party list) in_process. ip_procs ip ! length demo_services = Broken \<and> ip_result ip = Some (Inl ''Task timed out after 10s.'')"
proof -
  let ?procs = "demo_services @ iter_clients demo_experiment" and ?i = "length demo_services"
  obtain st' ip0 ip where run: "run_in_process counting_barrier (inmem_ops (\<lambda>m. m)) (\<lambda>_. Inr ''demo'') inmem_new demo_experiment
       = Some (Inr (st', ?procs, ip0))" "(ip_step counting_barrier False 2 ?procs)\<^sup>*\<^sup>* ip0 ip" "ip_procs ip ! ?i = Broken" "ip_result ip \<noteq> None"
    using demo_times_out by blast
  have "res = Inl ''Task timed out after 10s.''" if "ip_result ip = Some res" for res
    using in_process_failure_times_out[OF counting.runtime_barrier_axioms run(1), of 2 ip ?i res] run(2,3) demo_first_client that by (simp add: demo_experiment_def)
  then show ?thesis using run(3,4) by blast
qed

text \<open>C28. The upload loop of a client ends exactly when the client does not hammer and each of its tokens is accepted by its
  worker at some attempt; it then made one round.\<close>

theorem client_loop_ends_iff:
  "(\<exists>m. viewer_loop T token_into info clients hammer send n tokens r = Some m) \<longleftrightarrow>
   \<not> hammer \<and> (\<forall>(client, req) \<in> set (viewer_uploads token_into info clients tokens). \<exists>j resp. send n client req j = Inr resp)"
  by (rule viewer_loop_iff)

theorem client_loop_ends_iff_witness:
  "\<exists>m. viewer_loop (wrapper_protocol (residue_vdpf 2 0)) (\<lambda>_. \<lparr> pwt_inner = None \<rparr>) (client_info_new 7 :: (nat, nat) client_info) [''a'', ''b''] False
     (\<lambda>n client req j. if j < 3 then Inl () else Inr ()) 0 [] (5 :: nat) = Some m"
  using client_loop_ends_iff[of "wrapper_protocol (residue_vdpf 2 0)" "\<lambda>_. \<lparr> pwt_inner = None \<rparr>" "client_info_new 7 :: (nat, nat) client_info"
      "[''a'', ''b'']" False "\<lambda>n client req j. if j < 3 then Inl () else Inr ()" 0 "[]" 5]
  by (simp add: viewer_uploads_def)

section \<open>The test suites of the repository\<close>

text \<open>C29. The suite \<open>check_protocol!\<close> for the two-server protocol passes on all inputs: for every message, channel, vector of
  keys, wrong key, accumulator and source of randomness.\<close>

theorem two_key_protocol_suite_passes:
  assumes "crypto env validR frv validQ" "two_key_vdpf env channels msg_size = Some V"
    and "length msg = msg_size" "idx < channels"
    and "vec_valid (\<lambda>k. validR (scalar_inner k)) channels keys" "validR (scalar_inner bad_key)"
    and "vec_valid (\<lambda>b. length b = msg_size) channels acc"
  shows "protocol_suite (wrapper_protocol V) bytes_acc msg_size keys msg idx bad_key acc r"
  using crypto.two_key_protocol_suite[OF assms] .

theorem two_key_protocol_suite_passes_witness:
  "protocol_suite (wrapper_protocol (residue_vdpf 2 0)) bytes_acc SEED_SIZE demo_keys (replicate 16 7) 1 (Scalar 9)
     [replicate 16 1, replicate 16 2] (10 :: nat)"
  by (rule two_key_protocol_suite_passes[OF residue_crypto.crypto_axioms demo_vdpf])
    (use demo_ok(5) in \<open>simp_all add: vec_valid_def jubjub_order_eq SEED_SIZE_def\<close>)

text \<open>C30. The same for the multi-key protocol with any number of servers.\<close>

theorem multi_key_protocol_suite_passes:
  assumes "crypto env validR frv validQ" "multi_key_vdpf env channels groups msg_size s = (V, s')" "2 \<le> groups"
    and "vec_valid (\<lambda>p. validQ (point_inner p)) (msg_size div 32 + 1) msg" "idx < channels"
    and "vec_valid (\<lambda>k. validR (scalar_inner k)) channels keys" "validR (scalar_inner bad_key)"
    and "vec_valid (vec_valid (\<lambda>p. validQ (point_inner p)) (msg_size div 32 + 1)) channels acc"
  shows "protocol_suite (wrapper_protocol V) (ev_acc (curve_exp (env_sp env))) (Some (msg_size div 32 + 1)) keys msg idx bad_key acc r"
  using crypto.multi_key_protocol_suite[OF assms] .

theorem multi_key_protocol_suite_passes_witness:
  "protocol_suite (wrapper_protocol demo_multi) (ev_acc (curve_exp residue_sp)) (Some 1) demo_keys [CurvePoint 5] 1 (Scalar 9)
     [[CurvePoint 1], [CurvePoint 2]] (10 :: nat)"
  using multi_key_protocol_suite_passes[OF residue_crypto.crypto_axioms demo_multi_ok(1), of "[CurvePoint 5]" 1 demo_keys "Scalar 9"
      "[[CurvePoint 1], [CurvePoint 2]]" 10] demo_ok(5)
  by (simp add: vec_valid_def jubjub_order_eq)

text \<open>C31. The tests of \<open>config/store.rs\<close> pass for the in-memory store, in whatever order its hash map iterates, and for the etcd
  store over every empty service that keeps its contract, for all keys that the tests draw.\<close>

theorem store_suites_pass:
  assumes "hash_order iter" "etcd_service K contents" "contents c = (\<lambda>_. None)"
    and "test_key key" "list_all test_key sufs" "list_all test_key other_keys"
  shows "store_suite (inmem_ops iter) inmem_new key sufs other_keys v w \<and> store_suite (etcd_ops K) c key sufs other_keys v w"
  using inmem_store_suite[OF assms(1,4-6)] etcd_service.etcd_store_suite[OF assms(2-6)] by simp

theorem store_suites_pass_witness:
  "store_suite (inmem_ops rev) inmem_new [''a''] [[''b''], [''c'']] [[''ab'']] ''v'' ''w''
    \<and> store_suite (etcd_ops list_kv) [] [''a''] [[''b''], [''c'']] [[''ab'']] ''v'' ''w''"
  by (rule store_suites_pass[OF hash_order_rev list_etcd.etcd_service_axioms])
    (simp_all add: test_key_def word_char_def fun_eq_iff)

text \<open>C32. Tests of the scalars, the group generator and vectors of points pass on all inputs: for scalars the associativity,
  commutativity, identity and distributivity of \<open>check_field_laws!\<close> (its inverses are not among them), \<open>check_shareable!\<close>,
  \<open>check_linearly_shareable!\<close>, \<open>check_sampleable!\<close> (drawing scalars from a seed) and the conversion to bytes and back; for the group
  generator \<open>check_seed_homomorphic_prg!\<close>; and for vectors of points the conversion to bytes and back, and that of the bytes of
  the generator of the curve.\<close>

theorem curve_suites_pass:
  assumes "crypto env validR frv validQ"
    and "validR (scalar_inner a)" "validR (scalar_inner b)" "validR (scalar_inner c)" "2 \<le> num_shares" "idx < num_shares"
    and "group_prg_random (point_sample (env_random_sp env)) k s = (prg, s')"
    and "list_all (\<lambda>p. validQ (point_inner p)) ps" "aes_seed_valid seed"
  shows "field_test_mul_associative (scalar_field (env_fr env)) a b c \<and> field_test_mul_commutative (scalar_field (env_fr env)) a b
    \<and> field_test_mul_identity (scalar_field (env_fr env)) a \<and> field_test_distributive (scalar_field (env_fr env)) a b c
    \<and> sharing_suite (group_shareable (scalar_field (env_fr env)) (scalar_sample (env_random_fr env)))
        (scalar_field (env_fr env)) a b num_shares idx r
    \<and> shprg_suite (group_prg_ops (curve_exp (env_sp env)) (scalar_field (env_fr env)) (scalar_sample (env_random_fr env)) prg)
        (scalar_field (env_fr env)) a b
    \<and> scalar_to_vec_u8 (env_fr env) a = Some True
    \<and> element_vector_vec_u8_rt (env_sp env) ps = Some True \<and> bytes_element_vector_rt (env_sp env) = Some True
    \<and> sampleable_suite (scalar_sample_many_from_seed (env_fr env) (env_encrypt env)) seed n"
proof -
  have crate: "jubjub_crate (env_fr env) (env_sp env) validR frv validQ" using assms(1) by (rule crypto.axioms)
  show ?thesis
    by (intro conjI crypto.curve_suites[OF assms(1-7)] crypto.scalar_samples[OF assms(1,9)]
        jubjub_crate.scalar_test_passes[OF crate assms(2)] jubjub_crate.point_tests_pass(2)[OF crate assms(8)]
        jubjub_crate.point_tests_pass(3)[OF crate])
qed

theorem curve_suites_pass_witness:
  "\<exists>prg. field_test_distributive (scalar_field residue_fr) (Scalar 4) (Scalar 5) (Scalar 6)
    \<and> sharing_suite (group_shareable (scalar_field residue_fr) (scalar_sample (env_random_fr residue_env)))
        (scalar_field residue_fr) (Scalar 4) (Scalar 5) 3 1 (7 :: nat)
    \<and> shprg_suite (group_prg_ops (curve_exp residue_sp) (scalar_field residue_fr) (scalar_sample (env_random_fr residue_env)) prg)
        (scalar_field residue_fr) (Scalar 4) (Scalar 5)
    \<and> element_vector_vec_u8_rt residue_sp [CurvePoint 2, CurvePoint 3] = Some True
    \<and> sampleable_suite (scalar_sample_many_from_seed residue_fr (env_encrypt residue_env)) (AesSeed (replicate 16 1)) 5"
proof -
  obtain prg s' where prg: "group_prg_random (point_sample (env_random_sp residue_env)) 2 3 = (prg, s')" by fastforce
  show ?thesis
    using curve_suites_pass[OF residue_crypto.crypto_axioms _ _ _ _ _ prg, of
        "Scalar 4" "Scalar 5" "Scalar 6" 3 1 "[CurvePoint 2, CurvePoint 3]" "AesSeed (replicate 16 1)" 7 5]
    by (auto simp: jubjub_order_eq aes_seed_valid_def SEED_SIZE_def)
qed

text \<open>C33. The suites of \<open>IntModP\<close> pass on all inputs: the group and field laws with inverses, the laws of exponentiation for all bases
  and, independent of them, all exponents, sharing and linear sharing with every sampler of field elements, and drawing elements
  from a seed.\<close>

theorem int_mod_p_suites_pass:
  assumes "intmod_valid 11 a" "intmod_valid 11 b" "intmod_valid 11 c" "2 \<le> num_shares" "idx < num_shares"
    and "sampler_in (intmod_valid 11) sample" "sampler_in (\<lambda>v. v < 11) (gen_range 11)"
    and "intmod_valid 11 x" "intmod_valid 11 y"
  shows "group_suite (intmod_field 11) a b c \<and> field_suite (intmod_field 11) a b c
    \<and> exponent_suite (intmod_exp 11) (intmod_field 11) a b c x y
    \<and> sharing_suite (group_shareable (intmod_field 11) sample) (intmod_field 11) a b num_shares idx r
    \<and> sampleable_suite (intmod_sample_many_from_seed from_seed gen_range 11) seed n"
  by (intro conjI int_mod_p_suites[OF assms(1-6,8,9)] intmod_sampleable_suite[of 11 gen_range, OF assms(7)])

theorem int_mod_p_suites_pass_witness:
  "group_suite (intmod_field 11) (IntMod 3) (IntMod 9) (IntMod 10) \<and> field_suite (intmod_field 11) (IntMod 3) (IntMod 9) (IntMod 10)
    \<and> exponent_suite (intmod_exp 11) (intmod_field 11) (IntMod 3) (IntMod 9) (IntMod 10) (IntMod 2) (IntMod 7)
    \<and> sharing_suite (group_shareable (intmod_field 11) (\<lambda>r. (intmod_reduce 11 r, r + 1))) (intmod_field 11) (IntMod 3) (IntMod 9) 3 1 (5 :: nat)
    \<and> sampleable_suite (intmod_sample_many_from_seed (\<lambda>s. s) (\<lambda>N r. (word_of_nat (r mod unat N), r + 1)) 11) (6 :: nat) 4"
proof -
  have "intmod_valid 11 (IntMod 3)" "intmod_valid 11 (IntMod 9)" "intmod_valid 11 (IntMod 10)"
    "intmod_valid 11 (IntMod 2)" "intmod_valid 11 (IntMod 7)" by (simp_all add: intmod_valid_def)
  moreover have "sampler_in (intmod_valid 11) (\<lambda>r. (intmod_reduce 11 r, r + 1 :: nat))"
    by (simp add: sampler_in_def intmod_reduce_valid)
  moreover have "sampler_in (\<lambda>v. v < 11) (\<lambda>r. (word_of_nat (r mod unat (11 :: u8)) :: u8, r + 1 :: nat))"
  proof -
    have "word_of_nat (r mod 11) < (11 :: u8)" for r :: nat
    proof -
      have "r mod 11 < 11" by simp
      then have "r mod 11 < 2 ^ 8" by (rule order.strict_trans) simp
      then show ?thesis by (simp add: word_less_nat_alt unsigned_of_nat take_bit_nat_eq_self)
    qed
    then show ?thesis by (simp add: sampler_in_def)
  qed
  ultimately show ?thesis by (intro int_mod_p_suites_pass) simp_all
qed

end
